(* ===== verification/Walb_Prelude.thy ===== *)
theory Walb_Prelude
  imports Main "HOL-Library.Word" "HOL-Library.Multiset"
begin

text \<open>
  Shared vocabulary of the development: the C integer types of the driver as words of
  their width, transition systems with their invariants, and the generic facts on words and
  lists that several components use.

  The model follows the default build of \<^verbatim>\<open>module/Makefile\<close>: a release build
  (\<^verbatim>\<open>WALB_DEBUG\<close> off, so \<^verbatim>\<open>ASSERT\<close> expands to nothing) with overlapped-write
  serialization on (\<^verbatim>\<open>WALB_OVERLAPPED_SERIALIZE\<close>).  What the sources assert is
  therefore not a guard of a definition but, where it matters, a lemma.
\<close>

unbundle bit_operations_syntax

type_synonym u8 = "8 word"
type_synonym u16 = "16 word"
type_synonym u32 = "32 word"
type_synonym u64 = "64 word"

text \<open>\<^verbatim>\<open>unsigned long\<close> and pointers of the 64-bit kernel the driver is built for.\<close>

type_synonym ulong = "64 word"

section \<open>Transition systems\<close>

text \<open>
  The concurrent parts of the driver are step relations on a record of shared state and thread
  positions.  An invariant that holds in the start states and is kept by every step holds in
  every reachable state.
\<close>

inductive reach :: "('s \<Rightarrow> 's \<Rightarrow> bool) \<Rightarrow> 's \<Rightarrow> 's \<Rightarrow> bool" for step s0 where
  reach_start: "reach step s0 s0"
| reach_step: "reach step s0 s \<Longrightarrow> step s s' \<Longrightarrow> reach step s0 s'"

lemma reach_two: "reach step s0 s \<Longrightarrow> step s s1 \<Longrightarrow> step s1 s2 \<Longrightarrow> reach step s0 s2"
  by (blast intro: reach_step)

lemma reach_three: "reach step s0 s \<Longrightarrow> step s s1 \<Longrightarrow> step s1 s2 \<Longrightarrow> step s2 s3 \<Longrightarrow> reach step s0 s3"
  by (blast intro: reach_step)

locale inductive_invariant =
  fixes step :: "'s \<Rightarrow> 's \<Rightarrow> bool" and start :: "'s \<Rightarrow> bool" and inv :: "'s \<Rightarrow> bool"
  assumes inv_start: "start s \<Longrightarrow> inv s"
    and inv_step: "step s s' \<Longrightarrow> inv s \<Longrightarrow> inv s'"
begin

lemma reach_inv:
  assumes "reach step s0 s" and "start s0"
  shows "inv s"
  using assms by (induction rule: reach.induct) (auto intro: inv_start inv_step)

end

section \<open>Words read as natural numbers\<close>

lemma unat_add_nowrap:
  fixes a b :: "'a::len word"
  assumes "unat a + unat b < 2 ^ LENGTH('a)"
  shows "unat (a + b) = unat a + unat b"
  using assms by (simp add: unat_word_ariths)

lemma unat_sub_nowrap:
  fixes a b :: "'a::len word"
  assumes "b \<le> a"
  shows "unat (a - b) = unat a - unat b"
  using assms by (rule unat_sub)

lemma unat_mult_nowrap:
  fixes a b :: "'a::len word"
  assumes "unat a * unat b < 2 ^ LENGTH('a)"
  shows "unat (a * b) = unat a * unat b"
  using assms by (simp add: unat_word_ariths)

lemma len64: "LENGTH(64) = 64"
  by simp

lemma unat_u32_lt: "unat (a :: u32) < 4294967296"
  using unsigned_less [of a] by simp

lemma unat_u64_lt: "unat (a :: u64) < 18446744073709551616"
  using unsigned_less [of a] by simp

lemma unat_u16_lt: "unat (a :: u16) < 65536"
  using unsigned_less [of a] by simp

lemma unat_ucast_u32_u64 [simp]: "unat (ucast (a :: u32) :: u64) = unat a"
  using unat_u32_lt [of a] by (simp add: unsigned_ucast_eq take_bit_nat_eq_self)

lemma unat_ucast_u16_u64 [simp]: "unat (ucast (a :: u16) :: u64) = unat a"
  using unat_u16_lt [of a] by (simp add: unsigned_ucast_eq take_bit_nat_eq_self)

lemma unat_ucast_u16_u32 [simp]: "unat (ucast (a :: u16) :: u32) = unat a"
  using unat_u16_lt [of a] by (simp add: unsigned_ucast_eq take_bit_nat_eq_self)

lemma unat_ucast_u16: "unat (a :: 'a::len word) < 65536 \<Longrightarrow> unat (ucast a :: u16) = unat a"
  by (simp add: unsigned_ucast_eq take_bit_nat_eq_self)

lemma unat_ucast_u32: "unat (a :: 'a::len word) < 4294967296 \<Longrightarrow> unat (ucast a :: u32) = unat a"
  by (simp add: unsigned_ucast_eq take_bit_nat_eq_self)

lemma word_neq_0_unat: "(a :: 'a::len word) \<noteq> 0 \<longleftrightarrow> 0 < unat a"
  by (simp add: unat_gt_0)

section \<open>Neighbours in a list of distinct elements\<close>

text \<open>
  The successor and the predecessor of an element in a list, as a linked list's
  \<^verbatim>\<open>next\<close> and \<^verbatim>\<open>prev\<close> pointers give them.
\<close>

fun next_of :: "'a list \<Rightarrow> 'a \<Rightarrow> 'a option" where
  "next_of [] x = None"
| "next_of [y] x = None"
| "next_of (y # z # zs) x = (if y = x then Some z else next_of (z # zs) x)"

definition prev_of :: "'a list \<Rightarrow> 'a \<Rightarrow> 'a option" where
  "prev_of xs x = next_of (rev xs) x"

lemma next_of_append:
  "x \<notin> set xs \<Longrightarrow> next_of (xs @ x # ys) x = (case ys of [] \<Rightarrow> None | y # _ \<Rightarrow> Some y)"
proof (induction xs)
  case Nil
  then show ?case by (cases ys) auto
next
  case (Cons a xs)
  then show ?case by (cases xs) auto
qed

lemma prev_of_append:
  "x \<notin> set ys \<Longrightarrow> prev_of (xs @ x # ys) x = (if xs = [] then None else Some (last xs))"
  unfolding prev_of_def
  by (simp add: next_of_append)
     (cases xs rule: rev_cases; simp)

end
