(* ===== verification/Walb_Bits.thy ===== *)
theory Walb_Bits
  imports Walb_Prelude
begin

text \<open>
  Bit fields and checksums shared by the kernel module and the tools:
  \<^verbatim>\<open>include/linux/walb/u32bits.h\<close>, \<^verbatim>\<open>u64bits.h\<close>, \<^verbatim>\<open>checksum.h\<close> and the hash of
  \<^verbatim>\<open>util.h\<close>.  Memory is a list of bytes; \<^verbatim>\<open>memcpy\<close> of four bytes into a
  \<^verbatim>\<open>u32\<close> is read little-endian, the byte order of the machines the on-disk format is
  tied to (the format is documented as not portable between byte orders).
\<close>

section \<open>u32bits.h and u64bits.h\<close>

definition test_bit_u32 :: "nat \<Rightarrow> u32 \<Rightarrow> bool" where
  "test_bit_u32 nr addr = ((addr AND push_bit nr 1) \<noteq> 0)"

definition set_bit_u32 :: "nat \<Rightarrow> u32 \<Rightarrow> u32" where
  "set_bit_u32 nr addr = (addr OR push_bit nr 1)"

definition clear_bit_u32 :: "nat \<Rightarrow> u32 \<Rightarrow> u32" where
  "clear_bit_u32 nr addr = (addr AND NOT (push_bit nr 1))"

definition test_bit_u64 :: "nat \<Rightarrow> u64 \<Rightarrow> bool" where
  "test_bit_u64 nr addr = ((addr AND push_bit nr 1) \<noteq> 0)"

definition set_bit_u64 :: "nat \<Rightarrow> u64 \<Rightarrow> u64" where
  "set_bit_u64 nr addr = (addr OR push_bit nr 1)"

definition clear_bit_u64 :: "nat \<Rightarrow> u64 \<Rightarrow> u64" where
  "clear_bit_u64 nr addr = (addr AND NOT (push_bit nr 1))"

lemma and_push_bit_1:
  "((a :: 'a::len word) AND push_bit nr 1 \<noteq> 0) = bit a nr"
proof
  assume "a AND push_bit nr 1 \<noteq> 0"
  then obtain n where "bit (a AND push_bit nr 1) n"
    by (auto simp: bit_eq_iff)
  then show "bit a nr"
    by (auto simp: bit_simps)
next
  assume b: "bit a nr"
  then have "bit (a AND push_bit nr 1) nr"
    by (auto simp: bit_simps dest: bit_imp_le_length)
  then show "a AND push_bit nr 1 \<noteq> 0"
    by (metis bit_0_eq bot_apply bot_bool_def)
qed

lemma test_bit_u32_bit: "test_bit_u32 nr a = bit a nr"
  unfolding test_bit_u32_def by (rule and_push_bit_1)

lemma test_bit_u64_bit: "test_bit_u64 nr a = bit a nr"
  unfolding test_bit_u64_def by (rule and_push_bit_1)

lemma bit_set_bit_u32: "bit (set_bit_u32 nr a) m = (bit a m \<or> (m = nr \<and> nr < 32))"
  by (auto simp: set_bit_u32_def bit_simps)

lemma bit_clear_bit_u32: "bit (clear_bit_u32 nr a) m = (bit a m \<and> m \<noteq> nr)"
  by (auto simp: clear_bit_u32_def bit_simps dest: bit_imp_le_length)

lemma bit_set_bit_u64: "bit (set_bit_u64 nr a) m = (bit a m \<or> (m = nr \<and> nr < 64))"
  by (auto simp: set_bit_u64_def bit_simps)

lemma bit_clear_bit_u64: "bit (clear_bit_u64 nr a) m = (bit a m \<and> m \<noteq> nr)"
  by (auto simp: clear_bit_u64_def bit_simps dest: bit_imp_le_length)

lemma test_set_bit_u32 [simp]:
  "nr < 32 \<Longrightarrow> test_bit_u32 m (set_bit_u32 nr a) = (m = nr \<or> test_bit_u32 m a)"
  by (auto simp: test_bit_u32_bit bit_set_bit_u32)

lemma test_clear_bit_u32 [simp]:
  "test_bit_u32 m (clear_bit_u32 nr a) = (m \<noteq> nr \<and> test_bit_u32 m a)"
  by (auto simp: test_bit_u32_bit bit_clear_bit_u32)

lemma test_set_bit_u64 [simp]:
  "nr < 64 \<Longrightarrow> test_bit_u64 m (set_bit_u64 nr a) = (m = nr \<or> test_bit_u64 m a)"
  by (auto simp: test_bit_u64_bit bit_set_bit_u64)

lemma test_clear_bit_u64 [simp]:
  "test_bit_u64 m (clear_bit_u64 nr a) = (m \<noteq> nr \<and> test_bit_u64 m a)"
  by (auto simp: test_bit_u64_bit bit_clear_bit_u64)

lemma test_bit_u32_0 [simp]: "\<not> test_bit_u32 nr 0"
  by (simp add: test_bit_u32_def)

lemma test_bit_u64_0 [simp]: "\<not> test_bit_u64 nr 0"
  by (simp add: test_bit_u64_def)

section \<open>checksum.h\<close>

fun u32_of_bytes :: "u8 \<Rightarrow> u8 \<Rightarrow> u8 \<Rightarrow> u8 \<Rightarrow> u32" where
  "u32_of_bytes b0 b1 b2 b3 =
     ucast b0 OR push_bit 8 (ucast b1) OR push_bit 16 (ucast b2) OR push_bit 24 (ucast b3)"

declare u32_of_bytes.simps [simp del]

definition bytes_of_u32 :: "u32 \<Rightarrow> u8 list" where
  "bytes_of_u32 w =
     [ucast w, ucast (drop_bit 8 w), ucast (drop_bit 16 w), ucast (drop_bit 24 w)]"

text \<open>
  The loop of \<^verbatim>\<open>checksum_partial\<close>: one word of the buffer per iteration.  The caller's
  buffer holds at least \<^verbatim>\<open>size\<close> bytes; the last equation is the end of the loop.
\<close>

fun checksum_loop :: "u32 \<Rightarrow> nat \<Rightarrow> u8 list \<Rightarrow> u32" where
  "checksum_loop acc (Suc n) (b0 # b1 # b2 # b3 # p) =
     checksum_loop (acc + u32_of_bytes b0 b1 b2 b3) n p"
| "checksum_loop acc _ _ = acc"

definition checksum_partial :: "u32 \<Rightarrow> u8 list \<Rightarrow> nat \<Rightarrow> u32" where
  "checksum_partial acc dat sz = checksum_loop acc (sz div 4) dat"

definition checksum_finish :: "u32 \<Rightarrow> u32" where
  "checksum_finish acc = NOT acc + 1"

definition checksum :: "u8 list \<Rightarrow> nat \<Rightarrow> u32 \<Rightarrow> u32" where
  "checksum dat sz salt = checksum_finish (checksum_partial salt dat sz)"

lemma bytes_of_u32_length [simp]: "length (bytes_of_u32 w) = 4"
  by (simp add: bytes_of_u32_def)

lemma u32_of_bytes_of_u32:
  "u32_of_bytes (ucast w) (ucast (drop_bit 8 w)) (ucast (drop_bit 16 w))
     (ucast (drop_bit 24 w)) = w"
proof (rule bit_word_eqI)
  fix n assume "n < LENGTH(32)"
  then have n: "n < 32" by simp
  consider "n < 8" | "8 \<le> n" "n < 16" | "16 \<le> n" "n < 24" | "24 \<le> n"
    by linarith
  then show "bit (u32_of_bytes (ucast w) (ucast (drop_bit 8 w)) (ucast (drop_bit 16 w))
       (ucast (drop_bit 24 w))) n = bit w n"
    using n by cases (auto simp: bit_simps u32_of_bytes.simps)
qed

lemma checksum_finish_neg: "checksum_finish s = - s"
  by (simp add: checksum_finish_def minus_eq_not_plus_1)

text \<open>The sum of the words of a buffer: the reference definition of the checksum.\<close>

fun word_sum :: "u8 list \<Rightarrow> u32" where
  "word_sum (b0 # b1 # b2 # b3 # p) = u32_of_bytes b0 b1 b2 b3 + word_sum p"
| "word_sum _ = 0"

lemma four_bytes_cases:
  assumes "length xs = 4 * Suc n"
  obtains b0 b1 b2 b3 ys where "xs = b0 # b1 # b2 # b3 # ys" "length ys = 4 * n"
  using assms by (auto simp: length_Suc_conv numeral_eq_Suc)

lemma checksum_loop_word_sum:
  "length xs = 4 * n \<Longrightarrow> checksum_loop s n (xs @ ys) = s + word_sum xs"
proof (induction n arbitrary: s xs)
  case 0
  then show ?case by simp
next
  case (Suc n)
  from Suc.prems obtain b0 b1 b2 b3 xs' where "xs = b0 # b1 # b2 # b3 # xs'" "length xs' = 4 * n"
    by (rule four_bytes_cases)
  then show ?case using Suc.IH by (simp add: add.assoc)
qed

lemma word_sum_append:
  "4 dvd length xs \<Longrightarrow> word_sum (xs @ ys) = word_sum xs + word_sum ys"
proof (induction xs rule: word_sum.induct)
  case (1 b0 b1 b2 b3 p)
  have "4 dvd length p"
    using "1.prems" by (simp add: numeral_eq_Suc dvd_def) presburger
  then show ?case using "1.IH" by (simp add: add.assoc)
qed (simp_all add: dvd_def, presburger+)

lemma word_sum_bytes_of_u32 [simp]: "word_sum (bytes_of_u32 w) = w"
  by (simp add: bytes_of_u32_def u32_of_bytes_of_u32)

lemma checksum_partial_word_sum:
  assumes "4 dvd n" "n \<le> length xs"
  shows "checksum_partial s xs n = s + word_sum (take n xs)"
proof -
  have "length (take n xs) = 4 * (n div 4)"
    using assms by simp
  from checksum_loop_word_sum [OF this, of s "drop n xs"] show ?thesis
    by (simp add: checksum_partial_def)
qed

lemma checksum_word_sum:
  assumes "4 dvd n" "n \<le> length xs"
  shows "checksum xs n salt = - (salt + word_sum (take n xs))"
  using assms by (simp add: checksum_def checksum_finish_neg checksum_partial_word_sum)

text \<open>
  The checksum of a buffer may be computed piecewise: feeding two adjacent pieces to
  \<^verbatim>\<open>checksum_partial\<close> one after the other gives the checksum of the whole.
\<close>

theorem checksum_partial_incremental:
  assumes "4 dvd length xs" "4 dvd length ys"
  shows "checksum_partial (checksum_partial s xs (length xs)) ys (length ys) =
         checksum_partial s (xs @ ys) (length xs + length ys)"
  using assms by (simp add: checksum_partial_word_sum word_sum_append add.assoc)

text \<open>A block whose checksum field, between \<^verbatim>\<open>pre\<close> and \<^verbatim>\<open>post\<close>, holds the checksum taken with the field zeroed.\<close>

definition sealed_block :: "u8 list \<Rightarrow> u8 list \<Rightarrow> u32 \<Rightarrow> u8 list" where
  "sealed_block pre post salt =
     pre @ bytes_of_u32
       (checksum (pre @ bytes_of_u32 0 @ post) (length pre + 4 + length post) salt) @ post"

text \<open>
  The self-verifying block discipline of the super block and the logpack header: the
  checksum is computed over the block with its checksum field zeroed and then stored there
  (\<^verbatim>\<open>walb_write_super_sector\<close>, \<^verbatim>\<open>submit_logpack\<close>); a block sealed like that has checksum
  zero, which is what \<^verbatim>\<open>is_valid_logpack_header_with_checksum\<close> and
  \<^verbatim>\<open>walb_read_super_sector\<close> test.
\<close>

theorem checksum_sealed_block_zero:
  assumes "4 dvd length pre" "4 dvd length post"
  shows "checksum (sealed_block pre post salt) (length (sealed_block pre post salt)) salt = 0"
proof -
  have "4 dvd length pre + 4 + length post"
    using assms by (intro dvd_add) auto
  then show ?thesis using assms
    by (simp add: sealed_block_def checksum_word_sum word_sum_append algebra_simps)
qed

section \<open>Struct fields in memory\<close>

text \<open>
  A word stored in \<^verbatim>\<open>n\<close> bytes, least significant byte first, and read back.  The
  on-disk structures of the driver are packed sequences of such fields.
\<close>

definition le_bytes :: "nat \<Rightarrow> 'a::len word \<Rightarrow> u8 list" where
  "le_bytes n w = map (\<lambda>i. ucast (drop_bit (8 * i) w)) [0..<n]"

fun le_word :: "u8 list \<Rightarrow> 'a::len word" where
  "le_word [] = 0"
| "le_word (b # bs) = ucast b OR push_bit 8 (le_word bs)"

lemma le_bytes_length [simp]: "length (le_bytes n w) = n"
  by (simp add: le_bytes_def)

lemma bit_le_word:
  "bit (le_word bs :: 'a::len word) i =
     (i < LENGTH('a) \<and> i div 8 < length bs \<and> bit (bs ! (i div 8)) (i mod 8))"
proof (induction bs arbitrary: i)
  case (Cons b bs)
  show ?case
  proof (cases "i < 8")
    case True
    then show ?thesis by (auto simp: bit_simps dest: bit_imp_le_length)
  next
    case False
    then obtain j where j: "i = j + 8" by (metis add.commute le_Suc_ex not_less)
    moreover have "(j + 8) div 8 = Suc (j div 8)" by simp
    ultimately show ?thesis using Cons [of j] by (auto simp: bit_simps dest: bit_imp_le_length)
  qed
qed simp

lemma le_word_le_bytes:
  assumes "LENGTH('a) \<le> 8 * n"
  shows "le_word (le_bytes n w) = (w :: 'a::len word)"
proof (rule bit_word_eqI)
  fix i assume "i < LENGTH('a)"
  then have "i div 8 < n" using assms by linarith
  moreover have "8 * (i div 8) + i mod 8 = i" by simp
  ultimately show "bit (le_word (le_bytes n w) :: 'a word) i = bit w i"
    using \<open>i < LENGTH('a)\<close> by (auto simp: bit_le_word le_bytes_def bit_simps)
qed

lemma le_bytes_u32: "le_bytes 4 (w :: u32) = bytes_of_u32 w"
  by (simp add: le_bytes_def bytes_of_u32_def upt_rec)

text \<open>Taking the leading field off a byte string.\<close>

lemma take_le_bytes [simp]: "take n (le_bytes n w @ bs) = le_bytes n w"
  by simp

lemma drop_le_bytes [simp]: "drop n (le_bytes n w @ bs) = bs"
  by simp

section \<open>util.h\<close>

definition hex_digit :: "nat \<Rightarrow> char" where
  "hex_digit d = (''0123456789ABCDEF'' ! (d mod 16))"

text \<open>One \<^verbatim>\<open>sprintf(..., "%02X ", b)\<close>.\<close>

definition sprint_byte :: "u8 \<Rightarrow> string" where
  "sprint_byte b = [hex_digit (unat b div 16), hex_digit (unat b mod 16), CHR '' '']"

text \<open>
  \<^verbatim>\<open>sprint_hex\<close> returns the written length together with the string buffer (without its
  terminating NUL); on a buffer that is too small it returns 0 and writes nothing.
\<close>

definition sprint_hex :: "int \<Rightarrow> u8 list \<Rightarrow> int \<times> string" where
  "sprint_hex str_size dat =
     (let sz = int (length dat) in
      if str_size < sz * 3 + 1 then (0, [])
      else (sz * 3, concat (map sprint_byte dat)))"

definition UUID_SIZE :: nat where
  "UUID_SIZE = 16"

definition sprint_uuid :: "int \<Rightarrow> u8 list \<Rightarrow> int \<times> string" where
  "sprint_uuid str_size uuid = sprint_hex str_size (take UUID_SIZE uuid)"

fun fnv1a_loop :: "u32 \<Rightarrow> u8 list \<Rightarrow> nat \<Rightarrow> u32" where
  "fnv1a_loop v (x # xs) (Suc n) = fnv1a_loop ((v XOR ucast x) * 16777619) xs n"
| "fnv1a_loop v _ _ = v"

definition fnv1a_hash :: "u8 list \<Rightarrow> nat \<Rightarrow> u32" where
  "fnv1a_hash x n = fnv1a_loop 2166136261 x n"

lemma sprint_hex_length:
  "length (snd (sprint_hex str_size dat)) = nat (fst (sprint_hex str_size dat))"
  by (simp add: sprint_hex_def Let_def length_concat comp_def sprint_byte_def sum_list_triv nat_mult_distrib)

end
