(* ===== verification/Walb_Sector.thy ===== *)
theory Walb_Sector
  imports Walb_Bits
begin

text \<open>
  Sector buffers and arrays of sectors: \<^verbatim>\<open>include/linux/walb/sector.h\<close>.  A sector owns a
  buffer (a list of bytes behind a pointer that may be NULL); a sector array is an array of
  pointers to sectors of one size.  Every access that C leaves undefined (a NULL pointer, an
  index or a byte range out of bounds, a division by zero) is the value \<^const>\<open>None\<close>, so that
  ``returns \<^const>\<open>Some\<close>'' includes memory safety.  Sizes are \<^verbatim>\<open>unsigned int\<close>: they are
  natural numbers here, and the sum the copy loop forms is reduced modulo $2^{32}$ as in C.
  The results of \<^verbatim>\<open>MALLOC\<close>, \<^verbatim>\<open>AMALLOC\<close>, \<^verbatim>\<open>ZALLOC\<close> and \<^verbatim>\<open>REALLOC\<close> are arguments.
\<close>

section \<open>Byte buffers\<close>

definition mem_read :: "u8 list \<Rightarrow> nat \<Rightarrow> nat \<Rightarrow> u8 list option" where
  "mem_read buf off n = (if off + n \<le> length buf then Some (take n (drop off buf)) else None)"

definition mem_write :: "u8 list \<Rightarrow> nat \<Rightarrow> u8 list \<Rightarrow> u8 list option" where
  "mem_write buf off bs =
     (if off + length bs \<le> length buf
      then Some (take off buf @ bs @ drop (off + length bs) buf) else None)"

text \<open>The value of a buffer after a write that is in bounds.\<close>

definition overwrite :: "nat \<Rightarrow> 'a list \<Rightarrow> 'a list \<Rightarrow> 'a list" where
  "overwrite off bs buf = take off buf @ bs @ drop (off + length bs) buf"

lemma mem_write_overwrite:
  "off + length bs \<le> length buf \<Longrightarrow> mem_write buf off bs = Some (overwrite off bs buf)"
  by (simp add: mem_write_def overwrite_def)

lemma mem_read_in:
  "off + n \<le> length buf \<Longrightarrow> mem_read buf off n = Some (take n (drop off buf))"
  by (simp add: mem_read_def)

lemma length_overwrite [simp]:
  "off + length bs \<le> length buf \<Longrightarrow> length (overwrite off bs buf) = length buf"
  by (simp add: overwrite_def)

lemma overwrite_nil [simp]: "overwrite off [] buf = buf"
  by (simp add: overwrite_def)

lemma overwrite_append:
  "off + length bs + length cs \<le> length buf \<Longrightarrow>
   overwrite (off + length bs) cs (overwrite off bs buf) = overwrite off (bs @ cs) buf"
  by (simp add: overwrite_def ac_simps)

lemma take_drop_overwrite:
  "off + length bs \<le> length buf \<Longrightarrow> take (length bs) (drop off (overwrite off bs buf)) = bs"
  by (simp add: overwrite_def)

section \<open>One sector\<close>

record sector_data =
  sd_size :: nat
  sd_data :: "u8 list option"

definition is_valid_sector_data :: "sector_data option \<Rightarrow> bool" where
  "is_valid_sector_data sect =
     (case sect of None \<Rightarrow> False | Some s \<Rightarrow> sd_size s > 0 \<and> sd_data s \<noteq> None)"

definition sector_alloc :: "nat \<Rightarrow> bool \<Rightarrow> u8 list option \<Rightarrow> sector_data option" where
  "sector_alloc sector_size malloc_ok amalloc =
     (if \<not> malloc_ok then None
      else case amalloc of
        None \<Rightarrow> None
      | Some buf \<Rightarrow> Some \<lparr>sd_size = sector_size, sd_data = Some buf\<rparr>)"

definition sector_zeroclear :: "sector_data \<Rightarrow> sector_data option" where
  "sector_zeroclear sect =
     (case sd_data sect of
        None \<Rightarrow> None
      | Some buf \<Rightarrow>
          map_option (\<lambda>b. sect\<lparr>sd_data := Some b\<rparr>) (mem_write buf 0 (replicate (sd_size sect) 0)))"

definition sector_alloc_zero :: "nat \<Rightarrow> bool \<Rightarrow> u8 list option \<Rightarrow> sector_data option" where
  "sector_alloc_zero sector_size malloc_ok amalloc =
     Option.bind (sector_alloc sector_size malloc_ok amalloc) sector_zeroclear"

definition sector_copy :: "sector_data \<Rightarrow> sector_data \<Rightarrow> sector_data option" where
  "sector_copy dst src =
     Option.bind (sd_data dst) (\<lambda>d.
     Option.bind (sd_data src) (\<lambda>s.
     Option.bind (mem_read s 0 (sd_size src)) (\<lambda>bs.
     map_option (\<lambda>b. dst\<lparr>sd_data := Some b\<rparr>) (mem_write d 0 bs))))"

definition is_same_size_sector :: "sector_data \<Rightarrow> sector_data \<Rightarrow> bool" where
  "is_same_size_sector sect0 sect1 = (sd_size sect0 = sd_size sect1)"

definition is_same_sector :: "sector_data \<Rightarrow> sector_data \<Rightarrow> bool option" where
  "is_same_sector sect0 sect1 =
     (if \<not> is_same_size_sector sect0 sect1 then Some False
      else Option.bind (sd_data sect0) (\<lambda>d0.
           Option.bind (sd_data sect1) (\<lambda>d1.
           Option.bind (mem_read d0 0 (sd_size sect1)) (\<lambda>b0.
           Option.bind (mem_read d1 0 (sd_size sect1)) (\<lambda>b1.
           Some (b0 = b1))))))"

text \<open>A sector whose buffer really has the size the sector records.\<close>

definition sector_wf :: "sector_data \<Rightarrow> bool" where
  "sector_wf s \<longleftrightarrow> 0 < sd_size s \<and> (\<exists>b. sd_data s = Some b \<and> length b = sd_size s)"

definition sector_bytes :: "sector_data \<Rightarrow> u8 list" where
  "sector_bytes s = (case sd_data s of None \<Rightarrow> [] | Some b \<Rightarrow> b)"

lemma sector_wf_valid: "sector_wf s \<Longrightarrow> is_valid_sector_data (Some s)"
  by (auto simp: sector_wf_def is_valid_sector_data_def)

lemma sector_wf_data: "sector_wf s \<Longrightarrow> sd_data s = Some (sector_bytes s)"
  by (auto simp: sector_wf_def sector_bytes_def)

lemma sector_wf_length: "sector_wf s \<Longrightarrow> length (sector_bytes s) = sd_size s"
  by (auto simp: sector_wf_def sector_bytes_def)

lemma sector_copy_ok:
  assumes "sector_wf dst" "sector_wf src" "sd_size dst = sd_size src"
  shows "sector_copy dst src = Some (dst\<lparr>sd_data := sd_data src\<rparr>)"
  using assms
  by (auto simp: sector_copy_def sector_wf_def mem_read_def mem_write_def)

lemma is_same_sector_ok:
  assumes "sector_wf s0" "sector_wf s1"
  shows "is_same_sector s0 s1 = Some (sector_bytes s0 = sector_bytes s1)"
  using assms
  by (auto simp: is_same_sector_def is_same_size_sector_def sector_wf_def mem_read_def
      sector_bytes_def)

lemma sector_zeroclear_ok:
  "sector_wf s \<Longrightarrow> sector_zeroclear s = Some (s\<lparr>sd_data := Some (replicate (sd_size s) 0)\<rparr>)"
  by (auto simp: sector_zeroclear_def sector_wf_def mem_write_def)

section \<open>Sector arrays\<close>

record sector_data_array =
  sa_sector_size :: nat
  sa_size :: nat
  sa_array :: "sector_data option list"

text \<open>\<^verbatim>\<open>array[i]\<close>: None out of the allocated array or for a NULL entry.\<close>

definition sector_at :: "sector_data_array \<Rightarrow> nat \<Rightarrow> sector_data option" where
  "sector_at ary i = (if i < length (sa_array ary) then sa_array ary ! i else None)"

fun valid_sectors_from :: "sector_data_array \<Rightarrow> nat \<Rightarrow> nat \<Rightarrow> bool" where
  "valid_sectors_from ary i 0 = True"
| "valid_sectors_from ary i (Suc k) =
     (case sector_at ary i of
        None \<Rightarrow> False
      | Some s \<Rightarrow> is_valid_sector_data (Some s) \<and> sd_size s = sa_sector_size ary \<and>
                  valid_sectors_from ary (Suc i) k)"

definition is_valid_sector_data_array :: "sector_data_array option \<Rightarrow> bool" where
  "is_valid_sector_data_array sect_ary =
     (case sect_ary of
        None \<Rightarrow> False
      | Some ary \<Rightarrow> sa_size ary \<noteq> 0 \<and> valid_sectors_from ary 0 (sa_size ary))"

fun alloc_sectors :: "nat \<Rightarrow> nat \<Rightarrow> (bool \<times> u8 list option) list \<Rightarrow> sector_data option list option" where
  "alloc_sectors sector_size 0 allocs = Some []"
| "alloc_sectors sector_size (Suc n) [] = None"
| "alloc_sectors sector_size (Suc n) (a # allocs) =
     (case sector_alloc sector_size (fst a) (snd a) of
        None \<Rightarrow> None
      | Some s \<Rightarrow> map_option ((#) (Some s)) (alloc_sectors sector_size n allocs))"

definition sector_array_alloc ::
    "nat \<Rightarrow> nat \<Rightarrow> bool \<Rightarrow> bool \<Rightarrow> (bool \<times> u8 list option) list \<Rightarrow> sector_data_array option" where
  "sector_array_alloc sector_size n_sectors malloc_ok zalloc_ok allocs =
     (if \<not> malloc_ok \<or> \<not> zalloc_ok then None
      else map_option
             (\<lambda>a. \<lparr>sa_sector_size = sector_size, sa_size = n_sectors, sa_array = a\<rparr>)
             (alloc_sectors sector_size n_sectors allocs))"

text \<open>
  \<^verbatim>\<open>sector_array_realloc\<close>: shrinking frees the tail and sets its entries to NULL; growing
  reallocates the pointer array, then allocates the new sectors one by one and, when one of
  them fails, frees the new ones again and leaves \<^verbatim>\<open>size\<close> as it was.
\<close>

definition sector_array_realloc ::
    "sector_data_array \<Rightarrow> nat \<Rightarrow> bool \<Rightarrow> (bool \<times> u8 list option) list \<Rightarrow> bool \<times> sector_data_array" where
  "sector_array_realloc ary n_sectors realloc_ok allocs =
     (if sa_size ary > n_sectors then
        (True, ary\<lparr>sa_size := n_sectors,
                   sa_array := take n_sectors (sa_array ary)
                     @ replicate (sa_size ary - n_sectors) None
                     @ drop (sa_size ary) (sa_array ary)\<rparr>)
      else if sa_size ary < n_sectors then
        (if \<not> realloc_ok then (False, ary)
         else
           (let old = take (sa_size ary) (sa_array ary); grow = n_sectors - sa_size ary in
            case alloc_sectors (sa_sector_size ary) grow allocs of
              None \<Rightarrow> (False, ary\<lparr>sa_array := old @ replicate grow None\<rparr>)
            | Some new \<Rightarrow> (True, ary\<lparr>sa_array := old @ new, sa_size := n_sectors\<rparr>)))
      else (True, ary))"

definition get_sector_data_in_array :: "sector_data_array \<Rightarrow> nat \<Rightarrow> sector_data option" where
  "get_sector_data_in_array ary idx = sector_at ary idx"

text \<open>Writing and reading a byte range of the sector at an index.\<close>

definition sector_write :: "sector_data_array \<Rightarrow> nat \<Rightarrow> nat \<Rightarrow> u8 list \<Rightarrow> sector_data_array option" where
  "sector_write ary idx off bs =
     Option.bind (sector_at ary idx) (\<lambda>s.
     Option.bind (sd_data s) (\<lambda>d.
     Option.bind (mem_write d off bs) (\<lambda>d'.
     Some (ary\<lparr>sa_array := (sa_array ary)[idx := Some (s\<lparr>sd_data := Some d'\<rparr>)]\<rparr>))))"

definition sector_read :: "sector_data_array \<Rightarrow> nat \<Rightarrow> nat \<Rightarrow> nat \<Rightarrow> u8 list option" where
  "sector_read ary idx off n =
     Option.bind (sector_at ary idx) (\<lambda>s.
     Option.bind (sd_data s) (\<lambda>d. mem_read d off n))"

text \<open>
  \<^verbatim>\<open>sector_array_copy_detail\<close>, the loop of the two copies.  It returns the array and the
  memory area; \<^verbatim>\<open>is_from\<close> says which of the two is written.
\<close>

lemma copy_step_decreases:
  fixes copied :: nat
  assumes "copied < sz" "0 < ss"
  shows "sz - (copied + min (ss - p mod ss) (sz - copied)) < sz - copied"
  using assms mod_less_divisor [OF assms(2), of p] by linarith

function copy_detail_loop ::
    "bool \<Rightarrow> nat \<Rightarrow> nat \<Rightarrow> nat \<Rightarrow> sector_data_array \<Rightarrow> u8 list \<Rightarrow> (sector_data_array \<times> u8 list) option" where
  "copy_detail_loop is_from offset sz copied ary dat =
     (if copied < sz then
        (let ss = sa_sector_size ary in
         if ss = 0 then None
         else
           (let pos = (offset + copied) mod 2 ^ 32;
                idx = pos div ss; off = pos mod ss;
                tmp_size = min (ss - off) (sz - copied) in
            if is_from then
              Option.bind (mem_read dat copied tmp_size) (\<lambda>bs.
              Option.bind (sector_write ary idx off bs) (\<lambda>ary'.
              copy_detail_loop is_from offset sz (copied + tmp_size) ary' dat))
            else
              Option.bind (sector_read ary idx off tmp_size) (\<lambda>bs.
              Option.bind (mem_write dat copied bs) (\<lambda>dat'.
              copy_detail_loop is_from offset sz (copied + tmp_size) ary dat'))))
      else Some (ary, dat))"
  by pat_completeness auto
termination
  by (relation "measure (\<lambda>(_, _, sz, copied, _, _). sz - copied)")
     (auto intro: copy_step_decreases)

declare copy_detail_loop.simps [simp del]

definition sector_array_copy_detail ::
    "sector_data_array \<Rightarrow> nat \<Rightarrow> u8 list option \<Rightarrow> nat \<Rightarrow> bool \<Rightarrow>
     (sector_data_array \<times> u8 list option) option" where
  "sector_array_copy_detail ary offset dat sz is_from =
     (case dat of
        None \<Rightarrow> Some (ary, None)
      | Some d \<Rightarrow> map_option (\<lambda>(a, d'). (a, Some d')) (copy_detail_loop is_from offset sz 0 ary d))"

definition sector_array_copy_from ::
    "sector_data_array \<Rightarrow> nat \<Rightarrow> u8 list option \<Rightarrow> nat \<Rightarrow> sector_data_array option" where
  "sector_array_copy_from ary offset dat sz =
     map_option fst (sector_array_copy_detail ary offset dat sz True)"

definition sector_array_copy_to ::
    "sector_data_array \<Rightarrow> nat \<Rightarrow> u8 list option \<Rightarrow> nat \<Rightarrow> u8 list option option" where
  "sector_array_copy_to ary offset dat sz =
     map_option snd (sector_array_copy_detail ary offset dat sz False)"

text \<open>
  \<^verbatim>\<open>memcmp\<close> of two byte lists of one length: the sign of the first difference.  The
  difference of two sizes is an \<^verbatim>\<open>unsigned int\<close> returned as an \<^verbatim>\<open>int\<close>.
\<close>

fun memcmp :: "u8 list \<Rightarrow> u8 list \<Rightarrow> int" where
  "memcmp (a # as) (b # bs) =
     (if a = b then memcmp as bs else if a < b then - 1 else 1)"
| "memcmp _ _ = 0"

fun compare_loop :: "sector_data_array \<Rightarrow> sector_data_array \<Rightarrow> nat \<Rightarrow> nat \<Rightarrow> int option" where
  "compare_loop ary0 ary1 i 0 = Some 0"
| "compare_loop ary0 ary1 i (Suc k) =
     Option.bind (sector_read ary0 i 0 (sa_sector_size ary0)) (\<lambda>b0.
     Option.bind (sector_read ary1 i 0 (sa_sector_size ary0)) (\<lambda>b1.
     if memcmp b0 b1 \<noteq> 0 then Some (memcmp b0 b1)
     else compare_loop ary0 ary1 (Suc i) k))"

definition sector_array_compare :: "sector_data_array \<Rightarrow> sector_data_array \<Rightarrow> int option" where
  "sector_array_compare ary0 ary1 =
     (if sa_size ary0 \<noteq> sa_size ary1 then 
        Some (signed_take_bit 31 (int (sa_size ary0) - int (sa_size ary1)))
      else compare_loop ary0 ary1 0 (sa_size ary0))"

function checksum_array_loop :: "sector_data_array \<Rightarrow> nat \<Rightarrow> nat \<Rightarrow> nat \<Rightarrow> u32 \<Rightarrow> u32 option" where
  "checksum_array_loop ary idx off remaining acc =
     (if remaining > 0 then
        (let tsize = min (sa_sector_size ary - off) remaining in
         if tsize = 0 then None
         else Option.bind (sector_read ary idx off tsize) (\<lambda>bs.
              checksum_array_loop ary (Suc idx) 0 (remaining - tsize)
                (checksum_partial acc bs tsize)))
      else Some acc)"
  by pat_completeness auto
termination
  by (relation "measure (\<lambda>(_, _, _, remaining, _). remaining)") auto

declare checksum_array_loop.simps [simp del]

definition sector_array_checksum :: "sector_data_array \<Rightarrow> nat \<Rightarrow> nat \<Rightarrow> u32 \<Rightarrow> u32 option" where
  "sector_array_checksum ary offset sz salt =
     (let ss = sa_sector_size ary in
      if ss = 0 then None
      else map_option checksum_finish
             (checksum_array_loop ary (offset div ss) (offset mod ss) sz salt))"

function memset_loop :: "sector_data_array \<Rightarrow> nat \<Rightarrow> nat \<Rightarrow> nat \<Rightarrow> u8 \<Rightarrow> sector_data_array option" where
  "memset_loop ary idx off remaining val =
     (if remaining > 0 then
        (let tsize = min (sa_sector_size ary - off) remaining in
         if tsize = 0 then None
         else Option.bind (sector_write ary idx off (replicate tsize val)) (\<lambda>ary'.
              memset_loop ary' (Suc idx) 0 (remaining - tsize) val))
      else Some ary)"
  by pat_completeness auto
termination
  by (relation "measure (\<lambda>(_, _, _, remaining, _). remaining)") auto

declare memset_loop.simps [simp del]

definition sector_array_memset :: "sector_data_array \<Rightarrow> nat \<Rightarrow> nat \<Rightarrow> u8 \<Rightarrow> sector_data_array option" where
  "sector_array_memset ary offset sz val =
     (let ss = sa_sector_size ary in
      if ss = 0 then None else memset_loop ary (offset div ss) (offset mod ss) sz val)"

section \<open>The flat view of a sector array\<close>

text \<open>
  Abstractly a sector array is one byte string, the concatenation of its sectors; the
  operations below are refinements of slicing and overwriting that string.
\<close>

definition sector_array_wf :: "sector_data_array \<Rightarrow> bool" where
  "sector_array_wf ary \<longleftrightarrow>
     0 < sa_size ary \<and> 0 < sa_sector_size ary \<and> sa_size ary \<le> length (sa_array ary) \<and>
     (\<forall>i < sa_size ary. \<exists>s. sa_array ary ! i = Some s \<and> sector_wf s \<and>
        sd_size s = sa_sector_size ary)"

definition sector_rows :: "sector_data_array \<Rightarrow> u8 list list" where
  "sector_rows ary = map (sector_bytes \<circ> the) (take (sa_size ary) (sa_array ary))"

definition flat :: "sector_data_array \<Rightarrow> u8 list" where
  "flat ary = concat (sector_rows ary)"

lemma length_concat_rows:
  "\<forall>r \<in> set rows. length r = n \<Longrightarrow> length (concat rows) = length rows * n"
  by (induction rows) auto

lemma concat_split_at:
  assumes "\<forall>r \<in> set rows. length r = n" "i < length rows"
  obtains pre post where "concat rows = pre @ rows ! i @ post" "length pre = i * n"
    "\<And>r. concat (rows[i := r]) = pre @ r @ post"
proof
  show "concat rows = concat (take i rows) @ rows ! i @ concat (drop (Suc i) rows)"
    using assms(2) by (metis concat.simps(2) concat_append id_take_nth_drop)
  show "length (concat (take i rows)) = i * n"
    using assms by (subst length_concat_rows [of _ n]) (auto dest: in_set_takeD)
  show "\<And>r. concat (rows[i := r]) = concat (take i rows) @ r @ concat (drop (Suc i) rows)"
    using assms(2) by (simp add: upd_conv_take_nth_drop)
qed

lemma concat_slice:
  assumes "\<forall>r \<in> set rows. length r = n" "i < length rows" "off + k \<le> n"
  shows "take k (drop off (rows ! i)) = take k (drop (i * n + off) (concat rows))"
proof -
  obtain pre post where "concat rows = pre @ rows ! i @ post" "length pre = i * n"
    using concat_split_at [OF assms(1,2)] by metis
  moreover have "length (rows ! i) = n" using assms(1,2) by simp
  ultimately show ?thesis using assms(3) by simp
qed

lemma concat_overwrite:
  assumes "\<forall>r \<in> set rows. length r = n" "i < length rows" "off + length bs \<le> n"
  shows "concat (rows[i := overwrite off bs (rows ! i)]) = overwrite (i * n + off) bs (concat rows)"
proof -
  obtain pre post where "concat rows = pre @ rows ! i @ post" "length pre = i * n"
      "\<And>r. concat (rows[i := r]) = pre @ r @ post"
    using concat_split_at [OF assms(1,2)] by metis
  moreover have "length (rows ! i) = n" using assms(1,2) by simp
  ultimately show ?thesis using assms(3) by (simp add: overwrite_def)
qed

lemma sector_array_wfE:
  assumes "sector_array_wf ary" "i < sa_size ary"
  obtains s where "sector_at ary i = Some s" "sector_wf s" "sd_size s = sa_sector_size ary"
    "sector_rows ary ! i = sector_bytes s"
  using assms
  by (auto simp: sector_array_wf_def sector_at_def sector_rows_def dest!: spec [of _ i])

lemma sector_rows_length:
  assumes "sector_array_wf ary"
  shows "length (sector_rows ary) = sa_size ary"
    "\<forall>r \<in> set (sector_rows ary). length r = sa_sector_size ary"
proof -
  show len: "length (sector_rows ary) = sa_size ary"
    using assms by (simp add: sector_array_wf_def sector_rows_def)
  show "\<forall>r \<in> set (sector_rows ary). length r = sa_sector_size ary"
    using assms len by (metis in_set_conv_nth sector_array_wfE sector_wf_length)
qed

lemma length_flat: "sector_array_wf ary \<Longrightarrow> length (flat ary) = sa_size ary * sa_sector_size ary"
  by (simp add: flat_def sector_rows_length(1) length_concat_rows [OF sector_rows_length(2)])

lemma valid_sectors_from_iff:
  "valid_sectors_from ary i k \<longleftrightarrow>
     (\<forall>j. i \<le> j \<and> j < i + k \<longrightarrow> (\<exists>s. sector_at ary j = Some s \<and>
        is_valid_sector_data (Some s) \<and> sd_size s = sa_sector_size ary))"
proof (induction k arbitrary: i)
  case (Suc k)
  have "i \<le> j \<and> j < i + Suc k \<longleftrightarrow> j = i \<or> (Suc i \<le> j \<and> j < Suc i + k)" for j
    by auto
  then show ?case using Suc by (auto split: option.split)
qed auto

lemma sector_array_wf_valid:
  "sector_array_wf ary \<Longrightarrow> is_valid_sector_data_array (Some ary)"
  by (auto simp: is_valid_sector_data_array_def valid_sectors_from_iff
      intro: sector_wf_valid elim: sector_array_wfE)
     (simp add: sector_array_wf_def)

lemma sector_read_ok:
  assumes "sector_array_wf ary" "i < sa_size ary" "off + k \<le> sa_sector_size ary"
  shows "sector_read ary i off k =
         Some (take k (drop (i * sa_sector_size ary + off) (flat ary)))"
proof -
  obtain s where s: "sector_at ary i = Some s" "sector_wf s" "sd_size s = sa_sector_size ary"
      "sector_rows ary ! i = sector_bytes s"
    using assms(1,2) by (rule sector_array_wfE)
  then have "sector_read ary i off k = Some (take k (drop off (sector_rows ary ! i)))"
    using assms(3) by (simp add: sector_read_def sector_wf_data mem_read_in sector_wf_length)
  then show ?thesis
    using concat_slice [of "sector_rows ary" "sa_sector_size ary" i off k] assms
    by (simp add: flat_def sector_rows_length)
qed

lemma sector_write_ok:
  assumes wf: "sector_array_wf ary" and i: "i < sa_size ary"
    and fits: "off + length bs \<le> sa_sector_size ary"
  shows "\<exists>ary'. sector_write ary i off bs = Some ary' \<and> sector_array_wf ary' \<and>
           sa_size ary' = sa_size ary \<and> sa_sector_size ary' = sa_sector_size ary \<and>
           flat ary' = overwrite (i * sa_sector_size ary + off) bs (flat ary)"
proof -
  obtain s where s: "sector_at ary i = Some s" "sector_wf s" "sd_size s = sa_sector_size ary"
      "sector_rows ary ! i = sector_bytes s"
    using wf i by (rule sector_array_wfE)
  define s' where "s' = s\<lparr>sd_data := Some (overwrite off bs (sector_bytes s))\<rparr>"
  define ary' where "ary' = ary\<lparr>sa_array := (sa_array ary)[i := Some s']\<rparr>"
  have len: "length (sector_bytes s) = sa_sector_size ary"
    using s by (simp add: sector_wf_length)
  have s': "sector_wf s'" "sd_size s' = sa_sector_size ary"
      "sector_bytes s' = overwrite off bs (sector_bytes s)"
    using s len fits by (simp_all add: s'_def sector_wf_def sector_bytes_def)
  have "sector_write ary i off bs = Some ary'"
    using s len fits
    by (simp add: sector_write_def sector_wf_data mem_write_overwrite ary'_def s'_def)
  moreover have "sector_array_wf ary'"
    using wf s' i by (auto simp: sector_array_wf_def ary'_def nth_list_update)
  moreover have "sector_rows ary' = (sector_rows ary)[i := overwrite off bs (sector_rows ary ! i)]"
    using s(4) s'(3)
    by (simp add: sector_rows_def ary'_def take_update_swap map_update)
  then have "flat ary' = overwrite (i * sa_sector_size ary + off) bs (flat ary)"
    using concat_overwrite [of "sector_rows ary" "sa_sector_size ary" i off bs] wf i fits
    by (simp add: flat_def sector_rows_length)
  ultimately show ?thesis by (simp add: ary'_def)
qed

section \<open>The loops refine operations on the flat view\<close>

text \<open>The chunk a loop iteration handles: it stays inside one sector of the array.\<close>

lemma chunk_in_sector:
  fixes p :: nat
  assumes "0 < ss" "p < n * ss"
  shows "p div ss < n" "p mod ss + min (ss - p mod ss) k \<le> ss" "p div ss * ss + p mod ss = p"
  using assms mod_less_divisor [OF assms(1), of p] by (auto simp: less_mult_imp_div_less)

lemma copy_detail_loop_done: "\<not> copied < sz \<Longrightarrow> copy_detail_loop b offset sz copied ary dat = Some (ary, dat)"
  by (subst copy_detail_loop.simps) simp

lemma copy_detail_loop_step:
  assumes "copied < sz" "sa_sector_size ary = ss" "0 < ss" "(offset + copied) mod 2 ^ 32 = p"
    and "min (ss - p mod ss) (sz - copied) = k"
  shows "copy_detail_loop True offset sz copied ary dat =
      Option.bind (mem_read dat copied k) (\<lambda>bs.
      Option.bind (sector_write ary (p div ss) (p mod ss) bs) (\<lambda>ary'.
      copy_detail_loop True offset sz (copied + k) ary' dat))" (is ?thesis1)
    and "copy_detail_loop False offset sz copied ary dat =
      Option.bind (sector_read ary (p div ss) (p mod ss) k) (\<lambda>bs.
      Option.bind (mem_write dat copied bs) (\<lambda>dat'.
      copy_detail_loop False offset sz (copied + k) ary dat'))" (is ?thesis2)
proof -
  have ss: "(ss = 0) = False" using assms(3) by simp
  show ?thesis1 ?thesis2
    by (subst copy_detail_loop.simps; simp only: assms ss Let_def if_True if_False)+
qed

lemma copy_from_loop_ok:
  assumes "sector_array_wf ary" "sa_size ary * sa_sector_size ary < 2 ^ 32"
    "offset + sz \<le> sa_size ary * sa_sector_size ary" "sz \<le> length dat" "copied \<le> sz"
  shows "\<exists>ary'. copy_detail_loop True offset sz copied ary dat = Some (ary', dat) \<and>
           sector_array_wf ary' \<and> sa_size ary' = sa_size ary \<and>
           sa_sector_size ary' = sa_sector_size ary \<and>
           flat ary' = overwrite (offset + copied) (take (sz - copied) (drop copied dat)) (flat ary)"
  using assms
proof (induction "sz - copied" arbitrary: copied ary rule: less_induct)
  case less
  show ?case
  proof (cases "copied < sz")
    case False
    then show ?thesis using less.prems by (simp add: copy_detail_loop_done)
  next
    case True
    define ss where "ss = sa_sector_size ary"
    define p where "p = offset + copied"
    define k where "k = min (ss - p mod ss) (sz - copied)"
    define bs where "bs = take k (drop copied dat)"
    define rest where "rest = take (sz - (copied + k)) (drop (copied + k) dat)"
    have ss: "0 < ss" using less.prems(1) by (simp add: sector_array_wf_def ss_def)
    have p: "p < sa_size ary * ss" "p mod 2 ^ 32 = p"
      using less.prems True by (auto simp: p_def ss_def)
    note chunk = chunk_in_sector(1) [OF ss p(1)] chunk_in_sector(3) [OF ss p(1)]
    have le: "copied + k \<le> sz" using True by (simp add: k_def)
    have bs: "length bs = k" "mem_read dat copied k = Some bs"
      using less.prems le by (auto simp: mem_read_in bs_def)
    have fits: "p mod ss + length bs \<le> sa_sector_size ary"
      using chunk_in_sector(2) [OF ss p(1), of "sz - copied"] bs(1) by (simp add: k_def ss_def)
    obtain ary1 where ary1: "sector_write ary (p div ss) (p mod ss) bs = Some ary1"
        "sector_array_wf ary1" "sa_size ary1 = sa_size ary" "sa_sector_size ary1 = sa_sector_size ary"
        "flat ary1 = overwrite p bs (flat ary)"
      using sector_write_ok [OF less.prems(1) chunk(1) fits] chunk(2) unfolding ss_def [symmetric]
      by metis
    have step: "copy_detail_loop True offset sz copied ary dat =
        copy_detail_loop True offset sz (copied + k) ary1 dat"
      using copy_detail_loop_step(1) [of copied sz ary ss offset p k dat] True ss p bs(2) ary1(1)
      by (simp add: ss_def p_def k_def)
    have lt: "sz - (copied + k) < sz - copied"
      unfolding k_def using True ss by (rule copy_step_decreases)
    obtain ary' where ary': "copy_detail_loop True offset sz (copied + k) ary1 dat = Some (ary', dat)"
        "sector_array_wf ary'" "sa_size ary' = sa_size ary"
        "sa_sector_size ary' = sa_sector_size ary"
        "flat ary' = overwrite (offset + (copied + k)) rest (flat ary1)"
      using less.hyps [OF lt ary1(2)] ary1(3,4) less.prems(2-4) le unfolding rest_def by metis
    have cat: "bs @ rest = take (sz - copied) (drop copied dat)"
      using le take_add [of k "sz - (copied + k)" "drop copied dat"]
      by (simp add: add.commute bs_def rest_def)
    have "p + length bs + length rest \<le> length (flat ary)"
      using less.prems bs(1) le by (simp add: length_flat rest_def p_def)
    from overwrite_append [OF this] have "flat ary' = overwrite p (bs @ rest) (flat ary)"
      using bs(1) ary1(5) ary'(5) by (simp add: add.assoc p_def)
    then show ?thesis using step ary' cat p_def by simp
  qed
qed

lemma copy_to_loop_ok:
  assumes "sector_array_wf ary" "sa_size ary * sa_sector_size ary < 2 ^ 32"
    "offset + sz \<le> sa_size ary * sa_sector_size ary" "sz \<le> length dat" "copied \<le> sz"
  shows "copy_detail_loop False offset sz copied ary dat =
         Some (ary, overwrite copied (take (sz - copied) (drop (offset + copied) (flat ary))) dat)"
  using assms
proof (induction "sz - copied" arbitrary: copied dat rule: less_induct)
  case less
  show ?case
  proof (cases "copied < sz")
    case False
    then show ?thesis using less.prems by (simp add: copy_detail_loop_done)
  next
    case True
    define ss where "ss = sa_sector_size ary"
    define p where "p = offset + copied"
    define k where "k = min (ss - p mod ss) (sz - copied)"
    define bs where "bs = take k (drop p (flat ary))"
    define rest where "rest = take (sz - (copied + k)) (drop (offset + (copied + k)) (flat ary))"
    have ss: "0 < ss" using less.prems(1) by (simp add: sector_array_wf_def ss_def)
    have p: "p < sa_size ary * ss" "p mod 2 ^ 32 = p"
      using less.prems True by (auto simp: p_def ss_def)
    have le: "copied + k \<le> sz" using True by (simp add: k_def)
    have fits: "p mod ss + k \<le> sa_sector_size ary"
      using chunk_in_sector(2) [OF ss p(1), of "sz - copied"] by (simp add: k_def ss_def)
    have rd: "sector_read ary (p div ss) (p mod ss) k = Some bs"
      using sector_read_ok [OF less.prems(1) chunk_in_sector(1) [OF ss p(1)] fits]
        chunk_in_sector(3) [OF ss p(1)] unfolding ss_def [symmetric] bs_def by simp
    have len: "length bs = k"
      using less.prems le by (simp add: length_flat bs_def p_def)
    have wr: "mem_write dat copied bs = Some (overwrite copied bs dat)"
      using len le less.prems(4) by (intro mem_write_overwrite) linarith
    have step: "copy_detail_loop False offset sz copied ary dat =
        copy_detail_loop False offset sz (copied + k) ary (overwrite copied bs dat)"
      using copy_detail_loop_step(2) [of copied sz ary ss offset p k dat] True ss p rd wr
      by (simp add: ss_def p_def k_def)
    have lt: "sz - (copied + k) < sz - copied"
      unfolding k_def using True ss by (rule copy_step_decreases)
    have ih: "copy_detail_loop False offset sz (copied + k) ary (overwrite copied bs dat) =
        Some (ary, overwrite (copied + k) rest (overwrite copied bs dat))"
      unfolding rest_def using less.prems le len by (intro less.hyps [OF lt]) simp_all
    have cat: "bs @ rest = take (sz - copied) (drop p (flat ary))"
      using le take_add [of k "sz - (copied + k)" "drop p (flat ary)"]
      by (simp add: ac_simps bs_def rest_def p_def)
    have "copied + length bs + length rest \<le> length dat"
      using less.prems le len by (simp add: rest_def)
    from overwrite_append [OF this] show ?thesis
      using step ih cat len by (simp add: p_def)
  qed
qed

text \<open>The walk over consecutive sectors that \<^verbatim>\<open>checksum\<close> and \<^verbatim>\<open>memset\<close> share.\<close>

lemma walk_step:
  fixes idx off ss remaining n :: nat
  assumes "0 < remaining" "off < ss" "idx * ss + off + remaining \<le> n * ss"
    and "tsize = min (ss - off) remaining"
  shows "0 < tsize" "idx < n" "off + tsize \<le> ss" "remaining - tsize < remaining"
    "remaining - tsize = 0 \<or> Suc idx * ss + (remaining - tsize) \<le> n * ss"
    "remaining - tsize = 0 \<or> Suc idx * ss = idx * ss + off + tsize"
proof -
  have "idx * ss < n * ss" using assms by linarith
  then show "idx < n" by simp
qed (use assms in auto)

lemma checksum_array_loop_ok:
  assumes "sector_array_wf ary" "4 dvd sa_sector_size ary" "4 dvd off" "4 dvd remaining"
    "remaining = 0 \<or> (off < sa_sector_size ary \<and>
       idx * sa_sector_size ary + off + remaining \<le> sa_size ary * sa_sector_size ary)"
  shows "checksum_array_loop ary idx off remaining acc =
         Some (acc + word_sum (take remaining (drop (idx * sa_sector_size ary + off) (flat ary))))"
  using assms(3-5)
proof (induction remaining arbitrary: idx off acc rule: less_induct)
  case (less remaining)
  show ?case
  proof (cases "remaining = 0")
    case True
    then show ?thesis by (simp add: checksum_array_loop.simps)
  next
    case False
    define ss where "ss = sa_sector_size ary"
    define p where "p = idx * ss + off"
    define t where "t = min (ss - off) remaining"
    define bs where "bs = take t (drop p (flat ary))"
    have rem: "0 < remaining" "off < ss" "p + remaining \<le> sa_size ary * ss"
      using False less.prems by (auto simp: ss_def p_def)
    note w = walk_step [OF rem(1,2) rem(3) [unfolded p_def] t_def]
    have rd: "sector_read ary idx off t = Some bs"
      using sector_read_ok [OF assms(1) w(2)] w(3) by (simp add: ss_def bs_def p_def)
    have d4: "4 dvd t" "4 dvd remaining - t"
      using less.prems assms(2) by (auto simp: t_def ss_def min_def intro: dvd_diff_nat)
    have len: "length bs = t"
      using rem assms(1) w(3) by (simp add: bs_def length_flat ss_def [symmetric] t_def)
    have step: "checksum_array_loop ary idx off remaining acc =
        checksum_array_loop ary (Suc idx) 0 (remaining - t) (acc + word_sum bs)"
      using rem(1) w(1) rd d4 len
      by (subst checksum_array_loop.simps)
         (simp add: Let_def ss_def [symmetric] t_def [symmetric] checksum_partial_word_sum)
    have "checksum_array_loop ary (Suc idx) 0 (remaining - t) (acc + word_sum bs) =
        Some (acc + word_sum bs + word_sum (take (remaining - t) (drop (Suc idx * ss) (flat ary))))"
      using less.IH [OF w(4), of 0 "Suc idx"] d4(2) w(5) rem(2) by (auto simp: ss_def)
    moreover have "word_sum (take (remaining - t) (drop (Suc idx * ss) (flat ary))) =
        word_sum (take (remaining - t) (drop (p + t) (flat ary)))"
      using w(6) by (auto simp: p_def ac_simps)
    moreover have "take remaining (drop p (flat ary)) =
        bs @ take (remaining - t) (drop (p + t) (flat ary))"
      using take_add [of t "remaining - t" "drop p (flat ary)"]
      by (simp add: bs_def t_def add.commute)
    ultimately show ?thesis
      using step d4(1) len by (simp add: word_sum_append add.assoc p_def ss_def)
  qed
qed

lemma memset_loop_ok:
  assumes "sector_array_wf ary"
    "remaining = 0 \<or> (off < sa_sector_size ary \<and>
       idx * sa_sector_size ary + off + remaining \<le> sa_size ary * sa_sector_size ary)"
  shows "\<exists>ary'. memset_loop ary idx off remaining val = Some ary' \<and> sector_array_wf ary' \<and>
           flat ary' = overwrite (idx * sa_sector_size ary + off) (replicate remaining val) (flat ary)"
  using assms
proof (induction remaining arbitrary: idx off ary rule: less_induct)
  case (less remaining)
  show ?case
  proof (cases "remaining = 0")
    case True
    then show ?thesis using less.prems by (simp add: memset_loop.simps)
  next
    case False
    define ss where "ss = sa_sector_size ary"
    define p where "p = idx * ss + off"
    define t where "t = min (ss - off) remaining"
    have rem: "0 < remaining" "off < ss" "p + remaining \<le> sa_size ary * ss"
      using False less.prems by (auto simp: ss_def p_def)
    note w = walk_step [OF rem(1,2) rem(3) [unfolded p_def] t_def]
    obtain ary1 where ary1: "sector_write ary idx off (replicate t val) = Some ary1"
        "sector_array_wf ary1" "sa_size ary1 = sa_size ary" "sa_sector_size ary1 = ss"
        "flat ary1 = overwrite p (replicate t val) (flat ary)"
      using sector_write_ok [OF less.prems(1) w(2), of off "replicate t val"] w(3)
      by (auto simp: ss_def p_def)
    have step: "memset_loop ary idx off remaining val =
        memset_loop ary1 (Suc idx) 0 (remaining - t) val"
      using rem(1) w(1) ary1(1)
      by (subst memset_loop.simps) (simp add: Let_def ss_def [symmetric] t_def [symmetric])
    obtain ary' where ary': "memset_loop ary1 (Suc idx) 0 (remaining - t) val = Some ary'"
        "sector_array_wf ary'"
        "flat ary' = overwrite (Suc idx * ss) (replicate (remaining - t) val) (flat ary1)"
      using less.IH [OF w(4) ary1(2), of 0 "Suc idx"] w(5) rem(2) ary1(3,4) by auto
    have "flat ary' = overwrite (p + t) (replicate (remaining - t) val)
        (overwrite p (replicate t val) (flat ary))"
      using ary'(3) ary1(5) w(6) by (auto simp: p_def ac_simps)
    also have "\<dots> = overwrite p (replicate remaining val) (flat ary)"
      using overwrite_append [of p "replicate t val" "replicate (remaining - t) val" "flat ary"]
        rem(3) less.prems(1)
      by (simp add: length_flat ss_def t_def replicate_add [symmetric])
    finally show ?thesis using step ary' by (simp add: p_def ss_def)
  qed
qed

lemma alloc_sectors_ok:
  assumes "alloc_sectors ss n allocs = Some a" "0 < ss" "\<forall>b \<in> snd ` set allocs. \<forall>m. b = Some m \<longrightarrow> length m = ss"
  shows "length a = n \<and> (\<forall>x \<in> set a. \<exists>s. x = Some s \<and> sector_wf s \<and> sd_size s = ss)"
  using assms
proof (induction ss n allocs arbitrary: a rule: alloc_sectors.induct)
  case (3 ss n al allocs)
  then show ?case
    by (auto simp: sector_alloc_def sector_wf_def split: if_splits option.splits)
qed auto

section \<open>Properties\<close>

text \<open>
  Copying a buffer into a sector array and out again returns the buffer: for a range inside
  the array \<^verbatim>\<open>sector_array_copy_from\<close> succeeds without an invalid access, changes exactly the
  bytes of the range, keeps the array valid, and \<^verbatim>\<open>sector_array_copy_to\<close> of the same range
  gives the bytes back, whatever the destination held.
\<close>

theorem sector_array_copy_roundtrip:
  assumes "sector_array_wf ary" "sa_size ary * sa_sector_size ary < 2 ^ 32"
    and "offset + length dat \<le> sa_size ary * sa_sector_size ary" "length dst = length dat"
  shows "\<exists>ary'. sector_array_copy_from ary offset (Some dat) (length dat) = Some ary' \<and>
           is_valid_sector_data_array (Some ary') \<and>
           flat ary' = take offset (flat ary) @ dat @ drop (offset + length dat) (flat ary) \<and>
           sector_array_copy_to ary' offset (Some dst) (length dat) = Some (Some dat)"
proof -
  obtain ary' where ary': "copy_detail_loop True offset (length dat) 0 ary dat = Some (ary', dat)"
      "sector_array_wf ary'" "sa_size ary' = sa_size ary" "sa_sector_size ary' = sa_sector_size ary"
      "flat ary' = overwrite offset dat (flat ary)"
    using copy_from_loop_ok [OF assms(1-3), of dat 0] by auto
  have "copy_detail_loop False offset (length dat) 0 ary' dst = Some (ary', dat)"
    using copy_to_loop_ok [of ary' offset "length dat" dst 0] ary' assms
    by (simp add: take_drop_overwrite length_flat) (simp add: overwrite_def)
  with ary' show ?thesis
    by (simp add: sector_array_copy_from_def sector_array_copy_to_def overwrite_def
        sector_array_copy_detail_def sector_array_wf_valid)
qed

text \<open>A two-sector array of four-byte sectors, for the witnesses.\<close>

definition demo_array :: sector_data_array where
  "demo_array = \<lparr>sa_sector_size = 4, sa_size = 2,
     sa_array = [Some \<lparr>sd_size = 4, sd_data = Some [1, 2, 3, 4]\<rparr>,
                 Some \<lparr>sd_size = 4, sd_data = Some [5, 6, 7, 8]\<rparr>]\<rparr>"

lemma demo_array_wf: "sector_array_wf demo_array"
  by (auto simp: sector_array_wf_def demo_array_def sector_wf_def numeral_eq_Suc less_Suc_eq)

lemma demo_array_size [simp]: "sa_size demo_array = 2" "sa_sector_size demo_array = 4"
  by (simp_all add: demo_array_def)

theorem sector_array_copy_roundtrip_witness:
  "\<exists>ary'. sector_array_copy_from demo_array 2 (Some [9, 9, 9, 9]) (length [9, 9, 9, 9 :: u8]) = Some ary' \<and>
     is_valid_sector_data_array (Some ary') \<and>
     flat ary' = take 2 (flat demo_array) @ [9, 9, 9, 9] @ drop (2 + length [9, 9, 9, 9 :: u8]) (flat demo_array) \<and>
     sector_array_copy_to ary' 2 (Some [0, 0, 0, 0]) (length [9, 9, 9, 9 :: u8]) = Some (Some [9, 9, 9, 9])"
  by (rule sector_array_copy_roundtrip) (simp_all add: demo_array_wf)

text \<open>
  The checksum of a byte range of a sector array, computed sector by sector, is the
  checksum of the same bytes laid out contiguously, when the range and the sector size are
  multiples of four bytes.
\<close>

theorem sector_array_checksum_flat:
  assumes "sector_array_wf ary" "4 dvd sa_sector_size ary" "4 dvd offset" "4 dvd sz"
    and "offset + sz \<le> sa_size ary * sa_sector_size ary"
  shows "sector_array_checksum ary offset sz salt = Some (checksum (drop offset (flat ary)) sz salt)"
proof -
  have ss: "0 < sa_sector_size ary" using assms(1) by (simp add: sector_array_wf_def)
  have "4 dvd offset mod sa_sector_size ary"
    using assms(2,3) by (simp add: dvd_mod)
  then have "checksum_array_loop ary (offset div sa_sector_size ary) (offset mod sa_sector_size ary)
      sz salt = Some (salt + word_sum (take sz (drop offset (flat ary))))"
    using checksum_array_loop_ok [OF assms(1,2) _ assms(4)] ss assms(5) by auto
  then show ?thesis using ss assms
    by (simp add: sector_array_checksum_def Let_def checksum_word_sum length_flat checksum_finish_neg)
qed

theorem sector_array_checksum_flat_witness:
  "sector_array_checksum demo_array 4 4 7 = Some (checksum (drop 4 (flat demo_array)) 4 7)"
  by (rule sector_array_checksum_flat) (simp_all add: demo_array_wf)

text \<open>
  \<^verbatim>\<open>sector_array_memset\<close> fills exactly the given range and touches nothing else.
\<close>

theorem sector_array_memset_flat:
  assumes "sector_array_wf ary" "offset + sz \<le> sa_size ary * sa_sector_size ary"
  shows "\<exists>ary'. sector_array_memset ary offset sz val = Some ary' \<and> sector_array_wf ary' \<and>
           flat ary' = take offset (flat ary) @ replicate sz val @ drop (offset + sz) (flat ary)"
proof -
  have ss: "0 < sa_sector_size ary" using assms(1) by (simp add: sector_array_wf_def)
  show ?thesis
    using memset_loop_ok [OF assms(1), of sz "offset mod sa_sector_size ary"
        "offset div sa_sector_size ary" val] ss assms(2)
    by (auto simp: sector_array_memset_def Let_def overwrite_def)
qed

theorem sector_array_memset_flat_witness:
  "\<exists>ary'. sector_array_memset demo_array 3 2 0 = Some ary' \<and> sector_array_wf ary' \<and>
     flat ary' = take 3 (flat demo_array) @ replicate 2 0 @ drop (3 + 2) (flat demo_array)"
  by (rule sector_array_memset_flat) (simp_all add: demo_array_wf)

text \<open>The allocation results a caller may see: buffers have the requested size.\<close>

definition allocs_sized :: "nat \<Rightarrow> (bool \<times> u8 list option) list \<Rightarrow> bool" where
  "allocs_sized ss allocs = (\<forall>b \<in> snd ` set allocs. \<forall>m. b = Some m \<longrightarrow> length m = ss)"

lemma sector_array_alloc_ok:
  assumes "sector_array_alloc ss n m z allocs = Some ary" "0 < ss" "0 < n" "allocs_sized ss allocs"
  shows "sector_array_wf ary \<and> sa_size ary = n \<and> sa_sector_size ary = ss"
  using assms alloc_sectors_ok [of ss n allocs]
  by (auto simp: sector_array_alloc_def sector_array_wf_def allocs_sized_def split: if_splits)

text \<open>
  C11.  \<^verbatim>\<open>sector_array_realloc\<close> keeps a sector array valid on every path.  When it succeeds the
  array has the new number of sectors and the sectors of both sizes keep their bytes; when an
  allocation fails on growing, the array is what it was: same size, same bytes.
\<close>

theorem sector_array_realloc_ok:
  assumes "sector_array_wf ary" "0 < n" "allocs_sized (sa_sector_size ary) allocs"
    and "sector_array_realloc ary n realloc_ok allocs = (ok, ary')"
  shows "sector_array_wf ary' \<and> sa_size ary' = (if ok then n else sa_size ary) \<and>
         sa_sector_size ary' = sa_sector_size ary \<and>
         (let k = min n (sa_size ary) in take k (sector_rows ary') = take k (sector_rows ary)) \<and>
         (\<not> ok \<longrightarrow> flat ary' = flat ary)"
proof -
  consider (shrink) "n < sa_size ary" | (same) "n = sa_size ary" | (grow) "sa_size ary < n"
    by linarith
  then show ?thesis
  proof cases
    case shrink
    then show ?thesis using assms
      by (auto simp: sector_array_realloc_def sector_array_wf_def sector_rows_def nth_append
          min_def take_map)
  next
    case same
    then show ?thesis using assms by (auto simp: sector_array_realloc_def)
  next
    case grow
    then show ?thesis
      using assms alloc_sectors_ok [of "sa_sector_size ary" "n - sa_size ary" allocs]
      by (auto simp: sector_array_realloc_def Let_def sector_array_wf_def sector_rows_def
          allocs_sized_def nth_append flat_def take_map split: if_splits option.splits)
  qed
qed

theorem sector_array_realloc_ok_witness:
  "\<exists>ary'. sector_array_realloc demo_array 3 True [(True, Some [0, 0, 0, 0])] = (True, ary') \<and>
     sector_array_wf ary' \<and> sa_size ary' = (if True then 3 else sa_size demo_array) \<and>
     sa_sector_size ary' = sa_sector_size demo_array \<and>
     (let k = min 3 (sa_size demo_array) in take k (sector_rows ary') = take k (sector_rows demo_array)) \<and>
     (\<not> True \<longrightarrow> flat ary' = flat demo_array)"
proof -
  obtain ary' where r: "sector_array_realloc demo_array 3 True [(True, Some [0, 0, 0, 0])] = (True, ary')"
    by (simp add: sector_array_realloc_def Let_def sector_alloc_def numeral_eq_Suc)
  have "allocs_sized (sa_sector_size demo_array) [(True, Some [0, 0, 0, 0])]"
    by (simp add: allocs_sized_def)
  from sector_array_realloc_ok [OF demo_array_wf _ this r] r show ?thesis
    by (intro exI [of _ ary'] conjI) simp_all
qed

end
