(* ===== verification/Walb_Block_Size.thy ===== *)
theory Walb_Block_Size
  imports Walb_Prelude
begin

text \<open>
  Logical and physical block arithmetic: \<^verbatim>\<open>include/linux/walb/block_size.h\<close>.  A logical
  block has 512 bytes; a physical block size is a positive multiple of it.  Block counts and
  addresses are \<^verbatim>\<open>u64\<close> and wrap around; a physical block size is an \<^verbatim>\<open>unsigned int\<close>.
\<close>

section \<open>Definitions\<close>

definition LOGICAL_BLOCK_SIZE :: u32 where
  "LOGICAL_BLOCK_SIZE = push_bit 9 1"

definition is_valid_lbs_pbs :: "u32 \<Rightarrow> u32 \<Rightarrow> bool" where
  "is_valid_lbs_pbs lbs pbs = (lbs > 0 \<and> pbs \<ge> lbs \<and> pbs mod lbs = 0)"

definition is_valid_pbs :: "u32 \<Rightarrow> bool" where
  "is_valid_pbs pbs = is_valid_lbs_pbs LOGICAL_BLOCK_SIZE pbs"

definition n_lb_in_pb :: "u32 \<Rightarrow> u32" where
  "n_lb_in_pb pbs = pbs div LOGICAL_BLOCK_SIZE"

text \<open>\<^verbatim>\<open>n_lb\<close> is promoted to \<^verbatim>\<open>u64\<close> in the sums below, which wrap at 64 bits.\<close>

definition capacity_pb :: "u32 \<Rightarrow> u64 \<Rightarrow> u64" where
  "capacity_pb pbs cap_lb =
     (let n_lb = ucast (n_lb_in_pb pbs) in (cap_lb + n_lb - 1) div n_lb)"

definition addr_pb :: "u32 \<Rightarrow> u64 \<Rightarrow> u64" where
  "addr_pb pbs a_lb = a_lb div ucast (n_lb_in_pb pbs)"

definition off_in_pb :: "u32 \<Rightarrow> u64 \<Rightarrow> u64" where
  "off_in_pb pbs a_lb = a_lb mod ucast (n_lb_in_pb pbs)"

definition addr_lb :: "u32 \<Rightarrow> u64 \<Rightarrow> u64" where
  "addr_lb pbs a_pb = a_pb * ucast (n_lb_in_pb pbs)"

definition capacity_lb :: "u32 \<Rightarrow> u64 \<Rightarrow> u64" where
  "capacity_lb pbs cap_pb = addr_lb pbs cap_pb"

section \<open>Reading them as natural numbers\<close>

lemma unat_LOGICAL_BLOCK_SIZE [simp]: "unat LOGICAL_BLOCK_SIZE = 512"
  by (simp add: LOGICAL_BLOCK_SIZE_def)

lemma is_valid_pbs_unat:
  "is_valid_pbs pbs \<longleftrightarrow> 512 \<le> unat pbs \<and> 512 dvd unat pbs"
proof -
  have "(LOGICAL_BLOCK_SIZE \<le> pbs) = (512 \<le> unat pbs)"
    by (simp add: word_le_nat_alt)
  moreover have "(pbs mod LOGICAL_BLOCK_SIZE = 0) = (512 dvd unat pbs)"
    by (simp add: word_unat_eq_iff unat_mod dvd_eq_mod_eq_0)
  moreover have "LOGICAL_BLOCK_SIZE > 0"
    by (simp add: word_less_nat_alt)
  ultimately show ?thesis
    by (simp add: is_valid_pbs_def is_valid_lbs_pbs_def)
qed

lemma unat_n_lb_in_pb: "unat (n_lb_in_pb pbs) = unat pbs div 512"
  by (simp add: n_lb_in_pb_def unat_div)

lemma n_lb_in_pb_bounds:
  assumes "is_valid_pbs pbs"
  shows "0 < unat (n_lb_in_pb pbs)" "unat (n_lb_in_pb pbs) < 2 ^ 23"
  using assms unat_u32_lt [of pbs]
  by (auto simp: unat_n_lb_in_pb is_valid_pbs_unat intro: div_greater_zero_iff [THEN iffD2])

lemma n_lb_in_pb_bytes: "is_valid_pbs pbs \<Longrightarrow> unat (n_lb_in_pb pbs) * 512 = unat pbs"
  by (simp add: unat_n_lb_in_pb is_valid_pbs_unat)

lemma unat_addr_pb: "unat (addr_pb pbs a) = unat a div unat (n_lb_in_pb pbs)"
  by (simp add: addr_pb_def unat_div)

lemma unat_off_in_pb: "unat (off_in_pb pbs a) = unat a mod unat (n_lb_in_pb pbs)"
  by (simp add: off_in_pb_def unat_mod)

lemma unat_addr_lb:
  "unat a * unat (n_lb_in_pb pbs) < 2 ^ 64 \<Longrightarrow>
   unat (addr_lb pbs a) = unat a * unat (n_lb_in_pb pbs)"
  unfolding addr_lb_def by (subst unat_mult_nowrap) simp_all

lemma unat_capacity_pb:
  assumes "is_valid_pbs pbs" "unat cap + unat (n_lb_in_pb pbs) < 2 ^ 64"
  shows "unat (capacity_pb pbs cap) =
         (unat cap + unat (n_lb_in_pb pbs) - 1) div unat (n_lb_in_pb pbs)"
proof -
  let ?n = "ucast (n_lb_in_pb pbs) :: u64"
  have s: "unat (cap + ?n) = unat cap + unat (n_lb_in_pb pbs)"
    using assms(2) by (subst unat_add_nowrap) simp_all
  have "1 \<le> cap + ?n"
    using s n_lb_in_pb_bounds(1) [OF assms(1)] by (simp add: word_le_nat_alt)
  then have "unat (cap + ?n - 1) = unat cap + unat (n_lb_in_pb pbs) - 1"
    using s by (simp add: unat_sub_nowrap)
  then show ?thesis by (simp add: capacity_pb_def Let_def unat_div)
qed

section \<open>Properties\<close>

text \<open>
  A logical address splits into its physical block and the offset inside it, and the two
  determine it again: \<^verbatim>\<open>addr_lb(addr_pb(a)) + off_in_pb(a) = a\<close> for every 64-bit
  address, with the offset below the number of logical blocks of a physical block.
\<close>

theorem addr_pb_off_in_pb_roundtrip:
  assumes "is_valid_pbs pbs"
  shows "addr_lb pbs (addr_pb pbs a) + off_in_pb pbs a = a \<and>
         off_in_pb pbs a < ucast (n_lb_in_pb pbs)"
proof
  show "addr_lb pbs (addr_pb pbs a) + off_in_pb pbs a = a"
    unfolding addr_lb_def addr_pb_def off_in_pb_def
    by (metis word_mod_div_equality)
  show "off_in_pb pbs a < ucast (n_lb_in_pb pbs)"
    using n_lb_in_pb_bounds(1) [OF assms]
    by (simp add: word_less_nat_alt unat_off_in_pb)
qed

theorem addr_pb_off_in_pb_roundtrip_witness:
  "addr_lb 4096 (addr_pb 4096 1003) + off_in_pb 4096 1003 = 1003 \<and>
   off_in_pb 4096 1003 < ucast (n_lb_in_pb 4096)"
  by (rule addr_pb_off_in_pb_roundtrip) code_simp

text \<open>
  \<^verbatim>\<open>capacity_pb\<close> is the least number of physical blocks that holds the given number of
  logical blocks, as long as the rounding sum stays below $2^{64}$.
\<close>

theorem capacity_pb_least:
  assumes "is_valid_pbs pbs" "unat cap + unat (n_lb_in_pb pbs) < 2 ^ 64"
  shows "unat (capacity_pb pbs cap) = (LEAST p. unat cap \<le> p * unat (n_lb_in_pb pbs))"
proof -
  let ?n = "unat (n_lb_in_pb pbs)"
  have n: "0 < ?n" by (rule n_lb_in_pb_bounds(1) [OF assms(1)])
  have "(LEAST p. unat cap \<le> p * ?n) = (unat cap + ?n - 1) div ?n"
  proof (rule Least_equality)
    show "unat cap \<le> (unat cap + ?n - 1) div ?n * ?n"
      using n div_mult_mod_eq [of "unat cap + ?n - 1" ?n] mod_less_divisor [OF n, of "unat cap + ?n - 1"]
      by linarith
    fix p assume "unat cap \<le> p * ?n"
    then have "unat cap + ?n - 1 < (p + 1) * ?n"
      using n by (simp add: algebra_simps)
    then show "(unat cap + ?n - 1) div ?n \<le> p"
      using n by (metis add.commute less_Suc_eq_le less_mult_imp_div_less plus_1_eq_Suc)
  qed
  then show ?thesis using unat_capacity_pb [OF assms] by simp
qed

theorem capacity_pb_least_witness:
  "unat (capacity_pb 4096 1001) = (LEAST p. unat (1001 :: u64) \<le> p * unat (n_lb_in_pb 4096))"
proof (rule capacity_pb_least)
  show "is_valid_pbs 4096" by code_simp
  show "unat (1001 :: u64) + unat (n_lb_in_pb 4096) < 2 ^ 64"
    by (simp add: unat_n_lb_in_pb)
qed

text \<open>At the very top of the range the rounding sum wraps around and the result is 0.\<close>

lemma capacity_pb_wraps: "capacity_pb 4096 (- 1) = 0"
  by code_simp

end
