(* ===== verification/Walb_Log_Record.thy ===== *)
theory Walb_Log_Record
  imports Walb_Bits Walb_Block_Size Walb_Sector
begin

text \<open>
  The log format: constants of \<^verbatim>\<open>include/linux/walb/walb.h\<close>, log records and logpack
  headers of \<^verbatim>\<open>log_record.h\<close>, the device layout of \<^verbatim>\<open>log_device.h\<close> and the super
  sector of \<^verbatim>\<open>super.h\<close>.  Structures are records of words; the packed memory images
  over which checksums are taken are given by the encoders, and reading a sector back by
  the decoders.  A header sector holds, after the fixed fields, an array of as many records
  as fit and a tail of bytes too short for another record.
\<close>

section \<open>walb.h\<close>

definition WALB_LOG_VERSION :: u16 where "WALB_LOG_VERSION = 2"
definition WALB_MAX_NORMAL_IO_SECTORS :: u32 where "WALB_MAX_NORMAL_IO_SECTORS = 65535"
definition SECTOR_TYPE_SUPER :: u16 where "SECTOR_TYPE_SUPER = 1"
definition SECTOR_TYPE_LOGPACK :: u16 where "SECTOR_TYPE_LOGPACK = 3"
definition INVALID_LSID :: u64 where "INVALID_LSID = - 1"
definition MAX_LSID :: u64 where "MAX_LSID = - 2"

definition is_lsid_range_valid :: "u64 \<Rightarrow> u64 \<Rightarrow> bool" where
  "is_lsid_range_valid lsid0 lsid1 = (lsid0 < lsid1 \<and> lsid1 \<le> MAX_LSID + 1)"

lemma is_lsid_range_valid_iff: "is_lsid_range_valid a b \<longleftrightarrow> a < b"
proof -
  have "MAX_LSID + 1 = - 1" by (simp add: MAX_LSID_def)
  moreover have "b \<le> - 1" by simp
  ultimately show ?thesis unfolding is_lsid_range_valid_def by (simp only: simp_thms)
qed

section \<open>log_record.h\<close>

definition LOG_RECORD_EXIST :: nat where "LOG_RECORD_EXIST = 0"
definition LOG_RECORD_PADDING :: nat where "LOG_RECORD_PADDING = 1"
definition LOG_RECORD_DISCARD :: nat where "LOG_RECORD_DISCARD = 2"

lemmas log_record_flag_defs = LOG_RECORD_EXIST_def LOG_RECORD_PADDING_def LOG_RECORD_DISCARD_def

record walb_log_record =
  lr_checksum :: u32
  lr_flags :: u32
  lr_offset :: u64
  lr_io_size :: u32
  lr_lsid_local :: u16
  lr_reserved1 :: u16
  lr_lsid :: u64

record walb_logpack_header =
  lh_checksum :: u32
  lh_sector_type :: u16
  lh_total_io_size :: u16
  lh_logpack_lsid :: u64
  lh_n_records :: u16
  lh_n_padding :: u16
  lh_reserved1 :: u32
  lh_record :: "walb_log_record list"
  lh_tail :: "u8 list"

definition MAX_TOTAL_IO_SIZE_IN_LOGPACK_HEADER :: u32 where
  "MAX_TOTAL_IO_SIZE_IN_LOGPACK_HEADER = 65535"

text \<open>\<^verbatim>\<open>sizeof(struct walb_logpack_header)\<close> is 24 and \<^verbatim>\<open>sizeof(struct walb_log_record)\<close> 32.\<close>

definition max_n_log_record_in_sector :: "u32 \<Rightarrow> u32" where
  "max_n_log_record_in_sector pbs = (pbs - 24) div 32"

definition zero_log_record :: walb_log_record where
  "zero_log_record = \<lparr>lr_checksum = 0, lr_flags = 0, lr_offset = 0, lr_io_size = 0,
     lr_lsid_local = 0, lr_reserved1 = 0, lr_lsid = 0\<rparr>"

definition log_record_init :: "walb_log_record \<Rightarrow> walb_log_record" where
  "log_record_init rec = zero_log_record"

definition is_valid_log_record :: "walb_log_record \<Rightarrow> bool" where
  "is_valid_log_record rec =
     (test_bit_u32 LOG_RECORD_EXIST (lr_flags rec) \<and>
      (\<not> test_bit_u32 LOG_RECORD_PADDING (lr_flags rec) \<longrightarrow> lr_io_size rec > 0) \<and>
      (\<not> test_bit_u32 LOG_RECORD_DISCARD (lr_flags rec) \<longrightarrow>
         lr_io_size rec \<le> WALB_MAX_NORMAL_IO_SECTORS) \<and>
      lr_lsid_local rec > 0 \<and>
      lr_lsid rec \<le> MAX_LSID)"

definition is_end_logpack_header :: "walb_logpack_header \<Rightarrow> bool" where
  "is_end_logpack_header lhead = (lh_n_records lhead = 0 \<and> lh_logpack_lsid lhead = - 1)"

definition is_valid_logpack_header :: "walb_logpack_header \<Rightarrow> bool" where
  "is_valid_logpack_header lhead =
     (lh_sector_type lhead = SECTOR_TYPE_LOGPACK \<and>
      (if lh_n_records lhead = 0
       then lh_total_io_size lhead = 0 \<and> lh_n_padding lhead = 0
       else lh_n_padding lhead \<le> 1 \<and> lh_n_padding lhead \<le> lh_n_records lhead \<and>
            lh_logpack_lsid lhead < lh_logpack_lsid lhead + 1 + ucast (lh_total_io_size lhead)))"

text \<open>The memory image of a record and of a header sector.\<close>

definition log_record_bytes :: "walb_log_record \<Rightarrow> u8 list" where
  "log_record_bytes r =
     le_bytes 4 (lr_checksum r) @ le_bytes 4 (lr_flags r) @ le_bytes 8 (lr_offset r) @
     le_bytes 4 (lr_io_size r) @ le_bytes 2 (lr_lsid_local r) @ le_bytes 2 (lr_reserved1 r) @
     le_bytes 8 (lr_lsid r)"

definition logpack_header_bytes :: "walb_logpack_header \<Rightarrow> u8 list" where
  "logpack_header_bytes h =
     le_bytes 4 (lh_checksum h) @ le_bytes 2 (lh_sector_type h) @
     le_bytes 2 (lh_total_io_size h) @ le_bytes 8 (lh_logpack_lsid h) @
     le_bytes 2 (lh_n_records h) @ le_bytes 2 (lh_n_padding h) @ le_bytes 4 (lh_reserved1 h) @
     concat (map log_record_bytes (lh_record h)) @ lh_tail h"

definition log_record_of_bytes :: "u8 list \<Rightarrow> walb_log_record" where
  "log_record_of_bytes b =
     \<lparr>lr_checksum = le_word (take 4 b), lr_flags = le_word (take 4 (drop 4 b)),
      lr_offset = le_word (take 8 (drop 8 b)), lr_io_size = le_word (take 4 (drop 16 b)),
      lr_lsid_local = le_word (take 2 (drop 20 b)), lr_reserved1 = le_word (take 2 (drop 22 b)),
      lr_lsid = le_word (take 8 (drop 24 b))\<rparr>"

fun log_records_of_bytes :: "nat \<Rightarrow> u8 list \<Rightarrow> walb_log_record list" where
  "log_records_of_bytes 0 b = []"
| "log_records_of_bytes (Suc n) b =
     log_record_of_bytes (take 32 b) # log_records_of_bytes n (drop 32 b)"

definition logpack_header_of_bytes :: "u8 list \<Rightarrow> walb_logpack_header" where
  "logpack_header_of_bytes b =
     (let n = (length b - 24) div 32 in
      \<lparr>lh_checksum = le_word (take 4 b), lh_sector_type = le_word (take 2 (drop 4 b)),
       lh_total_io_size = le_word (take 2 (drop 6 b)),
       lh_logpack_lsid = le_word (take 8 (drop 8 b)),
       lh_n_records = le_word (take 2 (drop 16 b)), lh_n_padding = le_word (take 2 (drop 18 b)),
       lh_reserved1 = le_word (take 4 (drop 20 b)),
       lh_record = log_records_of_bytes n (drop 24 b), lh_tail = drop (24 + 32 * n) b\<rparr>)"

definition is_valid_logpack_header_with_checksum :: "walb_logpack_header \<Rightarrow> u32 \<Rightarrow> u32 \<Rightarrow> bool" where
  "is_valid_logpack_header_with_checksum lhead pbs salt =
     (is_valid_logpack_header lhead \<and>
      (lh_n_records lhead > 0 \<longrightarrow> checksum (logpack_header_bytes lhead) (unat pbs) salt = 0))"

text \<open>The loop over the first \<^verbatim>\<open>n\<close> records; \<^verbatim>\<open>record[i]\<close> is in the sector for them.\<close>

fun valid_records :: "walb_logpack_header \<Rightarrow> nat \<Rightarrow> walb_log_record list \<Rightarrow> bool" where
  "valid_records lhead 0 recs = True"
| "valid_records lhead (Suc n) [] = False"
| "valid_records lhead (Suc n) (rec # recs) =
     (if \<not> is_valid_log_record rec then False
      else if lr_lsid rec - ucast (lr_lsid_local rec) \<noteq> lh_logpack_lsid lhead then False
      else valid_records lhead n recs)"

definition is_valid_logpack_header_and_records :: "walb_logpack_header \<Rightarrow> bool" where
  "is_valid_logpack_header_and_records lhead =
     (is_valid_logpack_header lhead \<and>
      valid_records lhead (unat (lh_n_records lhead)) (lh_record lhead))"

definition is_valid_logpack_header_and_records_with_checksum ::
    "walb_logpack_header \<Rightarrow> u32 \<Rightarrow> u32 \<Rightarrow> bool" where
  "is_valid_logpack_header_and_records_with_checksum lhead pbs salt =
     (if lh_n_records lhead > 0 \<and> checksum (logpack_header_bytes lhead) (unat pbs) salt \<noteq> 0
      then False else is_valid_logpack_header_and_records lhead)"

definition get_next_lsid_unsafe :: "walb_logpack_header \<Rightarrow> u64" where
  "get_next_lsid_unsafe lhead =
     (if lh_total_io_size lhead = 0 \<and> lh_n_records lhead = 0 then lh_logpack_lsid lhead
      else lh_logpack_lsid lhead + 1 + ucast (lh_total_io_size lhead))"

definition get_next_lsid :: "walb_logpack_header \<Rightarrow> u64" where
  "get_next_lsid lhead = get_next_lsid_unsafe lhead"

section \<open>super.h\<close>

text \<open>The value of the kernel's \<^verbatim>\<open>genhd.h\<close> and of \<^verbatim>\<open>DISK_NAME_LEN_USER\<close> in \<^verbatim>\<open>disk_name.h\<close>.\<close>

definition DISK_NAME_LEN :: nat where "DISK_NAME_LEN = 32"

record walb_super_sector =
  ss_sector_type :: u16
  ss_version :: u16
  ss_checksum :: u32
  ss_logical_bs :: u32
  ss_physical_bs :: u32
  ss_metadata_size :: u32
  ss_log_checksum_salt :: u32
  ss_uuid :: "u8 list"
  ss_name :: "u8 list"
  ss_ring_buffer_size :: u64
  ss_oldest_lsid :: u64
  ss_written_lsid :: u64
  ss_device_size :: u64

text \<open>\<^verbatim>\<open>strnlen\<close>: the number of bytes before the first NUL, at most the given bound.\<close>

definition strnlen :: "u8 list \<Rightarrow> nat \<Rightarrow> nat" where
  "strnlen s n = length (takeWhile (\<lambda>c. c \<noteq> 0) (take n s))"

definition is_valid_super_sector_raw :: "walb_super_sector \<Rightarrow> u32 \<Rightarrow> bool" where
  "is_valid_super_sector_raw sect pbs =
     (is_valid_pbs pbs \<and>
      ss_sector_type sect = SECTOR_TYPE_SUPER \<and>
      ss_version sect = WALB_LOG_VERSION \<and>
      ss_physical_bs sect = pbs \<and>
      ss_physical_bs sect \<ge> ss_logical_bs sect \<and>
      ss_physical_bs sect mod ss_logical_bs sect = 0 \<and>
      ss_oldest_lsid sect \<noteq> INVALID_LSID \<and>
      ss_written_lsid sect \<noteq> INVALID_LSID \<and>
      ss_oldest_lsid sect \<le> ss_written_lsid sect \<and>
      strnlen (ss_name sect) DISK_NAME_LEN < DISK_NAME_LEN)"

text \<open>
  \<^verbatim>\<open>snprintf(name, DISK_NAME_LEN, "%s", name)\<close>: at most 31 bytes of the C string and its
  NUL; the rest of the field keeps its bytes.
\<close>

definition set_super_sector_name :: "walb_super_sector \<Rightarrow> u8 list option \<Rightarrow> walb_super_sector" where
  "set_super_sector_name sect name =
     (case name of
        Some nm \<Rightarrow>
          let bs = take (DISK_NAME_LEN - 1) (takeWhile (\<lambda>c. c \<noteq> 0) nm) @ [0] in
          sect\<lparr>ss_name := bs @ drop (length bs) (ss_name sect)\<rparr>
      | None \<Rightarrow> sect\<lparr>ss_name := (ss_name sect)[0 := 0]\<rparr>)"

definition super_sector_bytes :: "walb_super_sector \<Rightarrow> u8 list" where
  "super_sector_bytes s =
     le_bytes 2 (ss_sector_type s) @ le_bytes 2 (ss_version s) @ le_bytes 4 (ss_checksum s) @
     le_bytes 4 (ss_logical_bs s) @ le_bytes 4 (ss_physical_bs s) @
     le_bytes 4 (ss_metadata_size s) @ le_bytes 4 (ss_log_checksum_salt s) @
     ss_uuid s @ ss_name s @ le_bytes 8 (ss_ring_buffer_size s) @ le_bytes 8 (ss_oldest_lsid s) @
     le_bytes 8 (ss_written_lsid s) @ le_bytes 8 (ss_device_size s)"

definition super_sector_of_bytes :: "u8 list \<Rightarrow> walb_super_sector" where
  "super_sector_of_bytes b =
     \<lparr>ss_sector_type = le_word (take 2 b), ss_version = le_word (take 2 (drop 2 b)),
      ss_checksum = le_word (take 4 (drop 4 b)), ss_logical_bs = le_word (take 4 (drop 8 b)),
      ss_physical_bs = le_word (take 4 (drop 12 b)),
      ss_metadata_size = le_word (take 4 (drop 16 b)),
      ss_log_checksum_salt = le_word (take 4 (drop 20 b)), ss_uuid = take 16 (drop 24 b),
      ss_name = take 32 (drop 40 b), ss_ring_buffer_size = le_word (take 8 (drop 72 b)),
      ss_oldest_lsid = le_word (take 8 (drop 80 b)),
      ss_written_lsid = le_word (take 8 (drop 88 b)),
      ss_device_size = le_word (take 8 (drop 96 b))\<rparr>"

text \<open>\<^verbatim>\<open>is_valid_super_sector\<close> reads the structure out of the sector's buffer.\<close>

definition is_valid_super_sector :: "sector_data \<Rightarrow> bool" where
  "is_valid_super_sector sect =
     (is_valid_sector_data (Some sect) \<and>
      is_valid_super_sector_raw (super_sector_of_bytes (sector_bytes sect))
        (word_of_nat (sd_size sect)))"

section \<open>log_device.h\<close>

definition PAGE_SIZE :: u64 where "PAGE_SIZE = 4096"

definition get_offset_of_lsid :: "u64 \<Rightarrow> u64 \<Rightarrow> u64 \<Rightarrow> u64" where
  "get_offset_of_lsid lsid ring_buffer_offset ring_buffer_size =
     ring_buffer_offset + lsid mod ring_buffer_size"

definition get_super_sector0_offset :: "u32 \<Rightarrow> u64" where
  "get_super_sector0_offset sector_size = PAGE_SIZE div ucast sector_size"

definition get_super_sector1_offset :: "u32 \<Rightarrow> u64" where
  "get_super_sector1_offset sector_size = get_super_sector0_offset sector_size + 1"

definition get_ring_buffer_offset :: "u32 \<Rightarrow> u64" where
  "get_ring_buffer_offset sector_size = get_super_sector1_offset sector_size + 1"

definition get_super_sector0_offset_2 :: "walb_super_sector \<Rightarrow> u64" where
  "get_super_sector0_offset_2 s = get_super_sector0_offset (ss_physical_bs s)"

definition get_super_sector1_offset_2 :: "walb_super_sector \<Rightarrow> u64" where
  "get_super_sector1_offset_2 s =
     get_super_sector0_offset (ss_physical_bs s) + 1 + ucast (ss_metadata_size s)"

definition get_ring_buffer_offset_2 :: "walb_super_sector \<Rightarrow> u64" where
  "get_ring_buffer_offset_2 s = get_super_sector1_offset_2 s + 1"

definition get_offset_of_lsid_2 :: "walb_super_sector \<Rightarrow> u64 \<Rightarrow> u64" where
  "get_offset_of_lsid_2 s lsid =
     get_offset_of_lsid lsid (get_ring_buffer_offset_2 s) (ss_ring_buffer_size s)"

section \<open>Properties of the format\<close>

lemma log_record_bytes_length [simp]: "length (log_record_bytes r) = 32"
  by (simp add: log_record_bytes_def)

lemma log_record_roundtrip: "log_record_of_bytes (log_record_bytes r) = r"
  by (simp add: log_record_of_bytes_def log_record_bytes_def le_word_le_bytes)

lemma log_records_roundtrip:
  "log_records_of_bytes (length rs) (concat (map log_record_bytes rs) @ t) = rs"
  by (induction rs) (simp_all add: log_record_roundtrip)

lemma concat_log_record_bytes_length [simp]:
  "length (concat (map log_record_bytes rs)) = 32 * length rs"
  by (induction rs) auto

lemma logpack_header_decode:
  assumes "length (lh_tail h) < 32"
  shows "logpack_header_of_bytes (logpack_header_bytes h) = h"
proof -
  have n: "(length (logpack_header_bytes h) - 24) div 32 = length (lh_record h)"
    using assms by (simp add: logpack_header_bytes_def)
  show ?thesis
    unfolding logpack_header_of_bytes_def n Let_def
    by (simp add: logpack_header_bytes_def le_word_le_bytes log_records_roundtrip)
qed

text \<open>
  Writing a logpack header sector to memory and reading the structure back gives the same
  header, records included; the tail after the last whole record is shorter than a record.
\<close>

theorem logpack_header_roundtrip:
  assumes "length (lh_tail h) < 32"
  shows "logpack_header_of_bytes (logpack_header_bytes h) = h"
  using assms by (rule logpack_header_decode)

definition demo_header :: walb_logpack_header where
  "demo_header = \<lparr>lh_checksum = 0, lh_sector_type = SECTOR_TYPE_LOGPACK, lh_total_io_size = 0,
     lh_logpack_lsid = 100, lh_n_records = 0, lh_n_padding = 0, lh_reserved1 = 0,
     lh_record = replicate 15 zero_log_record, lh_tail = replicate 8 0\<rparr>"

theorem logpack_header_roundtrip_witness:
  "logpack_header_of_bytes (logpack_header_bytes demo_header) = demo_header"
  by (rule logpack_header_roundtrip) (simp add: demo_header_def)

text \<open>
  Writing a super sector to memory and reading it back gives the same structure, whatever
  bytes follow it in the sector.
\<close>

theorem super_sector_roundtrip:
  assumes "length (ss_uuid s) = UUID_SIZE" "length (ss_name s) = DISK_NAME_LEN"
  shows "super_sector_of_bytes (super_sector_bytes s @ rest) = s"
  using assms
  by (simp add: super_sector_of_bytes_def super_sector_bytes_def le_word_le_bytes
      UUID_SIZE_def DISK_NAME_LEN_def)

definition demo_super :: walb_super_sector where
  "demo_super = \<lparr>ss_sector_type = SECTOR_TYPE_SUPER, ss_version = WALB_LOG_VERSION,
     ss_checksum = 0, ss_logical_bs = 512, ss_physical_bs = 4096, ss_metadata_size = 0,
     ss_log_checksum_salt = 77, ss_uuid = replicate 16 3, ss_name = replicate 32 0,
     ss_ring_buffer_size = 100000, ss_oldest_lsid = 10, ss_written_lsid = 20,
     ss_device_size = 1000000\<rparr>"

theorem super_sector_roundtrip_witness:
  "super_sector_of_bytes (super_sector_bytes demo_super @ [1, 2, 3]) = demo_super"
  by (rule super_sector_roundtrip) (simp_all add: demo_super_def UUID_SIZE_def DISK_NAME_LEN_def)

text \<open>
  The header's checksum discipline, as \<^verbatim>\<open>submit_logpack\<close> applies it before the header is
  written: zero the field, then store the checksum of the whole sector in it.
\<close>

definition logpack_header_seal :: "walb_logpack_header \<Rightarrow> u32 \<Rightarrow> u32 \<Rightarrow> walb_logpack_header" where
  "logpack_header_seal lhead pbs salt =
     (let lhead0 = lhead\<lparr>lh_checksum := 0\<rparr> in
      lhead0\<lparr>lh_checksum := checksum (logpack_header_bytes lhead0) (unat pbs) salt\<rparr>)"

definition logpack_header_body :: "walb_logpack_header \<Rightarrow> u8 list" where
  "logpack_header_body h = drop 4 (logpack_header_bytes h)"

lemma logpack_header_bytes_split:
  "logpack_header_bytes h = bytes_of_u32 (lh_checksum h) @ logpack_header_body h"
  by (simp add: logpack_header_body_def logpack_header_bytes_def le_bytes_u32 [symmetric])

lemma logpack_header_body_checksum [simp]:
  "logpack_header_body (h\<lparr>lh_checksum := c\<rparr>) = logpack_header_body h"
  by (simp add: logpack_header_body_def logpack_header_bytes_def)

lemma checksum_logpack_header_seal:
  assumes "is_valid_pbs pbs" "length (logpack_header_bytes h) = unat pbs"
  shows "checksum (logpack_header_bytes (logpack_header_seal h pbs salt)) (unat pbs) salt = 0"
proof -
  have "4 dvd (512 :: nat)" by simp
  then have 4: "4 dvd unat pbs" using assms(1) by (meson dvd_trans is_valid_pbs_unat)
  have len: "unat pbs = 4 + length (logpack_header_body h)"
    using assms(2) by (simp add: logpack_header_bytes_split)
  then have "4 dvd length (logpack_header_body h)" using 4 by (simp add: dvd_add_right_iff)
  from 4 len show ?thesis
    by (simp add: logpack_header_seal_def Let_def logpack_header_bytes_split checksum_word_sum
        word_sum_append)
qed

lemma valid_records_checksum [simp]:
  "valid_records (h\<lparr>lh_checksum := c\<rparr>) n rs = valid_records h n rs"
  by (induction h n rs rule: valid_records.induct) auto

text \<open>
  A logpack header that is valid apart from its checksum passes the full check that redo
  and the log readers apply to it, once its checksum has been stored.
\<close>

theorem logpack_header_seal_valid:
  assumes "is_valid_pbs pbs" "length (logpack_header_bytes h) = unat pbs"
    and "is_valid_logpack_header_and_records h"
  shows "is_valid_logpack_header_and_records_with_checksum (logpack_header_seal h pbs salt) pbs salt"
  using checksum_logpack_header_seal [OF assms(1,2), of salt] assms(3)
  by (simp add: is_valid_logpack_header_and_records_with_checksum_def
      is_valid_logpack_header_and_records_def is_valid_logpack_header_def
      logpack_header_seal_def Let_def)

theorem logpack_header_seal_valid_witness:
  "is_valid_logpack_header_and_records_with_checksum (logpack_header_seal demo_header 512 9) 512 9"
proof (rule logpack_header_seal_valid)
  show "is_valid_pbs 512" by code_simp
  show "length (logpack_header_bytes demo_header) = unat (512 :: u32)"
    by (simp add: logpack_header_bytes_def demo_header_def del: map_replicate)
  show "is_valid_logpack_header_and_records demo_header"
    by (simp add: is_valid_logpack_header_and_records_def is_valid_logpack_header_def demo_header_def)
qed

text \<open>
  The log device layout: for a page-divisor block size the reserved page, the two super
  sectors and the ring buffer follow each other without overlap, and the offset of an lsid
  lies in the ring buffer.
\<close>

theorem log_device_layout:
  assumes "unat (ss_physical_bs s) dvd 4096" "0 < ss_ring_buffer_size s"
    and "4096 + unat (ss_metadata_size s) + unat (ss_ring_buffer_size s) + 2 < 2 ^ 64"
  shows "unat (get_super_sector0_offset_2 s) * unat (ss_physical_bs s) = 4096 \<and>
         get_super_sector0_offset_2 s < get_super_sector1_offset_2 s \<and>
         get_super_sector1_offset_2 s < get_ring_buffer_offset_2 s \<and>
         get_ring_buffer_offset_2 s \<le> get_offset_of_lsid_2 s lsid \<and>
         unat (get_offset_of_lsid_2 s lsid) <
           unat (get_ring_buffer_offset_2 s) + unat (ss_ring_buffer_size s)"
proof -
  let ?b = "unat (ss_physical_bs s)" and ?m = "unat (ss_metadata_size s)"
  have s0: "unat (get_super_sector0_offset_2 s) = 4096 div ?b"
    by (simp add: get_super_sector0_offset_2_def get_super_sector0_offset_def unat_div PAGE_SIZE_def)
  have le: "4096 div ?b \<le> 4096" by simp
  have "get_super_sector1_offset_2 s = get_super_sector0_offset_2 s + (1 + ucast (ss_metadata_size s))"
    by (simp add: get_super_sector1_offset_2_def get_super_sector0_offset_2_def add.assoc)
  moreover have m: "unat (1 + ucast (ss_metadata_size s) :: u64) = 1 + ?m"
    using unat_u32_lt [of "ss_metadata_size s"] by (subst unat_add_nowrap) simp_all
  moreover have "4096 div ?b + (1 + ?m) < 2 ^ LENGTH(64)"
    using assms(3) le unfolding len64 by linarith
  ultimately have s1: "unat (get_super_sector1_offset_2 s) = 4096 div ?b + 1 + ?m"
    using s0 unat_add_nowrap [of "get_super_sector0_offset_2 s" "1 + ucast (ss_metadata_size s)"]
    by simp
  have "4096 div ?b + 1 + ?m + 1 < 2 ^ LENGTH(64)"
    using assms(3) le unfolding len64 by linarith
  then have r: "unat (get_ring_buffer_offset_2 s) = 4096 div ?b + 2 + ?m"
    using s1 unat_add_nowrap [of "get_super_sector1_offset_2 s" 1]
    by (simp add: get_ring_buffer_offset_2_def)
  have mod: "unat (lsid mod ss_ring_buffer_size s) < unat (ss_ring_buffer_size s)"
    using assms(2) by (simp add: unat_mod word_less_nat_alt)
  have o: "unat (get_offset_of_lsid_2 s lsid) =
      unat (get_ring_buffer_offset_2 s) + unat (lsid mod ss_ring_buffer_size s)"
    unfolding get_offset_of_lsid_2_def get_offset_of_lsid_def
  proof (rule unat_add_nowrap)
    show "unat (get_ring_buffer_offset_2 s) + unat (lsid mod ss_ring_buffer_size s) < 2 ^ LENGTH(64)"
      using assms(3) r mod le unfolding len64 by linarith
  qed
  show ?thesis
    using s0 s1 r o mod assms(1) by (auto simp: word_less_nat_alt word_le_nat_alt)
qed

theorem log_device_layout_witness:
  "unat (get_super_sector0_offset_2 demo_super) * unat (ss_physical_bs demo_super) = 4096 \<and>
   get_super_sector0_offset_2 demo_super < get_super_sector1_offset_2 demo_super \<and>
   get_super_sector1_offset_2 demo_super < get_ring_buffer_offset_2 demo_super \<and>
   get_ring_buffer_offset_2 demo_super \<le> get_offset_of_lsid_2 demo_super 123456789 \<and>
   unat (get_offset_of_lsid_2 demo_super 123456789) <
     unat (get_ring_buffer_offset_2 demo_super) + unat (ss_ring_buffer_size demo_super)"
  by (rule log_device_layout) (simp_all add: demo_super_def)

lemma strnlen_terminated:
  assumes "\<forall>c \<in> set bs. c \<noteq> 0" "length bs < n"
  shows "strnlen (bs @ 0 # xs) n = length bs"
proof -
  obtain k where "n - length bs = Suc k" using assms(2) by (metis Suc_diff_Suc)
  then have "take n (bs @ 0 # xs) = bs @ 0 # take k xs" using assms(2) by simp
  then show ?thesis using assms(1) by (simp add: strnlen_def takeWhile_append2)
qed

lemma set_super_sector_name_valid:
  "strnlen (ss_name (set_super_sector_name s (Some nm))) DISK_NAME_LEN < DISK_NAME_LEN"
proof -
  define bs where "bs = take (DISK_NAME_LEN - 1) (takeWhile (\<lambda>c. c \<noteq> 0) nm)"
  have "\<forall>c \<in> set bs. c \<noteq> 0" by (auto simp: bs_def dest: in_set_takeD set_takeWhileD)
  moreover have "length bs < DISK_NAME_LEN" by (simp add: bs_def DISK_NAME_LEN_def)
  ultimately show ?thesis
    unfolding set_super_sector_name_def Let_def option.case bs_def [symmetric]
    by (simp add: strnlen_terminated)
qed

end
