(* ===== verification/Walb_Bio.thy ===== *)
theory Walb_Bio
  imports Walb_Bits
begin

text \<open>
  Block IO requests and the helpers of \<^verbatim>\<open>module/bio_util.h\<close>.  The record holds the fields
  of the kernel's \<^verbatim>\<open>struct bio\<close> that the driver reads or writes: the operation and its
  flags, the iterator (\<^verbatim>\<open>bi_sector\<close> in logical blocks and \<^verbatim>\<open>bi_size\<close> in bytes), the
  data as the list of its memory segments and the word \<^verbatim>\<open>bi_private\<close>, whose least
  significant bit the driver uses as a mark.  A \<^verbatim>\<open>bio_list\<close> is a list of bios.  The
  kernel's \<^verbatim>\<open>bio_split\<close> is not part of the driver: it is a parameter whose documented
  behaviour is the locale \<^verbatim>\<open>bio_splitter\<close>.
\<close>

section \<open>Data\<close>

datatype req_op = REQ_OP_READ | REQ_OP_WRITE | REQ_OP_FLUSH | REQ_OP_DISCARD | REQ_OP_OTHER

record bvec_iter =
  bi_sector :: u64
  bi_size :: u32

record bio =
  bi_op :: req_op
  bi_preflush :: bool
  bi_fua :: bool
  bi_iter :: bvec_iter
  bi_segs :: "u8 list list"
  bi_private :: u64

definition bio_begin_sector :: "bio \<Rightarrow> u64" where
  "bio_begin_sector b = bi_sector (bi_iter b)"

definition bio_sectors :: "bio \<Rightarrow> u32" where
  "bio_sectors b = drop_bit 9 (bi_size (bi_iter b))"

definition bio_end_sector :: "bio \<Rightarrow> u64" where
  "bio_end_sector b = bi_sector (bi_iter b) + ucast (bio_sectors b)"

text \<open>\<^verbatim>\<open>bio_has_data\<close> of the kernel: a non-empty bio that is not a discard.\<close>

definition bio_has_data :: "bio \<Rightarrow> bool" where
  "bio_has_data b = (bi_size (bi_iter b) \<noteq> 0 \<and> bi_op b \<noteq> REQ_OP_DISCARD)"

section \<open>bio\_util.h\<close>

definition bvec_iter_is_overlap :: "bvec_iter \<Rightarrow> bvec_iter \<Rightarrow> bool" where
  "bvec_iter_is_overlap iter0 iter1 =
     (bi_sector iter0 + ucast (drop_bit 9 (bi_size iter0)) > bi_sector iter1 \<and>
      bi_sector iter1 + ucast (drop_bit 9 (bi_size iter1)) > bi_sector iter0)"

text \<open>\<^verbatim>\<open>bio_advance_iter\<close>: the position moves by whole sectors, the size by bytes.\<close>

definition bio_advance_iter :: "bvec_iter \<Rightarrow> u32 \<Rightarrow> bvec_iter" where
  "bio_advance_iter iter bytes =
     iter\<lparr>bi_sector := bi_sector iter + ucast (drop_bit 9 bytes), bi_size := bi_size iter - bytes\<rparr>"

definition bio_get_overlapped :: "bvec_iter \<Rightarrow> bvec_iter \<Rightarrow> bvec_iter \<times> bvec_iter \<times> u32" where
  "bio_get_overlapped iter0 iter1 =
     (if \<not> bvec_iter_is_overlap iter0 iter1 then (iter0, iter1, 0)
      else
        (let (i0, i1) =
           (if bi_sector iter0 < bi_sector iter1 then
              (bio_advance_iter iter0 (ucast (push_bit 9 (bi_sector iter1 - bi_sector iter0))), iter1)
            else if bi_sector iter0 > bi_sector iter1 then
              (iter0, bio_advance_iter iter1 (ucast (push_bit 9 (bi_sector iter0 - bi_sector iter1))))
            else (iter0, iter1))
         in (i0, i1, drop_bit 9 (min (bi_size i0) (bi_size i1)))))"

definition bio_calc_checksum_iter :: "bio \<Rightarrow> u32 \<Rightarrow> u32" where
  "bio_calc_checksum_iter b salt =
     (if bi_size (bi_iter b) = 0 \<or> bi_op b = REQ_OP_DISCARD then 0
      else checksum_finish (foldl (\<lambda>acc seg. checksum_partial acc seg (length seg)) salt (bi_segs b)))"

definition bio_calc_checksum :: "bio \<Rightarrow> u32 \<Rightarrow> u32" where
  "bio_calc_checksum b salt = bio_calc_checksum_iter b salt"

definition bio_has_flush :: "bio option \<Rightarrow> bool" where
  "bio_has_flush bo =
     (case bo of None \<Rightarrow> False | Some b \<Rightarrow> bi_op b = REQ_OP_FLUSH \<or> bi_preflush b)"

definition bio_clear_flush_flags :: "bio \<Rightarrow> bio" where
  "bio_clear_flush_flags b = b\<lparr>bi_preflush := False, bi_fua := False\<rparr>"

definition bio_clear_flush_flags_list :: "bio list \<Rightarrow> bio list" where
  "bio_clear_flush_flags_list bl = map bio_clear_flush_flags bl"

definition should_split_bio_for_chunk :: "bio \<Rightarrow> u32 \<Rightarrow> bool" where
  "should_split_bio_for_chunk b chunk_sectors =
     (if chunk_sectors = 0 then False
      else bio_begin_sector b div ucast chunk_sectors
           \<noteq> (bio_end_sector b - 1) div ucast chunk_sectors)"

text \<open>
  The loop of \<^verbatim>\<open>split_bio_for_chunk\<close>.  \<^verbatim>\<open>bio_split\<close> takes a fuel-free partial function
  because nothing is assumed of it here; not returning is \<^const>\<open>None\<close>.  The result is
  the returned flag, the list built so far and what is left of the bio.
\<close>

partial_function (option) split_loop ::
    "(bio \<Rightarrow> u32 \<Rightarrow> (bio \<times> bio) option) \<Rightarrow> u32 \<Rightarrow> bio list \<Rightarrow> bio \<Rightarrow> (bool \<times> bio list \<times> bio) option" where
  "split_loop bio_split chunk_sectors bl b =
     (if should_split_bio_for_chunk b chunk_sectors then
        (let n = chunk_sectors - ucast (bio_begin_sector b mod ucast chunk_sectors) in
         case bio_split b n of
           None \<Rightarrow> Some (False, bl, b)
         | Some (split, rest) \<Rightarrow> split_loop bio_split chunk_sectors (bl @ [split]) rest)
      else Some (True, bl @ [b], b))"

definition split_bio_for_chunk ::
    "(bio \<Rightarrow> u32 \<Rightarrow> (bio \<times> bio) option) \<Rightarrow> bio list \<Rightarrow> bio \<Rightarrow> u32 \<Rightarrow> (bool \<times> bio list \<times> bio) option" where
  "split_bio_for_chunk bio_split bl b chunk_sectors =
     (if \<not> bio_has_data b then Some (True, bl @ [b], b)
      else split_loop bio_split chunk_sectors bl b)"

text \<open>
  \<^verbatim>\<open>bio_list_insert\<close> and \<^verbatim>\<open>bio_list_del\<close> on lists whose elements are bio addresses;
  \<^verbatim>\<open>prev\<close> is the element before the place, \<^const>\<open>None\<close> for the NULL pointer.
\<close>

fun insert_after :: "'a \<Rightarrow> 'a \<Rightarrow> 'a list \<Rightarrow> 'a list" where
  "insert_after p x [] = []"
| "insert_after p x (y # ys) = (if y = p then y # x # ys else y # insert_after p x ys)"

definition bio_list_insert :: "'a list \<Rightarrow> 'a \<Rightarrow> 'a option \<Rightarrow> 'a list" where
  "bio_list_insert bl b prev =
     (if bl = [] then bl @ [b]
      else case prev of None \<Rightarrow> b # bl | Some p \<Rightarrow> insert_after p b bl)"

fun remove_after :: "'a \<Rightarrow> 'a list \<Rightarrow> 'a list" where
  "remove_after p (y # z # zs) = (if y = p then y # zs else y # remove_after p (z # zs))"
| "remove_after p ys = ys"

definition bio_list_del :: "'a list \<Rightarrow> 'a \<Rightarrow> 'a option \<Rightarrow> 'a list" where
  "bio_list_del bl b prev =
     (if bl = [] then []
      else if hd bl = b \<and> last bl = b then []
      else if hd bl = b then tl bl
      else if last bl = b then butlast bl
      else case prev of None \<Rightarrow> bl | Some p \<Rightarrow> remove_after p bl)"

definition bio_private_lsb_get :: "bio \<Rightarrow> bool" where
  "bio_private_lsb_get b = ((bi_private b AND 1) \<noteq> 0)"

definition bio_private_lsb_set :: "bio \<Rightarrow> bio" where
  "bio_private_lsb_set b = b\<lparr>bi_private := bi_private b OR 1\<rparr>"

definition bio_private_lsb_clear :: "bio \<Rightarrow> bio" where
  "bio_private_lsb_clear b = b\<lparr>bi_private := bi_private b AND NOT 1\<rparr>"

section \<open>Elementary facts\<close>

lemma unat_bio_sectors: "unat (bio_sectors b) = unat (bi_size (bi_iter b)) div 512"
  by (simp add: bio_sectors_def drop_bit_eq_div unat_div)

lemma bio_private_lsb_get_bit: "bio_private_lsb_get b = bit (bi_private b) 0"
  using and_push_bit_1 [of "bi_private b" 0] by (simp add: bio_private_lsb_get_def del: and_one_eq)

lemma bio_private_lsb [simp]:
  "bio_private_lsb_get (bio_private_lsb_set b)" "\<not> bio_private_lsb_get (bio_private_lsb_clear b)"
  by (simp_all add: bio_private_lsb_get_bit bio_private_lsb_set_def bio_private_lsb_clear_def
      bit_or_iff bit_and_iff bit_not_iff bit_1_iff del: bit_0)

lemma bio_private_lsb_clear_set:
  assumes "\<not> bio_private_lsb_get b"
  shows "bio_private_lsb_clear (bio_private_lsb_set b) = b"
proof -
  have "(bi_private b OR 1) AND NOT 1 = bi_private b"
  proof (rule bit_word_eqI)
    fix n :: nat
    show "bit ((bi_private b OR 1) AND NOT 1) n = bit (bi_private b) n" if "n < LENGTH(64)"
      using assms that
      by (cases "n = 0")
         (auto simp: bio_private_lsb_get_bit bit_or_iff bit_and_iff bit_not_iff bit_1_iff simp del: bit_0)
  qed
  then show ?thesis
    by (simp add: bio_private_lsb_set_def bio_private_lsb_clear_def)
qed

section \<open>Splitting at chunk boundaries\<close>

text \<open>
  What the kernel documents of \<^verbatim>\<open>bio_split(bio, sectors)\<close>: it takes the first \<^verbatim>\<open>sectors\<close>
  blocks off into a new bio and advances the old one, or fails to allocate.  Positions are
  read as natural numbers.
\<close>

definition bio_lo :: "bio \<Rightarrow> nat" where
  "bio_lo b = unat (bio_begin_sector b)"

definition bio_len :: "bio \<Rightarrow> nat" where
  "bio_len b = unat (bio_sectors b)"

text \<open>One bio lies in one chunk of \<^verbatim>\<open>c\<close> blocks.\<close>

definition in_chunk :: "nat \<Rightarrow> bio \<Rightarrow> bool" where
  "in_chunk c b = (bio_lo b div c = (bio_lo b + bio_len b - 1) div c)"

text \<open>Consecutive bios that start at \<^verbatim>\<open>p\<close> and end at \<^verbatim>\<open>q\<close>.\<close>

fun tiles :: "nat \<Rightarrow> bio list \<Rightarrow> nat \<Rightarrow> bool" where
  "tiles p [] q = (p = q)"
| "tiles p (b # bs) q = (bio_lo b = p \<and> 0 < bio_len b \<and> tiles (p + bio_len b) bs q)"

lemma should_split_iff:
  assumes "0 < unat c" "0 < bio_len b" "bio_lo b + bio_len b < 2 ^ 64"
  shows "should_split_bio_for_chunk b c \<longleftrightarrow>
         bio_lo b div unat c \<noteq> (bio_lo b + bio_len b - 1) div unat c"
proof -
  have e: "unat (bio_end_sector b) = bio_lo b + bio_len b"
    unfolding bio_end_sector_def bio_lo_def bio_len_def bio_begin_sector_def
    using assms(3) by (subst unat_add_nowrap) (simp_all add: bio_lo_def bio_len_def bio_begin_sector_def)
  have "1 \<le> bio_end_sector b" using e assms(2) by (simp add: word_le_nat_alt)
  then have l: "unat (bio_end_sector b - 1) = bio_lo b + bio_len b - 1"
    using e by (simp add: unat_sub_nowrap)
  have "c \<noteq> 0" using assms(1) by auto
  then show ?thesis
    by (simp add: should_split_bio_for_chunk_def word_unat_eq_iff unat_div l bio_lo_def)
qed

lemma chunk_cut:
  fixes p c len :: nat
  assumes "0 < c" "p div c \<noteq> (p + len - 1) div c" "0 < len"
  shows "0 < c - p mod c" "c - p mod c < len" "p div c = (p + (c - p mod c) - 1) div c"
proof -
  have m: "p mod c < c" using assms(1) by simp
  then show "0 < c - p mod c" by simp
  have eq: "p + (c - p mod c) = (p div c + 1) * c"
    using m div_mult_mod_eq [of p c] by (simp only: add_mult_distrib)
  show "p div c = (p + (c - p mod c) - 1) div c"
    unfolding eq using assms(1) by (intro sym [OF div_nat_eqI]) (simp_all add: algebra_simps)
  show "c - p mod c < len"
  proof (rule ccontr)
    assume "\<not> c - p mod c < len"
    then have "p + len - 1 < (p div c + 1) * c" using eq assms(3) by linarith
    moreover have "p div c * c \<le> p + len - 1"
      using div_times_less_eq_dividend [of p c] assms(3) by linarith
    ultimately have "(p + len - 1) div c = p div c"
      by (intro div_nat_eqI) (simp_all add: algebra_simps)
    with assms(2) show False by simp
  qed
qed

lemma unat_cut:
  "0 < unat c \<Longrightarrow> unat (c - ucast (bio_begin_sector b mod ucast c) :: u32) = unat c - bio_lo b mod unat c"
proof -
  assume c: "0 < unat c"
  have lt: "bio_lo b mod unat c < unat c" using c by simp
  then have "bio_lo b mod unat c < 2 ^ 32" using unat_u32_lt [of c] by simp
  then have r: "unat (ucast (bio_begin_sector b mod ucast c) :: u32) = bio_lo b mod unat c"
    by (simp add: unsigned_ucast_eq unat_mod bio_lo_def take_bit_nat_eq_self)
  then have "ucast (bio_begin_sector b mod ucast c) \<le> c" using lt by (simp add: word_le_nat_alt)
  then show ?thesis using r by (simp add: unat_sub_nowrap)
qed

lemma tiles_snoc: "tiles p (bs @ [b]) q \<longleftrightarrow> (\<exists>r. tiles p bs r \<and> bio_lo b = r \<and> 0 < bio_len b \<and> r + bio_len b = q)"
  by (induction bs arbitrary: p) auto

locale bio_splitter =
  fixes bio_split :: "bio \<Rightarrow> u32 \<Rightarrow> (bio \<times> bio) option"
  assumes split_cuts: "\<And>b n hd tl. \<lbrakk>bio_split b n = Some (hd, tl); 0 < unat n; unat n < bio_len b;
      bio_lo b + bio_len b < 2 ^ 64\<rbrakk> \<Longrightarrow>
    bio_lo hd = bio_lo b \<and> bio_len hd = unat n \<and>
    bio_lo tl = bio_lo b + unat n \<and> bio_len tl = bio_len b - unat n"
begin

lemma split_loop_ok:
  assumes "0 < unat c" "0 < bio_len b" "bio_lo b + bio_len b < 2 ^ 64"
  shows "\<exists>ok bl' b'. split_loop bio_split c bl b = Some (ok, bl @ bl', b') \<and>
           (\<forall>x \<in> set bl'. in_chunk (unat c) x) \<and>
           tiles (bio_lo b) bl' (if ok then bio_lo b + bio_len b else bio_lo b') \<and>
           (\<not> ok \<longrightarrow> bio_lo b' + bio_len b' = bio_lo b + bio_len b \<and> 0 < bio_len b' \<and>
              (\<exists>n. bio_split b' n = None))"
  using assms(2,3)
proof (induction "bio_len b" arbitrary: b bl rule: less_induct)
  case less
  let ?n = "c - ucast (bio_begin_sector b mod ucast c)"
  note n = unat_cut [OF assms(1), of b]
  show ?case
  proof (cases "should_split_bio_for_chunk b c")
    case False
    then have "split_loop bio_split c bl b = Some (True, bl @ [b], b)"
      by (simp add: split_loop.simps)
    then show ?thesis
      using False should_split_iff [OF assms(1) less.prems] less.prems
      by (intro exI [of _ True] exI [of _ "[b]"]) (simp add: in_chunk_def)
  next
    case True
    then have ne: "bio_lo b div unat c \<noteq> (bio_lo b + bio_len b - 1) div unat c"
      using should_split_iff [OF assms(1) less.prems] by simp
    note cut = chunk_cut [OF assms(1) ne less.prems(1), folded n]
    show ?thesis
    proof (cases "bio_split b ?n")
      case None
      then have "split_loop bio_split c bl b = Some (False, bl, b)"
        using True by (simp add: split_loop.simps Let_def)
      then show ?thesis using less.prems None by (intro exI [of _ False] exI [of _ "[]"]) auto
    next
      case (Some p)
      obtain h t where p: "p = (h, t)" by fastforce
      note cuts = split_cuts [OF Some [unfolded p] cut(1,2) less.prems(2)]
      have "split_loop bio_split c bl b = split_loop bio_split c (bl @ [h]) t"
        using True Some p by (subst split_loop.simps) (simp add: Let_def)
      moreover have "bio_len t < bio_len b" "0 < bio_len t" "bio_lo t + bio_len t < 2 ^ 64"
        using cuts cut(1,2) less.prems by auto
      from less.hyps [OF this, of "bl @ [h]"] obtain ok bl' b' where
        ih: "split_loop bio_split c (bl @ [h]) t = Some (ok, bl @ (h # bl'), b')"
          "\<forall>x \<in> set bl'. in_chunk (unat c) x"
          "tiles (bio_lo t) bl' (if ok then bio_lo t + bio_len t else bio_lo b')"
          "\<not> ok \<longrightarrow> bio_lo b' + bio_len b' = bio_lo t + bio_len t \<and> 0 < bio_len b' \<and>
             (\<exists>n. bio_split b' n = None)"
        by auto
      moreover have "in_chunk (unat c) h"
        using cuts cut(3) by (simp add: in_chunk_def)
      moreover have "bio_lo t + bio_len t = bio_lo b + bio_len b" using cuts cut(2) by simp
      ultimately show ?thesis
        using cuts cut(1) by (intro exI [of _ ok] exI [of _ "h # bl'"] exI [of _ b']) auto
    qed
  qed
qed

end

text \<open>
  A splitter that satisfies the contract: cut the iterator (the data segments are shared by
  the two parts, as the kernel shares the bio vector) and never fail.
\<close>

definition cut_bio :: "bio \<Rightarrow> u32 \<Rightarrow> (bio \<times> bio) option" where
  "cut_bio b n = Some
     (b\<lparr>bi_iter := (bi_iter b)\<lparr>bi_size := push_bit 9 n\<rparr>, bi_private := 0\<rparr>,
      b\<lparr>bi_iter := bio_advance_iter (bi_iter b) (push_bit 9 n)\<rparr>)"

lemma unat_push_bit_9:
  fixes n :: u32
  assumes "unat n < 2 ^ 23"
  shows "unat (push_bit 9 n) = unat n * 512"
  using assms by (simp add: push_bit_eq_mult unat_word_ariths)

interpretation cut_bio: bio_splitter cut_bio
proof
  fix b hd tl :: bio and n :: u32
  assume r: "cut_bio b n = Some (hd, tl)" and n: "0 < unat n" "unat n < bio_len b"
    and lt: "bio_lo b + bio_len b < 2 ^ 64"
  have sz: "unat n * 512 \<le> unat (bi_size (bi_iter b))"
    using n(2) by (simp add: bio_len_def unat_bio_sectors less_eq_div_iff_mult_less_eq [symmetric])
  then have p: "unat (push_bit 9 n) = unat n * 512"
    using unat_u32_lt [of "bi_size (bi_iter b)"] by (intro unat_push_bit_9) simp
  have d: "unat (drop_bit 9 (push_bit 9 n)) = unat n"
    using p by (simp add: drop_bit_eq_div unat_div)
  have "unat (bi_size (bi_iter b) - push_bit 9 n) = unat (bi_size (bi_iter b)) - unat n * 512"
    using p sz by (subst unat_sub_nowrap) (simp_all add: word_le_nat_alt)
  then have t: "bio_len tl = bio_len b - unat n"
    using r by (auto simp: cut_bio_def bio_len_def unat_bio_sectors bio_advance_iter_def)
  have "unat (bi_sector (bi_iter b) + ucast (drop_bit 9 (push_bit 9 n))) = bio_lo b + unat n"
    using lt n(2) d by (subst unat_add_nowrap) (simp_all add: bio_lo_def bio_begin_sector_def)
  then show "bio_lo hd = bio_lo b \<and> bio_len hd = unat n \<and>
      bio_lo tl = bio_lo b + unat n \<and> bio_len tl = bio_len b - unat n"
    using r t d by (auto simp: cut_bio_def bio_lo_def bio_len_def bio_begin_sector_def
        bio_sectors_def bio_advance_iter_def)
qed

text \<open>
  Splitting a bio at chunk boundaries returns, with any \<^verbatim>\<open>bio_split\<close> that keeps the
  kernel's contract.  When it succeeds, the pieces appended to the list are consecutive, cover
  exactly the blocks of the bio and each lies inside one chunk.  When an allocation fails, the
  pieces cover a prefix and what is left of the bio covers the rest, so that calling it again
  with the same list loses nothing.
\<close>

theorem split_bio_for_chunk_tiles:
  assumes "bio_splitter sp" "0 < unat c" "0 < bio_len b" "bio_lo b + bio_len b < 2 ^ 64"
    and "bio_has_data b"
  shows "\<exists>ok bl' b'. split_bio_for_chunk sp bl b c = Some (ok, bl @ bl', b') \<and>
           (\<forall>x \<in> set bl'. in_chunk (unat c) x) \<and>
           tiles (bio_lo b) bl' (if ok then bio_lo b + bio_len b else bio_lo b') \<and>
           (\<not> ok \<longrightarrow> bio_lo b' + bio_len b' = bio_lo b + bio_len b \<and> 0 < bio_len b' \<and>
              (\<exists>n. sp b' n = None))"
  using bio_splitter.split_loop_ok [OF assms(1-4), of bl] assms(5)
  by (simp add: split_bio_for_chunk_def)

definition demo_bio :: "u64 \<Rightarrow> u32 \<Rightarrow> bio" where
  "demo_bio pos len = \<lparr>bi_op = REQ_OP_WRITE, bi_preflush = False, bi_fua = False,
     bi_iter = \<lparr>bi_sector = pos, bi_size = push_bit 9 len\<rparr>, bi_segs = [], bi_private = 0\<rparr>"

theorem split_bio_for_chunk_tiles_witness:
  "\<exists>ok bl' b'. split_bio_for_chunk cut_bio [] (demo_bio 100 200) 64 = Some (ok, [] @ bl', b') \<and>
     (\<forall>x \<in> set bl'. in_chunk (unat (64 :: u32)) x) \<and>
     tiles (bio_lo (demo_bio 100 200)) bl'
       (if ok then bio_lo (demo_bio 100 200) + bio_len (demo_bio 100 200) else bio_lo b') \<and>
     (\<not> ok \<longrightarrow> bio_lo b' + bio_len b' = bio_lo (demo_bio 100 200) + bio_len (demo_bio 100 200) \<and>
        0 < bio_len b' \<and> (\<exists>n. cut_bio b' n = None))"
proof (rule split_bio_for_chunk_tiles [OF cut_bio.bio_splitter_axioms])
  show "0 < bio_len (demo_bio 100 200)" by code_simp
  show "bio_lo (demo_bio 100 200) + bio_len (demo_bio 100 200) < 2 ^ 64"
    by (simp add: demo_bio_def bio_lo_def bio_len_def bio_begin_sector_def unat_bio_sectors)
  show "bio_has_data (demo_bio 100 200)" by code_simp
qed simp

end
