(* ===== verification/Walb_Logpack.thy ===== *)
theory Walb_Logpack
  imports Walb_Log_Record Walb_Bio
begin

text \<open>
  Building a logpack header: \<^verbatim>\<open>walb_logpack_header_add_bio\<close> of \<^verbatim>\<open>module/logpack.c\<close>.  The
  function adds one log record (or a padding record and a log record) to a header, or reports
  that the bio needs a new logpack; it may have added a padding record even then.  The
  invariant says how the records lie in the log: consecutive, none of them across the end of
  the ring buffer, with the counters of the header telling the truth about them.
\<close>

section \<open>The operation\<close>

definition padding_record :: "u32 \<Rightarrow> walb_log_record \<Rightarrow> u64 \<Rightarrow> u64 \<Rightarrow> u64 \<Rightarrow> walb_log_record" where
  "padding_record pbs rec bio_lsid logpack_lsid padding_pb =
     rec\<lparr>lr_flags := set_bit_u32 LOG_RECORD_EXIST (set_bit_u32 LOG_RECORD_PADDING (lr_flags rec)),
         lr_lsid := bio_lsid,
         lr_lsid_local := ucast (bio_lsid - logpack_lsid),
         lr_offset := 0,
         lr_io_size := ucast (ucast (capacity_lb pbs padding_pb) :: u16)\<rparr>"

definition io_record :: "walb_log_record \<Rightarrow> u64 \<Rightarrow> u64 \<Rightarrow> bio \<Rightarrow> walb_log_record" where
  "io_record rec bio_lsid logpack_lsid b =
     (let flags = clear_bit_u32 LOG_RECORD_PADDING (set_bit_u32 LOG_RECORD_EXIST (lr_flags rec)) in
      rec\<lparr>lr_flags := (if bi_op b = REQ_OP_DISCARD then set_bit_u32 LOG_RECORD_DISCARD flags
                      else clear_bit_u32 LOG_RECORD_DISCARD flags),
          lr_lsid := bio_lsid,
          lr_lsid_local := ucast (bio_lsid - logpack_lsid),
          lr_offset := bio_begin_sector b,
          lr_io_size := bio_sectors b\<rparr>)"

text \<open>
  The part of the function after the padding check: the size check, which a discard skips,
  and the log record itself.
\<close>

definition add_io_record ::
    "walb_logpack_header \<Rightarrow> bio \<Rightarrow> u32 \<Rightarrow> u64 \<Rightarrow> bool \<times> walb_logpack_header" where
  "add_io_record lhead b bio_pb bio_lsid =
     (let is_discard = (bi_op b = REQ_OP_DISCARD); idx = unat (lh_n_records lhead) in
      if \<not> is_discard \<and>
         ucast (lh_total_io_size lhead) + bio_pb > MAX_TOTAL_IO_SIZE_IN_LOGPACK_HEADER
      then (False, lhead)
      else (True, lhead\<lparr>
        lh_record := (lh_record lhead)[idx :=
          io_record (lh_record lhead ! idx) bio_lsid (lh_logpack_lsid lhead) b],
        lh_n_records := lh_n_records lhead + 1,
        lh_total_io_size := (if is_discard then lh_total_io_size lhead
                             else lh_total_io_size lhead + ucast bio_pb)\<rparr>))"

definition walb_logpack_header_add_bio ::
    "walb_logpack_header \<Rightarrow> bio \<Rightarrow> u32 \<Rightarrow> u64 \<Rightarrow> bool \<times> walb_logpack_header" where
  "walb_logpack_header_add_bio lhead b pbs ring_buffer_size =
     (let logpack_lsid = lh_logpack_lsid lhead;
          max_n_rec = max_n_log_record_in_sector pbs;
          idx = unat (lh_n_records lhead) in
      if ucast (lh_n_records lhead) = max_n_rec then (False, lhead)
      else
        (let bio_lsid = logpack_lsid + 1 + ucast (lh_total_io_size lhead);
             bio_lb = bio_sectors b in
         if bio_lb = 0 then (True, lhead)
         else
           (let bio_pb = ucast (capacity_pb pbs (ucast bio_lb)) :: u32;
                is_discard = (bi_op b = REQ_OP_DISCARD);
                padding_pb = ring_buffer_size - bio_lsid mod ring_buffer_size in
            if \<not> is_discard \<and> padding_pb < ucast bio_pb then
              (if ucast (lh_total_io_size lhead) + padding_pb
                    > ucast MAX_TOTAL_IO_SIZE_IN_LOGPACK_HEADER
               then (False, lhead)
               else
                 (let lhead1 = lhead\<lparr>
                        lh_record := (lh_record lhead)[idx :=
                          padding_record pbs (lh_record lhead ! idx) bio_lsid logpack_lsid padding_pb],
                        lh_n_padding := lh_n_padding lhead + 1,
                        lh_n_records := lh_n_records lhead + 1,
                        lh_total_io_size := lh_total_io_size lhead + ucast padding_pb\<rparr> in
                  if ucast (lh_n_records lhead1) = max_n_rec then (False, lhead1)
                  else add_io_record lhead1 b bio_pb (bio_lsid + padding_pb)))
            else add_io_record lhead b bio_pb bio_lsid)))"

section \<open>How the records of a logpack lie in the log\<close>

definition rec_discard :: "walb_log_record \<Rightarrow> bool" where
  "rec_discard r = test_bit_u32 LOG_RECORD_DISCARD (lr_flags r)"

definition rec_padding :: "walb_log_record \<Rightarrow> bool" where
  "rec_padding r = test_bit_u32 LOG_RECORD_PADDING (lr_flags r)"

text \<open>Physical blocks a record occupies in the log: none for a discard.\<close>

definition rec_pb :: "u32 \<Rightarrow> walb_log_record \<Rightarrow> nat" where
  "rec_pb pbs r = (if rec_discard r then 0 else unat (capacity_pb pbs (ucast (lr_io_size r))))"

definition recs_pb :: "u32 \<Rightarrow> walb_log_record list \<Rightarrow> nat" where
  "recs_pb pbs rs = sum_list (map (rec_pb pbs) rs)"

text \<open>One record at local position \<^verbatim>\<open>l\<close> of the logpack with lsid \<^verbatim>\<open>p\<close>.\<close>

definition rec_ok :: "u32 \<Rightarrow> nat \<Rightarrow> nat \<Rightarrow> nat \<Rightarrow> walb_log_record \<Rightarrow> bool" where
  "rec_ok pbs rbs p l r \<longleftrightarrow>
     is_valid_log_record r \<and> unat (lr_lsid_local r) = l \<and> unat (lr_lsid r) = p + l \<and>
     (\<not> rec_discard r \<longrightarrow> 0 < rec_pb pbs r \<and> (p + l) mod rbs + rec_pb pbs r \<le> rbs) \<and>
     (rec_padding r \<longrightarrow> \<not> rec_discard r \<and> (p + l) mod rbs + rec_pb pbs r = rbs)"

fun recs_ok :: "u32 \<Rightarrow> nat \<Rightarrow> nat \<Rightarrow> nat \<Rightarrow> walb_log_record list \<Rightarrow> bool" where
  "recs_ok pbs rbs p l [] = True"
| "recs_ok pbs rbs p l (r # rs) = (rec_ok pbs rbs p l r \<and> recs_ok pbs rbs p (l + rec_pb pbs r) rs)"

definition used_records :: "walb_logpack_header \<Rightarrow> walb_log_record list" where
  "used_records h = take (unat (lh_n_records h)) (lh_record h)"

definition logpack_inv :: "u32 \<Rightarrow> u64 \<Rightarrow> walb_logpack_header \<Rightarrow> bool" where
  "logpack_inv pbs rbs h \<longleftrightarrow>
     lh_sector_type h = SECTOR_TYPE_LOGPACK \<and>
     length (lh_record h) = unat (max_n_log_record_in_sector pbs) \<and>
     unat (lh_n_records h) \<le> length (lh_record h) \<and>
     unat (lh_logpack_lsid h) + 65536 \<le> unat MAX_LSID \<and>
     unat (lh_total_io_size h) = recs_pb pbs (used_records h) \<and>
     unat (lh_n_padding h) = length (filter rec_padding (used_records h)) \<and>
     recs_ok pbs (unat rbs) (unat (lh_logpack_lsid h)) 1 (used_records h) \<and>
     (\<forall>r \<in> set (drop (unat (lh_n_records h)) (lh_record h)). lr_flags r = 0)"

lemma recs_pb_append [simp]: "recs_pb pbs (xs @ ys) = recs_pb pbs xs + recs_pb pbs ys"
  by (simp add: recs_pb_def)

lemma recs_pb_simps [simp]: "recs_pb pbs [] = 0" "recs_pb pbs (r # rs) = rec_pb pbs r + recs_pb pbs rs"
  by (simp_all add: recs_pb_def)

lemma recs_ok_append:
  "recs_ok pbs rbs p l (xs @ ys) \<longleftrightarrow>
     recs_ok pbs rbs p l xs \<and> recs_ok pbs rbs p (l + recs_pb pbs xs) ys"
  by (induction xs arbitrary: l) (auto simp: add.assoc)

text \<open>Appending one record to the used ones.\<close>

lemma used_records_push:
  assumes "unat (lh_n_records h) < length (lh_record h)" "unat (lh_n_records h) + 1 < 65536"
    and "lh_record h' = (lh_record h)[unat (lh_n_records h) := r]"
    and "lh_n_records h' = lh_n_records h + 1"
  shows "used_records h' = used_records h @ [r]"
    "unat (lh_n_records h') = unat (lh_n_records h) + 1"
    "drop (unat (lh_n_records h')) (lh_record h') = drop (unat (lh_n_records h) + 1) (lh_record h)"
proof -
  show n: "unat (lh_n_records h') = unat (lh_n_records h) + 1"
    using assms(2,4) by (simp add: unat_add_nowrap)
  show "used_records h' = used_records h @ [r]"
    using assms(1,3) n by (simp add: used_records_def take_Suc_conv_app_nth)
  show "drop (unat (lh_n_records h')) (lh_record h') = drop (unat (lh_n_records h) + 1) (lh_record h)"
    using assms(3) n by simp
qed

lemma logpack_inv_push:
  assumes inv: "logpack_inv pbs rbs h" and n: "unat (lh_n_records h) < length (lh_record h)"
    and n2: "unat (lh_n_records h) + 1 < 65536"
    and rec: "rec_ok pbs (unat rbs) (unat (lh_logpack_lsid h)) (1 + unat (lh_total_io_size h)) r"
    and h': "lh_record h' = (lh_record h)[unat (lh_n_records h) := r]"
      "lh_n_records h' = lh_n_records h + 1"
      "lh_sector_type h' = lh_sector_type h" "lh_logpack_lsid h' = lh_logpack_lsid h"
      "unat (lh_total_io_size h') = unat (lh_total_io_size h) + rec_pb pbs r"
      "unat (lh_n_padding h') = unat (lh_n_padding h) + (if rec_padding r then 1 else 0)"
  shows "logpack_inv pbs rbs h'"
proof -
  note push = used_records_push [OF n n2 h'(1,2)]
  have "\<forall>r \<in> set (drop (unat (lh_n_records h')) (lh_record h')). lr_flags r = 0"
    using inv unfolding push(3) logpack_inv_def
    by (metis add.commute drop_drop in_set_dropD)
  then show ?thesis
    using inv rec h' push n by (auto simp: logpack_inv_def recs_ok_append)
qed

section \<open>The arithmetic of the operation\<close>

text \<open>Physical blocks of a number of logical blocks, as a natural number.\<close>

definition pb_of :: "u32 \<Rightarrow> nat \<Rightarrow> nat" where
  "pb_of pbs lb = (lb + unat (n_lb_in_pb pbs) - 1) div unat (n_lb_in_pb pbs)"

lemma unat_capacity_pb_u32:
  assumes "is_valid_pbs pbs"
  shows "unat (capacity_pb pbs (ucast (lb :: u32))) = pb_of pbs (unat lb)"
  using unat_capacity_pb [OF assms, of "ucast lb"] unat_u32_lt [of lb] n_lb_in_pb_bounds(2) [OF assms]
  by (simp add: pb_of_def)

lemma pb_of_pos: "is_valid_pbs pbs \<Longrightarrow> 0 < lb \<Longrightarrow> 0 < pb_of pbs lb"
  using n_lb_in_pb_bounds(1) [of pbs] by (simp add: pb_of_def div_greater_zero_iff)

lemma pb_of_le:
  assumes "is_valid_pbs pbs"
  shows "pb_of pbs lb \<le> lb"
proof -
  let ?n = "unat (n_lb_in_pb pbs)"
  have n: "0 < ?n" by (rule n_lb_in_pb_bounds(1) [OF assms])
  have "lb \<le> lb * ?n" using n by simp
  then have "lb + ?n - 1 < Suc lb * ?n" using n unfolding mult_Suc by linarith
  then have "pb_of pbs lb < Suc lb" unfolding pb_of_def by (rule less_mult_imp_div_less)
  then show ?thesis by simp
qed

text \<open>Fewer physical blocks than an IO needs hold fewer logical blocks than it has.\<close>

lemma pb_of_gt:
  assumes "is_valid_pbs pbs" "p < pb_of pbs lb"
  shows "p * unat (n_lb_in_pb pbs) < lb"
proof -
  let ?n = "unat (n_lb_in_pb pbs)"
  have n: "0 < ?n" by (rule n_lb_in_pb_bounds(1) [OF assms(1)])
  have "Suc p * ?n \<le> lb + ?n - 1"
    using assms(2) n by (metis Suc_leI less_eq_div_iff_mult_less_eq pb_of_def)
  then show ?thesis using n by simp
qed

lemma pb_of_mult:
  assumes "is_valid_pbs pbs"
  shows "pb_of pbs (p * unat (n_lb_in_pb pbs)) = p"
proof -
  have n: "0 < unat (n_lb_in_pb pbs)" by (rule n_lb_in_pb_bounds(1) [OF assms])
  then show ?thesis unfolding pb_of_def by (intro div_nat_eqI) (simp_all add: algebra_simps)
qed

lemma unat_bio_lsid:
  assumes "unat p + 65536 \<le> unat MAX_LSID"
  shows "unat (p + 1 + ucast (t :: u16) :: u64) = unat p + 1 + unat t"
proof -
  have m: "unat MAX_LSID = 18446744073709551614" by (simp add: MAX_LSID_def)
  have "unat (1 + ucast t :: u64) = 1 + unat t"
    using unat_u16_lt [of t] by (subst unat_add_nowrap) simp_all
  then show ?thesis
    using assms m unat_u16_lt [of t]
    by (subst add.assoc) (subst unat_add_nowrap; simp)
qed

lemma unat_lsid_local:
  assumes "Suc (unat t) < 65536"
  shows "unat (ucast ((p + 1 + ucast (t :: u16)) - p :: u64) :: u16) = Suc (unat t)"
proof -
  have "unat (1 + ucast t :: u64) = 1 + unat t"
    using unat_u16_lt [of t] by (subst unat_add_nowrap) simp_all
  then show ?thesis using assms
    by (simp add: unsigned_ucast_eq take_bit_nat_eq_self)
qed

text \<open>Blocks left before the end of the ring buffer: never zero.\<close>

lemma unat_padding_pb:
  assumes "0 < rbs"
  shows "unat (rbs - l mod rbs :: u64) = unat rbs - unat l mod unat rbs"
    "0 < unat rbs - unat l mod unat rbs" "unat rbs - unat l mod unat rbs \<le> unat rbs"
proof -
  have r: "0 < unat rbs" using assms by (simp add: word_less_nat_alt)
  then have m: "unat (l mod rbs) < unat rbs" by (simp add: unat_mod)
  then have "l mod rbs \<le> rbs" by (simp add: word_le_nat_alt)
  then show "unat (rbs - l mod rbs) = unat rbs - unat l mod unat rbs"
    by (simp add: unat_sub_nowrap unat_mod)
  show "0 < unat rbs - unat l mod unat rbs" using r by simp
qed simp

section \<open>The records it writes\<close>

lemma io_record_flags:
  "test_bit_u32 LOG_RECORD_EXIST (lr_flags (io_record r l p b))"
  "rec_padding (io_record r l p b) = False"
  "rec_discard (io_record r l p b) = (bi_op b = REQ_OP_DISCARD)"
  by (simp_all add: io_record_def Let_def rec_padding_def rec_discard_def log_record_flag_defs)

lemma io_record_fields [simp]:
  "lr_io_size (io_record r l p b) = bio_sectors b" "lr_lsid (io_record r l p b) = l"
  "lr_lsid_local (io_record r l p b) = ucast (l - p)"
  "lr_offset (io_record r l p b) = bio_begin_sector b"
  by (simp_all add: io_record_def Let_def)

lemma padding_record_fields [simp]:
  "lr_lsid (padding_record pbs r l p k) = l"
  "lr_lsid_local (padding_record pbs r l p k) = ucast (l - p)"
  "lr_io_size (padding_record pbs r l p k) = ucast (ucast (capacity_lb pbs k) :: u16)"
  by (simp_all add: padding_record_def)

lemma padding_record_flags:
  assumes "lr_flags r = 0"
  shows "test_bit_u32 LOG_RECORD_EXIST (lr_flags (padding_record pbs r l p k))"
    "rec_padding (padding_record pbs r l p k)" "\<not> rec_discard (padding_record pbs r l p k)"
  using assms by (simp_all add: padding_record_def rec_padding_def rec_discard_def log_record_flag_defs)

lemma unat_MAX_LSID: "unat MAX_LSID = 18446744073709551614"
  by (simp add: MAX_LSID_def)

lemma unat_WALB_MAX_NORMAL_IO_SECTORS: "unat WALB_MAX_NORMAL_IO_SECTORS = 65535"
  by (simp add: WALB_MAX_NORMAL_IO_SECTORS_def)

lemma io_record_ok:
  assumes pbs: "is_valid_pbs pbs" and lb: "0 < unat (bio_sectors b)"
    and normal: "bi_op b \<noteq> REQ_OP_DISCARD \<Longrightarrow> unat (bio_sectors b) \<le> 65535"
    and p: "unat p + 65536 \<le> unat MAX_LSID" and t: "Suc (unat t) < 65536"
    and ring: "bi_op b \<noteq> REQ_OP_DISCARD \<Longrightarrow>
      (unat p + Suc (unat t)) mod rbs + pb_of pbs (unat (bio_sectors b)) \<le> rbs"
  shows "rec_ok pbs rbs (unat p) (Suc (unat t)) (io_record r (p + 1 + ucast (t :: u16)) p b)"
    and "rec_pb pbs (io_record r (p + 1 + ucast t) p b) =
      (if bi_op b = REQ_OP_DISCARD then 0 else pb_of pbs (unat (bio_sectors b)))"
proof -
  let ?r = "io_record r (p + 1 + ucast t) p b"
  show pb: "rec_pb pbs ?r = (if bi_op b = REQ_OP_DISCARD then 0 else pb_of pbs (unat (bio_sectors b)))"
    using unat_capacity_pb_u32 [OF pbs]
    by (simp add: rec_pb_def io_record_flags)
  have l: "unat (lr_lsid_local ?r) = Suc (unat t)"
    using unat_lsid_local [OF t] by simp
  have i: "unat (lr_lsid ?r) = unat p + Suc (unat t)"
    using unat_bio_lsid [OF p] by simp
  have "is_valid_log_record ?r"
    using io_record_flags [of r "p + 1 + ucast t" p b] l i lb normal p t
    unfolding is_valid_log_record_def rec_discard_def [symmetric]
    by (auto simp: word_less_nat_alt word_le_nat_alt unat_WALB_MAX_NORMAL_IO_SECTORS unat_MAX_LSID
        simp del: io_record_fields(2,3))
  then show "rec_ok pbs rbs (unat p) (Suc (unat t)) ?r"
    using l i pb pb_of_pos [OF pbs lb] ring by (simp add: rec_ok_def io_record_flags)
qed

lemma padding_record_ok:
  assumes pbs: "is_valid_pbs pbs" and k: "0 < unat k" "unat k * unat (n_lb_in_pb pbs) \<le> 65535"
    and p: "unat p + 65536 \<le> unat MAX_LSID" and t: "Suc (unat t) < 65536" and r: "lr_flags r = 0"
    and ring: "(unat p + Suc (unat t)) mod rbs + unat k = rbs"
  shows "rec_ok pbs rbs (unat p) (Suc (unat t)) (padding_record pbs r (p + 1 + ucast (t :: u16)) p k)"
    and "rec_pb pbs (padding_record pbs r (p + 1 + ucast t) p k) = unat k"
proof -
  let ?r = "padding_record pbs r (p + 1 + ucast t) p k"
  have c: "unat (capacity_lb pbs k) = unat k * unat (n_lb_in_pb pbs)"
    using k(2) by (simp add: capacity_lb_def unat_addr_lb)
  then have sz: "unat (lr_io_size ?r) = unat k * unat (n_lb_in_pb pbs)"
    unfolding padding_record_fields unat_ucast_u16_u32 using k(2) by (simp add: unat_ucast_u16)
  then show pb: "rec_pb pbs ?r = unat k"
    using unat_capacity_pb_u32 [OF pbs] pb_of_mult [OF pbs]
    by (simp add: rec_pb_def padding_record_flags [OF r])
  have l: "unat (lr_lsid_local ?r) = Suc (unat t)"
    using unat_lsid_local [OF t] by simp
  have i: "unat (lr_lsid ?r) = unat p + Suc (unat t)"
    using unat_bio_lsid [OF p] by simp
  have "is_valid_log_record ?r"
    using padding_record_flags [OF r, of pbs "p + 1 + ucast t" p k] l i p t sz k
    by (simp add: is_valid_log_record_def rec_discard_def rec_padding_def word_less_nat_alt
        word_le_nat_alt unat_WALB_MAX_NORMAL_IO_SECTORS unat_MAX_LSID
        del: padding_record_fields)
  then show "rec_ok pbs rbs (unat p) (Suc (unat t)) ?r"
    using l i pb k ring padding_record_flags [OF r] by (simp add: rec_ok_def)
qed

section \<open>The operation keeps the layout\<close>

text \<open>What the caller guarantees of a bio it adds to a logpack.\<close>

definition bio_loggable :: "u32 \<Rightarrow> u64 \<Rightarrow> walb_logpack_header \<Rightarrow> bio \<Rightarrow> bool" where
  "bio_loggable pbs rbs h b \<longleftrightarrow>
     (if bi_op b = REQ_OP_DISCARD then unat (lh_total_io_size h) < 65535
      else unat (bio_sectors b) \<le> 65535 \<and> pb_of pbs (unat (bio_sectors b)) \<le> unat rbs)"

lemma add_io_record_inv:
  assumes inv: "logpack_inv pbs rbs h" and pbs: "is_valid_pbs pbs" and lb: "bio_sectors b \<noteq> 0"
    and n: "unat (lh_n_records h) < length (lh_record h)" "unat (lh_n_records h) + 1 < 65536"
    and b: "bio_loggable pbs rbs h b"
    and ring: "bi_op b \<noteq> REQ_OP_DISCARD \<Longrightarrow>
      (unat (lh_logpack_lsid h) + Suc (unat (lh_total_io_size h))) mod unat rbs
        + pb_of pbs (unat (bio_sectors b)) \<le> unat rbs"
    and bio_pb: "unat bio_pb = pb_of pbs (unat (bio_sectors b))"
    and lsid: "bio_lsid = lh_logpack_lsid h + 1 + ucast (lh_total_io_size h)"
  shows "logpack_inv pbs rbs (snd (add_io_record h b bio_pb bio_lsid))"
proof (cases "bi_op b \<noteq> REQ_OP_DISCARD \<and>
    ucast (lh_total_io_size h) + bio_pb > MAX_TOTAL_IO_SIZE_IN_LOGPACK_HEADER")
  case True
  then show ?thesis using inv by (simp add: add_io_record_def Let_def)
next
  case False
  let ?t = "lh_total_io_size h" and ?p = "lh_logpack_lsid h"
  have lb': "0 < unat (bio_sectors b)" using lb by (simp add: unat_gt_0)
  have t: "Suc (unat ?t) < 65536 \<and> (bi_op b \<noteq> REQ_OP_DISCARD \<longrightarrow> unat ?t + unat bio_pb < 65536)"
  proof (cases "bi_op b = REQ_OP_DISCARD")
    case True
    then show ?thesis using b by (simp add: bio_loggable_def)
  next
    case normal: False
    have "unat bio_pb \<le> 65535"
      using b normal bio_pb pb_of_le [OF pbs, of "unat (bio_sectors b)"]
      by (simp add: bio_loggable_def)
    then have "unat (ucast ?t + bio_pb) = unat ?t + unat bio_pb"
      using unat_u16_lt [of ?t] by (subst unat_add_nowrap) simp_all
    moreover have "unat (ucast ?t + bio_pb) \<le> 65535"
      using False normal by (simp add: word_less_nat_alt MAX_TOTAL_IO_SIZE_IN_LOGPACK_HEADER_def not_less)
    ultimately show ?thesis using pb_of_pos [OF pbs lb'] bio_pb normal by simp
  qed
  have p: "unat ?p + 65536 \<le> unat MAX_LSID" using inv by (simp add: logpack_inv_def)
  have normal: "bi_op b \<noteq> REQ_OP_DISCARD \<Longrightarrow> unat (bio_sectors b) \<le> 65535"
    using b by (simp add: bio_loggable_def)
  note rec = io_record_ok [OF pbs lb' normal p conjunct1 [OF t] ring]
  have total: "bi_op b \<noteq> REQ_OP_DISCARD \<longrightarrow> unat (?t + ucast bio_pb) = unat ?t + unat bio_pb"
    using t unat_ucast_u16 [of bio_pb] by (auto simp: unat_add_nowrap)
  show ?thesis
    unfolding add_io_record_def Let_def if_not_P [OF False] snd_conv
  proof (rule logpack_inv_push [OF inv n])
    show "rec_ok pbs (unat rbs) (unat ?p) (1 + unat ?t)
        (io_record (lh_record h ! unat (lh_n_records h)) bio_lsid ?p b)"
      using rec(1) lsid by simp
  qed (use rec(2) total bio_pb lsid in \<open>simp_all add: io_record_flags\<close>)
qed

text \<open>Where the next record would start, and the room before the end of the ring.\<close>

lemma padding_step_inv:
  assumes inv: "logpack_inv pbs rbs h" and pbs: "is_valid_pbs pbs" and rbs: "0 < rbs"
    and n: "unat (lh_n_records h) < length (lh_record h)" "unat (lh_n_records h) + 1 < 65536"
    and lsid: "bio_lsid = lh_logpack_lsid h + 1 + ucast (lh_total_io_size h)"
    and k: "k = rbs - bio_lsid mod rbs" "unat k < pb_of pbs (unat lb)" "unat lb \<le> 65535"
    and fits: "\<not> ucast (lh_total_io_size h) + k > ucast MAX_TOTAL_IO_SIZE_IN_LOGPACK_HEADER"
    and h1: "h1 = h\<lparr>lh_record := (lh_record h)[unat (lh_n_records h) :=
          padding_record pbs (lh_record h ! unat (lh_n_records h)) bio_lsid (lh_logpack_lsid h) k],
        lh_n_padding := lh_n_padding h + 1, lh_n_records := lh_n_records h + 1,
        lh_total_io_size := lh_total_io_size h + ucast k\<rparr>"
  shows "logpack_inv pbs rbs h1"
    "bio_lsid + k = lh_logpack_lsid h1 + 1 + ucast (lh_total_io_size h1)"
    "(unat (lh_logpack_lsid h1) + Suc (unat (lh_total_io_size h1))) mod unat rbs = 0"
proof -
  let ?t = "lh_total_io_size h" and ?p = "lh_logpack_lsid h"
  let ?r = "lh_record h ! unat (lh_n_records h)"
  have p: "unat ?p + 65536 \<le> unat MAX_LSID" using inv by (simp add: logpack_inv_def)
  have l: "unat bio_lsid = unat ?p + Suc (unat ?t)" using unat_bio_lsid [OF p] lsid by simp
  note pad = unat_padding_pb [OF rbs, of bio_lsid, folded k(1)]
  have kn: "unat k * unat (n_lb_in_pb pbs) \<le> 65535" using pb_of_gt [OF pbs k(2)] k(3) by simp
  have k16: "unat k < 65536"
    using k(2,3) pb_of_le [OF pbs, of "unat lb"] by linarith
  have "unat (ucast ?t + k) = unat ?t + unat k"
    using k16 unat_u16_lt [of ?t] by (subst unat_add_nowrap) simp_all
  then have sum16: "unat ?t + unat k \<le> 65535"
    using fits by (simp add: word_less_nat_alt MAX_TOTAL_IO_SIZE_IN_LOGPACK_HEADER_def not_less)
  have t: "Suc (unat ?t) < 65536" using sum16 pad by linarith
  have r: "lr_flags ?r = 0"
    using inv n(1) unfolding logpack_inv_def by (metis Cons_nth_drop_Suc list.set_intros(1))
  have ring: "(unat ?p + Suc (unat ?t)) mod unat rbs + unat k = unat rbs"
    using pad l by simp
  have k0: "0 < unat k" using pad by simp
  note rec = padding_record_ok [OF pbs k0 kn p t r ring]
  have np: "unat (lh_n_padding h) + 1 < 65536"
  proof -
    have "unat (lh_n_padding h) \<le> length (used_records h)"
      using inv by (simp add: logpack_inv_def)
    then show ?thesis using n by (simp add: used_records_def)
  qed
  show "logpack_inv pbs rbs h1"
    unfolding h1
  proof (rule logpack_inv_push [OF inv n])
    show "rec_ok pbs (unat rbs) (unat ?p) (1 + unat ?t) (padding_record pbs ?r bio_lsid ?p k)"
      using rec(1) lsid by simp
  qed (use rec(2) sum16 k16 lsid np r in
        \<open>simp_all add: unat_add_nowrap unat_ucast_u16 padding_record_flags\<close>)
  have t1: "unat (lh_total_io_size h1) = unat ?t + unat k"
    using sum16 k16 h1 by (simp add: unat_add_nowrap unat_ucast_u16)
  have "ucast (lh_total_io_size h1) = (ucast ?t + k :: u64)"
    using t1 \<open>unat (ucast ?t + k) = _\<close> by (simp add: word_unat_eq_iff)
  then show "bio_lsid + k = lh_logpack_lsid h1 + 1 + ucast (lh_total_io_size h1)"
    using lsid h1 by (simp add: algebra_simps)
  have "(unat ?p + Suc (unat ?t) + unat k) mod unat rbs = 0"
    using ring by (metis mod_add_left_eq mod_self)
  then show "(unat (lh_logpack_lsid h1) + Suc (unat (lh_total_io_size h1))) mod unat rbs = 0"
    using t1 h1 by (simp add: ac_simps)
qed

lemma max_n_log_record_bound:
  assumes "unat pbs \<le> 2 ^ 20" "24 \<le> unat pbs"
  shows "unat (max_n_log_record_in_sector pbs) < 65535"
proof -
  have "unat (pbs - 24) = unat pbs - 24"
    using assms(2) by (subst unat_sub_nowrap) (simp_all add: word_le_nat_alt)
  then show ?thesis using assms(1) by (simp add: max_n_log_record_in_sector_def unat_div)
qed

lemma n_records_room:
  assumes "logpack_inv pbs rbs h" "unat pbs \<le> 2 ^ 20" "24 \<le> unat pbs"
    and "ucast (lh_n_records h) \<noteq> max_n_log_record_in_sector pbs"
  shows "unat (lh_n_records h) < length (lh_record h)" "unat (lh_n_records h) + 1 < 65536"
proof -
  have "unat (lh_n_records h) \<noteq> unat (max_n_log_record_in_sector pbs)"
    using assms(4) by (metis unat_ucast_u16_u32 word_unat_eq_iff)
  then show lt: "unat (lh_n_records h) < length (lh_record h)"
    using assms(1) by (simp add: logpack_inv_def)
  show "unat (lh_n_records h) + 1 < 65536"
    using lt max_n_log_record_bound [OF assms(2,3)] assms(1) by (simp add: logpack_inv_def)
qed

text \<open>The position of the next record and the blocks left before the end of the ring.\<close>

definition next_lsid :: "walb_logpack_header \<Rightarrow> u64" where
  "next_lsid h = lh_logpack_lsid h + 1 + ucast (lh_total_io_size h)"

definition ring_room :: "u64 \<Rightarrow> walb_logpack_header \<Rightarrow> u64" where
  "ring_room rbs h = rbs - next_lsid h mod rbs"

definition bio_pbs :: "u32 \<Rightarrow> bio \<Rightarrow> u32" where
  "bio_pbs pbs b = ucast (capacity_pb pbs (ucast (bio_sectors b)))"

text \<open>The header after a padding record has been added.\<close>

definition padded :: "u32 \<Rightarrow> u64 \<Rightarrow> walb_logpack_header \<Rightarrow> walb_logpack_header" where
  "padded pbs rbs h = h\<lparr>lh_record := (lh_record h)[unat (lh_n_records h) :=
       padding_record pbs (lh_record h ! unat (lh_n_records h)) (next_lsid h) (lh_logpack_lsid h)
         (ring_room rbs h)],
     lh_n_padding := lh_n_padding h + 1, lh_n_records := lh_n_records h + 1,
     lh_total_io_size := lh_total_io_size h + ucast (ring_room rbs h)\<rparr>"

text \<open>The paths of the function.\<close>

lemma add_bio_paths:
  "walb_logpack_header_add_bio h b pbs rbs =
     (if ucast (lh_n_records h) = max_n_log_record_in_sector pbs then (False, h)
      else if bio_sectors b = 0 then (True, h)
      else if bi_op b \<noteq> REQ_OP_DISCARD \<and> ring_room rbs h < ucast (bio_pbs pbs b) then
        (if ucast (lh_total_io_size h) + ring_room rbs h > ucast MAX_TOTAL_IO_SIZE_IN_LOGPACK_HEADER
         then (False, h)
         else if ucast (lh_n_records h + 1) = max_n_log_record_in_sector pbs then (False, padded pbs rbs h)
         else add_io_record (padded pbs rbs h) b (bio_pbs pbs b) (next_lsid h + ring_room rbs h))
      else add_io_record h b (bio_pbs pbs b) (next_lsid h))"
  by (simp add: walb_logpack_header_add_bio_def Let_def next_lsid_def ring_room_def bio_pbs_def
      padded_def)

lemma unat_bio_pbs:
  assumes "is_valid_pbs pbs"
  shows "unat (bio_pbs pbs b) = pb_of pbs (unat (bio_sectors b))"
  using unat_capacity_pb_u32 [OF assms, of "bio_sectors b"] pb_of_le [OF assms, of "unat (bio_sectors b)"]
    unat_u32_lt [of "bio_sectors b"]
  by (simp add: bio_pbs_def unat_ucast_u32)

lemma padded_inv:
  assumes "logpack_inv pbs rbs h" "is_valid_pbs pbs" "unat pbs \<le> 2 ^ 20" "0 < rbs"
    "ucast (lh_n_records h) \<noteq> max_n_log_record_in_sector pbs"
    "bi_op b \<noteq> REQ_OP_DISCARD" "bio_loggable pbs rbs h b" "ring_room rbs h < ucast (bio_pbs pbs b)"
    "\<not> ucast (lh_total_io_size h) + ring_room rbs h > ucast MAX_TOTAL_IO_SIZE_IN_LOGPACK_HEADER"
  shows "logpack_inv pbs rbs (padded pbs rbs h)"
    "next_lsid h + ring_room rbs h = next_lsid (padded pbs rbs h)"
    "(unat (lh_logpack_lsid (padded pbs rbs h)) + Suc (unat (lh_total_io_size (padded pbs rbs h))))
       mod unat rbs = 0"
proof -
  have k: "unat (ring_room rbs h) < pb_of pbs (unat (bio_sectors b))"
    using assms(8) unat_bio_pbs [OF assms(2)] by (simp add: word_less_nat_alt)
  have lb: "unat (bio_sectors b) \<le> 65535" using assms(6,7) by (simp add: bio_loggable_def)
  have "24 \<le> unat pbs" using assms(2) by (simp add: is_valid_pbs_unat)
  note step = padding_step_inv [OF assms(1,2,4) n_records_room [OF assms(1,3) this assms(5)]
      next_lsid_def ring_room_def k lb assms(9) padded_def]
  show "logpack_inv pbs rbs (padded pbs rbs h)"
    "next_lsid h + ring_room rbs h = next_lsid (padded pbs rbs h)"
    "(unat (lh_logpack_lsid (padded pbs rbs h)) + Suc (unat (lh_total_io_size (padded pbs rbs h))))
       mod unat rbs = 0"
    using step by (simp_all add: next_lsid_def)
qed

lemma add_bio_inv:
  assumes inv: "logpack_inv pbs rbs h" and pbs: "is_valid_pbs pbs" "unat pbs \<le> 2 ^ 20"
    and rbs: "0 < rbs" and b: "bio_loggable pbs rbs h b"
  shows "logpack_inv pbs rbs (snd (walb_logpack_header_add_bio h b pbs rbs))"
proof -
  let ?max = "max_n_log_record_in_sector pbs"
  have pbs24: "24 \<le> unat pbs" using pbs(1) by (simp add: is_valid_pbs_unat)
  note bio_pb = unat_bio_pbs [OF pbs(1), of b]
  have plain: "logpack_inv pbs rbs (snd (add_io_record h b (bio_pbs pbs b) (next_lsid h)))"
    if n: "ucast (lh_n_records h) \<noteq> ?max" and "bio_sectors b \<noteq> 0"
      and room: "bi_op b \<noteq> REQ_OP_DISCARD \<longrightarrow> \<not> ring_room rbs h < ucast (bio_pbs pbs b)"
  proof (rule add_io_record_inv [OF inv pbs(1) \<open>bio_sectors b \<noteq> 0\<close>
        n_records_room [OF inv pbs(2) pbs24 n] b _ bio_pb next_lsid_def])
    assume "bi_op b \<noteq> REQ_OP_DISCARD"
    then have "unat (bio_pbs pbs b) \<le> unat (ring_room rbs h)" using room by (simp add: word_less_nat_alt)
    moreover have "unat (next_lsid h) = unat (lh_logpack_lsid h) + Suc (unat (lh_total_io_size h))"
      using inv unat_bio_lsid by (simp add: logpack_inv_def next_lsid_def)
    ultimately show "(unat (lh_logpack_lsid h) + Suc (unat (lh_total_io_size h))) mod unat rbs +
        pb_of pbs (unat (bio_sectors b)) \<le> unat rbs"
      using unat_padding_pb [OF rbs, of "next_lsid h"] bio_pb by (simp add: ring_room_def)
  qed
  have pad: "logpack_inv pbs rbs (padded pbs rbs h) \<and> (ucast (lh_n_records h + 1) \<noteq> ?max \<longrightarrow>
      logpack_inv pbs rbs (snd (add_io_record (padded pbs rbs h) b (bio_pbs pbs b)
        (next_lsid h + ring_room rbs h))))"
    if c: "ucast (lh_n_records h) \<noteq> ?max" "bi_op b \<noteq> REQ_OP_DISCARD"
      "ring_room rbs h < ucast (bio_pbs pbs b)"
      "\<not> ucast (lh_total_io_size h) + ring_room rbs h > ucast MAX_TOTAL_IO_SIZE_IN_LOGPACK_HEADER"
      and nz: "bio_sectors b \<noteq> 0"
  proof -
    note step = padded_inv [OF inv pbs rbs c(1,2) b c(3,4)]
    have lb: "unat (bio_sectors b) \<le> 65535" "pb_of pbs (unat (bio_sectors b)) \<le> unat rbs"
      using b c(2) by (simp_all add: bio_loggable_def)
    have "logpack_inv pbs rbs (snd (add_io_record (padded pbs rbs h) b (bio_pbs pbs b)
        (next_lsid h + ring_room rbs h)))" if "ucast (lh_n_records (padded pbs rbs h)) \<noteq> ?max"
      using step(3) lb c(2)
      by (intro add_io_record_inv [OF step(1) pbs(1) nz n_records_room [OF step(1) pbs(2) pbs24 that]
            _ _ bio_pb step(2) [unfolded next_lsid_def [of "padded pbs rbs h"]]])
         (simp_all add: bio_loggable_def)
    then show ?thesis using step(1) by (simp add: padded_def)
  qed
  show ?thesis using inv plain pad by (simp add: add_bio_paths)
qed


text \<open>A fresh header of a 512-byte block, and bios for the witnesses.\<close>

lemma demo_header_inv: "logpack_inv 512 rbs demo_header"
  by (simp add: logpack_inv_def demo_header_def used_records_def max_n_log_record_in_sector_def
      MAX_LSID_def zero_log_record_def)

lemma demo_bio_sectors: "unat len < 2 ^ 23 \<Longrightarrow> unat (bio_sectors (demo_bio pos len)) = unat len"
  by (simp add: demo_bio_def unat_bio_sectors unat_push_bit_9)

lemma pb_of_512: "pb_of 512 lb = lb"
  by (simp add: pb_of_def unat_n_lb_in_pb)


section \<open>A well-formed logpack is a valid one\<close>

lemma recs_ok_no_padding:
  assumes "recs_ok pbs rbs p l rs" "(p + l) mod rbs + recs_pb pbs rs < rbs"
  shows "filter rec_padding rs = []"
  using assms
proof (induction rs arbitrary: l)
  case (Cons r rs)
  have lt: "(p + l) mod rbs + rec_pb pbs r < rbs" using Cons.prems(2) by simp
  then have "(p + (l + rec_pb pbs r)) mod rbs = (p + l) mod rbs + rec_pb pbs r"
    by (metis add.assoc mod_add_left_eq mod_less)
  then have "filter rec_padding rs = []"
    using Cons.prems by (intro Cons.IH [of "l + rec_pb pbs r"]) simp_all
  then show ?case using Cons.prems lt by (auto simp: rec_ok_def)
qed simp

lemma recs_ok_one_padding:
  assumes "recs_ok pbs rbs p l rs" "recs_pb pbs rs < rbs"
  shows "length (filter rec_padding rs) \<le> 1"
  using assms
proof (induction rs arbitrary: l)
  case (Cons r rs)
  show ?case
  proof (cases "rec_padding r")
    case True
    then have "(p + l) mod rbs + rec_pb pbs r = rbs" using Cons.prems(1) by (simp add: rec_ok_def)
    then have "(p + (l + rec_pb pbs r)) mod rbs = 0"
      by (metis add.assoc mod_add_left_eq mod_self)
    then have "filter rec_padding rs = []"
      using Cons.prems by (intro recs_ok_no_padding) auto
    then show ?thesis using True by simp
  next
    case False
    then show ?thesis using Cons by auto
  qed
qed simp

lemma valid_records_iff:
  "valid_records h n rs \<longleftrightarrow> n \<le> length rs \<and>
     (\<forall>r \<in> set (take n rs). is_valid_log_record r \<and> lr_lsid r - ucast (lr_lsid_local r) = lh_logpack_lsid h)"
  by (induction h n rs rule: valid_records.induct) auto

lemma recs_ok_valid:
  assumes "recs_ok pbs rbs (unat p) l rs" "r \<in> set rs"
  shows "is_valid_log_record r \<and> lr_lsid r - ucast (lr_lsid_local r) = p"
  using assms
proof (induction rs arbitrary: l)
  case (Cons a rs)
  have "lr_lsid a - ucast (lr_lsid_local a) = p"
  proof -
    have u: "unat (lr_lsid a) = unat p + unat (ucast (lr_lsid_local a) :: u64)"
      using Cons.prems(1) by (simp add: rec_ok_def)
    then have "unat (p + ucast (lr_lsid_local a)) = unat (lr_lsid a)"
      using unat_u64_lt [of "lr_lsid a"] by (subst unat_add_nowrap) simp_all
    then have "lr_lsid a = p + ucast (lr_lsid_local a)" by (simp add: word_unat_eq_iff)
    then show ?thesis by simp
  qed
  then show ?case using Cons by (auto simp: rec_ok_def)
qed simp

lemma inv_valid_records:
  assumes "logpack_inv pbs rbs h" "65536 \<le> unat rbs"
  shows "is_valid_logpack_header_and_records h"
proof -
  have "recs_pb pbs (used_records h) < unat rbs"
    using assms unat_u16_lt [of "lh_total_io_size h"] by (simp add: logpack_inv_def)
  then have "unat (lh_n_padding h) \<le> 1"
    using assms(1) recs_ok_one_padding by (auto simp: logpack_inv_def)
  moreover have "unat (lh_n_padding h) \<le> unat (lh_n_records h)"
    using assms(1) length_filter_le [of rec_padding "used_records h"]
    by (simp add: logpack_inv_def used_records_def)
  moreover have "lh_n_records h = 0 \<longrightarrow> lh_total_io_size h = 0 \<and> lh_n_padding h = 0"
    using assms(1) by (auto simp: logpack_inv_def used_records_def word_unat_eq_iff)
  moreover have "lh_logpack_lsid h < lh_logpack_lsid h + 1 + ucast (lh_total_io_size h)"
    using assms(1) unat_bio_lsid by (simp add: logpack_inv_def word_less_nat_alt)
  ultimately have "is_valid_logpack_header h"
    using assms(1) by (simp add: is_valid_logpack_header_def logpack_inv_def word_le_nat_alt)
  moreover have "valid_records h (unat (lh_n_records h)) (lh_record h)"
    using assms(1) recs_ok_valid
    by (fastforce simp: valid_records_iff logpack_inv_def used_records_def)
  ultimately show ?thesis by (simp add: is_valid_logpack_header_and_records_def)
qed

text \<open>
  A logpack built by \<^verbatim>\<open>walb_logpack_header_add_bio\<close> passes the validity check of the log
  readers and of redo.  The ring buffer must have at least 65536 blocks: a smaller one may be
  crossed twice by a single logpack, which then has two padding records and is refused.
\<close>

theorem logpack_inv_valid:
  assumes "logpack_inv pbs rbs h" "65536 \<le> unat rbs"
  shows "is_valid_logpack_header_and_records h"
  by (rule inv_valid_records [OF assms])

theorem logpack_inv_valid_witness:
  "is_valid_logpack_header_and_records demo_header"
  by (rule logpack_inv_valid [OF demo_header_inv, of 100000]) simp

section \<open>What an added bio leaves in the header\<close>

lemma add_io_record_records:
  assumes "unat (lh_n_records h) < length (lh_record h)" "unat (lh_n_records h) + 1 < 65536"
    and "fst (add_io_record h b bio_pb lsid)"
  shows "\<exists>r. used_records (snd (add_io_record h b bio_pb lsid)) = used_records h @ [r] \<and>
           lr_offset r = bio_begin_sector b \<and> lr_io_size r = bio_sectors b \<and> lr_lsid r = lsid \<and>
           lr_lsid_local r = ucast (lsid - lh_logpack_lsid h) \<and>
           rec_discard r = (bi_op b = REQ_OP_DISCARD) \<and> \<not> rec_padding r"
proof -
  let ?r = "io_record (lh_record h ! unat (lh_n_records h)) lsid (lh_logpack_lsid h) b"
  have "used_records (snd (add_io_record h b bio_pb lsid)) = used_records h @ [?r]"
    using assms(3)
    by (intro used_records_push(1) [OF assms(1,2)])
       (auto simp: add_io_record_def Let_def split: if_splits)
  then show ?thesis by (intro exI [of _ ?r]) (simp add: io_record_flags)
qed

lemma last_used_record:
  assumes "used_records h = xs @ [r]" "unat (lh_n_records h) \<le> length (lh_record h)"
  shows "lh_record h ! (unat (lh_n_records h) - 1) = r" "0 < unat (lh_n_records h)"
proof -
  have len: "unat (lh_n_records h) = Suc (length xs)"
  proof -
    have "length (used_records h) = Suc (length xs)" using assms(1) by simp
    moreover have "length (used_records h) = unat (lh_n_records h)"
      using assms(2) by (simp add: used_records_def)
    ultimately show ?thesis by simp
  qed
  then show "0 < unat (lh_n_records h)" by simp
  have "lh_record h ! length xs = used_records h ! length xs" using len by (simp add: used_records_def)
  then show "lh_record h ! (unat (lh_n_records h) - 1) = r" using len assms(1) by simp
qed

lemma add_bio_records:
  assumes inv: "logpack_inv pbs rbs h" and pbs: "is_valid_pbs pbs" "unat pbs \<le> 2 ^ 20"
    and rbs: "0 < rbs" and b: "bio_loggable pbs rbs h b" "bio_sectors b \<noteq> 0"
    and ok: "fst (walb_logpack_header_add_bio h b pbs rbs)"
  shows "\<exists>pads r. used_records (snd (walb_logpack_header_add_bio h b pbs rbs)) =
             used_records h @ pads @ [r] \<and> length pads \<le> 1 \<and> (\<forall>q \<in> set pads. rec_padding q) \<and>
           lr_offset r = bio_begin_sector b \<and> lr_io_size r = bio_sectors b \<and>
           rec_discard r = (bi_op b = REQ_OP_DISCARD) \<and> \<not> rec_padding r"
proof -
  let ?max = "max_n_log_record_in_sector pbs"
  have pbs24: "24 \<le> unat pbs" using pbs(1) by (simp add: is_valid_pbs_unat)
  have n: "ucast (lh_n_records h) \<noteq> ?max" using ok by (auto simp: add_bio_paths)
  note room = n_records_room [OF inv pbs(2) pbs24 n]
  show ?thesis
  proof (cases "bi_op b \<noteq> REQ_OP_DISCARD \<and> ring_room rbs h < ucast (bio_pbs pbs b)")
    case False
    then have eq: "walb_logpack_header_add_bio h b pbs rbs = add_io_record h b (bio_pbs pbs b) (next_lsid h)"
      using n b(2) by (auto simp: add_bio_paths)
    show ?thesis
      using add_io_record_records [OF room, of b "bio_pbs pbs b" "next_lsid h"] ok unfolding eq
      by (intro exI [of _ "[]"]) auto
  next
    case True
    let ?pad = "padding_record pbs (lh_record h ! unat (lh_n_records h)) (next_lsid h)
      (lh_logpack_lsid h) (ring_room rbs h)"
    have c: "\<not> ucast (lh_total_io_size h) + ring_room rbs h > ucast MAX_TOTAL_IO_SIZE_IN_LOGPACK_HEADER"
        "ucast (lh_n_records (padded pbs rbs h)) \<noteq> ?max"
      using ok n b(2) True by (auto simp: add_bio_paths padded_def split: if_splits)
    have eq: "walb_logpack_header_add_bio h b pbs rbs =
        add_io_record (padded pbs rbs h) b (bio_pbs pbs b) (next_lsid h + ring_room rbs h)"
      using n b(2) True c by (auto simp: add_bio_paths padded_def)
    have inv1: "logpack_inv pbs rbs (padded pbs rbs h)"
      using padded_inv(1) [OF inv pbs rbs n _ b(1) _ c(1)] True by simp
    have pads: "used_records (padded pbs rbs h) = used_records h @ [?pad]"
      by (rule used_records_push(1) [OF room]) (simp_all add: padded_def)
    have "lr_flags (lh_record h ! unat (lh_n_records h)) = 0"
      using inv room(1) unfolding logpack_inv_def by (metis Cons_nth_drop_Suc list.set_intros(1))
    then have "rec_padding ?pad" by (rule padding_record_flags(2))
    then show ?thesis
      using add_io_record_records [OF n_records_room [OF inv1 pbs(2) pbs24 c(2)],
          of b "bio_pbs pbs b" "next_lsid h + ring_room rbs h"] ok pads unfolding eq
      by (intro exI [of _ "[?pad]"]) auto
  qed
qed

text \<open>
  A bio that was added is the last record of the logpack: its position, length and discard
  flag are those of the bio, it follows the records that were there, and at most one padding
  record lies in between.
\<close>

theorem add_bio_appends_record:
  assumes inv: "logpack_inv pbs rbs h" and pbs: "is_valid_pbs pbs" "unat pbs \<le> 2 ^ 20"
    and rbs: "0 < rbs" and b: "bio_loggable pbs rbs h b" "bio_sectors b \<noteq> 0"
    and ok: "fst (walb_logpack_header_add_bio h b pbs rbs)"
  shows "\<exists>pads r. used_records (snd (walb_logpack_header_add_bio h b pbs rbs)) =
             used_records h @ pads @ [r] \<and> length pads \<le> 1 \<and> (\<forall>q \<in> set pads. rec_padding q) \<and>
           lr_offset r = bio_begin_sector b \<and> lr_io_size r = bio_sectors b \<and>
           rec_discard r = (bi_op b = REQ_OP_DISCARD) \<and> \<not> rec_padding r"
  using add_bio_records [OF assms] by blast

theorem add_bio_appends_record_witness:
  "\<exists>pads r. used_records (snd (walb_logpack_header_add_bio demo_header (demo_bio 1000 5) 512 110)) =
       used_records demo_header @ pads @ [r] \<and> length pads \<le> 1 \<and> (\<forall>q \<in> set pads. rec_padding q) \<and>
     lr_offset r = bio_begin_sector (demo_bio 1000 5) \<and> lr_io_size r = bio_sectors (demo_bio 1000 5) \<and>
     rec_discard r = (bi_op (demo_bio 1000 5) = REQ_OP_DISCARD) \<and> \<not> rec_padding r"
proof (rule add_bio_appends_record [OF demo_header_inv])
  show "is_valid_pbs 512" by code_simp
  show "bio_loggable 512 110 demo_header (demo_bio 1000 5)"
    by (simp add: bio_loggable_def demo_bio_sectors pb_of_512) (simp add: demo_bio_def)
  show "bio_sectors (demo_bio 1000 5) \<noteq> 0" by code_simp
  show "fst (walb_logpack_header_add_bio demo_header (demo_bio 1000 5) 512 110)" by code_simp
qed simp_all

section \<open>Discards skip the size check\<close>

text \<open>
  A discard is added without the size check.  When the logpack already has 65535 blocks of
  data the 16-bit local sequence id of the discard's record wraps to zero, and the logpack,
  though accepted, fails the validity check that redo and the log readers apply.
\<close>

theorem discard_in_full_logpack_invalid:
  assumes "unat (lh_total_io_size h) = 65535" "bi_op b = REQ_OP_DISCARD" "bio_sectors b \<noteq> 0"
    and "unat (lh_n_records h) < unat (max_n_log_record_in_sector pbs)"
    and "unat (max_n_log_record_in_sector pbs) \<le> length (lh_record h)" "unat (lh_n_records h) + 1 < 65536"
  shows "fst (walb_logpack_header_add_bio h b pbs rbs) \<and>
         \<not> is_valid_logpack_header_and_records (snd (walb_logpack_header_add_bio h b pbs rbs))"
proof -
  have n: "ucast (lh_n_records h) \<noteq> max_n_log_record_in_sector pbs"
    using assms(4) by (metis less_irrefl unat_ucast_u16_u32)
  then have eq: "walb_logpack_header_add_bio h b pbs rbs =
      add_io_record h b (bio_pbs pbs b) (next_lsid h)"
    using assms(2,3) by (simp add: add_bio_paths)
  have ok: "fst (add_io_record h b (bio_pbs pbs b) (next_lsid h))"
    using assms(2) by (simp add: add_io_record_def Let_def)
  let ?h = "snd (add_io_record h b (bio_pbs pbs b) (next_lsid h))"
  obtain r where r: "used_records ?h = used_records h @ [r]"
      "lr_lsid_local r = ucast (next_lsid h - lh_logpack_lsid h)"
    using add_io_record_records [OF _ assms(6) ok] assms(4,5) by auto
  have "lh_total_io_size h = 65535" using assms(1) by (simp add: word_unat_eq_iff)
  then have "lr_lsid_local r = 0" using r(2) by (simp add: next_lsid_def)
  then have "\<not> is_valid_log_record r" by (simp add: is_valid_log_record_def)
  moreover have "r \<in> set (take (unat (lh_n_records ?h)) (lh_record ?h))"
    using r(1) by (simp add: used_records_def [symmetric])
  ultimately show ?thesis
    unfolding eq is_valid_logpack_header_and_records_def valid_records_iff using ok by blast
qed

text \<open>A logpack filled by one IO of 65535 blocks.\<close>

definition full_header :: walb_logpack_header where
  "full_header = snd (walb_logpack_header_add_bio demo_header (demo_bio 0 65535) 512 100000)"

definition demo_discard :: bio where
  "demo_discard = (demo_bio 70000 8)\<lparr>bi_op := REQ_OP_DISCARD\<rparr>"

theorem discard_in_full_logpack_invalid_witness:
  "fst (walb_logpack_header_add_bio full_header demo_discard 512 100000) \<and>
   \<not> is_valid_logpack_header_and_records
       (snd (walb_logpack_header_add_bio full_header demo_discard 512 100000))"
proof (rule discard_in_full_logpack_invalid)
  have "lh_total_io_size full_header = 65535" by code_simp
  then show "unat (lh_total_io_size full_header) = 65535" by simp
  have n: "lh_n_records full_header = 1" by code_simp
  then show "unat (lh_n_records full_header) < unat (max_n_log_record_in_sector 512)"
    by (simp add: max_n_log_record_in_sector_def)
  show "unat (lh_n_records full_header) + 1 < 65536" using n by simp
  show "bi_op demo_discard = REQ_OP_DISCARD" by code_simp
  show "bio_sectors demo_discard \<noteq> 0" by code_simp
  have "length (lh_record full_header) = 15" by code_simp
  then show "unat (max_n_log_record_in_sector 512) \<le> length (lh_record full_header)"
    by (simp add: max_n_log_record_in_sector_def)
qed

end
