(* ===== verification/Walb_Rbtree.thy ===== *)
theory Walb_Rbtree
  imports Walb_Prelude
begin

text \<open>
  Red-black trees: \<^verbatim>\<open>tool/lib/rbtree.c\<close> and \<^verbatim>\<open>tool/include/rbtree.h\<close>, the user-space copy
  of the kernel's rbtree that the tests of the treemap are linked against.  The C code works
  with nodes that point to their parent; a pointer to a node inside a tree is modelled by the
  subtree at that node together with the path back to the root, one frame per ancestor with
  the sibling subtree.  Rotations, recolourings and the two rebalancing loops are written on
  that pair.  A NULL pointer that C would dereference is the result \<^const>\<open>None\<close>; the lemmas
  show that it does not happen on a red-black tree.
\<close>

section \<open>Nodes, paths and rotations\<close>

datatype rb_color = RB_RED | RB_BLACK

datatype 'a rb_tree = RbNull | RbNode rb_color "'a rb_tree" 'a "'a rb_tree"

text \<open>One step up: the node is the left child, or the right child, of its parent.\<close>

datatype 'a rb_frame =
    LeftOf rb_color 'a "'a rb_tree"
  | RightOf rb_color "'a rb_tree" 'a

fun plug1 :: "'a rb_tree \<Rightarrow> 'a rb_frame \<Rightarrow> 'a rb_tree" where
  "plug1 t (LeftOf c x r) = RbNode c t x r"
| "plug1 t (RightOf c l x) = RbNode c l x t"

fun plug :: "'a rb_tree \<Rightarrow> 'a rb_frame list \<Rightarrow> 'a rb_tree" where
  "plug t [] = t"
| "plug t (f # p) = plug (plug1 t f) p"

fun color_of :: "'a rb_tree \<Rightarrow> rb_color" where
  "color_of RbNull = RB_BLACK"
| "color_of (RbNode c l x r) = c"

fun frame_color :: "'a rb_frame \<Rightarrow> rb_color" where
  "frame_color (LeftOf c x r) = c"
| "frame_color (RightOf c l x) = c"

fun rb_set_color :: "rb_color \<Rightarrow> 'a rb_tree \<Rightarrow> 'a rb_tree" where
  "rb_set_color c RbNull = RbNull"
| "rb_set_color c (RbNode _ l x r) = RbNode c l x r"

abbreviation "rb_set_black \<equiv> rb_set_color RB_BLACK"
abbreviation "rb_set_red \<equiv> rb_set_color RB_RED"

text \<open>The child around which C rotates is not NULL; the last equations are never used.\<close>

fun rb_rotate_left :: "'a rb_tree \<Rightarrow> 'a rb_tree" where
  "rb_rotate_left (RbNode c a x (RbNode c' b y d)) = RbNode c' (RbNode c a x b) y d"
| "rb_rotate_left t = t"

fun rb_rotate_right :: "'a rb_tree \<Rightarrow> 'a rb_tree" where
  "rb_rotate_right (RbNode c (RbNode c' a x b) y d) = RbNode c' a x (RbNode c b y d)"
| "rb_rotate_right t = t"

section \<open>Insertion\<close>

text \<open>
  \<^verbatim>\<open>rb_link_node\<close> puts a red leaf at the empty place the path ends in; \<^verbatim>\<open>rb_insert_color\<close>
  then walks up from it.
\<close>

definition rb_link_node :: "'a \<Rightarrow> 'a rb_tree" where
  "rb_link_node x = RbNode RB_RED RbNull x RbNull"

fun rb_insert_color :: "'a rb_tree \<Rightarrow> 'a rb_frame list \<Rightarrow> 'a rb_tree option" where
  "rb_insert_color node [] = Some (rb_set_black node)"
| "rb_insert_color node [f] =
     (if frame_color f = RB_BLACK then Some (rb_set_black (plug1 node f)) else None)"
| "rb_insert_color node (f # g # p) =
     (if frame_color f = RB_BLACK then Some (rb_set_black (plug node (f # g # p)))
      else
        (let parent = plug1 node f in
         case g of
           LeftOf gc gx uncle \<Rightarrow>
             if color_of uncle = RB_RED then
               rb_insert_color (RbNode RB_RED (rb_set_black parent) gx (rb_set_black uncle)) p
             else
               (let parent' = (case f of RightOf _ _ _ \<Rightarrow> rb_rotate_left parent
                                       | LeftOf _ _ _ \<Rightarrow> parent) in
                Some (rb_set_black
                  (plug (rb_rotate_right (RbNode RB_RED (rb_set_black parent') gx uncle)) p)))
         | RightOf gc uncle gx \<Rightarrow>
             if color_of uncle = RB_RED then
               rb_insert_color (RbNode RB_RED (rb_set_black uncle) gx (rb_set_black parent)) p
             else
               (let parent' = (case f of LeftOf _ _ _ \<Rightarrow> rb_rotate_right parent
                                       | RightOf _ _ _ \<Rightarrow> parent) in
                Some (rb_set_black
                  (plug (rb_rotate_left (RbNode RB_RED uncle gx (rb_set_black parent'))) p)))))"

section \<open>Removal\<close>

text \<open>
  The part of an iteration of \<^verbatim>\<open>__rb_erase_color\<close> after a red sibling has been rotated away:
  the node is a left child, its sibling \<^verbatim>\<open>other\<close> is black.  The result is either the node the
  loop goes on with (\<^const>\<open>Inl\<close>) or the finished subtree (\<^const>\<open>Inr\<close>, the \<^verbatim>\<open>break\<close>).
\<close>

fun erase_left_black ::
    "'a rb_tree \<Rightarrow> rb_color \<Rightarrow> 'a \<Rightarrow> 'a rb_tree \<Rightarrow> ('a rb_tree + 'a rb_tree) option" where
  "erase_left_black node pc px RbNull = None"
| "erase_left_black node pc px (RbNode oc ol ox orr) =
     (if color_of ol = RB_BLACK \<and> color_of orr = RB_BLACK then
        Some (Inl (RbNode pc node px (RbNode RB_RED ol ox orr)))
      else
        (let other = (if color_of orr = RB_BLACK
                      then rb_rotate_right (RbNode RB_RED (rb_set_black ol) ox orr)
                      else RbNode oc ol ox orr) in
         case other of
           RbNull \<Rightarrow> None
         | RbNode _ a y b \<Rightarrow>
             Some (Inr (rb_rotate_left (RbNode RB_BLACK node px (RbNode pc a y (rb_set_black b)))))))"

fun erase_right_black ::
    "'a rb_tree \<Rightarrow> rb_color \<Rightarrow> 'a \<Rightarrow> 'a rb_tree \<Rightarrow> ('a rb_tree + 'a rb_tree) option" where
  "erase_right_black node pc px RbNull = None"
| "erase_right_black node pc px (RbNode oc ol ox orr) =
     (if color_of ol = RB_BLACK \<and> color_of orr = RB_BLACK then
        Some (Inl (RbNode pc (RbNode RB_RED ol ox orr) px node))
      else
        (let other = (if color_of ol = RB_BLACK
                      then rb_rotate_left (RbNode RB_RED ol ox (rb_set_black orr))
                      else RbNode oc ol ox orr) in
         case other of
           RbNull \<Rightarrow> None
         | RbNode _ a y b \<Rightarrow>
             Some (Inr (rb_rotate_right (RbNode RB_BLACK (RbNode pc (rb_set_black a) y b) px node)))))"

text \<open>
  One iteration for a left, then for a right child (C tells them apart by comparing with
  \<^verbatim>\<open>parent->rb_left\<close>; for a NULL node the sibling is not NULL, see the invariant): the path above the parent, extended by
  the old sibling when that was red and has been rotated up, and the outcome.
\<close>

definition erase_step_left ::
    "'a rb_tree \<Rightarrow> rb_color \<Rightarrow> 'a \<Rightarrow> 'a rb_tree \<Rightarrow> 'a rb_frame list \<Rightarrow>
     (('a rb_tree + 'a rb_tree) \<times> 'a rb_frame list) option" where
  "erase_step_left node pc px other p =
     (case other of
        RbNode RB_RED ol ox orr \<Rightarrow>
          map_option (\<lambda>o'. (o', LeftOf RB_BLACK ox orr # p)) (erase_left_black node RB_RED px ol)
      | _ \<Rightarrow> map_option (\<lambda>o'. (o', p)) (erase_left_black node pc px other))"

definition erase_step_right ::
    "'a rb_tree \<Rightarrow> rb_color \<Rightarrow> 'a \<Rightarrow> 'a rb_tree \<Rightarrow> 'a rb_frame list \<Rightarrow>
     (('a rb_tree + 'a rb_tree) \<times> 'a rb_frame list) option" where
  "erase_step_right node pc px other p =
     (case other of
        RbNode RB_RED ol ox orr \<Rightarrow>
          map_option (\<lambda>o'. (o', RightOf RB_BLACK ol ox # p)) (erase_right_black node RB_RED px orr)
      | _ \<Rightarrow> map_option (\<lambda>o'. (o', p)) (erase_right_black node pc px other))"

definition erase_step ::
    "'a rb_tree \<Rightarrow> 'a rb_frame \<Rightarrow> 'a rb_frame list \<Rightarrow>
     (('a rb_tree + 'a rb_tree) \<times> 'a rb_frame list) option" where
  "erase_step node f p =
     (case f of
        LeftOf pc px other \<Rightarrow> erase_step_left node pc px other p
      | RightOf pc other px \<Rightarrow> erase_step_right node pc px other p)"

lemma erase_left_black_color:
  "erase_left_black node pc px other = Some (Inl t) \<Longrightarrow> color_of t = pc"
  by (cases other) (auto split: if_splits rb_tree.splits simp: Let_def)

lemma erase_right_black_color:
  "erase_right_black node pc px other = Some (Inl t) \<Longrightarrow> color_of t = pc"
  by (cases other) (auto split: if_splits rb_tree.splits simp: Let_def)

text \<open>A step goes up, or the path grows by the rotated sibling and the node is red.\<close>

lemma erase_step_decreases:
  assumes "erase_step node f p = Some (Inl t, q)"
  shows "2 * length q + (if color_of t = RB_RED then 0 else 1) \<le> 2 * length p + 2"
  using assms
  by (auto simp: erase_step_def erase_step_left_def erase_step_right_def
      split: rb_frame.splits rb_tree.splits rb_color.splits
      dest: erase_left_black_color erase_right_black_color)

function rb_erase_color :: "'a rb_tree \<Rightarrow> 'a rb_frame list \<Rightarrow> 'a rb_tree option" where
  "rb_erase_color node [] = Some (rb_set_black node)"
| "rb_erase_color node (f # p) =
     (if color_of node = RB_RED then Some (plug (rb_set_black node) (f # p))
      else
        (case erase_step node f p of
           None \<Rightarrow> None
         | Some (Inl node', q) \<Rightarrow> rb_erase_color node' q
         | Some (Inr t, q) \<Rightarrow> Some (rb_set_black (plug t q))))"
  by pat_completeness auto
termination
  by (relation "measure (\<lambda>(t, p). 2 * length p + (if color_of t = RB_RED then 0 else 1))")
     (auto dest!: erase_step_decreases split: if_splits)

text \<open>The leftmost node of a subtree: its colour, entry and right child, and the path to it.\<close>

fun descend_left :: "'a rb_tree \<Rightarrow> 'a rb_frame list \<Rightarrow>
    (rb_color \<times> 'a \<times> 'a rb_tree \<times> 'a rb_frame list) option" where
  "descend_left RbNull p = None"
| "descend_left (RbNode c RbNull x r) p = Some (c, x, r, p)"
| "descend_left (RbNode c (RbNode c' l' x' r') x r) p =
     descend_left (RbNode c' l' x' r') (LeftOf c x r # p)"

definition rb_erase :: "'a rb_tree \<Rightarrow> 'a rb_frame list \<Rightarrow> 'a rb_tree option" where
  "rb_erase node p =
     (case node of
        RbNull \<Rightarrow> None
      | RbNode c l x r \<Rightarrow>
          if l = RbNull then
            (if c = RB_BLACK then rb_erase_color r p else Some (plug r p))
          else if r = RbNull then
            (if c = RB_BLACK then rb_erase_color l p else Some (plug l p))
          else
            (case descend_left r [] of
               None \<Rightarrow> None
             | Some (color, y, child, q) \<Rightarrow>
                 (let path = q @ RightOf c l y # p in
                  if color = RB_BLACK then rb_erase_color child path
                  else Some (plug child path))))"

section \<open>Traversal\<close>

fun rb_first :: "'a rb_tree \<Rightarrow> 'a option" where
  "rb_first RbNull = None"
| "rb_first (RbNode c RbNull x r) = Some x"
| "rb_first (RbNode c (RbNode c' l' x' r') x r) = rb_first (RbNode c' l' x' r')"

fun rb_last :: "'a rb_tree \<Rightarrow> 'a option" where
  "rb_last RbNull = None"
| "rb_last (RbNode c l x RbNull) = Some x"
| "rb_last (RbNode c l x (RbNode c' l' x' r')) = rb_last (RbNode c' l' x' r')"

fun climb_next :: "'a rb_frame list \<Rightarrow> 'a option" where
  "climb_next [] = None"
| "climb_next (RightOf c l x # p) = climb_next p"
| "climb_next (LeftOf c x r # p) = Some x"

fun climb_prev :: "'a rb_frame list \<Rightarrow> 'a option" where
  "climb_prev [] = None"
| "climb_prev (LeftOf c x r # p) = climb_prev p"
| "climb_prev (RightOf c l x # p) = Some x"

text \<open>The node and the path to it; a node in a tree is never its own parent.\<close>

fun rb_next :: "'a rb_tree \<Rightarrow> 'a rb_frame list \<Rightarrow> 'a option" where
  "rb_next RbNull p = None"
| "rb_next (RbNode c l x r) p = (if r \<noteq> RbNull then rb_first r else climb_next p)"

fun rb_prev :: "'a rb_tree \<Rightarrow> 'a rb_frame list \<Rightarrow> 'a option" where
  "rb_prev RbNull p = None"
| "rb_prev (RbNode c l x r) p = (if l \<noteq> RbNull then rb_last l else climb_prev p)"

text \<open>\<^verbatim>\<open>rb_replace_node\<close>: the new node takes the place, the children and the colour.\<close>

definition rb_replace_node :: "'a rb_tree \<Rightarrow> 'a rb_frame list \<Rightarrow> 'a \<Rightarrow> 'a rb_tree" where
  "rb_replace_node victim p new =
     (case victim of RbNull \<Rightarrow> plug RbNull p | RbNode c l x r \<Rightarrow> plug (RbNode c l new r) p)"

section \<open>In-order sequences\<close>

fun inorder :: "'a rb_tree \<Rightarrow> 'a list" where
  "inorder RbNull = []"
| "inorder (RbNode c l x r) = inorder l @ x # inorder r"

text \<open>What lies to the left and to the right of the place a path ends in.\<close>

fun path_left :: "'a rb_frame list \<Rightarrow> 'a list" where
  "path_left [] = []"
| "path_left (LeftOf c x r # p) = path_left p"
| "path_left (RightOf c l x # p) = path_left p @ inorder l @ [x]"

fun path_right :: "'a rb_frame list \<Rightarrow> 'a list" where
  "path_right [] = []"
| "path_right (LeftOf c x r # p) = x # inorder r @ path_right p"
| "path_right (RightOf c l x # p) = path_right p"

lemma inorder_plug [simp]: "inorder (plug t p) = path_left p @ inorder t @ path_right p"
proof (induction p arbitrary: t)
  case (Cons f p)
  then show ?case by (cases f) auto
qed simp

lemma plug_append [simp]: "plug t (p @ q) = plug (plug t p) q"
  by (induction p arbitrary: t) auto

lemma inorder_rb_set_color [simp]: "inorder (rb_set_color c t) = inorder t"
  by (cases t) auto

lemma inorder_rotate_left [simp]: "inorder (rb_rotate_left t) = inorder t"
  by (induction t rule: rb_rotate_left.induct) auto

lemma inorder_rotate_right [simp]: "inorder (rb_rotate_right t) = inorder t"
  by (induction t rule: rb_rotate_right.induct) auto

lemma rb_set_color_RbNull [simp]: "rb_set_color c t = RbNull \<longleftrightarrow> t = RbNull"
  by (cases t) auto

lemma rb_insert_color_inorder:
  "rb_insert_color node p = Some t \<Longrightarrow> inorder t = path_left p @ inorder node @ path_right p"
proof (induction node p arbitrary: t rule: rb_insert_color.induct)
  case (2 node f)
  then show ?case by (cases f) (auto split: if_splits)
next
  case (3 node f g p)
  then show ?case
    by (cases f; cases g)
       (auto split: if_splits simp: Let_def simp del: rb_rotate_left.simps rb_rotate_right.simps)
qed auto

lemma erase_left_black_inorder:
  "erase_left_black node pc px other = Some o' \<Longrightarrow>
   inorder (case o' of Inl t \<Rightarrow> t | Inr t \<Rightarrow> t) = inorder node @ px # inorder other"
proof (induction node pc px other rule: erase_left_black.induct)
  case (2 node pc px oc ol ox orr)
  then show ?case by (cases ol; cases orr) (auto split: if_splits)
qed simp

lemma erase_right_black_inorder:
  "erase_right_black node pc px other = Some o' \<Longrightarrow>
   inorder (case o' of Inl t \<Rightarrow> t | Inr t \<Rightarrow> t) = inorder other @ px # inorder node"
proof (induction node pc px other rule: erase_right_black.induct)
  case (2 node pc px oc ol ox orr)
  then show ?case by (cases ol; cases orr) (auto split: if_splits)
qed simp

lemma erase_step_inorder:
  assumes "erase_step node f p = Some (o', q)"
  shows "path_left q @ inorder (case o' of Inl t \<Rightarrow> t | Inr t \<Rightarrow> t) @ path_right q =
         path_left (f # p) @ inorder node @ path_right (f # p)"
  using assms
  by (auto simp: erase_step_def erase_step_left_def erase_step_right_def
      split: rb_frame.splits rb_tree.splits rb_color.splits
      simp del: erase_left_black.simps erase_right_black.simps
      dest!: erase_left_black_inorder erase_right_black_inorder)

lemma rb_erase_color_inorder:
  "rb_erase_color node p = Some t \<Longrightarrow> inorder t = path_left p @ inorder node @ path_right p"
proof (induction node p arbitrary: t rule: rb_erase_color.induct)
  case (2 node f p)
  show ?case
  proof (cases "color_of node = RB_RED")
    case True
    then show ?thesis using "2.prems" by (cases f) auto
  next
    case False
    then show ?thesis using 2 erase_step_inorder [of node f p]
      by (auto split: option.splits sum.splits)
  qed
qed simp

section \<open>The red-black invariant\<close>

fun bheight :: "'a rb_tree \<Rightarrow> nat" where
  "bheight RbNull = 0"
| "bheight (RbNode c l x r) = bheight l + (if c = RB_BLACK then 1 else 0)"

fun invc :: "'a rb_tree \<Rightarrow> bool" where
  "invc RbNull = True"
| "invc (RbNode c l x r) =
     (invc l \<and> invc r \<and> (c = RB_RED \<longrightarrow> color_of l = RB_BLACK \<and> color_of r = RB_BLACK))"

fun invh :: "'a rb_tree \<Rightarrow> bool" where
  "invh RbNull = True"
| "invh (RbNode c l x r) = (invh l \<and> invh r \<and> bheight l = bheight r)"

definition rb_inv :: "'a rb_tree \<Rightarrow> bool" where
  "rb_inv t \<longleftrightarrow> invc t \<and> invh t \<and> color_of t = RB_BLACK"

text \<open>A red node may stand below this path.\<close>

fun red_ok :: "'a rb_frame list \<Rightarrow> bool" where
  "red_ok [] = False"
| "red_ok (f # p) = (frame_color f = RB_BLACK)"

text \<open>A subtree of black height \<^verbatim>\<open>h\<close> at the end of the path gives a red-black tree.\<close>

fun path_inv :: "nat \<Rightarrow> 'a rb_frame list \<Rightarrow> bool" where
  "path_inv h [] = True"
| "path_inv h (LeftOf c x r # p) =
     (invc r \<and> invh r \<and> bheight r = h \<and> (c = RB_RED \<longrightarrow> color_of r = RB_BLACK \<and> red_ok p) \<and>
      path_inv (h + (if c = RB_BLACK then 1 else 0)) p)"
| "path_inv h (RightOf c l x # p) =
     (invc l \<and> invh l \<and> bheight l = h \<and> (c = RB_RED \<longrightarrow> color_of l = RB_BLACK \<and> red_ok p) \<and>
      path_inv (h + (if c = RB_BLACK then 1 else 0)) p)"

lemma rb_color_neq [simp]: "c \<noteq> RB_RED \<longleftrightarrow> c = RB_BLACK" "c \<noteq> RB_BLACK \<longleftrightarrow> c = RB_RED"
  by (cases c; simp)+

lemma rb_inv_plug:
  "rb_inv (plug t p) \<longleftrightarrow>
     invc t \<and> invh t \<and> path_inv (bheight t) p \<and> (color_of t = RB_RED \<longrightarrow> red_ok p)"
proof (induction p arbitrary: t)
  case Nil
  then show ?case by (cases "color_of t") (auto simp: rb_inv_def)
next
  case (Cons f p)
  show ?case
    by (cases f; cases "color_of t") (auto simp: Cons.IH)
qed

lemma rb_set_black_inv [simp]:
  "color_of (rb_set_black t) = RB_BLACK" "invh (rb_set_color c t) = invh t"
  by (cases t; simp)+

lemma rb_set_black_black [simp]: "color_of t = RB_BLACK \<Longrightarrow> rb_set_black t = t"
  by (cases t) auto

lemma invc_rb_set_black [simp]: "invc t \<Longrightarrow> invc (rb_set_black t)"
  by (cases t) auto

lemma bheight_rb_set_black:
  "bheight (rb_set_black t) = bheight t + (if color_of t = RB_RED then 1 else 0)"
  by (cases t) auto

lemma rb_inv_rb_set_black: "invc (rb_set_black t) \<Longrightarrow> invh t \<Longrightarrow> rb_inv (rb_set_black t)"
  by (simp add: rb_inv_def)

lemma rb_set_black_plug_inv:
  "rb_inv (plug t p) \<Longrightarrow> rb_inv (rb_set_black (plug t p))"
  by (simp add: rb_inv_def)

text \<open>
  The loop invariant of \<^verbatim>\<open>rb_insert_color\<close>: the node is red with its subtrees in order, and the
  path is that of a red-black tree; only the node and its parent may both be red.
\<close>

lemma rb_insert_color_inv:
  assumes "invc node" "invh node" "color_of node = RB_RED" "path_inv (bheight node) p"
  shows "\<exists>t. rb_insert_color node p = Some t \<and> rb_inv t"
  using assms
proof (induction node p rule: rb_insert_color.induct)
  case (1 node)
  then show ?case by (simp add: rb_inv_rb_set_black)
next
  case (2 node f)
  have "frame_color f = RB_BLACK" using "2.prems"(4) by (cases f) auto
  moreover have "rb_inv (plug node [f])"
    using 2 calculation unfolding rb_inv_plug by simp
  ultimately show ?case by (simp add: rb_inv_def)
next
  case (3 node f g p)
  show ?case
  proof (cases "frame_color f = RB_BLACK")
    case True
    have "rb_inv (plug node (f # g # p))"
      using "3.prems" True unfolding rb_inv_plug by simp
    then show ?thesis using True by (simp add: rb_inv_def)
  next
    case False
    obtain c l x r where node: "node = RbNode c l x r" using "3.prems"(3) by (cases node) auto
    show ?thesis
    proof (cases g)
      case (LeftOf gc gx uncle)
      then show ?thesis
        using 3 False node
        by (cases f; cases uncle)
           (auto simp: Let_def rb_inv_plug intro!: rb_set_black_plug_inv split: if_splits)
    next
      case (RightOf gc uncle gx)
      then show ?thesis
        using 3 False node
        by (cases f; cases uncle)
           (auto simp: Let_def rb_inv_plug intro!: rb_set_black_plug_inv split: if_splits)
    qed
  qed
qed

text \<open>
  An iteration of \<^verbatim>\<open>__rb_erase_color\<close>: the node's subtree is one black node short of what the
  path asks for.  Either the shortage moves up, or the subtree is complete again.
\<close>

definition black_step :: "nat \<Rightarrow> rb_color \<Rightarrow> ('a rb_tree + 'a rb_tree) \<Rightarrow> bool" where
  "black_step h pc o' \<longleftrightarrow>
     (case o' of
        Inl t \<Rightarrow> invc (rb_set_black t) \<and> invh t \<and> color_of t = pc \<and>
                 bheight t = h + (if pc = RB_BLACK then 1 else 0)
      | Inr t \<Rightarrow> invc t \<and> invh t \<and> color_of t = pc \<and>
                 bheight t = Suc h + (if pc = RB_BLACK then 1 else 0))"

lemma erase_left_black_inv:
  assumes "invc node" "invh node" "color_of node = RB_BLACK"
    and "invc other" "invh other" "color_of other = RB_BLACK" "bheight other = Suc (bheight node)"
  shows "\<exists>o'. erase_left_black node pc px other = Some o' \<and> black_step (bheight node) pc o'"
  using assms
proof (induction node pc px other rule: erase_left_black.induct)
  case (2 node pc px oc ol ox orr)
  then show ?case
    by (cases ol; cases orr) (auto simp: black_step_def split: if_splits)
qed simp

lemma erase_right_black_inv:
  assumes "invc node" "invh node" "color_of node = RB_BLACK"
    and "invc other" "invh other" "color_of other = RB_BLACK" "bheight other = Suc (bheight node)"
  shows "\<exists>o'. erase_right_black node pc px other = Some o' \<and> black_step (bheight node) pc o'"
  using assms
proof (induction node pc px other rule: erase_right_black.induct)
  case (2 node pc px oc ol ox orr)
  then show ?case
    by (cases ol; cases orr) (auto simp: black_step_def split: if_splits)
qed simp

definition step_done :: "('a rb_tree + 'a rb_tree) \<Rightarrow> 'a rb_frame list \<Rightarrow> bool" where
  "step_done o' q \<longleftrightarrow>
     (case o' of
        Inl t \<Rightarrow> invc (rb_set_black t) \<and> invh t \<and> path_inv (Suc (bheight t)) q
      | Inr t \<Rightarrow> rb_inv (plug t q))"

lemma black_step_done:
  assumes "black_step h pc o'" "path_inv (Suc h + (if pc = RB_BLACK then 1 else 0)) q"
    and "pc = RB_RED \<longrightarrow> red_ok q"
  shows "step_done o' q"
  using assms by (auto simp: black_step_def step_done_def rb_inv_plug split: sum.splits)

lemma erase_step_left_inv:
  assumes node: "invc node" "invh node" "color_of node = RB_BLACK"
    and path: "path_inv (Suc (bheight node)) (LeftOf pc px other # p)"
  shows "\<exists>o' q. erase_step_left node pc px other p = Some (o', q) \<and> step_done o' q"
proof (cases "color_of other = RB_BLACK")
  case True
  obtain o' where "erase_left_black node pc px other = Some o'" "black_step (bheight node) pc o'"
    using erase_left_black_inv [OF node _ _ True, of pc px] path by auto
  moreover have "step_done o' p" by (rule black_step_done [OF calculation(2)]) (use path in auto)
  moreover have "erase_step_left node pc px other p =
      map_option (\<lambda>o'. (o', p)) (erase_left_black node pc px other)"
    using True by (cases other) (auto simp: erase_step_left_def)
  ultimately show ?thesis by simp
next
  case False
  then obtain ol ox orr where other: "other = RbNode RB_RED ol ox orr" by (cases other) auto
  obtain o' where o': "erase_left_black node RB_RED px ol = Some o'" "black_step (bheight node) RB_RED o'"
    using erase_left_black_inv [OF node, of ol RB_RED px] path other by auto
  moreover have "step_done o' (LeftOf RB_BLACK ox orr # p)"
    by (rule black_step_done [OF o'(2)]) (use path other in \<open>auto split: if_splits\<close>)
  ultimately show ?thesis using other by (simp add: erase_step_left_def)
qed

lemma erase_step_right_inv:
  assumes node: "invc node" "invh node" "color_of node = RB_BLACK"
    and path: "path_inv (Suc (bheight node)) (RightOf pc other px # p)"
  shows "\<exists>o' q. erase_step_right node pc px other p = Some (o', q) \<and> step_done o' q"
proof (cases "color_of other = RB_BLACK")
  case True
  obtain o' where "erase_right_black node pc px other = Some o'" "black_step (bheight node) pc o'"
    using erase_right_black_inv [OF node _ _ True, of pc px] path by auto
  moreover have "step_done o' p" by (rule black_step_done [OF calculation(2)]) (use path in auto)
  moreover have "erase_step_right node pc px other p =
      map_option (\<lambda>o'. (o', p)) (erase_right_black node pc px other)"
    using True by (cases other) (auto simp: erase_step_right_def)
  ultimately show ?thesis by simp
next
  case False
  then obtain ol ox orr where other: "other = RbNode RB_RED ol ox orr" by (cases other) auto
  obtain o' where o': "erase_right_black node RB_RED px orr = Some o'" "black_step (bheight node) RB_RED o'"
    using erase_right_black_inv [OF node, of orr RB_RED px] path other by auto
  moreover have "step_done o' (RightOf RB_BLACK ol ox # p)"
    by (rule black_step_done [OF o'(2)]) (use path other in \<open>auto split: if_splits\<close>)
  ultimately show ?thesis using other by (simp add: erase_step_right_def)
qed

lemma erase_step_inv:
  assumes "invc node" "invh node" "color_of node = RB_BLACK" "path_inv (Suc (bheight node)) (f # p)"
  shows "\<exists>o' q. erase_step node f p = Some (o', q) \<and> step_done o' q"
  using erase_step_left_inv [OF assms(1-3)] erase_step_right_inv [OF assms(1-3)] assms(4)
  by (cases f) (auto simp: erase_step_def)

lemma rb_erase_color_inv:
  assumes "invc (rb_set_black node)" "invh node" "path_inv (Suc (bheight node)) p"
  shows "\<exists>t. rb_erase_color node p = Some t \<and> rb_inv t"
  using assms
proof (induction node p rule: rb_erase_color.induct)
  case (1 node)
  then show ?case by (simp add: rb_inv_rb_set_black)
next
  case (2 node f p)
  show ?case
  proof (cases "color_of node = RB_RED")
    case True
    then have "rb_inv (plug (rb_set_black node) (f # p))"
      unfolding rb_inv_plug using "2.prems" by (simp add: bheight_rb_set_black)
    then show ?thesis using True by simp
  next
    case False
    then have black: "color_of node = RB_BLACK" by simp
    then obtain o' q where step: "erase_step node f p = Some (o', q)" "step_done o' q"
      using erase_step_inv [of node f p] "2.prems" by auto
    show ?thesis
    proof (cases o')
      case (Inl t)
      have "\<exists>t'. rb_erase_color t q = Some t' \<and> rb_inv t'"
        by (rule "2.IH" [OF False step(1) _ Inl]) (use step(2) Inl in \<open>simp_all add: step_done_def\<close>)
      then show ?thesis using False step Inl by simp
    next
      case (Inr t)
      then show ?thesis using False step by (simp add: step_done_def rb_set_black_plug_inv)
    qed
  qed
qed

text \<open>Taking a node with at most one child out of a tree.\<close>

definition splice_out :: "rb_color \<Rightarrow> 'a rb_tree \<Rightarrow> 'a rb_frame list \<Rightarrow> 'a rb_tree option" where
  "splice_out c child p = (if c = RB_BLACK then rb_erase_color child p else Some (plug child p))"

lemma splice_out_inorder:
  "splice_out c child p = Some t \<Longrightarrow> inorder t = path_left p @ inorder child @ path_right p"
  by (auto simp: splice_out_def rb_erase_color_inorder split: if_splits)

lemma splice_out_inv:
  assumes "rb_inv (plug (RbNode c l x r) p)" "l = RbNull \<and> child = r \<or> r = RbNull \<and> child = l"
  shows "\<exists>t. splice_out c child p = Some t \<and> rb_inv t"
proof (cases "c = RB_BLACK")
  case True
  then show ?thesis
    using assms rb_erase_color_inv [of child p] by (auto simp: rb_inv_plug splice_out_def)
next
  case False
  then show ?thesis using assms by (auto simp: rb_inv_plug splice_out_def)
qed

lemma path_left_append: "path_left (q @ p) = path_left p @ path_left q"
  by (induction q rule: path_left.induct) auto

lemma path_right_append: "path_right (q @ p) = path_right q @ path_right p"
  by (induction q rule: path_right.induct) auto

lemma descend_left_ok:
  assumes "t \<noteq> RbNull"
  shows "\<exists>c x r q. descend_left t p = Some (c, x, r, q @ p) \<and> plug (RbNode c RbNull x r) q = t \<and>
           path_left q = []"
  using assms
proof (induction t p rule: descend_left.induct)
  case (2 c x r p)
  then show ?case by (intro exI [of _ "[]"] exI) auto
next
  case (3 c c' l' x' r' x r p)
  then obtain c0 x0 r0 q where "descend_left (RbNode c' l' x' r') (LeftOf c x r # p) =
        Some (c0, x0, r0, q @ LeftOf c x r # p)" "plug (RbNode c0 RbNull x0 r0) q = RbNode c' l' x' r'"
      "path_left q = []"
    by auto
  then show ?case by (intro exI [of _ c0] exI [of _ x0] exI [of _ r0] exI [of _ "q @ [LeftOf c x r]"]) (simp add: path_left_append)
qed simp

lemma path_inv_payload:
  "path_inv h (q @ RightOf c l x # p) = path_inv h (q @ RightOf c l y # p)"
  "red_ok (q @ RightOf c l x # p) = red_ok (q @ RightOf c l y # p)"
proof -
  show r: "red_ok (q @ RightOf c l x # p) = red_ok (q @ RightOf c l y # p)" for q
    by (cases q) auto
  show "path_inv h (q @ RightOf c l x # p) = path_inv h (q @ RightOf c l y # p)"
  proof (induction q arbitrary: h)
    case (Cons f q)
    then show ?case using r by (cases f) auto
  qed simp
qed

lemma rb_erase_one_child:
  "rb_erase (RbNode c RbNull x r) p = splice_out c r p"
  "rb_erase (RbNode c l x RbNull) p = splice_out c l p"
  by (simp_all add: rb_erase_def splice_out_def)

lemma rb_erase_two_children:
  assumes "l \<noteq> RbNull" "r \<noteq> RbNull"
  obtains cy y cr q where "rb_erase (RbNode c l x r) p = splice_out cy cr (q @ RightOf c l y # p)"
    "plug (RbNode cy RbNull y cr) q = r" "path_left q = []"
proof -
  obtain cy y cr q where "descend_left r [] = Some (cy, y, cr, q)" "plug (RbNode cy RbNull y cr) q = r"
      "path_left q = []"
    using descend_left_ok [OF assms(2), of "[]"] by auto
  then show thesis using assms by (intro that) (simp_all add: rb_erase_def splice_out_def)
qed

lemma rb_erase_inv:
  assumes "rb_inv (plug (RbNode c l x r) p)"
  shows "\<exists>t. rb_erase (RbNode c l x r) p = Some t \<and> rb_inv t"
proof (cases "l = RbNull \<or> r = RbNull")
  case True
  then show ?thesis
  proof
    assume "l = RbNull"
    then show ?thesis using splice_out_inv [OF assms, of r] by (simp add: rb_erase_one_child)
  next
    assume "r = RbNull"
    then show ?thesis using splice_out_inv [OF assms, of l] by (simp add: rb_erase_one_child)
  qed
next
  case False
  then have "l \<noteq> RbNull" "r \<noteq> RbNull" by auto
  then obtain cy y cr q where
    erase: "rb_erase (RbNode c l x r) p = splice_out cy cr (q @ RightOf c l y # p)"
    and q: "plug (RbNode cy RbNull y cr) q = r" "path_left q = []"
    by (rule rb_erase_two_children)
  have "rb_inv (plug (RbNode cy RbNull y cr) (q @ RightOf c l x # p))"
    using assms q(1) by simp
  then have "rb_inv (plug (RbNode cy RbNull y cr) (q @ RightOf c l y # p))"
    unfolding rb_inv_plug by (metis path_inv_payload)
  then show ?thesis using erase splice_out_inv by metis
qed

lemma rb_erase_inorder:
  assumes "rb_erase (RbNode c l x r) p = Some t"
  shows "inorder t = path_left p @ inorder l @ inorder r @ path_right p"
proof (cases "l = RbNull \<or> r = RbNull")
  case True
  then show ?thesis
    using assms splice_out_inorder [of c r p t] splice_out_inorder [of c l p t]
    by (auto simp: rb_erase_one_child)
next
  case False
  then have "l \<noteq> RbNull" "r \<noteq> RbNull" by auto
  then obtain cy y cr q where
    erase: "rb_erase (RbNode c l x r) p = splice_out cy cr (q @ RightOf c l y # p)"
    and q: "plug (RbNode cy RbNull y cr) q = r" "path_left q = []"
    by (rule rb_erase_two_children)
  have "inorder r = path_left q @ y # inorder cr @ path_right q"
    using q(1) [symmetric] by simp
  then show ?thesis
    using splice_out_inorder [of cy cr "q @ RightOf c l y # p" t] assms erase q(2)
    by (simp add: path_left_append path_right_append)
qed

section \<open>Traversal follows the in-order sequence\<close>

lemma inorder_eq_Nil [simp]: "inorder t = [] \<longleftrightarrow> t = RbNull"
  by (cases t) auto

lemma rb_first_inorder: "rb_first t = (if t = RbNull then None else Some (hd (inorder t)))"
  by (induction t rule: rb_first.induct) (auto simp: hd_append)

lemma rb_last_inorder: "rb_last t = (if t = RbNull then None else Some (last (inorder t)))"
  by (induction t rule: rb_last.induct) auto

lemma climb_next_path: "climb_next p = (if path_right p = [] then None else Some (hd (path_right p)))"
  by (induction p rule: climb_next.induct) auto

lemma climb_prev_path: "climb_prev p = (if path_left p = [] then None else Some (last (path_left p)))"
  by (induction p rule: climb_prev.induct) auto

lemma rb_next_path:
  "rb_next (RbNode c l x r) p =
     (if inorder r @ path_right p = [] then None else Some (hd (inorder r @ path_right p)))"
  by (auto simp: rb_first_inorder climb_next_path hd_append)

lemma rb_prev_path:
  "rb_prev (RbNode c l x r) p =
     (if path_left p @ inorder l = [] then None else Some (last (path_left p @ inorder l)))"
  by (auto simp: rb_last_inorder climb_prev_path)

text \<open>
  \<^verbatim>\<open>rb_next\<close> and \<^verbatim>\<open>rb_prev\<close> walk the in-order sequence: from a node anywhere in a tree they
  reach the entry right after it, or right before it, and NULL exactly at the ends.
\<close>

theorem rb_next_prev_inorder:
  "rb_next (RbNode c l x r) p =
     (case inorder r @ path_right p of [] \<Rightarrow> None | y # _ \<Rightarrow> Some y) \<and>
   rb_prev (RbNode c l x r) p =
     (if path_left p @ inorder l = [] then None else Some (last (path_left p @ inorder l))) \<and>
   inorder (plug (RbNode c l x r) p) = (path_left p @ inorder l) @ x # (inorder r @ path_right p)"
  unfolding rb_next_path rb_prev_path by (cases "inorder r @ path_right p") auto

text \<open>
  C37. Linking a new node at an empty place of a red-black tree and rebalancing with
  \<^verbatim>\<open>rb_insert_color\<close> succeeds without dereferencing NULL and gives a red-black tree: root
  black, no red node with a red child, equally many black nodes on every path down.  The
  in-order sequence gets the new entry at that place.
\<close>

theorem rb_insert_color_correct:
  assumes "rb_inv (plug RbNull p)"
  shows "\<exists>t. rb_insert_color (rb_link_node x) p = Some t \<and> rb_inv t \<and>
           inorder t = path_left p @ x # path_right p"
  using rb_insert_color_inv [of "rb_link_node x" p] rb_insert_color_inorder [of "rb_link_node x" p] assms
  by (auto simp: rb_inv_plug rb_link_node_def)

theorem rb_insert_color_correct_witness:
  "\<exists>t. rb_insert_color (rb_link_node (1 :: nat)) [LeftOf RB_BLACK 2 RbNull] = Some t \<and> rb_inv t \<and>
     inorder t = path_left [LeftOf RB_BLACK 2 RbNull] @ 1 # path_right [LeftOf RB_BLACK 2 RbNull]"
  by (rule rb_insert_color_correct) (simp add: rb_inv_def)

text \<open>
  C38. \<^verbatim>\<open>rb_erase\<close> on any node of a red-black tree succeeds without dereferencing NULL and gives a
  red-black tree whose in-order sequence has lost exactly that entry.
\<close>

theorem rb_erase_correct:
  assumes "rb_inv (plug (RbNode c l x r) p)"
  shows "\<exists>t. rb_erase (RbNode c l x r) p = Some t \<and> rb_inv t \<and>
           inorder t = path_left p @ inorder l @ inorder r @ path_right p"
  using rb_erase_inv [OF assms] rb_erase_inorder [of c l x r p] by metis

theorem rb_erase_correct_witness:
  "\<exists>t. rb_erase (RbNode RB_BLACK RbNull (1 :: nat) RbNull) [LeftOf RB_BLACK 2 (RbNode RB_BLACK RbNull 3 RbNull)] = Some t \<and>
     rb_inv t \<and> inorder t = path_left [LeftOf RB_BLACK 2 (RbNode RB_BLACK RbNull 3 RbNull)] @ inorder (RbNull :: nat rb_tree) @
       inorder (RbNull :: nat rb_tree) @ path_right [LeftOf RB_BLACK 2 (RbNode RB_BLACK RbNull 3 RbNull)]"
  by (rule rb_erase_correct) (simp add: rb_inv_def)

end
