(* ===== verification/Walb_Treemap.thy ===== *)
theory Walb_Treemap
  imports Walb_Rbtree
begin

text \<open>
  The tree map of \<^verbatim>\<open>module/treemap.c\<close> and its cursors: an ordered map from \<^verbatim>\<open>u64\<close> keys to
  \<^verbatim>\<open>unsigned long\<close> values on a red-black tree.  A value is a number or, for a multimap, the
  address of a cell head, which is modelled by the head itself.  Keys are unique in a map, so
  a pointer to a node of the tree is modelled by the key of the node, \<^const>\<open>None\<close> for NULL.
  Pointer arguments that only a faulty caller could make NULL are taken to be valid.  The
  outcome of a memory pool allocation is an argument.

  The module runs on the kernel's \<^verbatim>\<open>rb_insert_color\<close> and \<^verbatim>\<open>rb_erase\<close>; they are parameters
  of the operations that call them, with the locale \<^verbatim>\<open>rb_contract\<close> as what they promise.
  The locale is interpreted on the copy of them in \<^verbatim>\<open>tool/lib/rbtree.c\<close>.
\<close>

section \<open>Data\<close>

record tree_cell_head =
  tch_key :: u64
  tch_cells :: "ulong list"

datatype tree_val = Val ulong | CellHead tree_cell_head

definition TREEMAP_INVALID_KEY :: u64 where "TREEMAP_INVALID_KEY = - 1"
definition TREEMAP_INVALID_VAL :: tree_val where "TREEMAP_INVALID_VAL = Val (- 1)"

type_synonym tree_node = "u64 \<times> tree_val"
type_synonym tree_map = "tree_node rb_tree"
type_synonym node_ptr = "u64 option"
type_synonym rb_op = "tree_node rb_tree \<Rightarrow> tree_node rb_frame list \<Rightarrow> tree_node rb_tree"

datatype treemap_error = ENOMEM | EEXIST | EINVAL

datatype map_search =
    MAP_SEARCH_BEGIN | MAP_SEARCH_END | MAP_SEARCH_EQ
  | MAP_SEARCH_LT | MAP_SEARCH_LE | MAP_SEARCH_GT | MAP_SEARCH_GE

section \<open>The rebalancing interface\<close>

locale rb_contract =
  fixes rb_ins rb_del :: rb_op and rb_good :: "tree_map \<Rightarrow> bool"
  assumes good_null: "rb_good RbNull"
    and ins_good: "rb_good (plug RbNull p) \<Longrightarrow> rb_good (rb_ins (rb_link_node x) p)"
    and ins_inorder: "rb_good (plug RbNull p) \<Longrightarrow>
      inorder (rb_ins (rb_link_node x) p) = path_left p @ x # path_right p"
    and del_good: "rb_good (plug (RbNode c l x r) p) \<Longrightarrow> rb_good (rb_del (RbNode c l x r) p)"
    and del_inorder: "rb_good (plug (RbNode c l x r) p) \<Longrightarrow>
      inorder (rb_del (RbNode c l x r) p) = path_left p @ inorder l @ inorder r @ path_right p"
    and good_val: "rb_good (plug (RbNode c l (k, v) r) p) \<Longrightarrow> rb_good (plug (RbNode c l (k, w) r) p)"

definition tool_rb_ins :: rb_op where
  "tool_rb_ins node p = the (rb_insert_color node p)"

definition tool_rb_del :: rb_op where
  "tool_rb_del node p = the (rb_erase node p)"

interpretation tool_rb: rb_contract tool_rb_ins tool_rb_del rb_inv
proof
  show "rb_inv RbNull" by (simp add: rb_inv_def)
next
  fix p :: "tree_node rb_frame list" and x
  assume inv: "rb_inv (plug RbNull p)"
  obtain t where "rb_insert_color (rb_link_node x) p = Some t" "rb_inv t"
      "inorder t = path_left p @ x # path_right p"
    using rb_insert_color_inv [of "rb_link_node x" p] rb_insert_color_inorder [of "rb_link_node x" p] inv
    by (auto simp: rb_inv_plug rb_link_node_def)
  then show "rb_inv (tool_rb_ins (rb_link_node x) p)"
    "inorder (tool_rb_ins (rb_link_node x) p) = path_left p @ x # path_right p"
    by (simp_all add: tool_rb_ins_def)
next
  fix c l x r and p :: "tree_node rb_frame list"
  assume inv: "rb_inv (plug (RbNode c l x r) p)"
  obtain t where "rb_erase (RbNode c l x r) p = Some t" "rb_inv t"
      "inorder t = path_left p @ inorder l @ inorder r @ path_right p"
    using rb_erase_inv [OF inv] rb_erase_inorder [of c l x r p] by metis
  then show "rb_inv (tool_rb_del (RbNode c l x r) p)"
    "inorder (tool_rb_del (RbNode c l x r) p) = path_left p @ inorder l @ inorder r @ path_right p"
    by (simp_all add: tool_rb_del_def)
next
  fix c l k v r w and p :: "tree_node rb_frame list"
  assume "rb_inv (plug (RbNode c l (k, v) r) p)"
  then show "rb_inv (plug (RbNode c l (k, w) r) p)" unfolding rb_inv_plug by auto
qed

section \<open>Looking up nodes\<close>

text \<open>The node with a key and the path to it.\<close>

fun node_at :: "u64 \<Rightarrow> tree_map \<Rightarrow> tree_node rb_frame list \<Rightarrow>
    (tree_map \<times> tree_node rb_frame list) option" where
  "node_at key RbNull p = None"
| "node_at key (RbNode c l (k, v) r) p =
     (if key < k then node_at key l (LeftOf c (k, v) r # p)
      else if key > k then node_at key r (RightOf c l (k, v) # p)
      else Some (RbNode c l (k, v) r, p))"

definition map_first :: "tree_map \<Rightarrow> node_ptr" where
  "map_first tmap = map_option fst (rb_first tmap)"

definition map_last :: "tree_map \<Rightarrow> node_ptr" where
  "map_last tmap = map_option fst (rb_last tmap)"

definition map_next :: "tree_map \<Rightarrow> node_ptr \<Rightarrow> node_ptr" where
  "map_next tmap t =
     Option.bind t (\<lambda>k. Option.bind (node_at k tmap []) (\<lambda>(n, p). map_option fst (rb_next n p)))"

definition map_prev :: "tree_map \<Rightarrow> node_ptr \<Rightarrow> node_ptr" where
  "map_prev tmap t =
     Option.bind t (\<lambda>k. Option.bind (node_at k tmap []) (\<lambda>(n, p). map_option fst (rb_prev n p)))"

definition node_val :: "tree_map \<Rightarrow> u64 \<Rightarrow> tree_val" where
  "node_val tmap k =
     (case node_at k tmap [] of Some (RbNode c l (k', v) r, p) \<Rightarrow> v | _ \<Rightarrow> TREEMAP_INVALID_VAL)"

text \<open>The traversal of \<^verbatim>\<open>map_lookup_node_detail\<close>: the key of the last node it visits.\<close>

fun search_last :: "u64 \<Rightarrow> tree_map \<Rightarrow> node_ptr \<Rightarrow> node_ptr" where
  "search_last key RbNull t = t"
| "search_last key (RbNode c l (k, v) r) t =
     (if key < k then search_last key l (Some k)
      else if key > k then search_last key r (Some k)
      else Some k)"

definition map_lookup_node_detail :: "tree_map \<Rightarrow> u64 \<Rightarrow> map_search \<Rightarrow> node_ptr" where
  "map_lookup_node_detail tmap key search_flag =
     (if search_flag = MAP_SEARCH_BEGIN \<or> search_flag = MAP_SEARCH_END then None
      else
        (case search_last key tmap None of
           None \<Rightarrow> None
         | Some k \<Rightarrow>
             if k = key \<and> search_flag \<in> {MAP_SEARCH_EQ, MAP_SEARCH_LE, MAP_SEARCH_GE} then Some k
             else
               (case search_flag of
                  MAP_SEARCH_LT \<Rightarrow> if k = key then map_prev tmap (Some k)
                                   else if k < key then Some k else map_prev tmap (Some k)
                | MAP_SEARCH_LE \<Rightarrow> if k = key then map_prev tmap (Some k)
                                   else if k < key then Some k else map_prev tmap (Some k)
                | MAP_SEARCH_GT \<Rightarrow> if k = key then map_next tmap (Some k)
                                   else if k < key then map_next tmap (Some k) else Some k
                | MAP_SEARCH_GE \<Rightarrow> if k = key then map_next tmap (Some k)
                                   else if k < key then map_next tmap (Some k) else Some k
                | _ \<Rightarrow> None)))"

definition map_lookup_node :: "tree_map \<Rightarrow> u64 \<Rightarrow> node_ptr" where
  "map_lookup_node tmap key = map_lookup_node_detail tmap key MAP_SEARCH_EQ"

section \<open>Map operations\<close>

definition map_init :: tree_map where
  "map_init = RbNull"

definition map_create :: "bool \<Rightarrow> tree_map option" where
  "map_create kmalloc_ok = (if kmalloc_ok then Some map_init else None)"

text \<open>The empty place for a key, or None when the key is there.\<close>

fun add_place :: "u64 \<Rightarrow> tree_map \<Rightarrow> tree_node rb_frame list \<Rightarrow> tree_node rb_frame list option" where
  "add_place key RbNull p = Some p"
| "add_place key (RbNode c l (k, v) r) p =
     (if key < k then add_place key l (LeftOf c (k, v) r # p)
      else if key > k then add_place key r (RightOf c l (k, v) # p)
      else None)"

definition map_add :: "rb_op \<Rightarrow> tree_map \<Rightarrow> u64 \<Rightarrow> tree_val \<Rightarrow> bool \<Rightarrow> treemap_error option \<times> tree_map" where
  "map_add rb_ins tmap key val alloc_ok =
     (if val = TREEMAP_INVALID_VAL then (Some EINVAL, tmap)
      else
        (case add_place key tmap [] of
           None \<Rightarrow> (Some EEXIST, tmap)
         | Some p \<Rightarrow>
             if \<not> alloc_ok then (Some ENOMEM, tmap)
             else (None, rb_ins (rb_link_node (key, val)) p)))"

definition map_lookup :: "tree_map \<Rightarrow> u64 \<Rightarrow> tree_val" where
  "map_lookup tmap key =
     (case map_lookup_node tmap key of Some k \<Rightarrow> node_val tmap k | None \<Rightarrow> TREEMAP_INVALID_VAL)"

text \<open>\<^verbatim>\<open>rb_erase\<close> of the node with a key.\<close>

definition erase_node :: "rb_op \<Rightarrow> tree_map \<Rightarrow> u64 \<Rightarrow> tree_map" where
  "erase_node rb_del tmap k = (case node_at k tmap [] of None \<Rightarrow> tmap | Some (n, p) \<Rightarrow> rb_del n p)"

definition map_del :: "rb_op \<Rightarrow> tree_map \<Rightarrow> u64 \<Rightarrow> tree_val \<times> tree_map" where
  "map_del rb_del tmap key =
     (case map_lookup_node tmap key of
        None \<Rightarrow> (TREEMAP_INVALID_VAL, tmap)
      | Some k \<Rightarrow> (node_val tmap k, erase_node rb_del tmap k))"

text \<open>
  The loop of \<^verbatim>\<open>map_empty\<close>: the next node is read before the current one is erased.  It is
  a partial function because it ends only when \<^verbatim>\<open>rb_erase\<close> removes nodes.
\<close>

partial_function (option) map_empty_loop :: "rb_op \<Rightarrow> tree_map \<Rightarrow> node_ptr \<Rightarrow> node_ptr \<Rightarrow> tree_map option" where
  "map_empty_loop rb_del tmap node nxt =
     (case node of
        None \<Rightarrow> Some tmap
      | Some k \<Rightarrow>
          (let tmap' = erase_node rb_del tmap k in
           map_empty_loop rb_del tmap' nxt (map_next tmap' nxt)))"

definition map_empty :: "rb_op \<Rightarrow> tree_map \<Rightarrow> tree_map option" where
  "map_empty rb_del tmap =
     (let node = map_first tmap in map_empty_loop rb_del tmap node (map_next tmap node))"

definition map_is_empty :: "tree_map \<Rightarrow> bool" where
  "map_is_empty tmap = (rb_first tmap = None)"

partial_function (option) count_loop :: "tree_map \<Rightarrow> node_ptr \<Rightarrow> int \<Rightarrow> int option" where
  "count_loop tmap node cnt =
     (case node of
        None \<Rightarrow> Some cnt
      | Some k \<Rightarrow> count_loop tmap (map_next tmap (Some k)) (cnt + 1))"

definition map_n_items :: "tree_map \<Rightarrow> int option" where
  "map_n_items tmap = count_loop tmap (map_first tmap) 0"

section \<open>Map cursors\<close>

datatype map_cursor_state = MAP_CURSOR_BEGIN | MAP_CURSOR_END | MAP_CURSOR_DATA | MAP_CURSOR_INVALID

record map_cursor =
  mc_state :: map_cursor_state
  mc_prev :: node_ptr
  mc_curr :: node_ptr
  mc_next :: node_ptr

definition make_map_cursor_invalid :: "map_cursor \<Rightarrow> map_cursor" where
  "make_map_cursor_invalid cursor =
     cursor\<lparr>mc_state := MAP_CURSOR_INVALID, mc_curr := None, mc_prev := None, mc_next := None\<rparr>"

definition is_valid_map_cursor :: "map_cursor \<Rightarrow> bool" where
  "is_valid_map_cursor cursor =
     ((mc_state cursor = MAP_CURSOR_BEGIN \<and> mc_prev cursor = None \<and> mc_curr cursor = None) \<or>
      (mc_state cursor = MAP_CURSOR_END \<and> mc_curr cursor = None \<and> mc_next cursor = None) \<or>
      (mc_state cursor = MAP_CURSOR_DATA \<and> mc_curr cursor \<noteq> None) \<or>
      mc_state cursor = MAP_CURSOR_INVALID)"

definition map_cursor_init :: map_cursor where
  "map_cursor_init =
     \<lparr>mc_state = MAP_CURSOR_INVALID, mc_prev = None, mc_curr = None, mc_next = None\<rparr>"

definition map_cursor_create :: "bool \<Rightarrow> map_cursor option" where
  "map_cursor_create kmalloc_ok = (if kmalloc_ok then Some map_cursor_init else None)"

definition map_cursor_begin :: "tree_map \<Rightarrow> map_cursor \<Rightarrow> map_cursor" where
  "map_cursor_begin tmap cursor =
     cursor\<lparr>mc_state := MAP_CURSOR_BEGIN, mc_prev := None, mc_curr := None, mc_next := map_first tmap\<rparr>"

definition map_cursor_end :: "tree_map \<Rightarrow> map_cursor \<Rightarrow> map_cursor" where
  "map_cursor_end tmap cursor =
     cursor\<lparr>mc_state := MAP_CURSOR_END, mc_prev := map_last tmap, mc_curr := None, mc_next := None\<rparr>"

definition map_cursor_search :: "tree_map \<Rightarrow> map_cursor \<Rightarrow> u64 \<Rightarrow> map_search \<Rightarrow> bool \<times> map_cursor" where
  "map_cursor_search tmap cursor key search_flag =
     (let cursor' =
        (if search_flag = MAP_SEARCH_BEGIN then map_cursor_begin tmap cursor
         else if search_flag = MAP_SEARCH_END then map_cursor_end tmap cursor
         else
           (case map_lookup_node_detail tmap key search_flag of
              None \<Rightarrow> make_map_cursor_invalid cursor
            | Some k \<Rightarrow>
                cursor\<lparr>mc_curr := Some k, mc_state := MAP_CURSOR_DATA,
                  mc_prev := map_prev tmap (Some k), mc_next := map_next tmap (Some k)\<rparr>))
      in (mc_state cursor' \<noteq> MAP_CURSOR_INVALID, cursor'))"

definition map_cursor_next :: "tree_map \<Rightarrow> map_cursor \<Rightarrow> bool \<times> map_cursor" where
  "map_cursor_next tmap cursor =
     (let cursor' =
        (if mc_state cursor = MAP_CURSOR_BEGIN \<or> mc_state cursor = MAP_CURSOR_DATA then
           (let curr = mc_next cursor in
            cursor\<lparr>mc_prev := mc_curr cursor, mc_curr := curr, mc_next := map_next tmap curr,
              mc_state := (if curr \<noteq> None then MAP_CURSOR_DATA else MAP_CURSOR_END)\<rparr>)
         else cursor)
      in (mc_state cursor' = MAP_CURSOR_DATA, cursor'))"

definition map_cursor_prev :: "tree_map \<Rightarrow> map_cursor \<Rightarrow> bool \<times> map_cursor" where
  "map_cursor_prev tmap cursor =
     (let cursor' =
        (if mc_state cursor = MAP_CURSOR_END \<or> mc_state cursor = MAP_CURSOR_DATA then
           (let curr = mc_prev cursor in
            cursor\<lparr>mc_next := mc_curr cursor, mc_curr := curr, mc_prev := map_prev tmap curr,
              mc_state := (if curr \<noteq> None then MAP_CURSOR_DATA else MAP_CURSOR_BEGIN)\<rparr>)
         else cursor)
      in (mc_state cursor' = MAP_CURSOR_DATA, cursor'))"

definition map_cursor_is_begin :: "map_cursor \<Rightarrow> bool" where
  "map_cursor_is_begin cursor = (mc_state cursor = MAP_CURSOR_BEGIN)"

definition map_cursor_is_end :: "map_cursor \<Rightarrow> bool" where
  "map_cursor_is_end cursor = (mc_state cursor = MAP_CURSOR_END)"

definition map_cursor_is_data :: "map_cursor \<Rightarrow> bool" where
  "map_cursor_is_data cursor = (mc_state cursor = MAP_CURSOR_DATA)"

definition map_cursor_is_valid :: "map_cursor \<Rightarrow> bool" where
  "map_cursor_is_valid cursor = is_valid_map_cursor cursor"

definition map_cursor_copy :: "map_cursor \<Rightarrow> map_cursor \<Rightarrow> map_cursor" where
  "map_cursor_copy dst src =
     dst\<lparr>mc_state := mc_state src, mc_prev := mc_prev src, mc_curr := mc_curr src,
         mc_next := mc_next src\<rparr>"

definition map_cursor_key :: "map_cursor \<Rightarrow> u64" where
  "map_cursor_key cursor =
     (if mc_state cursor \<noteq> MAP_CURSOR_DATA then TREEMAP_INVALID_KEY
      else case mc_curr cursor of Some k \<Rightarrow> k | None \<Rightarrow> TREEMAP_INVALID_KEY)"

definition map_cursor_val :: "tree_map \<Rightarrow> map_cursor \<Rightarrow> tree_val" where
  "map_cursor_val tmap cursor =
     (if mc_state cursor \<noteq> MAP_CURSOR_DATA then TREEMAP_INVALID_VAL
      else case mc_curr cursor of Some k \<Rightarrow> node_val tmap k | None \<Rightarrow> TREEMAP_INVALID_VAL)"

text \<open>Deletion at the cursor: step to the next node, keep the old predecessor, erase.\<close>

definition map_cursor_del :: "rb_op \<Rightarrow> tree_map \<Rightarrow> map_cursor \<Rightarrow> bool \<times> tree_map \<times> map_cursor" where
  "map_cursor_del rb_del tmap cursor =
     (if mc_state cursor \<noteq> MAP_CURSOR_DATA then (False, tmap, cursor)
      else
        (let t = mc_curr cursor; prev = mc_prev cursor;
             cursor1 = snd (map_cursor_next tmap cursor);
             cursor2 = cursor1\<lparr>mc_prev := prev\<rparr> in
         (True, (case t of Some k \<Rightarrow> erase_node rb_del tmap k | None \<Rightarrow> tmap), cursor2)))"

section \<open>The map as a sorted sequence\<close>

text \<open>
  Abstractly a map is the sequence of its key-value pairs in key order; it is well formed when
  the tree is balanced, the keys increase and no value is the invalid one.
\<close>

definition keys :: "tree_map \<Rightarrow> u64 list" where
  "keys tmap = map fst (inorder tmap)"

abbreviation sorted_keys :: "u64 list \<Rightarrow> bool" where
  "sorted_keys \<equiv> sorted_wrt (<)"

definition map_abs :: "tree_map \<Rightarrow> u64 \<Rightarrow> tree_val option" where
  "map_abs tmap = map_of (inorder tmap)"

definition map_wf :: "(tree_map \<Rightarrow> bool) \<Rightarrow> tree_map \<Rightarrow> bool" where
  "map_wf rb_good tmap \<longleftrightarrow> rb_good tmap \<and> sorted_keys (keys tmap) \<and>
     TREEMAP_INVALID_VAL \<notin> snd ` set (inorder tmap)"

lemma dom_map_abs: "dom (map_abs tmap) = set (keys tmap)"
  by (simp add: map_abs_def keys_def dom_map_of_conv_image_fst)

lemma sorted_keys_distinct: "sorted_keys ks \<Longrightarrow> distinct ks"
  by (induction ks) auto

text \<open>The key list around a node.\<close>

lemma keys_plug:
  "keys (plug (RbNode c l (k, v) r) p) =
     map fst (path_left p @ inorder l) @ k # map fst (inorder r @ path_right p)"
  by (simp add: keys_def)

lemma node_at_Some:
  assumes "sorted_keys (map fst (path_left p @ inorder t @ path_right p))" "(k, v) \<in> set (inorder t)"
  shows "\<exists>c l r q. node_at k t p = Some (RbNode c l (k, v) r, q) \<and>
           plug (RbNode c l (k, v) r) q = plug t p"
  using assms
proof (induction k t p rule: node_at.induct)
  case (2 key c l k' v' r p)
  have ord: "\<forall>y \<in> fst ` set (inorder l). y < k'" "\<forall>y \<in> fst ` set (inorder r). k' < y"
    using "2.prems"(1) by (auto simp: sorted_wrt_append)
  consider "key < k'" "(key, v) \<in> set (inorder l)" | "key > k'" "(key, v) \<in> set (inorder r)"
    | "key = k'" "v = v'"
    using "2.prems"(2) ord by force
  then show ?case
  proof cases
    case 1
    then show ?thesis using "2.IH"(1) "2.prems"(1) by auto
  next
    case 2
    then show ?thesis using "2.IH"(2) "2.prems"(1) by auto
  next
    case 3
    then show ?thesis by auto
  qed
qed simp

lemma node_at_None: "k \<notin> fst ` set (inorder t) \<Longrightarrow> node_at k t p = None"
  by (induction k t p rule: node_at.induct) auto

lemma node_at_root:
  assumes "sorted_keys (keys t)" "k \<in> set (keys t)"
  obtains c l v r q where "node_at k t [] = Some (RbNode c l (k, v) r, q)"
    "plug (RbNode c l (k, v) r) q = t"
  using node_at_Some [of "[]" t k] assms by (fastforce simp: keys_def)

lemma map_first_keys: "map_first t = (case keys t of [] \<Rightarrow> None | k # _ \<Rightarrow> Some k)"
  by (cases "inorder t") (auto simp: map_first_def rb_first_inorder keys_def)

lemma map_last_keys: "map_last t = (if keys t = [] then None else Some (last (keys t)))"
  by (cases "inorder t = []") (auto simp: map_last_def rb_last_inorder keys_def last_map)

text \<open>Neighbours of a node in the tree are the neighbours of its key in the key list.\<close>

lemma map_next_keys:
  assumes "sorted_keys (keys t)" "keys t = ks @ k # ms"
  shows "map_next t (Some k) = (case ms of [] \<Rightarrow> None | m # _ \<Rightarrow> Some m)"
proof -
  have "k \<in> set (keys t)" using assms(2) by simp
  then obtain c l v r q where n: "node_at k t [] = Some (RbNode c l (k, v) r, q)"
      "plug (RbNode c l (k, v) r) q = t"
    by (rule node_at_root [OF assms(1)])
  have "ks @ k # ms = map fst (path_left q @ inorder l) @ k # map fst (inorder r @ path_right q)"
    using assms(2) n(2) keys_plug [of c l k v r q] by simp
  moreover have "distinct (ks @ k # ms)" using assms sorted_keys_distinct by metis
  ultimately have "ms = map fst (inorder r @ path_right q)"
    by (metis append_Cons_eq_iff distinct.simps(2) distinct_append not_distinct_conv_prefix)
  moreover have "map_next t (Some k) = map_option fst
      (if inorder r @ path_right q = [] then None else Some (hd (inorder r @ path_right q)))"
    unfolding map_next_def rb_next_path [symmetric, of r q c l "(k, v)"] using n(1) by simp
  ultimately show ?thesis
    by (cases "inorder r @ path_right q") (simp_all del: map_append append_is_Nil_conv)
qed

lemma map_prev_keys:
  assumes "sorted_keys (keys t)" "keys t = ks @ k # ms"
  shows "map_prev t (Some k) = (if ks = [] then None else Some (last ks))"
proof -
  have "k \<in> set (keys t)" using assms(2) by simp
  then obtain c l v r q where n: "node_at k t [] = Some (RbNode c l (k, v) r, q)"
      "plug (RbNode c l (k, v) r) q = t"
    by (rule node_at_root [OF assms(1)])
  have "ks @ k # ms = map fst (path_left q @ inorder l) @ k # map fst (inorder r @ path_right q)"
    using assms(2) n(2) keys_plug [of c l k v r q] by simp
  moreover have "distinct (ks @ k # ms)" using assms sorted_keys_distinct by metis
  ultimately have "ks = map fst (path_left q @ inorder l)"
    by (metis append_Cons_eq_iff distinct.simps(2) distinct_append not_distinct_conv_prefix)
  moreover have "map_prev t (Some k) = map_option fst
      (if path_left q @ inorder l = [] then None else Some (last (path_left q @ inorder l)))"
    unfolding map_prev_def rb_prev_path [symmetric, of q l c "(k, v)" r] using n(1) by simp
  ultimately show ?thesis
    by (cases "path_left q @ inorder l = []") (simp_all add: last_map del: map_append append_is_Nil_conv)
qed

lemma map_next_None [simp]: "map_next t None = None" "map_prev t None = None"
  by (simp_all add: map_next_def map_prev_def)

lemma keys_simps [simp]: "keys RbNull = []" "keys (RbNode c l (k, v) r) = keys l @ k # keys r"
  by (simp_all add: keys_def)

lemma keys_Nil [simp]: "keys t = [] \<longleftrightarrow> t = RbNull"
  by (simp add: keys_def)

text \<open>The search stops at the key itself, or next to the place where it would be.\<close>

lemma search_last_ok:
  assumes "t \<noteq> RbNull" "sorted_keys (L @ keys t @ R)" "\<forall>x \<in> set L. x < key" "\<forall>x \<in> set R. key < x"
  shows "\<exists>k ks ms. search_last key t z = Some k \<and> L @ keys t @ R = ks @ k # ms \<and>
           (k = key \<or> k < key \<and> (\<forall>m \<in> set ms. key < m) \<or> key < k \<and> (\<forall>m \<in> set ks. m < key))"
  using assms
proof (induction key t z arbitrary: L R rule: search_last.induct)
  case (2 key c l k v r z)
  consider (left) "key < k" | (right) "k < key" | (eq) "key = k" by (rule linorder_cases)
  then show ?case
  proof cases
    case left
    show ?thesis
    proof (cases "l = RbNull")
      case True
      then show ?thesis using left "2.prems" by (intro exI [of _ k] exI [of _ L] exI [of _ "keys r @ R"]) auto
    next
      case False
      have "\<forall>x \<in> set (k # keys r @ R). key < x"
        using left "2.prems"(2,4) by (auto simp: sorted_wrt_append intro: less_trans)
      then show ?thesis using "2.IH"(1) [OF left False, of L "k # keys r @ R"] left "2.prems" by simp
    qed
  next
    case right
    show ?thesis
    proof (cases "r = RbNull")
      case True
      then show ?thesis using right "2.prems" by (intro exI [of _ k] exI [of _ "L @ keys l"] exI [of _ R]) auto
    next
      case False
      have "\<forall>x \<in> set (L @ keys l @ [k]). x < key"
        using right "2.prems"(2,3) by (auto simp: sorted_wrt_append intro: less_trans)
      moreover have nl: "\<not> key < k" using right by simp
      ultimately show ?thesis
        using "2.IH"(2) [OF nl right False, of "L @ keys l @ [k]" R] right "2.prems" by simp
    qed
  next
    case eq
    then show ?thesis by (intro exI [of _ k] exI [of _ "L @ keys l"] exI [of _ "keys r @ R"]) simp
  qed
qed simp

text \<open>The largest key that satisfies a predicate, and the smallest one.\<close>

definition max_key :: "(u64 \<Rightarrow> bool) \<Rightarrow> tree_map \<Rightarrow> node_ptr" where
  "max_key P t = (let ks = filter P (keys t) in if ks = [] then None else Some (last ks))"

definition min_key :: "(u64 \<Rightarrow> bool) \<Rightarrow> tree_map \<Rightarrow> node_ptr" where
  "min_key P t = (let ks = filter P (keys t) in if ks = [] then None else Some (hd ks))"

fun search_spec :: "map_search \<Rightarrow> u64 \<Rightarrow> tree_map \<Rightarrow> node_ptr" where
  "search_spec MAP_SEARCH_EQ key t = (if key \<in> set (keys t) then Some key else None)"
| "search_spec MAP_SEARCH_LT key t = max_key (\<lambda>k. k < key) t"
| "search_spec MAP_SEARCH_LE key t = max_key (\<lambda>k. k \<le> key) t"
| "search_spec MAP_SEARCH_GT key t = min_key (\<lambda>k. key < k) t"
| "search_spec MAP_SEARCH_GE key t = min_key (\<lambda>k. key \<le> k) t"
| "search_spec _ key t = None"

lemma filter_split:
  assumes "keys t = ks @ k # ms"
  shows "filter P (keys t) = filter P ks @ (if P k then [k] else []) @ filter P ms"
  using assms by simp

lemma filters_around:
  assumes "\<forall>m \<in> set ks. m < (k :: u64)" "\<forall>m \<in> set ms. k < m"
    and "k = key \<or> k < key \<and> (\<forall>m \<in> set ms. key < m) \<or> key < k \<and> (\<forall>m \<in> set ks. m < key)"
  shows "filter (\<lambda>x. x < key) (ks @ k # ms) = (if k < key then ks @ [k] else ks)"
    "filter (\<lambda>x. x \<le> key) (ks @ k # ms) = (if k \<le> key then ks @ [k] else ks)"
    "filter (\<lambda>x. key < x) (ks @ k # ms) = (if key < k then k # ms else ms)"
    "filter (\<lambda>x. key \<le> x) (ks @ k # ms) = (if key \<le> k then k # ms else ms)"
proof -
  have "filter (\<lambda>x. x < key) ks = ks" "filter (\<lambda>x. x < key) ms = []"
      "filter (\<lambda>x. x \<le> key) ks = ks" "filter (\<lambda>x. x \<le> key) ms = []"
      "filter (\<lambda>x. key < x) ks = []" "filter (\<lambda>x. key < x) ms = ms"
      "filter (\<lambda>x. key \<le> x) ks = []" "filter (\<lambda>x. key \<le> x) ms = ms"
    using assms by (auto simp: filter_id_conv filter_empty_conv)
  then show "filter (\<lambda>x. x < key) (ks @ k # ms) = (if k < key then ks @ [k] else ks)"
    "filter (\<lambda>x. x \<le> key) (ks @ k # ms) = (if k \<le> key then ks @ [k] else ks)"
    "filter (\<lambda>x. key < x) (ks @ k # ms) = (if key < k then k # ms else ms)"
    "filter (\<lambda>x. key \<le> x) (ks @ k # ms) = (if key \<le> k then k # ms else ms)"
    by simp_all
qed

lemma map_lookup_node_detail_spec:
  assumes "sorted_keys (keys t)"
  shows "map_lookup_node_detail t key flag = search_spec flag key t"
proof (cases "t = RbNull")
  case True
  then show ?thesis
    by (cases flag) (simp_all add: map_lookup_node_detail_def max_key_def min_key_def)
next
  case False
  then obtain k ks ms where k: "search_last key t None = Some k" "keys t = ks @ k # ms"
      "k = key \<or> k < key \<and> (\<forall>m \<in> set ms. key < m) \<or> key < k \<and> (\<forall>m \<in> set ks. m < key)"
    using search_last_ok [of t "[]" "[]" key None] assms by auto
  have ord: "\<forall>m \<in> set ks. m < k" "\<forall>m \<in> set ms. k < m"
    using assms k(2) by (auto simp: sorted_wrt_append)
  note f = filters_around [OF ord k(3)]
  note np = map_next_keys [OF assms k(2)] map_prev_keys [OF assms k(2)]
  have eq: "(key \<in> set (keys t)) = (k = key)"
    using k(2,3) ord by force
  consider "k = key" | "k < key" "k \<le> key" "k \<noteq> key" "\<not> key < k" "\<not> key \<le> k"
    | "key < k" "key \<le> k" "k \<noteq> key" "\<not> k < key" "\<not> k \<le> key"
    by force
  then show ?thesis
  proof cases
    case 1
    then show ?thesis
      using k(1) np f [folded k(2)] eq
      by (cases flag; cases ms) (simp_all add: map_lookup_node_detail_def max_key_def min_key_def)
  next
    case 2
    then show ?thesis
      using k(1) np f [folded k(2)] eq
      by (cases flag; cases ms) (simp_all add: map_lookup_node_detail_def max_key_def min_key_def)
  next
    case 3
    then show ?thesis
      using k(1) np f [folded k(2)] eq
      by (cases flag; cases ms) (simp_all add: map_lookup_node_detail_def max_key_def min_key_def)
  qed
qed

section \<open>Lookup, insertion and deletion\<close>

lemma map_of_middle:
  assumes "k \<notin> fst ` set xs" "k \<notin> fst ` set ys"
  shows "map_of (xs @ (k, v) # ys) = (map_of (xs @ ys))(k \<mapsto> v)"
    "(map_of (xs @ (k, v) # ys))(k := None) = map_of (xs @ ys)"
proof -
  have "map_of xs k = None" "map_of ys k = None"
    using assms by (simp_all add: map_of_eq_None_iff)
  then show "map_of (xs @ (k, v) # ys) = (map_of (xs @ ys))(k \<mapsto> v)"
    "(map_of (xs @ (k, v) # ys))(k := None) = map_of (xs @ ys)"
    by (auto simp: fun_eq_iff Map.map_add_def map_of_append split: option.splits)
qed

lemma node_val_abs:
  assumes "sorted_keys (keys t)"
  shows "node_val t k = (case map_abs t k of Some v \<Rightarrow> v | None \<Rightarrow> TREEMAP_INVALID_VAL)"
proof (cases "k \<in> set (keys t)")
  case True
  then obtain c l v r q where n: "node_at k t [] = Some (RbNode c l (k, v) r, q)"
      "plug (RbNode c l (k, v) r) q = t"
    by (rule node_at_root [OF assms])
  then have "(k, v) \<in> set (inorder t)" by auto
  then have "map_abs t k = Some v"
    using assms by (simp add: map_abs_def keys_def sorted_keys_distinct)
  then show ?thesis using n(1) by (simp add: node_val_def)
next
  case False
  then have "node_at k t [] = None" "map_abs t k = None"
    by (simp_all add: keys_def node_at_None map_abs_def map_of_eq_None_iff)
  then show ?thesis by (simp add: node_val_def)
qed

lemma map_lookup_abs:
  assumes "sorted_keys (keys t)"
  shows "map_lookup t key = (case map_abs t key of Some v \<Rightarrow> v | None \<Rightarrow> TREEMAP_INVALID_VAL)"
proof -
  have "key \<notin> set (keys t) \<Longrightarrow> map_abs t key = None" using dom_map_abs [of t] by auto
  then show ?thesis
    using assms
    by (auto simp: map_lookup_def map_lookup_node_def map_lookup_node_detail_spec node_val_abs)
qed

lemma add_place_None: "add_place key t p = None \<longleftrightarrow> key \<in> set (keys t)"
  if "sorted_keys (keys t)" for t
  using that
proof (induction key t p rule: add_place.induct)
  case (2 key c l k v r p)
  have "key \<in> set (keys r) \<Longrightarrow> k < key" "key \<in> set (keys l) \<Longrightarrow> key < k"
    using "2.prems" by (auto simp: sorted_wrt_append)
  then show ?case using 2 by (auto simp: sorted_wrt_append)
qed simp

lemma add_place_Some:
  assumes "add_place key t p = Some q" "sorted_keys (map fst (path_left p) @ keys t @ map fst (path_right p))"
    and "\<forall>x \<in> fst ` set (path_left p). x < key" "\<forall>x \<in> fst ` set (path_right p). key < x"
  shows "plug RbNull q = plug t p \<and> (\<forall>x \<in> fst ` set (path_left q). x < key) \<and>
         (\<forall>x \<in> fst ` set (path_right q). key < x)"
  using assms
proof (induction key t p rule: add_place.induct)
  case (2 key c l k v r p)
  show ?case
  proof (cases "key < k")
    case True
    then have "\<forall>x \<in> fst ` set (path_right (LeftOf c (k, v) r # p)). key < x"
      using "2.prems" by (auto simp: keys_def sorted_wrt_append intro: less_trans)
    then show ?thesis using "2.IH"(1) [OF True] "2.prems" True by (simp add: keys_def)
  next
    case False
    then have gt: "k < key" using "2.prems"(1) by (auto split: if_splits)
    then have "\<forall>x \<in> fst ` set (path_left (RightOf c l (k, v) # p)). x < key"
      using "2.prems" by (auto simp: keys_def sorted_wrt_append intro: less_trans)
    then show ?thesis using "2.IH"(2) [OF False gt] "2.prems" False gt by (simp add: keys_def)
  qed
qed simp

context rb_contract
begin

lemma map_add_cases:
  assumes wf: "map_wf rb_good t"
  shows "map_add rb_ins t key val ok =
      (if val = TREEMAP_INVALID_VAL then (Some EINVAL, t)
       else if key \<in> set (keys t) then (Some EEXIST, t)
       else if \<not> ok then (Some ENOMEM, t)
       else (None, snd (map_add rb_ins t key val ok)))"
  using wf add_place_None [of t key "[]"]
  by (auto simp: map_add_def map_wf_def split: option.splits)

lemma map_add_ok:
  assumes wf: "map_wf rb_good t" and "key \<notin> set (keys t)" "val \<noteq> TREEMAP_INVALID_VAL"
    and t': "map_add rb_ins t key val True = (None, t')"
  shows "map_wf rb_good t'" "map_abs t' = (map_abs t)(key \<mapsto> val)"
    "set (keys t') = insert key (set (keys t))"
proof -
  have sorted: "sorted_keys (keys t)" and good: "rb_good t" using wf by (auto simp: map_wf_def)
  obtain q where q: "add_place key t [] = Some q"
    using add_place_None [OF sorted, of key "[]"] assms(2) by auto
  note place = add_place_Some [OF q, simplified, OF sorted]
  have t'_def: "t' = rb_ins (rb_link_node (key, val)) q"
    using t' q assms(3) by (simp add: map_add_def)
  have g: "rb_good (plug RbNull q)" using place good by simp
  have io: "inorder t = path_left q @ path_right q" using place inorder_plug [of RbNull q] by simp
  have io': "inorder t' = path_left q @ (key, val) # path_right q"
    using ins_inorder [OF g] t'_def by simp
  have nk: "key \<notin> fst ` set (path_left q)" "key \<notin> fst ` set (path_right q)" using place by auto
  show "map_abs t' = (map_abs t)(key \<mapsto> val)"
    unfolding map_abs_def io io' by (rule map_of_middle(1) [OF nk])
  show "set (keys t') = insert key (set (keys t))" by (auto simp: keys_def io io')
  have "sorted_keys (keys t')"
    using sorted place unfolding keys_def io io' by (auto simp: sorted_wrt_append)
  then show "map_wf rb_good t'"
    using ins_good [OF g] t'_def wf assms(3) io io' by (auto simp: map_wf_def)
qed

lemma erase_node_ok:
  assumes "map_wf rb_good t" "k \<in> set (keys t)"
  shows "map_wf rb_good (erase_node rb_del t k)"
    "map_abs (erase_node rb_del t k) = (map_abs t)(k := None)"
    "keys (erase_node rb_del t k) = filter (\<lambda>x. x \<noteq> k) (keys t)"
proof -
  have sorted: "sorted_keys (keys t)" and good: "rb_good t" using assms(1) by (auto simp: map_wf_def)
  obtain c l v r q where n: "node_at k t [] = Some (RbNode c l (k, v) r, q)"
      "plug (RbNode c l (k, v) r) q = t"
    using assms(2) by (rule node_at_root [OF sorted])
  define L R where "L = path_left q @ inorder l" and "R = inorder r @ path_right q"
  have g: "rb_good (plug (RbNode c l (k, v) r) q)" using good n(2) by simp
  have e: "erase_node rb_del t k = rb_del (RbNode c l (k, v) r) q"
    using n(1) by (simp add: erase_node_def)
  have io: "inorder t = L @ (k, v) # R" using n(2) inorder_plug [of "RbNode c l (k, v) r" q] by (simp add: L_def R_def)
  have io': "inorder (erase_node rb_del t k) = L @ R" using del_inorder [OF g] e by (simp add: L_def R_def)
  have nk: "k \<notin> fst ` set L" "k \<notin> fst ` set R"
    using sorted unfolding keys_def io by (force simp: sorted_wrt_append)+
  show "map_abs (erase_node rb_del t k) = (map_abs t)(k := None)"
    unfolding map_abs_def io io' by (rule map_of_middle(2) [OF nk, symmetric])
  have "filter (\<lambda>x. x \<noteq> k) (map fst L) = map fst L" "filter (\<lambda>x. x \<noteq> k) (map fst R) = map fst R"
    using nk unfolding filter_id_conv set_map by blast+
  then show ks: "keys (erase_node rb_del t k) = filter (\<lambda>x. x \<noteq> k) (keys t)"
    unfolding keys_def io io' by simp
  have "sorted_keys (keys (erase_node rb_del t k))"
    unfolding ks using sorted by (rule sorted_wrt_filter)
  then show "map_wf rb_good (erase_node rb_del t k)"
    using del_good [OF g] e assms(1) io io' by (auto simp: map_wf_def)
qed

lemma map_add_spec:
  assumes "map_wf rb_good t"
  shows "case map_add rb_ins t key val ok of
           (None, t') \<Rightarrow> val \<noteq> TREEMAP_INVALID_VAL \<and> map_abs t key = None \<and> ok \<and> map_wf rb_good t' \<and>
             map_abs t' = (map_abs t)(key \<mapsto> val) \<and>
             (\<forall>k. map_lookup t' k = (if k = key then val else map_lookup t k))
         | (Some e, t') \<Rightarrow> t' = t \<and>
             e = (if val = TREEMAP_INVALID_VAL then EINVAL
                  else if map_abs t key \<noteq> None then EEXIST else ENOMEM) \<and>
             (e = ENOMEM \<longrightarrow> \<not> ok)"
proof -
  have key: "(map_abs t key = None) = (key \<notin> set (keys t))" using dom_map_abs [of t] by blast
  have st: "sorted_keys (keys t)" using assms by (simp add: map_wf_def)
  show ?thesis
  proof (cases "val \<noteq> TREEMAP_INVALID_VAL \<and> key \<notin> set (keys t) \<and> ok")
    case True
    define t' where "t' = snd (map_add rb_ins t key val True)"
    have add: "map_add rb_ins t key val True = (None, t')"
      using map_add_cases [OF assms, of key val True] True t'_def by simp
    note ok = map_add_ok [OF assms _ _ add]
    have "map_wf rb_good t'" "map_abs t' = (map_abs t)(key \<mapsto> val)" using ok True by auto
    then show ?thesis using True add key st by (simp add: map_lookup_abs map_wf_def)
  next
    case False
    then show ?thesis using map_add_cases [OF assms, of key val ok] key by auto
  qed
qed

lemma map_del_spec:
  assumes "map_wf rb_good t"
  shows "let (v, t') = map_del rb_del t key in
           v = (case map_abs t key of Some w \<Rightarrow> w | None \<Rightarrow> TREEMAP_INVALID_VAL) \<and>
           map_wf rb_good t' \<and> map_abs t' = (map_abs t)(key := None)"
proof -
  have st: "sorted_keys (keys t)" using assms by (simp add: map_wf_def)
  have none: "key \<notin> set (keys t) \<Longrightarrow> map_abs t key = None" using dom_map_abs [of t] by blast
  show ?thesis
    using st none erase_node_ok [OF assms, of key] assms
    by (auto simp: map_del_def map_lookup_node_def map_lookup_node_detail_spec node_val_abs
        fun_upd_idem)
qed

lemma map_empty_loop_ok:
  assumes "map_wf rb_good t" "keys t = k # ks"
  shows "map_empty_loop rb_del t (Some k) (case ks of [] \<Rightarrow> None | m # _ \<Rightarrow> Some m) = Some RbNull"
  using assms
proof (induction ks arbitrary: t k)
  case Nil
  let ?t = "erase_node rb_del t k"
  have "keys ?t = []" using erase_node_ok(3) [OF Nil.prems(1), of k] Nil.prems(2) by simp
  then show ?case
    by (subst map_empty_loop.simps) (simp add: Let_def map_empty_loop.simps)
next
  case (Cons m ks)
  let ?t = "erase_node rb_del t k"
  have "sorted_keys (k # m # ks)" using Cons.prems by (simp add: map_wf_def)
  then have "filter (\<lambda>x. x \<noteq> k) (keys t) = m # ks"
    using Cons.prems(2) by (auto simp: filter_id_conv)
  then have t: "keys ?t = m # ks" "map_wf rb_good ?t"
    using erase_node_ok [OF Cons.prems(1), of k] Cons.prems(2) by auto
  have "map_next ?t (Some m) = (case ks of [] \<Rightarrow> None | x # _ \<Rightarrow> Some x)"
    by (rule map_next_keys [of _ "[]"]) (use t in \<open>auto simp: map_wf_def\<close>)
  then show ?case
    using Cons.IH [OF t(2,1)] by (subst map_empty_loop.simps) (simp add: Let_def)
qed

lemma map_empty_ok:
  assumes "map_wf rb_good t"
  shows "map_empty rb_del t = Some RbNull"
proof (cases "keys t")
  case Nil
  then show ?thesis by (simp add: map_empty_def map_first_keys map_empty_loop.simps)
next
  case (Cons k ks)
  then have "map_next t (Some k) = (case ks of [] \<Rightarrow> None | x # _ \<Rightarrow> Some x)"
    by (intro map_next_keys [of _ "[]"]) (use assms in \<open>auto simp: map_wf_def\<close>)
  then show ?thesis
    using map_empty_loop_ok [OF assms Cons] Cons by (simp add: map_empty_def map_first_keys)
qed

end

lemma count_loop_ok:
  assumes "sorted_keys (keys t)" "keys t = xs @ k # ms"
  shows "count_loop t (Some k) n = Some (n + 1 + int (length ms))"
  using assms(2)
proof (induction ms arbitrary: xs k n)
  case Nil
  then show ?case using map_next_keys [OF assms(1) Nil] by (simp add: count_loop.simps)
next
  case (Cons m ms)
  have "count_loop t (Some m) (n + 1) = Some (n + 1 + 1 + int (length ms))"
    by (rule Cons.IH [of "xs @ [k]"]) (use Cons.prems in simp)
  then show ?case
    using map_next_keys [OF assms(1) Cons.prems] by (subst count_loop.simps) simp
qed

lemma map_n_items_ok:
  assumes "sorted_keys (keys t)"
  shows "map_n_items t = Some (int (length (keys t)))"
proof (cases "keys t")
  case Nil
  then show ?thesis by (simp add: map_n_items_def map_first_keys count_loop.simps)
next
  case (Cons k ks)
  then show ?thesis
    using count_loop_ok [OF assms, of "[]" k ks 0] by (simp add: map_n_items_def map_first_keys)
qed

text \<open>
  C39. Searching with each of the search flags finds what its documentation says: the node with
  the key, the biggest key less than (or equal to) it, or the smallest key greater than (or
  equal to) it, and NULL when there is none.
\<close>

theorem map_lookup_node_detail_finds:
  assumes "sorted_keys (keys t)"
  shows "map_lookup_node_detail t key MAP_SEARCH_EQ = (if key \<in> set (keys t) then Some key else None) \<and>
         map_lookup_node_detail t key MAP_SEARCH_LT = max_key (\<lambda>k. k < key) t \<and>
         map_lookup_node_detail t key MAP_SEARCH_LE = max_key (\<lambda>k. k \<le> key) t \<and>
         map_lookup_node_detail t key MAP_SEARCH_GT = min_key (\<lambda>k. key < k) t \<and>
         map_lookup_node_detail t key MAP_SEARCH_GE = min_key (\<lambda>k. key \<le> k) t"
  using assms by (simp add: map_lookup_node_detail_spec)

text \<open>Three nodes, for the witnesses.\<close>

definition demo_map :: tree_map where
  "demo_map = RbNode RB_BLACK (RbNode RB_RED RbNull (10, Val 1) RbNull) (20, Val 2)
     (RbNode RB_RED RbNull (30, Val 3) RbNull)"

lemma demo_map_wf: "map_wf rb_inv demo_map"
  by (simp add: map_wf_def demo_map_def rb_inv_def TREEMAP_INVALID_VAL_def)

lemma demo_map_sorted: "sorted_keys (keys demo_map)"
  using demo_map_wf by (simp add: map_wf_def)

theorem map_lookup_node_detail_finds_witness:
  "map_lookup_node_detail demo_map 25 MAP_SEARCH_EQ = (if 25 \<in> set (keys demo_map) then Some 25 else None) \<and>
   map_lookup_node_detail demo_map 25 MAP_SEARCH_LT = max_key (\<lambda>k. k < 25) demo_map \<and>
   map_lookup_node_detail demo_map 25 MAP_SEARCH_LE = max_key (\<lambda>k. k \<le> 25) demo_map \<and>
   map_lookup_node_detail demo_map 25 MAP_SEARCH_GT = min_key (\<lambda>k. 25 < k) demo_map \<and>
   map_lookup_node_detail demo_map 25 MAP_SEARCH_GE = min_key (\<lambda>k. 25 \<le> k) demo_map"
  by (rule map_lookup_node_detail_finds [OF demo_map_sorted])

text \<open>
  C40. \<^verbatim>\<open>map_add\<close> implements insertion into a finite map, for every rebalancing library that
  keeps its contract: a new key with a valid value is added and nothing else changes; an
  invalid value, an existing key and a failed allocation are reported with the documented
  error and leave the map as it was.  The map stays well formed, and a lookup then returns
  the value.
\<close>

theorem map_add_refines_update:
  assumes "rb_contract rb_ins rb_del rb_good" "map_wf rb_good t"
  shows "case map_add rb_ins t key val ok of
           (None, t') \<Rightarrow> val \<noteq> TREEMAP_INVALID_VAL \<and> map_abs t key = None \<and> ok \<and> map_wf rb_good t' \<and>
             map_abs t' = (map_abs t)(key \<mapsto> val) \<and>
             (\<forall>k. map_lookup t' k = (if k = key then val else map_lookup t k))
         | (Some e, t') \<Rightarrow> t' = t \<and>
             e = (if val = TREEMAP_INVALID_VAL then EINVAL
                  else if map_abs t key \<noteq> None then EEXIST else ENOMEM) \<and>
             (e = ENOMEM \<longrightarrow> \<not> ok)"
  using assms by (rule rb_contract.map_add_spec)

theorem map_add_refines_update_witness:
  "case map_add tool_rb_ins demo_map 25 (Val 9) True of
     (None, t') \<Rightarrow> Val 9 \<noteq> TREEMAP_INVALID_VAL \<and> map_abs demo_map 25 = None \<and> True \<and> map_wf rb_inv t' \<and>
       map_abs t' = (map_abs demo_map)(25 \<mapsto> Val 9) \<and>
       (\<forall>k. map_lookup t' k = (if k = 25 then Val 9 else map_lookup demo_map k))
   | (Some e, t') \<Rightarrow> t' = demo_map \<and>
       e = (if Val 9 = TREEMAP_INVALID_VAL then EINVAL
            else if map_abs demo_map 25 \<noteq> None then EEXIST else ENOMEM) \<and>
       (e = ENOMEM \<longrightarrow> \<not> True)"
  by (rule map_add_refines_update [OF tool_rb.rb_contract_axioms demo_map_wf])

text \<open>
  \<^verbatim>\<open>map_del\<close> returns the value of the key and removes exactly that key; for a key that is
  not there it returns the invalid value and changes nothing.  The map stays well formed.
\<close>

theorem map_del_refines_delete:
  assumes "rb_contract rb_ins rb_del rb_good" "map_wf rb_good t"
  shows "let (v, t') = map_del rb_del t key in
           v = (case map_abs t key of Some w \<Rightarrow> w | None \<Rightarrow> TREEMAP_INVALID_VAL) \<and>
           map_wf rb_good t' \<and> map_abs t' = (map_abs t)(key := None)"
  using assms by (rule rb_contract.map_del_spec)

theorem map_del_refines_delete_witness:
  "let (v, t') = map_del tool_rb_del demo_map 20 in
     v = (case map_abs demo_map 20 of Some w \<Rightarrow> w | None \<Rightarrow> TREEMAP_INVALID_VAL) \<and>
     map_wf rb_inv t' \<and> map_abs t' = (map_abs demo_map)(20 := None)"
  by (rule map_del_refines_delete [OF tool_rb.rb_contract_axioms demo_map_wf])

text \<open>
  \<^verbatim>\<open>map_empty\<close> terminates, although it erases nodes while it walks over the tree, and leaves
  the empty tree; \<^verbatim>\<open>map_n_items\<close> terminates with the number of keys.
\<close>

theorem map_empty_and_count_terminate:
  assumes "rb_contract rb_ins rb_del rb_good" "map_wf rb_good t"
  shows "map_empty rb_del t = Some RbNull \<and> map_n_items t = Some (int (length (keys t)))"
  using rb_contract.map_empty_ok [OF assms] map_n_items_ok [of t] assms(2) by (simp add: map_wf_def)

theorem map_empty_and_count_terminate_witness:
  "map_empty tool_rb_del demo_map = Some RbNull \<and> map_n_items demo_map = Some (int (length (keys demo_map)))"
  by (rule map_empty_and_count_terminate [OF tool_rb.rb_contract_axioms demo_map_wf])

section \<open>Cursors walk over the key sequence\<close>

text \<open>A cursor that points to what it says: its neighbours are those of the key sequence.\<close>

definition hd_opt :: "'a list \<Rightarrow> 'a option" where
  "hd_opt xs = (case xs of [] \<Rightarrow> None | x # _ \<Rightarrow> Some x)"

definition last_opt :: "'a list \<Rightarrow> 'a option" where
  "last_opt xs = (if xs = [] then None else Some (last xs))"

lemma hd_opt_simps [simp]: "hd_opt [] = None" "hd_opt (x # xs) = Some x"
  by (simp_all add: hd_opt_def)

lemma last_opt_simps [simp]: "last_opt [] = None" "last_opt (xs @ [x]) = Some x"
  by (simp_all add: last_opt_def)

text \<open>The cursor is at \<^verbatim>\<open>k\<close>, with \<^verbatim>\<open>xs\<close> before and \<^verbatim>\<open>ms\<close> after it.\<close>

definition cursor_at :: "u64 list \<Rightarrow> u64 \<Rightarrow> u64 list \<Rightarrow> map_cursor \<Rightarrow> bool" where
  "cursor_at xs k ms c \<longleftrightarrow> mc_state c = MAP_CURSOR_DATA \<and> mc_curr c = Some k \<and>
     mc_prev c = last_opt xs \<and> mc_next c = hd_opt ms"

definition cursor_wf :: "tree_map \<Rightarrow> map_cursor \<Rightarrow> bool" where
  "cursor_wf t c \<longleftrightarrow>
     (case mc_state c of
        MAP_CURSOR_BEGIN \<Rightarrow> mc_prev c = None \<and> mc_curr c = None \<and> mc_next c = hd_opt (keys t)
      | MAP_CURSOR_END \<Rightarrow> mc_prev c = last_opt (keys t) \<and> mc_curr c = None \<and> mc_next c = None
      | MAP_CURSOR_DATA \<Rightarrow> (\<exists>xs k ms. keys t = xs @ k # ms \<and> cursor_at xs k ms c)
      | MAP_CURSOR_INVALID \<Rightarrow> mc_prev c = None \<and> mc_curr c = None \<and> mc_next c = None)"

lemma map_next_hd_opt:
  "sorted_keys (keys t) \<Longrightarrow> keys t = xs @ k # ms \<Longrightarrow> map_next t (Some k) = hd_opt ms"
  by (simp add: map_next_keys hd_opt_def)

lemma map_prev_last_opt:
  "sorted_keys (keys t) \<Longrightarrow> keys t = xs @ k # ms \<Longrightarrow> map_prev t (Some k) = last_opt xs"
  by (simp add: map_prev_keys last_opt_def)

lemma cursor_next_begin:
  assumes "sorted_keys (keys t)" "cursor_wf t c" "mc_state c = MAP_CURSOR_BEGIN" "keys t = k # ms"
  shows "fst (map_cursor_next t c)" "cursor_at [] k ms (snd (map_cursor_next t c))"
  using assms map_next_hd_opt [of t "[]" k ms]
  by (auto simp: map_cursor_next_def Let_def cursor_wf_def cursor_at_def)

lemma cursor_next_data:
  assumes "sorted_keys (keys t)" "keys t = xs @ k # m # ms" "cursor_at xs k (m # ms) c"
  shows "fst (map_cursor_next t c)" "cursor_at (xs @ [k]) m ms (snd (map_cursor_next t c))"
  using assms map_next_hd_opt [of t "xs @ [k]" m ms]
  by (auto simp: map_cursor_next_def Let_def cursor_at_def)

lemma cursor_next_last:
  assumes "keys t = xs @ [k]" "cursor_at xs k [] c"
  shows "\<not> fst (map_cursor_next t c)" "cursor_wf t (snd (map_cursor_next t c))"
    "mc_state (snd (map_cursor_next t c)) = MAP_CURSOR_END"
  using assms by (auto simp: map_cursor_next_def Let_def cursor_at_def cursor_wf_def)

lemma cursor_at_wf: "keys t = xs @ k # ms \<Longrightarrow> cursor_at xs k ms c \<Longrightarrow> cursor_wf t c"
  by (auto simp: cursor_wf_def cursor_at_def)

lemma cursor_next_wf:
  assumes "sorted_keys (keys t)" "cursor_wf t c"
  shows "cursor_wf t (snd (map_cursor_next t c))"
proof (cases "mc_state c")
  case MAP_CURSOR_BEGIN
  show ?thesis
  proof (cases "keys t")
    case Nil
    then show ?thesis using assms(2) MAP_CURSOR_BEGIN
      by (auto simp: map_cursor_next_def Let_def cursor_wf_def)
  next
    case (Cons k ms)
    then show ?thesis using cursor_next_begin [OF assms MAP_CURSOR_BEGIN] cursor_at_wf [of t "[]"] by simp
  qed
next
  case MAP_CURSOR_DATA
  then obtain xs k ms where c: "keys t = xs @ k # ms" "cursor_at xs k ms c"
    using assms(2) by (auto simp: cursor_wf_def)
  show ?thesis
  proof (cases ms)
    case Nil
    then show ?thesis using cursor_next_last c by simp
  next
    case (Cons m ms')
    then show ?thesis using cursor_next_data(2) [OF assms(1)] c cursor_at_wf [of t "xs @ [k]" m ms'] by simp
  qed
qed (use assms in \<open>simp_all add: map_cursor_next_def\<close>)

lemma cursor_prev_wf:
  assumes "sorted_keys (keys t)" "cursor_wf t c"
  shows "cursor_wf t (snd (map_cursor_prev t c))"
proof (cases "mc_state c")
  case MAP_CURSOR_END
  show ?thesis
  proof (cases "keys t" rule: rev_cases)
    case Nil
    then show ?thesis using assms(2) MAP_CURSOR_END
      by (auto simp: map_cursor_prev_def Let_def cursor_wf_def)
  next
    case (snoc xs k)
    then have "cursor_at xs k [] (snd (map_cursor_prev t c))"
      using assms MAP_CURSOR_END map_prev_last_opt [OF assms(1), of xs k "[]"]
      by (auto simp: map_cursor_prev_def Let_def cursor_wf_def cursor_at_def)
    then show ?thesis using snoc cursor_at_wf [of t xs k "[]"] by simp
  qed
next
  case MAP_CURSOR_DATA
  then obtain xs k ms where c: "keys t = xs @ k # ms" "cursor_at xs k ms c"
    using assms(2) by (auto simp: cursor_wf_def)
  show ?thesis
  proof (cases xs rule: rev_cases)
    case Nil
    then show ?thesis using c by (auto simp: map_cursor_prev_def Let_def cursor_wf_def cursor_at_def)
  next
    case (snoc ys y)
    then have "cursor_at ys y (k # ms) (snd (map_cursor_prev t c))"
      using c map_prev_last_opt [OF assms(1), of ys y "k # ms"]
      by (auto simp: map_cursor_prev_def Let_def cursor_at_def)
    then show ?thesis using c snoc cursor_at_wf [of t ys y "k # ms"] by simp
  qed
qed (use assms in \<open>simp_all add: map_cursor_prev_def\<close>)

lemma search_spec_keys: "search_spec flag key t = Some k \<Longrightarrow> k \<in> set (keys t)"
  by (cases flag)
     (auto simp: max_key_def min_key_def Let_def split: if_splits
        dest: last_in_set [of "filter _ (keys t)"] hd_in_set [of "filter _ (keys t)"])

lemma cursor_search_wf:
  assumes "sorted_keys (keys t)"
  shows "cursor_wf t (snd (map_cursor_search t c key flag))"
    "fst (map_cursor_search t c key flag) = (flag = MAP_SEARCH_BEGIN \<or> flag = MAP_SEARCH_END \<or>
       search_spec flag key t \<noteq> None)"
proof -
  have data: "cursor_wf t (c\<lparr>mc_curr := Some k, mc_state := MAP_CURSOR_DATA,
      mc_prev := map_prev t (Some k), mc_next := map_next t (Some k)\<rparr>)" if "k \<in> set (keys t)" for k
  proof -
    obtain xs ms where ks: "keys t = xs @ k # ms" using split_list [OF \<open>k \<in> set (keys t)\<close>] by auto
    show ?thesis
      by (rule cursor_at_wf [OF ks])
         (simp add: cursor_at_def map_next_hd_opt [OF assms ks] map_prev_last_opt [OF assms ks])
  qed
  show "cursor_wf t (snd (map_cursor_search t c key flag))"
    using data
    by (auto simp: map_cursor_search_def Let_def map_cursor_begin_def map_cursor_end_def cursor_wf_def
        make_map_cursor_invalid_def map_lookup_node_detail_spec [OF assms] hd_opt_def last_opt_def
        map_first_keys map_last_keys dest!: search_spec_keys split: option.split)
  show "fst (map_cursor_search t c key flag) = (flag = MAP_SEARCH_BEGIN \<or> flag = MAP_SEARCH_END \<or>
       search_spec flag key t \<noteq> None)"
    by (auto simp: map_cursor_search_def Let_def map_cursor_begin_def map_cursor_end_def
        make_map_cursor_invalid_def map_lookup_node_detail_spec [OF assms] split: option.split)
qed

text \<open>The keys a cursor visits in \<^verbatim>\<open>n\<close> calls of \<^verbatim>\<open>map_cursor_next\<close>, and where it is then.\<close>

fun cursor_walk :: "tree_map \<Rightarrow> nat \<Rightarrow> map_cursor \<Rightarrow> u64 list \<times> map_cursor" where
  "cursor_walk t 0 c = ([], c)"
| "cursor_walk t (Suc n) c =
     (let (found, c1) = map_cursor_next t c in
      if found then (let (ks, c2) = cursor_walk t n c1 in (map_cursor_key c1 # ks, c2)) else ([], c1))"

lemma cursor_walk_data:
  assumes "sorted_keys (keys t)" "keys t = xs @ k # ms" "cursor_at xs k ms c" "length ms < n"
  shows "\<exists>c'. cursor_walk t n c = (ms, c') \<and> mc_state c' = MAP_CURSOR_END"
  using assms(2-)
proof (induction ms arbitrary: xs k c n)
  case Nil
  then obtain n' where "n = Suc n'" by (cases n) auto
  moreover obtain c1 where "map_cursor_next t c = (False, c1)" "mc_state c1 = MAP_CURSOR_END"
    using cursor_next_last [OF Nil.prems(1,2)] by (metis prod.collapse)
  ultimately show ?case by simp
next
  case (Cons m ms)
  then obtain n' where n: "n = Suc n'" by (cases n) auto
  obtain c1 where c1: "map_cursor_next t c = (True, c1)" "cursor_at (xs @ [k]) m ms c1"
    using cursor_next_data [OF assms(1) Cons.prems(1,2)] by (metis (full_types) prod.collapse)
  have "\<exists>c'. cursor_walk t n' c1 = (ms, c') \<and> mc_state c' = MAP_CURSOR_END"
    by (rule Cons.IH [of "xs @ [k]" m c1 n']) (use Cons.prems n c1 in auto)
  moreover have "map_cursor_key c1 = m" using c1(2) by (simp add: cursor_at_def map_cursor_key_def)
  ultimately show ?case using n c1(1) by auto
qed

text \<open>
  Walking a cursor forward from the beginning visits every key of the map exactly once, in
  increasing order, and then stands at the end.
\<close>

theorem map_cursor_walk_keys:
  assumes "sorted_keys (keys t)" "length (keys t) < n"
  shows "\<exists>c'. cursor_walk t n (map_cursor_begin t c) = (keys t, c') \<and> map_cursor_is_end c'"
proof (cases "keys t")
  case Nil
  then obtain n' where "n = Suc n'" using assms(2) by (cases n) auto
  with Nil show ?thesis
    by (simp add: map_cursor_begin_def map_first_keys map_cursor_next_def Let_def map_cursor_is_end_def)
next
  case (Cons k ms)
  let ?c = "map_cursor_begin t c"
  have wf: "cursor_wf t ?c" "mc_state ?c = MAP_CURSOR_BEGIN"
    by (simp_all add: map_cursor_begin_def cursor_wf_def map_first_keys hd_opt_def)
  obtain c1 where c1: "map_cursor_next t ?c = (True, c1)" "cursor_at [] k ms c1"
    using cursor_next_begin [OF assms(1) wf Cons] by (metis (full_types) prod.collapse)
  obtain n' where n: "n = Suc n'" using assms(2) by (cases n) auto
  have "\<exists>c'. cursor_walk t n' c1 = (ms, c') \<and> mc_state c' = MAP_CURSOR_END"
    by (rule cursor_walk_data [OF assms(1), of "[]" k]) (use c1 Cons n assms(2) in auto)
  moreover have "map_cursor_key c1 = k" using c1(2) by (simp add: cursor_at_def map_cursor_key_def)
  ultimately show ?thesis using n c1(1) Cons by (auto simp: map_cursor_is_end_def)
qed

theorem map_cursor_walk_keys_witness:
  "\<exists>c'. cursor_walk demo_map 4 (map_cursor_begin demo_map map_cursor_init) = (keys demo_map, c') \<and>
     map_cursor_is_end c'"
  by (rule map_cursor_walk_keys [OF demo_map_sorted]) (simp add: demo_map_def)

text \<open>
  Every cursor operation keeps the cursor consistent with its map: after a search, a step in
  either direction or a reset, its state and its three pointers are those of a position in the
  key sequence, and the cursor passes \<^verbatim>\<open>map_cursor_is_valid\<close>.
\<close>

theorem map_cursor_ops_keep_wf:
  assumes "sorted_keys (keys t)" "cursor_wf t c"
  shows "cursor_wf t (map_cursor_begin t c) \<and> cursor_wf t (map_cursor_end t c) \<and>
         cursor_wf t (snd (map_cursor_search t c key flag)) \<and>
         cursor_wf t (snd (map_cursor_next t c)) \<and> cursor_wf t (snd (map_cursor_prev t c)) \<and>
         map_cursor_is_valid c"
proof -
  have "map_cursor_is_valid c"
    using assms(2)
    by (auto simp: map_cursor_is_valid_def is_valid_map_cursor_def cursor_wf_def cursor_at_def
        split: map_cursor_state.splits)
  moreover have "cursor_wf t (map_cursor_begin t c) \<and> cursor_wf t (map_cursor_end t c)"
    by (simp add: cursor_wf_def map_cursor_begin_def map_cursor_end_def map_first_keys map_last_keys
        hd_opt_def last_opt_def)
  ultimately show ?thesis
    using cursor_search_wf(1) cursor_next_wf cursor_prev_wf assms by simp
qed

theorem map_cursor_ops_keep_wf_witness:
  "let c = map_cursor_begin demo_map map_cursor_init in
   cursor_wf demo_map (map_cursor_begin demo_map c) \<and> cursor_wf demo_map (map_cursor_end demo_map c) \<and>
   cursor_wf demo_map (snd (map_cursor_search demo_map c 25 MAP_SEARCH_GE)) \<and>
   cursor_wf demo_map (snd (map_cursor_next demo_map c)) \<and>
   cursor_wf demo_map (snd (map_cursor_prev demo_map c)) \<and> map_cursor_is_valid c"
  unfolding Let_def
  by (rule map_cursor_ops_keep_wf [OF demo_map_sorted])
     (simp add: cursor_wf_def map_cursor_begin_def map_first_keys hd_opt_def)

context rb_contract
begin

lemma map_cursor_del_spec:
  assumes wf: "map_wf rb_good t" and c: "keys t = xs @ k # ms" "cursor_at xs k ms c"
  shows "\<exists>t' c'. map_cursor_del rb_del t c = (True, t', c') \<and> map_wf rb_good t' \<and>
           map_abs t' = (map_abs t)(k := None) \<and> keys t' = xs @ ms \<and> cursor_wf t' c' \<and>
           (case ms of [] \<Rightarrow> map_cursor_is_end c' | m # ms' \<Rightarrow> cursor_at xs m ms' c')"
proof -
  have sorted: "sorted_keys (keys t)" using wf by (simp add: map_wf_def)
  let ?t = "erase_node rb_del t k"
  define c' where "c' = (snd (map_cursor_next t c))\<lparr>mc_prev := mc_prev c\<rparr>"
  have del: "map_cursor_del rb_del t c = (True, ?t, c')"
    using c(2) by (simp add: map_cursor_del_def Let_def cursor_at_def c'_def)
  have k: "k \<in> set (keys t)" using c(1) by simp
  note er = erase_node_ok [OF wf k]
  have "k \<notin> set xs" "k \<notin> set ms" using sorted_keys_distinct [OF sorted] c(1) by auto
  then have "filter (\<lambda>x. x \<noteq> k) xs = xs" "filter (\<lambda>x. x \<noteq> k) ms = ms"
    by (auto simp: filter_id_conv)
  then have ks: "keys ?t = xs @ ms" using er(3) c(1) by simp
  have at: "case ms of [] \<Rightarrow> map_cursor_is_end c' \<and> cursor_wf ?t c' | m # ms' \<Rightarrow> cursor_at xs m ms' c'"
  proof (cases ms)
    case Nil
    then show ?thesis using c ks
      by (auto simp: c'_def map_cursor_next_def Let_def cursor_at_def cursor_wf_def map_cursor_is_end_def)
  next
    case (Cons m ms')
    then have "cursor_at (xs @ [k]) m ms' (snd (map_cursor_next t c))"
      using cursor_next_data(2) [OF sorted] c by simp
    then show ?thesis using Cons c(2) by (simp add: cursor_at_def c'_def)
  qed
  have "cursor_wf ?t c'"
    using at ks cursor_at_wf [of ?t xs] by (cases ms) auto
  then show ?thesis using del er(1,2) ks at by (auto split: list.splits)
qed

end

text \<open>
  Deleting at a cursor removes exactly the pair the cursor points to, keeps the map well
  formed, and leaves the cursor consistent with the smaller map: at the next key, with the old
  predecessor as its previous one, or at the end when there is no next key.
\<close>

theorem map_cursor_del_moves_on:
  assumes "rb_contract rb_ins rb_del rb_good" "map_wf rb_good t"
    and "keys t = xs @ k # ms" "cursor_at xs k ms c"
  shows "\<exists>t' c'. map_cursor_del rb_del t c = (True, t', c') \<and> map_wf rb_good t' \<and>
           map_abs t' = (map_abs t)(k := None) \<and> keys t' = xs @ ms \<and> cursor_wf t' c' \<and>
           (case ms of [] \<Rightarrow> map_cursor_is_end c' | m # ms' \<Rightarrow> cursor_at xs m ms' c')"
  using assms by (rule rb_contract.map_cursor_del_spec)

theorem map_cursor_del_moves_on_witness:
  "\<exists>t' c'. map_cursor_del tool_rb_del demo_map
       \<lparr>mc_state = MAP_CURSOR_DATA, mc_prev = Some 10, mc_curr = Some 20, mc_next = Some 30\<rparr> = (True, t', c') \<and>
     map_wf rb_inv t' \<and> map_abs t' = (map_abs demo_map)(20 := None) \<and> keys t' = [10] @ [30] \<and>
     cursor_wf t' c' \<and> (case [30] of [] \<Rightarrow> map_cursor_is_end c' | m # ms' \<Rightarrow> cursor_at [10] m ms' c')"
  by (rule map_cursor_del_moves_on [OF tool_rb.rb_contract_axioms demo_map_wf])
     (simp_all add: demo_map_def cursor_at_def last_opt_def)

end
