(* ===== verification/Walb_Multimap.thy ===== *)
theory Walb_Multimap
  imports Walb_Treemap
begin

text \<open>
  The multimap of \<^verbatim>\<open>module/treemap.c\<close> and its cursors: a tree map whose values are cell heads,
  each with the list of the values of one key.  The driver keeps pending and overlapped IOs in
  multimaps from block addresses to bio wrappers.  A cell of a head is identified by its value,
  which is unique in the list; a pointer to a cell head by the key of its node.  The list of a
  head is changed through the pointer the node holds, so changing it replaces the value of the
  node and leaves the tree as it is.
\<close>

section \<open>Cells\<close>

definition INVALID_VAL :: ulong where "INVALID_VAL = - 1"

text \<open>The cells of the head a node points to.\<close>

definition cells_at :: "tree_map \<Rightarrow> u64 \<Rightarrow> ulong list" where
  "cells_at tmap k = (case node_val tmap k of CellHead h \<Rightarrow> tch_cells h | Val _ \<Rightarrow> [])"

text \<open>Changing the cells of the head a node points to.\<close>

definition set_cells :: "tree_map \<Rightarrow> u64 \<Rightarrow> ulong list \<Rightarrow> tree_map" where
  "set_cells tmap k cs =
     (case node_at k tmap [] of
        Some (RbNode c l (k', CellHead h) r, p) \<Rightarrow> plug (RbNode c l (k', CellHead (h\<lparr>tch_cells := cs\<rparr>)) r) p
      | _ \<Rightarrow> tmap)"

definition hlist_len :: "'a list \<Rightarrow> int" where
  "hlist_len xs = int (length xs)"

definition hlist_prev :: "'a list \<Rightarrow> 'a \<Rightarrow> 'a option" where
  "hlist_prev xs x = (if xs \<noteq> [] \<and> hd xs = x then None else prev_of xs x)"

definition get_tree_cell_begin :: "tree_map \<Rightarrow> u64 option \<Rightarrow> ulong option" where
  "get_tree_cell_begin tmap head = Option.bind head (\<lambda>k. hd_opt (cells_at tmap k))"

definition get_tree_cell_end :: "tree_map \<Rightarrow> u64 option \<Rightarrow> ulong option" where
  "get_tree_cell_end tmap head = Option.bind head (\<lambda>k. last_opt (cells_at tmap k))"

definition get_tree_cell_next :: "tree_map \<Rightarrow> u64 option \<Rightarrow> ulong option \<Rightarrow> ulong option" where
  "get_tree_cell_next tmap head cell =
     Option.bind head (\<lambda>k. Option.bind cell (\<lambda>v. next_of (cells_at tmap k) v))"

definition get_tree_cell_prev :: "tree_map \<Rightarrow> u64 option \<Rightarrow> ulong option \<Rightarrow> ulong option" where
  "get_tree_cell_prev tmap head cell =
     Option.bind head (\<lambda>k. Option.bind cell (\<lambda>v. hlist_prev (cells_at tmap k) v))"

section \<open>Multimap operations\<close>

definition multimap_init :: tree_map where
  "multimap_init = RbNull"

definition multimap_create :: "bool \<Rightarrow> tree_map option" where
  "multimap_create kmalloc_ok = (if kmalloc_ok then Some multimap_init else None)"

definition multimap_add_newkey ::
    "rb_op \<Rightarrow> tree_map \<Rightarrow> u64 \<Rightarrow> ulong \<Rightarrow> bool \<Rightarrow> bool \<Rightarrow> treemap_error option \<times> tree_map" where
  "multimap_add_newkey rb_ins tmap key val head_ok node_ok =
     (if \<not> head_ok then (Some ENOMEM, tmap)
      else map_add rb_ins tmap key (CellHead \<lparr>tch_key = key, tch_cells = [val]\<rparr>) node_ok)"

definition multimap_add_oldkey :: "tree_map \<Rightarrow> u64 \<Rightarrow> ulong \<Rightarrow> treemap_error option \<times> tree_map" where
  "multimap_add_oldkey tmap k val =
     (if val \<in> set (cells_at tmap k) then (Some EEXIST, tmap)
      else (None, set_cells tmap k (val # cells_at tmap k)))"

text \<open>The three allocations: the cell, the cell head and the tree node.\<close>

record treemap_allocs =
  cell_ok :: bool
  head_ok :: bool
  node_ok :: bool

definition multimap_add ::
    "rb_op \<Rightarrow> tree_map \<Rightarrow> u64 \<Rightarrow> ulong \<Rightarrow> treemap_allocs \<Rightarrow> treemap_error option \<times> tree_map" where
  "multimap_add rb_ins tmap key val al =
     (if val = INVALID_VAL then (Some EINVAL, tmap)
      else if \<not> cell_ok al then (Some ENOMEM, tmap)
      else
        (case map_lookup_node tmap key of
           Some k \<Rightarrow> multimap_add_oldkey tmap k val
         | None \<Rightarrow> multimap_add_newkey rb_ins tmap key val (head_ok al) (node_ok al)))"

definition multimap_lookup :: "tree_map \<Rightarrow> u64 \<Rightarrow> tree_cell_head option" where
  "multimap_lookup tmap key =
     (case map_lookup_node tmap key of
        None \<Rightarrow> None
      | Some k \<Rightarrow> (case node_val tmap k of CellHead h \<Rightarrow> Some h | Val _ \<Rightarrow> None))"

definition multimap_lookup_any :: "tree_map \<Rightarrow> u64 \<Rightarrow> ulong" where
  "multimap_lookup_any tmap key =
     (case multimap_lookup tmap key of
        None \<Rightarrow> INVALID_VAL
      | Some h \<Rightarrow> (case tch_cells h of v # _ \<Rightarrow> v | [] \<Rightarrow> INVALID_VAL))"

definition multimap_lookup_n :: "tree_map \<Rightarrow> u64 \<Rightarrow> int" where
  "multimap_lookup_n tmap key =
     (case multimap_lookup tmap key of None \<Rightarrow> 0 | Some h \<Rightarrow> hlist_len (tch_cells h))"

text \<open>The loop of \<^verbatim>\<open>multimap_del\<close> unlinks every cell with the value; it returns the last one.\<close>

definition multimap_del :: "rb_op \<Rightarrow> tree_map \<Rightarrow> u64 \<Rightarrow> ulong \<Rightarrow> ulong \<times> tree_map" where
  "multimap_del rb_del tmap key val =
     (case map_lookup_node tmap key of
        None \<Rightarrow> (INVALID_VAL, tmap)
      | Some k \<Rightarrow>
          (let cs = cells_at tmap k; cs' = filter (\<lambda>v. v \<noteq> val) cs;
               retval = (if val \<in> set cs then val else INVALID_VAL);
               tmap1 = set_cells tmap k cs' in
           if cs' = [] then (retval, snd (map_del rb_del tmap1 key)) else (retval, tmap1)))"

definition multimap_del_key :: "rb_op \<Rightarrow> tree_map \<Rightarrow> u64 \<Rightarrow> int \<times> tree_map" where
  "multimap_del_key rb_del tmap key =
     (case map_del rb_del tmap key of
        (CellHead h, tmap') \<Rightarrow> (hlist_len (tch_cells h), tmap')
      | (Val _, tmap') \<Rightarrow> (0, tmap'))"

text \<open>\<^verbatim>\<open>multimap_empty\<close> walks like \<^verbatim>\<open>map_empty\<close> and frees the cells of every node on its way.\<close>

definition multimap_empty :: "rb_op \<Rightarrow> tree_map \<Rightarrow> tree_map option" where
  "multimap_empty rb_del tmap =
     (let node = map_first tmap in map_empty_loop rb_del tmap node (map_next tmap node))"

definition multimap_is_empty :: "tree_map \<Rightarrow> bool" where
  "multimap_is_empty tmap = map_is_empty tmap"

partial_function (option) n_items_loop :: "tree_map \<Rightarrow> node_ptr \<Rightarrow> int \<Rightarrow> int option" where
  "n_items_loop tmap node cnt =
     (case node of
        None \<Rightarrow> Some cnt
      | Some k \<Rightarrow> n_items_loop tmap (map_next tmap (Some k)) (cnt + hlist_len (cells_at tmap k)))"

definition multimap_n_items :: "tree_map \<Rightarrow> int option" where
  "multimap_n_items tmap = n_items_loop tmap (map_first tmap) 0"

section \<open>Multimap cursors\<close>

record multimap_cursor =
  mm_curt :: map_cursor
  mm_head :: "u64 option"
  mm_cell :: "ulong option"

definition is_valid_multimap_cursor :: "multimap_cursor \<Rightarrow> bool" where
  "is_valid_multimap_cursor cursor =
     (let cur = mm_curt cursor in
      is_valid_map_cursor cur \<and>
      ((mc_state cur = MAP_CURSOR_BEGIN \<and> mm_head cursor = None \<and> mm_cell cursor = None) \<or>
       (mc_state cur = MAP_CURSOR_END \<and> mm_head cursor = None \<and> mm_cell cursor = None) \<or>
       (mc_state cur = MAP_CURSOR_DATA \<and> mm_head cursor \<noteq> None \<and> mm_cell cursor \<noteq> None) \<or>
       mc_state cur = MAP_CURSOR_INVALID))"

definition multimap_cursor_init :: multimap_cursor where
  "multimap_cursor_init = \<lparr>mm_curt = map_cursor_init, mm_head = None, mm_cell = None\<rparr>"

text \<open>\<^verbatim>\<open>map_cursor_val\<close> read as a pointer to a cell head: the node the cursor is at.\<close>

definition cursor_head :: "map_cursor \<Rightarrow> u64 option" where
  "cursor_head cur = (if mc_state cur = MAP_CURSOR_DATA then mc_curr cur else None)"

definition multimap_cursor_search ::
    "tree_map \<Rightarrow> multimap_cursor \<Rightarrow> u64 \<Rightarrow> map_search \<Rightarrow> bool \<Rightarrow> bool \<times> multimap_cursor" where
  "multimap_cursor_search tmap cursor key search_flag is_end =
     (let (found, cur) = map_cursor_search tmap (mm_curt cursor) key search_flag in
      if \<not> found then (False, cursor\<lparr>mm_curt := cur\<rparr>)
      else if search_flag = MAP_SEARCH_BEGIN \<or> search_flag = MAP_SEARCH_END then
        (True, cursor\<lparr>mm_curt := cur, mm_head := None, mm_cell := None\<rparr>)
      else
        (let head = cursor_head cur in
         (True, cursor\<lparr>mm_curt := cur, mm_head := head,
            mm_cell := (if is_end then get_tree_cell_end tmap head else get_tree_cell_begin tmap head)\<rparr>)))"

text \<open>Stepping to the next, or the previous, node of the tree.\<close>

definition next_node :: "tree_map \<Rightarrow> multimap_cursor \<Rightarrow> multimap_cursor" where
  "next_node tmap cursor =
     (let (found, cur) = map_cursor_next tmap (mm_curt cursor) in
      if found then
        (let head = cursor_head cur in
         cursor\<lparr>mm_curt := cur, mm_head := head, mm_cell := get_tree_cell_begin tmap head\<rparr>)
      else cursor\<lparr>mm_curt := cur, mm_head := None, mm_cell := None\<rparr>)"

definition prev_node :: "tree_map \<Rightarrow> multimap_cursor \<Rightarrow> multimap_cursor" where
  "prev_node tmap cursor =
     (let (found, cur) = map_cursor_prev tmap (mm_curt cursor) in
      if found then
        (let head = cursor_head cur in
         cursor\<lparr>mm_curt := cur, mm_head := head, mm_cell := get_tree_cell_end tmap head\<rparr>)
      else cursor\<lparr>mm_curt := cur, mm_head := None, mm_cell := None\<rparr>)"

definition multimap_cursor_next :: "tree_map \<Rightarrow> multimap_cursor \<Rightarrow> bool \<times> multimap_cursor" where
  "multimap_cursor_next tmap cursor =
     (let cursor' =
        (case mc_state (mm_curt cursor) of
           MAP_CURSOR_BEGIN \<Rightarrow> next_node tmap cursor
         | MAP_CURSOR_DATA \<Rightarrow>
             (case get_tree_cell_next tmap (mm_head cursor) (mm_cell cursor) of
                Some v \<Rightarrow> cursor\<lparr>mm_cell := Some v\<rparr>
              | None \<Rightarrow> next_node tmap cursor)
         | MAP_CURSOR_END \<Rightarrow> cursor
         | MAP_CURSOR_INVALID \<Rightarrow> cursor)
      in (mc_state (mm_curt cursor') = MAP_CURSOR_DATA, cursor'))"

definition multimap_cursor_prev :: "tree_map \<Rightarrow> multimap_cursor \<Rightarrow> bool \<times> multimap_cursor" where
  "multimap_cursor_prev tmap cursor =
     (let cursor' =
        (case mc_state (mm_curt cursor) of
           MAP_CURSOR_END \<Rightarrow> prev_node tmap cursor
         | MAP_CURSOR_DATA \<Rightarrow>
             (case get_tree_cell_prev tmap (mm_head cursor) (mm_cell cursor) of
                Some v \<Rightarrow> cursor\<lparr>mm_cell := Some v\<rparr>
              | None \<Rightarrow> prev_node tmap cursor)
         | MAP_CURSOR_BEGIN \<Rightarrow> cursor
         | MAP_CURSOR_INVALID \<Rightarrow> cursor)
      in (mc_state (mm_curt cursor') = MAP_CURSOR_DATA, cursor'))"

definition multimap_cursor_begin :: "tree_map \<Rightarrow> multimap_cursor \<Rightarrow> multimap_cursor" where
  "multimap_cursor_begin tmap cursor =
     cursor\<lparr>mm_curt := map_cursor_begin tmap (mm_curt cursor), mm_head := None, mm_cell := None\<rparr>"

definition multimap_cursor_end :: "tree_map \<Rightarrow> multimap_cursor \<Rightarrow> multimap_cursor" where
  "multimap_cursor_end tmap cursor =
     cursor\<lparr>mm_curt := map_cursor_end tmap (mm_curt cursor), mm_head := None, mm_cell := None\<rparr>"

definition multimap_cursor_is_begin :: "multimap_cursor \<Rightarrow> bool" where
  "multimap_cursor_is_begin cursor = map_cursor_is_begin (mm_curt cursor)"

definition multimap_cursor_is_end :: "multimap_cursor \<Rightarrow> bool" where
  "multimap_cursor_is_end cursor = map_cursor_is_end (mm_curt cursor)"

definition multimap_cursor_is_data :: "multimap_cursor \<Rightarrow> bool" where
  "multimap_cursor_is_data cursor = map_cursor_is_data (mm_curt cursor)"

definition multimap_cursor_is_valid :: "multimap_cursor \<Rightarrow> bool" where
  "multimap_cursor_is_valid cursor = is_valid_multimap_cursor cursor"

definition multimap_cursor_copy :: "multimap_cursor \<Rightarrow> multimap_cursor \<Rightarrow> multimap_cursor" where
  "multimap_cursor_copy dst src =
     dst\<lparr>mm_curt := map_cursor_copy (mm_curt dst) (mm_curt src), mm_head := mm_head src,
         mm_cell := mm_cell src\<rparr>"

definition multimap_cursor_val :: "multimap_cursor \<Rightarrow> ulong" where
  "multimap_cursor_val cursor =
     (if mc_state (mm_curt cursor) \<noteq> MAP_CURSOR_DATA then INVALID_VAL
      else case mm_cell cursor of Some v \<Rightarrow> v | None \<Rightarrow> INVALID_VAL)"

definition multimap_cursor_key :: "tree_map \<Rightarrow> multimap_cursor \<Rightarrow> u64" where
  "multimap_cursor_key tmap cursor =
     (if mc_state (mm_curt cursor) \<noteq> MAP_CURSOR_DATA then TREEMAP_INVALID_KEY
      else
        (case mm_head cursor of
           None \<Rightarrow> TREEMAP_INVALID_KEY
         | Some k \<Rightarrow> (case node_val tmap k of CellHead h \<Rightarrow> tch_key h | Val _ \<Rightarrow> TREEMAP_INVALID_KEY)))"

definition multimap_cursor_del :: "rb_op \<Rightarrow> tree_map \<Rightarrow> multimap_cursor \<Rightarrow> bool \<times> tree_map \<times> multimap_cursor" where
  "multimap_cursor_del rb_del tmap cursor =
     (if mc_state (mm_curt cursor) \<noteq> MAP_CURSOR_DATA then (False, tmap, cursor)
      else
        (case mm_head cursor of
           None \<Rightarrow> (False, tmap, cursor)
         | Some k \<Rightarrow>
             (let len = hlist_len (cells_at tmap k);
                  cur = multimap_cursor_copy cursor cursor;
                  cursor1 = snd (multimap_cursor_next tmap cursor) in
              if len = 1 then
                (let (_, tmap', curt) = map_cursor_del rb_del tmap (mm_curt cur) in
                 (True, tmap', cursor1\<lparr>mm_curt := map_cursor_copy (mm_curt cursor1) curt\<rparr>))
              else
                (True,
                 (case mm_cell cur of
                    Some v \<Rightarrow> set_cells tmap k (remove1 v (cells_at tmap k))
                  | None \<Rightarrow> tmap),
                 cursor1))))"

section \<open>The multimap as a function to value lists\<close>

text \<open>
  Abstractly a multimap gives every key the list of its values.  It is well formed when it is a
  well-formed map of cell heads that carry their own key, each with a non-empty list of distinct
  valid values.
\<close>

definition good_head :: "u64 \<Rightarrow> tree_val \<Rightarrow> bool" where
  "good_head k v \<longleftrightarrow> (\<exists>h. v = CellHead h \<and> tch_key h = k \<and> tch_cells h \<noteq> [] \<and>
     distinct (tch_cells h) \<and> INVALID_VAL \<notin> set (tch_cells h))"

definition multimap_wf :: "(tree_map \<Rightarrow> bool) \<Rightarrow> tree_map \<Rightarrow> bool" where
  "multimap_wf rb_good t \<longleftrightarrow> map_wf rb_good t \<and> (\<forall>k v. map_abs t k = Some v \<longrightarrow> good_head k v)"

lemma multimap_wf_sorted [simp]: "multimap_wf rb_good t \<Longrightarrow> sorted_keys (keys t)"
  by (simp add: multimap_wf_def map_wf_def)

lemma cells_at_abs:
  assumes "sorted_keys (keys t)"
  shows "cells_at t k = (case map_abs t k of Some (CellHead h) \<Rightarrow> tch_cells h | _ \<Rightarrow> [])"
  by (auto simp: cells_at_def node_val_abs [OF assms] TREEMAP_INVALID_VAL_def
      split: option.splits tree_val.splits)

lemma map_abs_None: "map_abs t k = None \<longleftrightarrow> k \<notin> set (keys t)"
  using dom_map_abs [of t] by blast

lemma multimap_wf_head:
  assumes "multimap_wf rb_good t" "k \<in> set (keys t)"
  shows "map_abs t k = Some (CellHead \<lparr>tch_key = k, tch_cells = cells_at t k\<rparr>)"
    "cells_at t k \<noteq> []" "distinct (cells_at t k)" "INVALID_VAL \<notin> set (cells_at t k)"
proof -
  obtain v where v: "map_abs t k = Some v" using assms(2) map_abs_None [of t k] by fastforce
  then have "good_head k v" using assms(1) by (simp add: multimap_wf_def)
  then obtain h where h: "v = CellHead h" "tch_key h = k" "tch_cells h \<noteq> []"
      "distinct (tch_cells h)" "INVALID_VAL \<notin> set (tch_cells h)"
    by (auto simp: good_head_def)
  have c: "cells_at t k = tch_cells h"
    using v h(1) assms(1) by (simp add: cells_at_abs)
  show "cells_at t k \<noteq> []" "distinct (cells_at t k)" "INVALID_VAL \<notin> set (cells_at t k)"
    using c h by simp_all
  show "map_abs t k = Some (CellHead \<lparr>tch_key = k, tch_cells = cells_at t k\<rparr>)"
    using v c h by simp
qed

lemma cells_at_not_key: "sorted_keys (keys t) \<Longrightarrow> k \<notin> set (keys t) \<Longrightarrow> cells_at t k = []"
  by (simp add: cells_at_abs map_abs_None [THEN iffD2])

lemma cells_at_Nil_iff: "multimap_wf rb_good t \<Longrightarrow> cells_at t k = [] \<longleftrightarrow> k \<notin> set (keys t)"
  using multimap_wf_head(2) cells_at_not_key by (metis multimap_wf_sorted)

lemma map_lookup_node_keys:
  "sorted_keys (keys t) \<Longrightarrow> map_lookup_node t key = (if key \<in> set (keys t) then Some key else None)"
  by (simp add: map_lookup_node_def map_lookup_node_detail_spec)

lemma erased_key_wf:
  assumes "multimap_wf rb_good t" "map_wf rb_good t'" "map_abs t' = (map_abs t)(k := None)"
  shows "multimap_wf rb_good t'" "cells_at t' = (cells_at t)(k := [])"
proof -
  show wf': "multimap_wf rb_good t'" using assms by (auto simp: multimap_wf_def)
  show "cells_at t' = (cells_at t)(k := [])"
    using multimap_wf_sorted [OF assms(1)] multimap_wf_sorted [OF wf']
    by (auto simp: fun_eq_iff cells_at_abs assms(3))
qed

context rb_contract
begin

lemma set_cells_ok:
  assumes wf: "map_wf rb_good t" and h: "map_abs t k = Some (CellHead h)"
  shows "map_wf rb_good (set_cells t k cs)" "keys (set_cells t k cs) = keys t"
    "map_abs (set_cells t k cs) = (map_abs t)(k \<mapsto> CellHead (h\<lparr>tch_cells := cs\<rparr>))"
proof -
  have sorted: "sorted_keys (keys t)" and good: "rb_good t" using wf by (auto simp: map_wf_def)
  have "(k, CellHead h) \<in> set (inorder t)" using h by (simp add: map_abs_def map_of_SomeD)
  then obtain c l r q where n: "node_at k t [] = Some (RbNode c l (k, CellHead h) r, q)"
      "plug (RbNode c l (k, CellHead h) r) q = t"
    using node_at_Some [of "[]" t k "CellHead h"] sorted by (auto simp: keys_def)
  define L R where "L = path_left q @ inorder l" and "R = inorder r @ path_right q"
  have e: "set_cells t k cs = plug (RbNode c l (k, CellHead (h\<lparr>tch_cells := cs\<rparr>)) r) q"
    using n(1) by (simp add: set_cells_def)
  have io: "inorder t = L @ (k, CellHead h) # R"
    using n(2) inorder_plug [of "RbNode c l (k, CellHead h) r" q] by (simp add: L_def R_def)
  have io': "inorder (set_cells t k cs) = L @ (k, CellHead (h\<lparr>tch_cells := cs\<rparr>)) # R"
    by (simp add: e L_def R_def)
  have nk: "k \<notin> fst ` set L" "k \<notin> fst ` set R"
    using sorted unfolding keys_def io by (force simp: sorted_wrt_append)+
  show ks: "keys (set_cells t k cs) = keys t" by (simp add: keys_def io io')
  show "map_abs (set_cells t k cs) = (map_abs t)(k \<mapsto> CellHead (h\<lparr>tch_cells := cs\<rparr>))"
    unfolding map_abs_def io io' by (simp only: map_of_middle(1) [OF nk] fun_upd_upd)
  have "rb_good (set_cells t k cs)" unfolding e by (rule good_val [of c l k "CellHead h"]) (use good n(2) in simp)
  then show "map_wf rb_good (set_cells t k cs)"
    using wf ks io io' by (auto simp: map_wf_def TREEMAP_INVALID_VAL_def)
qed

text \<open>Replacing the list of a key by another non-empty one keeps the multimap well formed.\<close>

lemma set_cells_wf:
  assumes wf: "multimap_wf rb_good t" and k: "k \<in> set (keys t)"
    and cs: "cs \<noteq> []" "distinct cs" "INVALID_VAL \<notin> set cs"
  shows "multimap_wf rb_good (set_cells t k cs)" "cells_at (set_cells t k cs) = (cells_at t)(k := cs)"
    "keys (set_cells t k cs) = keys t"
proof -
  have mwf: "map_wf rb_good t" using wf by (simp add: multimap_wf_def)
  note set = set_cells_ok [OF mwf multimap_wf_head(1) [OF wf k], of cs]
  show "keys (set_cells t k cs) = keys t" by (rule set(2))
  show "multimap_wf rb_good (set_cells t k cs)"
    using wf set(1) cs unfolding multimap_wf_def set(3) by (auto simp: good_head_def)
  have "sorted_keys (keys t)" "sorted_keys (keys (set_cells t k cs))"
    using wf set(2) by simp_all
  then show "cells_at (set_cells t k cs) = (cells_at t)(k := cs)"
    by (auto simp: fun_eq_iff cells_at_abs set(3))
qed

lemma multimap_add_spec:
  assumes wf: "multimap_wf rb_good t"
  shows "case multimap_add rb_ins t key val al of
           (None, t') \<Rightarrow> val \<noteq> INVALID_VAL \<and> val \<notin> set (cells_at t key) \<and> multimap_wf rb_good t' \<and>
             cells_at t' = (cells_at t)(key := val # cells_at t key)
         | (Some e, t') \<Rightarrow> t' = t \<and>
             (e = EINVAL \<longleftrightarrow> val = INVALID_VAL) \<and>
             (e = EEXIST \<longrightarrow> val \<in> set (cells_at t key)) \<and>
             (e = ENOMEM \<longrightarrow> \<not> (cell_ok al \<and> head_ok al \<and> node_ok al))"
proof -
  have sorted: "sorted_keys (keys t)" and mwf: "map_wf rb_good t"
    using wf by (simp_all add: multimap_wf_def map_wf_def)
  consider (reject) "val = INVALID_VAL \<or> \<not> cell_ok al"
    | (old) "val \<noteq> INVALID_VAL" "cell_ok al" "key \<in> set (keys t)"
    | (new) "val \<noteq> INVALID_VAL" "cell_ok al" "key \<notin> set (keys t)" by blast
  then show ?thesis
  proof cases
    case reject
    then show ?thesis by (auto simp: multimap_add_def)
  next
    case old
    note h = multimap_wf_head [OF wf old(3)]
    show ?thesis
      using old h set_cells_wf [OF wf old(3), of "val # cells_at t key"]
      by (auto simp: multimap_add_def map_lookup_node_keys [OF sorted] multimap_add_oldkey_def)
  next
    case new
    let ?v = "CellHead \<lparr>tch_key = key, tch_cells = [val]\<rparr>"
    have empty: "cells_at t key = []" by (rule cells_at_not_key [OF sorted new(3)])
    have add: "multimap_add rb_ins t key val al =
        (if \<not> head_ok al then (Some ENOMEM, t) else map_add rb_ins t key ?v (node_ok al))"
      using new by (simp add: multimap_add_def map_lookup_node_keys [OF sorted] multimap_add_newkey_def)
    have valid: "?v \<noteq> TREEMAP_INVALID_VAL" by (simp add: TREEMAP_INVALID_VAL_def)
    show ?thesis
    proof (cases "head_ok al \<and> node_ok al")
      case True
      obtain t' where t': "map_add rb_ins t key ?v True = (None, t')"
        using map_add_cases [OF mwf, of key ?v True] new(3) valid by auto
      note ok = map_add_ok [OF mwf new(3) valid t']
      have "multimap_wf rb_good t'"
        using wf ok(1) new(1) unfolding multimap_wf_def ok(2) by (auto simp: good_head_def)
      moreover have "cells_at t' = (cells_at t)(key := [val])"
        using sorted calculation by (auto simp: fun_eq_iff cells_at_abs ok(2))
      ultimately show ?thesis using add t' True new(1) empty by simp
    next
      case False
      then show ?thesis
        using add map_add_cases [OF mwf, of key ?v "node_ok al"] new valid by (auto split: if_splits)
    qed
  qed
qed

lemma multimap_del_spec:
  assumes wf: "multimap_wf rb_good t"
  shows "let (v, t') = multimap_del rb_del t key val in
           v = (if val \<in> set (cells_at t key) then val else INVALID_VAL) \<and>
           multimap_wf rb_good t' \<and>
           cells_at t' = (cells_at t)(key := filter (\<lambda>x. x \<noteq> val) (cells_at t key))"
proof (cases "key \<in> set (keys t)")
  case False
  then show ?thesis
    using wf cells_at_not_key [of t key]
    by (simp add: multimap_del_def map_lookup_node_keys fun_upd_idem)
next
  case True
  let ?cs = "filter (\<lambda>x. x \<noteq> val) (cells_at t key)"
  have mwf: "map_wf rb_good t" and sorted: "sorted_keys (keys t)"
    using wf by (simp_all add: multimap_wf_def map_wf_def)
  note h = multimap_wf_head [OF wf True]
  show ?thesis
  proof (cases "?cs = []")
    case False
    then show ?thesis
      using set_cells_wf [OF wf True, of ?cs] h True sorted
      by (simp add: multimap_del_def map_lookup_node_keys Let_def)
  next
    case empty: True
    note set = set_cells_ok [OF mwf h(1), of "[]"]
    define t' where "t' = snd (map_del rb_del (set_cells t key []) key)"
    have del: "map_wf rb_good t'" "map_abs t' = (map_abs t)(key := None)"
      using map_del_spec [OF set(1), of key] by (auto simp: t'_def set(3) Let_def split: prod.splits)
    then show ?thesis
      using True sorted empty erased_key_wf [OF wf del]
      by (simp add: multimap_del_def map_lookup_node_keys Let_def t'_def)
  qed
qed

end

section \<open>The cursor walks over the pairs\<close>

text \<open>All pairs in key order, the values of one key in the order of its list.\<close>

definition pairs_of :: "tree_map \<Rightarrow> u64 list \<Rightarrow> (u64 \<times> ulong) list" where
  "pairs_of t ks = concat (map (\<lambda>k. map (Pair k) (cells_at t k)) ks)"

definition mm_pairs :: "tree_map \<Rightarrow> (u64 \<times> ulong) list" where
  "mm_pairs t = pairs_of t (keys t)"

lemma pairs_of_simps [simp]:
  "pairs_of t [] = []" "pairs_of t (k # ks) = map (Pair k) (cells_at t k) @ pairs_of t ks"
  "pairs_of t (ks @ ks') = pairs_of t ks @ pairs_of t ks'"
  by (simp_all add: pairs_of_def)

lemma set_mm_pairs: "sorted_keys (keys t) \<Longrightarrow> (k, v) \<in> set (mm_pairs t) \<longleftrightarrow> v \<in> set (cells_at t k)"
  using cells_at_not_key [of t k] by (fastforce simp: mm_pairs_def pairs_of_def)

text \<open>
  The cursor is at value \<^verbatim>\<open>v\<close> of key \<^verbatim>\<open>k\<close>, between the keys \<^verbatim>\<open>xs\<close> and \<^verbatim>\<open>ms\<close> and between
  the values \<^verbatim>\<open>ys\<close> and \<^verbatim>\<open>zs\<close> of its key; then the same in terms of the pair sequence.
\<close>

definition mcursor_node ::
    "tree_map \<Rightarrow> u64 list \<Rightarrow> u64 \<Rightarrow> u64 list \<Rightarrow> ulong list \<Rightarrow> ulong \<Rightarrow> ulong list \<Rightarrow> multimap_cursor \<Rightarrow> bool" where
  "mcursor_node t xs k ms ys v zs c \<longleftrightarrow>
     keys t = xs @ k # ms \<and> cells_at t k = ys @ v # zs \<and> cursor_at xs k ms (mm_curt c) \<and>
     mm_head c = Some k \<and> mm_cell c = Some v"

definition mcursor_at ::
    "tree_map \<Rightarrow> (u64 \<times> ulong) list \<Rightarrow> u64 \<times> ulong \<Rightarrow> (u64 \<times> ulong) list \<Rightarrow> multimap_cursor \<Rightarrow> bool" where
  "mcursor_at t us p vs c \<longleftrightarrow>
     (\<exists>xs k ms ys v zs. mcursor_node t xs k ms ys v zs c \<and> p = (k, v) \<and>
        us = pairs_of t xs @ map (Pair k) ys \<and> vs = map (Pair k) zs @ pairs_of t ms)"

definition mcursor_done :: "tree_map \<Rightarrow> multimap_cursor \<Rightarrow> bool" where
  "mcursor_done t c \<longleftrightarrow> mc_state (mm_curt c) = MAP_CURSOR_END \<and> cursor_wf t (mm_curt c) \<and>
     mm_head c = None \<and> mm_cell c = None"

lemma mcursor_at_pairs: "mcursor_at t us p vs c \<Longrightarrow> mm_pairs t = us @ p # vs"
  by (auto simp: mcursor_at_def mcursor_node_def mm_pairs_def)

lemma next_of_cells:
  "distinct (ys @ v # zs) \<Longrightarrow> next_of (ys @ v # zs) v = hd_opt zs"
  by (simp add: next_of_append hd_opt_def)

lemma mcursor_next_cell:
  assumes "distinct (cells_at t k)" "mcursor_node t xs k ms ys v (z # zs) c"
  shows "fst (multimap_cursor_next t c)"
    "mcursor_node t xs k ms (ys @ [v]) z zs (snd (multimap_cursor_next t c))"
  using assms next_of_cells [of ys v "z # zs"]
  by (auto simp: multimap_cursor_next_def Let_def get_tree_cell_next_def mcursor_node_def cursor_at_def)

lemma mcursor_next_no_cell:
  assumes "distinct (cells_at t k)" "mcursor_node t xs k ms ys v [] c"
  shows "multimap_cursor_next t c = (mc_state (mm_curt (next_node t c)) = MAP_CURSOR_DATA, next_node t c)"
  using assms next_of_cells [of ys v "[]"]
  by (auto simp: multimap_cursor_next_def Let_def get_tree_cell_next_def mcursor_node_def cursor_at_def)

lemma next_node_data:
  assumes "sorted_keys (keys t)" "mcursor_node t xs k (m # ms) ys v zs c" "cells_at t m = w # ws"
  shows "mc_state (mm_curt (next_node t c)) = MAP_CURSOR_DATA"
    "mcursor_node t (xs @ [k]) m ms [] w ws (next_node t c)"
proof -
  have ks: "keys t = xs @ k # m # ms" and at: "cursor_at xs k (m # ms) (mm_curt c)"
    using assms(2) by (auto simp: mcursor_node_def)
  obtain c1 where c1: "map_cursor_next t (mm_curt c) = (True, c1)" "cursor_at (xs @ [k]) m ms c1"
    using cursor_next_data [OF assms(1) ks at] by (metis (full_types) prod.collapse)
  then show "mc_state (mm_curt (next_node t c)) = MAP_CURSOR_DATA"
    "mcursor_node t (xs @ [k]) m ms [] w ws (next_node t c)"
    using ks assms(3)
    by (simp_all add: next_node_def cursor_head_def cursor_at_def mcursor_node_def get_tree_cell_begin_def)
qed

lemma next_node_end:
  assumes "mcursor_node t xs k [] ys v zs c"
  shows "mcursor_done t (next_node t c)"
proof -
  have ks: "keys t = xs @ [k]" and at: "cursor_at xs k [] (mm_curt c)"
    using assms by (auto simp: mcursor_node_def)
  obtain c1 where "map_cursor_next t (mm_curt c) = (False, c1)" "cursor_wf t c1" "mc_state c1 = MAP_CURSOR_END"
    using cursor_next_last [OF ks at] by (metis (full_types) prod.collapse)
  then show ?thesis by (simp add: next_node_def mcursor_done_def)
qed

lemma mcursor_next:
  assumes wf: "multimap_wf rb_good t" and c: "mcursor_at t us p vs c"
  shows "case vs of
           [] \<Rightarrow> \<not> fst (multimap_cursor_next t c) \<and> mcursor_done t (snd (multimap_cursor_next t c))
         | q # vs' \<Rightarrow> fst (multimap_cursor_next t c) \<and> mcursor_at t (us @ [p]) q vs' (snd (multimap_cursor_next t c))"
proof -
  obtain xs k ms ys v zs where n: "mcursor_node t xs k ms ys v zs c" "p = (k, v)"
      "us = pairs_of t xs @ map (Pair k) ys" "vs = map (Pair k) zs @ pairs_of t ms"
    using c by (auto simp: mcursor_at_def)
  have k: "k \<in> set (keys t)" and cells: "cells_at t k = ys @ v # zs" and ks: "keys t = xs @ k # ms"
    using n(1) by (auto simp: mcursor_node_def)
  have dis: "distinct (cells_at t k)" by (rule multimap_wf_head(3) [OF wf k])
  show ?thesis
  proof (cases zs)
    case (Cons z zs')
    note nx = mcursor_next_cell [OF dis n(1) [unfolded Cons]]
    have "mcursor_at t (us @ [p]) (k, z) (map (Pair k) zs' @ pairs_of t ms) (snd (multimap_cursor_next t c))"
      unfolding mcursor_at_def using nx(2) n(2,3) by (intro exI conjI) auto
    then show ?thesis using nx(1) n(4) Cons by simp
  next
    case Nil
    note no = mcursor_next_no_cell [OF dis n(1) [unfolded Nil]]
    show ?thesis
    proof (cases ms)
      case Nil': Nil
      then show ?thesis
        using next_node_end [OF n(1) [unfolded Nil']] no n(4) Nil by (simp add: mcursor_done_def)
    next
      case (Cons m ms')
      have "m \<in> set (keys t)" using ks Cons by simp
      then obtain w ws where w: "cells_at t m = w # ws"
        using multimap_wf_head(2) [OF wf] by (meson neq_Nil_conv)
      note nd = next_node_data [OF multimap_wf_sorted [OF wf] n(1) [unfolded Cons] w]
      have "mcursor_at t (us @ [p]) (m, w) (map (Pair m) ws @ pairs_of t ms') (next_node t c)"
        unfolding mcursor_at_def using nd(2) n(2,3) cells Nil by (intro exI conjI) auto
      then show ?thesis using no nd(1) n(4) Nil Cons w by simp
    qed
  qed
qed

lemma mcursor_key_val:
  assumes "multimap_wf rb_good t" "mcursor_at t us p vs c"
  shows "multimap_cursor_key t c = fst p" "multimap_cursor_val c = snd p" "multimap_cursor_is_data c"
proof -
  obtain xs k ms ys v zs where n: "mcursor_node t xs k ms ys v zs c" "p = (k, v)"
    using assms(2) by (auto simp: mcursor_at_def)
  have k: "k \<in> set (keys t)" using n(1) by (simp add: mcursor_node_def)
  have "node_val t k = CellHead \<lparr>tch_key = k, tch_cells = cells_at t k\<rparr>"
    using multimap_wf_head(1) [OF assms(1) k] assms(1) by (simp add: node_val_abs)
  then show "multimap_cursor_key t c = fst p" "multimap_cursor_val c = snd p" "multimap_cursor_is_data c"
    using n by (simp_all add: mcursor_node_def cursor_at_def multimap_cursor_key_def
        multimap_cursor_val_def multimap_cursor_is_data_def map_cursor_is_data_def)
qed

lemma pairs_of_fst: "p \<in> set (pairs_of t ks) \<Longrightarrow> fst p \<in> set ks"
  by (auto simp: pairs_of_def)

text \<open>Searching with \<^verbatim>\<open>MAP_SEARCH_GE\<close> finds the first pair whose key is not smaller.\<close>

lemma mcursor_search_GE:
  assumes wf: "multimap_wf rb_good t"
  shows "case multimap_cursor_search t c key MAP_SEARCH_GE False of
           (True, c') \<Rightarrow> (\<exists>us p vs. mcursor_at t us p vs c' \<and> (\<forall>u \<in> set us. fst u < key) \<and> key \<le> fst p)
         | (False, c') \<Rightarrow> (\<forall>u \<in> set (mm_pairs t). fst u < key)"
proof -
  have sorted: "sorted_keys (keys t)" by (rule multimap_wf_sorted [OF wf])
  obtain cur where cur: "map_cursor_search t (mm_curt c) key MAP_SEARCH_GE =
      (min_key (\<lambda>k. key \<le> k) t \<noteq> None, cur)"
    using cursor_search_wf(2) [OF sorted, of "mm_curt c" key MAP_SEARCH_GE]
    by (cases "map_cursor_search t (mm_curt c) key MAP_SEARCH_GE") simp
  show ?thesis
  proof (cases "filter (\<lambda>k. key \<le> k) (keys t)")
    case Nil
    then have "min_key (\<lambda>k. key \<le> k) t = None" by (simp add: min_key_def)
    moreover have "\<forall>u \<in> set (mm_pairs t). fst u < key"
      using Nil pairs_of_fst [of _ t "keys t"] by (fastforce simp: mm_pairs_def filter_empty_conv)
    ultimately show ?thesis using cur by (simp add: multimap_cursor_search_def)
  next
    case (Cons k ks')
    then have mk: "min_key (\<lambda>k. key \<le> k) t = Some k" by (simp add: min_key_def)
    obtain xs ms where ks: "keys t = xs @ k # ms" "\<forall>x \<in> set xs. \<not> key \<le> x" "key \<le> k"
      using Cons by (auto simp: filter_eq_Cons_iff)
    have at: "cursor_at xs k ms cur"
      using cur mk map_next_hd_opt [OF sorted ks(1)] map_prev_last_opt [OF sorted ks(1)]
      by (auto simp: map_cursor_search_def map_lookup_node_detail_spec [OF sorted] cursor_at_def Let_def)
    obtain w ws where w: "cells_at t k = w # ws"
      using multimap_wf_head(2) [OF wf, of k] ks(1) by (auto simp: neq_Nil_conv)
    let ?c = "c\<lparr>mm_curt := cur, mm_head := Some k, mm_cell := Some w\<rparr>"
    have s: "multimap_cursor_search t c key MAP_SEARCH_GE False = (True, ?c)"
      using cur mk at w
      by (simp add: multimap_cursor_search_def cursor_head_def cursor_at_def get_tree_cell_begin_def)
    have "mcursor_at t (pairs_of t xs) (k, w) (map (Pair k) ws @ pairs_of t ms) ?c"
      unfolding mcursor_at_def mcursor_node_def using ks(1) w at by (intro exI conjI) auto
    moreover have "\<forall>u \<in> set (pairs_of t xs). fst u < key"
      using ks(2) pairs_of_fst by fastforce
    ultimately show ?thesis using s ks(3) by auto
  qed
qed

lemma mm_pairs_sorted:
  assumes "sorted_keys (keys t)"
  shows "sorted_wrt (\<lambda>a b. fst a \<le> fst b) (mm_pairs t)"
proof -
  have "sorted_wrt (\<lambda>a b. fst a \<le> fst b) (pairs_of t ks)" if "sorted_keys ks" for ks
    using that
  proof (induction ks)
    case (Cons k ks)
    have "sorted_wrt (\<lambda>a b. fst a \<le> fst b) (map (Pair k) cs)" for cs :: "ulong list"
      by (induction cs) auto
    moreover have "k \<le> fst p" if "p \<in> set (pairs_of t ks)" for p
      using pairs_of_fst [OF that] Cons.prems by (simp add: less_imp_le)
    ultimately show ?case using Cons by (simp add: sorted_wrt_append)
  qed simp
  then show ?thesis using assms by (simp add: mm_pairs_def)
qed

text \<open>
  The loop the clients run over the pairs with a key below \<^verbatim>\<open>hi\<close>, once a search has placed
  the cursor: \<^verbatim>\<open>while (key < hi) { body(val); if (!next) break; }\<close>.
\<close>

partial_function (option) scan_while ::
    "tree_map \<Rightarrow> u64 \<Rightarrow> (ulong \<Rightarrow> 's \<Rightarrow> 's) \<Rightarrow> multimap_cursor \<Rightarrow> 's \<Rightarrow> 's option" where
  "scan_while tmap hi body cur s =
     (if multimap_cursor_key tmap cur < hi then
        (let s' = body (multimap_cursor_val cur) s in
         case multimap_cursor_next tmap cur of
           (found, cur') \<Rightarrow> if found then scan_while tmap hi body cur' s' else Some s')
      else Some s)"

lemma scan_while_takeWhile:
  assumes "multimap_wf rb_good t" "mcursor_at t us p vs c"
  shows "scan_while t hi body c s = Some (fold body (map snd (takeWhile (\<lambda>u. fst u < hi) (p # vs))) s)"
  using assms(2)
proof (induction vs arbitrary: us p c s)
  case Nil
  note kv = mcursor_key_val [OF assms(1) Nil]
  obtain c' where "multimap_cursor_next t c = (False, c')"
    using mcursor_next [OF assms(1) Nil] by (cases "multimap_cursor_next t c") auto
  then show ?case using kv by (subst scan_while.simps) (simp add: Let_def)
next
  case (Cons q vs)
  note kv = mcursor_key_val [OF assms(1) Cons.prems]
  obtain c' where c': "multimap_cursor_next t c = (True, c')" "mcursor_at t (us @ [p]) q vs c'"
    using mcursor_next [OF assms(1) Cons.prems] by (cases "multimap_cursor_next t c") auto
  show ?case
    using kv c'(1) Cons.IH [OF c'(2), of "body (snd p) s"] by (subst scan_while.simps) (simp add: Let_def)
qed

text \<open>The values whose key is in a range, in the order of the keys.\<close>

definition range_vals :: "tree_map \<Rightarrow> u64 \<Rightarrow> u64 \<Rightarrow> ulong list" where
  "range_vals t lo hi = map snd (filter (\<lambda>u. lo \<le> fst u \<and> fst u < hi) (mm_pairs t))"

lemma takeWhile_filter_sorted:
  assumes "sorted_wrt (\<lambda>a b. fst a \<le> fst b) ps"
  shows "takeWhile (\<lambda>u. fst u < (hi :: u64)) ps = filter (\<lambda>u. fst u < hi) ps"
  using assms
proof (induction ps)
  case (Cons p ps)
  then have "\<not> fst p < hi \<Longrightarrow> filter (\<lambda>u. fst u < hi) ps = []"
    by (auto simp: filter_empty_conv intro: le_less_trans)
  then show ?case using Cons by auto
qed simp

lemma search_scan:
  assumes wf: "multimap_wf rb_good t"
    and s: "multimap_cursor_search t c lo MAP_SEARCH_GE False = (found, c')"
  shows "if found then scan_while t hi body c' s = Some (fold body (range_vals t lo hi) s)
         else range_vals t lo hi = []"
proof (cases found)
  case False
  then show ?thesis
    using mcursor_search_GE [OF wf, where c = c and key = lo] s by (auto simp: range_vals_def filter_empty_conv)
next
  case True
  then obtain us p vs where at: "mcursor_at t us p vs c'" "\<forall>u \<in> set us. fst u < lo" "lo \<le> fst p"
    using mcursor_search_GE [OF wf, where c = c and key = lo] s by auto
  have ps: "mm_pairs t = us @ p # vs" by (rule mcursor_at_pairs [OF at(1)])
  have srt: "sorted_wrt (\<lambda>a b. fst a \<le> fst b) (us @ p # vs)"
    using mm_pairs_sorted [OF multimap_wf_sorted [OF wf]] ps by simp
  have "filter (\<lambda>u. lo \<le> fst u \<and> fst u < hi) (p # vs) = filter (\<lambda>u. fst u < hi) (p # vs)"
    using srt at(3) by (intro filter_cong refl) (auto simp: sorted_wrt_append)
  moreover have "filter (\<lambda>u. lo \<le> fst u \<and> fst u < hi) us = []"
    using at(2) by (auto simp: filter_empty_conv)
  ultimately have "range_vals t lo hi = map snd (filter (\<lambda>u. fst u < hi) (p # vs))"
    by (simp add: range_vals_def ps)
  moreover have "takeWhile (\<lambda>u. fst u < hi) (p # vs) = filter (\<lambda>u. fst u < hi) (p # vs)"
    using srt by (intro takeWhile_filter_sorted) (simp add: sorted_wrt_append)
  ultimately show ?thesis
    using True scan_while_takeWhile [OF wf at(1), of hi body s] by simp
qed

section \<open>Deleting at a cursor\<close>

lemma pairs_of_cong:
  "(\<And>k. k \<in> set ks \<Longrightarrow> cells_at t k = cells_at t' k) \<Longrightarrow> pairs_of t ks = pairs_of t' ks"
  unfolding pairs_of_def by (metis (no_types, lifting) map_cong)

lemma mcursor_done_is_end: "mcursor_done t c \<Longrightarrow> multimap_cursor_is_end c"
  by (simp add: mcursor_done_def multimap_cursor_is_end_def map_cursor_is_end_def)

lemma mcursor_node_keys: "mcursor_node t xs k ms ys v zs c \<Longrightarrow> keys t = xs @ k # ms"
  by (simp add: mcursor_node_def)

lemma mcursor_atI:
  assumes "mcursor_node t xs k ms ys v zs c" "us = pairs_of t xs @ map (Pair k) ys"
    "vs = map (Pair k) zs @ pairs_of t ms"
  shows "mcursor_at t us (k, v) vs c"
  using assms by (auto simp: mcursor_at_def)

context rb_contract
begin

text \<open>The value is the only one of its key: the node goes.\<close>

lemma cursor_del_node:
  assumes wf: "multimap_wf rb_good t" and n: "mcursor_node t xs k ms [] v [] c"
  shows "\<exists>t' c'. multimap_cursor_del rb_del t c = (True, t', c') \<and> multimap_wf rb_good t' \<and>
           cells_at t' = (cells_at t)(k := []) \<and> keys t' = xs @ ms \<and>
           (case ms of [] \<Rightarrow> multimap_cursor_is_end c'
            | m # ms' \<Rightarrow> mcursor_node t' xs m ms' [] (hd (cells_at t m)) (tl (cells_at t m)) c')"
proof -
  have ks: "keys t = xs @ k # ms" and cells: "cells_at t k = [v]" and at: "cursor_at xs k ms (mm_curt c)"
    using n by (simp_all add: mcursor_node_def)
  have mwf: "map_wf rb_good t" using wf by (simp add: multimap_wf_def)
  obtain t' u where del: "map_cursor_del rb_del t (mm_curt c) = (True, t', u)" "map_wf rb_good t'"
      "map_abs t' = (map_abs t)(k := None)" "keys t' = xs @ ms"
      "case ms of [] \<Rightarrow> map_cursor_is_end u | m # ms' \<Rightarrow> cursor_at xs m ms' u"
    using map_cursor_del_spec [OF mwf ks at] by blast
  note wf' = erased_key_wf [OF wf del(2,3)]
  have "distinct (cells_at t k)" using cells by simp
  note no = mcursor_next_no_cell [OF this n]
  define c' where "c' = (next_node t c)\<lparr>mm_curt := u\<rparr>"
  have copy: "map_cursor_copy d u = u" "multimap_cursor_copy c c = c" for d
    by (simp_all add: map_cursor_copy_def multimap_cursor_copy_def)
  have "mc_state (mm_curt c) = MAP_CURSOR_DATA" "mm_head c = Some k"
    using n by (simp_all add: mcursor_node_def cursor_at_def)
  then have "multimap_cursor_del rb_del t c = (True, t', c')"
    using no cells del(1) copy by (simp add: multimap_cursor_del_def hlist_len_def Let_def c'_def)
  moreover have "case ms of [] \<Rightarrow> multimap_cursor_is_end c'
      | m # ms' \<Rightarrow> mcursor_node t' xs m ms' [] (hd (cells_at t m)) (tl (cells_at t m)) c'"
  proof (cases ms)
    case Nil
    then show ?thesis using del(5) by (simp add: multimap_cursor_is_end_def c'_def)
  next
    case (Cons m ms')
    have "m \<in> set (keys t)" and ne: "m \<noteq> k"
      using ks Cons sorted_keys_distinct [OF multimap_wf_sorted [OF wf]] by auto
    then obtain w ws where w: "cells_at t m = w # ws"
      using multimap_wf_head(2) [OF wf] by (meson neq_Nil_conv)
    show ?thesis
      using next_node_data(2) [OF multimap_wf_sorted [OF wf] n [unfolded Cons] w] del(4,5) wf'(2) w ne Cons
      by (simp add: mcursor_node_def c'_def)
  qed
  ultimately show ?thesis using wf' del(4) by blast
qed

text \<open>The key has other values: only the cell goes.\<close>

lemma cursor_del_cell:
  assumes wf: "multimap_wf rb_good t" and n: "mcursor_node t xs k ms ys v zs c" and ne: "ys @ zs \<noteq> []"
  defines "t' \<equiv> set_cells t k (ys @ zs)"
  shows "multimap_cursor_del rb_del t c = (True, t', snd (multimap_cursor_next t c))"
    "multimap_wf rb_good t'" "cells_at t' = (cells_at t)(k := ys @ zs)" "keys t' = keys t"
proof -
  have k: "k \<in> set (keys t)" and cells: "cells_at t k = ys @ v # zs"
    using n by (simp_all add: mcursor_node_def)
  note h = multimap_wf_head [OF wf k]
  show "multimap_wf rb_good t'" "cells_at t' = (cells_at t)(k := ys @ zs)" "keys t' = keys t"
    unfolding t'_def using set_cells_wf [OF wf k ne] h(3,4) cells by auto
  have "remove1 v (ys @ v # zs) = ys @ zs" using h(3) cells by (simp add: remove1_append)
  moreover have "hlist_len (cells_at t k) \<noteq> 1" 
    using cells ne by (cases ys; cases zs) (auto simp: hlist_len_def)
  ultimately show "multimap_cursor_del rb_del t c = (True, t', snd (multimap_cursor_next t c))"
    using n cells by (simp add: multimap_cursor_del_def Let_def mcursor_node_def cursor_at_def t'_def
        multimap_cursor_copy_def)
qed

lemma pairs_of_upd:
  assumes "cells_at t' = (cells_at t)(k := cs)" "k \<notin> set ks"
  shows "pairs_of t' ks = pairs_of t ks"
  by (rule pairs_of_cong) (use assms in auto)

lemma mcursor_node_cells:
  assumes wf: "multimap_wf rb_good t" and n: "mcursor_node t xs k ms ys v zs c"
  shows "k \<in> set (keys t)" "k \<notin> set xs" "k \<notin> set ms" "filter (\<lambda>x. x \<noteq> v) (cells_at t k) = ys @ zs"
    "\<And>m. m \<in> set ms \<Longrightarrow> \<exists>w ws. cells_at t m = w # ws"
proof -
  have ks: "keys t = xs @ k # ms" and cells: "cells_at t k = ys @ v # zs"
    using n by (simp_all add: mcursor_node_def)
  show k: "k \<in> set (keys t)" "k \<notin> set xs" "k \<notin> set ms"
    using ks sorted_keys_distinct [OF multimap_wf_sorted [OF wf]] by auto
  have "v \<notin> set ys" "v \<notin> set zs" using multimap_wf_head(3) [OF wf k(1)] cells by auto
  then have "filter (\<lambda>x. x \<noteq> v) ys = ys" "filter (\<lambda>x. x \<noteq> v) zs = zs"
    by (auto simp: filter_id_conv)
  then show "filter (\<lambda>x. x \<noteq> v) (cells_at t k) = ys @ zs" by (simp add: cells)
  show "\<exists>w ws. cells_at t m = w # ws" if "m \<in> set ms" for m
    using multimap_wf_head(2) [OF wf, of m] that ks by (simp add: neq_Nil_conv)
qed

lemma cursor_del_only:
  assumes wf: "multimap_wf rb_good t" and n: "mcursor_node t xs k ms [] v [] c"
  shows "\<exists>t' c'. multimap_cursor_del rb_del t c = (True, t', c') \<and> multimap_wf rb_good t' \<and>
           cells_at t' = (cells_at t)(k := []) \<and> mm_pairs t' = pairs_of t xs @ pairs_of t ms \<and>
           (case pairs_of t ms of [] \<Rightarrow> multimap_cursor_is_end c'
            | q # vs' \<Rightarrow> mcursor_at t' (pairs_of t xs) q vs' c')"
proof -
  note nc = mcursor_node_cells [OF wf n]
  obtain t' c' where d: "multimap_cursor_del rb_del t c = (True, t', c')" "multimap_wf rb_good t'"
      "cells_at t' = (cells_at t)(k := [])" "keys t' = xs @ ms"
      "case ms of [] \<Rightarrow> multimap_cursor_is_end c'
       | m # ms' \<Rightarrow> mcursor_node t' xs m ms' [] (hd (cells_at t m)) (tl (cells_at t m)) c'"
    using cursor_del_node [OF wf n] by blast
  note pairs = pairs_of_upd [OF d(3) nc(2)] pairs_of_upd [OF d(3) nc(3)]
  have "case pairs_of t ms of [] \<Rightarrow> multimap_cursor_is_end c'
      | q # vs' \<Rightarrow> mcursor_at t' (pairs_of t xs) q vs' c'"
  proof (cases ms)
    case Nil
    then show ?thesis using d(5) by simp
  next
    case (Cons m ms')
    obtain w ws where w: "cells_at t m = w # ws" using nc(5) [of m] Cons by auto
    have "mcursor_at t' (pairs_of t xs) (m, w) (map (Pair m) ws @ pairs_of t ms') c'"
      by (rule mcursor_atI [of t' xs m ms' "[]" w ws]) (use d(3,5) w pairs nc(3) Cons in auto)
    then show ?thesis using Cons w by simp
  qed
  then show ?thesis using d pairs by (simp add: mm_pairs_def)
qed

lemma cursor_del_other:
  assumes wf: "multimap_wf rb_good t" and n: "mcursor_node t xs k ms ys v zs c" and ne: "ys @ zs \<noteq> []"
  defines "us \<equiv> pairs_of t xs @ map (Pair k) ys" and "vs \<equiv> map (Pair k) zs @ pairs_of t ms"
  shows "\<exists>t' c'. multimap_cursor_del rb_del t c = (True, t', c') \<and> multimap_wf rb_good t' \<and>
           cells_at t' = (cells_at t)(k := ys @ zs) \<and> mm_pairs t' = us @ vs \<and>
           (case vs of [] \<Rightarrow> multimap_cursor_is_end c' | q # vs' \<Rightarrow> mcursor_at t' us q vs' c')"
proof -
  note nc = mcursor_node_cells [OF wf n] and d = cursor_del_cell [OF wf n ne]
  let ?t' = "set_cells t k (ys @ zs)" and ?c' = "snd (multimap_cursor_next t c)"
  note pairs = pairs_of_upd [OF d(3) nc(2)] pairs_of_upd [OF d(3) nc(3)]
  note dis = multimap_wf_head(3) [OF wf nc(1)]
  have "case vs of [] \<Rightarrow> multimap_cursor_is_end ?c' | q # vs' \<Rightarrow> mcursor_at ?t' us q vs' ?c'"
  proof (cases "zs = [] \<and> ms = []")
    case True
    then show ?thesis
      using mcursor_next_no_cell [OF dis, of xs ms ys v c] mcursor_done_is_end [OF next_node_end] n
      by (simp add: vs_def)
  next
    case False
    then consider z zs' where "zs = z # zs'" | m ms' where "zs = []" "ms = m # ms'"
      by (metis neq_Nil_conv)
    then show ?thesis
    proof cases
      case 1
      have "mcursor_at ?t' us (k, z) (map (Pair k) zs' @ pairs_of t ms) ?c'"
        by (rule mcursor_atI [of ?t' xs k ms ys z zs'])
           (use mcursor_next_cell(2) [OF dis n [unfolded 1]] d(3,4) pairs 1 us_def in \<open>auto simp: mcursor_node_def\<close>)
      then show ?thesis using 1 by (simp add: vs_def)
    next
      case 2
      obtain w ws where w: "cells_at t m = w # ws" using nc(5) [of m] 2 by auto
      have c': "?c' = next_node t c" using mcursor_next_no_cell [OF dis n [unfolded 2(1)]] by simp
      have "mcursor_at ?t' us (m, w) (map (Pair m) ws @ pairs_of t ms') ?c'"
        by (rule mcursor_atI [of ?t' "xs @ [k]" m ms' "[]" w ws])
           (use next_node_data(2) [OF multimap_wf_sorted [OF wf] n [unfolded 2(2)] w] c' d(3,4) pairs nc(3) 2
             us_def in \<open>auto simp: mcursor_node_def\<close>)
      then show ?thesis using 2 w by (simp add: vs_def)
    qed
  qed
  then show ?thesis
    using d pairs mcursor_node_keys [OF n] by (simp add: mm_pairs_def us_def vs_def)
qed

lemma multimap_cursor_del_spec:
  assumes wf: "multimap_wf rb_good t" and c: "mcursor_at t us p vs c"
  shows "\<exists>t' c'. multimap_cursor_del rb_del t c = (True, t', c') \<and> multimap_wf rb_good t' \<and>
           cells_at t' = (cells_at t)(fst p := filter (\<lambda>v. v \<noteq> snd p) (cells_at t (fst p))) \<and>
           mm_pairs t' = us @ vs \<and>
           (case vs of [] \<Rightarrow> multimap_cursor_is_end c' | q # vs' \<Rightarrow> mcursor_at t' us q vs' c')"
proof -
  obtain xs k ms ys v zs where n: "mcursor_node t xs k ms ys v zs c" and p: "p = (k, v)"
      and us: "us = pairs_of t xs @ map (Pair k) ys" and vs: "vs = map (Pair k) zs @ pairs_of t ms"
    using c by (auto simp: mcursor_at_def)
  note flt = mcursor_node_cells(4) [OF wf n]
  show ?thesis
  proof (cases "ys @ zs = []")
    case True
    then have "ys = []" "zs = []" by auto
    then show ?thesis using cursor_del_only [OF wf, of xs k ms v c] n p us vs flt by (simp cong: list.case_cong)
  next
    case False
    show ?thesis using cursor_del_other [OF wf n False] unfolding p us vs fst_conv snd_conv flt .
  qed
qed

end

lemma n_items_loop_ok:
  assumes "sorted_keys (keys t)" "keys t = xs @ k # ms"
  shows "n_items_loop t (Some k) n = Some (n + int (length (pairs_of t (k # ms))))"
  using assms(2)
proof (induction ms arbitrary: xs k n)
  case Nil
  then show ?case using map_next_keys [OF assms(1) Nil] by (simp add: n_items_loop.simps hlist_len_def)
next
  case (Cons m ms)
  let ?n = "n + hlist_len (cells_at t k)"
  have "n_items_loop t (Some m) ?n = Some (?n + int (length (pairs_of t (m # ms))))"
    by (rule Cons.IH [of "xs @ [k]"]) (use Cons.prems in simp)
  then show ?case
    using map_next_keys [OF assms(1) Cons.prems] by (subst n_items_loop.simps) (simp add: hlist_len_def)
qed

lemma multimap_n_items_ok:
  assumes "sorted_keys (keys t)"
  shows "multimap_n_items t = Some (int (length (mm_pairs t)))"
proof (cases "keys t")
  case Nil
  then show ?thesis by (simp add: multimap_n_items_def map_first_keys n_items_loop.simps mm_pairs_def)
next
  case (Cons k ks)
  then show ?thesis
    using n_items_loop_ok [OF assms, of "[]" k ks 0]
    by (simp add: multimap_n_items_def map_first_keys mm_pairs_def)
qed

lemma multimap_lookup_cells:
  assumes "multimap_wf rb_good t"
  shows "multimap_lookup t key =
    (if cells_at t key = [] then None else Some \<lparr>tch_key = key, tch_cells = cells_at t key\<rparr>)"
proof -
  have st: "sorted_keys (keys t)" by (rule multimap_wf_sorted [OF assms])
  show ?thesis
    using cells_at_Nil_iff [OF assms, of key] multimap_wf_head(1) [OF assms, of key]
    by (auto simp: multimap_lookup_def map_lookup_node_keys [OF st] node_val_abs [OF st])
qed

section \<open>Properties\<close>

text \<open>
  Adding a value to a multimap either succeeds, and then it is the first value of its key
  and nothing else changes, or fails with the error that tells why and changes nothing: EINVAL
  for the invalid value, EEXIST when the key already has the value, ENOMEM when an allocation
  failed.
\<close>

theorem multimap_add_refines:
  assumes "rb_contract rb_ins rb_del rb_good" "multimap_wf rb_good t"
  shows "case multimap_add rb_ins t key val al of
           (None, t') \<Rightarrow> val \<noteq> INVALID_VAL \<and> val \<notin> set (cells_at t key) \<and> multimap_wf rb_good t' \<and>
             cells_at t' = (cells_at t)(key := val # cells_at t key)
         | (Some e, t') \<Rightarrow> t' = t \<and>
             (e = EINVAL \<longleftrightarrow> val = INVALID_VAL) \<and>
             (e = EEXIST \<longrightarrow> val \<in> set (cells_at t key)) \<and>
             (e = ENOMEM \<longrightarrow> \<not> (cell_ok al \<and> head_ok al \<and> node_ok al))"
  using assms by (rule rb_contract.multimap_add_spec)

text \<open>
  Deleting a pair from a multimap returns the value when the key has it and the invalid
  value otherwise, removes that pair only, and removes the node of a key with its last value;
  the lookups and the item count then report exactly the values that are left.
\<close>

theorem multimap_del_refines:
  assumes "rb_contract rb_ins rb_del rb_good" "multimap_wf rb_good t"
  shows "let (v, t') = multimap_del rb_del t key val;
             cs = filter (\<lambda>x. x \<noteq> val) (cells_at t key) in
           v = (if val \<in> set (cells_at t key) then val else INVALID_VAL) \<and>
           multimap_wf rb_good t' \<and> cells_at t' = (cells_at t)(key := cs) \<and>
           multimap_lookup_any t' key = (case cs of [] \<Rightarrow> INVALID_VAL | x # _ \<Rightarrow> x) \<and>
           multimap_lookup_n t' key = int (length cs) \<and>
           multimap_n_items t' = Some (int (length (mm_pairs t')))"
proof -
  obtain v t' where d: "multimap_del rb_del t key val = (v, t')" by fastforce
  note sp = rb_contract.multimap_del_spec [OF assms, of key val, unfolded d Let_def prod.case]
  have "multimap_wf rb_good t'" using sp by simp
  then show ?thesis
    using sp multimap_lookup_cells [of rb_good t' key] multimap_n_items_ok [OF multimap_wf_sorted, of rb_good t']
    by (auto simp: d multimap_lookup_any_def multimap_lookup_n_def hlist_len_def split: list.split)
qed

text \<open>
  A search for the first key that is not below \<^verbatim>\<open>lo\<close> followed by the loop over the keys
  below \<^verbatim>\<open>hi\<close> ends, and has visited exactly the pairs with a key in the range, each once and
  in the order of the keys; when the search finds nothing the range is empty.
\<close>

theorem multimap_range_scan:
  assumes "multimap_wf rb_good t"
    and "multimap_cursor_search t multimap_cursor_init lo MAP_SEARCH_GE False = (found, c)"
  shows "if found then scan_while t hi (\<lambda>v vs. vs @ [v]) c [] = Some (range_vals t lo hi)
         else range_vals t lo hi = []"
proof -
  have "fold (\<lambda>v vs. vs @ [v]) xs ys = ys @ xs" for xs ys :: "ulong list"
    by (induction xs arbitrary: ys) auto
  then show ?thesis using search_scan [OF assms, of hi "\<lambda>v vs. vs @ [v]" "[]"] by simp
qed

text \<open>
  Deleting at a multimap cursor removes exactly the pair under the cursor and leaves the
  cursor at the pair that followed it, or at the end, so that a loop that deletes while it
  walks neither skips nor repeats a pair.
\<close>

theorem multimap_cursor_del_moves_on:
  assumes "rb_contract rb_ins rb_del rb_good" "multimap_wf rb_good t" "mcursor_at t us p vs c"
  shows "\<exists>t' c'. multimap_cursor_del rb_del t c = (True, t', c') \<and> multimap_wf rb_good t' \<and>
           cells_at t' = (cells_at t)(fst p := filter (\<lambda>v. v \<noteq> snd p) (cells_at t (fst p))) \<and>
           mm_pairs t' = us @ vs \<and>
           (case vs of [] \<Rightarrow> multimap_cursor_is_end c' | q # vs' \<Rightarrow> mcursor_at t' us q vs' c')"
  using assms by (rule rb_contract.multimap_cursor_del_spec)

text \<open>A multimap with two values at key 10 and one at key 20.\<close>

definition demo_mmap :: tree_map where
  "demo_mmap = RbNode RB_BLACK RbNull (10, CellHead \<lparr>tch_key = 10, tch_cells = [7, 5]\<rparr>)
     (RbNode RB_RED RbNull (20, CellHead \<lparr>tch_key = 20, tch_cells = [6]\<rparr>) RbNull)"

lemma demo_mmap_wf: "multimap_wf rb_inv demo_mmap"
  by (simp add: multimap_wf_def map_wf_def demo_mmap_def rb_inv_def TREEMAP_INVALID_VAL_def map_abs_def
      good_head_def INVALID_VAL_def)

theorem multimap_add_refines_witness:
  "case multimap_add tool_rb_ins demo_mmap 10 8 \<lparr>cell_ok = True, head_ok = True, node_ok = True\<rparr> of
     (None, t') \<Rightarrow> 8 \<noteq> INVALID_VAL \<and> 8 \<notin> set (cells_at demo_mmap 10) \<and> multimap_wf rb_inv t' \<and>
       cells_at t' = (cells_at demo_mmap)(10 := 8 # cells_at demo_mmap 10)
   | (Some e, t') \<Rightarrow> t' = demo_mmap \<and>
       (e = EINVAL \<longleftrightarrow> 8 = INVALID_VAL) \<and>
       (e = EEXIST \<longrightarrow> 8 \<in> set (cells_at demo_mmap 10)) \<and>
       (e = ENOMEM \<longrightarrow> \<not> (cell_ok \<lparr>cell_ok = True, head_ok = True, node_ok = True\<rparr> \<and>
          head_ok \<lparr>cell_ok = True, head_ok = True, node_ok = True\<rparr> \<and>
          node_ok \<lparr>cell_ok = True, head_ok = True, node_ok = True\<rparr>))"
  by (rule multimap_add_refines [OF tool_rb.rb_contract_axioms demo_mmap_wf])

theorem multimap_del_refines_witness:
  "let (v, t') = multimap_del tool_rb_del demo_mmap 10 5;
       cs = filter (\<lambda>x. x \<noteq> 5) (cells_at demo_mmap 10) in
     v = (if 5 \<in> set (cells_at demo_mmap 10) then 5 else INVALID_VAL) \<and>
     multimap_wf rb_inv t' \<and> cells_at t' = (cells_at demo_mmap)(10 := cs) \<and>
     multimap_lookup_any t' 10 = (case cs of [] \<Rightarrow> INVALID_VAL | x # _ \<Rightarrow> x) \<and>
     multimap_lookup_n t' 10 = int (length cs) \<and>
     multimap_n_items t' = Some (int (length (mm_pairs t')))"
  by (rule multimap_del_refines [OF tool_rb.rb_contract_axioms demo_mmap_wf])

theorem multimap_range_scan_witness:
  "if fst (multimap_cursor_search demo_mmap multimap_cursor_init 11 MAP_SEARCH_GE False) then
     scan_while demo_mmap 30 (\<lambda>v vs. vs @ [v])
       (snd (multimap_cursor_search demo_mmap multimap_cursor_init 11 MAP_SEARCH_GE False)) [] =
     Some (range_vals demo_mmap 11 30)
   else range_vals demo_mmap 11 30 = []"
  by (rule multimap_range_scan [OF demo_mmap_wf]) simp

theorem multimap_cursor_del_moves_on_witness:
  "\<exists>t' c'. multimap_cursor_del tool_rb_del demo_mmap
       \<lparr>mm_curt = \<lparr>mc_state = MAP_CURSOR_DATA, mc_prev = None, mc_curr = Some 10, mc_next = Some 20\<rparr>,
         mm_head = Some 10, mm_cell = Some 5\<rparr> = (True, t', c') \<and>
     multimap_wf rb_inv t' \<and>
     cells_at t' = (cells_at demo_mmap)(fst (10, 5 :: ulong) :=
       filter (\<lambda>v. v \<noteq> snd (10 :: u64, 5)) (cells_at demo_mmap (fst (10, 5 :: ulong)))) \<and>
     mm_pairs t' = [(10, 7)] @ [(20, 6)] \<and>
     (case [(20, 6)] of [] \<Rightarrow> multimap_cursor_is_end c' | q # vs' \<Rightarrow> mcursor_at t' [(10, 7)] q vs' c')"
proof (rule multimap_cursor_del_moves_on [OF tool_rb.rb_contract_axioms demo_mmap_wf])
  let ?c = "\<lparr>mm_curt = \<lparr>mc_state = MAP_CURSOR_DATA, mc_prev = None, mc_curr = Some 10, mc_next = Some 20\<rparr>,
         mm_head = Some 10, mm_cell = Some (5 :: ulong)\<rparr>"
  have "mcursor_node demo_mmap [] 10 [20] [7] 5 [] ?c" "cells_at demo_mmap 20 = [6]"
    by (simp_all add: mcursor_node_def cursor_at_def cells_at_def node_val_def demo_mmap_def)
  then show "mcursor_at demo_mmap [(10, 7)] (10, 5) [(20, 6)] ?c"
    by (intro mcursor_atI) auto
qed

end
