(* ===== verification/Walb_Bio_Wrapper.thy ===== *)
theory Walb_Bio_Wrapper
  imports Walb_Bio
begin

text \<open>
  Bio wrappers, \<^verbatim>\<open>module/bio_wrapper.h\<close> and \<^verbatim>\<open>module/bio_wrapper.c\<close>, with the bio
  entries of \<^verbatim>\<open>module/bio_entry.h\<close> they hold.  The memory behind the bios of a wrapper is
  its field \<^verbatim>\<open>bw_data\<close>: the byte of the pages that belongs to a byte address of the device.
  All bios of one wrapper share these pages, whether they were split or not, and a byte is
  found by the position of an iterator, since advancing an iterator moves its position and
  its place in the pages together.  How the pages cut the data into segments is given by a
  function from a byte address to the bytes left in its segment.
\<close>

section \<open>Data\<close>

type_synonym pages = "nat \<Rightarrow> u8"

record bio_entry =
  be_bio :: "bio option"
  be_iter :: bvec_iter
  be_status :: u8

record bio_wrapper =
  bw_bio :: "bio option"
  bw_pos :: u64
  bw_len :: u32
  bw_csum :: u32
  bw_status :: u8
  bw_flags :: u64
  bw_lsid :: u64
  bw_copied_bio :: "bio option"
  bw_cloned_bioe :: bio_entry
  bw_cloned_bio_list :: "bio list"
  bw_n_overlapped :: int
  bw_data :: pages

definition BIO_WRAPPER_STARTED :: nat where "BIO_WRAPPER_STARTED = 0"
definition BIO_WRAPPER_DISCARD :: nat where "BIO_WRAPPER_DISCARD = 1"
definition BIO_WRAPPER_OVERWRITTEN :: nat where "BIO_WRAPPER_OVERWRITTEN = 2"
definition BIO_WRAPPER_DELAYED :: nat where "BIO_WRAPPER_DELAYED = 3"

definition bio_wrapper_state_is_started :: "bio_wrapper \<Rightarrow> bool" where
  "bio_wrapper_state_is_started biow = test_bit_u64 BIO_WRAPPER_STARTED (bw_flags biow)"

definition bio_wrapper_state_is_discard :: "bio_wrapper \<Rightarrow> bool" where
  "bio_wrapper_state_is_discard biow = test_bit_u64 BIO_WRAPPER_DISCARD (bw_flags biow)"

definition bio_wrapper_state_is_overwritten :: "bio_wrapper \<Rightarrow> bool" where
  "bio_wrapper_state_is_overwritten biow = test_bit_u64 BIO_WRAPPER_OVERWRITTEN (bw_flags biow)"

definition bio_wrapper_state_is_delayed :: "bio_wrapper \<Rightarrow> bool" where
  "bio_wrapper_state_is_delayed biow = test_bit_u64 BIO_WRAPPER_DELAYED (bw_flags biow)"

definition biow_set_flag :: "nat \<Rightarrow> bio_wrapper \<Rightarrow> bio_wrapper" where
  "biow_set_flag nr biow = biow\<lparr>bw_flags := set_bit_u64 nr (bw_flags biow)\<rparr>"

section \<open>Bio entries\<close>

definition bio_entry_pos :: "bio_entry \<Rightarrow> u64" where
  "bio_entry_pos bioe = bi_sector (be_iter bioe)"

definition bio_entry_len :: "bio_entry \<Rightarrow> u32" where
  "bio_entry_len bioe = drop_bit 9 (bi_size (be_iter bioe))"

definition bio_entry_clear :: "bio_entry \<Rightarrow> bio_entry" where
  "bio_entry_clear bioe = bioe\<lparr>be_bio := None\<rparr>"

definition bio_entry_exists :: "bio_entry \<Rightarrow> bool" where
  "bio_entry_exists bioe = (be_bio bioe \<noteq> None)"

text \<open>The status word \<^verbatim>\<open>BLK_STS_OK\<close> is 0.  The entry keeps a copy of the iterator.\<close>

definition init_bio_entry :: "bio_entry \<Rightarrow> bio \<Rightarrow> bio_entry" where
  "init_bio_entry bioe b = bioe\<lparr>be_status := 0, be_bio := Some b, be_iter := bi_iter b\<rparr>"

definition fin_bio_entry :: "bio_entry \<Rightarrow> bio_entry" where
  "fin_bio_entry bioe = bioe\<lparr>be_bio := None\<rparr>"

text \<open>\<^verbatim>\<open>bio_clone_fast\<close> either fails or copies the operation, the iterator and the segments.\<close>

definition init_bio_entry_by_clone :: "bool \<Rightarrow> bio_entry \<Rightarrow> bio \<Rightarrow> bool \<times> bio_entry" where
  "init_bio_entry_by_clone clone_ok bioe b =
     (if \<not> clone_ok then (False, bioe) else (True, init_bio_entry bioe (b\<lparr>bi_private := 0\<rparr>)))"

definition bio_entry_end_io :: "u8 \<Rightarrow> bio_entry \<Rightarrow> bio_entry" where
  "bio_entry_end_io bi_status bioe = bioe\<lparr>be_status := bi_status\<rparr>"

section \<open>Wrapper operations\<close>

definition init_bio_wrapper :: "bio_wrapper \<Rightarrow> bio option \<Rightarrow> bio_wrapper" where
  "init_bio_wrapper biow bo =
     (let w = biow\<lparr>bw_cloned_bioe := bio_entry_clear (bw_cloned_bioe biow), bw_cloned_bio_list := [],
        bw_status := 0, bw_csum := 0, bw_flags := 0, bw_lsid := 0, bw_copied_bio := None,
        bw_n_overlapped := - 1\<rparr> in
      case bo of
        Some b \<Rightarrow>
          (let w1 = w\<lparr>bw_bio := Some b, bw_pos := bio_begin_sector b, bw_len := bio_sectors b\<rparr> in
           if bi_op b = REQ_OP_DISCARD then biow_set_flag BIO_WRAPPER_DISCARD w1 else w1)
      | None \<Rightarrow> w\<lparr>bw_bio := None, bw_pos := 0, bw_len := 0\<rparr>)"

definition bio_wrapper_is_overlap :: "bio_wrapper \<Rightarrow> bio_wrapper \<Rightarrow> bool" where
  "bio_wrapper_is_overlap biow0 biow1 =
     (bw_pos biow0 + ucast (bw_len biow0) > bw_pos biow1 \<and>
      bw_pos biow1 + ucast (bw_len biow1) > bw_pos biow0)"

definition bio_wrapper_is_overwritten_by :: "bio_wrapper \<Rightarrow> bio_wrapper \<Rightarrow> bool" where
  "bio_wrapper_is_overwritten_by biow0 biow1 =
     (bw_pos biow1 \<le> bw_pos biow0 \<and>
      bw_pos biow0 + ucast (bw_len biow0) \<le> bw_pos biow1 + ucast (bw_len biow1))"

section \<open>Copying from an overlapping write\<close>

definition memcpy_pages :: "pages \<Rightarrow> nat \<Rightarrow> pages \<Rightarrow> nat \<Rightarrow> nat \<Rightarrow> pages" where
  "memcpy_pages dst d src s n = (\<lambda>a. if d \<le> a \<and> a < d + n then src (s + (a - d)) else dst a)"

definition iter_byte :: "bvec_iter \<Rightarrow> nat" where
  "iter_byte iter = 512 * unat (bi_sector iter)"

text \<open>
  The loop of \<^verbatim>\<open>bio_copy_data_partial\<close>: every round copies what is left in both segments.
  \<^verbatim>\<open>bio_iter_len\<close> is the rest of the segment, at most what is left of the bio.
\<close>

partial_function (option) copy_loop ::
    "(nat \<Rightarrow> nat) \<Rightarrow> (nat \<Rightarrow> nat) \<Rightarrow> nat \<Rightarrow> nat \<Rightarrow> nat \<Rightarrow> nat \<Rightarrow> nat \<Rightarrow> pages \<Rightarrow> pages \<Rightarrow> (nat \<times> pages) option" where
  "copy_loop dseg sseg dpos dsize spos ssize remaining dst src =
     (if remaining > 0 \<and> ssize \<noteq> 0 \<and> dsize \<noteq> 0 then
        (let bytes = min (min ssize (sseg spos)) (min (min dsize (dseg dpos)) remaining) in
         copy_loop dseg sseg (dpos + bytes) (dsize - bytes) (spos + bytes) (ssize - bytes)
           (remaining - bytes) (memcpy_pages dst dpos src spos bytes) src)
      else Some (remaining, dst))"

definition bio_copy_data_partial ::
    "(nat \<Rightarrow> nat) \<Rightarrow> (nat \<Rightarrow> nat) \<Rightarrow> pages \<Rightarrow> bvec_iter \<Rightarrow> pages \<Rightarrow> bvec_iter \<Rightarrow> u32 \<Rightarrow> (nat \<times> pages) option" where
  "bio_copy_data_partial dseg sseg dst dst_iter src src_iter sectors =
     map_option (\<lambda>(remaining, dst'). (unat sectors - remaining div 512, dst'))
       (copy_loop dseg sseg (iter_byte dst_iter) (unat (bi_size dst_iter))
          (iter_byte src_iter) (unat (bi_size src_iter)) (unat (push_bit 9 sectors)) dst src)"

text \<open>A conditional \<^verbatim>\<open>bio_split\<close> with \<^verbatim>\<open>bio_chain\<close>; \<^const>\<open>None\<close> when it fails.\<close>

definition split_if ::
    "(bio \<Rightarrow> u32 \<Rightarrow> (bio \<times> bio) option) \<Rightarrow> bool \<Rightarrow> bio \<Rightarrow> u32 \<Rightarrow> (bio option \<times> bio) option" where
  "split_if bio_split c b n =
     (if c then map_option (\<lambda>(split, rest). (Some split, rest)) (bio_split b n) else Some (None, b))"

text \<open>
  One round of \<^verbatim>\<open>bio_wrapper_copy_overlapped\<close>: what takes the place of one bio of the list.
  When the second split fails the first one is not in the list.
\<close>

definition copy_one ::
    "(bio \<Rightarrow> u32 \<Rightarrow> (bio \<times> bio) option) \<Rightarrow> (nat \<Rightarrow> nat) \<Rightarrow> (nat \<Rightarrow> nat) \<Rightarrow> bvec_iter \<Rightarrow> pages \<Rightarrow> pages \<Rightarrow> bio \<Rightarrow>
     (bool \<times> pages \<times> bio list) option" where
  "copy_one bio_split dseg sseg src_iter0 src dst dst_bio =
     (if \<not> bvec_iter_is_overlap (bi_iter dst_bio) src_iter0 then Some (True, dst, [dst_bio])
      else
        (let (dst_iter, src_iter, sectors) = bio_get_overlapped (bi_iter dst_bio) src_iter0 in
         case bio_copy_data_partial dseg sseg dst dst_iter src src_iter sectors of
           None \<Rightarrow> None
         | Some (written, dst') \<Rightarrow>
             (case split_if bio_split (bi_sector (bi_iter dst_bio) < bi_sector dst_iter) dst_bio
                     (ucast (bi_sector dst_iter - bi_sector (bi_iter dst_bio))) of
                None \<Rightarrow> Some (False, dst', [dst_bio])
              | Some (split0, b1) \<Rightarrow>
                  (case split_if bio_split (sectors < drop_bit 9 (bi_size dst_iter)) b1 sectors of
                     None \<Rightarrow> Some (False, dst', [b1])
                   | Some (split1, b2) \<Rightarrow>
                       Some (True, dst',
                         (case (split0, split1) of
                            (Some s0, Some s1) \<Rightarrow> [s0, bio_private_lsb_set s1, b2]
                          | (Some s0, None) \<Rightarrow> [s0, bio_private_lsb_set b2]
                          | (None, Some s1) \<Rightarrow> [bio_private_lsb_set s1, b2]
                          | (None, None) \<Rightarrow> [bio_private_lsb_set b2]))))))"

fun copy_list ::
    "(bio \<Rightarrow> u32 \<Rightarrow> (bio \<times> bio) option) \<Rightarrow> (nat \<Rightarrow> nat) \<Rightarrow> (nat \<Rightarrow> nat) \<Rightarrow> bvec_iter \<Rightarrow> pages \<Rightarrow> pages \<Rightarrow> bio list \<Rightarrow>
     (bool \<times> pages \<times> bio list) option" where
  "copy_list bio_split dseg sseg src_iter src dst [] = Some (True, dst, [])"
| "copy_list bio_split dseg sseg src_iter src dst (b # bs) =
     (case copy_one bio_split dseg sseg src_iter src dst b of
        None \<Rightarrow> None
      | Some (ok, dst', ps) \<Rightarrow>
          if \<not> ok then Some (False, dst', ps @ bs)
          else map_option (\<lambda>(ok', dst'', qs). (ok', dst'', ps @ qs))
                 (copy_list bio_split dseg sseg src_iter src dst' bs))"

definition bio_wrapper_copy_overlapped ::
    "(bio \<Rightarrow> u32 \<Rightarrow> (bio \<times> bio) option) \<Rightarrow> (nat \<Rightarrow> nat) \<Rightarrow> (nat \<Rightarrow> nat) \<Rightarrow> bio_wrapper \<Rightarrow> bio_wrapper \<Rightarrow>
     (bool \<times> bio_wrapper) option" where
  "bio_wrapper_copy_overlapped bio_split dseg sseg dst src =
     map_option (\<lambda>(ok, data, bl). (ok, dst\<lparr>bw_data := data, bw_cloned_bio_list := bl\<rparr>))
       (copy_list bio_split dseg sseg (be_iter (bw_cloned_bioe src)) (bw_data src) (bw_data dst)
          (bw_cloned_bio_list dst))"

text \<open>The bios that are left, and the bios given to \<^verbatim>\<open>bio_endio\<close> with the mark cleared.\<close>

fun endio_loop :: "bio list \<Rightarrow> bio list \<times> bio list" where
  "endio_loop [] = ([], [])"
| "endio_loop (b # bs) =
     (let (rest, ended) = endio_loop bs in
      if bio_private_lsb_get b then (rest, bio_private_lsb_clear b # ended) else (b # rest, ended))"

definition bio_wrapper_endio_copied :: "bio_wrapper \<Rightarrow> bio_wrapper \<times> bio list" where
  "bio_wrapper_endio_copied biow =
     (let (rest, ended) = endio_loop (bw_cloned_bio_list biow) in
      (biow\<lparr>bw_cloned_bio_list := rest\<rparr>, ended))"

section \<open>The copied bytes\<close>

lemma memcpy_pages_append:
  "memcpy_pages (memcpy_pages dst d src s m) (d + m) src (s + m) n = memcpy_pages dst d src s (m + n)"
  by (auto simp: memcpy_pages_def fun_eq_iff)

lemma memcpy_pages_0 [simp]: "memcpy_pages dst d src s 0 = dst"
  by (auto simp: memcpy_pages_def fun_eq_iff)

lemma copy_loop_ok:
  assumes "\<forall>a. 0 < dseg a" "\<forall>a. 0 < sseg a" "r \<le> dsize" "r \<le> ssize"
  shows "copy_loop dseg sseg dpos dsize spos ssize r dst src = Some (0, memcpy_pages dst dpos src spos r)"
  using assms(3-)
proof (induction r arbitrary: dpos dsize spos ssize dst rule: less_induct)
  case (less r)
  show ?case
  proof (cases "r = 0")
    case True
    then show ?thesis by (subst copy_loop.simps) simp
  next
    case False
    define n where "n = min (min ssize (sseg spos)) (min (min dsize (dseg dpos)) r)"
    have n: "0 < n" "n \<le> r" using False less.prems assms(1,2) by (auto simp: n_def)
    have "copy_loop dseg sseg (dpos + n) (dsize - n) (spos + n) (ssize - n) (r - n)
        (memcpy_pages dst dpos src spos n) src =
      Some (0, memcpy_pages (memcpy_pages dst dpos src spos n) (dpos + n) src (spos + n) (r - n))"
      by (rule less.IH) (use n less.prems in auto)
    then show ?thesis
      using False less.prems n by (subst copy_loop.simps) (simp add: n_def [symmetric] memcpy_pages_append)
  qed
qed

text \<open>Iterators in natural numbers: the first block, the block after the last, whole blocks.\<close>

definition it_lo :: "bvec_iter \<Rightarrow> nat" where
  "it_lo iter = unat (bi_sector iter)"

definition it_hi :: "bvec_iter \<Rightarrow> nat" where
  "it_hi iter = it_lo iter + unat (bi_size iter) div 512"

definition iter_ok :: "bvec_iter \<Rightarrow> bool" where
  "iter_ok iter \<longleftrightarrow> 512 dvd unat (bi_size iter) \<and> it_hi iter < 2 ^ 64"

lemma it_bio: "it_lo (bi_iter b) = bio_lo b" "it_hi (bi_iter b) = bio_lo b + bio_len b"
  by (simp_all add: it_lo_def it_hi_def bio_lo_def bio_len_def bio_begin_sector_def unat_bio_sectors)

lemma unat_drop9: "unat (drop_bit 9 (w :: u32)) = unat w div 512"
  by (simp add: drop_bit_eq_div unat_div)

lemma unat_push9:
  fixes w :: u64
  assumes "unat w < 2 ^ 55"
  shows "unat (push_bit 9 w) = 512 * unat w"
  using assms by (simp add: push_bit_eq_mult unat_word_ariths)

lemma iter_size: "iter_ok i \<Longrightarrow> unat (bi_size i) = 512 * (it_hi i - it_lo i)"
  by (simp add: iter_ok_def it_hi_def)

lemma it_lo_le_hi [simp]: "it_lo i \<le> it_hi i"
  by (simp add: it_hi_def)

lemma unat_iter_end:
  "iter_ok i \<Longrightarrow> unat (bi_sector i + ucast (drop_bit 9 (bi_size i))) = it_hi i"
  by (subst unat_add_nowrap) (simp_all add: iter_ok_def it_hi_def it_lo_def unat_drop9)

lemma overlap_iff:
  assumes "iter_ok i" "iter_ok j"
  shows "bvec_iter_is_overlap i j \<longleftrightarrow> it_lo j < it_hi i \<and> it_lo i < it_hi j"
  using assms by (simp add: bvec_iter_is_overlap_def word_less_nat_alt unat_iter_end it_lo_def)

lemma advance_iter:
  assumes "iter_ok i" "it_lo i \<le> p" "p < it_hi i" "unat q = p"
  shows "iter_ok (bio_advance_iter i (ucast (push_bit 9 (q - bi_sector i))))"
    "it_lo (bio_advance_iter i (ucast (push_bit 9 (q - bi_sector i)))) = p"
    "it_hi (bio_advance_iter i (ucast (push_bit 9 (q - bi_sector i)))) = it_hi i"
proof -
  let ?d = "p - it_lo i" and ?w = "ucast (push_bit 9 (q - bi_sector i)) :: u32"
  have sz: "unat (bi_size i) = 512 * (it_hi i - it_lo i)" by (rule iter_size [OF assms(1)])
  have lt: "512 * ?d < 2 ^ 32" using assms(3) sz unat_u32_lt [of "bi_size i"] by simp
  have "unat (q - bi_sector i) = ?d"
    using assms(2,4) by (subst unat_sub_nowrap) (simp_all add: word_le_nat_alt it_lo_def)
  then have "unat (push_bit 9 (q - bi_sector i)) = 512 * ?d"
    using lt unat_push9 [of "q - bi_sector i"] by simp
  then have w: "unat ?w = 512 * ?d" using lt by (subst unat_ucast_u32) simp_all
  have "unat (bi_sector i + ucast (drop_bit 9 ?w)) = p"
    using assms w unat_u64_lt [of q]
    by (subst unat_add_nowrap) (simp_all add: unat_drop9 it_lo_def)
  then show l: "it_lo (bio_advance_iter i ?w) = p" by (simp add: it_lo_def bio_advance_iter_def)
  have s: "unat (bi_size (bio_advance_iter i ?w)) = 512 * (it_hi i - p)"
    using w sz assms(2,3)
    by (simp add: bio_advance_iter_def unat_sub_nowrap word_le_nat_alt)
  then show h: "it_hi (bio_advance_iter i ?w) = it_hi i" using l assms(3) by (simp add: it_hi_def)
  show "iter_ok (bio_advance_iter i ?w)" using s h assms(1) by (simp add: iter_ok_def)
qed

lemma get_overlapped_ok:
  assumes ok: "iter_ok i" "iter_ok j" and ov: "it_lo j < it_hi i" "it_lo i < it_hi j"
    and ne: "it_lo i < it_hi i" "it_lo j < it_hi j"
    and r: "bio_get_overlapped i j = (d, s, n)"
  defines "lo \<equiv> max (it_lo i) (it_lo j)" and "hi \<equiv> min (it_hi i) (it_hi j)"
  shows "it_lo d = lo" "it_lo s = lo" "it_hi d = it_hi i" "it_hi s = it_hi j"
    "iter_ok d" "iter_ok s" "unat n = hi - lo" "lo < hi"
proof -
  note ai = advance_iter [OF ok(1), of "it_lo j" "bi_sector j", folded it_lo_def]
    and aj = advance_iter [OF ok(2), of "it_lo i" "bi_sector i", folded it_lo_def]
  have o: "bvec_iter_is_overlap i j" using ov by (simp add: overlap_iff [OF ok])
  have lt: "(bi_sector i < bi_sector j) = (it_lo i < it_lo j)" "(bi_sector j < bi_sector i) = (it_lo j < it_lo i)"
    by (simp_all add: it_lo_def word_less_nat_alt)
  have eq: "bi_sector i = bi_sector j" if "it_lo i = it_lo j" using that by (simp add: it_lo_def word_unat_eq_iff)
  have nd: "n = drop_bit 9 (min (bi_size d) (bi_size s))"
    and all: "it_lo d = lo \<and> it_lo s = lo \<and> it_hi d = it_hi i \<and> it_hi s = it_hi j \<and> iter_ok d \<and> iter_ok s"
    using r o ai aj ov ok
    by (auto simp: bio_get_overlapped_def lt lo_def it_lo_def [symmetric] Let_def split: if_splits)
  then show "it_lo d = lo" "it_lo s = lo" "it_hi d = it_hi i" "it_hi s = it_hi j" "iter_ok d" "iter_ok s"
    by auto
  show lh: "lo < hi" using ov ne by (simp add: lo_def hi_def)
  have "unat (min (bi_size d) (bi_size s)) = min (unat (bi_size d)) (unat (bi_size s))"
    by (simp add: min_def word_le_nat_alt)
  then show "unat n = hi - lo"
    using all iter_size [of d] iter_size [of s] by (simp add: nd unat_drop9 hi_def min_def)
qed

section \<open>The pieces\<close>

text \<open>
  What the driver relies on of \<^verbatim>\<open>bio_split\<close> followed by \<^verbatim>\<open>bio_chain\<close>, beside the cut
  itself: whole blocks stay whole blocks, the new bio's \<^verbatim>\<open>bi_private\<close> points to its parent, so
  that its lowest bit is clear, and the old bio keeps its own.
\<close>

definition bio_ok :: "bio \<Rightarrow> bool" where
  "bio_ok b \<longleftrightarrow> iter_ok (bi_iter b) \<and> 0 < bio_len b"

locale bio_chain_splitter = bio_splitter bio_split
  for bio_split :: "bio \<Rightarrow> u32 \<Rightarrow> (bio \<times> bio) option" +
  assumes split_unmarked: "bio_split b n = Some (h, r) \<Longrightarrow> \<not> bio_private_lsb_get h"
    and split_private: "bio_split b n = Some (h, r) \<Longrightarrow> bi_private r = bi_private b"
    and split_aligned: "bio_split b n = Some (h, r) \<Longrightarrow> 0 < unat n \<Longrightarrow> unat n < bio_len b \<Longrightarrow>
      512 dvd unat (bi_size (bi_iter b)) \<Longrightarrow>
      512 dvd unat (bi_size (bi_iter h)) \<and> 512 dvd unat (bi_size (bi_iter r))"

definition blocks :: "bio \<Rightarrow> nat set" where
  "blocks b = {bio_lo b ..< bio_lo b + bio_len b}"

definition iter_blocks :: "bvec_iter \<Rightarrow> nat set" where
  "iter_blocks i = {it_lo i ..< it_hi i}"

definition copy_blocks :: "pages \<Rightarrow> pages \<Rightarrow> nat set \<Rightarrow> pages" where
  "copy_blocks dst src S = (\<lambda>a. if a div 512 \<in> S then src a else dst a)"

lemma memcpy_blocks:
  "memcpy_pages dst (512 * lo) src (512 * lo) (512 * n) = copy_blocks dst src {lo ..< lo + n}"
proof -
  have "(512 * lo \<le> a) = (lo \<le> a div 512)" "(a < 512 * lo + 512 * n) = (a div 512 < lo + n)" for a :: nat
    by (simp_all add: less_eq_div_iff_mult_less_eq div_less_iff_less_mult algebra_simps)
  then show ?thesis by (auto simp: memcpy_pages_def copy_blocks_def fun_eq_iff)
qed

lemma lsb_set_bio [simp]:
  "bi_iter (bio_private_lsb_set b) = bi_iter b" "bio_lo (bio_private_lsb_set b) = bio_lo b"
  "bio_len (bio_private_lsb_set b) = bio_len b" "bio_ok (bio_private_lsb_set b) = bio_ok b"
  "blocks (bio_private_lsb_set b) = blocks b"
  by (simp_all add: bio_private_lsb_set_def bio_lo_def bio_len_def bio_begin_sector_def bio_sectors_def
      bio_ok_def blocks_def)

lemma bio_ok_bound: "bio_ok b \<Longrightarrow> bio_lo b + bio_len b < 2 ^ 64"
  by (simp add: bio_ok_def iter_ok_def it_bio)

lemma lsb_get_private: "bi_private a = bi_private b \<Longrightarrow> bio_private_lsb_get a = bio_private_lsb_get b"
  by (simp add: bio_private_lsb_get_def)

lemma copy_data_partial_blocks:
  assumes "\<forall>a. 0 < dseg a" "\<forall>a. 0 < sseg a" "iter_ok d" "iter_ok s" "it_lo d = it_lo s"
    and "unat n \<le> it_hi d - it_lo d" "unat n \<le> it_hi s - it_lo s"
  shows "bio_copy_data_partial dseg sseg dst d src s n =
    Some (unat n, copy_blocks dst src {it_lo d ..< it_lo d + unat n})"
proof -
  have n: "unat (push_bit 9 n) = 512 * unat n"
    using iter_size [OF assms(3)] assms(6) unat_u32_lt [of "bi_size d"]
    by (subst unat_push_bit_9) simp_all
  have "copy_loop dseg sseg (iter_byte d) (unat (bi_size d)) (iter_byte s) (unat (bi_size s))
      (unat (push_bit 9 n)) dst src = Some (0, memcpy_pages dst (iter_byte d) src (iter_byte s) (512 * unat n))"
    unfolding n by (rule copy_loop_ok [OF assms(1,2)])
      (use assms iter_size [OF assms(3)] iter_size [OF assms(4)] in simp_all)
  moreover have "iter_byte d = 512 * it_lo d" "iter_byte s = 512 * it_lo d"
    using assms(5) by (simp_all add: iter_byte_def it_lo_def)
  ultimately show ?thesis by (simp add: bio_copy_data_partial_def memcpy_blocks)
qed

text \<open>
  A piece is marked and inside the source's blocks \<^verbatim>\<open>S\<close>, or outside of them and marked only if
  the bio it was cut from was.
\<close>

definition piece_ok :: "nat set \<Rightarrow> bio \<Rightarrow> bio \<Rightarrow> bool" where
  "piece_ok S b q \<longleftrightarrow> bio_ok q \<and>
     (blocks q \<subseteq> S \<and> bio_private_lsb_get q \<or>
      blocks q \<inter> S = {} \<and> (bio_private_lsb_get q \<longrightarrow> bio_private_lsb_get b))"

lemma piece_inside:
  assumes "bio_ok x" "p \<le> bio_lo x" "bio_lo x + bio_len x \<le> q"
  shows "piece_ok {p ..< q} b (bio_private_lsb_set x)"
  using assms by (auto simp: piece_ok_def blocks_def)

lemma piece_outside:
  assumes "bio_ok x" "bio_lo x + bio_len x \<le> p \<or> q \<le> bio_lo x"
    and "bio_private_lsb_get x \<Longrightarrow> bio_private_lsb_get b"
  shows "piece_ok {p ..< q} b x"
  using assms by (auto simp: piece_ok_def blocks_def)

lemma tiles_append: "tiles p xs r \<Longrightarrow> tiles r ys q \<Longrightarrow> tiles p (xs @ ys) q"
  by (induction xs arbitrary: p) auto

text \<open>
  A list of bios that covers the blocks from \<^verbatim>\<open>p\<close> to \<^verbatim>\<open>q\<close> and whose marked bios are inside
  \<^verbatim>\<open>T\<close>, the blocks that have been copied already.
\<close>

definition marked_list :: "nat set \<Rightarrow> nat \<Rightarrow> bio list \<Rightarrow> nat \<Rightarrow> bool" where
  "marked_list T p bs q \<longleftrightarrow> tiles p bs q \<and> (\<forall>b \<in> set bs. bio_ok b \<and> (bio_private_lsb_get b \<longrightarrow> blocks b \<subseteq> T))"

lemma tiles_le: "tiles p bs q \<Longrightarrow> p \<le> q"
  by (induction bs arbitrary: p) fastforce+

lemma tiles_blocks: "tiles p bs q \<Longrightarrow> (\<Union>b \<in> set bs. blocks b) = {p ..< q}"
proof (induction bs arbitrary: p)
  case (Cons b bs)
  then have "bio_lo b = p" "p + bio_len b \<le> q" "(\<Union>b \<in> set bs. blocks b) = {p + bio_len b ..< q}"
    using tiles_le by auto
  then show ?case by (auto simp: blocks_def)
qed simp

lemma copy_blocks_Un: "copy_blocks (copy_blocks d s A) s B = copy_blocks d s (A \<union> B)"
  by (auto simp: copy_blocks_def)

context bio_chain_splitter
begin

lemma split_if_ok:
  assumes "split_if bio_split c b n = Some (so, b')" "bio_ok b" "c \<Longrightarrow> 0 < unat n \<and> unat n < bio_len b"
  shows "bio_ok b' \<and> bi_private b' = bi_private b \<and>
    (case so of
       None \<Rightarrow> \<not> c \<and> b' = b
     | Some s \<Rightarrow> c \<and> bio_ok s \<and> \<not> bio_private_lsb_get s \<and> bio_lo s = bio_lo b \<and> bio_len s = unat n \<and>
         bio_lo b' = bio_lo b + unat n \<and> bio_len b' = bio_len b - unat n)"
proof (cases c)
  case False
  then show ?thesis using assms by (auto simp: split_if_def)
next
  case True
  then obtain s where s: "bio_split b n = Some (s, b')" "so = Some s"
    using assms(1) by (auto simp: split_if_def)
  note n = assms(3) [OF True]
  have cut: "bio_lo s = bio_lo b" "bio_len s = unat n" "bio_lo b' = bio_lo b + unat n"
      "bio_len b' = bio_len b - unat n"
    using split_cuts [OF s(1) _ _ bio_ok_bound [OF assms(2)]] n by auto
  have al: "512 dvd unat (bi_size (bi_iter s))" "512 dvd unat (bi_size (bi_iter b'))"
    using split_aligned [OF s(1)] n assms(2) by (auto simp: bio_ok_def iter_ok_def)
  have "bio_ok s" "bio_ok b'"
    using cut al n bio_ok_bound [OF assms(2)] by (auto simp: bio_ok_def iter_ok_def it_bio)
  then show ?thesis
    using True s cut split_unmarked [OF s(1)] split_private [OF s(1)] by simp
qed

text \<open>The part before the overlap.\<close>

lemma front_piece_ok:
  assumes b: "bio_ok b" and lo: "lo = max (bio_lo b) p" "lo < bio_lo b + bio_len b" "lo < q"
    and s0: "split_if bio_split (bio_lo b < lo) b n0 = Some (split0, b1)" and n0: "unat n0 = lo - bio_lo b"
  shows "bio_ok b1" "bi_private b1 = bi_private b" "bio_lo b1 = lo"
    "bio_len b1 = bio_lo b + bio_len b - lo"
    "tiles (bio_lo b) (case split0 of None \<Rightarrow> [] | Some s \<Rightarrow> [s]) lo"
    "\<forall>x \<in> set (case split0 of None \<Rightarrow> [] | Some s \<Rightarrow> [s]). piece_ok {p ..< q} b x"
proof -
  have le: "bio_lo b \<le> lo" "bio_lo b < lo \<Longrightarrow> lo = p" using lo(1) by auto
  have "bio_lo b < lo \<Longrightarrow> 0 < unat n0 \<and> unat n0 < bio_len b" using n0 lo(2) by auto
  note a = split_if_ok [OF s0 b this]
  then show "bio_ok b1" "bi_private b1 = bi_private b" by simp_all
  show "bio_lo b1 = lo" "bio_len b1 = bio_lo b + bio_len b - lo"
    using a n0 lo(2) le by (auto split: option.splits)
  show "tiles (bio_lo b) (case split0 of None \<Rightarrow> [] | Some s \<Rightarrow> [s]) lo"
    using a n0 le by (auto split: option.splits)
  show "\<forall>x \<in> set (case split0 of None \<Rightarrow> [] | Some s \<Rightarrow> [s]). piece_ok {p ..< q} b x"
    using a n0 le by (auto split: option.splits intro!: piece_outside)
qed

text \<open>The overlap and the part after it.\<close>

lemma back_pieces_ok:
  assumes b1: "bio_ok b1" "bio_private_lsb_get b1 = bio_private_lsb_get b"
    and hi: "hi = min (bio_lo b1 + bio_len b1) q" "bio_lo b1 < hi" "p \<le> bio_lo b1"
    and s1: "split_if bio_split (hi < bio_lo b1 + bio_len b1) b1 n1 = Some (split1, b2)"
    and n1: "unat n1 = hi - bio_lo b1"
  defines "ps \<equiv> (case split1 of Some s1 \<Rightarrow> [bio_private_lsb_set s1, b2] | None \<Rightarrow> [bio_private_lsb_set b2])"
  shows "tiles (bio_lo b1) ps (bio_lo b1 + bio_len b1)" "\<forall>x \<in> set ps. piece_ok {p ..< q} b x"
proof -
  have le: "hi \<le> bio_lo b1 + bio_len b1" "hi \<le> q" "hi < bio_lo b1 + bio_len b1 \<Longrightarrow> hi = q"
    using hi(1) by auto
  have "hi < bio_lo b1 + bio_len b1 \<Longrightarrow> 0 < unat n1 \<and> unat n1 < bio_len b1" using n1 hi(2) by auto
  note a = split_if_ok [OF s1 b1(1) this]
  have l: "bio_private_lsb_get b2 = bio_private_lsb_get b"
    using a b1(2) lsb_get_private [of b2 b1] by simp
  show "tiles (bio_lo b1) ps (bio_lo b1 + bio_len b1)"
    using a n1 hi(2) le by (auto simp: ps_def bio_ok_def split: option.splits)
  show "\<forall>x \<in> set ps. piece_ok {p ..< q} b x"
  proof (cases split1)
    case None
    then show ?thesis using a hi(3) le by (auto simp: ps_def intro!: piece_inside)
  next
    case (Some s)
    have "piece_ok {p ..< q} b (bio_private_lsb_set s)"
      by (rule piece_inside) (use a Some n1 hi(2,3) le in auto)
    moreover have "piece_ok {p ..< q} b b2"
      by (rule piece_outside) (use a Some n1 hi(2,3) le l in auto)
    ultimately show ?thesis by (simp add: ps_def Some)
  qed
qed

text \<open>
  The round on an overlapping bio, with its conditions and sizes read as natural numbers; the
  overlap is from \<^verbatim>\<open>lo\<close> to \<^verbatim>\<open>hi\<close>.
\<close>

lemma copy_one_overlap:
  assumes seg: "\<forall>a. 0 < dseg a" "\<forall>a. 0 < sseg a" and b: "bio_ok b"
    and i: "iter_ok i" "it_lo i < it_hi i" and ovl: "bvec_iter_is_overlap (bi_iter b) i"
  defines "lo \<equiv> max (bio_lo b) (it_lo i)" and "hi \<equiv> min (bio_lo b + bio_len b) (it_hi i)"
  obtains n0 n :: u32 where "unat n0 = lo - bio_lo b" "unat n = hi - lo" "lo < hi"
    "copy_one bio_split dseg sseg i src dst b =
       (let dst' = copy_blocks dst src (iter_blocks i \<inter> blocks b) in
        case split_if bio_split (bio_lo b < lo) b n0 of
          None \<Rightarrow> Some (False, dst', [b])
        | Some (split0, b1) \<Rightarrow>
            (case split_if bio_split (hi < bio_lo b + bio_len b) b1 n of
               None \<Rightarrow> Some (False, dst', [b1])
             | Some (split1, b2) \<Rightarrow>
                 Some (True, dst', (case split0 of None \<Rightarrow> [] | Some s \<Rightarrow> [s]) @
                   (case split1 of Some s1 \<Rightarrow> [bio_private_lsb_set s1, b2] | None \<Rightarrow> [bio_private_lsb_set b2]))))"
proof -
  have bi: "iter_ok (bi_iter b)" and len: "0 < bio_len b" using b by (simp_all add: bio_ok_def)
  obtain d s n where g: "bio_get_overlapped (bi_iter b) i = (d, s, n)" by (metis prod_cases3)
  have ov: "it_lo i < it_hi (bi_iter b)" "it_lo (bi_iter b) < it_hi i" "it_lo (bi_iter b) < it_hi (bi_iter b)"
    using ovl overlap_iff [OF bi i(1)] len by (auto simp: it_bio)
  note go = get_overlapped_ok [OF bi i(1) ov(1,2,3) i(2) g, unfolded it_bio, folded lo_def hi_def]
  have lo: "lo < bio_lo b + bio_len b" "lo < it_hi i" "it_lo i \<le> lo" "bio_lo b \<le> lo"
    using ov i(2) by (auto simp: lo_def it_bio)
  have "iter_blocks i \<inter> blocks b = {lo ..< lo + unat n}"
    using go(7,8) by (auto simp: iter_blocks_def blocks_def lo_def hi_def)
  moreover have "bio_copy_data_partial dseg sseg dst d src s n = Some (unat n, copy_blocks dst src {it_lo d ..< it_lo d + unat n})"
    by (rule copy_data_partial_blocks [OF seg]) (use go in \<open>auto simp: hi_def\<close>)
  ultimately have cp: "bio_copy_data_partial dseg sseg dst d src s n =
      Some (unat n, copy_blocks dst src (iter_blocks i \<inter> blocks b))"
    using go(1) by simp
  have sec: "unat (bi_sector d) = lo" "unat (bi_sector (bi_iter b)) = bio_lo b"
    using go(1) by (simp_all add: it_lo_def bio_lo_def bio_begin_sector_def)
  let ?n0 = "ucast (bi_sector d - bi_sector (bi_iter b)) :: u32"
  have c0: "(bi_sector (bi_iter b) < bi_sector d) = (bio_lo b < lo)" by (simp add: word_less_nat_alt sec)
  have c1: "(n < drop_bit 9 (bi_size d)) = (hi < bio_lo b + bio_len b)"
    using go iter_size [OF go(5)] lo by (simp add: word_less_nat_alt unat_drop9) linarith
  have "unat (bi_sector d - bi_sector (bi_iter b)) = lo - bio_lo b"
    using lo(4) by (subst unat_sub_nowrap) (simp_all add: word_le_nat_alt sec)
  then have n0: "unat ?n0 = lo - bio_lo b"
    using lo(1) unat_u32_lt [of "bio_sectors b"] by (subst unat_ucast_u32) (simp_all add: bio_len_def)
  show ?thesis
    by (rule that [OF n0 go(7,8)])
       (auto simp: copy_one_def ovl g cp c0 c1 Let_def split: option.splits)
qed

lemma copy_one_ok:
  assumes seg: "\<forall>a. 0 < dseg a" "\<forall>a. 0 < sseg a" and b: "bio_ok b"
    and i: "iter_ok i" "it_lo i < it_hi i"
  shows "\<exists>ok ps. copy_one bio_split dseg sseg i src dst b =
           Some (ok, copy_blocks dst src (iter_blocks i \<inter> blocks b), ps) \<and>
         (ok \<longrightarrow> tiles (bio_lo b) ps (bio_lo b + bio_len b) \<and> (\<forall>x \<in> set ps. piece_ok (iter_blocks i) b x)) \<and>
         (\<not> ok \<longrightarrow> (\<exists>b n. bio_split b n = None))"
proof (cases "bvec_iter_is_overlap (bi_iter b) i")
  case False
  have bi: "iter_ok (bi_iter b)" using b by (simp add: bio_ok_def)
  have dj: "blocks b \<inter> iter_blocks i = {}" "iter_blocks i \<inter> blocks b = {}"
    using False overlap_iff [OF bi i(1)] by (auto simp: blocks_def iter_blocks_def it_bio)
  have "copy_blocks dst src {} = dst" by (simp add: copy_blocks_def)
  then show ?thesis
    using False b dj by (intro exI [of _ True]) (simp add: copy_one_def piece_ok_def bio_ok_def)
next
  case True
  let ?lo = "max (bio_lo b) (it_lo i)" and ?hi = "min (bio_lo b + bio_len b) (it_hi i)"
  obtain n0 n where n: "unat n0 = ?lo - bio_lo b" "unat n = ?hi - ?lo" "?lo < ?hi"
    and one: "copy_one bio_split dseg sseg i src dst b =
       (let dst' = copy_blocks dst src (iter_blocks i \<inter> blocks b) in
        case split_if bio_split (bio_lo b < ?lo) b n0 of
          None \<Rightarrow> Some (False, dst', [b])
        | Some (split0, b1) \<Rightarrow>
            (case split_if bio_split (?hi < bio_lo b + bio_len b) b1 n of
               None \<Rightarrow> Some (False, dst', [b1])
             | Some (split1, b2) \<Rightarrow>
                 Some (True, dst', (case split0 of None \<Rightarrow> [] | Some s \<Rightarrow> [s]) @
                   (case split1 of Some s1 \<Rightarrow> [bio_private_lsb_set s1, b2] | None \<Rightarrow> [bio_private_lsb_set b2]))))"
    by (rule copy_one_overlap [OF seg b i True, of src dst]) blast
  have fail: "\<exists>b n. bio_split b n = None" if "split_if bio_split c x m = None" for c x m
    using that by (auto simp: split_if_def split: if_splits)
  show ?thesis
  proof (cases "split_if bio_split (bio_lo b < ?lo) b n0")
    case None
    then show ?thesis using one fail [OF None] by (intro exI [of _ False]) (simp add: Let_def)
  next
    case (Some p)
    obtain split0 b1 where p: "p = (split0, b1)" by fastforce
    note f = front_piece_ok [OF b refl _ _ Some [unfolded p] n(1), of "it_hi i"]
    have e: "bio_lo b1 = ?lo" "bio_lo b1 + bio_len b1 = bio_lo b + bio_len b" "bio_ok b1" "0 < bio_len b1"
      using f(1,3,4) n(3) by (auto simp: bio_ok_def)
    show ?thesis
    proof (cases "split_if bio_split (?hi < bio_lo b + bio_len b) b1 n")
      case None
      then show ?thesis using one Some p fail [OF None] by (intro exI [of _ False]) (simp add: Let_def)
    next
      case r: (Some r)
      obtain split1 b2 where r': "r = (split1, b2)" by fastforce
      have "bio_private_lsb_get b1 = bio_private_lsb_get b"
        using lsb_get_private [of b1 b] f(2) n(3) by simp
      note k = back_pieces_ok [OF e(3) this, of "?hi" "it_hi i" "it_lo i" n split1 b2]
      have "tiles ?lo (case split1 of Some s1 \<Rightarrow> [bio_private_lsb_set s1, b2] | None \<Rightarrow> [bio_private_lsb_set b2])
          (bio_lo b + bio_len b)"
        using k(1) e n r r' by simp
      then show ?thesis
        using one Some p r r' f(5,6) k(2) e n
        by (intro exI [of _ True]) (simp add: Let_def tiles_append iter_blocks_def ball_Un)
    qed
  qed
qed

lemma copy_list_ok:
  assumes seg: "\<forall>a. 0 < dseg a" "\<forall>a. 0 < sseg a" and i: "iter_ok i" "it_lo i < it_hi i"
    and "marked_list T p bs q"
  shows "\<exists>ok D ps. copy_list bio_split dseg sseg i src dst bs = Some (ok, D, ps) \<and>
         (ok \<longrightarrow> D = copy_blocks dst src (iter_blocks i \<inter> {p ..< q}) \<and> marked_list (T \<union> iter_blocks i) p ps q \<and>
            (\<forall>x \<in> set ps. \<not> bio_private_lsb_get x \<longrightarrow> blocks x \<inter> iter_blocks i = {})) \<and>
         (\<not> ok \<longrightarrow> (\<exists>b n. bio_split b n = None))"
  using assms(5)
proof (induction bs arbitrary: p dst)
  case Nil
  then show ?case by (intro exI [of _ True]) (simp add: marked_list_def copy_blocks_def)
next
  case (Cons b bs)
  have b: "bio_ok b" "bio_lo b = p" "bio_private_lsb_get b \<longrightarrow> blocks b \<subseteq> T"
    and bs: "marked_list T (p + bio_len b) bs q"
    using Cons.prems by (auto simp: marked_list_def)
  have le: "p + bio_len b \<le> q" using bs tiles_le by (auto simp: marked_list_def)
  let ?S = "iter_blocks i" and ?D = "copy_blocks dst src (iter_blocks i \<inter> blocks b)"
  obtain ok ps where one: "copy_one bio_split dseg sseg i src dst b = Some (ok, ?D, ps)"
      "ok \<longrightarrow> tiles (bio_lo b) ps (bio_lo b + bio_len b) \<and> (\<forall>x \<in> set ps. piece_ok ?S b x)"
      "\<not> ok \<longrightarrow> (\<exists>b n. bio_split b n = None)"
    using copy_one_ok [OF seg b(1) i] by blast
  show ?case
  proof (cases ok)
    case False
    then show ?thesis using one by (intro exI [of _ False]) simp
  next
    case True
    then have ps: "tiles p ps (p + bio_len b)" "\<forall>x \<in> set ps. piece_ok ?S b x" using one(2) b(2) by auto
    have "(\<Union>x \<in> set ps. blocks x) = blocks b"
      using tiles_blocks [OF ps(1)] b(2) by (simp add: blocks_def [of b])
    then have "\<forall>x \<in> set ps. blocks x \<subseteq> blocks b" by blast
    with ps(2) b(3) have mk: "\<forall>x \<in> set ps. bio_ok x \<and> (bio_private_lsb_get x \<longrightarrow> blocks x \<subseteq> T \<union> ?S) \<and>
        (\<not> bio_private_lsb_get x \<longrightarrow> blocks x \<inter> ?S = {})"
      unfolding piece_ok_def by blast
    obtain ok' D qs where rest: "copy_list bio_split dseg sseg i src ?D bs = Some (ok', D, qs)"
        "ok' \<longrightarrow> D = copy_blocks ?D src (?S \<inter> {p + bio_len b ..< q}) \<and>
           marked_list (T \<union> ?S) (p + bio_len b) qs q \<and>
           (\<forall>x \<in> set qs. \<not> bio_private_lsb_get x \<longrightarrow> blocks x \<inter> ?S = {})"
        "\<not> ok' \<longrightarrow> (\<exists>b n. bio_split b n = None)"
      using Cons.IH [OF bs, of ?D] by blast
    have "?S \<inter> blocks b \<union> ?S \<inter> {p + bio_len b ..< q} = ?S \<inter> {p ..< q}"
      using b(2) le by (auto simp: blocks_def)
    moreover have "marked_list (T \<union> ?S) p (ps @ qs) q" if "ok'"
      using that rest(2) mk ps(1) by (auto simp: marked_list_def intro: tiles_append)
    ultimately show ?thesis
      using one(1) True rest mk by (auto simp: copy_blocks_Un)
  qed
qed

end

lemma endio_loop_filter:
  "endio_loop bs = (filter (\<lambda>b. \<not> bio_private_lsb_get b) bs,
     map bio_private_lsb_clear (filter bio_private_lsb_get bs))"
  by (induction bs) (auto simp: Let_def)

text \<open>The blocks that will be read from the data device.\<close>

definition list_blocks :: "bio list \<Rightarrow> nat set" where
  "list_blocks bs = (\<Union>b \<in> set bs. blocks b)"

lemma endio_left:
  assumes "marked_list T p bs q"
  shows "{p ..< q} - T \<subseteq> list_blocks (fst (endio_loop bs))" "list_blocks (fst (endio_loop bs)) \<subseteq> {p ..< q}"
proof -
  have all: "(\<Union>b \<in> set bs. blocks b) = {p ..< q}" using assms tiles_blocks by (simp add: marked_list_def)
  show "list_blocks (fst (endio_loop bs)) \<subseteq> {p ..< q}"
    unfolding all [symmetric] by (auto simp: list_blocks_def endio_loop_filter)
  show "{p ..< q} - T \<subseteq> list_blocks (fst (endio_loop bs))"
  proof
    fix x assume x: "x \<in> {p ..< q} - T"
    then obtain b where b: "b \<in> set bs" "x \<in> blocks b" unfolding all [symmetric] by auto
    then have "\<not> bio_private_lsb_get b" using assms x unfolding marked_list_def by blast
    then show "x \<in> list_blocks (fst (endio_loop bs))"
      using b by (auto simp: list_blocks_def endio_loop_filter)
  qed
qed

text \<open>
  Copying an overlapping pending write into a read.  For a read whose cloned bios cover the
  blocks from \<^verbatim>\<open>p\<close> to \<^verbatim>\<open>q\<close> and where every marked bio is in \<^verbatim>\<open>T\<close>, \<^verbatim>\<open>bio_wrapper_copy_overlapped\<close>
  returns.  When every split succeeds, the buffer has the bytes of the write in all blocks of
  the overlap and is unchanged elsewhere, the pieces still cover the blocks of the read, and of
  these \<^verbatim>\<open>bio_wrapper_endio_copied\<close> leaves for the data device every block that has not been
  copied and no block of this write.  For a first copy (\<^verbatim>\<open>T\<close> empty) it leaves exactly the blocks
  that the write does not cover.
\<close>

theorem copy_overlapped_then_endio:
  assumes "bio_chain_splitter sp" "\<forall>a. 0 < dseg a" "\<forall>a. 0 < sseg a"
    and "S = iter_blocks (be_iter (bw_cloned_bioe src))"
    and "iter_ok (be_iter (bw_cloned_bioe src))" "S \<noteq> {}"
    and "marked_list T p (bw_cloned_bio_list dst) q"
  shows "\<exists>ok dst'. bio_wrapper_copy_overlapped sp dseg sseg dst src = Some (ok, dst') \<and>
           (ok \<longrightarrow> bw_data dst' = copy_blocks (bw_data dst) (bw_data src) (S \<inter> {p ..< q}) \<and>
              marked_list (T \<union> S) p (bw_cloned_bio_list dst') q \<and>
              (let left = list_blocks (bw_cloned_bio_list (fst (bio_wrapper_endio_copied dst'))) in
               {p ..< q} - (T \<union> S) \<subseteq> left \<and> left \<subseteq> {p ..< q} - S)) \<and>
           (\<not> ok \<longrightarrow> (\<exists>b n. sp b n = None))"
proof -
  let ?i = "be_iter (bw_cloned_bioe src)"
  have "it_lo ?i < it_hi ?i" using assms(4,6) by (auto simp: iter_blocks_def)
  from bio_chain_splitter.copy_list_ok [OF assms(1-3,5) this assms(7), of "bw_data src" "bw_data dst"]
  obtain ok D ps where cl:
      "copy_list sp dseg sseg ?i (bw_data src) (bw_data dst) (bw_cloned_bio_list dst) = Some (ok, D, ps)"
      "ok \<Longrightarrow> D = copy_blocks (bw_data dst) (bw_data src) (S \<inter> {p ..< q})" "ok \<Longrightarrow> marked_list (T \<union> S) p ps q"
      "ok \<Longrightarrow> (\<forall>x \<in> set ps. \<not> bio_private_lsb_get x \<longrightarrow> blocks x \<inter> S = {})"
      "\<not> ok \<longrightarrow> (\<exists>b n. sp b n = None)"
    unfolding assms(4) by metis
  define left where "left = list_blocks (fst (endio_loop ps))"
  have "left \<inter> S = {}" if ok
    using cl(4) [OF that] by (auto simp: left_def list_blocks_def endio_loop_filter)
  then have "{p ..< q} - (T \<union> S) \<subseteq> left \<and> left \<subseteq> {p ..< q} - S" if ok
    using endio_left [OF cl(3) [OF that], folded left_def] that by blast
  then show ?thesis
    using cl unfolding left_def
    by (simp add: bio_wrapper_copy_overlapped_def bio_wrapper_endio_copied_def split_beta Let_def)
qed

text \<open>Cutting the iterator, as \<^const>\<open>cut_bio\<close> does, keeps this contract too.\<close>

interpretation cut_bio: bio_chain_splitter cut_bio
proof
  fix b h r :: bio and n :: u32
  assume c: "cut_bio b n = Some (h, r)"
  then show "\<not> bio_private_lsb_get h" "bi_private r = bi_private b"
    by (auto simp: cut_bio_def bio_private_lsb_get_def bio_advance_iter_def)
  assume n: "0 < unat n" "unat n < bio_len b" and al: "512 dvd unat (bi_size (bi_iter b))"
  have sz: "unat n * 512 \<le> unat (bi_size (bi_iter b))"
    using n(2) by (simp add: bio_len_def unat_bio_sectors less_eq_div_iff_mult_less_eq [symmetric])
  then have p: "unat (push_bit 9 n) = unat n * 512"
    using unat_u32_lt [of "bi_size (bi_iter b)"] by (intro unat_push_bit_9) simp
  then have "unat (bi_size (bi_iter b) - push_bit 9 n) = unat (bi_size (bi_iter b)) - unat n * 512"
    using sz by (subst unat_sub_nowrap) (simp_all add: word_le_nat_alt)
  then show "512 dvd unat (bi_size (bi_iter h)) \<and> 512 dvd unat (bi_size (bi_iter r))"
    using c p al by (auto simp: cut_bio_def bio_advance_iter_def dvd_diff_nat)
qed

text \<open>A read, and two pending writes: an older one of the same eight blocks, a newer one of two.\<close>

definition demo_wrapper :: "u64 \<Rightarrow> u32 \<Rightarrow> u64 \<Rightarrow> u8 \<Rightarrow> bio_wrapper" where
  "demo_wrapper pos len lsid fill =
     \<lparr>bw_bio = Some (demo_bio pos len), bw_pos = pos, bw_len = len, bw_csum = 0, bw_status = 0, bw_flags = 0,
      bw_lsid = lsid, bw_copied_bio = None,
      bw_cloned_bioe = \<lparr>be_bio = Some (demo_bio pos len), be_iter = bi_iter (demo_bio pos len), be_status = 0\<rparr>,
      bw_cloned_bio_list = [demo_bio pos len], bw_n_overlapped = - 1, bw_data = (\<lambda>_. fill)\<rparr>"

lemma demo_bio_lo_len:
  "unat len < 2 ^ 23 \<Longrightarrow> bio_lo (demo_bio pos len) = unat pos \<and> bio_len (demo_bio pos len) = unat len"
  using unat_push_bit_9 [of len]
  by (simp add: bio_lo_def bio_len_def bio_begin_sector_def demo_bio_def unat_bio_sectors)

lemma demo_wrapper_list:
  assumes "0 < unat len" "unat len < 2 ^ 23" "unat pos < 2 ^ 63"
  shows "marked_list {} (unat pos) (bw_cloned_bio_list (demo_wrapper pos len lsid fill)) (unat pos + unat len)"
    "iter_ok (be_iter (bw_cloned_bioe (demo_wrapper pos len lsid fill)))"
    "iter_blocks (be_iter (bw_cloned_bioe (demo_wrapper pos len lsid fill))) = {unat pos ..< unat pos + unat len}"
proof -
  have ll: "bio_lo (demo_bio pos len) = unat pos" "bio_len (demo_bio pos len) = unat len"
    using demo_bio_lo_len [OF assms(2)] by auto
  have ok: "iter_ok (bi_iter (demo_bio pos len))"
    using assms unat_push_bit_9 [OF assms(2)] by (simp add: iter_ok_def it_bio ll) (simp add: demo_bio_def)
  have "\<not> bio_private_lsb_get (demo_bio pos len)" by (simp add: demo_bio_def bio_private_lsb_get_def)
  then show "marked_list {} (unat pos) (bw_cloned_bio_list (demo_wrapper pos len lsid fill)) (unat pos + unat len)"
    using ok ll assms(1) by (simp add: demo_wrapper_def marked_list_def bio_ok_def)
  show "iter_ok (be_iter (bw_cloned_bioe (demo_wrapper pos len lsid fill)))"
    using ok by (simp add: demo_wrapper_def)
  show "iter_blocks (be_iter (bw_cloned_bioe (demo_wrapper pos len lsid fill))) = {unat pos ..< unat pos + unat len}"
    using ll it_bio [of "demo_bio pos len"] by (simp add: demo_wrapper_def iter_blocks_def)
qed

theorem copy_overlapped_then_endio_witness:
  "\<exists>ok dst'. bio_wrapper_copy_overlapped cut_bio (\<lambda>_. 4096) (\<lambda>_. 4096) (demo_wrapper 0 8 0 0) (demo_wrapper 2 2 7 1) =
       Some (ok, dst') \<and>
     (ok \<longrightarrow> bw_data dst' = copy_blocks (bw_data (demo_wrapper 0 8 0 0)) (bw_data (demo_wrapper 2 2 7 1)) ({2 ..< 4} \<inter> {0 ..< 8}) \<and>
        marked_list ({} \<union> {2 ..< 4}) 0 (bw_cloned_bio_list dst') 8 \<and>
        (let left = list_blocks (bw_cloned_bio_list (fst (bio_wrapper_endio_copied dst'))) in
         {0 ..< 8} - ({} \<union> {2 ..< 4}) \<subseteq> left \<and> left \<subseteq> {0 ..< 8} - {2 ..< 4})) \<and>
     (\<not> ok \<longrightarrow> (\<exists>b n. cut_bio b n = None))"
  by (rule copy_overlapped_then_endio [OF cut_bio.bio_chain_splitter_axioms])
     (use demo_wrapper_list [of 2 2 7 1] demo_wrapper_list [of 8 0 0 0] in auto)

definition piece :: "u64 \<Rightarrow> u32 \<Rightarrow> u64 \<Rightarrow> bio" where
  "piece pos len mark = (demo_bio pos len)\<lparr>bi_private := mark\<rparr>"

lemma demo_first_copy:
  "copy_list cut_bio (\<lambda>_. 4096) (\<lambda>_. 4096) (bi_iter (demo_bio 0 8)) s d [demo_bio 0 8] =
   Some (True, memcpy_pages d 0 s 0 4096, [piece 0 8 1])"
proof -
  let ?i = "bi_iter (demo_bio 0 8)"
  have i: "bvec_iter_is_overlap ?i ?i" "bio_get_overlapped ?i ?i = (?i, ?i, 8)"
      "\<not> bi_sector ?i < bi_sector ?i" "\<not> 8 < drop_bit 9 (bi_size ?i)"
      "bio_private_lsb_set (demo_bio 0 8) = piece 0 8 1"
    by code_simp+
  have "bio_copy_data_partial (\<lambda>_. 4096) (\<lambda>_. 4096) d ?i s ?i 8 = Some (8, memcpy_pages d 0 s 0 4096)"
    by (simp add: bio_copy_data_partial_def iter_byte_def demo_bio_def copy_loop.simps push_bit_eq_mult)
  then show ?thesis using i by (simp add: copy_one_def split_if_def)
qed

lemma demo_second_copy:
  "copy_list cut_bio (\<lambda>_. 4096) (\<lambda>_. 4096) (bi_iter (demo_bio 2 2)) s d [piece 0 8 1] =
   Some (True, memcpy_pages d 1024 s 1024 1024, [piece 0 2 0, piece 2 2 1, piece 4 4 1])"
proof -
  let ?b = "piece 0 8 1" and ?i = "bi_iter (demo_bio 2 2)" and ?d = "\<lparr>bi_sector = 2, bi_size = 3072\<rparr>"
  have i: "bvec_iter_is_overlap (bi_iter ?b) ?i" "bio_get_overlapped (bi_iter ?b) ?i = (?d, ?i, 2)"
      "bi_sector (bi_iter ?b) < bi_sector ?d" "2 < drop_bit 9 (bi_size ?d)"
      "cut_bio ?b (ucast (bi_sector ?d - bi_sector (bi_iter ?b))) = Some (piece 0 2 0, piece 2 6 1)"
      "cut_bio (piece 2 6 1) 2 = Some (piece 2 2 0, piece 4 4 1)"
      "bio_private_lsb_set (piece 2 2 0) = piece 2 2 1"
    by code_simp+
  have "bio_copy_data_partial (\<lambda>_. 4096) (\<lambda>_. 4096) d ?d s ?i 2 = Some (2, memcpy_pages d 1024 s 1024 1024)"
    by (simp add: bio_copy_data_partial_def iter_byte_def demo_bio_def copy_loop.simps push_bit_eq_mult)
  then show ?thesis using i by (simp add: copy_one_def split_if_def)
qed

text \<open>
  A read of eight blocks overlaps two pending writes: an older one of the same eight blocks
  and a newer one of the third and the fourth.  Copying from both in the order of their lsids
  puts the right bytes in the buffer.  But the newer write splits the bio that the older one has
  marked, the bio split off for the first two blocks does not carry the mark, and so these two
  blocks, which have been copied from the pending write, are left for the data device, where
  that write may not have arrived.
\<close>

theorem copied_blocks_read_again:
  "\<exists>r1 r2. bio_wrapper_copy_overlapped cut_bio (\<lambda>_. 4096) (\<lambda>_. 4096) (demo_wrapper 0 8 0 0) (demo_wrapper 0 8 5 1) =
       Some (True, r1) \<and>
     bio_wrapper_copy_overlapped cut_bio (\<lambda>_. 4096) (\<lambda>_. 4096) r1 (demo_wrapper 2 2 7 2) = Some (True, r2) \<and>
     list_blocks (bw_cloned_bio_list (fst (bio_wrapper_endio_copied r1))) = {} \<and>
     list_blocks (bw_cloned_bio_list (fst (bio_wrapper_endio_copied r2))) = {0, 1}"
proof -
  have "endio_loop [piece 0 8 1] = ([], [demo_bio 0 8])"
    "endio_loop [piece 0 2 0, piece 2 2 1, piece 4 4 1] = ([piece 0 2 0], [piece 2 2 0, piece 4 4 0])"
    by code_simp+
  moreover have "blocks (piece 0 2 0) = {0, 1}" by code_simp
  ultimately show ?thesis
    by (simp add: bio_wrapper_copy_overlapped_def demo_wrapper_def bio_wrapper_endio_copied_def list_blocks_def
        demo_first_copy demo_second_copy del: copy_list.simps endio_loop.simps) blast
qed

end
