(* ===== verification/Walb_Biow_Index.thy ===== *)
theory Walb_Biow_Index
  imports Walb_Multimap Walb_Bio_Wrapper
begin

text \<open>
  What the overlapped and the pending IO data share: a multimap from block positions to the
  addresses of bio wrappers, the wrappers themselves in a store from addresses to records, and
  a bound on the lengths of the indexed IOs.  A query for the IOs that overlap a given one
  starts at most that many blocks before it and scans to its end.
\<close>

type_synonym biow_store = "ulong \<Rightarrow> bio_wrapper"

text \<open>The search start of \<^verbatim>\<open>overlapped_io.c\<close> and \<^verbatim>\<open>pending_io.c\<close>.\<close>

definition search_start :: "u32 \<Rightarrow> u64 \<Rightarrow> u64" where
  "search_start max_sectors pos = (if pos > ucast max_sectors then pos - ucast max_sectors else 0)"

definition biow_end :: "bio_wrapper \<Rightarrow> u64" where
  "biow_end w = bw_pos w + ucast (bw_len w)"

text \<open>A wrapper of a non-empty IO inside a device of less than \<open>2\<^sup>6\<^sup>4\<close> blocks.\<close>

definition biow_ok :: "bio_wrapper \<Rightarrow> bool" where
  "biow_ok w \<longleftrightarrow> 0 < unat (bw_len w) \<and> unat (bw_pos w) + unat (bw_len w) < 2 ^ 64"

definition biow_blocks :: "bio_wrapper \<Rightarrow> nat set" where
  "biow_blocks w = {unat (bw_pos w) ..< unat (bw_pos w) + unat (bw_len w)}"

lemma unat_biow_end: "biow_ok w \<Longrightarrow> unat (biow_end w) = unat (bw_pos w) + unat (bw_len w)"
  unfolding biow_end_def biow_ok_def by (subst unat_add_nowrap) simp_all

lemma overlap_ends:
  "bio_wrapper_is_overlap a b \<longleftrightarrow> bw_pos b < biow_end a \<and> bw_pos a < biow_end b"
  by (simp add: bio_wrapper_is_overlap_def biow_end_def)

lemma overlap_commute: "bio_wrapper_is_overlap a b = bio_wrapper_is_overlap b a"
  by (auto simp: overlap_ends)

lemma overlap_iff_blocks:
  assumes "biow_ok a" "biow_ok b"
  shows "bio_wrapper_is_overlap a b \<longleftrightarrow> biow_blocks a \<inter> biow_blocks b \<noteq> {}"
proof -
  have "bio_wrapper_is_overlap a b \<longleftrightarrow> unat (bw_pos b) < unat (bw_pos a) + unat (bw_len a) \<and>
      unat (bw_pos a) < unat (bw_pos b) + unat (bw_len b)"
    using assms by (simp add: overlap_ends word_less_nat_alt unat_biow_end)
  then show ?thesis
    using assms by (auto simp: biow_blocks_def biow_ok_def disjoint_iff)
qed

lemma overwritten_iff_blocks:
  assumes "biow_ok a" "biow_ok b"
  shows "bio_wrapper_is_overwritten_by a b \<longleftrightarrow> biow_blocks a \<subseteq> biow_blocks b"
  using assms unat_biow_end [OF assms(1)] unat_biow_end [OF assms(2)]
  by (auto simp: bio_wrapper_is_overwritten_by_def biow_end_def word_le_nat_alt biow_blocks_def biow_ok_def)

lemma overlap_congs [simp]:
  "bw_pos (w\<lparr>bw_n_overlapped := x\<rparr>) = bw_pos w" "bw_len (w\<lparr>bw_n_overlapped := x\<rparr>) = bw_len w"
  "bw_pos (biow_set_flag f w) = bw_pos w" "bw_len (biow_set_flag f w) = bw_len w"
  "bw_n_overlapped (biow_set_flag f w) = bw_n_overlapped w"
  by (simp_all add: biow_set_flag_def)

lemma overlap_cong:
  assumes "bw_pos a = bw_pos a'" "bw_len a = bw_len a'" "bw_pos b = bw_pos b'" "bw_len b = bw_len b'"
  shows "bio_wrapper_is_overlap a b = bio_wrapper_is_overlap a' b'"
  using assms by (simp add: bio_wrapper_is_overlap_def)

section \<open>The indexed wrappers\<close>

definition mm_vals :: "tree_map \<Rightarrow> ulong list" where
  "mm_vals t = map snd (mm_pairs t)"

definition index_ok :: "(tree_map \<Rightarrow> bool) \<Rightarrow> tree_map \<Rightarrow> u32 \<Rightarrow> biow_store \<Rightarrow> bool" where
  "index_ok rb_good t max_sectors H \<longleftrightarrow> multimap_wf rb_good t \<and>
     (\<forall>(k, v) \<in> set (mm_pairs t). k = bw_pos (H v) \<and> biow_ok (H v) \<and> bw_len (H v) \<le> max_sectors)"

lemma pairs_of_distinct:
  assumes "multimap_wf rb_good t" "distinct ks" "set ks \<subseteq> set (keys t)"
  shows "distinct (pairs_of t ks)"
  using assms(2,3)
proof (induction ks)
  case (Cons k ks)
  have "distinct (cells_at t k)" using multimap_wf_head(3) [OF assms(1)] Cons.prems by simp
  moreover have "fst p \<noteq> k" if "p \<in> set (pairs_of t ks)" for p
    using pairs_of_fst [OF that] Cons.prems by auto
  ultimately show ?case using Cons by (fastforce simp: distinct_map inj_on_def)
qed simp

lemma mm_pairs_distinct: "multimap_wf rb_good t \<Longrightarrow> distinct (mm_pairs t)"
  unfolding mm_pairs_def by (rule pairs_of_distinct) (simp_all add: sorted_keys_distinct)

lemma index_ok_pair: "index_ok rb_good t m H \<Longrightarrow> v \<in> set (mm_vals t) \<longleftrightarrow> (bw_pos (H v), v) \<in> set (mm_pairs t)"
  by (force simp: index_ok_def mm_vals_def)

lemma index_ok_vals:
  assumes "index_ok rb_good t m H"
  shows "distinct (mm_vals t)" "\<And>v. v \<in> set (mm_vals t) \<Longrightarrow> biow_ok (H v) \<and> bw_len (H v) \<le> m"
    "\<And>v. v \<in> set (mm_vals t) \<longleftrightarrow> v \<in> set (cells_at t (bw_pos (H v)))" "\<And>v. v \<in> set (mm_vals t) \<Longrightarrow> v \<noteq> INVALID_VAL"
proof -
  have wf: "multimap_wf rb_good t" using assms by (simp add: index_ok_def)
  have "\<forall>p \<in> set (mm_pairs t). fst p = bw_pos (H (snd p))" using assms by (auto simp: index_ok_def)
  then have "inj_on snd (set (mm_pairs t))" by (auto simp: inj_on_def prod_eq_iff)
  then show "distinct (mm_vals t)" using mm_pairs_distinct [OF wf] by (simp add: mm_vals_def distinct_map)
  show "biow_ok (H v) \<and> bw_len (H v) \<le> m" if "v \<in> set (mm_vals t)" for v
    using assms that by (auto simp: index_ok_def mm_vals_def)
  show iff: "v \<in> set (mm_vals t) \<longleftrightarrow> v \<in> set (cells_at t (bw_pos (H v)))" for v
    unfolding index_ok_pair [OF assms] using set_mm_pairs [OF multimap_wf_sorted [OF wf]] .
  show "v \<noteq> INVALID_VAL" if "v \<in> set (mm_vals t)" for v
    using that multimap_wf_head(4) [OF wf, of "bw_pos (H v)"] cells_at_Nil_iff [OF wf, of "bw_pos (H v)"]
    unfolding iff by force
qed

text \<open>The scanned range has every wrapper that overlaps.\<close>

lemma search_start_below:
  assumes "bio_wrapper_is_overlap w x" "biow_ok w" "biow_ok x" "bw_len x \<le> m"
  shows "search_start m (bw_pos w) \<le> bw_pos x" "bw_pos x < biow_end w"
proof -
  have "unat (bw_pos w) < unat (bw_pos x) + unat (bw_len x)"
    using assms by (simp add: overlap_ends word_less_nat_alt unat_biow_end)
  moreover have "unat (bw_pos w - ucast m) = unat (bw_pos w) - unat m" if "bw_pos w > ucast m"
    using that by (subst unat_sub_nowrap) (simp_all add: word_le_nat_alt word_less_nat_alt)
  ultimately show "search_start m (bw_pos w) \<le> bw_pos x"
    using assms(4) by (auto simp: search_start_def word_le_nat_alt)
  show "bw_pos x < biow_end w" using assms(1) by (simp add: overlap_ends)
qed

lemma range_has_overlapping:
  assumes "index_ok rb_good t m H" "biow_ok w"
    and P: "\<And>v. P v \<Longrightarrow> bio_wrapper_is_overlap w (H v)"
  shows "filter P (range_vals t (search_start m (bw_pos w)) (biow_end w)) = filter P (mm_vals t)"
proof -
  have "filter (\<lambda>u. P (snd u) \<and> search_start m (bw_pos w) \<le> fst u \<and> fst u < biow_end w) (mm_pairs t) =
      filter (\<lambda>u. P (snd u)) (mm_pairs t)"
  proof (rule filter_cong [OF refl])
    fix u assume u: "u \<in> set (mm_pairs t)"
    then have "fst u = bw_pos (H (snd u))" "biow_ok (H (snd u))" "bw_len (H (snd u)) \<le> m"
      using assms(1) by (auto simp: index_ok_def)
    then show "(P (snd u) \<and> search_start m (bw_pos w) \<le> fst u \<and> fst u < biow_end w) = P (snd u)"
      using P search_start_below [of w "H (snd u)" m] assms(2) by auto
  qed
  then show ?thesis
    by (simp add: range_vals_def mm_vals_def filter_map comp_def conj_commute conj_left_commute)
qed

lemma index_ok_cong:
  assumes "index_ok rb_good t m H" "\<And>v. v \<in> set (mm_vals t) \<Longrightarrow> bw_pos (H' v) = bw_pos (H v) \<and> bw_len (H' v) = bw_len (H v)"
    and "m \<le> m'"
  shows "index_ok rb_good t m' H'"
proof -
  have "k = bw_pos (H' v) \<and> biow_ok (H' v) \<and> bw_len (H' v) \<le> m'" if "(k, v) \<in> set (mm_pairs t)" for k v
  proof -
    have "v \<in> set (mm_vals t)" using that by (force simp: mm_vals_def)
    then show ?thesis using assms that by (auto simp: index_ok_def biow_ok_def intro: order_trans)
  qed
  then show ?thesis using assms(1) by (auto simp: index_ok_def)
qed

context rb_contract
begin

lemma index_add:
  assumes ix: "index_ok rb_good t m H" and b: "biow_ok (H b)" "b \<notin> set (mm_vals t)" "b \<noteq> INVALID_VAL"
    and add: "multimap_add rb_ins t (bw_pos (H b)) b al = (e, t')"
  shows "case e of None \<Rightarrow> index_ok rb_good t' (max m (bw_len (H b))) H \<and> set (mm_vals t') = insert b (set (mm_vals t))
         | Some err \<Rightarrow> err = ENOMEM \<and> t' = t \<and> \<not> (cell_ok al \<and> head_ok al \<and> node_ok al)"
proof -
  let ?k = "bw_pos (H b)"
  have wf: "multimap_wf rb_good t" using ix by (simp add: index_ok_def)
  have nb: "b \<notin> set (cells_at t ?k)" using b(2) index_ok_vals(3) [OF ix] by simp
  note sp = multimap_add_spec [OF wf, where key = ?k and val = b and al = al, unfolded add prod.case]
  show ?thesis
  proof (cases e)
    case None
    then have t': "multimap_wf rb_good t'" "cells_at t' = (cells_at t)(?k := b # cells_at t ?k)"
      using sp by auto
    have ps: "set (mm_pairs t') = insert (?k, b) (set (mm_pairs t))"
      using set_mm_pairs [OF multimap_wf_sorted [OF wf]] set_mm_pairs [OF multimap_wf_sorted [OF t'(1)]]
      by (auto simp: t'(2) split: if_splits)
    have "index_ok rb_good t' (max m (bw_len (H b))) H"
      using ix b(1) t'(1) unfolding index_ok_def ps by (auto simp: max_def)
    then show ?thesis using None ps by (simp add: mm_vals_def)
  next
    case (Some err)
    then show ?thesis using sp nb b(3) by (cases err) auto
  qed
qed

lemma index_del:
  assumes ix: "index_ok rb_good t m H" and b: "b \<in> set (mm_vals t)"
    and del: "multimap_del rb_del t (bw_pos (H b)) b = (v, t')"
  shows "v = b" "index_ok rb_good t' m H" "set (mm_vals t') = set (mm_vals t) - {b}"
proof -
  let ?k = "bw_pos (H b)"
  have wf: "multimap_wf rb_good t" using ix by (simp add: index_ok_def)
  have c: "b \<in> set (cells_at t ?k)" using b index_ok_vals(3) [OF ix] by simp
  note sp = multimap_del_spec [OF wf, where key = ?k and val = b, unfolded del Let_def prod.case]
  then show "v = b" using c by simp
  have t': "multimap_wf rb_good t'" "cells_at t' = (cells_at t)(?k := filter (\<lambda>x. x \<noteq> b) (cells_at t ?k))"
    using sp by auto
  have ps: "set (mm_pairs t') = set (mm_pairs t) - {(?k, b)}"
    using set_mm_pairs [OF multimap_wf_sorted [OF wf]] set_mm_pairs [OF multimap_wf_sorted [OF t'(1)]]
    by (auto simp: t'(2) split: if_splits)
  then show ix': "index_ok rb_good t' m H" using ix t'(1) by (auto simp: index_ok_def)
  show "set (mm_vals t') = set (mm_vals t) - {b}"
    using index_ok_pair [OF ix] index_ok_pair [OF ix'] ps by auto
qed

end

lemma multimap_is_empty_vals: "multimap_wf rb_good t \<Longrightarrow> multimap_is_empty t \<longleftrightarrow> mm_vals t = []"
  using multimap_wf_head(2) [of rb_good t "hd (keys t)"]
  by (cases "keys t") (auto simp: multimap_is_empty_def map_is_empty_def mm_vals_def mm_pairs_def rb_first_inorder)

end
