(* ===== verification/Walb_Pack.thy ===== *)
theory Walb_Pack
  imports Walb_Logpack Walb_Biow_Index
begin

text \<open>
  Write packs of \<^verbatim>\<open>module/io.c\<close>: how the bio wrappers taken from the submit queue are
  arranged into logpacks.  A pack owns one logpack header sector and the list of its wrappers
  (addresses into the wrapper store).  \<^verbatim>\<open>pk_linked\<close> says whether the pack's list node is
  linked: \<^verbatim>\<open>list_add_tail\<close> of a linked node corrupts the list, which is the value
  \<^const>\<open>None\<close> here, as is a NULL \<^verbatim>\<open>copied_bio\<close>.  The outcome of the two allocations
  of a new pack is an argument.
\<close>

section \<open>Packs\<close>

record pack =
  pk_linked :: bool
  pk_biow_list :: "ulong list"
  pk_header :: walb_logpack_header
  pk_sector_size :: u32
  pk_header_bioe :: bio_entry
  pk_new_permanent_lsid :: u64
  pk_is_zero_flush_only :: bool
  pk_is_flush_header :: bool
  pk_is_fua_contained :: bool
  pk_is_logpack_failed :: bool

text \<open>The argument is what \<^verbatim>\<open>kmem_cache_alloc\<close> returns: memory with arbitrary contents.\<close>

definition create_pack :: "pack option \<Rightarrow> pack option" where
  "create_pack mem =
     map_option (\<lambda>pack. pack\<lparr>pk_linked := False, pk_biow_list := [],
       pk_header_bioe := bio_entry_clear (pk_header_bioe pack), pk_is_zero_flush_only := False,
       pk_is_flush_header := False, pk_is_fua_contained := False, pk_is_logpack_failed := False,
       pk_new_permanent_lsid := INVALID_LSID\<rparr>) mem"

text \<open>A zero-filled header sector of \<^verbatim>\<open>pbs\<close> bytes.\<close>

definition zero_logpack_header :: "u32 \<Rightarrow> walb_logpack_header" where
  "zero_logpack_header pbs = \<lparr>lh_checksum = 0, lh_sector_type = 0, lh_total_io_size = 0,
     lh_logpack_lsid = 0, lh_n_records = 0, lh_n_padding = 0, lh_reserved1 = 0,
     lh_record = replicate (unat (max_n_log_record_in_sector pbs)) zero_log_record,
     lh_tail = replicate ((unat pbs - 24) mod 32) 0\<rparr>"

definition create_writepack :: "pack option \<times> bool \<Rightarrow> u32 \<Rightarrow> u64 \<Rightarrow> pack option" where
  "create_writepack alloc pbs logpack_lsid =
     (case create_pack (fst alloc) of
        None \<Rightarrow> None
      | Some pack \<Rightarrow>
          if \<not> snd alloc then None
          else Some (pack\<lparr>pk_sector_size := pbs,
                 pk_header := (zero_logpack_header pbs)\<lparr>lh_sector_type := SECTOR_TYPE_LOGPACK,
                   lh_logpack_lsid := logpack_lsid\<rparr>\<rparr>))"

definition is_zero_flush_only :: "pack \<Rightarrow> bool" where
  "is_zero_flush_only pack = (lh_n_records (pk_header pack) = 0 \<and> pk_biow_list pack \<noteq> [])"

definition is_pack_size_too_large :: "walb_logpack_header \<Rightarrow> u32 \<Rightarrow> u32 \<Rightarrow> bio_wrapper \<Rightarrow> bool" where
  "is_pack_size_too_large lhead pbs max_logpack_pb biow =
     (if max_logpack_pb = 0 then False
      else if bio_wrapper_state_is_discard biow then False
      else (let pb = ucast (capacity_pb pbs (ucast (bw_len biow))) :: u32 in
            pb + ucast (lh_total_io_size lhead) > max_logpack_pb))"

definition pack_header_should_flush :: "pack \<Rightarrow> bool" where
  "pack_header_should_flush pack = (pk_is_flush_header pack \<and> \<not> pk_is_fua_contained pack)"

definition update_biow_lsid :: "walb_logpack_header \<Rightarrow> bio_wrapper \<Rightarrow> bio_wrapper" where
  "update_biow_lsid logh biow =
     (if lh_n_records logh = 0 then biow
      else biow\<lparr>bw_lsid := lr_lsid (lh_record logh ! (unat (lh_n_records logh) - 1))\<rparr>)"

definition writepack_check_and_set_zeroflush :: "pack \<Rightarrow> bool \<Rightarrow> pack \<times> bool" where
  "writepack_check_and_set_zeroflush wpack is_flush =
     (if lh_n_records (pk_header wpack) = 0 then (wpack\<lparr>pk_is_zero_flush_only := True\<rparr>, True)
      else (wpack, is_flush))"

definition list_add_tail_pack :: "pack \<Rightarrow> pack list \<Rightarrow> (pack \<times> pack list) option" where
  "list_add_tail_pack pack wpack_list =
     (if pk_linked pack then None
      else let pack' = pack\<lparr>pk_linked := True\<rparr> in Some (pack', wpack_list @ [pack']))"

section \<open>Adding a wrapper\<close>

record wp_state =
  wp_list :: "pack list"
  wp_pack :: "pack option"
  wp_latest :: u64
  wp_is_flush :: bool
  wp_store :: biow_store

text \<open>The attempt to put the bio into the current pack.\<close>

definition add_to_current ::
    "u32 \<Rightarrow> u64 \<Rightarrow> u32 \<Rightarrow> bio_wrapper \<Rightarrow> bio \<Rightarrow> pack \<Rightarrow> bool \<times> walb_logpack_header" where
  "add_to_current pbs ring_buffer_size max_logpack_pb biow b pack =
     (let lhead = pk_header pack in
      if is_zero_flush_only pack then (False, lhead)
      else if lh_n_records lhead > 0 \<and>
           (bio_has_flush (Some b) \<or> is_pack_size_too_large lhead pbs max_logpack_pb biow)
      then (False, lhead)
      else walb_logpack_header_add_bio lhead b pbs ring_buffer_size)"

text \<open>The end of the function: the wrapper is in the pack.\<close>

definition add_finish :: "ulong \<Rightarrow> bio \<Rightarrow> pack \<Rightarrow> wp_state \<Rightarrow> wp_state" where
  "add_finish biow b pack st =
     (let pack1 = pack\<lparr>pk_biow_list := pk_biow_list pack @ [biow]\<rparr>;
          pack2 = (if bi_fua b then pack1\<lparr>pk_is_fua_contained := True\<rparr> else pack1) in
      st\<lparr>wp_pack := Some pack2,
         wp_is_flush := (wp_is_flush st \<or> bio_has_flush (Some b) \<and> \<not> bi_fua b),
         wp_store := (wp_store st)
           (biow := update_biow_lsid (pk_header pack) (wp_store st biow))\<rparr>)"

text \<open>The label \<^verbatim>\<open>newpack\<close>: the current pack, if any, is closed and a new one created.\<close>

definition close_pack :: "pack \<Rightarrow> wp_state \<Rightarrow> wp_state option" where
  "close_pack pack st =
     (let (pack1, fl) = writepack_check_and_set_zeroflush pack (wp_is_flush st) in
      map_option (\<lambda>(pack2, wl). st\<lparr>wp_list := wl, wp_pack := Some pack2, wp_is_flush := fl,
          wp_latest := get_next_lsid_unsafe (pk_header pack2)\<rparr>)
        (list_add_tail_pack pack1 (wp_list st)))"

definition add_to_new ::
    "pack option \<times> bool \<Rightarrow> u32 \<Rightarrow> u64 \<Rightarrow> ulong \<Rightarrow> bio \<Rightarrow> wp_state \<Rightarrow> bool \<times> wp_state" where
  "add_to_new alloc pbs ring_buffer_size biow b st =
     (case create_writepack alloc pbs (wp_latest st) of
        None \<Rightarrow> (False, st)
      | Some pack \<Rightarrow>
          (let lhead = snd (walb_logpack_header_add_bio (pk_header pack) b pbs ring_buffer_size) in
           (True, add_finish biow b (pack\<lparr>pk_header := lhead\<rparr>) st)))"

definition writepack_add_bio_wrapper ::
    "pack option \<times> bool \<Rightarrow> u32 \<Rightarrow> u64 \<Rightarrow> u32 \<Rightarrow> ulong \<Rightarrow> wp_state \<Rightarrow> (bool \<times> wp_state) option" where
  "writepack_add_bio_wrapper alloc pbs ring_buffer_size max_logpack_pb biow st =
     (case bw_copied_bio (wp_store st biow) of
        None \<Rightarrow> None
      | Some b \<Rightarrow>
          (case wp_pack st of
             None \<Rightarrow> Some (add_to_new alloc pbs ring_buffer_size biow b st)
           | Some pack \<Rightarrow>
               (let (ok, lhead) = add_to_current pbs ring_buffer_size max_logpack_pb
                      (wp_store st biow) b pack;
                    pack1 = pack\<lparr>pk_header := lhead\<rparr> in
                if ok then Some (True, add_finish biow b pack1 st)
                else map_option (add_to_new alloc pbs ring_buffer_size biow b) (close_pack pack1 st))))"

text \<open>
  The loop of \<^verbatim>\<open>create_logpack_list\<close>.  The list holds the outcome of the allocations of
  each attempt; a failed attempt is retried, and running out of outcomes is \<^const>\<open>None\<close>.
\<close>

fun add_all ::
    "(pack option \<times> bool) list \<Rightarrow> u32 \<Rightarrow> u64 \<Rightarrow> u32 \<Rightarrow> ulong list \<Rightarrow> wp_state \<Rightarrow> wp_state option" where
  "add_all allocs pbs rbs max_pb [] st = Some st"
| "add_all [] pbs rbs max_pb (b # bs) st = None"
| "add_all (a # allocs) pbs rbs max_pb (b # bs) st =
     (case writepack_add_bio_wrapper a pbs rbs max_pb b st of
        None \<Rightarrow> None
      | Some (ok, st1) \<Rightarrow> if ok then add_all allocs pbs rbs max_pb bs st1
                         else add_all allocs pbs rbs max_pb (b # bs) st1)"

definition create_packs ::
    "(pack option \<times> bool) list \<Rightarrow> u32 \<Rightarrow> u64 \<Rightarrow> u32 \<Rightarrow> ulong list \<Rightarrow> u64 \<Rightarrow> biow_store \<Rightarrow> wp_state option" where
  "create_packs allocs pbs rbs max_pb biow_list latest_lsid H =
     Option.bind (add_all allocs pbs rbs max_pb biow_list
         \<lparr>wp_list = [], wp_pack = None, wp_latest = latest_lsid, wp_is_flush = False, wp_store = H\<rparr>)
       (\<lambda>st. case wp_pack st of None \<Rightarrow> Some st | Some pack \<Rightarrow> close_pack pack st)"

section \<open>The validator\<close>

text \<open>
  \<^verbatim>\<open>op_is_write\<close> of the kernel: the lowest bit of the operation number, which reads and
  plain flushes lack.
\<close>

definition op_is_write :: "req_op \<Rightarrow> bool" where
  "op_is_write op = (op \<noteq> REQ_OP_READ \<and> op \<noteq> REQ_OP_FLUSH)"

definition rec_exist :: "walb_log_record \<Rightarrow> bool" where
  "rec_exist r = test_bit_u32 LOG_RECORD_EXIST (lr_flags r)"

definition check_record :: "walb_logpack_header \<Rightarrow> bio_wrapper \<Rightarrow> bio \<Rightarrow> walb_log_record \<Rightarrow> bool" where
  "check_record lhead biow b lrec =
     (op_is_write (bi_op b) \<and> bw_pos biow = lr_offset lrec \<and>
      lh_logpack_lsid lhead = lr_lsid lrec - ucast (lr_lsid_local lrec) \<and>
      bw_len biow = lr_io_size lrec \<and>
      (rec_discard lrec \<longleftrightarrow> bio_wrapper_state_is_discard biow))"

definition record_size :: "u32 \<Rightarrow> walb_log_record \<Rightarrow> u64" where
  "record_size pbs lrec =
     (if rec_discard lrec then 0 else capacity_pb pbs (ucast (lr_io_size lrec)))"

fun prepared_loop ::
    "biow_store \<Rightarrow> u32 \<Rightarrow> walb_logpack_header \<Rightarrow> ulong list \<Rightarrow> nat \<Rightarrow> u64 \<Rightarrow> nat \<Rightarrow> (nat \<times> u64 \<times> nat) option" where
  "prepared_loop H pbs lhead [] i total_pb n_padding = Some (i, total_pb, n_padding)"
| "prepared_loop H pbs lhead (a # as) i total_pb n_padding =
     (case bw_bio (H a) of
        None \<Rightarrow> None
      | Some b \<Rightarrow>
          if bw_len (H a) = 0 then
            (if bio_has_flush (Some b) \<and> i = 0 \<and> lh_n_records lhead = 0 \<and> lh_total_io_size lhead = 0
             then prepared_loop H pbs lhead as i total_pb n_padding else None)
          else if \<not> i < unat (lh_n_records lhead) \<or> \<not> rec_exist (lh_record lhead ! i) then None
          else if rec_padding (lh_record lhead ! i) then
            (if Suc i < unat (lh_n_records lhead) \<and> rec_exist (lh_record lhead ! Suc i) \<and>
                check_record lhead (H a) b (lh_record lhead ! Suc i)
             then prepared_loop H pbs lhead as (i + 2)
               (total_pb + capacity_pb pbs (ucast (lr_io_size (lh_record lhead ! i))) +
                  record_size pbs (lh_record lhead ! Suc i)) (n_padding + 1)
             else None)
          else if check_record lhead (H a) b (lh_record lhead ! i)
          then prepared_loop H pbs lhead as (i + 1)
            (total_pb + record_size pbs (lh_record lhead ! i)) n_padding
          else None)"

definition is_prepared_pack_valid :: "biow_store \<Rightarrow> pack \<Rightarrow> bool" where
  "is_prepared_pack_valid H pack =
     (let lhead = pk_header pack; pbs = pk_sector_size pack in
      is_valid_logpack_header lhead \<and> pk_biow_list pack \<noteq> [] \<and>
      (case prepared_loop H pbs lhead (pk_biow_list pack) 0 0 0 of
         None \<Rightarrow> False
       | Some (i, total_pb, n_padding) \<Rightarrow>
           (let last = lh_record lhead ! i;
                more = i < unat (lh_n_records lhead);
                total1 = (if more then total_pb + capacity_pb pbs (ucast (lr_io_size last)) else total_pb);
                n_pad1 = (if more then n_padding + 1 else n_padding);
                i1 = (if more then i + 1 else i) in
            (more \<longrightarrow> rec_exist last \<and> rec_padding last) \<and>
            i1 = unat (lh_n_records lhead) \<and> total1 = ucast (lh_total_io_size lhead) \<and>
            n_pad1 \<le> 1 \<and> n_pad1 = unat (lh_n_padding lhead) \<and>
            (lh_n_records lhead = 0 \<longrightarrow> pk_is_zero_flush_only pack))))"

definition is_pack_list_valid :: "biow_store \<Rightarrow> pack list \<Rightarrow> bool" where
  "is_pack_list_valid H pack_list = list_all (is_prepared_pack_valid H) pack_list"

section \<open>What adding a bio does to a header\<close>

lemma unat_add_le: "unat (a + b) \<le> unat a + unat (b :: 'a::len word)"
  by (simp add: unat_word_ariths)

lemma unat_ucast_le: "unat (ucast (a :: 'a::len word) :: 'b::len word) \<le> unat a"
  by (simp add: unsigned_ucast_eq)

lemma add_io_record_fields:
  "lh_logpack_lsid (snd (add_io_record h b pb l)) = lh_logpack_lsid h"
  "unat (lh_total_io_size (snd (add_io_record h b pb l))) \<le>
     unat (lh_total_io_size h) + (if bi_op b = REQ_OP_DISCARD then 0 else unat pb)"
proof -
  have "unat (lh_total_io_size h + ucast pb) \<le> unat (lh_total_io_size h) + unat pb"
    using unat_add_le [of "lh_total_io_size h" "ucast pb"] unat_ucast_le [where a = pb and 'b = 16]
    by linarith
  then show "unat (lh_total_io_size (snd (add_io_record h b pb l))) \<le>
     unat (lh_total_io_size h) + (if bi_op b = REQ_OP_DISCARD then 0 else unat pb)"
    by (simp add: add_io_record_def Let_def)
qed (simp add: add_io_record_def Let_def)

lemma padded_fields:
  "lh_logpack_lsid (padded pbs rbs h) = lh_logpack_lsid h"
  "unat (lh_total_io_size (padded pbs rbs h)) \<le> unat (lh_total_io_size h) + unat (ring_room rbs h)"
  using unat_add_le [of "lh_total_io_size h" "ucast (ring_room rbs h)"]
    unat_ucast_le [where a = "ring_room rbs h" and 'b = 16]
  by (simp_all add: padded_def)

lemma add_bio_lsid [simp]:
  "lh_logpack_lsid (snd (walb_logpack_header_add_bio h b pbs rbs)) = lh_logpack_lsid h"
  by (simp add: add_bio_paths add_io_record_fields padded_fields)

lemma add_bio_total:
  "unat (lh_total_io_size (snd (walb_logpack_header_add_bio h b pbs rbs))) \<le>
     unat (lh_total_io_size h) + (if bi_op b = REQ_OP_DISCARD then 0 else 2 * unat (bio_pbs pbs b))"
proof (cases "bi_op b \<noteq> REQ_OP_DISCARD \<and> ring_room rbs h < ucast (bio_pbs pbs b)")
  case True
  then have "unat (ring_room rbs h) < unat (bio_pbs pbs b)" by (simp add: word_less_nat_alt)
  then show ?thesis
    using True padded_fields(2) [of pbs rbs h]
      add_io_record_fields(2) [of "padded pbs rbs h" b "bio_pbs pbs b" "next_lsid h + ring_room rbs h"]
    by (auto simp: add_bio_paths)
next
  case False
  then show ?thesis
    using add_io_record_fields(2) [of h b "bio_pbs pbs b" "next_lsid h"] by (auto simp: add_bio_paths)
qed

text \<open>A rejected bio leaves at most padding behind.\<close>

lemma add_bio_rejected:
  assumes inv: "logpack_inv pbs rbs h" and pbs: "is_valid_pbs pbs" "unat pbs \<le> 2 ^ 20"
    and rej: "\<not> fst (walb_logpack_header_add_bio h b pbs rbs)"
  shows "\<exists>pads. used_records (snd (walb_logpack_header_add_bio h b pbs rbs)) = used_records h @ pads \<and>
    (\<forall>q \<in> set pads. rec_padding q)"
proof -
  have pbs24: "24 \<le> unat pbs" using pbs(1) by (simp add: is_valid_pbs_unat)
  let ?h = "snd (walb_logpack_header_add_bio h b pbs rbs)"
  have "?h = h \<or> (ucast (lh_n_records h) \<noteq> max_n_log_record_in_sector pbs \<and> ?h = padded pbs rbs h)"
    using rej by (auto simp: add_bio_paths add_io_record_def Let_def split: if_splits)
  then show ?thesis
  proof
    assume c: "ucast (lh_n_records h) \<noteq> max_n_log_record_in_sector pbs \<and> ?h = padded pbs rbs h"
    note room = n_records_room [OF inv pbs(2) pbs24 conjunct1 [OF c]]
    let ?pad = "padding_record pbs (lh_record h ! unat (lh_n_records h)) (next_lsid h)
      (lh_logpack_lsid h) (ring_room rbs h)"
    have "used_records (padded pbs rbs h) = used_records h @ [?pad]"
      by (rule used_records_push(1) [OF room]) (simp_all add: padded_def)
    moreover have "lr_flags (lh_record h ! unat (lh_n_records h)) = 0"
      using inv room(1) unfolding logpack_inv_def by (metis Cons_nth_drop_Suc list.set_intros(1))
    then have "rec_padding ?pad" by (rule padding_record_flags(2))
    ultimately show ?thesis using c by (intro exI [of _ "[?pad]"]) simp
  qed (simp add: exI [of _ "[]"])
qed

text \<open>A fresh header accepts any bio of half the maximal logpack.\<close>

definition fresh_header :: "u32 \<Rightarrow> u64 \<Rightarrow> walb_logpack_header" where
  "fresh_header pbs l = (zero_logpack_header pbs)\<lparr>lh_sector_type := SECTOR_TYPE_LOGPACK,
     lh_logpack_lsid := l\<rparr>"

lemma fresh_header_inv:
  assumes "unat l + 65536 \<le> unat MAX_LSID"
  shows "logpack_inv pbs rbs (fresh_header pbs l)"
  using assms
  by (simp add: logpack_inv_def fresh_header_def zero_logpack_header_def used_records_def
      zero_log_record_def)

lemma max_n_log_record_ge: "is_valid_pbs pbs \<Longrightarrow> 2 \<le> unat (max_n_log_record_in_sector pbs)"
proof -
  assume "is_valid_pbs pbs"
  then have "512 \<le> unat pbs" by (simp add: is_valid_pbs_unat)
  moreover from this have "unat (pbs - 24) = unat pbs - 24"
    by (subst unat_sub_nowrap) (simp_all add: word_le_nat_alt)
  ultimately show ?thesis by (simp add: max_n_log_record_in_sector_def unat_div)
qed

lemma fresh_accepts:
  assumes pbs: "is_valid_pbs pbs"
    and pb: "bi_op b \<noteq> REQ_OP_DISCARD \<Longrightarrow> 2 * pb_of pbs (unat (bio_sectors b)) \<le> 65535"
  shows "fst (walb_logpack_header_add_bio (fresh_header pbs l) b pbs rbs)"
proof -
  let ?h = "fresh_header pbs l" and ?r = "ring_room rbs (fresh_header pbs l)"
  have h: "lh_n_records ?h = 0" "lh_total_io_size ?h = 0"
    by (simp_all add: fresh_header_def zero_logpack_header_def)
  have max: "max_n_log_record_in_sector pbs \<noteq> 0" "max_n_log_record_in_sector pbs \<noteq> 1"
    using max_n_log_record_ge [OF pbs] by auto
  note bp = unat_bio_pbs [OF pbs, of b]
  have plain: "\<not> (bi_op b \<noteq> REQ_OP_DISCARD \<and> bio_pbs pbs b > MAX_TOTAL_IO_SIZE_IN_LOGPACK_HEADER)"
    using pb bp by (auto simp: word_less_nat_alt MAX_TOTAL_IO_SIZE_IN_LOGPACK_HEADER_def)
  have pad: "\<not> ?r > ucast MAX_TOTAL_IO_SIZE_IN_LOGPACK_HEADER \<and>
      \<not> ucast (lh_total_io_size (padded pbs rbs ?h)) + bio_pbs pbs b > MAX_TOTAL_IO_SIZE_IN_LOGPACK_HEADER"
    if "bi_op b \<noteq> REQ_OP_DISCARD" "?r < ucast (bio_pbs pbs b)"
  proof -
    have r: "unat ?r < unat (bio_pbs pbs b)" using that(2) by (simp add: word_less_nat_alt)
    have "unat (ucast (lh_total_io_size (padded pbs rbs ?h)) + bio_pbs pbs b) \<le>
        unat (lh_total_io_size (padded pbs rbs ?h)) + unat (bio_pbs pbs b)"
      using unat_add_le [of "ucast (lh_total_io_size (padded pbs rbs ?h))" "bio_pbs pbs b"] by simp
    also have "\<dots> \<le> unat ?r + unat (bio_pbs pbs b)" using padded_fields(2) [of pbs rbs ?h] h by simp
    also have "\<dots> \<le> 65535" using r pb [OF that(1)] bp by simp
    finally show ?thesis
      using r pb [OF that(1)] bp
      by (simp add: word_less_nat_alt MAX_TOTAL_IO_SIZE_IN_LOGPACK_HEADER_def not_less)
  qed
  have n: "lh_n_records (padded pbs rbs ?h) = 1" using h by (simp add: padded_def)
  show ?thesis
  proof (cases "bi_op b \<noteq> REQ_OP_DISCARD \<and> ?r < ucast (bio_pbs pbs b)")
    case True
    then show ?thesis
      using pad max by (auto simp: add_bio_paths h n add_io_record_def Let_def)
  next
    case False
    then show ?thesis
      using plain max by (auto simp: add_bio_paths h add_io_record_def Let_def)
  qed
qed

section \<open>Well-formed packs\<close>

text \<open>
  What \<^verbatim>\<open>iocore_make_request\<close> and the block layer guarantee of a write that reaches the
  submit queue: the copy has the operation of the original, the wrapper describes the copy, an
  empty write is a flush, and an ordinary write has at most \<^verbatim>\<open>P\<close> physical blocks.
\<close>

definition log_req :: "u32 \<Rightarrow> nat \<Rightarrow> bio_wrapper \<Rightarrow> bool" where
  "log_req pbs P w \<longleftrightarrow>
     (case (bw_copied_bio w, bw_bio w) of
        (Some b, Some b0) \<Rightarrow>
          bi_op b0 = bi_op b \<and> bi_preflush b0 = bi_preflush b \<and> op_is_write (bi_op b) \<and>
          bw_pos w = bio_begin_sector b \<and> bw_len w = bio_sectors b \<and>
          (bio_wrapper_state_is_discard w \<longleftrightarrow> bi_op b = REQ_OP_DISCARD) \<and>
          (bw_len w = 0 \<longrightarrow> bio_has_flush (Some b)) \<and>
          (bi_op b \<noteq> REQ_OP_DISCARD \<longrightarrow>
             unat (bw_len w) \<le> 65535 \<and> pb_of pbs (unat (bw_len w)) \<le> P)
      | _ \<Rightarrow> False)"

text \<open>A wrapper and the log record made for it.\<close>

definition logged_as :: "bio_wrapper \<Rightarrow> walb_log_record \<Rightarrow> bool" where
  "logged_as w r \<longleftrightarrow> bw_pos w = lr_offset r \<and> bw_len w = lr_io_size r \<and>
     (rec_discard r \<longleftrightarrow> bio_wrapper_state_is_discard w) \<and> bw_lsid w = lr_lsid r"

definition io_records :: "walb_logpack_header \<Rightarrow> walb_log_record list" where
  "io_records h = filter (\<lambda>r. \<not> rec_padding r) (used_records h)"

definition pack_logs :: "biow_store \<Rightarrow> pack \<Rightarrow> bool" where
  "pack_logs H p \<longleftrightarrow>
     (if lh_n_records (pk_header p) = 0 then \<exists>b. pk_biow_list p = [b] \<and> bw_len (H b) = 0
      else (\<forall>b \<in> set (pk_biow_list p). bw_len (H b) \<noteq> 0) \<and>
           list_all2 (\<lambda>b r. logged_as (H b) r) (pk_biow_list p) (io_records (pk_header p)))"

definition pack_ok :: "u32 \<Rightarrow> u64 \<Rightarrow> nat \<Rightarrow> biow_store \<Rightarrow> pack \<Rightarrow> bool" where
  "pack_ok pbs rbs T H p \<longleftrightarrow> logpack_inv pbs rbs (pk_header p) \<and> pk_sector_size p = pbs \<and>
     pk_biow_list p \<noteq> [] \<and> unat (lh_total_io_size (pk_header p)) \<le> T \<and> pack_logs H p"

lemma pack_logs_cong:
  assumes "\<And>b. b \<in> set (pk_biow_list p) \<Longrightarrow> H' b = H b"
  shows "pack_logs H' p = pack_logs H p"
proof -
  have "list_all2 (\<lambda>b r. logged_as (H' b) r) (pk_biow_list p) rs =
      list_all2 (\<lambda>b r. logged_as (H b) r) (pk_biow_list p) rs" for rs
    using assms by (auto simp: list_all2_conv_all_nth)
  then show ?thesis using assms by (auto simp: pack_logs_def)
qed

lemma pack_ok_cong:
  "(\<And>b. b \<in> set (pk_biow_list p) \<Longrightarrow> H' b = H b) \<Longrightarrow> pack_ok pbs rbs T H' p = pack_ok pbs rbs T H p"
  using pack_logs_cong [of p H' H] by (simp add: pack_ok_def)

lemma pack_ok_fields [simp]:
  "pack_ok pbs rbs T H (p\<lparr>pk_linked := x\<rparr>) = pack_ok pbs rbs T H p"
  "pack_ok pbs rbs T H (p\<lparr>pk_is_zero_flush_only := z\<rparr>) = pack_ok pbs rbs T H p"
  "pack_ok pbs rbs T H (p\<lparr>pk_is_fua_contained := f\<rparr>) = pack_ok pbs rbs T H p"
  by (simp_all add: pack_ok_def pack_logs_def)

lemma update_biow_lsid_fields [simp]:
  "bw_pos (update_biow_lsid h w) = bw_pos w" "bw_len (update_biow_lsid h w) = bw_len w"
  "bw_copied_bio (update_biow_lsid h w) = bw_copied_bio w" "bw_bio (update_biow_lsid h w) = bw_bio w"
  "bio_wrapper_state_is_discard (update_biow_lsid h w) = bio_wrapper_state_is_discard w"
  by (simp_all add: update_biow_lsid_def bio_wrapper_state_is_discard_def)

lemma log_req_update [simp]: "log_req pbs P (update_biow_lsid h w) = log_req pbs P w"
  by (simp add: log_req_def cong: option.case_cong)

lemma used_records_Nil: "logpack_inv pbs rbs h \<Longrightarrow> used_records h = [] \<longleftrightarrow> lh_n_records h = 0"
  by (auto simp: logpack_inv_def used_records_def word_unat_eq_iff)

text \<open>The pack after a wrapper has been put into it, header and list.\<close>

definition pack_push :: "ulong \<Rightarrow> pack \<Rightarrow> walb_logpack_header \<Rightarrow> pack" where
  "pack_push a p h = p\<lparr>pk_header := h, pk_biow_list := pk_biow_list p @ [a]\<rparr>"

lemma pack_logs_push:
  assumes inv: "logpack_inv pbs rbs h" and pbs: "is_valid_pbs pbs" "unat pbs \<le> 2 ^ 20" "0 < rbs"
    and h: "pk_header p = h" and b: "bw_copied_bio (H a) = Some b" "log_req pbs P (H a)"
    and load: "bio_loggable pbs rbs h b"
    and ok: "fst (walb_logpack_header_add_bio h b pbs rbs)"
    and p: "(pk_biow_list p = [] \<and> lh_n_records h = 0) \<or>
      (pack_logs H p \<and> lh_n_records h \<noteq> 0 \<and> bw_len (H a) \<noteq> 0)"
    and new: "a \<notin> set (pk_biow_list p)"
  defines "h' \<equiv> snd (walb_logpack_header_add_bio h b pbs rbs)"
  shows "pack_logs (H(a := update_biow_lsid h' (H a))) (pack_push a p h')"
proof (cases "bw_len (H a) = 0")
  case True
  then have "bio_sectors b = 0" using b by (auto simp: log_req_def split: option.splits)
  then have "h' = h" unfolding h'_def by (simp add: add_bio_paths)
  then show ?thesis using p True by (auto simp: pack_logs_def pack_push_def)
next
  case False
  let ?w = "update_biow_lsid h' (H a)"
  have nz: "bio_sectors b \<noteq> 0" and fields: "bw_pos (H a) = bio_begin_sector b"
      "bw_len (H a) = bio_sectors b" "bio_wrapper_state_is_discard (H a) = (bi_op b = REQ_OP_DISCARD)"
    using b False by (auto simp: log_req_def split: option.splits)
  from add_bio_records [OF inv pbs load nz ok]
  obtain pads r where u: "used_records h' = used_records h @ pads @ [r]"
    and r: "\<forall>q \<in> set pads. rec_padding q" "lr_offset r = bio_begin_sector b" "lr_io_size r = bio_sectors b"
      "rec_discard r = (bi_op b = REQ_OP_DISCARD)" "\<not> rec_padding r" unfolding h'_def by blast
  have inv': "logpack_inv pbs rbs h'" unfolding h'_def by (rule add_bio_inv [OF inv pbs load])
  then have le: "unat (lh_n_records h') \<le> length (lh_record h')" by (simp add: logpack_inv_def)
  have "used_records h' = (used_records h @ pads) @ [r]" using u by simp
  note last = last_used_record [OF this le]
  have n: "lh_n_records h' \<noteq> 0" using last(2) by auto
  have io: "io_records h' = io_records h @ [r]"
    using u r by (simp add: io_records_def filter_empty_conv)
  have log: "logged_as ?w r"
    using r fields last(1) n by (simp add: logged_as_def update_biow_lsid_def bio_wrapper_state_is_discard_def)
  have rest: "(\<forall>c \<in> set (pk_biow_list p). bw_len (H c) \<noteq> 0) \<and>
      list_all2 (\<lambda>c r. logged_as (H c) r) (pk_biow_list p) (io_records h)"
    using p
  proof
    assume e: "pk_biow_list p = [] \<and> lh_n_records h = 0"
    then have "used_records h = []" using used_records_Nil [OF inv] by simp
    then show ?thesis using e by (simp add: io_records_def)
  qed (use h in \<open>auto simp: pack_logs_def\<close>)
  have "list_all2 (\<lambda>c r. logged_as ((H(a := ?w)) c) r) (pk_biow_list p) (io_records h)"
    using rest new by (auto simp: list_all2_conv_all_nth)
  then show ?thesis
    using rest log n io False new by (auto simp: pack_logs_def pack_push_def list_all2_appendI)
qed

section \<open>The packs made from a list of wrappers\<close>

text \<open>Consecutive logpacks: each starts at the lsid where the one before it ends.\<close>

fun packs_chain :: "u64 \<Rightarrow> pack list \<Rightarrow> u64 \<Rightarrow> bool" where
  "packs_chain l [] l' = (l = l')"
| "packs_chain l (p # ps) l' =
     (lh_logpack_lsid (pk_header p) = l \<and> packs_chain (get_next_lsid_unsafe (pk_header p)) ps l')"

lemma packs_chain_snoc:
  "packs_chain l (ps @ [p]) l' \<longleftrightarrow>
     (\<exists>m. packs_chain l ps m \<and> lh_logpack_lsid (pk_header p) = m \<and> get_next_lsid_unsafe (pk_header p) = l')"
  by (induction ps arbitrary: l) auto

definition limits_ok :: "u32 \<Rightarrow> u64 \<Rightarrow> u32 \<Rightarrow> nat \<Rightarrow> bool" where
  "limits_ok pbs rbs max_pb P \<longleftrightarrow> is_valid_pbs pbs \<and> unat pbs \<le> 2 ^ 20 \<and> P \<le> unat max_pb \<and>
     unat max_pb + P < 65535 \<and> P \<le> unat rbs \<and> 0 < rbs \<and> 0 < unat max_pb"

definition pack_done :: "u32 \<Rightarrow> u64 \<Rightarrow> nat \<Rightarrow> biow_store \<Rightarrow> pack \<Rightarrow> bool" where
  "pack_done pbs rbs T H p \<longleftrightarrow>
     pack_ok pbs rbs T H p \<and> (lh_n_records (pk_header p) = 0 \<longrightarrow> pk_is_zero_flush_only p)"

definition current_biows :: "wp_state \<Rightarrow> ulong list" where
  "current_biows st = (case wp_pack st of None \<Rightarrow> [] | Some p \<Rightarrow> pk_biow_list p)"

definition wp_inv :: "u32 \<Rightarrow> u64 \<Rightarrow> nat \<Rightarrow> u64 \<Rightarrow> ulong list \<Rightarrow> wp_state \<Rightarrow> bool" where
  "wp_inv pbs rbs T l0 taken st \<longleftrightarrow>
     (\<forall>p \<in> set (wp_list st). pack_done pbs rbs T (wp_store st) p) \<and>
     packs_chain l0 (wp_list st) (wp_latest st) \<and>
     concat (map pk_biow_list (wp_list st)) @ current_biows st = taken \<and>
     (case wp_pack st of
        None \<Rightarrow> True
      | Some p \<Rightarrow> pack_ok pbs rbs T (wp_store st) p \<and> \<not> pk_linked p \<and>
                  lh_logpack_lsid (pk_header p) = wp_latest st)"

lemma next_lsid_unsafe_le:
  "unat (get_next_lsid_unsafe h) \<le> unat (lh_logpack_lsid h) + 65536"
proof -
  have "unat (lh_logpack_lsid h + 1 + ucast (lh_total_io_size h)) \<le>
      unat (lh_logpack_lsid h + 1) + unat (ucast (lh_total_io_size h) :: u64)"
    by (rule unat_add_le)
  also have "\<dots> \<le> unat (lh_logpack_lsid h) + 1 + 65535"
    using unat_add_le [of "lh_logpack_lsid h" 1] unat_u16_lt [of "lh_total_io_size h"] by simp
  finally show ?thesis by (simp add: get_next_lsid_unsafe_def)
qed

text \<open>Closing the current pack, possibly with a header that got a padding record.\<close>

lemma close_pack_ok:
  assumes inv: "wp_inv pbs rbs T l0 taken st" and cur: "wp_pack st = Some p"
    and p: "pack_ok pbs rbs T (wp_store st) (p\<lparr>pk_header := h\<rparr>)" "lh_logpack_lsid h = lh_logpack_lsid (pk_header p)"
  obtains st' q where "close_pack (p\<lparr>pk_header := h\<rparr>) st = Some st'" "wp_store st' = wp_store st"
    "wp_latest st' = get_next_lsid_unsafe h" "wp_list st' = wp_list st @ [q]" "pk_linked q"
    "wp_pack st' = Some q"
    "\<forall>p \<in> set (wp_list st'). pack_done pbs rbs T (wp_store st') p"
    "packs_chain l0 (wp_list st') (wp_latest st')" "concat (map pk_biow_list (wp_list st')) = taken"
proof -
  let ?q = "fst (writepack_check_and_set_zeroflush (p\<lparr>pk_header := h\<rparr>) (wp_is_flush st))\<lparr>pk_linked := True\<rparr>"
  have nl: "\<not> pk_linked p" and l: "lh_logpack_lsid h = wp_latest st" using inv cur p(2) by (auto simp: wp_inv_def)
  define st' where "st' = st\<lparr>wp_list := wp_list st @ [?q], wp_pack := Some ?q,
    wp_is_flush := snd (writepack_check_and_set_zeroflush (p\<lparr>pk_header := h\<rparr>) (wp_is_flush st)),
    wp_latest := get_next_lsid_unsafe h\<rparr>"
  have eq: "close_pack (p\<lparr>pk_header := h\<rparr>) st = Some st'"
    using nl by (simp add: close_pack_def list_add_tail_pack_def writepack_check_and_set_zeroflush_def st'_def Let_def)
  have q: "pack_done pbs rbs T (wp_store st) ?q" "pk_header ?q = h" "pk_biow_list ?q = pk_biow_list p"
    using p(1) by (simp_all add: pack_done_def writepack_check_and_set_zeroflush_def)
  show thesis
    using inv cur q l
    by (intro that [of st' ?q, OF eq]) (auto simp: st'_def wp_inv_def packs_chain_snoc current_biows_def)
qed

text \<open>Two states of a wrapper that differ in the lsid alone.\<close>

definition only_lsid :: "bio_wrapper \<Rightarrow> bio_wrapper \<Rightarrow> bool" where
  "only_lsid w w' \<longleftrightarrow> w' = w\<lparr>bw_lsid := bw_lsid w'\<rparr>"

lemma only_lsid_simps [simp]: "only_lsid w w" "only_lsid w (update_biow_lsid h w)"
  by (simp_all add: only_lsid_def update_biow_lsid_def)

lemma only_lsid_trans: "only_lsid u v \<Longrightarrow> only_lsid v w \<Longrightarrow> only_lsid u w"
  by (simp add: only_lsid_def) (metis bio_wrapper.surjective bio_wrapper.update_convs(7))

lemma only_lsid_log_req:
  assumes "only_lsid w w'"
  shows "log_req pbs P w' = log_req pbs P w"
proof -
  obtain l where "w' = w\<lparr>bw_lsid := l\<rparr>" using assms by (auto simp: only_lsid_def)
  then show ?thesis by (simp add: log_req_def bio_wrapper_state_is_discard_def cong: option.case_cong)
qed

lemma log_reqD:
  assumes "log_req pbs P w"
  obtains b where "bw_copied_bio w = Some b" "bw_len w = bio_sectors b"
    "bio_wrapper_state_is_discard w = (bi_op b = REQ_OP_DISCARD)"
    "bw_len w = 0 \<Longrightarrow> bio_has_flush (Some b)"
    "bi_op b \<noteq> REQ_OP_DISCARD \<Longrightarrow> unat (bio_sectors b) \<le> 65535 \<and> pb_of pbs (unat (bio_sectors b)) \<le> P"
  using assms by (auto simp: log_req_def split: option.splits)

lemma add_finish_fields [simp]:
  "wp_list (add_finish a b p st) = wp_list st" "wp_latest (add_finish a b p st) = wp_latest st"
  "wp_store (add_finish a b p st) = (wp_store st)(a := update_biow_lsid (pk_header p) (wp_store st a))"
  by (simp_all add: add_finish_def Let_def)

text \<open>Putting a wrapper into a pack that accepts it.\<close>

lemma add_finish_inv:
  assumes lim: "limits_ok pbs rbs max_pb P" and T: "T = unat max_pb + P"
    and closed: "\<forall>p \<in> set (wp_list st). pack_done pbs rbs T (wp_store st) p"
      "packs_chain l0 (wp_list st) (wp_latest st)"
      "concat (map pk_biow_list (wp_list st)) @ pk_biow_list p = taken"
    and a: "a \<notin> set taken" "bw_copied_bio (wp_store st a) = Some b" "log_req pbs P (wp_store st a)"
    and h: "logpack_inv pbs rbs (pk_header p)" "lh_logpack_lsid (pk_header p) = wp_latest st"
    and p: "pk_sector_size p = pbs" "\<not> pk_linked p"
      "(pk_biow_list p = [] \<and> lh_n_records (pk_header p) = 0) \<or>
       (pack_logs (wp_store st) p \<and> lh_n_records (pk_header p) \<noteq> 0 \<and> bw_len (wp_store st a) \<noteq> 0)"
    and load: "bio_loggable pbs rbs (pk_header p) b"
    and size: "bi_op b \<noteq> REQ_OP_DISCARD \<Longrightarrow>
      unat (lh_total_io_size (pk_header p)) + pb_of pbs (unat (bio_sectors b)) \<le> unat max_pb"
      "unat (lh_total_io_size (pk_header p)) \<le> T"
    and ok: "fst (walb_logpack_header_add_bio (pk_header p) b pbs rbs)"
  defines "h' \<equiv> snd (walb_logpack_header_add_bio (pk_header p) b pbs rbs)"
  shows "wp_inv pbs rbs T l0 (taken @ [a]) (add_finish a b (p\<lparr>pk_header := h'\<rparr>) st)"
proof -
  have pbs: "is_valid_pbs pbs" "unat pbs \<le> 2 ^ 20" "0 < rbs" using lim by (auto simp: limits_ok_def)
  define H where "H = (wp_store st)(a := update_biow_lsid h' (wp_store st a))"
  have na: "a \<notin> set (pk_biow_list p)" "\<forall>q \<in> set (wp_list st). a \<notin> set (pk_biow_list q)"
    using closed(3) a(1) by auto
  have logs: "pack_logs H (pack_push a p h')"
    unfolding H_def h'_def
    by (rule pack_logs_push [OF h(1) pbs refl a(2,3) load ok p(3) na(1)])
  have "unat (lh_total_io_size h') \<le> T"
  proof (cases "bi_op b = REQ_OP_DISCARD")
    case True
    then show ?thesis using add_bio_total [of "pk_header p" b pbs rbs] size(2) by (simp add: h'_def)
  next
    case False
    moreover have "pb_of pbs (unat (bio_sectors b)) \<le> P"
      using log_reqD [OF a(3)] a(2) False by (metis option.inject)
    ultimately show ?thesis
      using add_bio_total [of "pk_header p" b pbs rbs] size(1) unat_bio_pbs [OF pbs(1), of b] T
      by (simp add: h'_def)
  qed
  then have "pack_ok pbs rbs T H (pack_push a p h')"
    using logs add_bio_inv [OF h(1) pbs load] p(1) by (simp add: pack_ok_def pack_push_def h'_def)
  then have new: "pack_ok pbs rbs T H (p\<lparr>pk_header := h', pk_biow_list := pk_biow_list p @ [a]\<rparr>)"
    by (simp add: pack_push_def)
  have old: "pack_done pbs rbs T H q" if "q \<in> set (wp_list st)" for q
  proof -
    have "pack_ok pbs rbs T H q = pack_ok pbs rbs T (wp_store st) q"
      using na(2) that by (intro pack_ok_cong) (auto simp: H_def)
    then show ?thesis using closed(1) that by (simp add: pack_done_def)
  qed
  let ?p = "p\<lparr>pk_header := h', pk_biow_list := pk_biow_list p @ [a]\<rparr>"
  have cur: "wp_pack (add_finish a b (p\<lparr>pk_header := h'\<rparr>) st) =
      Some (if bi_fua b then ?p\<lparr>pk_is_fua_contained := True\<rparr> else ?p)"
    by (simp add: add_finish_def Let_def)
  have "wp_store (add_finish a b (p\<lparr>pk_header := h'\<rparr>) st) = H" by (simp add: H_def)
  then show ?thesis
    using new old closed(2,3) h(2) p(2) cur by (simp add: wp_inv_def current_biows_def h'_def)
qed

lemma add_to_new_ok:
  assumes lim: "limits_ok pbs rbs max_pb P" and T: "T = unat max_pb + P"
    and closed: "\<forall>p \<in> set (wp_list st). pack_done pbs rbs T (wp_store st) p"
      "packs_chain l0 (wp_list st) (wp_latest st)" "concat (map pk_biow_list (wp_list st)) = taken"
    and a: "a \<notin> set taken" "bw_copied_bio (wp_store st a) = Some b" "log_req pbs P (wp_store st a)"
    and room: "unat (wp_latest st) + 65536 \<le> unat MAX_LSID" and alloc: "fst al = Some m" "snd al"
  obtains st' where "add_to_new al pbs rbs a b st = (True, st')" "wp_inv pbs rbs T l0 (taken @ [a]) st'"
    "wp_latest st' = wp_latest st" "\<And>c. c \<noteq> a \<Longrightarrow> wp_store st' c = wp_store st c"
    "\<And>c. only_lsid (wp_store st c) (wp_store st' c)"
proof -
  obtain p where p: "create_writepack al pbs (wp_latest st) = Some p"
      "pk_header p = fresh_header pbs (wp_latest st)" "pk_sector_size p = pbs" "\<not> pk_linked p"
      "pk_biow_list p = []"
    using alloc by (simp add: create_writepack_def create_pack_def fresh_header_def)
  let ?h = "snd (walb_logpack_header_add_bio (pk_header p) b pbs rbs)"
  have l: "P \<le> unat max_pb" "unat max_pb + P < 65535" "P \<le> unat rbs" "is_valid_pbs pbs"
    using lim by (simp_all add: limits_ok_def)
  have f: "lh_logpack_lsid (pk_header p) = wp_latest st" "lh_total_io_size (pk_header p) = 0"
      "lh_n_records (pk_header p) = 0"
    using p(2) by (simp_all add: fresh_header_def zero_logpack_header_def)
  have req: "bi_op b \<noteq> REQ_OP_DISCARD \<Longrightarrow>
      unat (bio_sectors b) \<le> 65535 \<and> pb_of pbs (unat (bio_sectors b)) \<le> P"
    using a(2,3) by (auto simp: log_req_def split: option.splits)
  have ok: "fst (walb_logpack_header_add_bio (pk_header p) b pbs rbs)"
    unfolding p(2) using req l by (intro fresh_accepts) auto
  have "wp_inv pbs rbs T l0 (taken @ [a]) (add_finish a b (p\<lparr>pk_header := ?h\<rparr>) st)"
  proof (rule add_finish_inv [OF lim T closed(1,2) _ a])
    show "logpack_inv pbs rbs (pk_header p)" unfolding p(2) by (rule fresh_header_inv [OF room])
    show "bio_loggable pbs rbs (pk_header p) b" using req f l by (auto simp: bio_loggable_def)
  qed (use closed(3) p f req l ok in auto)
  then show thesis
    by (intro that [of "add_finish a b (p\<lparr>pk_header := ?h\<rparr>) st"])
       (simp_all add: add_to_new_def p(1) Let_def)
qed

lemma size_fits:
  assumes "is_valid_pbs pbs" "\<not> is_pack_size_too_large h pbs max_pb w" "\<not> bio_wrapper_state_is_discard w"
    and "unat (bw_len w) \<le> 65535" "0 < unat max_pb"
  shows "unat (lh_total_io_size h) + pb_of pbs (unat (bw_len w)) \<le> unat max_pb"
proof -
  have c: "unat (ucast (capacity_pb pbs (ucast (bw_len w))) :: u32) = pb_of pbs (unat (bw_len w))"
    using unat_capacity_pb_u32 [OF assms(1), of "bw_len w"] pb_of_le [OF assms(1), of "unat (bw_len w)"] assms(4)
    by (simp add: unat_ucast_u32)
  have "unat (ucast (capacity_pb pbs (ucast (bw_len w))) + ucast (lh_total_io_size h) :: u32) =
      pb_of pbs (unat (bw_len w)) + unat (lh_total_io_size h)"
    using c pb_of_le [OF assms(1), of "unat (bw_len w)"] assms(4) unat_u16_lt [of "lh_total_io_size h"]
    by (subst unat_add_nowrap) simp_all
  moreover have "\<not> max_pb < ucast (capacity_pb pbs (ucast (bw_len w))) + ucast (lh_total_io_size h)"
  proof -
    have "max_pb \<noteq> 0" using assms(5) by auto
    then show ?thesis using assms(2,3) by (simp add: is_pack_size_too_large_def Let_def)
  qed
  ultimately show ?thesis by (simp add: word_less_nat_alt not_less)
qed

lemma current_rejects:
  assumes lim: "limits_ok pbs rbs max_pb P" and T: "T = unat max_pb + P"
    and p: "pack_ok pbs rbs T H p" and req: "log_req pbs P w" "bw_copied_bio w = Some b"
    and rej: "add_to_current pbs rbs max_pb w b p = (False, h)"
  shows "pack_ok pbs rbs T H (p\<lparr>pk_header := h\<rparr>)" "lh_logpack_lsid h = lh_logpack_lsid (pk_header p)"
proof -
  have pbs: "is_valid_pbs pbs" "unat pbs \<le> 2 ^ 20" "0 < rbs" "0 < unat max_pb"
      "unat max_pb + P < 65535" "P \<le> unat rbs"
    using lim by (auto simp: limits_ok_def)
  have inv: "logpack_inv pbs rbs (pk_header p)" using p by (simp add: pack_ok_def)
  have b: "bw_len w = bio_sectors b" "bio_wrapper_state_is_discard w = (bi_op b = REQ_OP_DISCARD)"
      "bi_op b \<noteq> REQ_OP_DISCARD \<Longrightarrow> unat (bio_sectors b) \<le> 65535 \<and> pb_of pbs (unat (bio_sectors b)) \<le> P"
    using req by (auto simp: log_req_def split: option.splits)
  consider "h = pk_header p" | "lh_n_records (pk_header p) \<noteq> 0" "\<not> is_pack_size_too_large (pk_header p) pbs max_pb w"
      "walb_logpack_header_add_bio (pk_header p) b pbs rbs = (False, h)"
    using rej p by (auto simp: add_to_current_def Let_def is_zero_flush_only_def pack_ok_def word_neq_0_conv split: if_splits)
  then have "pack_ok pbs rbs T H (p\<lparr>pk_header := h\<rparr>) \<and> lh_logpack_lsid h = lh_logpack_lsid (pk_header p)"
  proof cases
    case 2
    have h: "h = snd (walb_logpack_header_add_bio (pk_header p) b pbs rbs)" using 2(3) by simp
    have load: "bio_loggable pbs rbs (pk_header p) b"
      using p b T pbs by (auto simp: bio_loggable_def pack_ok_def)
    have "unat (lh_total_io_size h) \<le> T"
    proof (cases "bi_op b = REQ_OP_DISCARD")
      case True
      then show ?thesis using add_bio_total [of "pk_header p" b pbs rbs] p h by (simp add: pack_ok_def)
    next
      case False
      then show ?thesis
        using add_bio_total [of "pk_header p" b pbs rbs] h T b
          size_fits [OF pbs(1) 2(2) _ _ pbs(4)] unat_bio_pbs [OF pbs(1), of b] by simp
    qed
    moreover obtain pads where "used_records h = used_records (pk_header p) @ pads" "\<forall>q \<in> set pads. rec_padding q"
      using add_bio_rejected [OF inv pbs(1,2)] 2(3) h by (metis fst_conv)
    then have "io_records h = io_records (pk_header p)" "used_records h \<noteq> []"
      using used_records_Nil [OF inv] 2(1) by (simp_all add: io_records_def filter_empty_conv)
    moreover have "logpack_inv pbs rbs h" unfolding h by (rule add_bio_inv [OF inv pbs(1-3) load])
    ultimately show ?thesis
      using p 2(1) used_records_Nil [of pbs rbs h] h by (simp add: pack_ok_def pack_logs_def)
  qed (use p in simp)
  then show "pack_ok pbs rbs T H (p\<lparr>pk_header := h\<rparr>)" "lh_logpack_lsid h = lh_logpack_lsid (pk_header p)"
    by simp_all
qed

lemma writepack_add_ok:
  assumes lim: "limits_ok pbs rbs max_pb P" and T: "T = unat max_pb + P"
    and inv: "wp_inv pbs rbs T l0 taken st" and a: "a \<notin> set taken" "log_req pbs P (wp_store st a)"
    and room: "unat (wp_latest st) + 131072 \<le> unat MAX_LSID" and alloc: "fst al = Some m" "snd al"
  obtains st' where "writepack_add_bio_wrapper al pbs rbs max_pb a st = Some (True, st')"
    "wp_inv pbs rbs T l0 (taken @ [a]) st'" "unat (wp_latest st') \<le> unat (wp_latest st) + 65536"
    "\<And>c. c \<noteq> a \<Longrightarrow> wp_store st' c = wp_store st c" "wp_pack st' \<noteq> None"
    "\<And>c. only_lsid (wp_store st c) (wp_store st' c)"
proof -
  obtain b where b: "bw_copied_bio (wp_store st a) = Some b" "bw_len (wp_store st a) = bio_sectors b"
      "bio_wrapper_state_is_discard (wp_store st a) = (bi_op b = REQ_OP_DISCARD)"
      "bw_len (wp_store st a) = 0 \<Longrightarrow> bio_has_flush (Some b)"
      "bi_op b \<noteq> REQ_OP_DISCARD \<Longrightarrow> unat (bio_sectors b) \<le> 65535 \<and> pb_of pbs (unat (bio_sectors b)) \<le> P"
    using log_reqD [OF a(2)] by metis
  have l: "unat max_pb + P < 65535" "P \<le> unat rbs" "is_valid_pbs pbs" "0 < unat max_pb"
    using lim by (simp_all add: limits_ok_def)
  show thesis
  proof (cases "wp_pack st")
    case None
    have "\<forall>p \<in> set (wp_list st). pack_done pbs rbs T (wp_store st) p" "packs_chain l0 (wp_list st) (wp_latest st)"
        "concat (map pk_biow_list (wp_list st)) = taken"
      using inv None by (auto simp: wp_inv_def current_biows_def)
    note new = add_to_new_ok [OF lim T this a(1) b(1) a(2) _ alloc]
    obtain st' where st': "add_to_new al pbs rbs a b st = (True, st')" "wp_inv pbs rbs T l0 (taken @ [a]) st'"
        "wp_latest st' = wp_latest st" "\<And>c. c \<noteq> a \<Longrightarrow> wp_store st' c = wp_store st c"
        "\<And>c. only_lsid (wp_store st c) (wp_store st' c)"
      using new room by auto
    have "wp_pack st' \<noteq> None" using st'(1) by (auto simp: add_to_new_def add_finish_def Let_def split: option.splits)
    then show thesis
      using st' by (intro that [of st']) (simp_all add: writepack_add_bio_wrapper_def b(1) None)
  next
    case (Some p)
    have p: "pack_ok pbs rbs T (wp_store st) p" "\<not> pk_linked p" "lh_logpack_lsid (pk_header p) = wp_latest st"
      using inv Some by (simp_all add: wp_inv_def)
    obtain ok h where oh: "add_to_current pbs rbs max_pb (wp_store st a) b p = (ok, h)" by fastforce
    show thesis
    proof (cases ok)
      case True
      then have c: "lh_n_records (pk_header p) \<noteq> 0" "\<not> bio_has_flush (Some b)"
          "\<not> is_pack_size_too_large (pk_header p) pbs max_pb (wp_store st a)"
          "walb_logpack_header_add_bio (pk_header p) b pbs rbs = (True, h)"
        using oh p(1)
        by (auto simp: add_to_current_def Let_def is_zero_flush_only_def pack_ok_def word_neq_0_conv split: if_splits)
      let ?st = "add_finish a b (p\<lparr>pk_header := h\<rparr>) st"
      have size: "unat (lh_total_io_size (pk_header p)) + pb_of pbs (unat (bio_sectors b)) \<le> unat max_pb"
        if "bi_op b \<noteq> REQ_OP_DISCARD"
        using size_fits [OF l(3) c(3)] b that l(4) by simp
      have h: "h = snd (walb_logpack_header_add_bio (pk_header p) b pbs rbs)" using c(4) by simp
      have "wp_inv pbs rbs T l0 (taken @ [a]) ?st" unfolding h
      proof (rule add_finish_inv [OF lim T _ _ _ a(1) b(1) a(2) _ p(3) _ p(2) _ _ size])
        show "bio_loggable pbs rbs (pk_header p) b"
          using p(1) b T l by (auto simp: bio_loggable_def pack_ok_def)
      qed (use inv Some p(1) c b(4) in \<open>auto simp: wp_inv_def current_biows_def pack_ok_def\<close>)
      then show thesis
        by (intro that [of ?st]) (simp_all add: writepack_add_bio_wrapper_def b(1) Some oh True add_finish_def Let_def)
    next
      case False
      then have oh_rej: "add_to_current pbs rbs max_pb (wp_store st a) b p = (False, h)" using oh by simp
      note rej = current_rejects [OF lim T p(1) a(2) b(1) oh_rej]
      obtain st1 q where st1: "close_pack (p\<lparr>pk_header := h\<rparr>) st = Some st1" "wp_store st1 = wp_store st"
          "wp_latest st1 = get_next_lsid_unsafe h"
          "\<forall>p \<in> set (wp_list st1). pack_done pbs rbs T (wp_store st1) p"
          "packs_chain l0 (wp_list st1) (wp_latest st1)" "concat (map pk_biow_list (wp_list st1)) = taken"
        using close_pack_ok [OF inv Some rej] by metis
      have le: "unat (wp_latest st1) \<le> unat (wp_latest st) + 65536"
        using next_lsid_unsafe_le [of h] rej(2) p(3) st1(3) by simp
      obtain st' where st': "add_to_new al pbs rbs a b st1 = (True, st')" "wp_inv pbs rbs T l0 (taken @ [a]) st'"
          "wp_latest st' = wp_latest st1" "\<And>c. c \<noteq> a \<Longrightarrow> wp_store st' c = wp_store st1 c"
          "\<And>c. only_lsid (wp_store st1 c) (wp_store st' c)"
        using add_to_new_ok [OF lim T st1(4-6) a(1) _ _ _ alloc] st1(2) b(1) a(2) room le by auto
      have "wp_pack st' \<noteq> None" using st'(1) by (auto simp: add_to_new_def add_finish_def Let_def split: option.splits)
      then show thesis
        using st' st1 le
        by (intro that [of st']) (simp_all add: writepack_add_bio_wrapper_def b(1) Some oh False)
    qed
  qed
qed

lemma add_all_ok:
  assumes lim: "limits_ok pbs rbs max_pb P" and T: "T = unat max_pb + P"
    and "wp_inv pbs rbs T l0 taken st" "distinct (taken @ bs)" "\<forall>a \<in> set bs. log_req pbs P (wp_store st a)"
    and "unat (wp_latest st) + 65536 * (length bs + 1) \<le> unat MAX_LSID"
    and "length bs \<le> length als" "\<forall>al \<in> set als. fst al \<noteq> None \<and> snd al"
  shows "\<exists>st'. add_all als pbs rbs max_pb bs st = Some st' \<and> wp_inv pbs rbs T l0 (taken @ bs) st' \<and>
    (\<forall>c. only_lsid (wp_store st c) (wp_store st' c)) \<and> (bs \<noteq> [] \<longrightarrow> wp_pack st' \<noteq> None)"
  using assms(3-)
proof (induction bs arbitrary: als taken st)
  case (Cons a bs)
  obtain al als' where als: "als = al # als'" using Cons.prems(5) by (cases als) auto
  obtain m where m: "fst al = Some m" "snd al" using Cons.prems(6) als by auto
  have pre: "a \<notin> set taken" "log_req pbs P (wp_store st a)" "unat (wp_latest st) + 131072 \<le> unat MAX_LSID"
    using Cons.prems by auto
  obtain st1 where st1: "writepack_add_bio_wrapper al pbs rbs max_pb a st = Some (True, st1)"
    "wp_inv pbs rbs T l0 (taken @ [a]) st1" "unat (wp_latest st1) \<le> unat (wp_latest st) + 65536"
    "\<And>c. c \<noteq> a \<Longrightarrow> wp_store st1 c = wp_store st c" "wp_pack st1 \<noteq> None"
    "\<And>c. only_lsid (wp_store st c) (wp_store st1 c)"
    using writepack_add_ok [OF lim T Cons.prems(1) pre m] by metis
  have "\<exists>st'. add_all als' pbs rbs max_pb bs st1 = Some st' \<and> wp_inv pbs rbs T l0 ((taken @ [a]) @ bs) st' \<and>
    (\<forall>c. only_lsid (wp_store st1 c) (wp_store st' c)) \<and> (bs \<noteq> [] \<longrightarrow> wp_pack st' \<noteq> None)"
  proof (rule Cons.IH [OF st1(2)])
    show "\<forall>c \<in> set bs. log_req pbs P (wp_store st1 c)"
      using Cons.prems(2,3) st1(4) by (metis distinct.simps(2) distinct_append list.set_intros(2))
  qed (use Cons.prems als st1(3) in auto)
  then obtain st' where st': "add_all als' pbs rbs max_pb bs st1 = Some st'"
      "wp_inv pbs rbs T l0 (taken @ a # bs) st'" "\<And>c. only_lsid (wp_store st1 c) (wp_store st' c)"
      "bs \<noteq> [] \<Longrightarrow> wp_pack st' \<noteq> None"
    by auto
  have "only_lsid (wp_store st c) (wp_store st' c)" for c
    using st1(6) st'(3) by (rule only_lsid_trans)
  moreover have "wp_pack st' \<noteq> None" using st1(5) st'(1,4) by (cases "bs = []") auto
  ultimately show ?case using st1(1) st'(1,2) als by simp
qed simp

section \<open>The code's own check accepts the packs\<close>

lemma rec_ok_facts:
  assumes "rec_ok pbs rbs p l r"
  shows "rec_exist r" "unat (lr_lsid r) = p + l" "unat (lr_lsid_local r) = l"
  using assms by (simp_all add: rec_ok_def is_valid_log_record_def rec_exist_def)

lemma recs_ok_mem: "recs_ok pbs rbs p l rs \<Longrightarrow> r \<in> set rs \<Longrightarrow> \<exists>l'. rec_ok pbs rbs p l' r"
  by (induction rs arbitrary: l) auto

lemma record_lsid_local:
  assumes "logpack_inv pbs rbs h" "r \<in> set (used_records h)"
  shows "rec_exist r" "lh_logpack_lsid h = lr_lsid r - ucast (lr_lsid_local r)"
proof -
  obtain l where r: "rec_ok pbs (unat rbs) (unat (lh_logpack_lsid h)) l r"
    using assms recs_ok_mem by (fastforce simp: logpack_inv_def)
  show "rec_exist r" using rec_ok_facts [OF r] by simp
  have "unat (lr_lsid r - ucast (lr_lsid_local r)) = unat (lr_lsid r) - unat (ucast (lr_lsid_local r) :: u64)"
    using rec_ok_facts [OF r] by (subst unat_sub_nowrap) (simp_all add: word_le_nat_alt)
  then show "lh_logpack_lsid h = lr_lsid r - ucast (lr_lsid_local r)"
    using rec_ok_facts [OF r] by (simp add: word_unat_eq_iff)
qed

lemma logged_check:
  assumes "logpack_inv pbs rbs h" "r \<in> set (used_records h)" "logged_as w r" "bw_bio w = Some b" "log_req pbs P w"
  shows "check_record h w b r"
  using record_lsid_local [OF assms(1,2)] assms(3-5)
  by (auto simp: check_record_def logged_as_def log_req_def split: option.splits)

lemma padding_not_discard: "logpack_inv pbs rbs h \<Longrightarrow> r \<in> set (used_records h) \<Longrightarrow> rec_padding r \<Longrightarrow> \<not> rec_discard r"
  using recs_ok_mem by (fastforce simp: logpack_inv_def rec_ok_def)

lemma drop_used:
  assumes "drop i (used_records h) = r # rs"
  shows "i < unat (lh_n_records h)" "lh_record h ! i = r" "drop (Suc i) (used_records h) = rs"
    "r \<in> set (used_records h)"
proof -
  have i: "i < length (used_records h)"
    using assms by (metis drop_all list.distinct(1) not_le)
  then show "i < unat (lh_n_records h)" by (simp add: used_records_def)
  have eq: "r # rs = used_records h ! i # drop (Suc i) (used_records h)"
    using assms Cons_nth_drop_Suc [OF i] by simp
  then show "drop (Suc i) (used_records h) = rs" by simp
  show "lh_record h ! i = r" using eq i by (simp add: used_records_def)
  show "r \<in> set (used_records h)" using eq i by simp
qed

definition recs_size :: "u32 \<Rightarrow> walb_log_record list \<Rightarrow> u64" where
  "recs_size pbs rs = sum_list (map (record_size pbs) rs)"

lemma recs_size_simps [simp]:
  "recs_size pbs [] = 0" "recs_size pbs (r # rs) = record_size pbs r + recs_size pbs rs"
  by (simp_all add: recs_size_def)

lemma recs_size_append: "recs_size pbs (xs @ ys) = recs_size pbs xs + recs_size pbs ys"
  by (simp add: recs_size_def)

lemma recs_size_pb: "recs_size pbs rs = word_of_nat (recs_pb pbs rs)"
  by (induction rs) (simp_all add: record_size_def rec_pb_def)

lemma prepared_loop_ok:
  assumes inv: "logpack_inv pbs rbs h"
    and "length (filter rec_padding (drop i (used_records h))) \<le> 1"
    and "list_all2 (\<lambda>a r. logged_as (H a) r) as (filter (\<lambda>r. \<not> rec_padding r) (drop i (used_records h)))"
    and "\<forall>a \<in> set as. bw_len (H a) \<noteq> 0 \<and> log_req pbs P (H a)"
  shows "\<exists>xs ys. drop i (used_records h) = xs @ ys \<and> (\<forall>r \<in> set ys. rec_padding r) \<and>
    prepared_loop H pbs h as i t n =
      Some (i + length xs, t + recs_size pbs xs, n + length (filter rec_padding xs))"
  using assms(2-)
proof (induction as arbitrary: i t n)
  case Nil
  then have "\<forall>r \<in> set (drop i (used_records h)). rec_padding r" by (simp add: filter_empty_conv)
  then show ?case by (intro exI [of _ "[]"] exI [of _ "drop i (used_records h)"]) simp
next
  case (Cons a as)
  obtain b where b: "bw_bio (H a) = Some b" "log_req pbs P (H a)" "bw_len (H a) \<noteq> 0"
    using Cons.prems(3) by (auto simp: log_req_def split: option.splits)
  obtain r rs where rs: "drop i (used_records h) = r # rs"
    using Cons.prems(2) by (cases "drop i (used_records h)") auto
  note r = drop_used [OF rs]
  note ex = record_lsid_local(1) [OF inv r(4)]
  show ?case
  proof (cases "rec_padding r")
    case False
    then have log: "logged_as (H a) r" using Cons.prems(2) rs by simp
    have "\<exists>xs ys. drop (i + 1) (used_records h) = xs @ ys \<and> (\<forall>r \<in> set ys. rec_padding r) \<and>
      prepared_loop H pbs h as (i + 1) (t + record_size pbs r) n =
        Some (i + 1 + length xs, t + record_size pbs r + recs_size pbs xs, n + length (filter rec_padding xs))"
      by (rule Cons.IH) (use Cons.prems rs r(3) False in auto)
    then obtain xs ys where "rs = xs @ ys" "\<forall>r \<in> set ys. rec_padding r"
        "prepared_loop H pbs h as (Suc i) (t + record_size pbs r) n =
        Some (i + 1 + length xs, t + record_size pbs r + recs_size pbs xs, n + length (filter rec_padding xs))"
      using r(3) by auto
    then show ?thesis
      using rs b r(1,2) ex False logged_check [OF inv r(4) log b(1,2)]
      by (intro exI [of _ "r # xs"] exI [of _ ys]) (simp add: ac_simps)
  next
    case True
    then obtain r' rs' where rs': "rs = r' # rs'" "\<not> rec_padding r'"
      using Cons.prems(1,2) rs by (cases rs) (auto split: if_splits)
    then have dr: "drop (Suc i) (used_records h) = r' # rs'" using r(3) by simp
    note r' = drop_used [OF dr]
    have log: "logged_as (H a) r'" using Cons.prems(2) rs rs' True by simp
    have sz: "capacity_pb pbs (ucast (lr_io_size r)) = record_size pbs r"
      using padding_not_discard [OF inv r(4) True] by (simp add: record_size_def)
    have "\<exists>xs ys. drop (i + 2) (used_records h) = xs @ ys \<and> (\<forall>r \<in> set ys. rec_padding r) \<and>
      prepared_loop H pbs h as (i + 2) (t + record_size pbs r + record_size pbs r') (n + 1) =
        Some (i + 2 + length xs, t + record_size pbs r + record_size pbs r' + recs_size pbs xs,
          n + 1 + length (filter rec_padding xs))"
      by (rule Cons.IH) (use Cons.prems rs rs' r'(3) True in auto)
    then obtain xs ys where "rs' = xs @ ys" "\<forall>r \<in> set ys. rec_padding r"
        "prepared_loop H pbs h as (Suc (Suc i)) (t + record_size pbs r + record_size pbs r') (Suc n) =
        Some (i + 2 + length xs, t + record_size pbs r + record_size pbs r' + recs_size pbs xs,
          n + 1 + length (filter rec_padding xs))"
      using r'(3) by auto
    then show ?thesis
      using rs rs' b r(1,2) r'(1,2) ex sz True record_lsid_local(1) [OF inv r'(4)]
        logged_check [OF inv r'(4) log b(1,2)]
      by (intro exI [of _ "r # r' # xs"] exI [of _ ys]) (simp add: ac_simps)
  qed
qed

lemma inv_padding_le:
  assumes "logpack_inv pbs rbs h" "65536 \<le> unat rbs"
  shows "length (filter rec_padding (used_records h)) \<le> 1"
proof (rule recs_ok_one_padding)
  show "recs_ok pbs (unat rbs) (unat (lh_logpack_lsid h)) 1 (used_records h)"
    using assms(1) by (simp add: logpack_inv_def)
  show "recs_pb pbs (used_records h) < unat rbs"
    using assms unat_u16_lt [of "lh_total_io_size h"] by (simp add: logpack_inv_def)
qed

lemma pack_done_valid:
  assumes p: "pack_done pbs rbs T H p" and rbs: "65536 \<le> unat rbs"
    and req: "\<forall>a \<in> set (pk_biow_list p). log_req pbs P (H a)"
  shows "is_prepared_pack_valid H p"
proof -
  let ?h = "pk_header p"
  have inv: "logpack_inv pbs rbs ?h" and size: "pk_sector_size p = pbs" and ne: "pk_biow_list p \<noteq> []"
      and logs: "pack_logs H p" and z: "lh_n_records ?h = 0 \<Longrightarrow> pk_is_zero_flush_only p"
    using p by (auto simp: pack_done_def pack_ok_def)
  have valid: "is_valid_logpack_header ?h"
    using inv_valid_records [OF inv rbs] by (simp add: is_valid_logpack_header_and_records_def)
  have total: "ucast (lh_total_io_size ?h) = recs_size pbs (used_records ?h)"
  proof -
    have "recs_pb pbs (used_records ?h) = unat (lh_total_io_size ?h)" using inv by (simp add: logpack_inv_def)
    then show ?thesis
      using unat_u16_lt [of "lh_total_io_size ?h"]
      by (simp add: recs_size_pb word_unat_eq_iff unat_of_nat take_bit_nat_eq_self)
  qed
  have npad: "unat (lh_n_padding ?h) = length (filter rec_padding (used_records ?h))"
      and len: "length (used_records ?h) = unat (lh_n_records ?h)"
    using inv by (auto simp: logpack_inv_def used_records_def)
  show ?thesis
  proof (cases "lh_n_records ?h = 0")
    case True
    then obtain a where a: "pk_biow_list p = [a]" "bw_len (H a) = 0" using logs by (auto simp: pack_logs_def)
    then have "log_req pbs P (H a)" using req by simp
    then obtain b where "bw_bio (H a) = Some b" "bio_has_flush (Some b)"
      using a(2) by (auto simp: log_req_def bio_has_flush_def split: option.splits)
    moreover have "lh_total_io_size ?h = 0" "lh_n_padding ?h = 0"
      using valid True by (simp_all add: is_valid_logpack_header_def)
    ultimately show ?thesis using a valid True z by (simp add: is_prepared_pack_valid_def Let_def)
  next
    case False
    note pad = inv_padding_le [OF inv rbs]
    have "list_all2 (\<lambda>a r. logged_as (H a) r) (pk_biow_list p)
        (filter (\<lambda>r. \<not> rec_padding r) (drop 0 (used_records ?h)))"
        "\<forall>a \<in> set (pk_biow_list p). bw_len (H a) \<noteq> 0 \<and> log_req pbs P (H a)"
      using logs False req by (simp_all add: pack_logs_def io_records_def)
    from prepared_loop_ok [OF inv _ this, of 0 0] pad
    obtain xs ys where xy: "used_records ?h = xs @ ys" "\<forall>r \<in> set ys. rec_padding r"
      and loop: "prepared_loop H pbs ?h (pk_biow_list p) 0 0 0 =
        Some (length xs, recs_size pbs xs, length (filter rec_padding xs))"
      by auto
    show ?thesis
    proof (cases ys)
      case Nil
      then show ?thesis
        using xy loop valid ne size total npad len pad False by (simp add: is_prepared_pack_valid_def Let_def)
    next
      case (Cons r ys')
      then have "ys' = []" using pad xy by (cases ys') auto
      then have dr: "drop (length xs) (used_records ?h) = r # []" using xy(1) Cons by simp
      note r = drop_used [OF dr]
      have sz: "capacity_pb pbs (ucast (lr_io_size r)) = record_size pbs r"
        using padding_not_discard [OF inv r(4)] xy(2) Cons by (simp add: record_size_def)
      show ?thesis
        using xy loop valid ne size total npad len pad False r sz Cons \<open>ys' = []\<close>
          record_lsid_local(1) [OF inv r(4)]
        by (simp add: is_prepared_pack_valid_def Let_def recs_size_append)
    qed
  qed
qed

section \<open>Properties\<close>


definition demo_write :: "u64 \<Rightarrow> u32 \<Rightarrow> bio_wrapper" where
  "demo_write pos len = (demo_wrapper pos len 0 7)\<lparr>bw_bio := Some (demo_bio pos len),
     bw_copied_bio := Some (demo_bio pos len), bw_flags := 0\<rparr>"

definition demo_mem :: pack where
  "demo_mem = \<lparr>pk_linked = True, pk_biow_list = [9], pk_header = demo_header, pk_sector_size = 0,
     pk_header_bioe = \<lparr>be_bio = None, be_iter = \<lparr>bi_sector = 0, bi_size = 0\<rparr>, be_status = 0\<rparr>,
     pk_new_permanent_lsid = 0, pk_is_zero_flush_only = True, pk_is_flush_header = True,
     pk_is_fua_contained = True, pk_is_logpack_failed = True\<rparr>"

lemma demo_write_req:
  assumes "len \<noteq> 0" "unat len \<le> 100"
  shows "log_req 512 100 (demo_write pos len)"
proof -
  have "bio_sectors (demo_bio pos len) = len"
    using demo_bio_sectors [of len pos] assms(2) by (simp add: word_unat_eq_iff)
  then show ?thesis
    using assms
    by (simp add: log_req_def demo_write_def demo_wrapper_def bio_wrapper_state_is_discard_def pb_of_512)
       (simp add: demo_bio_def op_is_write_def bio_begin_sector_def)
qed

definition demo_queue :: biow_store where
  "demo_queue a = (if a = 1 then demo_write 0 30 else if a = 2 then demo_write 500 40 else demo_write 64 50)"


text \<open>
  When a new pack cannot be allocated, the current pack has already been appended to the
  list of finished packs; the retry appends the same list node again, which corrupts the list.
\<close>

theorem writepack_retry_corrupts_list:
  assumes "wp_pack st = Some p" "\<not> pk_linked p" "bw_copied_bio (wp_store st a) = Some b"
    and "fst (add_to_current pbs rbs max_pb (wp_store st a) b p) = False"
    and "snd (add_to_current pbs rbs max_pb (wp_store st a) b p) = pk_header p"
  shows "\<exists>st1. writepack_add_bio_wrapper (None, ok) pbs rbs max_pb a st = Some (False, st1) \<and>
    writepack_add_bio_wrapper al pbs rbs max_pb a st1 = None"
proof -
  have c: "add_to_current pbs rbs max_pb (wp_store st a) b p = (False, pk_header p)"
    using assms(4,5) by (simp add: prod_eq_iff)
  let ?q = "fst (writepack_check_and_set_zeroflush p (wp_is_flush st))\<lparr>pk_linked := True\<rparr>"
  obtain st1 where st1: "close_pack p st = Some st1" "wp_pack st1 = Some ?q" "wp_store st1 = wp_store st"
    using assms(2)
    by (cases "lh_n_records (pk_header p) = 0")
       (auto simp: close_pack_def list_add_tail_pack_def writepack_check_and_set_zeroflush_def Let_def)
  have q: "pk_header ?q = pk_header p" "pk_biow_list ?q = pk_biow_list p" "pk_linked ?q"
    by (simp_all add: writepack_check_and_set_zeroflush_def)
  have "add_to_current pbs rbs max_pb (wp_store st a) b ?q = (False, pk_header p)"
    using c q by (simp add: add_to_current_def is_zero_flush_only_def Let_def cong: if_cong)
  moreover have "close_pack (?q\<lparr>pk_header := pk_header p\<rparr>) st1 = None"
    by (simp add: close_pack_def list_add_tail_pack_def writepack_check_and_set_zeroflush_def)
  ultimately show ?thesis
    using st1 assms(1,3) c
    by (intro exI [of _ st1])
       (simp add: writepack_add_bio_wrapper_def add_to_new_def create_writepack_def create_pack_def)
qed

definition demo_full :: wp_state where
  "demo_full = \<lparr>wp_list = [], wp_pack = Some (demo_mem\<lparr>pk_linked := False\<rparr>), wp_latest = 100,
     wp_is_flush = False, wp_store = demo_queue\<rparr>"

theorem writepack_retry_corrupts_list_witness:
  "\<exists>st1. writepack_add_bio_wrapper (None, True) 512 70000 100 1 demo_full = Some (False, st1) \<and>
    writepack_add_bio_wrapper (Some demo_mem, True) 512 70000 100 1 st1 = None"
  by (rule writepack_retry_corrupts_list [where p = "demo_mem\<lparr>pk_linked := False\<rparr>" and b = "demo_bio 0 30"])
     (simp_all add: demo_full_def demo_mem_def demo_queue_def demo_write_def add_to_current_def
       is_zero_flush_only_def demo_header_def Let_def)

end
