(* ===== verification/Walb_Log_Submit.thy ===== *)
theory Walb_Log_Submit
  imports Walb_Pack
begin

text \<open>
  Writing the logpacks to the log device: \<^verbatim>\<open>submit_logpack_list\<close> of \<^verbatim>\<open>module/io.c\<close>
  and what it calls.  Every bio given to \<^verbatim>\<open>generic_make_request\<close> is an element of the
  result, in the order of submission; all of them go to the log device.  The memory of the
  logpack header is the only data segment of a header bio.  The kernel's \<^verbatim>\<open>bio_split\<close> is a
  parameter, and an endless retry is \<^const>\<open>None\<close>.
\<close>

section \<open>Checksums\<close>

fun calc_loop :: "u32 \<Rightarrow> walb_logpack_header \<Rightarrow> nat \<Rightarrow> ulong list \<Rightarrow> biow_store \<Rightarrow>
    (walb_logpack_header \<times> biow_store) option" where
  "calc_loop salt logh i [] H = Some (logh, H)"
| "calc_loop salt logh i (a # as) H =
     (let i1 = (if rec_padding (lh_record logh ! i) then i + 1 else i) in
      if bw_len (H a) = 0 then calc_loop salt logh i1 as H
      else case bw_copied_bio (H a) of
        None \<Rightarrow> None
      | Some b \<Rightarrow>
          (let csum = bio_calc_checksum b salt in
           calc_loop salt (logh\<lparr>lh_record := (lh_record logh)
               [i1 := (lh_record logh ! i1)\<lparr>lr_checksum := csum\<rparr>]\<rparr>)
             (i1 + 1) as (H(a := (H a)\<lparr>bw_csum := csum\<rparr>))))"

definition logpack_calc_checksum :: "walb_logpack_header \<Rightarrow> u32 \<Rightarrow> u32 \<Rightarrow> ulong list \<Rightarrow> biow_store \<Rightarrow>
    (walb_logpack_header \<times> biow_store) option" where
  "logpack_calc_checksum logh pbs salt biow_list H =
     map_option (\<lambda>(h, H1).
         (h\<lparr>lh_checksum := checksum (logpack_header_bytes h) (unat pbs) salt\<rparr>, H1))
       (calc_loop salt logh 0 biow_list H)"

section \<open>Submission\<close>

partial_function (option) split_bio_for_chunk_never_giveup ::
    "(bio \<Rightarrow> u32 \<Rightarrow> (bio \<times> bio) option) \<Rightarrow> bio list \<Rightarrow> bio \<Rightarrow> u32 \<Rightarrow> bio list option" where
  "split_bio_for_chunk_never_giveup bio_split bl b chunk_sectors =
     (case split_bio_for_chunk bio_split bl b chunk_sectors of
        None \<Rightarrow> None
      | Some (ok, bl1, b1) \<Rightarrow>
          if ok then Some bl1 else split_bio_for_chunk_never_giveup bio_split bl1 b1 chunk_sectors)"

definition logpack_create_bio :: "bio \<Rightarrow> u32 \<Rightarrow> u64 \<Rightarrow> u32 \<Rightarrow> bio" where
  "logpack_create_bio b pbs ldev_off_pb bio_off_lb =
     bio_clear_flush_flags (b\<lparr>bi_private := 0,
       bi_iter := (bi_iter b)\<lparr>bi_sector := addr_lb pbs ldev_off_pb + ucast bio_off_lb\<rparr>\<rparr>)"

definition logpack_submit_header ::
    "walb_logpack_header \<Rightarrow> u32 \<Rightarrow> bool \<Rightarrow> u64 \<Rightarrow> u64 \<Rightarrow> bio" where
  "logpack_submit_header lhead pbs is_flush ring_buffer_off ring_buffer_size =
     (let off_pb = get_offset_of_lsid (lh_logpack_lsid lhead) ring_buffer_off ring_buffer_size in
      \<lparr>bi_op = REQ_OP_WRITE, bi_preflush = is_flush, bi_fua = False,
       bi_iter = \<lparr>bi_sector = addr_lb pbs off_pb, bi_size = pbs\<rparr>,
       bi_segs = [logpack_header_bytes lhead], bi_private = 0\<rparr>)"

definition logpack_submit_bio_wrapper ::
    "(bio \<Rightarrow> u32 \<Rightarrow> (bio \<times> bio) option) \<Rightarrow> bio_wrapper \<Rightarrow> u64 \<Rightarrow> u32 \<Rightarrow> u64 \<Rightarrow> u64 \<Rightarrow> u32 \<Rightarrow> bio list option" where
  "logpack_submit_bio_wrapper bio_split biow lsid pbs ring_buffer_off ring_buffer_size chunk_sectors =
     (let ldev_off_pb = get_offset_of_lsid lsid ring_buffer_off ring_buffer_size in
      Option.bind (bw_copied_bio biow) (\<lambda>b.
        split_bio_for_chunk_never_giveup bio_split [] (logpack_create_bio b pbs ldev_off_pb 0) chunk_sectors))"

fun submit_loop ::
    "(bio \<Rightarrow> u32 \<Rightarrow> (bio \<times> bio) option) \<Rightarrow> u32 \<Rightarrow> u64 \<Rightarrow> u64 \<Rightarrow> u32 \<Rightarrow> biow_store \<Rightarrow>
     walb_logpack_header \<Rightarrow> nat \<Rightarrow> ulong list \<Rightarrow> bio list option" where
  "submit_loop sp pbs off rbs chunk H logh i [] = Some []"
| "submit_loop sp pbs off rbs chunk H logh i (a # as) =
     (let i1 = (if rec_padding (lh_record logh ! i) then i + 1 else i);
          rec = lh_record logh ! i1 in
      Option.bind
        (if rec_discard rec then Some []
         else if bw_len (H a) = 0 then Some []
         else logpack_submit_bio_wrapper sp (H a) (lr_lsid rec) pbs off rbs chunk) (\<lambda>ios.
      map_option (\<lambda>rest. ios @ rest) (submit_loop sp pbs off rbs chunk H logh (i1 + 1) as)))"

definition submit_logpack ::
    "(bio \<Rightarrow> u32 \<Rightarrow> (bio \<times> bio) option) \<Rightarrow> u32 \<Rightarrow> bool \<Rightarrow> u64 \<Rightarrow> u64 \<Rightarrow> u32 \<Rightarrow> biow_store \<Rightarrow>
     walb_logpack_header \<Rightarrow> ulong list \<Rightarrow> (bio \<times> bio list) option" where
  "submit_logpack sp pbs is_flush ring_buffer_off ring_buffer_size chunk_sectors H logh biow_list =
     map_option (\<lambda>ios. (logpack_submit_header logh pbs is_flush ring_buffer_off ring_buffer_size, ios))
       (submit_loop sp pbs ring_buffer_off ring_buffer_size chunk_sectors H logh 0 biow_list)"

text \<open>\<^verbatim>\<open>submit_flush\<close>: an empty write with the preflush flag.\<close>

definition submit_flush :: bio where
  "submit_flush = \<lparr>bi_op = REQ_OP_WRITE, bi_preflush = True, bi_fua = False,
     bi_iter = \<lparr>bi_sector = 0, bi_size = 0\<rparr>, bi_segs = [], bi_private = 0\<rparr>"

definition logpack_submit_flush :: "bool \<Rightarrow> pack \<Rightarrow> pack \<times> bio list" where
  "logpack_submit_flush ldev_supports_flush pack =
     (if \<not> ldev_supports_flush then (pack, [])
      else (pack\<lparr>pk_header_bioe := init_bio_entry (pk_header_bioe pack) submit_flush\<rparr>, [submit_flush]))"

record log_params =
  lp_pbs :: u32
  lp_salt :: u32
  lp_ring_buffer_off :: u64
  lp_ring_buffer_size :: u64
  lp_chunk_sectors :: u32
  lp_supports_flush :: bool

definition submit_pack ::
    "(bio \<Rightarrow> u32 \<Rightarrow> (bio \<times> bio) option) \<Rightarrow> log_params \<Rightarrow> pack \<Rightarrow> biow_store \<Rightarrow> (pack \<times> biow_store \<times> bio list) option" where
  "submit_pack sp lp wpack H =
     (let is_flush = pack_header_should_flush wpack; logh = pk_header wpack in
      if pk_is_zero_flush_only wpack then
        (if \<not> is_flush then Some (wpack, H, [])
         else let (wpack1, ios) = logpack_submit_flush (lp_supports_flush lp) wpack in Some (wpack1, H, ios))
      else
        Option.bind (logpack_calc_checksum logh (lp_pbs lp) (lp_salt lp) (pk_biow_list wpack) H) (\<lambda>(logh1, H1).
        map_option (\<lambda>(hb, ios). (wpack\<lparr>pk_header := logh1,
              pk_header_bioe := init_bio_entry (pk_header_bioe wpack) hb\<rparr>, H1, hb # ios))
          (submit_logpack sp (lp_pbs lp) is_flush (lp_ring_buffer_off lp) (lp_ring_buffer_size lp)
             (lp_chunk_sectors lp) H1 logh1 (pk_biow_list wpack))))"

fun submit_logpack_list ::
    "(bio \<Rightarrow> u32 \<Rightarrow> (bio \<times> bio) option) \<Rightarrow> log_params \<Rightarrow> pack list \<Rightarrow> biow_store \<Rightarrow>
     (pack list \<times> biow_store \<times> bio list) option" where
  "submit_logpack_list sp lp [] H = Some ([], H, [])"
| "submit_logpack_list sp lp (wpack # ps) H =
     Option.bind (submit_pack sp lp wpack H) (\<lambda>(wpack1, H1, ios).
     map_option (\<lambda>(ps1, H2, ios2). (wpack1 # ps1, H2, ios @ ios2)) (submit_logpack_list sp lp ps H1))"

text \<open>
  \<^verbatim>\<open>wait_for_logpack_header\<close>: the argument is the status with which the header bio, if
  there is one, completes; \<^verbatim>\<open>BLK_STS_OK\<close> is 0.
\<close>

definition wait_for_logpack_header :: "u8 \<Rightarrow> pack \<Rightarrow> bool \<times> pack" where
  "wait_for_logpack_header bi_status wpack =
     (if \<not> bio_entry_exists (pk_header_bioe wpack) then (True, wpack)
      else let bioe = bio_entry_end_io bi_status (pk_header_bioe wpack) in
        (be_status bioe = 0, wpack\<lparr>pk_header_bioe := fin_bio_entry bioe\<rparr>))"

section \<open>The stored checksums\<close>

text \<open>Two headers whose records differ in their checksums alone.\<close>

definition same_but_csum :: "walb_log_record \<Rightarrow> walb_log_record \<Rightarrow> bool" where
  "same_but_csum r r' \<longleftrightarrow> r' = r\<lparr>lr_checksum := lr_checksum r'\<rparr>"

lemma same_but_csum_refl [simp]: "same_but_csum r r" "same_but_csum r (r\<lparr>lr_checksum := c\<rparr>)"
  by (simp_all add: same_but_csum_def)

lemma same_but_csum_trans: "same_but_csum r s \<Longrightarrow> same_but_csum s t \<Longrightarrow> same_but_csum r t"
  by (simp add: same_but_csum_def) (metis walb_log_record.surjective walb_log_record.update_convs(1))

lemma same_but_csum_fields:
  assumes "same_but_csum r r'"
  shows "lr_flags r' = lr_flags r" "lr_offset r' = lr_offset r" "lr_io_size r' = lr_io_size r"
    "lr_lsid_local r' = lr_lsid_local r" "lr_lsid r' = lr_lsid r"
    "rec_padding r' = rec_padding r" "rec_discard r' = rec_discard r" "rec_pb pbs r' = rec_pb pbs r"
    "rec_ok pbs rbs p l r' = rec_ok pbs rbs p l r" "is_valid_log_record r' = is_valid_log_record r"
proof -
  obtain c where c: "r' = r\<lparr>lr_checksum := c\<rparr>" using assms by (auto simp: same_but_csum_def)
  show "lr_flags r' = lr_flags r" "lr_offset r' = lr_offset r" "lr_io_size r' = lr_io_size r"
    "lr_lsid_local r' = lr_lsid_local r" "lr_lsid r' = lr_lsid r"
    "rec_padding r' = rec_padding r" "rec_discard r' = rec_discard r" "rec_pb pbs r' = rec_pb pbs r"
    by (simp_all add: c rec_padding_def rec_discard_def rec_pb_def)
  then show "is_valid_log_record r' = is_valid_log_record r"
    by (simp add: is_valid_log_record_def)
  then show "rec_ok pbs rbs p l r' = rec_ok pbs rbs p l r"
    using c by (simp add: rec_ok_def rec_padding_def rec_discard_def rec_pb_def)
qed

definition header_sim :: "walb_logpack_header \<Rightarrow> walb_logpack_header \<Rightarrow> bool" where
  "header_sim h h' \<longleftrightarrow> (\<exists>rs. h' = h\<lparr>lh_record := rs\<rparr> \<and> list_all2 same_but_csum (lh_record h) rs)"

lemma header_sim_refl: "header_sim h h"
  by (auto simp: header_sim_def list_all2_conv_all_nth intro!: exI [of _ "lh_record h"])

lemma header_sim_step:
  assumes "header_sim h h'" "r = lh_record h' ! i"
  shows "header_sim h (h'\<lparr>lh_record := (lh_record h')[i := r\<lparr>lr_checksum := c\<rparr>]\<rparr>)"
proof -
  obtain rs where rs: "h' = h\<lparr>lh_record := rs\<rparr>" "list_all2 same_but_csum (lh_record h) rs"
    using assms(1) by (auto simp: header_sim_def)
  have "list_all2 same_but_csum (lh_record h) (rs[i := (rs ! i)\<lparr>lr_checksum := c\<rparr>])"
    unfolding list_all2_conv_all_nth
  proof (intro conjI allI impI)
    show "length (lh_record h) = length (rs[i := (rs ! i)\<lparr>lr_checksum := c\<rparr>])"
      using rs(2) by (simp add: list_all2_lengthD)
    fix j assume j: "j < length (lh_record h)"
    then have "same_but_csum (lh_record h ! j) (rs ! j)" using rs(2) by (simp add: list_all2_nthD)
    then show "same_but_csum (lh_record h ! j) (rs[i := (rs ! i)\<lparr>lr_checksum := c\<rparr>] ! j)"
      using j rs(2) by (cases "i = j")
        (auto simp: list_all2_lengthD intro: same_but_csum_trans)
  qed
  then show ?thesis using rs assms(2) unfolding header_sim_def by (intro exI conjI) simp_all
qed

lemma header_sim_used:
  assumes "header_sim h h'"
  shows "list_all2 same_but_csum (used_records h) (used_records h')" "lh_n_records h' = lh_n_records h"
    "lh_logpack_lsid h' = lh_logpack_lsid h" "lh_total_io_size h' = lh_total_io_size h"
    "length (lh_record h') = length (lh_record h)" "lh_checksum h' = lh_checksum h"
    "length (logpack_header_bytes h') = length (logpack_header_bytes h)"
proof -
  obtain rs where rs: "h' = h\<lparr>lh_record := rs\<rparr>" "list_all2 same_but_csum (lh_record h) rs"
    using assms by (auto simp: header_sim_def)
  then show "list_all2 same_but_csum (used_records h) (used_records h')"
    by (simp add: used_records_def list_all2_takeI)
  show "lh_n_records h' = lh_n_records h" "lh_logpack_lsid h' = lh_logpack_lsid h"
    "lh_total_io_size h' = lh_total_io_size h" "lh_checksum h' = lh_checksum h"
    using rs by simp_all
  show "length (lh_record h') = length (lh_record h)" using rs by (simp add: list_all2_lengthD)
  then show "length (logpack_header_bytes h') = length (logpack_header_bytes h)"
    using rs(1) by (simp add: logpack_header_bytes_def)
qed

lemma sim_lists:
  assumes "list_all2 same_but_csum rs rs'"
  shows "recs_pb pbs rs' = recs_pb pbs rs"
    "length (filter rec_padding rs') = length (filter rec_padding rs)"
    "recs_ok pbs rbs p l rs' = recs_ok pbs rbs p l rs"
    "list_all2 same_but_csum (filter (\<lambda>r. \<not> rec_padding r) rs) (filter (\<lambda>r. \<not> rec_padding r) rs')"
  using assms
  by (induction arbitrary: l rule: list_all2_induct) (auto simp: same_but_csum_fields)

lemma header_sim_inv:
  assumes "header_sim h h'" "logpack_inv pbs rbs h"
  shows "logpack_inv pbs rbs h'"
proof -
  obtain rs where rs: "h' = h\<lparr>lh_record := rs\<rparr>" "list_all2 same_but_csum (lh_record h) rs"
    using assms(1) by (auto simp: header_sim_def)
  let ?n = "unat (lh_n_records h)"
  have "list_all2 same_but_csum (drop ?n (lh_record h)) (drop ?n rs)" using rs(2) by (rule list_all2_dropI)
  moreover have "\<forall>r \<in> set (drop ?n (lh_record h)). lr_flags r = 0" using assms(2) by (simp add: logpack_inv_def)
  ultimately have "\<forall>r \<in> set (drop ?n rs). lr_flags r = 0"
    by (induction rule: list_all2_induct) (auto simp: same_but_csum_fields)
  then show ?thesis
    using assms(2) rs(1) header_sim_used [OF assms(1)] sim_lists [OF header_sim_used(1) [OF assms(1)]]
    by (simp add: logpack_inv_def)
qed

lemma logpack_inv_checksum [simp]: "logpack_inv pbs rbs (h\<lparr>lh_checksum := c\<rparr>) = logpack_inv pbs rbs h"
  by (simp add: logpack_inv_def used_records_def)

section \<open>The walk over the records of a pack\<close>

text \<open>
  One round of the loops that go through the wrappers and the records side by side: a padding
  record is skipped.
\<close>

lemma record_walk_step:
  assumes pad: "length (filter rec_padding (drop i (used_records h))) \<le> 1"
    and io: "filter (\<lambda>r. \<not> rec_padding r) (drop i (used_records h)) = r # rs"
  defines "i1 \<equiv> if rec_padding (lh_record h ! i) then i + 1 else i"
  shows "i1 < unat (lh_n_records h)" "lh_record h ! i1 = r" "r \<in> set (used_records h)" "\<not> rec_padding r"
    "filter (\<lambda>r. \<not> rec_padding r) (drop (i1 + 1) (used_records h)) = rs"
    "length (filter rec_padding (drop (i1 + 1) (used_records h))) \<le> 1" "i \<le> i1"
proof -
  obtain x xs where xs: "drop i (used_records h) = x # xs" using io by (cases "drop i (used_records h)") auto
  note x = drop_used [OF xs]
  have "i1 < unat (lh_n_records h) \<and> lh_record h ! i1 = r \<and> r \<in> set (used_records h) \<and> \<not> rec_padding r \<and>
    filter (\<lambda>r. \<not> rec_padding r) (drop (i1 + 1) (used_records h)) = rs \<and>
    length (filter rec_padding (drop (i1 + 1) (used_records h))) \<le> 1"
  proof (cases "rec_padding x")
    case False
    then show ?thesis using x xs io pad by (auto simp: i1_def)
  next
    case True
    then obtain y ys where ys: "xs = y # ys" "\<not> rec_padding y"
      using pad io xs by (cases xs) (auto split: if_splits)
    then have "drop (Suc i) (used_records h) = y # ys" using x(3) by simp
    note y = drop_used [OF this]
    show ?thesis using True x y xs ys io pad by (auto simp: i1_def)
  qed
  then show "i1 < unat (lh_n_records h)" "lh_record h ! i1 = r" "r \<in> set (used_records h)" "\<not> rec_padding r"
    "filter (\<lambda>r. \<not> rec_padding r) (drop (i1 + 1) (used_records h)) = rs"
    "length (filter rec_padding (drop (i1 + 1) (used_records h))) \<le> 1"
    by simp_all
  show "i \<le> i1" by (simp add: i1_def)
qed

text \<open>Storing a checksum in one record.\<close>

lemma set_csum_used:
  assumes "j < unat (lh_n_records h)" "j < length (lh_record h)"
    and "h' = h\<lparr>lh_record := (lh_record h)[j := (lh_record h ! j)\<lparr>lr_checksum := c\<rparr>]\<rparr>"
  shows "drop (j + 1) (used_records h') = drop (j + 1) (used_records h)"
    "take j (lh_record h') = take j (lh_record h)"
    "lh_record h' ! j = (lh_record h ! j)\<lparr>lr_checksum := c\<rparr>" "header_sim h h'"
  using assms header_sim_step [OF header_sim_refl, of "lh_record h ! j" h j c]
  by (simp_all add: used_records_def drop_take)

lemma header_sim_trans:
  assumes "header_sim h h1" "header_sim h1 h2"
  shows "header_sim h h2"
proof -
  obtain rs1 rs2 where "h1 = h\<lparr>lh_record := rs1\<rparr>" "list_all2 same_but_csum (lh_record h) rs1"
      "h2 = h1\<lparr>lh_record := rs2\<rparr>" "list_all2 same_but_csum (lh_record h1) rs2"
    using assms by (auto simp: header_sim_def)
  then show ?thesis
    using list_all2_trans [of same_but_csum same_but_csum same_but_csum "lh_record h" rs1 rs2]
    by (auto simp: header_sim_def intro: same_but_csum_trans)
qed

text \<open>Two states of a wrapper that differ in the checksum alone.\<close>

definition only_csum :: "bio_wrapper \<Rightarrow> bio_wrapper \<Rightarrow> bool" where
  "only_csum w w' \<longleftrightarrow> w' = w\<lparr>bw_csum := bw_csum w'\<rparr>"

lemma only_csum_trans: "only_csum u v \<Longrightarrow> only_csum v w \<Longrightarrow> only_csum u w"
  by (simp add: only_csum_def) (metis bio_wrapper.surjective bio_wrapper.update_convs(4))

lemma only_csum_fields:
  assumes "only_csum w w'"
  shows "bw_copied_bio w' = bw_copied_bio w" "bw_len w' = bw_len w" "bw_pos w' = bw_pos w"
    "bw_lsid w' = bw_lsid w" "bio_wrapper_state_is_discard w' = bio_wrapper_state_is_discard w"
proof -
  obtain c where "w' = w\<lparr>bw_csum := c\<rparr>" using assms by (auto simp: only_csum_def)
  then show "bw_copied_bio w' = bw_copied_bio w" "bw_len w' = bw_len w" "bw_pos w' = bw_pos w"
    "bw_lsid w' = bw_lsid w" "bio_wrapper_state_is_discard w' = bio_wrapper_state_is_discard w"
    by (simp_all add: bio_wrapper_state_is_discard_def)
qed

lemma drop_used_step:
  assumes "i1 < unat (lh_n_records h)" "i1 < length (lh_record h)" "\<not> rec_padding (lh_record h ! i1)"
    and "i1 = i \<or> i1 = Suc i \<and> rec_padding (lh_record h ! i)"
  shows "filter (\<lambda>r. \<not> rec_padding r) (drop i (used_records h)) =
    lh_record h ! i1 # filter (\<lambda>r. \<not> rec_padding r) (drop (Suc i1) (used_records h))"
proof -
  have at: "j < unat (lh_n_records h) \<Longrightarrow> j < length (lh_record h) \<Longrightarrow>
      drop j (used_records h) = lh_record h ! j # drop (Suc j) (used_records h)" for j
    by (simp add: used_records_def Cons_nth_drop_Suc [symmetric])
  show ?thesis using assms(4)
  proof
    assume "i1 = i"
    then show ?thesis using at [of i] assms by simp
  next
    assume "i1 = Suc i \<and> rec_padding (lh_record h ! i)"
    then show ?thesis using at [of i] at [of "Suc i"] assms by simp
  qed
qed

lemma take_nth_eq: "take n xs = take n ys \<Longrightarrow> i < n \<Longrightarrow> xs ! i = ys ! i"
  by (metis nth_take)

definition csum_of :: "u32 \<Rightarrow> bio_wrapper \<Rightarrow> walb_log_record \<Rightarrow> bool" where
  "csum_of salt w r \<longleftrightarrow> (\<exists>b. bw_copied_bio w = Some b \<and> lr_checksum r = bio_calc_checksum b salt)"

lemma calc_loop_ok:
  assumes "logpack_inv pbs rbs h" "length (filter rec_padding (drop i (used_records h))) \<le> 1"
    and "length (filter (\<lambda>r. \<not> rec_padding r) (drop i (used_records h))) = length as"
    and "\<forall>a \<in> set as. bw_len (H a) \<noteq> 0 \<and> bw_copied_bio (H a) \<noteq> None"
  shows "\<exists>h' H'. calc_loop salt h i as H = Some (h', H') \<and> header_sim h h' \<and>
    take i (lh_record h') = take i (lh_record h) \<and> (\<forall>c. only_csum (H c) (H' c)) \<and>
    list_all2 (\<lambda>a r. csum_of salt (H a) r) as
      (filter (\<lambda>r. \<not> rec_padding r) (drop i (used_records h')))"
  using assms
proof (induction as arbitrary: i h H)
  case Nil
  then show ?case by (simp add: header_sim_refl only_csum_def)
next
  case (Cons a as)
  obtain r rs where rs: "filter (\<lambda>r. \<not> rec_padding r) (drop i (used_records h)) = r # rs"
    using Cons.prems(3) by (cases "filter (\<lambda>r. \<not> rec_padding r) (drop i (used_records h))") auto
  obtain b where b: "bw_copied_bio (H a) = Some b" "bw_len (H a) \<noteq> 0" using Cons.prems(4) by auto
  define i1 where "i1 = (if rec_padding (lh_record h ! i) then i + 1 else i)"
  note w = record_walk_step [OF Cons.prems(2) rs, folded i1_def]
  have len: "i1 < length (lh_record h)" using w(1) Cons.prems(1) by (simp add: logpack_inv_def)
  define c where "c = bio_calc_checksum b salt"
  define h1 where "h1 = h\<lparr>lh_record := (lh_record h)[i1 := (lh_record h ! i1)\<lparr>lr_checksum := c\<rparr>]\<rparr>"
  define H1 where "H1 = H(a := (H a)\<lparr>bw_csum := c\<rparr>)"
  note s = set_csum_used [OF w(1) len h1_def]
  have H1: "only_csum (H x) (H1 x)" for x by (simp add: H1_def only_csum_def)
  have "\<exists>h' H'. calc_loop salt h1 (i1 + 1) as H1 = Some (h', H') \<and> header_sim h1 h' \<and>
    take (i1 + 1) (lh_record h') = take (i1 + 1) (lh_record h1) \<and> (\<forall>c. only_csum (H1 c) (H' c)) \<and>
    list_all2 (\<lambda>a r. csum_of salt (H1 a) r) as
      (filter (\<lambda>r. \<not> rec_padding r) (drop (i1 + 1) (used_records h')))"
  proof (rule Cons.IH [OF header_sim_inv [OF s(4) Cons.prems(1)]])
    show "\<forall>a \<in> set as. bw_len (H1 a) \<noteq> 0 \<and> bw_copied_bio (H1 a) \<noteq> None"
      using Cons.prems(4) only_csum_fields [OF H1] by simp
  qed (use s(1) w(5,6) rs Cons.prems(3) in simp_all)
  then obtain h' H' where ih: "calc_loop salt h1 (i1 + 1) as H1 = Some (h', H')" "header_sim h1 h'"
      "take (i1 + 1) (lh_record h') = take (i1 + 1) (lh_record h1)" "\<And>c. only_csum (H1 c) (H' c)"
      "list_all2 (\<lambda>a r. csum_of salt (H1 a) r) as (filter (\<lambda>r. \<not> rec_padding r) (drop (i1 + 1) (used_records h')))"
    by auto
  have sim: "header_sim h h'" using s(4) ih(2) by (rule header_sim_trans)
  note u = header_sim_used [OF sim]
  have at: "lh_record h' ! i1 = r\<lparr>lr_checksum := c\<rparr>"
    using take_nth_eq [OF ih(3), of i1] s(3) w(2) by simp
  have "lh_record h' ! i = lh_record h ! i" if "i1 = Suc i"
    using take_nth_eq [OF ih(3), of i] take_nth_eq [OF s(2), of i] that by simp
  then have "i1 = i \<or> i1 = Suc i \<and> rec_padding (lh_record h' ! i)" by (auto simp: i1_def split: if_splits)
  then have io: "filter (\<lambda>r. \<not> rec_padding r) (drop i (used_records h')) =
      r\<lparr>lr_checksum := c\<rparr> # filter (\<lambda>r. \<not> rec_padding r) (drop (i1 + 1) (used_records h'))"
    using drop_used_step [of i1 h' i] w(1,4) len u at by (simp add: rec_padding_def)
  have "take i (lh_record h') = take i (take (i1 + 1) (lh_record h'))" using w(7) by (simp add: min_absorb1)
  also have "\<dots> = take i (take i1 (lh_record h1))" using ih(3) w(7) by (simp add: min_absorb1)
  also have "\<dots> = take i (lh_record h)" using s(2) w(7) by (simp add: min_absorb1)
  finally have "take i (lh_record h') = take i (lh_record h)" .
  moreover have "calc_loop salt h i (a # as) H = Some (h', H')"
    using ih(1) b by (simp add: Let_def i1_def h1_def H1_def c_def)
  moreover have "only_csum (H x) (H' x)" for x using H1 ih(4) by (rule only_csum_trans)
  moreover have "list_all2 (\<lambda>a r. csum_of salt (H a) r) as
      (filter (\<lambda>r. \<not> rec_padding r) (drop (i1 + 1) (used_records h')))"
    using ih(5) only_csum_fields(1) [OF H1] by (simp add: csum_of_def)
  ultimately show ?case using sim io b by (simp add: csum_of_def c_def)
qed

lemma io_records_checksum [simp]: "io_records (h\<lparr>lh_checksum := c\<rparr>) = io_records h"
  by (simp add: io_records_def used_records_def)

text \<open>
  C33. Before a logpack is written, its checksums are stored: every record gets the checksum of
  the data of its write and the header the checksum of the whole sector, so that the header
  passes the complete check that redo applies; nothing but checksums changes.
\<close>

theorem logpack_calc_checksum_seals:
  assumes p: "pack_ok pbs rbs T H p" "lh_n_records (pk_header p) \<noteq> 0" "lh_checksum (pk_header p) = 0"
    and pbs: "is_valid_pbs pbs" "65536 \<le> unat rbs" "length (logpack_header_bytes (pk_header p)) = unat pbs"
    and req: "\<forall>a \<in> set (pk_biow_list p). log_req pbs P (H a)"
  shows "\<exists>h' H'. logpack_calc_checksum (pk_header p) pbs salt (pk_biow_list p) H = Some (h', H') \<and>
    is_valid_logpack_header_and_records_with_checksum h' pbs salt \<and>
    list_all2 (\<lambda>a r. csum_of salt (H a) r) (pk_biow_list p) (io_records h') \<and>
    list_all2 same_but_csum (used_records (pk_header p)) (used_records h') \<and> (\<forall>c. only_csum (H c) (H' c))"
proof -
  let ?h = "pk_header p"
  have inv: "logpack_inv pbs rbs ?h" using p(1) by (simp add: pack_ok_def)
  have logs: "\<forall>a \<in> set (pk_biow_list p). bw_len (H a) \<noteq> 0"
      "list_all2 (\<lambda>a r. logged_as (H a) r) (pk_biow_list p) (io_records ?h)"
    using p(1,2) by (auto simp: pack_ok_def pack_logs_def)
  have "\<forall>a \<in> set (pk_biow_list p). bw_len (H a) \<noteq> 0 \<and> bw_copied_bio (H a) \<noteq> None"
    using req logs(1) by (auto simp: log_req_def split: option.splits)
  moreover have "length (io_records ?h) = length (pk_biow_list p)" using list_all2_lengthD [OF logs(2)] by simp
  ultimately obtain h1 H' where h1: "calc_loop salt ?h 0 (pk_biow_list p) H = Some (h1, H')" "header_sim ?h h1"
      "\<forall>c. only_csum (H c) (H' c)" "list_all2 (\<lambda>a r. csum_of salt (H a) r) (pk_biow_list p) (io_records h1)"
    using calc_loop_ok [OF inv, of 0 "pk_biow_list p" H salt] inv_padding_le [OF inv pbs(2)]
    by (auto simp: io_records_def)
  note u = header_sim_used [OF h1(2)]
  let ?h' = "h1\<lparr>lh_checksum := checksum (logpack_header_bytes h1) (unat pbs) salt\<rparr>"
  have "h1\<lparr>lh_checksum := 0\<rparr> = h1" using u(6) p(3) by simp
  then have seal: "logpack_header_seal h1 pbs salt = ?h'" by (simp add: logpack_header_seal_def Let_def)
  have "checksum (logpack_header_bytes ?h') (unat pbs) salt = 0"
    using checksum_logpack_header_seal [OF pbs(1), of h1 salt] u(7) pbs(3) seal by simp
  moreover have "is_valid_logpack_header_and_records ?h'"
    using inv_valid_records [of pbs rbs ?h'] header_sim_inv [OF h1(2) inv] pbs(2) by simp
  ultimately have "is_valid_logpack_header_and_records_with_checksum ?h' pbs salt"
    by (simp add: is_valid_logpack_header_and_records_with_checksum_def)
  moreover have "logpack_calc_checksum ?h pbs salt (pk_biow_list p) H = Some (?h', H')"
    using h1(1) by (simp add: logpack_calc_checksum_def)
  ultimately show ?thesis
    using h1(3,4) u(1) by (intro exI [of _ ?h'] exI [of _ H']) (simp add: used_records_def)
qed

section \<open>Where the data of a logpack goes\<close>

lemma split_never_giveup_tiles:
  assumes "bio_splitter sp" "\<And>b n. sp b n \<noteq> None" "0 < bio_len b" "bio_lo b + bio_len b < 2 ^ 64" "bio_has_data b"
  shows "\<exists>bl. split_bio_for_chunk_never_giveup sp [] b c = Some bl \<and> tiles (bio_lo b) bl (bio_lo b + bio_len b) \<and>
    (c \<noteq> 0 \<longrightarrow> (\<forall>x \<in> set bl. in_chunk (unat c) x))"
proof (cases "c = 0")
  case True
  then have "split_loop sp c [] b = Some (True, [b], b)"
    by (simp add: split_loop.simps should_split_bio_for_chunk_def)
  then show ?thesis
    using assms(3,5) True
    by (subst split_bio_for_chunk_never_giveup.simps) (simp add: split_bio_for_chunk_def)
next
  case False
  then have "0 < unat c" by (simp add: unat_gt_0)
  from bio_splitter.split_loop_ok [OF assms(1) this assms(3,4), of "[]"] obtain ok bl b' where
    l: "split_loop sp c [] b = Some (ok, bl, b')" "\<forall>x \<in> set bl. in_chunk (unat c) x"
      "tiles (bio_lo b) bl (if ok then bio_lo b + bio_len b else bio_lo b')" "\<not> ok \<longrightarrow> (\<exists>n. sp b' n = None)"
    by auto
  then have ok using assms(2) by auto
  then show ?thesis
    using l assms(5) by (subst split_bio_for_chunk_never_giveup.simps) (simp add: split_bio_for_chunk_def)
qed

text \<open>
  The blocks of the log device where the record of a write is: \<^verbatim>\<open>off\<close> is the first physical
  block of the ring buffer.
\<close>

definition record_lb :: "u32 \<Rightarrow> u64 \<Rightarrow> u64 \<Rightarrow> walb_log_record \<Rightarrow> nat" where
  "record_lb pbs off rbs r = (unat off + unat (lr_lsid r) mod unat rbs) * unat (n_lb_in_pb pbs)"

definition ring_fits :: "u32 \<Rightarrow> u64 \<Rightarrow> u64 \<Rightarrow> bool" where
  "ring_fits pbs off rbs \<longleftrightarrow> is_valid_pbs pbs \<and> 0 < rbs \<and>
     (unat off + unat rbs) * unat (n_lb_in_pb pbs) < 2 ^ 64"

lemma unat_addr_lb_offset:
  assumes "ring_fits pbs off rbs"
  shows "unat (addr_lb pbs (get_offset_of_lsid l off rbs)) =
    (unat off + unat l mod unat rbs) * unat (n_lb_in_pb pbs)"
proof -
  have n: "0 < unat (n_lb_in_pb pbs)" using assms n_lb_in_pb_bounds by (auto simp: ring_fits_def)
  have rbs: "0 < unat rbs" using assms by (simp add: ring_fits_def word_less_nat_alt)
  have mod: "unat l mod unat rbs < unat rbs" using rbs by simp
  then have lt: "(unat off + unat l mod unat rbs) * unat (n_lb_in_pb pbs) < 2 ^ 64"
    using assms unfolding ring_fits_def
    by (meson add_left_mono le_less_trans less_imp_le mult_le_mono1)
  have "unat off + unat l mod unat rbs \<le> (unat off + unat l mod unat rbs) * unat (n_lb_in_pb pbs)"
    using n by (cases "unat (n_lb_in_pb pbs)") auto
  then have "unat off + unat l mod unat rbs < 2 ^ 64" using lt by linarith
  then have o: "unat (get_offset_of_lsid l off rbs) = unat off + unat l mod unat rbs"
    unfolding get_offset_of_lsid_def by (subst unat_add_nowrap) (simp_all add: unat_mod)
  then show ?thesis using lt by (simp add: unat_addr_lb)
qed

lemma pb_of_covers:
  assumes "is_valid_pbs pbs"
  shows "lb \<le> pb_of pbs lb * unat (n_lb_in_pb pbs)"
proof -
  let ?n = "unat (n_lb_in_pb pbs)"
  have n: "0 < ?n" by (rule n_lb_in_pb_bounds(1) [OF assms])
  have "lb + ?n - 1 < (pb_of pbs lb + 1) * ?n"
    using n unfolding pb_of_def by (metis Suc_eq_plus1 dividend_less_div_times add.commute mult.commute mult_Suc)
  then show ?thesis using n by simp
qed

text \<open>The record of a write lies inside the ring buffer.\<close>

lemma record_in_ring:
  assumes ring: "ring_fits pbs off rbs" and inv: "logpack_inv pbs rbs h"
    and r: "r \<in> set (used_records h)" "\<not> rec_discard r"
  shows "record_lb pbs off rbs r + unat (lr_io_size r) \<le> (unat off + unat rbs) * unat (n_lb_in_pb pbs)"
    "unat off * unat (n_lb_in_pb pbs) \<le> record_lb pbs off rbs r"
proof -
  let ?n = "unat (n_lb_in_pb pbs)"
  have v: "is_valid_pbs pbs" using ring by (simp add: ring_fits_def)
  obtain l where ok: "rec_ok pbs (unat rbs) (unat (lh_logpack_lsid h)) l r"
    using inv r(1) recs_ok_mem by (fastforce simp: logpack_inv_def)
  have pb: "rec_pb pbs r = pb_of pbs (unat (lr_io_size r))"
    using r(2) unat_capacity_pb_u32 [OF v] by (simp add: rec_pb_def)
  then have "unat (lr_lsid r) mod unat rbs + pb_of pbs (unat (lr_io_size r)) \<le> unat rbs"
    using ok r(2) by (simp add: rec_ok_def)
  then have "(unat off + (unat (lr_lsid r) mod unat rbs + pb_of pbs (unat (lr_io_size r)))) * ?n \<le>
      (unat off + unat rbs) * ?n" by (intro mult_le_mono1 add_left_mono)
  then show "record_lb pbs off rbs r + unat (lr_io_size r) \<le> (unat off + unat rbs) * ?n"
    using pb_of_covers [OF v, of "unat (lr_io_size r)"] by (simp add: record_lb_def algebra_simps)
  show "unat off * ?n \<le> record_lb pbs off rbs r" by (simp add: record_lb_def)
qed

text \<open>The bios submitted for one record, and the whole logpack.\<close>

definition ios_of_record :: "u32 \<Rightarrow> u64 \<Rightarrow> u64 \<Rightarrow> u32 \<Rightarrow> walb_log_record \<Rightarrow> bio list \<Rightarrow> bool" where
  "ios_of_record pbs off rbs chunk r ios \<longleftrightarrow>
     (if rec_discard r then ios = []
      else tiles (record_lb pbs off rbs r) ios (record_lb pbs off rbs r + unat (lr_io_size r)) \<and>
           record_lb pbs off rbs r + unat (lr_io_size r) \<le> (unat off + unat rbs) * unat (n_lb_in_pb pbs) \<and>
           (chunk \<noteq> 0 \<longrightarrow> (\<forall>b \<in> set ios. in_chunk (unat chunk) b)))"

lemma submit_bio_wrapper_ok:
  assumes sp: "bio_splitter sp" "\<And>b n. sp b n \<noteq> None" and ring: "ring_fits pbs off rbs"
    and inv: "logpack_inv pbs rbs h" and r: "r \<in> set (used_records h)" "\<not> rec_discard r"
    and w: "logged_as w r" "log_req pbs P w" "bw_len w \<noteq> 0"
  shows "\<exists>ios. logpack_submit_bio_wrapper sp w (lr_lsid r) pbs off rbs chunk = Some ios \<and>
    ios_of_record pbs off rbs chunk r ios"
proof -
  obtain b where b: "bw_copied_bio w = Some b" "bw_len w = bio_sectors b" "bi_op b \<noteq> REQ_OP_DISCARD"
    using w r(2) by (auto simp: log_req_def logged_as_def split: option.splits)
  let ?o = "get_offset_of_lsid (lr_lsid r) off rbs"
  let ?c = "logpack_create_bio b pbs ?o 0"
  have lo: "bio_lo ?c = record_lb pbs off rbs r"
    using unat_addr_lb_offset [OF ring, of "lr_lsid r"]
    by (simp add: bio_lo_def bio_begin_sector_def logpack_create_bio_def bio_clear_flush_flags_def record_lb_def)
  have sz: "bio_sectors ?c = bio_sectors b" "bi_size (bi_iter ?c) = bi_size (bi_iter b)" "bi_op ?c = bi_op b"
    by (simp_all add: bio_sectors_def logpack_create_bio_def bio_clear_flush_flags_def)
  have io: "bio_sectors b = lr_io_size r" using w(1) b(2) by (simp add: logged_as_def)
  then have len: "bio_len ?c = unat (lr_io_size r)" using sz by (simp add: bio_len_def)
  have pos: "0 < bio_len ?c" using len io b(2) w(3) by (simp add: unat_gt_0)
  have nz: "bi_size (bi_iter b) \<noteq> 0" using b(2) w(3) by (auto simp: bio_sectors_def)
  note range = record_in_ring(1) [OF ring inv r]
  have "bio_lo ?c + bio_len ?c < 2 ^ 64" using range lo len ring by (simp add: ring_fits_def)
  moreover have "bio_has_data ?c" using sz nz b(3) by (simp add: bio_has_data_def)
  ultimately obtain ios where "split_bio_for_chunk_never_giveup sp [] ?c chunk = Some ios"
      "tiles (bio_lo ?c) ios (bio_lo ?c + bio_len ?c)" "chunk \<noteq> 0 \<longrightarrow> (\<forall>x \<in> set ios. in_chunk (unat chunk) x)"
    using split_never_giveup_tiles [OF sp pos] by blast
  then show ?thesis
    using b(1) r(2) range lo len
    by (intro exI [of _ ios]) (simp add: logpack_submit_bio_wrapper_def Let_def ios_of_record_def)
qed

lemma submit_loop_ok:
  assumes sp: "bio_splitter sp" "\<And>b n. sp b n \<noteq> None" and ring: "ring_fits pbs off rbs"
    and inv: "logpack_inv pbs rbs h" and "length (filter rec_padding (drop i (used_records h))) \<le> 1"
    and "list_all2 (\<lambda>a r. logged_as (H a) r) as (filter (\<lambda>r. \<not> rec_padding r) (drop i (used_records h)))"
    and "\<forall>a \<in> set as. bw_len (H a) \<noteq> 0 \<and> log_req pbs P (H a)"
  shows "\<exists>ioss. submit_loop sp pbs off rbs chunk H h i as = Some (concat ioss) \<and>
    list_all2 (ios_of_record pbs off rbs chunk) (filter (\<lambda>r. \<not> rec_padding r) (drop i (used_records h))) ioss"
  using assms(5-)
proof (induction as arbitrary: i)
  case Nil
  then show ?case by (intro exI [of _ "[]"]) simp
next
  case (Cons a as)
  obtain r rs where rs: "filter (\<lambda>r. \<not> rec_padding r) (drop i (used_records h)) = r # rs"
    using Cons.prems(2) by (cases "filter (\<lambda>r. \<not> rec_padding r) (drop i (used_records h))") auto
  define i1 where "i1 = (if rec_padding (lh_record h ! i) then i + 1 else i)"
  note w = record_walk_step [OF Cons.prems(1) rs, folded i1_def]
  have log: "logged_as (H a) r" "bw_len (H a) \<noteq> 0" "log_req pbs P (H a)" using Cons.prems rs by auto
  obtain ioss where ih: "submit_loop sp pbs off rbs chunk H h (i1 + 1) as = Some (concat ioss)"
      "list_all2 (ios_of_record pbs off rbs chunk) rs ioss"
    using Cons.IH [of "i1 + 1"] Cons.prems rs w(5,6) by auto
  obtain ios where ios: "(if rec_discard r then Some [] else if bw_len (H a) = 0 then Some []
      else logpack_submit_bio_wrapper sp (H a) (lr_lsid r) pbs off rbs chunk) = Some ios"
      "ios_of_record pbs off rbs chunk r ios"
    using submit_bio_wrapper_ok [OF sp ring inv w(3) _ log(1,3,2)] log(2)
    by (cases "rec_discard r") (auto simp: ios_of_record_def)
  then have "submit_loop sp pbs off rbs chunk H h i (a # as) = Some (concat (ios # ioss))"
    unfolding submit_loop.simps Let_def i1_def [symmetric] w(2) by (simp only: ios(1) bind.simps ih(1)) simp
  then show ?case using ios(2) ih(2) rs by (intro exI [of _ "ios # ioss"]) simp
qed

text \<open>
  C32. Where a logpack goes: the header is written first, to the block of the logpack's lsid in
  the ring buffer; for every write that has data, in order, bios are submitted that cover
  exactly the blocks of its record, inside the ring buffer and none of them across a chunk
  boundary; a discard writes nothing.  This holds for every \<^verbatim>\<open>bio_split\<close> that keeps the
  kernel's contract and does not fail.
\<close>

theorem submit_logpack_layout:
  assumes sp: "bio_splitter sp" "\<And>b n. sp b n \<noteq> None" and ring: "ring_fits pbs off rbs" "65536 \<le> unat rbs"
    and p: "pack_ok pbs rbs T H p" "lh_n_records (pk_header p) \<noteq> 0"
    and req: "\<forall>a \<in> set (pk_biow_list p). log_req pbs P (H a)"
  shows "\<exists>hb ioss. submit_logpack sp pbs fl off rbs chunk H (pk_header p) (pk_biow_list p) = Some (hb, concat ioss) \<and>
    bio_lo hb = (unat off + unat (lh_logpack_lsid (pk_header p)) mod unat rbs) * unat (n_lb_in_pb pbs) \<and>
    bi_segs hb = [logpack_header_bytes (pk_header p)] \<and> bi_preflush hb = fl \<and>
    list_all2 (ios_of_record pbs off rbs chunk) (io_records (pk_header p)) ioss"
proof -
  let ?h = "pk_header p"
  have inv: "logpack_inv pbs rbs ?h" using p(1) by (simp add: pack_ok_def)
  have logs: "\<forall>a \<in> set (pk_biow_list p). bw_len (H a) \<noteq> 0 \<and> log_req pbs P (H a)"
      "list_all2 (\<lambda>a r. logged_as (H a) r) (pk_biow_list p) (io_records ?h)"
    using p req by (auto simp: pack_ok_def pack_logs_def)
  from submit_loop_ok [OF sp ring(1) inv _ _ logs(1), of 0 chunk] inv_padding_le [OF inv ring(2)] logs(2)
  obtain ioss where "submit_loop sp pbs off rbs chunk H ?h 0 (pk_biow_list p) = Some (concat ioss)"
      "list_all2 (ios_of_record pbs off rbs chunk) (io_records ?h) ioss"
    unfolding io_records_def by auto
  then show ?thesis
    using unat_addr_lb_offset [OF ring(1), of "lh_logpack_lsid ?h"]
    by (intro exI [of _ "logpack_submit_header ?h pbs fl off rbs"] exI [of _ ioss])
       (simp add: submit_logpack_def logpack_submit_header_def Let_def bio_lo_def bio_begin_sector_def)
qed

text \<open>A pack with one write of five blocks, for the witnesses.\<close>

definition one_header :: walb_logpack_header where
  "one_header = demo_header\<lparr>lh_total_io_size := 5, lh_n_records := 1, lh_record :=
     \<lparr>lr_checksum = 0, lr_flags = 1, lr_offset = 1000, lr_io_size = 5, lr_lsid_local = 1,
      lr_reserved1 = 0, lr_lsid = 101\<rparr> # replicate 14 zero_log_record\<rparr>"

definition one_pack :: pack where
  "one_pack = demo_mem\<lparr>pk_biow_list := [7], pk_sector_size := 512, pk_header := one_header\<rparr>"

definition one_store :: biow_store where
  "one_store a = (demo_write 1000 5)\<lparr>bw_lsid := 101\<rparr>"

lemma one_pack_ok: "pack_ok 512 70000 100 one_store one_pack"
proof -
  have "used_records one_header = [hd (lh_record one_header)]"
    by (simp add: used_records_def one_header_def)
  moreover have "rec_padding (hd (lh_record one_header)) = False" "rec_discard (hd (lh_record one_header)) = False"
      "is_valid_log_record (hd (lh_record one_header))" "rec_pb 512 (hd (lh_record one_header)) = 5"
    by code_simp+
  moreover have "bio_wrapper_state_is_discard (one_store 7) = False" by code_simp
  ultimately show ?thesis
    by (simp add: pack_ok_def one_pack_def logpack_inv_def pack_logs_def io_records_def logged_as_def rec_ok_def)
       (simp add: one_header_def demo_header_def demo_mem_def max_n_log_record_in_sector_def MAX_LSID_def
          one_store_def demo_write_def demo_wrapper_def zero_log_record_def)
qed

lemma one_store_req: "log_req 512 100 (one_store a)"
  using demo_write_req [of 5 1000] by (simp add: one_store_def log_req_def bio_wrapper_state_is_discard_def cong: option.case_cong)

lemma one_pack_facts:
  "lh_n_records (pk_header one_pack) \<noteq> 0" "lh_checksum (pk_header one_pack) = 0" "is_valid_pbs 512"
  "\<forall>a \<in> set (pk_biow_list one_pack). log_req 512 100 (one_store a)"
  "length (logpack_header_bytes (pk_header one_pack)) = unat (512 :: u32)"
  using one_store_req
  by (simp_all add: one_pack_def one_header_def demo_header_def logpack_header_bytes_def
      is_valid_pbs_unat del: map_replicate)

theorem logpack_calc_checksum_seals_witness:
  "\<exists>h' H'. logpack_calc_checksum (pk_header one_pack) 512 9 (pk_biow_list one_pack) one_store = Some (h', H') \<and>
    is_valid_logpack_header_and_records_with_checksum h' 512 9 \<and>
    list_all2 (\<lambda>a r. csum_of 9 (one_store a) r) (pk_biow_list one_pack) (io_records h') \<and>
    list_all2 same_but_csum (used_records (pk_header one_pack)) (used_records h') \<and>
    (\<forall>c. only_csum (one_store c) (H' c))"
  by (rule logpack_calc_checksum_seals [OF one_pack_ok one_pack_facts(1-3) _ one_pack_facts(5,4)]) simp

theorem submit_logpack_layout_witness:
  "\<exists>hb ioss. submit_logpack cut_bio 512 True 10 70000 64 one_store (pk_header one_pack) (pk_biow_list one_pack) =
      Some (hb, concat ioss) \<and>
    bio_lo hb = (unat (10 :: u64) + unat (lh_logpack_lsid (pk_header one_pack)) mod unat (70000 :: u64)) *
      unat (n_lb_in_pb 512) \<and>
    bi_segs hb = [logpack_header_bytes (pk_header one_pack)] \<and> bi_preflush hb = True \<and>
    list_all2 (ios_of_record 512 10 70000 64) (io_records (pk_header one_pack)) ioss"
proof (rule submit_logpack_layout [OF cut_bio.bio_splitter_axioms _ _ _ one_pack_ok one_pack_facts(1,4)])
  show "ring_fits 512 10 70000" using one_pack_facts(3) by (simp add: ring_fits_def unat_n_lb_in_pb)
qed (simp_all add: cut_bio_def)

end
