(* ===== verification/Walb_Device.thy ===== *)
theory Walb_Device
  imports Walb_Log_Submit
begin

text \<open>
  The walb device (\<^verbatim>\<open>module/kern.h\<close>, \<^verbatim>\<open>module/io.h\<close>), synchronous sector IO and the
  super sector (\<^verbatim>\<open>module/sector_io.c\<close>, \<^verbatim>\<open>module/super.c\<close>) and the device utilities of
  \<^verbatim>\<open>module/wdev_util.c\<close>.  The kernel's block layer is not part of the driver: the record
  \<^verbatim>\<open>block_ops\<close> holds the functions the driver calls on a block device of any type, and
  \<^verbatim>\<open>reads_back\<close> states what the driver relies on.  The results of memory allocations are
  arguments, and a use of memory that C leaves undefined is \<^const>\<open>None\<close>.
\<close>

section \<open>kern.h and io.h\<close>

record lsid_set =
  latest :: u64
  completed :: u64
  flush :: u64
  permanent :: u64
  written :: u64
  prev_written :: u64
  oldest :: u64

definition WALB_STATE_READ_ONLY :: nat where "WALB_STATE_READ_ONLY = 0"
definition WALB_STATE_FINALIZE :: nat where "WALB_STATE_FINALIZE = 1"
definition WALB_STATE_OVERFLOW :: nat where "WALB_STATE_OVERFLOW = 2"

lemmas walb_state_defs = WALB_STATE_READ_ONLY_def WALB_STATE_FINALIZE_def WALB_STATE_OVERFLOW_def

text \<open>
  A delayed work is represented by the delay it was queued with, or \<^const>\<open>None\<close> when it is
  not queued; of the two generic disks only the capacity matters.
\<close>

datatype cp_state = CP_STOPPED | CP_STOPPING | CP_WAITING | CP_RUNNING

record checkpoint_data =
  cp_interval :: u32
  cp_status :: cp_state
  cp_dwork :: "u64 option"

datatype frz_state = FRZ_MELTED | FRZ_FROZEN | FRZ_FROZEN_TIMEO | FRZ_FROZEN_DEEP | FRZ_CANCELING

definition IOCORE_STATE_SUBMIT_LOG_TASK_WORKING :: nat where "IOCORE_STATE_SUBMIT_LOG_TASK_WORKING = 0"
definition IOCORE_STATE_WAIT_LOG_TASK_WORKING :: nat where "IOCORE_STATE_WAIT_LOG_TASK_WORKING = 1"
definition IOCORE_STATE_SUBMIT_DATA_TASK_WORKING :: nat where "IOCORE_STATE_SUBMIT_DATA_TASK_WORKING = 2"
definition IOCORE_STATE_WAIT_DATA_TASK_WORKING :: nat where "IOCORE_STATE_WAIT_DATA_TASK_WORKING = 3"
definition IOCORE_STATE_IS_QUEUE_STOPPED :: nat where "IOCORE_STATE_IS_QUEUE_STOPPED = 4"

lemmas iocore_state_defs = IOCORE_STATE_SUBMIT_LOG_TASK_WORKING_def IOCORE_STATE_WAIT_LOG_TASK_WORKING_def
  IOCORE_STATE_SUBMIT_DATA_TASK_WORKING_def IOCORE_STATE_WAIT_DATA_TASK_WORKING_def
  IOCORE_STATE_IS_QUEUE_STOPPED_def

record iocore_data =
  ic_flags :: u64
  ic_is_frozen_sys :: bool
  ic_is_frozen_usr :: bool
  ic_frozen_queue :: "ulong list"
  ic_logpack_submit_queue :: "ulong list"
  ic_logpack_wait_queue :: "pack list"
  ic_datapack_submit_queue :: "ulong list"
  ic_datapack_wait_queue :: "ulong list"
  ic_logpack_gc_queue :: "pack list"
  ic_n_pending_bio :: int
  ic_n_started_write_bio :: int
  ic_n_pending_gc :: int
  ic_overlapped_data :: tree_map
  ic_max_sectors_in_overlapped :: u32
  ic_pending_data :: tree_map
  ic_pending_sectors :: u32
  ic_max_sectors_in_pending :: u32
  ic_queue_restart_jiffies :: u64
  ic_log_flush_jiffies :: u64

record 'd walb_dev =
  wd_flags :: u64
  wd_ldev_size :: u64
  wd_ddev_size :: u64
  wd_size :: u64
  wd_physical_bs :: u16
  wd_ldev :: 'd
  wd_ddev :: 'd
  wd_ldev_chunk_sectors :: u32
  wd_ddev_chunk_sectors :: u32
  wd_lsuper0 :: sector_data
  wd_ring_buffer_off :: u64
  wd_ring_buffer_size :: u64
  wd_log_checksum_salt :: u32
  wd_lsids :: lsid_set
  wd_cpd :: checkpoint_data
  wd_max_logpack_pb :: u32
  wd_log_flush_interval_pb :: u32
  wd_log_flush_interval_jiffies :: u32
  wd_max_pending_sectors :: u32
  wd_min_pending_sectors :: u32
  wd_queue_stop_timeout_jiffies :: u32
  wd_n_pack_bulk :: u32
  wd_n_io_bulk :: u32
  wd_support_flush :: bool
  wd_support_fua :: bool
  wd_support_discard :: bool
  wd_freeze_state :: frz_state
  wd_freeze_dwork :: "u64 option"
  wd_gd_capacity :: u64
  wd_log_gd_capacity :: u64
  wd_iocore :: iocore_data

definition is_permanent_log_empty :: "lsid_set \<Rightarrow> bool" where
  "is_permanent_log_empty lsids = (oldest lsids = permanent lsids)"

definition lsid_set_is_valid :: "lsid_set \<Rightarrow> bool" where
  "lsid_set_is_valid lsids =
     (oldest lsids \<le> prev_written lsids \<and> prev_written lsids \<le> written lsids \<and>
      written lsids \<le> permanent lsids \<and> permanent lsids \<le> flush lsids \<and>
      flush lsids \<le> completed lsids \<and> completed lsids \<le> latest lsids)"

definition is_wdev_dying :: "'d walb_dev \<Rightarrow> bool" where
  "is_wdev_dying wdev = test_bit_u64 WALB_STATE_FINALIZE (wd_flags wdev)"

text \<open>\<^verbatim>\<open>test_bit\<close>, \<^verbatim>\<open>set_bit\<close> and \<^verbatim>\<open>clear_bit\<close> of the kernel on the flags word.\<close>

definition is_read_only :: "'d walb_dev \<Rightarrow> bool" where
  "is_read_only wdev = test_bit_u64 WALB_STATE_READ_ONLY (wd_flags wdev)"

definition set_wdev_flag :: "nat \<Rightarrow> 'd walb_dev \<Rightarrow> 'd walb_dev" where
  "set_wdev_flag nr wdev = wdev\<lparr>wd_flags := set_bit_u64 nr (wd_flags wdev)\<rparr>"

lemma set_read_only [simp]: "is_read_only (set_wdev_flag WALB_STATE_READ_ONLY wdev)"
  by (simp add: is_read_only_def set_wdev_flag_def walb_state_defs)

lemma set_wdev_flag_fields [simp]:
  "wd_lsids (set_wdev_flag f wdev) = wd_lsids wdev" "wd_ldev (set_wdev_flag f wdev) = wd_ldev wdev"
  "wd_freeze_state (set_wdev_flag f wdev) = wd_freeze_state wdev" "wd_cpd (set_wdev_flag f wdev) = wd_cpd wdev"
  "wd_ring_buffer_size (set_wdev_flag f wdev) = wd_ring_buffer_size wdev"
  "wd_iocore (set_wdev_flag f wdev) = wd_iocore wdev"
  by (simp_all add: set_wdev_flag_def)

section \<open>Block devices\<close>

text \<open>
  \<^verbatim>\<open>submit_bio_wait\<close> with one page of data, \<^verbatim>\<open>blkdev_issue_flush\<close>, the queue flags and
  limits.  The first component of a result says whether the call succeeded.
\<close>

record 'd block_ops =
  bo_physical_block_size :: "'d \<Rightarrow> nat"
  bo_submit_bio_wait :: "'d \<Rightarrow> req_op \<Rightarrow> bool \<Rightarrow> bool \<Rightarrow> u64 \<Rightarrow> u8 list \<Rightarrow> bool \<times> u8 list \<times> 'd"
  bo_issue_flush :: "'d \<Rightarrow> bool \<times> 'd"
  bo_queue_flag_wc :: "'d \<Rightarrow> bool"
  bo_queue_flag_fua :: "'d \<Rightarrow> bool"
  bo_queue_discard :: "'d \<Rightarrow> bool"
  bo_nr_sects :: "'d \<Rightarrow> u64"
  bo_io_min :: "'d \<Rightarrow> u32"

definition is_queue_flush_enabled :: "'d block_ops \<Rightarrow> 'd \<Rightarrow> bool" where
  "is_queue_flush_enabled ops q = bo_queue_flag_wc ops q"

definition is_queue_fua_enabled :: "'d block_ops \<Rightarrow> 'd \<Rightarrow> bool" where
  "is_queue_fua_enabled ops q = bo_queue_flag_fua ops q"

definition supports_flush_request_bdev :: "'d block_ops \<Rightarrow> 'd \<Rightarrow> bool" where
  "supports_flush_request_bdev ops bdev = is_queue_flush_enabled ops bdev"

text \<open>
  What the driver relies on: after a successful write, a successful read of the same block
  with a buffer of the same size returns the bytes written, and the block size does not change.
\<close>

definition reads_back :: "'d block_ops \<Rightarrow> bool" where
  "reads_back ops \<longleftrightarrow> (\<forall>d pf fua a buf buf' d'.
     bo_submit_bio_wait ops d REQ_OP_WRITE pf fua a buf = (True, buf', d') \<longrightarrow>
       bo_physical_block_size ops d' = bo_physical_block_size ops d \<and>
       (\<forall>buf2 buf3 d''. length buf2 = length buf \<longrightarrow>
          bo_submit_bio_wait ops d' REQ_OP_READ False False a buf2 = (True, buf3, d'') \<longrightarrow> buf3 = buf))"

section \<open>sector\_io.c\<close>

definition sector_io ::
    "'d block_ops \<Rightarrow> bool \<Rightarrow> req_op \<Rightarrow> bool \<Rightarrow> bool \<Rightarrow> 'd \<Rightarrow> u64 \<Rightarrow> sector_data \<Rightarrow> bool \<times> 'd \<times> sector_data" where
  "sector_io ops alloc_ok op preflush fua bdev addr sect =
     (let pbs = bo_physical_block_size ops bdev in
      if sd_size sect \<noteq> pbs then (False, bdev, sect)
      else if \<not> alloc_ok then (False, bdev, sect)
      else
        (let (ok, buf, bdev1) = bo_submit_bio_wait ops bdev op preflush fua
               (addr_lb (word_of_nat pbs) addr) (sector_bytes sect) in
         (ok, bdev1, if op = REQ_OP_READ then sect\<lparr>sd_data := Some buf\<rparr> else sect)))"

text \<open>The super sector structure laid over the bytes of a sector.\<close>

definition get_super_sector :: "sector_data \<Rightarrow> walb_super_sector" where
  "get_super_sector sect = super_sector_of_bytes (sector_bytes sect)"

definition put_super_sector :: "walb_super_sector \<Rightarrow> sector_data \<Rightarrow> sector_data" where
  "put_super_sector ss sect =
     sect\<lparr>sd_data := Some (overwrite 0 (super_sector_bytes ss) (sector_bytes sect))\<rparr>"

definition walb_read_super_sector ::
    "'d block_ops \<Rightarrow> bool \<Rightarrow> 'd \<Rightarrow> sector_data \<Rightarrow> bool \<times> 'd \<times> sector_data" where
  "walb_read_super_sector ops alloc_ok ldev lsuper =
     (let off0 = get_super_sector0_offset (word_of_nat (sd_size lsuper));
          (ok, ldev1, lsuper1) = sector_io ops alloc_ok REQ_OP_READ False False ldev off0 lsuper;
          sect = get_super_sector lsuper1 in
      if \<not> ok then (False, ldev1, lsuper1)
      else if checksum (sector_bytes lsuper1) (sd_size lsuper1) 0 \<noteq> 0 then (False, ldev1, lsuper1)
      else if ss_sector_type sect \<noteq> SECTOR_TYPE_SUPER then (False, ldev1, lsuper1)
      else if ss_version sect \<noteq> WALB_LOG_VERSION then (False, ldev1, lsuper1)
      else if strnlen (ss_name sect) DISK_NAME_LEN \<ge> DISK_NAME_LEN then (False, ldev1, lsuper1)
      else (True, ldev1, lsuper1))"

definition walb_write_super_sector ::
    "'d block_ops \<Rightarrow> bool \<Rightarrow> 'd \<Rightarrow> sector_data \<Rightarrow> bool \<times> 'd \<times> sector_data" where
  "walb_write_super_sector ops alloc_ok ldev lsuper =
     (let sect = (get_super_sector lsuper)\<lparr>ss_sector_type := SECTOR_TYPE_SUPER, ss_checksum := 0\<rparr>;
          lsuper1 = put_super_sector sect lsuper;
          csum = checksum (sector_bytes lsuper1) (sd_size lsuper) 0;
          lsuper2 = put_super_sector (sect\<lparr>ss_checksum := csum\<rparr>) lsuper1;
          off0 = get_super_sector0_offset (word_of_nat (sd_size lsuper)) in
      sector_io ops alloc_ok REQ_OP_WRITE True True ldev off0 lsuper2)"

section \<open>super.c\<close>

text \<open>
  The argument \<^verbatim>\<open>alloc\<close> holds the outcome of \<^verbatim>\<open>sector_alloc\<close> and of the bio allocation
  of \<^verbatim>\<open>sector_io\<close>.
\<close>

record sync_alloc =
  sy_malloc :: bool
  sy_buf :: "u8 list option"
  sy_bio :: bool

definition walb_sync_super_block ::
    "'d block_ops \<Rightarrow> sync_alloc \<Rightarrow> 'd walb_dev \<Rightarrow> (bool \<times> 'd walb_dev) option" where
  "walb_sync_super_block ops alloc wdev =
     (if is_read_only wdev then Some (False, wdev)
      else case sector_alloc (unat (wd_physical_bs wdev)) (sy_malloc alloc) (sy_buf alloc) of
        None \<Rightarrow> Some (False, wdev)
      | Some lsuper_tmp \<Rightarrow>
          (let written_lsid = written (wd_lsids wdev);
               sect = (get_super_sector (wd_lsuper0 wdev))\<lparr>ss_oldest_lsid := oldest (wd_lsids wdev),
                 ss_written_lsid := written_lsid, ss_device_size := wd_size wdev,
                 ss_log_checksum_salt := wd_log_checksum_salt wdev\<rparr>;
               wdev1 = wdev\<lparr>wd_lsuper0 := put_super_sector sect (wd_lsuper0 wdev)\<rparr> in
           case sector_copy lsuper_tmp (wd_lsuper0 wdev1) of
             None \<Rightarrow> None
           | Some lsuper_tmp1 \<Rightarrow>
               (let (flushed, ddev1) =
                  (if supports_flush_request_bdev ops (wd_ddev wdev) then bo_issue_flush ops (wd_ddev wdev)
                   else (True, wd_ddev wdev));
                  wdev2 = wdev1\<lparr>wd_ddev := ddev1\<rparr> in
                if \<not> flushed then Some (False, set_wdev_flag WALB_STATE_READ_ONLY wdev2)
                else
                  (let (ok, ldev1, lsuper_tmp2) =
                     walb_write_super_sector ops (sy_bio alloc) (wd_ldev wdev) lsuper_tmp1;
                     wdev3 = wdev2\<lparr>wd_ldev := ldev1\<rparr> in
                   if \<not> ok then Some (False, set_wdev_flag WALB_STATE_READ_ONLY wdev3)
                   else Some (True, wdev3\<lparr>wd_lsids := (wd_lsids wdev3)\<lparr>prev_written := written_lsid\<rparr>\<rparr>)))))"

definition walb_finalize_super_block ::
    "'d block_ops \<Rightarrow> sync_alloc \<Rightarrow> 'd walb_dev \<Rightarrow> bool \<Rightarrow> (bool \<times> 'd walb_dev) option" where
  "walb_finalize_super_block ops alloc wdev is_superblock_sync =
     (let wdev1 = wdev\<lparr>wd_lsids := (wd_lsids wdev)\<lparr>written := latest (wd_lsids wdev)\<rparr>\<rparr> in
      if is_superblock_sync then walb_sync_super_block ops alloc wdev1 else Some (True, wdev1))"

section \<open>The super sector on disk\<close>

lemma super_sector_bytes_split:
  "super_sector_bytes ss = (le_bytes 2 (ss_sector_type ss) @ le_bytes 2 (ss_version ss)) @
     bytes_of_u32 (ss_checksum ss) @ drop 8 (super_sector_bytes ss)"
  by (simp add: super_sector_bytes_def le_bytes_u32 [symmetric])

definition super_wf :: "walb_super_sector \<Rightarrow> bool" where
  "super_wf ss \<longleftrightarrow> length (ss_uuid ss) = UUID_SIZE \<and> length (ss_name ss) = DISK_NAME_LEN"

lemma super_sector_bytes_length: "super_wf ss \<Longrightarrow> length (super_sector_bytes ss) = 104"
  by (simp add: super_wf_def super_sector_bytes_def UUID_SIZE_def DISK_NAME_LEN_def)

lemma super_wf_fields [simp]:
  "super_wf (ss\<lparr>ss_checksum := c\<rparr>) = super_wf ss" "super_wf (ss\<lparr>ss_sector_type := t\<rparr>) = super_wf ss"
  "super_wf (ss\<lparr>ss_oldest_lsid := l\<rparr>) = super_wf ss" "super_wf (ss\<lparr>ss_written_lsid := l\<rparr>) = super_wf ss"
  "super_wf (ss\<lparr>ss_device_size := z\<rparr>) = super_wf ss" "super_wf (ss\<lparr>ss_log_checksum_salt := u\<rparr>) = super_wf ss"
  by (simp_all add: super_wf_def)

lemma get_super_sector_wf: "104 \<le> length (sector_bytes s) \<Longrightarrow> super_wf (get_super_sector s)"
  by (simp add: get_super_sector_def super_sector_of_bytes_def super_wf_def UUID_SIZE_def DISK_NAME_LEN_def)

lemma put_super_sector:
  assumes "super_wf ss" "104 \<le> length (sector_bytes s)"
  shows "sector_bytes (put_super_sector ss s) = super_sector_bytes ss @ drop 104 (sector_bytes s)"
    "length (sector_bytes (put_super_sector ss s)) = length (sector_bytes s)"
    "get_super_sector (put_super_sector ss s) = ss"
    "sd_size (put_super_sector ss s) = sd_size s"
proof -
  show b: "sector_bytes (put_super_sector ss s) = super_sector_bytes ss @ drop 104 (sector_bytes s)"
    using super_sector_bytes_length [OF assms(1)]
    by (simp add: put_super_sector_def sector_bytes_def [of "_\<lparr>sd_data := _\<rparr>"] overwrite_def)
  then show "length (sector_bytes (put_super_sector ss s)) = length (sector_bytes s)"
    using super_sector_bytes_length [OF assms(1)] assms(2) by simp
  show "get_super_sector (put_super_sector ss s) = ss"
    unfolding get_super_sector_def b using assms(1)
    by (simp add: super_sector_of_bytes_def super_sector_bytes_def le_word_le_bytes super_wf_def
        UUID_SIZE_def DISK_NAME_LEN_def)
  show "sd_size (put_super_sector ss s) = sd_size s" by (simp add: put_super_sector_def)
qed

lemma put_put_super_sector:
  assumes "super_wf ss" "super_wf ss'" "104 \<le> length (sector_bytes s)"
  shows "sector_bytes (put_super_sector ss' (put_super_sector ss s)) =
    super_sector_bytes ss' @ drop 104 (sector_bytes s)"
  using put_super_sector(1) [OF assms(2), of "put_super_sector ss s"] put_super_sector [OF assms(1,3)]
    super_sector_bytes_length [OF assms(1)] assms(3) by simp

text \<open>The bytes \<^verbatim>\<open>walb_write_super_sector\<close> sends to the device.\<close>

definition sealed_super :: "sector_data \<Rightarrow> sector_data" where
  "sealed_super s =
     (let sect = (get_super_sector s)\<lparr>ss_sector_type := SECTOR_TYPE_SUPER, ss_checksum := 0\<rparr>;
          s1 = put_super_sector sect s in
      put_super_sector (sect\<lparr>ss_checksum := checksum (sector_bytes s1) (sd_size s) 0\<rparr>) s1)"

lemma sealed_super_ok:
  assumes s: "length (sector_bytes s) = sd_size s" "104 \<le> sd_size s" "4 dvd sd_size s"
  shows "checksum (sector_bytes (sealed_super s)) (sd_size s) 0 = 0"
    "length (sector_bytes (sealed_super s)) = sd_size s" "sd_size (sealed_super s) = sd_size s"
    "\<exists>c. get_super_sector (sealed_super s) =
       (get_super_sector s)\<lparr>ss_sector_type := SECTOR_TYPE_SUPER, ss_checksum := c\<rparr>"
proof -
  define ss where "ss = (get_super_sector s)\<lparr>ss_sector_type := SECTOR_TYPE_SUPER, ss_checksum := 0\<rparr>"
  define c where "c = checksum (sector_bytes (put_super_sector ss s)) (sd_size s) 0"
  have wf: "super_wf ss" "super_wf (ss\<lparr>ss_checksum := c\<rparr>)" "104 \<le> length (sector_bytes s)"
    using get_super_sector_wf [of s] s by (simp_all add: ss_def)
  have eq: "sealed_super s = put_super_sector (ss\<lparr>ss_checksum := c\<rparr>) (put_super_sector ss s)"
    by (simp add: sealed_super_def Let_def ss_def c_def)
  let ?pre = "le_bytes 2 (ss_sector_type ss) @ le_bytes 2 (ss_version ss)"
  let ?post = "drop 8 (super_sector_bytes ss) @ drop 104 (sector_bytes s)"
  have zero: "sector_bytes (put_super_sector ss s) = ?pre @ bytes_of_u32 0 @ ?post"
    using put_super_sector(1) [OF wf(1,3)] super_sector_bytes_split [of ss] by (simp add: ss_def)
  have "drop 8 (super_sector_bytes (ss\<lparr>ss_checksum := c\<rparr>)) = drop 8 (super_sector_bytes ss)"
    by (simp add: super_sector_bytes_def)
  then have full: "sector_bytes (sealed_super s) = ?pre @ bytes_of_u32 c @ ?post"
    using put_put_super_sector [OF wf] super_sector_bytes_split [of "ss\<lparr>ss_checksum := c\<rparr>"] by (simp add: eq)
  have size: "sd_size s = length ?pre + 4 + length ?post"
    using super_sector_bytes_length [OF wf(1)] s by simp
  then have sb: "sector_bytes (sealed_super s) = sealed_block ?pre ?post 0"
    using full zero by (simp add: sealed_block_def c_def)
  show len: "length (sector_bytes (sealed_super s)) = sd_size s" using full size by simp
  have "4 dvd length ?post"
    using super_sector_bytes_length [OF wf(1)] s by (simp add: dvd_diff_nat)
  then have "checksum (sealed_block ?pre ?post 0) (length (sealed_block ?pre ?post 0)) 0 = 0"
    by (intro checksum_sealed_block_zero) simp_all
  then show "checksum (sector_bytes (sealed_super s)) (sd_size s) 0 = 0" unfolding sb [symmetric] len .
  show "sd_size (sealed_super s) = sd_size s" by (simp add: eq put_super_sector_def)
  show "\<exists>c. get_super_sector (sealed_super s) =
       (get_super_sector s)\<lparr>ss_sector_type := SECTOR_TYPE_SUPER, ss_checksum := c\<rparr>"
    using put_super_sector(3) [OF wf(2), of "put_super_sector ss s"] put_super_sector(2) [OF wf(1,3)] wf(3)
    by (intro exI [of _ c]) (simp add: eq ss_def)
qed

lemma write_super_sector_eq:
  "walb_write_super_sector ops ok ldev s =
     sector_io ops ok REQ_OP_WRITE True True ldev (get_super_sector0_offset (word_of_nat (sd_size s))) (sealed_super s)"
  by (simp add: walb_write_super_sector_def sealed_super_def Let_def)

text \<open>The block devices for which a read of the super sector itself does not fail.\<close>

definition super_readable :: "'d block_ops \<Rightarrow> 'd \<Rightarrow> nat \<Rightarrow> bool" where
  "super_readable ops d sz \<longleftrightarrow> (\<forall>buf. fst (bo_submit_bio_wait ops d REQ_OP_READ False False
     (addr_lb (word_of_nat sz) (get_super_sector0_offset (word_of_nat sz))) buf))"

lemma super_write_read:
  assumes ops: "reads_back ops"
    and s: "sector_wf s" "104 \<le> sd_size s" "4 dvd sd_size s"
      "ss_version (get_super_sector s) = WALB_LOG_VERSION"
      "strnlen (ss_name (get_super_sector s)) DISK_NAME_LEN < DISK_NAME_LEN"
    and w: "walb_write_super_sector ops ok ldev s = (True, ldev1, s1)"
    and t: "sector_wf t" "sd_size t = sd_size s" "super_readable ops ldev1 (sd_size s)"
  shows "\<exists>ldev2 t'. walb_read_super_sector ops True ldev1 t = (True, ldev2, t') \<and>
    sector_bytes t' = sector_bytes (sealed_super s)"
proof -
  let ?a = "addr_lb (word_of_nat (sd_size s)) (get_super_sector0_offset (word_of_nat (sd_size s)))"
  note sealed = sealed_super_ok [OF sector_wf_length [OF s(1)] s(2,3)]
  have w': "sd_size s = bo_physical_block_size ops ldev"
      "\<exists>b. bo_submit_bio_wait ops ldev REQ_OP_WRITE True True ?a (sector_bytes (sealed_super s)) = (True, b, ldev1)"
    using w sealed(3)
    by (auto simp: write_super_sector_eq sector_io_def Let_def split: if_splits prod.splits)
  have pbs: "bo_physical_block_size ops ldev1 = sd_size s"
    using ops w' unfolding reads_back_def by metis
  obtain buf ldev2 where r: "bo_submit_bio_wait ops ldev1 REQ_OP_READ False False ?a (sector_bytes t) = (True, buf, ldev2)"
    using t(3) unfolding super_readable_def by (metis prod.collapse)
  have "length (sector_bytes t) = length (sector_bytes (sealed_super s))"
    using sector_wf_length [OF t(1)] t(2) sealed(2) by simp
  then have buf: "buf = sector_bytes (sealed_super s)"
    using ops w'(2) r unfolding reads_back_def by blast
  let ?t = "t\<lparr>sd_data := Some buf\<rparr>"
  have bytes: "sector_bytes ?t = sector_bytes (sealed_super s)" using buf by (simp add: sector_bytes_def)
  obtain c where c: "get_super_sector (sealed_super s) =
      (get_super_sector s)\<lparr>ss_sector_type := SECTOR_TYPE_SUPER, ss_checksum := c\<rparr>"
    using sealed(4) by blast
  have g: "get_super_sector ?t = get_super_sector (sealed_super s)" by (simp add: get_super_sector_def bytes)
  have "sector_io ops True REQ_OP_READ False False ldev1 (get_super_sector0_offset (word_of_nat (sd_size t))) t =
      (True, ldev2, ?t)"
    using pbs r t(2) by (simp add: sector_io_def Let_def)
  then have "walb_read_super_sector ops True ldev1 t = (True, ldev2, ?t)"
    using g c bytes sealed(1) s(4,5) t(2) by (simp add: walb_read_super_sector_def Let_def)
  then show ?thesis using bytes by blast
qed

text \<open>A well-formed device: its super sector in memory is complete and names the version.\<close>

definition wdev_super_ok :: "'d walb_dev \<Rightarrow> bool" where
  "wdev_super_ok wdev \<longleftrightarrow> sector_wf (wd_lsuper0 wdev) \<and> sd_size (wd_lsuper0 wdev) = unat (wd_physical_bs wdev) \<and>
     is_valid_pbs (ucast (wd_physical_bs wdev)) \<and>
     ss_version (get_super_sector (wd_lsuper0 wdev)) = WALB_LOG_VERSION \<and>
     strnlen (ss_name (get_super_sector (wd_lsuper0 wdev))) DISK_NAME_LEN < DISK_NAME_LEN"

definition synced_super :: "'d walb_dev \<Rightarrow> walb_super_sector" where
  "synced_super wdev = (get_super_sector (wd_lsuper0 wdev))\<lparr>ss_oldest_lsid := oldest (wd_lsids wdev),
     ss_written_lsid := written (wd_lsids wdev), ss_device_size := wd_size wdev,
     ss_log_checksum_salt := wd_log_checksum_salt wdev\<rparr>"

lemma wdev_super_okD:
  assumes "wdev_super_ok wdev"
  shows "512 \<le> sd_size (wd_lsuper0 wdev)" "4 dvd sd_size (wd_lsuper0 wdev)"
    "length (sector_bytes (wd_lsuper0 wdev)) = sd_size (wd_lsuper0 wdev)"
    "super_wf (synced_super wdev)"
    "sector_wf (put_super_sector (synced_super wdev) (wd_lsuper0 wdev))"
    "get_super_sector (put_super_sector (synced_super wdev) (wd_lsuper0 wdev)) = synced_super wdev"
proof -
  have p: "512 \<le> unat (wd_physical_bs wdev)" "512 dvd unat (wd_physical_bs wdev)"
    using assms by (auto simp: wdev_super_ok_def is_valid_pbs_unat)
  then show s: "512 \<le> sd_size (wd_lsuper0 wdev)" using assms by (simp add: wdev_super_ok_def)
  have "4 dvd (512 :: nat)" by simp
  then show "4 dvd sd_size (wd_lsuper0 wdev)" using p(2) assms by (metis dvd_trans wdev_super_ok_def)
  show l: "length (sector_bytes (wd_lsuper0 wdev)) = sd_size (wd_lsuper0 wdev)"
    using assms by (simp add: wdev_super_ok_def sector_wf_length)
  show wf: "super_wf (synced_super wdev)"
    using get_super_sector_wf [of "wd_lsuper0 wdev"] s l by (simp add: synced_super_def)
  have le: "104 \<le> length (sector_bytes (wd_lsuper0 wdev))" using s l by simp
  note put = put_super_sector [OF wf le]
  show "get_super_sector (put_super_sector (synced_super wdev) (wd_lsuper0 wdev)) = synced_super wdev"
    by (rule put(3))
  show "sector_wf (put_super_sector (synced_super wdev) (wd_lsuper0 wdev))"
    using put(2,4) l s by (auto simp: sector_wf_def put_super_sector_def sector_bytes_def)
qed

text \<open>The paths of a sync: what is sent to the log device, and what is left behind.\<close>

lemma sync_paths:
  assumes wf: "wdev_super_ok wdev" and buf: "\<And>b. sy_buf al = Some b \<Longrightarrow> length b = unat (wd_physical_bs wdev)"
  shows "walb_sync_super_block ops al wdev = Some (False, wdev) \<and>
      (is_read_only wdev \<or> \<not> sy_malloc al \<or> sy_buf al = None) \<or>
    (\<exists>wdev'. walb_sync_super_block ops al wdev = Some (False, wdev') \<and> is_read_only wdev' \<and>
      wd_lsids wdev' = wd_lsids wdev \<and>
      (supports_flush_request_bdev ops (wd_ddev wdev) \<and> \<not> fst (bo_issue_flush ops (wd_ddev wdev)) \<or>
       (\<exists>s. sd_size s = unat (wd_physical_bs wdev) \<and>
          \<not> fst (walb_write_super_sector ops (sy_bio al) (wd_ldev wdev) s)))) \<or>
    (\<exists>wdev' s1 s. walb_sync_super_block ops al wdev = Some (True, wdev') \<and> \<not> is_read_only wdev \<and>
      wd_lsids wdev' = (wd_lsids wdev)\<lparr>prev_written := written (wd_lsids wdev)\<rparr> \<and>
      walb_write_super_sector ops (sy_bio al) (wd_ldev wdev) s = (True, wd_ldev wdev', s1) \<and>
      sector_wf s \<and> sd_size s = unat (wd_physical_bs wdev) \<and> get_super_sector s = synced_super wdev)"
proof (cases "is_read_only wdev \<or> \<not> sy_malloc al \<or> sy_buf al = None")
  case True
  then show ?thesis by (auto simp: walb_sync_super_block_def sector_alloc_def)
next
  case False
  then obtain b where b: "sy_buf al = Some b" "length b = unat (wd_physical_bs wdev)" using buf by blast
  let ?tmp = "\<lparr>sd_size = unat (wd_physical_bs wdev), sd_data = Some b\<rparr>"
  let ?src = "put_super_sector (synced_super wdev) (wd_lsuper0 wdev)"
  note ok = wdev_super_okD [OF wf]
  have sz: "sd_size ?src = unat (wd_physical_bs wdev)" using wf by (simp add: put_super_sector_def wdev_super_ok_def)
  have tmp: "sector_wf ?tmp" using b(2) ok(1) wf by (simp add: sector_wf_def wdev_super_ok_def)
  define s where "s = ?tmp\<lparr>sd_data := sd_data ?src\<rparr>"
  have copy: "sector_copy ?tmp ?src = Some s"
    using sector_copy_ok [OF tmp ok(5)] sz by (simp add: s_def)
  have s: "sector_wf s" "sd_size s = unat (wd_physical_bs wdev)" "get_super_sector s = synced_super wdev"
    using ok(5,6) sz by (auto simp: s_def sector_wf_def get_super_sector_def sector_bytes_def)
  obtain fl ddev1 where fl: "(if supports_flush_request_bdev ops (wd_ddev wdev) then bo_issue_flush ops (wd_ddev wdev)
      else (True, wd_ddev wdev)) = (fl, ddev1)" by fastforce
  obtain wk ldev1 s1 where w: "walb_write_super_sector ops (sy_bio al) (wd_ldev wdev) s = (wk, ldev1, s1)"
    by (metis prod_cases3)
  have alloc: "sector_alloc (unat (wd_physical_bs wdev)) (sy_malloc al) (sy_buf al) = Some ?tmp"
    using False b(1) by (simp add: sector_alloc_def)
  define dev where "dev = wdev\<lparr>wd_lsuper0 := ?src, wd_ddev := ddev1\<rparr>"
  have eq: "walb_sync_super_block ops al wdev =
    (if \<not> fl then Some (False, set_wdev_flag WALB_STATE_READ_ONLY dev)
     else if \<not> wk then Some (False, set_wdev_flag WALB_STATE_READ_ONLY (dev\<lparr>wd_ldev := ldev1\<rparr>))
     else Some (True, dev\<lparr>wd_ldev := ldev1,
       wd_lsids := (wd_lsids wdev)\<lparr>prev_written := written (wd_lsids wdev)\<rparr>\<rparr>))"
    using False alloc fl w copy
    by (simp add: walb_sync_super_block_def Let_def dev_def synced_super_def [symmetric])
  show ?thesis
  proof (cases "fl \<and> wk")
    case True
    then show ?thesis using eq w s False by (auto simp: dev_def)
  next
    case f: False
    have "supports_flush_request_bdev ops (wd_ddev wdev) \<and> \<not> fst (bo_issue_flush ops (wd_ddev wdev)) \<or>
        \<not> fst (walb_write_super_sector ops (sy_bio al) (wd_ldev wdev) s)"
      using f fl w by (auto split: if_splits)
    then have c: "supports_flush_request_bdev ops (wd_ddev wdev) \<and> \<not> fst (bo_issue_flush ops (wd_ddev wdev)) \<or>
       (\<exists>s. sd_size s = unat (wd_physical_bs wdev) \<and>
          \<not> fst (walb_write_super_sector ops (sy_bio al) (wd_ldev wdev) s))"
      using s(2) by blast
    obtain wdev' where "walb_sync_super_block ops al wdev = Some (False, wdev')" "is_read_only wdev'"
        "wd_lsids wdev' = wd_lsids wdev"
      using eq f by (cases fl) (auto simp: dev_def)
    then show ?thesis using c by blast
  qed
qed

text \<open>
  C12. A successful sync of the super block makes the checkpoint durable: reading the super
  sector back from the log device succeeds and gives the oldest and the written lsid, the
  device size and the checksum salt of the moment of the sync, and \<^verbatim>\<open>prev_written\<close> is that
  written lsid; no other lsid changes.
\<close>

theorem sync_super_block_persists:
  assumes ops: "reads_back ops" and wf: "wdev_super_ok wdev"
    and buf: "\<And>b. sy_buf al = Some b \<Longrightarrow> length b = unat (wd_physical_bs wdev)"
    and sync: "walb_sync_super_block ops al wdev = Some (True, wdev')"
    and t: "sector_wf t" "sd_size t = unat (wd_physical_bs wdev)"
      "super_readable ops (wd_ldev wdev') (unat (wd_physical_bs wdev))"
  shows "wd_lsids wdev' = (wd_lsids wdev)\<lparr>prev_written := written (wd_lsids wdev)\<rparr> \<and>
    (\<exists>ldev2 t'. walb_read_super_sector ops True (wd_ldev wdev') t = (True, ldev2, t') \<and>
       ss_oldest_lsid (get_super_sector t') = oldest (wd_lsids wdev) \<and>
       ss_written_lsid (get_super_sector t') = written (wd_lsids wdev) \<and>
       ss_device_size (get_super_sector t') = wd_size wdev \<and>
       ss_log_checksum_salt (get_super_sector t') = wd_log_checksum_salt wdev)"
proof -
  from sync_paths [OF wf buf, of al ops] sync obtain s s1 where
    l: "wd_lsids wdev' = (wd_lsids wdev)\<lparr>prev_written := written (wd_lsids wdev)\<rparr>"
    and w: "walb_write_super_sector ops (sy_bio al) (wd_ldev wdev) s = (True, wd_ldev wdev', s1)"
    and s: "sector_wf s" "sd_size s = unat (wd_physical_bs wdev)" "get_super_sector s = synced_super wdev"
    by auto
  have sz: "104 \<le> sd_size s" "4 dvd sd_size s"
    using wdev_super_okD(1,2) [OF wf] wf s(2) by (simp_all add: wdev_super_ok_def)
  have "ss_version (get_super_sector s) = WALB_LOG_VERSION"
      "strnlen (ss_name (get_super_sector s)) DISK_NAME_LEN < DISK_NAME_LEN"
    using wf s(3) by (simp_all add: synced_super_def wdev_super_ok_def)
  from super_write_read [OF ops s(1) sz this w t(1)] t(2,3) s(2)
  obtain ldev2 t' where r: "walb_read_super_sector ops True (wd_ldev wdev') t = (True, ldev2, t')"
      "sector_bytes t' = sector_bytes (sealed_super s)" by auto
  obtain c where "get_super_sector (sealed_super s) =
      (get_super_sector s)\<lparr>ss_sector_type := SECTOR_TYPE_SUPER, ss_checksum := c\<rparr>"
    using sealed_super_ok(4) [OF sector_wf_length [OF s(1)] sz] by blast
  then have "get_super_sector t' = (synced_super wdev)\<lparr>ss_sector_type := SECTOR_TYPE_SUPER, ss_checksum := c\<rparr>"
    using r(2) s(3) by (simp add: get_super_sector_def)
  then show ?thesis using l r(1) by (simp add: synced_super_def)
qed


text \<open>A device in memory that keeps the contract, and a walb device on two of them.\<close>

type_synonym ram = "u64 \<Rightarrow> u8 list"

definition ram_ops :: "ram block_ops" where
  "ram_ops = \<lparr>bo_physical_block_size = (\<lambda>_. 512),
     bo_submit_bio_wait = (\<lambda>d op pf fua a buf.
       if op = REQ_OP_READ then (True, d a, d) else (True, buf, d(a := buf))),
     bo_issue_flush = (\<lambda>d. (True, d)), bo_queue_flag_wc = (\<lambda>_. True), bo_queue_flag_fua = (\<lambda>_. True),
     bo_queue_discard = (\<lambda>_. True), bo_nr_sects = (\<lambda>_. 100000), bo_io_min = (\<lambda>_. 512)\<rparr>"

lemma ram_reads_back: "reads_back ram_ops"
  by (simp add: reads_back_def ram_ops_def)

lemma ram_readable: "super_readable ram_ops d n"
  by (simp add: super_readable_def ram_ops_def)

definition blank_iocore :: iocore_data where
  "blank_iocore = \<lparr>ic_flags = 0, ic_is_frozen_sys = False, ic_is_frozen_usr = False, ic_frozen_queue = [],
     ic_logpack_submit_queue = [], ic_logpack_wait_queue = [], ic_datapack_submit_queue = [],
     ic_datapack_wait_queue = [], ic_logpack_gc_queue = [], ic_n_pending_bio = 0, ic_n_started_write_bio = 0,
     ic_n_pending_gc = 0, ic_overlapped_data = map_init, ic_max_sectors_in_overlapped = 0,
     ic_pending_data = map_init, ic_pending_sectors = 0, ic_max_sectors_in_pending = 0,
     ic_queue_restart_jiffies = 0, ic_log_flush_jiffies = 0\<rparr>"

definition demo_lsuper :: sector_data where
  "demo_lsuper = \<lparr>sd_size = 512,
     sd_data = Some (super_sector_bytes (demo_super\<lparr>ss_physical_bs := 512\<rparr>) @ replicate 408 0)\<rparr>"

definition demo_wdev :: "ram walb_dev" where
  "demo_wdev = \<lparr>wd_flags = 0, wd_ldev_size = 100000, wd_ddev_size = 100000, wd_size = 100000,
     wd_physical_bs = 512, wd_ldev = (\<lambda>_. replicate 512 0), wd_ddev = (\<lambda>_. replicate 512 0),
     wd_ldev_chunk_sectors = 0, wd_ddev_chunk_sectors = 0, wd_lsuper0 = demo_lsuper,
     wd_ring_buffer_off = 10, wd_ring_buffer_size = 99990, wd_log_checksum_salt = 77,
     wd_lsids = \<lparr>latest = 50, completed = 40, flush = 35, permanent = 35, written = 30, prev_written = 20, oldest = 10\<rparr>,
     wd_cpd = \<lparr>cp_interval = 10000, cp_status = CP_STOPPED, cp_dwork = None\<rparr>, wd_max_logpack_pb = 64,
     wd_log_flush_interval_pb = 1000, wd_log_flush_interval_jiffies = 100, wd_max_pending_sectors = 1000,
     wd_min_pending_sectors = 500, wd_queue_stop_timeout_jiffies = 100, wd_n_pack_bulk = 128, wd_n_io_bulk = 1024,
     wd_support_flush = True, wd_support_fua = True, wd_support_discard = True, wd_freeze_state = FRZ_MELTED,
     wd_freeze_dwork = None, wd_gd_capacity = 100000, wd_log_gd_capacity = 100000,
     wd_iocore = blank_iocore\<rparr>"

definition demo_alloc :: sync_alloc where
  "demo_alloc = \<lparr>sy_malloc = True, sy_buf = Some (replicate 512 7), sy_bio = True\<rparr>"

lemma demo_super_wf: "super_wf (demo_super\<lparr>ss_physical_bs := 512\<rparr>)"
  by (simp add: super_wf_def demo_super_def UUID_SIZE_def DISK_NAME_LEN_def)

lemma demo_wdev_ok: "wdev_super_ok demo_wdev"
proof -
  have len: "length (super_sector_bytes (demo_super\<lparr>ss_physical_bs := 512\<rparr>)) = 104"
    by (rule super_sector_bytes_length [OF demo_super_wf])
  have "get_super_sector demo_lsuper = demo_super\<lparr>ss_physical_bs := 512\<rparr>"
    unfolding get_super_sector_def demo_lsuper_def sector_bytes_def
    using demo_super_wf by (simp add: super_sector_of_bytes_def super_sector_bytes_def le_word_le_bytes super_wf_def
        UUID_SIZE_def DISK_NAME_LEN_def)
  moreover have "is_valid_pbs (ucast (512 :: u16))" by (simp add: is_valid_pbs_unat)
  moreover have "strnlen (ss_name demo_super) DISK_NAME_LEN < DISK_NAME_LEN" by code_simp
  ultimately show ?thesis
    using len by (simp add: wdev_super_ok_def demo_wdev_def)
      (simp add: demo_lsuper_def sector_wf_def demo_super_def)
qed

lemma demo_alloc_buf: "sy_buf demo_alloc = Some b \<Longrightarrow> length b = unat (wd_physical_bs demo_wdev)"
  by (auto simp: demo_alloc_def demo_wdev_def)

lemma sealed_super_size [simp]: "sd_size (sealed_super s) = sd_size s"
  by (simp add: sealed_super_def Let_def put_super_sector_def)

lemma demo_sync:
  obtains wdev' where "walb_sync_super_block ram_ops demo_alloc demo_wdev = Some (True, wdev')"
proof -
  have "\<not> is_read_only demo_wdev" by (simp add: is_read_only_def demo_wdev_def)
  moreover have "fst (bo_issue_flush ram_ops d)" for d by (simp add: ram_ops_def)
  moreover have "fst (walb_write_super_sector ram_ops (sy_bio demo_alloc) d s)"
    if "sd_size s = unat (wd_physical_bs demo_wdev)" for d s
    using that by (simp add: write_super_sector_eq sector_io_def Let_def ram_ops_def demo_alloc_def demo_wdev_def)
  moreover have "sy_malloc demo_alloc" "sy_buf demo_alloc \<noteq> None" by (simp_all add: demo_alloc_def)
  ultimately show thesis
    using sync_paths [where al = demo_alloc and ops = ram_ops, OF demo_wdev_ok demo_alloc_buf] that by auto
qed

theorem sync_super_block_persists_witness:
  "\<exists>wdev'. walb_sync_super_block ram_ops demo_alloc demo_wdev = Some (True, wdev') \<and>
    wd_lsids wdev' = (wd_lsids demo_wdev)\<lparr>prev_written := written (wd_lsids demo_wdev)\<rparr> \<and>
    (\<exists>ldev2 t'. walb_read_super_sector ram_ops True (wd_ldev wdev') demo_lsuper = (True, ldev2, t') \<and>
       ss_oldest_lsid (get_super_sector t') = oldest (wd_lsids demo_wdev) \<and>
       ss_written_lsid (get_super_sector t') = written (wd_lsids demo_wdev) \<and>
       ss_device_size (get_super_sector t') = wd_size demo_wdev \<and>
       ss_log_checksum_salt (get_super_sector t') = wd_log_checksum_salt demo_wdev)"
proof -
  obtain wdev' where w: "walb_sync_super_block ram_ops demo_alloc demo_wdev = Some (True, wdev')"
    by (rule demo_sync)
  have t: "sector_wf demo_lsuper" "sd_size demo_lsuper = unat (wd_physical_bs demo_wdev)"
    using demo_wdev_ok by (simp_all add: wdev_super_ok_def demo_wdev_def)
  show ?thesis
    using sync_super_block_persists [OF ram_reads_back demo_wdev_ok demo_alloc_buf w t ram_readable] w by blast
qed


end
