(* ===== verification/Walb_Redo.thy ===== *)
theory Walb_Redo
  imports Walb_Log_Submit Walb_Device
begin

text \<open>
  Redo of the log when a device is started (\<^verbatim>\<open>module/redo.c\<close>).  A worker reads the log ahead,
  one physical block per wrapper, into a queue; the main loop takes a logpack header and the
  blocks of the logpack from the queue, checks them and creates the data IOs.  A wrapper is
  represented by the status of its read and its block.  The log device is a function from
  physical block offsets to what reading them returns.  The data IOs are returned in the order
  of submission, in which \<^verbatim>\<open>overlapped_check_and_insert\<close> lets overlapping ones reach the data
  device.
\<close>

section \<open>Reading the log\<close>

record redo_block =
  rb_status :: u8
  rb_data :: "u8 list"

record redo_data =
  rd_lsid :: u64
  rd_queue :: "redo_block list"

definition READ_AHEAD_LB :: u64 where "READ_AHEAD_LB = 8 * 1024 * 1024 div 512"

definition create_redo_data :: "u64 \<Rightarrow> redo_data" where
  "create_redo_data lsid = \<lparr>rd_lsid = lsid, rd_queue = []\<rparr>"

definition wdev_pbs :: "'d walb_dev \<Rightarrow> u32" where
  "wdev_pbs wdev = ucast (wd_physical_bs wdev)"

definition create_log_bio_wrapper_for_redo :: "(u64 \<Rightarrow> redo_block) \<Rightarrow> 'd walb_dev \<Rightarrow> u64 \<Rightarrow> redo_block" where
  "create_log_bio_wrapper_for_redo ldev wdev lsid =
     ldev (get_offset_of_lsid lsid (wd_ring_buffer_off wdev) (wd_ring_buffer_size wdev))"

definition max_read_ahead :: "'d walb_dev \<Rightarrow> nat" where
  "max_read_ahead wdev = unat (ucast (capacity_pb (wdev_pbs wdev) READ_AHEAD_LB) :: u32)"

text \<open>The worker fills the queue up to its limit with the blocks of consecutive lsids.\<close>

definition run_read_log_in_redo :: "(u64 \<Rightarrow> redo_block) \<Rightarrow> 'd walb_dev \<Rightarrow> redo_data \<Rightarrow> redo_data" where
  "run_read_log_in_redo ldev wdev rd =
     (let n = max_read_ahead wdev - length (rd_queue rd);
          biow_list = map (\<lambda>i. create_log_bio_wrapper_for_redo ldev wdev (rd_lsid rd + of_nat i)) [0..<n] in
      rd\<lparr>rd_queue := rd_queue rd @ biow_list, rd_lsid := rd_lsid rd + of_nat n\<rparr>)"

definition get_bio_wrapper_from_read_queue :: "nat \<Rightarrow> redo_data \<Rightarrow> redo_block list \<times> redo_data" where
  "get_bio_wrapper_from_read_queue n rd = (take n (rd_queue rd), rd\<lparr>rd_queue := drop n (rd_queue rd)\<rparr>)"

text \<open>Taking blocks with the worker woken up whenever the queue has too few.\<close>

partial_function (option) get_blocks ::
  "(u64 \<Rightarrow> redo_block) \<Rightarrow> 'd walb_dev \<Rightarrow> nat \<Rightarrow> redo_block list \<Rightarrow> redo_data \<Rightarrow> (redo_block list \<times> redo_data) option" where
  "get_blocks ldev wdev n biow_list rd =
     (case get_bio_wrapper_from_read_queue (n - length biow_list) rd of
        (bs, rd1) \<Rightarrow>
          if length (biow_list @ bs) < n then get_blocks ldev wdev n (biow_list @ bs) (run_read_log_in_redo ldev wdev rd1)
          else Some (biow_list @ bs, rd1))"

definition get_logpack_header_for_redo ::
  "(u64 \<Rightarrow> redo_block) \<Rightarrow> 'd walb_dev \<Rightarrow> u64 \<Rightarrow> redo_data \<Rightarrow> (redo_block option \<times> redo_data) option" where
  "get_logpack_header_for_redo ldev wdev written_lsid rd =
     map_option (\<lambda>(bs, rd1).
        let biow = hd bs; logh = logpack_header_of_bytes (rb_data biow) in
        if is_valid_logpack_header_with_checksum logh (wdev_pbs wdev) (wd_log_checksum_salt wdev) \<and>
           lh_logpack_lsid logh = written_lsid
        then (Some biow, rd1) else (None, rd1))
       (get_blocks ldev wdev 1 [] rd)"

section \<open>Data IOs\<close>

text \<open>The position in the data device and the bytes, or the number of sectors to discard.\<close>

datatype redo_io = Redo_write u64 "u8 list" | Redo_discard u64 u32

fun calc_checksum_loop :: "u32 \<Rightarrow> u32 \<Rightarrow> u32 \<Rightarrow> redo_block list \<Rightarrow> u32" where
  "calc_checksum_loop pbs csum n_lb [] = csum"
| "calc_checksum_loop pbs csum n_lb (biow # bs) =
     (let len = min (n_lb_in_pb pbs) n_lb in
      calc_checksum_loop pbs (checksum_partial csum (rb_data biow) (unat len * 512)) (n_lb - len) bs)"

definition calc_checksum_for_redo :: "u32 \<Rightarrow> u32 \<Rightarrow> u32 \<Rightarrow> redo_block list \<Rightarrow> u32" where
  "calc_checksum_for_redo n_lb pbs salt biow_list = checksum_finish (calc_checksum_loop pbs salt n_lb biow_list)"

definition prepare_data_bio_for_redo :: "redo_block \<Rightarrow> u64 \<Rightarrow> u32 \<Rightarrow> redo_io" where
  "prepare_data_bio_for_redo biow pos len = Redo_write pos (take (unat len * 512) (rb_data biow))"

fun create_data_loop :: "u32 \<Rightarrow> u64 \<Rightarrow> u32 \<Rightarrow> redo_block list \<Rightarrow> redo_io list" where
  "create_data_loop pbs off n_lb [] = []"
| "create_data_loop pbs off n_lb (biow # bs) =
     (let len = min (n_lb_in_pb pbs) n_lb in
      prepare_data_bio_for_redo biow off len # create_data_loop pbs (off + ucast len) (n_lb - len) bs)"

definition create_data_io_for_redo :: "u32 \<Rightarrow> walb_log_record \<Rightarrow> redo_block list \<Rightarrow> redo_io list" where
  "create_data_io_for_redo pbs rec biow_list = create_data_loop pbs (lr_offset rec) (lr_io_size rec) biow_list"

text \<open>The size of a discard goes through \<^verbatim>\<open>bi_size\<close>, in bytes and 32 bits.\<close>

definition create_discard_bio_wrapper_for_redo :: "u64 \<Rightarrow> u32 \<Rightarrow> redo_io" where
  "create_discard_bio_wrapper_for_redo pos len = Redo_discard pos (drop_bit 9 (push_bit 9 len))"

definition create_discard_data_io_for_redo :: "walb_log_record \<Rightarrow> redo_io" where
  "create_discard_data_io_for_redo rec =
     create_discard_bio_wrapper_for_redo (lr_offset rec) (drop_bit 9 (lr_io_size rec))"

section \<open>One logpack\<close>

text \<open>
  The loop over the records: all valid, the index of the first invalid one, or a read error.
  Each carries the data IOs prepared so far.
\<close>

datatype redo_scan = Scan_valid "redo_io list" | Scan_invalid nat "redo_io list" | Scan_error "redo_io list"

fun redo_records :: "bool \<Rightarrow> u32 \<Rightarrow> u32 \<Rightarrow> nat \<Rightarrow> walb_log_record list \<Rightarrow> redo_block list \<Rightarrow> redo_io list \<Rightarrow> redo_scan" where
  "redo_records discard_ok pbs salt i [] pack ready = Scan_valid ready"
| "redo_records discard_ok pbs salt i (rec # recs) pack ready =
     (if lr_io_size rec = 0 then redo_records discard_ok pbs salt (i + 1) recs pack ready
      else if test_bit_u32 LOG_RECORD_DISCARD (lr_flags rec) then
        redo_records discard_ok pbs salt (i + 1) recs pack
          (if discard_ok then ready @ [create_discard_data_io_for_redo rec] else ready)
      else
        (let n_pb = unat (ucast (capacity_pb pbs (ucast (lr_io_size rec))) :: u32);
             ios = take n_pb pack; rest = drop n_pb pack in
         if \<not> list_all (\<lambda>b. rb_status b = 0) ios then Scan_error ready
         else if test_bit_u32 LOG_RECORD_PADDING (lr_flags rec) then
           redo_records discard_ok pbs salt (i + 1) recs rest ready
         else if calc_checksum_for_redo (lr_io_size rec) pbs salt ios \<noteq> lr_checksum rec then Scan_invalid i ready
         else redo_records discard_ok pbs salt (i + 1) recs rest (ready @ create_data_io_for_redo pbs rec ios)))"

text \<open>The header of a partially valid logpack keeps the records before the first invalid one.\<close>

fun resum_records :: "u32 \<Rightarrow> walb_log_record list \<Rightarrow> u16 \<times> u16 \<Rightarrow> u16 \<times> u16" where
  "resum_records pbs [] acc = acc"
| "resum_records pbs (rec # recs) (total_io_size, n_padding) =
     resum_records pbs recs
       (if \<not> test_bit_u32 LOG_RECORD_DISCARD (lr_flags rec)
        then total_io_size + ucast (capacity_pb pbs (ucast (lr_io_size rec))) else total_io_size,
        if test_bit_u32 LOG_RECORD_PADDING (lr_flags rec) then n_padding + 1 else n_padding)"

definition shrink_logpack_header :: "u32 \<Rightarrow> u32 \<Rightarrow> nat \<Rightarrow> walb_logpack_header \<Rightarrow> walb_logpack_header" where
  "shrink_logpack_header pbs salt invalid_idx logh =
     (let n = unat (lh_n_records logh);
          recs = take invalid_idx (lh_record logh) @ map log_record_init (drop invalid_idx (take n (lh_record logh))) @
                 drop n (lh_record logh);
          (total, pad) = resum_records pbs (take invalid_idx recs) (0, 0) in
      logpack_header_seal (logh\<lparr>lh_record := recs, lh_n_records := of_nat invalid_idx, lh_total_io_size := total,
        lh_n_padding := pad\<rparr>) pbs salt)"

text \<open>
  What redoing one logpack does: the result of the function, the data IOs submitted, the
  wrappers prepared but never submitted nor destroyed, the new written lsid, whether to
  stop, and the header written back to the log device.
\<close>

record redo_result =
  rr_ok :: bool
  rr_ios :: "redo_io list"
  rr_leaked :: nat
  rr_written :: u64
  rr_terminate :: bool
  rr_header :: "walb_logpack_header option"

definition redo_logpack ::
  "'d block_ops \<Rightarrow> (u64 \<Rightarrow> redo_block) \<Rightarrow> 'd walb_dev \<Rightarrow> u8 \<Rightarrow> redo_block \<Rightarrow> u64 \<Rightarrow> redo_data \<Rightarrow> (redo_result \<times> redo_data) option" where
  "redo_logpack ops ldev wdev header_status logh_biow written_lsid rd =
     (let logh = logpack_header_of_bytes (rb_data logh_biow); pbs = wdev_pbs wdev; salt = wd_log_checksum_salt wdev;
          recs = take (unat (lh_n_records logh)) (lh_record logh) in
      map_option (\<lambda>(pack, rd1).
         (case redo_records (bo_queue_discard ops (wd_ddev wdev)) pbs salt 0 recs pack [] of
            Scan_error ready \<Rightarrow>
              \<lparr>rr_ok = False, rr_ios = [], rr_leaked = length ready, rr_written = written_lsid, rr_terminate = True,
               rr_header = None\<rparr>
          | Scan_valid ready \<Rightarrow>
              \<lparr>rr_ok = True, rr_ios = ready, rr_leaked = 0,
               rr_written = lh_logpack_lsid logh + 1 + ucast (lh_total_io_size logh), rr_terminate = False,
               rr_header = None\<rparr>
          | Scan_invalid i ready \<Rightarrow>
              if i = 0 then
                \<lparr>rr_ok = True, rr_ios = ready, rr_leaked = 0, rr_written = lh_logpack_lsid logh, rr_terminate = True,
                 rr_header = None\<rparr>
              else
                (let logh' = shrink_logpack_header pbs salt i logh in
                 if header_status \<noteq> 0 then
                   \<lparr>rr_ok = False, rr_ios = ready, rr_leaked = 0, rr_written = written_lsid, rr_terminate = True,
                    rr_header = Some logh'\<rparr>
                 else
                   \<lparr>rr_ok = True, rr_ios = ready, rr_leaked = 0,
                    rr_written = lh_logpack_lsid logh' + 1 + ucast (lh_total_io_size logh'), rr_terminate = True,
                    rr_header = Some logh'\<rparr>),
          rd1))
       (get_blocks ldev wdev (unat (lh_total_io_size logh)) [] rd))"

section \<open>The whole log\<close>

text \<open>
  The main loop: the data IOs in order, whether it failed, the last written lsid, the wrappers
  left over and the header to write back.
\<close>

record redo_run =
  ru_failed :: bool
  ru_ios :: "redo_io list"
  ru_leaked :: nat
  ru_written :: u64
  ru_header :: "walb_logpack_header option"

partial_function (option) redo_loop ::
  "'d block_ops \<Rightarrow> (u64 \<Rightarrow> redo_block) \<Rightarrow> 'd walb_dev \<Rightarrow> u8 \<Rightarrow> u64 \<Rightarrow> redo_io list \<Rightarrow> redo_data \<Rightarrow> redo_run option" where
  "redo_loop ops ldev wdev header_status written_lsid ios rd =
     (case get_logpack_header_for_redo ldev wdev written_lsid rd of
        None \<Rightarrow> None
      | Some (None, rd1) \<Rightarrow>
          Some \<lparr>ru_failed = False, ru_ios = ios, ru_leaked = 0, ru_written = written_lsid, ru_header = None\<rparr>
      | Some (Some logh_biow, rd1) \<Rightarrow>
          if rb_status logh_biow \<noteq> 0 then
            Some \<lparr>ru_failed = True, ru_ios = ios, ru_leaked = 0, ru_written = written_lsid, ru_header = None\<rparr>
          else
            (case redo_logpack ops ldev wdev header_status logh_biow written_lsid rd1 of
               None \<Rightarrow> None
             | Some (r, rd2) \<Rightarrow>
                 if \<not> rr_ok r \<or> rr_terminate r then
                   Some \<lparr>ru_failed = \<not> rr_ok r, ru_ios = ios @ rr_ios r, ru_leaked = rr_leaked r,
                     ru_written = rr_written r, ru_header = rr_header r\<rparr>
                 else redo_loop ops ldev wdev header_status (rr_written r) (ios @ rr_ios r) rd2))"

text \<open>
  \<^verbatim>\<open>execute_redo\<close>: the wait for the pending wrappers never ends when some were left over.
  The status that the garbage collection worker keeps of the data IOs is not looked at.  The
  result has the flag, the device, the data IOs and the header written back.
\<close>

definition execute_redo ::
  "'d block_ops \<Rightarrow> sync_alloc \<Rightarrow> bool \<Rightarrow> (u64 \<Rightarrow> redo_block) \<Rightarrow> u8 \<Rightarrow> 'd walb_dev \<Rightarrow>
   (bool \<times> 'd walb_dev \<times> redo_io list \<times> walb_logpack_header option) option" where
  "execute_redo ops al mem_ok ldev header_status wdev =
     (if \<not> mem_ok then Some (False, wdev, [], None)
      else
        (let written_lsid = written (wd_lsids wdev) in
         case redo_loop ops ldev wdev header_status written_lsid [] (create_redo_data written_lsid) of
           None \<Rightarrow> None
         | Some ru \<Rightarrow>
             if ru_leaked ru > 0 then None
             else if ru_failed ru then Some (False, wdev, ru_ios ru, ru_header ru)
             else
               (let l = ru_written ru;
                    wdev1 = wdev\<lparr>wd_lsids := (wd_lsids wdev)\<lparr>prev_written := l, written := l, completed := l,
                      permanent := l, flush := l, latest := l\<rparr>\<rparr> in
                map_option (\<lambda>(ok, wdev2). (ok, wdev2, ru_ios ru, ru_header ru)) (walb_sync_super_block ops al wdev1))))"

section \<open>The read queue\<close>

text \<open>What reading \<^verbatim>\<open>n\<close> blocks from an lsid on returns.\<close>

definition blocks_at :: "(u64 \<Rightarrow> redo_block) \<Rightarrow> 'd walb_dev \<Rightarrow> u64 \<Rightarrow> nat \<Rightarrow> redo_block list" where
  "blocks_at ldev wdev c n = map (\<lambda>i. create_log_bio_wrapper_for_redo ldev wdev (c + of_nat i)) [0..<n]"

lemma blocks_at_length [simp]: "length (blocks_at ldev wdev c n) = n"
  by (simp add: blocks_at_def)

lemma blocks_at_add: "blocks_at ldev wdev c (m + n) = blocks_at ldev wdev c m @ blocks_at ldev wdev (c + of_nat m) n"
proof -
  have "map (\<lambda>i. create_log_bio_wrapper_for_redo ldev wdev (c + of_nat i)) [m..<m + n] =
      map (\<lambda>i. create_log_bio_wrapper_for_redo ldev wdev (c + of_nat m + of_nat i)) [0..<n]"
    by (rule nth_equalityI) (simp_all add: add.assoc)
  then show ?thesis by (simp add: blocks_at_def upt_add_eq_append [of 0 m n, simplified])
qed

lemma blocks_at_split:
  assumes "k \<le> n"
  shows "take k (blocks_at ldev wdev c n) = blocks_at ldev wdev c k"
    "drop k (blocks_at ldev wdev c n) = blocks_at ldev wdev (c + of_nat k) (n - k)"
  using blocks_at_add [of ldev wdev c k "n - k"] assms by simp_all

text \<open>The queue holds the blocks of consecutive lsids from \<^verbatim>\<open>c\<close> on.\<close>

definition queue_at :: "(u64 \<Rightarrow> redo_block) \<Rightarrow> 'd walb_dev \<Rightarrow> u64 \<Rightarrow> redo_data \<Rightarrow> bool" where
  "queue_at ldev wdev c rd \<longleftrightarrow>
     (\<exists>n. rd_queue rd = blocks_at ldev wdev c n \<and> rd_lsid rd = c + of_nat n)"

lemma queue_at_create: "queue_at ldev wdev c (create_redo_data c)"
  by (auto simp: queue_at_def create_redo_data_def blocks_at_def intro: exI [of _ 0])

lemma queue_at_read:
  assumes "queue_at ldev wdev c rd"
  shows "queue_at ldev wdev c (run_read_log_in_redo ldev wdev rd)"
    "max_read_ahead wdev \<le> length (rd_queue (run_read_log_in_redo ldev wdev rd))"
proof -
  obtain n where n: "rd_queue rd = blocks_at ldev wdev c n" "rd_lsid rd = c + of_nat n"
    using assms by (auto simp: queue_at_def)
  let ?k = "max_read_ahead wdev - n"
  have "rd_queue (run_read_log_in_redo ldev wdev rd) = blocks_at ldev wdev c (n + ?k)"
    unfolding blocks_at_add by (simp add: run_read_log_in_redo_def n blocks_at_def Let_def)
  moreover have "rd_lsid (run_read_log_in_redo ldev wdev rd) = c + of_nat (n + ?k)"
    by (simp only: of_nat_add add.assoc [symmetric]) (simp add: run_read_log_in_redo_def n Let_def)
  ultimately show "queue_at ldev wdev c (run_read_log_in_redo ldev wdev rd)"
    "max_read_ahead wdev \<le> length (rd_queue (run_read_log_in_redo ldev wdev rd))"
    by (auto simp: queue_at_def)
qed

lemma queue_at_get:
  assumes "queue_at ldev wdev c rd" "get_bio_wrapper_from_read_queue n rd = (bs, rd1)"
  shows "\<exists>k \<le> n. k = min n (length (rd_queue rd)) \<and> bs = blocks_at ldev wdev c k \<and> queue_at ldev wdev (c + of_nat k) rd1"
proof -
  obtain m where m: "rd_queue rd = blocks_at ldev wdev c m" "rd_lsid rd = c + of_nat m"
    using assms(1) by (auto simp: queue_at_def)
  let ?k = "min n m"
  have "bs = blocks_at ldev wdev c ?k" "rd_queue rd1 = blocks_at ldev wdev (c + of_nat ?k) (m - ?k)"
    using assms(2) m blocks_at_split [of ?k m ldev wdev c]
    by (auto simp: get_bio_wrapper_from_read_queue_def min_def blocks_at_def)
  moreover have "rd_lsid rd1 = c + of_nat ?k + of_nat (m - ?k)"
    using assms(2) m by (auto simp: get_bio_wrapper_from_read_queue_def of_nat_diff min_def)
  ultimately show ?thesis using m by (intro exI [of _ ?k]) (auto simp: queue_at_def)
qed

text \<open>Taking blocks from the queue ends and gives the blocks that follow in the log.\<close>

lemma get_blocks_from:
  assumes "0 < max_read_ahead wdev" "m \<le> n" "queue_at ldev wdev (c + of_nat m) rd"
  shows "\<exists>rd'. get_blocks ldev wdev n (blocks_at ldev wdev c m) rd = Some (blocks_at ldev wdev c n, rd') \<and>
    queue_at ldev wdev (c + of_nat n) rd'"
  using assms(2,3)
proof (induction "2 * (n - m) + (if rd_queue rd = [] then 1 else 0)" arbitrary: m rd rule: less_induct)
  case less
  obtain bs rd1 where g: "get_bio_wrapper_from_read_queue (n - m) rd = (bs, rd1)" by fastforce
  from queue_at_get [OF less.prems(2) g] obtain k where k: "k = min (n - m) (length (rd_queue rd))"
    "bs = blocks_at ldev wdev (c + of_nat m) k" "queue_at ldev wdev (c + of_nat m + of_nat k) rd1" by auto
  have mk: "blocks_at ldev wdev c m @ bs = blocks_at ldev wdev c (m + k)" by (simp add: k(2) blocks_at_add)
  have q1: "queue_at ldev wdev (c + of_nat (m + k)) rd1" using k(3) by (simp add: add.assoc)
  show ?case
  proof (cases "m + k < n")
    case False
    then have "m + k = n" using k(1) less.prems(1) by simp
    moreover have "length bs = k" by (simp add: k(2))
    ultimately show ?thesis using g mk q1 by (subst get_blocks.simps) simp
  next
    case True
    define rd2 where "rd2 = run_read_log_in_redo ldev wdev rd1"
    note q2 = queue_at_read [OF q1, folded rd2_def]
    have "rd_queue rd2 \<noteq> []" using q2(2) assms(1) by auto
    moreover have "2 * (n - (m + k)) < 2 * (n - m) + (if rd_queue rd = [] then 1 else 0)"
      using True k(1) by (cases "rd_queue rd") auto
    ultimately obtain rd' where "get_blocks ldev wdev n (blocks_at ldev wdev c (m + k)) rd2 = Some (blocks_at ldev wdev c n, rd')"
      "queue_at ldev wdev (c + of_nat n) rd'"
      using less.hyps [of "m + k" rd2] q2(1) True by auto
    moreover have "length bs = k" by (simp add: k(2))
    ultimately show ?thesis using g mk True by (subst get_blocks.simps) (simp add: rd2_def)
  qed
qed

lemma get_blocks_ok:
  assumes "0 < max_read_ahead wdev" "queue_at ldev wdev c rd"
  shows "\<exists>rd'. get_blocks ldev wdev n [] rd = Some (blocks_at ldev wdev c n, rd') \<and> queue_at ldev wdev (c + of_nat n) rd'"
  using get_blocks_from [OF assms(1), of 0 n ldev c rd] assms(2) by (simp add: blocks_at_def)

section \<open>The data of a record\<close>

abbreviation blocks_data :: "redo_block list \<Rightarrow> u8 list" where
  "blocks_data bs \<equiv> concat (map rb_data bs)"

definition whole_blocks :: "u32 \<Rightarrow> redo_block list \<Rightarrow> bool" where
  "whole_blocks pbs bs \<longleftrightarrow> (\<forall>b \<in> set bs. length (rb_data b) = unat pbs)"

lemma unat_min_word: "unat (min a b :: u32) = min (unat a) (unat b)"
  by (simp add: min_def word_le_nat_alt)

lemma unat_minus_min: "unat (n - min k n :: u32) = unat n - min (unat k) (unat n)"
  by (subst unat_sub) (simp_all add: unat_min_word min_def word_le_nat_alt)

text \<open>
  Both loops over the blocks of a record cut the first \<^verbatim>\<open>n\<close> sectors of their data into pieces of
  one physical block, the last one possibly shorter.
\<close>

lemma take_first_piece:
  assumes "length d = 512 * k"
  shows "take (512 * n) (d @ rest) = take (512 * min k n) d @ take (512 * (n - min k n)) rest"
  using assms by (cases "n \<le> k") (simp_all add: min_def diff_mult_distrib2)

lemma calc_checksum_loop_sum:
  assumes "is_valid_pbs pbs" "whole_blocks pbs bs" "unat n_lb \<le> length bs * unat (n_lb_in_pb pbs)"
  shows "calc_checksum_loop pbs c n_lb bs = c + word_sum (take (512 * unat n_lb) (blocks_data bs))"
  using assms(2,3)
proof (induction bs arbitrary: c n_lb)
  case (Cons b bs)
  let ?k = "unat (n_lb_in_pb pbs)" and ?n = "unat n_lb"
  have len: "length (rb_data b) = 512 * ?k"
    using Cons.prems(1) n_lb_in_pb_bytes [OF assms(1)] by (simp add: whole_blocks_def mult.commute)
  have "checksum_partial c (rb_data b) (min ?k ?n * 512) = c + word_sum (take (512 * min ?k ?n) (rb_data b))"
    using checksum_partial_word_sum [of "min ?k ?n * 512" "rb_data b" c] len by (simp add: mult.commute)
  moreover have "word_sum (take (512 * ?n) (rb_data b @ blocks_data bs)) =
      word_sum (take (512 * min ?k ?n) (rb_data b)) + word_sum (take (512 * (?n - min ?k ?n)) (blocks_data bs))"
    unfolding take_first_piece [OF len] using len by (intro word_sum_append) simp
  moreover have "unat (n_lb - min (n_lb_in_pb pbs) n_lb) \<le> length bs * ?k"
    using Cons.prems(2) unfolding unat_minus_min by (auto simp: min_def)
  ultimately show ?case
    using Cons.IH Cons.prems(1) by (simp add: Let_def unat_min_word unat_minus_min whole_blocks_def)
qed simp

lemma calc_checksum_for_redo_ok:
  assumes "is_valid_pbs pbs" "whole_blocks pbs bs" "unat n_lb \<le> length bs * unat (n_lb_in_pb pbs)"
    and "d = take (512 * unat n_lb) (blocks_data bs)" "length d = 512 * unat n_lb"
  shows "calc_checksum_for_redo n_lb pbs salt bs = checksum d (length d) salt"
proof -
  have "checksum d (length d) salt = - (salt + word_sum d)"
    using checksum_word_sum [of "length d" d salt] assms(5) by simp
  then show ?thesis
    by (simp add: calc_checksum_for_redo_def checksum_finish_neg calc_checksum_loop_sum [OF assms(1-3)] assms(4))
qed

section \<open>The data device\<close>

text \<open>The data device as its bytes; a discard leaves the contents open and changes nothing here.\<close>

definition write_bytes :: "nat \<Rightarrow> u8 list \<Rightarrow> (nat \<Rightarrow> u8) \<Rightarrow> nat \<Rightarrow> u8" where
  "write_bytes p bs dd = (\<lambda>x. if p \<le> x \<and> x < p + length bs then bs ! (x - p) else dd x)"

fun apply_io :: "redo_io \<Rightarrow> (nat \<Rightarrow> u8) \<Rightarrow> nat \<Rightarrow> u8" where
  "apply_io (Redo_write pos d) dd = write_bytes (512 * unat pos) d dd"
| "apply_io (Redo_discard pos len) dd = dd"

lemma write_bytes_append: "write_bytes (p + length a) b (write_bytes p a dd) = write_bytes p (a @ b) dd"
  by (auto simp: write_bytes_def fun_eq_iff nth_append)

lemma write_bytes_Nil [simp]: "write_bytes p [] dd = dd"
  unfolding write_bytes_def fun_eq_iff by (metis add.right_neutral leD list.size(3))

lemma create_data_loop_writes:
  assumes "is_valid_pbs pbs" "whole_blocks pbs bs" "unat n_lb \<le> length bs * unat (n_lb_in_pb pbs)"
    and "unat off + unat n_lb < 2 ^ 64"
  shows "fold apply_io (create_data_loop pbs off n_lb bs) dd =
    write_bytes (512 * unat off) (take (512 * unat n_lb) (blocks_data bs)) dd"
  using assms(2-4)
proof (induction bs arbitrary: off n_lb dd)
  case (Cons b bs)
  let ?k = "unat (n_lb_in_pb pbs)" and ?n = "unat n_lb"
  let ?len = "min (n_lb_in_pb pbs) n_lb"
  have len: "length (rb_data b) = 512 * ?k"
    using Cons.prems(1) n_lb_in_pb_bytes [OF assms(1)] by (simp add: whole_blocks_def mult.commute)
  have l: "unat ?len = min ?k ?n" "unat (n_lb - ?len) = ?n - min ?k ?n" by (simp_all add: unat_min_word unat_minus_min)
  have off: "unat (off + ucast ?len) = unat off + min ?k ?n"
    using Cons.prems(3) l(1) by (subst unat_add_nowrap) auto
  have "unat (n_lb - ?len) \<le> length bs * ?k" unfolding l(2) using Cons.prems(2) by (auto simp: min_def)
  moreover have "unat (off + ucast ?len) + unat (n_lb - ?len) < 2 ^ 64" using Cons.prems(3) off l(2) by simp
  ultimately have "fold apply_io (create_data_loop pbs (off + ucast ?len) (n_lb - ?len) bs) dd' =
      write_bytes (512 * (unat off + min ?k ?n)) (take (512 * (?n - min ?k ?n)) (blocks_data bs)) dd'" for dd'
    using Cons.IH [of "n_lb - ?len" "off + ucast ?len" dd'] Cons.prems(1) off l(2) by (simp add: whole_blocks_def)
  then have "fold apply_io (create_data_loop pbs off n_lb (b # bs)) dd =
      write_bytes (512 * unat off + length (take (512 * min ?k ?n) (rb_data b)))
        (take (512 * (?n - min ?k ?n)) (blocks_data bs)) (write_bytes (512 * unat off) (take (512 * min ?k ?n) (rb_data b)) dd)"
    using len by (simp add: Let_def prepare_data_bio_for_redo_def l(1) mult.commute [of _ 512] distrib_left)
  then show ?case
    unfolding write_bytes_append take_first_piece [OF len, symmetric] by simp
qed simp

section \<open>What a stored log means\<close>

definition rec_normal :: "walb_log_record \<Rightarrow> bool" where
  "rec_normal r \<longleftrightarrow> \<not> rec_discard r \<and> \<not> rec_padding r"

text \<open>The blocks of the log hold the data of the records, one list of bytes per record.\<close>

fun recs_stored :: "u32 \<Rightarrow> u32 \<Rightarrow> walb_log_record list \<Rightarrow> u8 list list \<Rightarrow> redo_block list \<Rightarrow> bool" where
  "recs_stored pbs salt [] [] bs = (bs = [])"
| "recs_stored pbs salt (r # rs) (d # ds) bs =
     (let cur = take (rec_pb pbs r) bs in
      length cur = rec_pb pbs r \<and> list_all (\<lambda>b. rb_status b = 0) cur \<and> whole_blocks pbs cur \<and>
      (rec_normal r \<longrightarrow> length d = 512 * unat (lr_io_size r) \<and> d = take (length d) (blocks_data cur) \<and>
         lr_checksum r = checksum d (length d) salt \<and> unat (lr_offset r) + unat (lr_io_size r) < 2 ^ 64) \<and>
      recs_stored pbs salt rs ds (drop (rec_pb pbs r) bs))"
| "recs_stored pbs salt _ _ bs = False"

text \<open>Writing the records of a log to the data device, each as one write of its whole data.\<close>

fun replay_records :: "walb_log_record list \<Rightarrow> u8 list list \<Rightarrow> (nat \<Rightarrow> u8) \<Rightarrow> nat \<Rightarrow> u8" where
  "replay_records (r # rs) (d # ds) dd =
     replay_records rs ds (if rec_normal r then write_bytes (512 * unat (lr_offset r)) d dd else dd)"
| "replay_records _ _ dd = dd"

fun log_stored :: "(u64 \<Rightarrow> redo_block) \<Rightarrow> 'd walb_dev \<Rightarrow> u64 \<Rightarrow> (walb_logpack_header \<times> u8 list list) list \<Rightarrow> u64 \<Rightarrow> bool" where
  "log_stored ldev wdev l [] l' = (l = l')"
| "log_stored ldev wdev l ((h, ds) # hs) l' =
     (create_log_bio_wrapper_for_redo ldev wdev l = \<lparr>rb_status = 0, rb_data = logpack_header_bytes h\<rparr> \<and>
      length (lh_tail h) < 32 \<and> lh_logpack_lsid h = l \<and> lh_n_records h > 0 \<and>
      logpack_inv (wdev_pbs wdev) (wd_ring_buffer_size wdev) h \<and>
      checksum (logpack_header_bytes h) (unat (wdev_pbs wdev)) (wd_log_checksum_salt wdev) = 0 \<and>
      recs_stored (wdev_pbs wdev) (wd_log_checksum_salt wdev) (used_records h) ds
        (blocks_at ldev wdev (l + 1) (unat (lh_total_io_size h))) \<and>
      log_stored ldev wdev (l + 1 + ucast (lh_total_io_size h)) hs l')"

fun replay_log :: "(walb_logpack_header \<times> u8 list list) list \<Rightarrow> (nat \<Rightarrow> u8) \<Rightarrow> nat \<Rightarrow> u8" where
  "replay_log [] dd = dd"
| "replay_log ((h, ds) # hs) dd = replay_log hs (replay_records (used_records h) ds dd)"

text \<open>The block at the end of the log is not a logpack header for its lsid.\<close>

definition log_ends :: "(u64 \<Rightarrow> redo_block) \<Rightarrow> 'd walb_dev \<Rightarrow> u64 \<Rightarrow> bool" where
  "log_ends ldev wdev l \<longleftrightarrow>
     (let h = logpack_header_of_bytes (rb_data (create_log_bio_wrapper_for_redo ldev wdev l)) in
      \<not> (is_valid_logpack_header_with_checksum h (wdev_pbs wdev) (wd_log_checksum_salt wdev) \<and> lh_logpack_lsid h = l))"

section \<open>Redo replays the log\<close>

lemma unat_redo_pb:
  assumes "is_valid_pbs pbs"
  shows "unat (ucast (capacity_pb pbs (ucast (n :: u32))) :: u32) = unat (capacity_pb pbs (ucast n))"
proof -
  have "unat (capacity_pb pbs (ucast n)) \<le> unat n"
    using unat_capacity_pb_u32 [OF assms] pb_of_le [OF assms] by simp
  then have "unat (capacity_pb pbs (ucast n)) < 2 ^ LENGTH(32)" using unat_u32_lt [of n] by simp
  then show ?thesis by (simp add: unsigned_ucast_eq take_bit_nat_eq_self)
qed

lemma rec_pb_covers:
  assumes "is_valid_pbs pbs" "\<not> rec_discard r"
  shows "unat (lr_io_size r) \<le> rec_pb pbs r * unat (n_lb_in_pb pbs)"
  using pb_of_covers [OF assms(1), of "unat (lr_io_size r)"] unat_capacity_pb_u32 [OF assms(1), of "lr_io_size r"] assms(2)
  by (simp add: rec_pb_def)

lemma rec_pb_zero: "is_valid_pbs pbs \<Longrightarrow> lr_io_size r = 0 \<Longrightarrow> rec_pb pbs r = 0"
  using unat_capacity_pb_u32 [of pbs 0] pb_of_mult [of pbs 0] by (simp add: rec_pb_def)

text \<open>One record whose data is stored.\<close>

lemma redo_record_step:
  assumes pbs: "is_valid_pbs pbs" and st: "recs_stored pbs salt (r # rs) (d # ds) bs" and v: "is_valid_log_record r"
  shows "\<exists>ios. (\<forall>ready i. redo_records dok pbs salt i (r # rs) bs ready =
        redo_records dok pbs salt (i + 1) rs (drop (rec_pb pbs r) bs) (ready @ ios)) \<and>
    (\<forall>dd. fold apply_io ios dd = (if rec_normal r then write_bytes (512 * unat (lr_offset r)) d dd else dd))"
proof (cases "rec_discard r")
  case True
  then have "rec_pb pbs r = 0" "\<not> rec_normal r" by (simp_all add: rec_pb_def rec_normal_def)
  then show ?thesis
    using True by (intro exI [of _ "if lr_io_size r \<noteq> 0 \<and> dok then [create_discard_data_io_for_redo r] else []"])
      (simp add: rec_discard_def create_discard_data_io_for_redo_def create_discard_bio_wrapper_for_redo_def)
next
  case nd: False
  let ?cur = "take (rec_pb pbs r) bs"
  have n_pb: "unat (ucast (capacity_pb pbs (ucast (lr_io_size r))) :: u32) = rec_pb pbs r"
    using nd unat_redo_pb [OF pbs] by (simp add: rec_pb_def)
  have cur: "length ?cur = rec_pb pbs r" "list_all (\<lambda>b. rb_status b = 0) ?cur" "whole_blocks pbs ?cur"
    using st by (simp_all add: Let_def)
  show ?thesis
  proof (cases "rec_padding r")
    case True
    then have "\<not> rec_normal r" by (simp add: rec_normal_def)
    then show ?thesis
      using True nd n_pb cur(2) rec_pb_zero [OF pbs, of r]
      by (intro exI [of _ "[]"]) (simp add: rec_discard_def rec_padding_def Let_def)
  next
    case False
    then have n: "rec_normal r" "lr_io_size r \<noteq> 0"
      using nd v by (auto simp: rec_normal_def is_valid_log_record_def rec_padding_def)
    have d: "length d = 512 * unat (lr_io_size r)" "d = take (512 * unat (lr_io_size r)) (blocks_data ?cur)"
      "lr_checksum r = checksum d (length d) salt" "unat (lr_offset r) + unat (lr_io_size r) < 2 ^ 64"
      using st n(1) by (auto simp: Let_def)
    have cov: "unat (lr_io_size r) \<le> length ?cur * unat (n_lb_in_pb pbs)" using rec_pb_covers [OF pbs nd] cur(1) by simp
    have "calc_checksum_for_redo (lr_io_size r) pbs salt ?cur = lr_checksum r"
      using calc_checksum_for_redo_ok [OF pbs cur(3) cov d(2,1)] d(3) by simp
    then show ?thesis
      using n nd False n_pb cur(2) create_data_loop_writes [OF pbs cur(3) cov d(4)] d(2)
      by (intro exI [of _ "create_data_io_for_redo pbs r ?cur"])
        (simp add: rec_discard_def rec_padding_def Let_def create_data_io_for_redo_def)
  qed
qed

lemma redo_records_stored:
  assumes pbs: "is_valid_pbs pbs" and "recs_stored pbs salt rs ds bs"
    and "\<forall>r \<in> set rs. is_valid_log_record r"
  shows "\<exists>ios. (\<forall>ready i. redo_records dok pbs salt i rs bs ready = Scan_valid (ready @ ios)) \<and>
    (\<forall>dd. fold apply_io ios dd = replay_records rs ds dd)"
  using assms(2,3)
proof (induction rs arbitrary: ds bs)
  case (Cons r rs)
  then obtain d ds' where ds: "ds = d # ds'" by (cases ds) auto
  then have "recs_stored pbs salt rs ds' (drop (rec_pb pbs r) bs)" using Cons.prems(1) by (simp add: Let_def)
  from Cons.IH [OF this] Cons.prems(2) obtain ios2 where
    i2: "\<forall>ready i. redo_records dok pbs salt i rs (drop (rec_pb pbs r) bs) ready = Scan_valid (ready @ ios2)"
      "\<forall>dd. fold apply_io ios2 dd = replay_records rs ds' dd" by auto
  from redo_record_step [OF pbs, of salt r rs d ds' bs dok] Cons.prems ds obtain ios1 where
    i1: "\<forall>ready i. redo_records dok pbs salt i (r # rs) bs ready =
        redo_records dok pbs salt (i + 1) rs (drop (rec_pb pbs r) bs) (ready @ ios1)"
      "\<forall>dd. fold apply_io ios1 dd = (if rec_normal r then write_bytes (512 * unat (lr_offset r)) d dd else dd)" by auto
  show ?case using i1 i2 ds by (intro exI [of _ "ios1 @ ios2"]) (simp del: redo_records.simps)
qed (cases ds; auto)

lemma max_read_ahead_pos:
  assumes "is_valid_pbs (wdev_pbs wdev)"
  shows "0 < max_read_ahead wdev"
proof -
  let ?c = "capacity_pb (wdev_pbs wdev) (ucast (16384 :: u32))"
  have "unat ?c = pb_of (wdev_pbs wdev) 16384" using unat_capacity_pb_u32 [OF assms, of 16384] by simp
  moreover have "0 < pb_of (wdev_pbs wdev) 16384" "pb_of (wdev_pbs wdev) 16384 \<le> 16384"
    using pb_of_pos [OF assms] pb_of_le [OF assms] by simp_all
  ultimately show ?thesis
    unfolding max_read_ahead_def using unat_redo_pb [OF assms, of 16384] by (simp add: READ_AHEAD_LB_def)
qed

lemma stored_header_valid:
  assumes "logpack_inv pbs rbs h" "65536 \<le> unat rbs" "checksum (logpack_header_bytes h) (unat pbs) salt = 0"
  shows "is_valid_logpack_header_with_checksum h pbs salt" "\<forall>r \<in> set (used_records h). is_valid_log_record r"
proof -
  show "is_valid_logpack_header_with_checksum h pbs salt"
    using inv_valid_records [OF assms(1,2)] assms(3)
    by (simp add: is_valid_logpack_header_with_checksum_def is_valid_logpack_header_and_records_def)
  show "\<forall>r \<in> set (used_records h). is_valid_log_record r"
    using assms(1) recs_ok_valid unfolding logpack_inv_def by blast
qed

text \<open>One round of the main loop on a logpack that is stored completely.\<close>

lemma redo_round:
  assumes pbs: "is_valid_pbs (wdev_pbs wdev)" and rbs: "65536 \<le> unat (wd_ring_buffer_size wdev)"
    and st: "log_stored ldev wdev l ((h, ds) # hs) l'" and q: "queue_at ldev wdev l rd"
  shows "\<exists>ios rd'. (\<forall>acc. redo_loop ops ldev wdev hst l acc rd =
        redo_loop ops ldev wdev hst (l + 1 + ucast (lh_total_io_size h)) (acc @ ios) rd') \<and>
    (\<forall>dd. fold apply_io ios dd = replay_records (used_records h) ds dd) \<and>
    queue_at ldev wdev (l + 1 + ucast (lh_total_io_size h)) rd'"
proof -
  have s: "create_log_bio_wrapper_for_redo ldev wdev l = \<lparr>rb_status = 0, rb_data = logpack_header_bytes h\<rparr>"
    "length (lh_tail h) < 32" "lh_logpack_lsid h = l" "logpack_inv (wdev_pbs wdev) (wd_ring_buffer_size wdev) h"
    "checksum (logpack_header_bytes h) (unat (wdev_pbs wdev)) (wd_log_checksum_salt wdev) = 0"
    "recs_stored (wdev_pbs wdev) (wd_log_checksum_salt wdev) (used_records h) ds
        (blocks_at ldev wdev (l + 1) (unat (lh_total_io_size h)))"
    using st by simp_all
  note max = max_read_ahead_pos [OF pbs] and valid = stored_header_valid [OF s(4) rbs s(5)]
  from get_blocks_ok [OF max q, of 1] obtain rd1 where
    g1: "get_blocks ldev wdev 1 [] rd = Some (blocks_at ldev wdev l 1, rd1)" "queue_at ldev wdev (l + 1) rd1" by auto
  have hd: "get_logpack_header_for_redo ldev wdev l rd = Some (Some (create_log_bio_wrapper_for_redo ldev wdev l), rd1)"
    using valid(1) s(3) by (simp add: get_logpack_header_for_redo_def g1(1) [simplified] blocks_at_def s(1) logpack_header_decode [OF s(2)] Let_def)
  from get_blocks_ok [OF max g1(2), of "unat (lh_total_io_size h)"] obtain rd2 where
    g2: "get_blocks ldev wdev (unat (lh_total_io_size h)) [] rd1 =
        Some (blocks_at ldev wdev (l + 1) (unat (lh_total_io_size h)), rd2)"
      "queue_at ldev wdev (l + 1 + ucast (lh_total_io_size h)) rd2" by (auto simp: of_nat_unat)
  from redo_records_stored [OF pbs s(6) valid(2), of "bo_queue_discard ops (wd_ddev wdev)"] obtain ios where
    ios: "\<forall>ready i. redo_records (bo_queue_discard ops (wd_ddev wdev)) (wdev_pbs wdev) (wd_log_checksum_salt wdev) i
        (used_records h) (blocks_at ldev wdev (l + 1) (unat (lh_total_io_size h))) ready = Scan_valid (ready @ ios)"
      "\<forall>dd. fold apply_io ios dd = replay_records (used_records h) ds dd" by auto
  have "redo_logpack ops ldev wdev hst (create_log_bio_wrapper_for_redo ldev wdev l) l rd1 =
      Some (\<lparr>rr_ok = True, rr_ios = ios, rr_leaked = 0, rr_written = l + 1 + ucast (lh_total_io_size h),
        rr_terminate = False, rr_header = None\<rparr>, rd2)"
    using ios(1) s(3)
    by (simp add: redo_logpack_def Let_def s(1) logpack_header_decode [OF s(2)] g2(1) used_records_def [symmetric])
  then have "redo_loop ops ldev wdev hst l acc rd =
      redo_loop ops ldev wdev hst (l + 1 + ucast (lh_total_io_size h)) (acc @ ios) rd2" for acc
    by (subst redo_loop.simps) (simp add: hd s(1))
  then show ?thesis using ios(2) g2(2) by blast
qed

lemma redo_loop_stored:
  assumes pbs: "is_valid_pbs (wdev_pbs wdev)" and rbs: "65536 \<le> unat (wd_ring_buffer_size wdev)"
    and "log_stored ldev wdev l hs l'" "log_ends ldev wdev l'" "queue_at ldev wdev l rd"
  shows "\<exists>ios. redo_loop ops ldev wdev hst l acc rd =
      Some \<lparr>ru_failed = False, ru_ios = acc @ ios, ru_leaked = 0, ru_written = l', ru_header = None\<rparr> \<and>
    (\<forall>dd. fold apply_io ios dd = replay_log hs dd)"
  using assms(3,5)
proof (induction hs arbitrary: l rd acc)
  case Nil
  from get_blocks_ok [OF max_read_ahead_pos [OF pbs] Nil(2), of 1] obtain rd1 where
    "get_blocks ldev wdev 1 [] rd = Some (blocks_at ldev wdev l 1, rd1)" by auto
  then have "get_logpack_header_for_redo ldev wdev l rd = Some (None, rd1)"
    using assms(4) Nil(1) by (auto simp: get_logpack_header_for_redo_def blocks_at_def log_ends_def Let_def)
  then show ?case using Nil(1) by (subst redo_loop.simps) (auto intro: exI [of _ "[]"])
next
  case (Cons p hs)
  obtain h ds where p: "p = (h, ds)" by fastforce
  let ?m = "l + 1 + ucast (lh_total_io_size h)"
  from redo_round [OF pbs rbs Cons.prems(1) [unfolded p] Cons.prems(2), of ops hst] obtain ios rd' where
    r: "\<forall>acc. redo_loop ops ldev wdev hst l acc rd = redo_loop ops ldev wdev hst ?m (acc @ ios) rd'"
      "\<forall>dd. fold apply_io ios dd = replay_records (used_records h) ds dd" "queue_at ldev wdev ?m rd'" by blast
  have "log_stored ldev wdev ?m hs l'" using Cons.prems(1) p by simp
  from Cons.IH [OF this r(3), of "acc @ ios"] obtain ios' where
    i: "redo_loop ops ldev wdev hst ?m (acc @ ios) rd' =
        Some \<lparr>ru_failed = False, ru_ios = (acc @ ios) @ ios', ru_leaked = 0, ru_written = l', ru_header = None\<rparr>"
      "\<forall>dd. fold apply_io ios' dd = replay_log hs dd" by auto
  show ?case using r(1,2) i p by (intro exI [of _ "ios @ ios'"]) simp
qed


section \<open>A partially valid logpack\<close>

lemma resum_records_sum:
  "resum_records pbs rs (t, p) = (t + of_nat (recs_pb pbs rs), p + of_nat (length (filter rec_padding rs)))"
  by (induction rs arbitrary: t p)
    (simp_all add: rec_pb_def rec_padding_def rec_discard_def add.assoc of_nat_unat)

lemma recs_ok_take: "recs_ok pbs rbs p l rs \<Longrightarrow> recs_ok pbs rbs p l (take i rs)"
  using recs_ok_append [of pbs rbs p l "take i rs" "drop i rs"] by simp

lemma recs_pb_take: "recs_pb pbs (take i rs) \<le> recs_pb pbs rs"
  using recs_pb_append [of pbs "take i rs" "drop i rs"] by simp

lemma logpack_header_bytes_records:
  "length (logpack_header_bytes h) = 24 + 32 * length (lh_record h) + length (lh_tail h)"
proof -
  have "length (concat (map log_record_bytes rs)) = 32 * length rs" for rs by (induction rs) simp_all
  then show ?thesis by (simp add: logpack_header_bytes_def)
qed

lemma shrink_logpack_header_inv:
  assumes "logpack_inv pbs rbs h" "i \<le> unat (lh_n_records h)"
  shows "logpack_inv pbs rbs (shrink_logpack_header pbs salt i h)"
    "used_records (shrink_logpack_header pbs salt i h) = take i (used_records h)"
    "lh_logpack_lsid (shrink_logpack_header pbs salt i h) = lh_logpack_lsid h"
proof -
  let ?n = "unat (lh_n_records h)" and ?rs = "take i (used_records h)"
  let ?recs = "take i (lh_record h) @ map log_record_init (drop i (take ?n (lh_record h))) @ drop ?n (lh_record h)"
  let ?h1 = "h\<lparr>lh_record := ?recs, lh_n_records := of_nat i, lh_total_io_size := of_nat (recs_pb pbs ?rs),
    lh_n_padding := of_nat (length (filter rec_padding ?rs))\<rparr>"
  have n: "?n \<le> length (lh_record h)" "i < 65536" "unat (of_nat i :: u16) = i"
    using assms unat_u16_lt [of "lh_n_records h"] by (auto simp: logpack_inv_def unsigned_of_nat take_bit_nat_eq_self)
  have rs: "take i (lh_record h) = ?rs" "take i ?recs = ?rs" "length ?rs = i"
    using n assms(2) by (simp_all add: used_records_def min_def)
  have h: "shrink_logpack_header pbs salt i h = logpack_header_seal ?h1 pbs salt"
    unfolding shrink_logpack_header_def Let_def rs(2) by (simp add: resum_records_sum)
  have used: "used_records ?h1 = ?rs" using rs(2) n(3) by (simp add: used_records_def)
  have "recs_pb pbs ?rs < 65536"
    using recs_pb_take [of pbs i "used_records h"] assms(1) unat_u16_lt [of "lh_total_io_size h"] by (simp add: logpack_inv_def)
  then have t: "unat (of_nat (recs_pb pbs ?rs) :: u16) = recs_pb pbs ?rs" by (simp add: unsigned_of_nat take_bit_nat_eq_self)
  have "length (filter rec_padding ?rs) < 65536" using length_filter_le [of rec_padding ?rs] rs(3) n(2) by simp
  then have p: "unat (of_nat (length (filter rec_padding ?rs)) :: u16) = length (filter rec_padding ?rs)"
    by (simp add: unsigned_of_nat take_bit_nat_eq_self)
  have "logpack_inv pbs rbs ?h1"
    unfolding logpack_inv_def used
    using assms n t p rs recs_ok_take [of pbs "unat rbs" _ 1 "used_records h" i]
    by (auto simp: logpack_inv_def log_record_init_def zero_log_record_def)
  then show "logpack_inv pbs rbs (shrink_logpack_header pbs salt i h)"
    "used_records (shrink_logpack_header pbs salt i h) = ?rs"
    "lh_logpack_lsid (shrink_logpack_header pbs salt i h) = lh_logpack_lsid h"
    unfolding h using used by (simp_all add: logpack_header_seal_def Let_def used_records_def)
qed

text \<open>
  C19. When the data of record \<^verbatim>\<open>i\<close> of a logpack is not valid, redo writes back a header that keeps
  exactly the records before it, has the sizes and padding count of these records, satisfies the
  logpack invariant and passes the full check with a new checksum, under the same lsid.
\<close>

theorem redo_truncated_header_valid:
  assumes "is_valid_pbs pbs" and "logpack_inv pbs rbs h" and "65536 \<le> unat rbs"
    and "length (logpack_header_bytes h) = unat pbs" and "i \<le> unat (lh_n_records h)"
  shows "let h' = shrink_logpack_header pbs salt i h in
    logpack_inv pbs rbs h' \<and> used_records h' = take i (used_records h) \<and> lh_logpack_lsid h' = lh_logpack_lsid h \<and>
    is_valid_logpack_header_and_records_with_checksum h' pbs salt"
proof -
  let ?h' = "shrink_logpack_header pbs salt i h"
  note inv = shrink_logpack_header_inv [OF assms(2,5), of salt]
  obtain h1 where h1: "?h' = logpack_header_seal h1 pbs salt" "lh_tail h1 = lh_tail h"
    by (simp add: shrink_logpack_header_def Let_def resum_records_sum)
  have "length (lh_record h1) = length (lh_record h)"
    using inv(1) assms(2) h1(1) by (simp add: logpack_inv_def logpack_header_seal_def Let_def)
  then have "length (logpack_header_bytes h1) = unat pbs" using assms(4) h1(2) by (simp add: logpack_header_bytes_records)
  then have "checksum (logpack_header_bytes ?h') (unat pbs) salt = 0"
    unfolding h1(1) by (rule checksum_logpack_header_seal [OF assms(1)])
  then have "is_valid_logpack_header_and_records_with_checksum ?h' pbs salt"
    using inv_valid_records [OF inv(1) assms(3)] by (simp add: is_valid_logpack_header_and_records_with_checksum_def)
  then show ?thesis unfolding Let_def using inv by blast
qed

section \<open>A read error in the middle of a logpack\<close>


text \<open>A log with one logpack of a discard and a write of one block.\<close>

definition redo_demo_recs :: "walb_log_record list" where
  "redo_demo_recs =
     [\<lparr>lr_checksum = 0, lr_flags = 5, lr_offset = 2000, lr_io_size = 4096, lr_lsid_local = 1, lr_reserved1 = 0,
       lr_lsid = 31\<rparr>,
      \<lparr>lr_checksum = checksum (replicate 512 5) 512 77, lr_flags = 1, lr_offset = 1000, lr_io_size = 1,
       lr_lsid_local = 1, lr_reserved1 = 0, lr_lsid = 31\<rparr>]"

definition redo_demo_raw :: walb_logpack_header where
  "redo_demo_raw = demo_header\<lparr>lh_logpack_lsid := 30, lh_total_io_size := 1, lh_n_records := 2,
     lh_record := redo_demo_recs @ replicate 13 zero_log_record\<rparr>"

definition redo_demo_header :: walb_logpack_header where
  "redo_demo_header = logpack_header_seal redo_demo_raw 512 77"

definition redo_demo_ldev :: "u8 \<Rightarrow> u64 \<Rightarrow> redo_block" where
  "redo_demo_ldev st off =
     (if off = 40 then \<lparr>rb_status = 0, rb_data = logpack_header_bytes redo_demo_header\<rparr>
      else if off = 41 then \<lparr>rb_status = st, rb_data = replicate 512 5\<rparr>
      else \<lparr>rb_status = 0, rb_data = replicate 512 0\<rparr>)"

lemma redo_demo_rec_facts:
  "map rec_discard redo_demo_recs = [True, False]" "map rec_padding redo_demo_recs = [False, False]"
  "map (rec_pb 512) redo_demo_recs = [0, 1]" "list_all is_valid_log_record redo_demo_recs"
proof -
  have "capacity_pb 512 1 = 1" by code_simp
  then show "map (rec_pb 512) redo_demo_recs = [0, 1]" by (simp add: redo_demo_recs_def rec_pb_def rec_discard_def
      log_record_flag_defs test_bit_u32_def)
qed (simp_all add: redo_demo_recs_def rec_discard_def rec_padding_def is_valid_log_record_def log_record_flag_defs
    test_bit_u32_def MAX_LSID_def WALB_MAX_NORMAL_IO_SECTORS_def)

lemma redo_demo_fields [simp]:
  "lh_logpack_lsid redo_demo_header = 30" "lh_total_io_size redo_demo_header = 1" "lh_n_records redo_demo_header = 2"
  "lh_tail redo_demo_header = replicate 8 0" "used_records redo_demo_header = redo_demo_recs"
  "length (lh_record redo_demo_header) = 15"
  by (simp_all add: redo_demo_header_def redo_demo_raw_def redo_demo_recs_def logpack_header_seal_def Let_def demo_header_def
      used_records_def)

lemma redo_demo_inv: "logpack_inv 512 99990 redo_demo_header"
  unfolding logpack_inv_def redo_demo_fields
  using redo_demo_rec_facts
  by (simp add: redo_demo_header_def redo_demo_raw_def logpack_header_seal_def Let_def demo_header_def rec_ok_def
      max_n_log_record_in_sector_def MAX_LSID_def zero_log_record_def) (simp add: redo_demo_recs_def rec_ok_def)

lemma redo_demo_sum: "checksum (logpack_header_bytes redo_demo_header) 512 77 = 0"
proof -
  have "length (logpack_header_bytes redo_demo_raw) = 512"
    by (simp add: logpack_header_bytes_records redo_demo_raw_def redo_demo_recs_def demo_header_def)
  then show ?thesis
    using checksum_logpack_header_seal [of 512 redo_demo_raw 77] by (simp add: redo_demo_header_def is_valid_pbs_unat)
qed

lemma redo_demo_wdev [simp]:
  "wdev_pbs demo_wdev = 512" "wd_log_checksum_salt demo_wdev = 77" "wd_ring_buffer_size demo_wdev = 99990"
  "wd_ring_buffer_off demo_wdev = 10" "written (wd_lsids demo_wdev) = 30"
  by (simp_all add: wdev_pbs_def demo_wdev_def)

lemma redo_demo_blocks:
  "create_log_bio_wrapper_for_redo (redo_demo_ldev st) demo_wdev 30 =
     \<lparr>rb_status = 0, rb_data = logpack_header_bytes redo_demo_header\<rparr>"
  "blocks_at (redo_demo_ldev st) demo_wdev 31 1 = [\<lparr>rb_status = st, rb_data = replicate 512 5\<rparr>]"
  "create_log_bio_wrapper_for_redo (redo_demo_ldev st) demo_wdev 32 = \<lparr>rb_status = 0, rb_data = replicate 512 0\<rparr>"
  by (simp_all add: create_log_bio_wrapper_for_redo_def get_offset_of_lsid_def redo_demo_ldev_def blocks_at_def)

lemma redo_demo_stored:
  "log_stored (redo_demo_ldev 0) demo_wdev 30 [(redo_demo_header, [[], replicate 512 5])] 32"
  "log_ends (redo_demo_ldev 0) demo_wdev 32"
proof -
  have "recs_stored 512 77 redo_demo_recs [[], replicate 512 5] [\<lparr>rb_status = 0, rb_data = replicate 512 5\<rparr>]"
    using redo_demo_rec_facts unfolding redo_demo_recs_def by (simp add: rec_normal_def whole_blocks_def)
  then show "log_stored (redo_demo_ldev 0) demo_wdev 30 [(redo_demo_header, [[], replicate 512 5])] 32"
    using redo_demo_inv redo_demo_sum redo_demo_blocks [of 0] by simp
  have "le_word (replicate 2 0) = (0 :: u16)" by code_simp
  then have "lh_sector_type (logpack_header_of_bytes (replicate 512 0)) = 0"
    by (simp add: logpack_header_of_bytes_def Let_def)
  then show "log_ends (redo_demo_ldev 0) demo_wdev 32"
    by (simp add: log_ends_def redo_demo_blocks(3) is_valid_logpack_header_with_checksum_def is_valid_logpack_header_def
        SECTOR_TYPE_LOGPACK_def Let_def)
qed


theorem redo_truncated_header_valid_witness:
  "let h' = shrink_logpack_header 512 77 1 redo_demo_header in
    logpack_inv 512 99990 h' \<and> used_records h' = take 1 (used_records redo_demo_header) \<and>
    lh_logpack_lsid h' = lh_logpack_lsid redo_demo_header \<and>
    is_valid_logpack_header_and_records_with_checksum h' 512 77"
  by (rule redo_truncated_header_valid)
    (simp_all add: is_valid_pbs_unat redo_demo_inv logpack_header_bytes_records)


end
