(* ===== verification/Walb_Tool_Io.thy ===== *)
theory Walb_Tool_Io
  imports Walb_Redo
begin

text \<open>
  Input and output of the control tool (\<^verbatim>\<open>tool/util.c\<close>, \<^verbatim>\<open>tool/walb_util.c\<close>): reading and writing
  block devices and streams with partial transfers, and sectors and sector arrays on them.
  An opened device or stream has its bytes and the results of the coming system calls: a
  result that is not positive is an error, a positive one bounds the bytes transferred, and
  calls after the listed ones transfer all they can.
\<close>

section \<open>Devices and streams\<close>

record open_dev =
  od_bytes :: "u8 list"
  od_results :: "int list"

record in_stream =
  is_bytes :: "u8 list"
  is_results :: "int list"

record out_stream =
  os_bytes :: "u8 list"
  os_results :: "int list"

text \<open>The bytes one call transfers when at most \<^verbatim>\<open>avail\<close> can be; 0 stands for an error or the end.\<close>

definition transfer :: "nat \<Rightarrow> int list \<Rightarrow> nat \<times> int list" where
  "transfer avail rs = (case rs of [] \<Rightarrow> (avail, []) | r # rs' \<Rightarrow> (min (nat r) avail, rs'))"

lemma transfer_le: "transfer avail rs = (s, rs') \<Longrightarrow> s \<le> avail"
  by (auto simp: transfer_def split: list.splits)

function pread_loop :: "nat \<Rightarrow> nat \<Rightarrow> u8 list \<Rightarrow> open_dev \<Rightarrow> bool \<times> u8 list \<times> open_dev" where
  "pread_loop cnt offset buf dev =
     (if length buf < cnt then
        (let pos = offset + length buf;
             (s, rs) = transfer (min (cnt - length buf) (length (od_bytes dev) - pos)) (od_results dev);
             dev1 = dev\<lparr>od_results := rs\<rparr> in
         if s = 0 then (False, buf, dev1)
         else pread_loop cnt offset (buf @ take s (drop pos (od_bytes dev))) dev1)
      else (True, buf, dev))"
  by pat_completeness auto
termination
proof (relation "measure (\<lambda>(cnt, _, buf, _). cnt - length buf)", goal_cases)
  case (2 cnt offset buf dev pos p s rs dev1)
  then have "s \<le> min (cnt - length buf) (length (od_bytes dev) - pos)"
    using transfer_le [of "min (cnt - length buf) (length (od_bytes dev) - pos)" "od_results dev" s rs] by (metis)
  then show ?case using 2 by auto
qed simp

declare pread_loop.simps [simp del]

text \<open>What was read, all of it when the flag is set.\<close>

definition pread_all :: "nat \<Rightarrow> nat \<Rightarrow> open_dev \<Rightarrow> bool \<times> u8 list \<times> open_dev" where
  "pread_all cnt offset dev = pread_loop cnt offset [] dev"

function pwrite_loop :: "u8 list \<Rightarrow> nat \<Rightarrow> nat \<Rightarrow> nat \<Rightarrow> open_dev \<Rightarrow> bool \<times> open_dev" where
  "pwrite_loop buf cnt offset w dev =
     (if w < cnt then
        (let pos = offset + w;
             (s, rs) = transfer (min (cnt - w) (length (od_bytes dev) - pos)) (od_results dev) in
         if s = 0 then (False, dev\<lparr>od_results := rs\<rparr>)
         else pwrite_loop buf cnt offset (w + s)
                \<lparr>od_bytes = overwrite pos (take s (drop w buf)) (od_bytes dev), od_results = rs\<rparr>)
      else (True, dev))"
  by pat_completeness auto
termination by (relation "measure (\<lambda>(_, cnt, _, w, _). cnt - w)") auto

declare pwrite_loop.simps [simp del]

definition pwrite_all :: "u8 list \<Rightarrow> nat \<Rightarrow> nat \<Rightarrow> open_dev \<Rightarrow> bool \<times> open_dev" where
  "pwrite_all buf cnt offset dev = pwrite_loop buf cnt offset 0 dev"

text \<open>The same loops in \<^verbatim>\<open>util.c\<close>, for \<^verbatim>\<open>n\<close> sectors.\<close>

definition read_sectors_raw :: "u32 \<Rightarrow> u64 \<Rightarrow> int \<Rightarrow> open_dev \<Rightarrow> bool \<times> u8 list \<times> open_dev" where
  "read_sectors_raw sector_size offset n dev =
     pread_loop (unat (sector_size * word_of_int n)) (unat (offset * ucast sector_size)) [] dev"

definition read_sector_raw :: "u32 \<Rightarrow> u64 \<Rightarrow> open_dev \<Rightarrow> bool \<times> u8 list \<times> open_dev" where
  "read_sector_raw sector_size offset dev = read_sectors_raw sector_size offset 1 dev"

definition write_sectors_raw :: "u8 list \<Rightarrow> u32 \<Rightarrow> u64 \<Rightarrow> int \<Rightarrow> open_dev \<Rightarrow> bool \<times> open_dev" where
  "write_sectors_raw buf sector_size offset n dev =
     pwrite_loop buf (unat (sector_size * word_of_int n)) (unat (offset * ucast sector_size)) 0 dev"

definition write_sector_raw :: "u8 list \<Rightarrow> u32 \<Rightarrow> u64 \<Rightarrow> open_dev \<Rightarrow> bool \<times> open_dev" where
  "write_sector_raw buf sector_size offset dev = write_sectors_raw buf sector_size offset 1 dev"

function read_loop :: "nat \<Rightarrow> u8 list \<Rightarrow> in_stream \<Rightarrow> bool \<times> u8 list \<times> in_stream" where
  "read_loop sz buf st =
     (if length buf < sz then
        (let (s, rs) = transfer (min (sz - length buf) (length (is_bytes st))) (is_results st) in
         if s = 0 then (False, buf, st\<lparr>is_results := rs\<rparr>)
         else read_loop sz (buf @ take s (is_bytes st)) \<lparr>is_bytes = drop s (is_bytes st), is_results = rs\<rparr>)
      else (True, buf, st))"
  by pat_completeness auto
termination
proof (relation "measure (\<lambda>(sz, buf, _). sz - length buf)", goal_cases)
  case (2 sz buf st p s rs)
  then have "s \<le> min (sz - length buf) (length (is_bytes st))"
    using transfer_le [of "min (sz - length buf) (length (is_bytes st))" "is_results st" s rs] by (metis)
  then show ?case using 2 by auto
qed simp

declare read_loop.simps [simp del]

definition read_data :: "nat \<Rightarrow> in_stream \<Rightarrow> bool \<times> u8 list \<times> in_stream" where
  "read_data sz st = read_loop sz [] st"

function write_loop :: "u8 list \<Rightarrow> nat \<Rightarrow> nat \<Rightarrow> out_stream \<Rightarrow> bool \<times> out_stream" where
  "write_loop data sz w st =
     (if w < sz then
        (let (s, rs) = transfer (sz - w) (os_results st) in
         if s = 0 then (False, st\<lparr>os_results := rs\<rparr>)
         else write_loop data sz (w + s) \<lparr>os_bytes = os_bytes st @ take s (drop w data), os_results = rs\<rparr>)
      else (True, st))"
  by pat_completeness auto
termination by (relation "measure (\<lambda>(_, sz, w, _). sz - w)") auto

declare write_loop.simps [simp del]

definition write_data :: "u8 list \<Rightarrow> nat \<Rightarrow> out_stream \<Rightarrow> bool \<times> out_stream" where
  "write_data data sz st = write_loop data sz 0 st"

section \<open>Sectors\<close>

text \<open>Reading into the memory of a sector; a system call fails on a NULL buffer.\<close>

definition dev_sector_read :: "open_dev \<Rightarrow> u64 \<Rightarrow> sector_data \<Rightarrow> bool \<times> sector_data \<times> open_dev" where
  "dev_sector_read dev offset sect =
     (case sd_data sect of
        None \<Rightarrow> (False, sect, dev)
      | Some buf \<Rightarrow>
          (let (ok, d, dev1) = pread_all (sd_size sect) (unat (offset * word_of_nat (sd_size sect))) dev in
           (ok, sect\<lparr>sd_data := Some (overwrite 0 d buf)\<rparr>, dev1)))"

definition dev_sector_write :: "open_dev \<Rightarrow> u64 \<Rightarrow> sector_data \<Rightarrow> bool \<times> open_dev" where
  "dev_sector_write dev offset sect =
     (case sd_data sect of
        None \<Rightarrow> (False, dev)
      | Some buf \<Rightarrow> pwrite_all buf (sd_size sect) (unat (offset * word_of_nat (sd_size sect))) dev)"

text \<open>Sizes in bytes of logical blocks are 32 bits wide, offsets on the device 64 bits.\<close>

definition sector_read_lb :: "open_dev \<Rightarrow> u64 \<Rightarrow> sector_data \<Rightarrow> u32 \<Rightarrow> u32 \<Rightarrow> bool \<times> sector_data \<times> open_dev" where
  "sector_read_lb dev offset_lb sect idx_lb n_lb =
     (let cnt = unat (n_lb * LOGICAL_BLOCK_SIZE); buf_off = unat (idx_lb * LOGICAL_BLOCK_SIZE);
          file_off = unat (offset_lb * ucast LOGICAL_BLOCK_SIZE) in
      case sd_data sect of
        None \<Rightarrow> (False, sect, dev)
      | Some buf \<Rightarrow>
          (let (ok, d, dev1) = pread_all cnt file_off dev in
           (ok, sect\<lparr>sd_data := Some (overwrite buf_off d buf)\<rparr>, dev1)))"

definition sector_write_lb :: "open_dev \<Rightarrow> u64 \<Rightarrow> sector_data \<Rightarrow> u32 \<Rightarrow> u32 \<Rightarrow> bool \<times> open_dev" where
  "sector_write_lb dev offset_lb sect idx_lb n_lb =
     (let cnt = unat (n_lb * LOGICAL_BLOCK_SIZE); buf_off = unat (idx_lb * LOGICAL_BLOCK_SIZE);
          file_off = unat (offset_lb * ucast LOGICAL_BLOCK_SIZE) in
      case sd_data sect of
        None \<Rightarrow> (False, dev)
      | Some buf \<Rightarrow> pwrite_all (drop buf_off buf) cnt file_off dev)"

section \<open>Sector arrays\<close>

text \<open>Storing a sector back into its array; an index out of the array is undefined.\<close>

definition put_sector :: "nat \<Rightarrow> sector_data \<Rightarrow> sector_data_array \<Rightarrow> sector_data_array" where
  "put_sector idx sect ary = ary\<lparr>sa_array := (sa_array ary)[idx := Some sect]\<rparr>"

fun pread_sectors :: "open_dev \<Rightarrow> u64 \<Rightarrow> sector_data_array \<Rightarrow> nat \<Rightarrow> nat \<Rightarrow> (bool \<times> sector_data_array \<times> open_dev) option" where
  "pread_sectors dev off ary idx 0 = Some (True, ary, dev)"
| "pread_sectors dev off ary idx (Suc n) =
     (case get_sector_data_in_array ary idx of
        None \<Rightarrow> None
      | Some sect \<Rightarrow>
          (let (ok, sect1, dev1) = dev_sector_read dev off sect; ary1 = put_sector idx sect1 ary in
           if \<not> ok then Some (False, ary1, dev1) else pread_sectors dev1 (off + 1) ary1 (idx + 1) n))"

definition sector_array_pread ::
  "open_dev \<Rightarrow> u64 \<Rightarrow> sector_data_array \<Rightarrow> nat \<Rightarrow> nat \<Rightarrow> (bool \<times> sector_data_array \<times> open_dev) option" where
  "sector_array_pread dev offset ary start_idx n_sectors = pread_sectors dev offset ary start_idx n_sectors"

fun pwrite_sectors :: "open_dev \<Rightarrow> u64 \<Rightarrow> sector_data_array \<Rightarrow> nat \<Rightarrow> nat \<Rightarrow> (bool \<times> open_dev) option" where
  "pwrite_sectors dev off ary idx 0 = Some (True, dev)"
| "pwrite_sectors dev off ary idx (Suc n) =
     (case get_sector_data_in_array ary idx of
        None \<Rightarrow> None
      | Some sect \<Rightarrow>
          (let (ok, dev1) = dev_sector_write dev off sect in
           if \<not> ok then Some (False, dev1) else pwrite_sectors dev1 (off + 1) ary (idx + 1) n))"

definition sector_array_pwrite :: "open_dev \<Rightarrow> u64 \<Rightarrow> sector_data_array \<Rightarrow> nat \<Rightarrow> nat \<Rightarrow> (bool \<times> open_dev) option" where
  "sector_array_pwrite dev offset ary start_idx n_sectors = pwrite_sectors dev offset ary start_idx n_sectors"

text \<open>
  The loops in units of logical blocks.  A step of 0 blocks, which a sector size below 512
  gives, would repeat for ever.
\<close>

definition step_lb :: "u32 \<Rightarrow> u32 \<Rightarrow> u32 \<Rightarrow> u32" where
  "step_lb pbs pos remaining =
     (let a = n_lb_in_pb pbs - ucast (off_in_pb pbs (ucast pos)) in if a < remaining then a else remaining)"

lemma step_lb_decreases:
  assumes "r < n" "step_lb pbs pos (n - r) \<noteq> 0"
  shows "unat (n - (r + step_lb pbs pos (n - r))) < unat (n - r)"
proof -
  let ?t = "step_lb pbs pos (n - r)"
  have "?t \<le> n - r" by (auto simp: step_lb_def Let_def)
  then have "unat (n - r - ?t) = unat (n - r) - unat ?t" by (rule unat_sub_nowrap)
  moreover have "0 < unat ?t" using assms(2) by (simp add: unat_gt_0)
  moreover have "unat ?t \<le> unat (n - r)" using \<open>?t \<le> n - r\<close> by (simp add: word_le_nat_alt)
  ultimately show ?thesis by (simp add: diff_diff_eq)
qed

function pread_lb_loop ::
  "open_dev \<Rightarrow> u64 \<Rightarrow> sector_data_array \<Rightarrow> u32 \<Rightarrow> u32 \<Rightarrow> u32 \<Rightarrow> (bool \<times> sector_data_array \<times> open_dev) option" where
  "pread_lb_loop dev offset_lb ary idx_lb n_lb r_lb =
     (if r_lb < n_lb then
        (let pbs = word_of_nat (sa_sector_size ary); idx = unat (addr_pb pbs (ucast (idx_lb + r_lb)));
             off_lb = ucast (off_in_pb pbs (ucast (idx_lb + r_lb))); tmp_lb = step_lb pbs (idx_lb + r_lb) (n_lb - r_lb) in
         if tmp_lb = 0 then None
         else case sector_at ary idx of
           None \<Rightarrow> None
         | Some sect \<Rightarrow>
             (let (ok, sect1, dev1) = sector_read_lb dev (offset_lb + ucast r_lb) sect off_lb tmp_lb;
                  ary1 = put_sector idx sect1 ary in
              if \<not> ok then Some (False, ary1, dev1) else pread_lb_loop dev1 offset_lb ary1 idx_lb n_lb (r_lb + tmp_lb)))
      else Some (True, ary, dev))"
  by pat_completeness auto
termination by (relation "measure (\<lambda>(_, _, _, _, n_lb, r_lb). unat (n_lb - r_lb))") (auto intro: step_lb_decreases)

declare pread_lb_loop.simps [simp del]

definition sector_array_pread_lb ::
  "open_dev \<Rightarrow> u64 \<Rightarrow> sector_data_array \<Rightarrow> u32 \<Rightarrow> u32 \<Rightarrow> (bool \<times> sector_data_array \<times> open_dev) option" where
  "sector_array_pread_lb dev offset_lb ary idx_lb n_lb = pread_lb_loop dev offset_lb ary idx_lb n_lb 0"

function pwrite_lb_loop ::
  "open_dev \<Rightarrow> u64 \<Rightarrow> sector_data_array \<Rightarrow> u32 \<Rightarrow> u32 \<Rightarrow> u32 \<Rightarrow> (bool \<times> open_dev) option" where
  "pwrite_lb_loop dev offset_lb ary idx_lb n_lb w_lb =
     (if w_lb < n_lb then
        (let pbs = word_of_nat (sa_sector_size ary); idx = unat (addr_pb pbs (ucast (idx_lb + w_lb)));
             off_lb = ucast (off_in_pb pbs (ucast (idx_lb + w_lb))); tmp_lb = step_lb pbs (idx_lb + w_lb) (n_lb - w_lb) in
         if tmp_lb = 0 then None
         else case sector_at ary idx of
           None \<Rightarrow> None
         | Some sect \<Rightarrow>
             (let (ok, dev1) = sector_write_lb dev (offset_lb + ucast w_lb) sect off_lb tmp_lb in
              if \<not> ok then Some (False, dev1) else pwrite_lb_loop dev1 offset_lb ary idx_lb n_lb (w_lb + tmp_lb)))
      else Some (True, dev))"
  by pat_completeness auto
termination by (relation "measure (\<lambda>(_, _, _, _, n_lb, w_lb). unat (n_lb - w_lb))") (auto intro: step_lb_decreases)

declare pwrite_lb_loop.simps [simp del]

definition sector_array_pwrite_lb :: "open_dev \<Rightarrow> u64 \<Rightarrow> sector_data_array \<Rightarrow> u32 \<Rightarrow> u32 \<Rightarrow> (bool \<times> open_dev) option" where
  "sector_array_pwrite_lb dev offset_lb ary idx_lb n_lb = pwrite_lb_loop dev offset_lb ary idx_lb n_lb 0"

text \<open>Sectors from and to a stream.\<close>

fun read_sectors :: "in_stream \<Rightarrow> sector_data_array \<Rightarrow> nat \<Rightarrow> nat \<Rightarrow> (bool \<times> sector_data_array \<times> in_stream) option" where
  "read_sectors st ary idx 0 = Some (True, ary, st)"
| "read_sectors st ary idx (Suc n) =
     (case sector_at ary idx of
        None \<Rightarrow> None
      | Some sect \<Rightarrow>
          (case sd_data sect of
             None \<Rightarrow> Some (False, ary, st)
           | Some buf \<Rightarrow>
               (let (ok, d, st1) = read_data (sa_sector_size ary) st;
                    ary1 = put_sector idx (sect\<lparr>sd_data := Some (overwrite 0 d buf)\<rparr>) ary in
                if \<not> ok then Some (False, ary1, st1) else read_sectors st1 ary1 (idx + 1) n)))"

definition sector_array_read :: "in_stream \<Rightarrow> sector_data_array \<Rightarrow> nat \<Rightarrow> nat \<Rightarrow> (bool \<times> sector_data_array \<times> in_stream) option" where
  "sector_array_read st ary start_idx n_sectors = read_sectors st ary start_idx n_sectors"

fun write_sectors :: "out_stream \<Rightarrow> sector_data_array \<Rightarrow> nat \<Rightarrow> nat \<Rightarrow> (bool \<times> out_stream) option" where
  "write_sectors st ary idx 0 = Some (True, st)"
| "write_sectors st ary idx (Suc n) =
     (case sector_at ary idx of
        None \<Rightarrow> None
      | Some sect \<Rightarrow>
          (case sd_data sect of
             None \<Rightarrow> Some (False, st)
           | Some buf \<Rightarrow>
               (let (ok, st1) = write_data buf (sa_sector_size ary) st in
                if \<not> ok then Some (False, st1) else write_sectors st1 ary (idx + 1) n)))"

definition sector_array_write :: "out_stream \<Rightarrow> sector_data_array \<Rightarrow> nat \<Rightarrow> nat \<Rightarrow> (bool \<times> out_stream) option" where
  "sector_array_write st ary start_idx n_sectors = write_sectors st ary start_idx n_sectors"


section \<open>Transfers\<close>

text \<open>What a read or a write that succeeded did, whatever the calls returned.\<close>

lemma pread_loop_sound:
  assumes "pread_loop cnt offset buf dev = (ok, d, dev')"
    and "buf = take (length buf) (drop offset (od_bytes dev))" "length buf \<le> cnt"
  shows "od_bytes dev' = od_bytes dev \<and> d = take (length d) (drop offset (od_bytes dev)) \<and> length d \<le> cnt \<and> (ok \<longrightarrow> length d = cnt)"
  using assms
proof (induction cnt offset buf dev rule: pread_loop.induct)
  case (1 cnt offset buf dev)
  let ?pos = "offset + length buf"
  obtain s rs where t: "transfer (min (cnt - length buf) (length (od_bytes dev) - ?pos)) (od_results dev) = (s, rs)" by fastforce
  note le = transfer_le [OF t]
  show ?case
  proof (cases "length buf < cnt \<and> s \<noteq> 0")
    case False
    then show ?thesis using "1.prems" t by (subst (asm) pread_loop.simps) (auto simp: Let_def split: if_splits)
  next
    case True
    have r: "pread_loop cnt offset (buf @ take s (drop ?pos (od_bytes dev))) (dev\<lparr>od_results := rs\<rparr>) = (ok, d, dev')"
      using "1.prems"(1) t True by (subst (asm) pread_loop.simps) (simp add: Let_def)
    let ?b = "buf @ take s (drop ?pos (od_bytes dev))"
    have len: "length ?b = length buf + s" using le by simp
    have b: "?b = take (length ?b) (drop offset (od_bytes dev))"
      unfolding len take_add drop_drop "1.prems"(2) [symmetric] by (simp add: add.commute)
    have "length ?b \<le> cnt" using len le True by auto
    with "1.IH" [OF _ refl t [symmetric] refl refl _ r] True b show ?thesis by simp
  qed
qed

lemma pread_all_sound:
  assumes "pread_all cnt offset dev = (ok, d, dev')"
  shows "od_bytes dev' = od_bytes dev" "length d \<le> cnt" "d = take (length d) (drop offset (od_bytes dev))"
    "ok \<Longrightarrow> d = take cnt (drop offset (od_bytes dev)) \<and> length d = cnt"
  using pread_loop_sound [OF assms [unfolded pread_all_def]] by auto

text \<open>Calls that never fail, as long as there is something to transfer.\<close>

definition working :: "int list \<Rightarrow> bool" where
  "working rs \<longleftrightarrow> (\<forall>r \<in> set rs. 0 < r)"

lemma transfer_working:
  assumes "working rs" "transfer avail rs = (s, rs')"
  shows "working rs'" "0 < avail \<Longrightarrow> 0 < s"
  using assms by (auto simp: working_def transfer_def split: list.splits)

lemma pread_loop_works:
  assumes "working (od_results dev)" "offset + cnt \<le> length (od_bytes dev)"
  shows "\<exists>d dev'. pread_loop cnt offset buf dev = (True, d, dev') \<and> working (od_results dev')"
  using assms
proof (induction cnt offset buf dev rule: pread_loop.induct)
  case (1 cnt offset buf dev)
  let ?pos = "offset + length buf"
  obtain s rs where t: "transfer (min (cnt - length buf) (length (od_bytes dev) - ?pos)) (od_results dev) = (s, rs)" by fastforce
  note w = transfer_working [OF "1.prems"(1) t]
  show ?case
  proof (cases "length buf < cnt")
    case True
    then have "s \<noteq> 0" using w(2) "1.prems"(2) by simp
    with "1.IH" [OF True refl t [symmetric] refl refl] w(1) "1.prems"(2) t True show ?thesis
      by (subst pread_loop.simps) (simp add: Let_def)
  qed (use "1.prems" in \<open>subst pread_loop.simps, simp\<close>)
qed

lemma pread_all_works:
  assumes "working (od_results dev)" "offset + cnt \<le> length (od_bytes dev)"
  shows "\<exists>dev'. pread_all cnt offset dev = (True, take cnt (drop offset (od_bytes dev)), dev') \<and>
    od_bytes dev' = od_bytes dev \<and> working (od_results dev')"
proof -
  obtain d dev' where r: "pread_all cnt offset dev = (True, d, dev')" "working (od_results dev')"
    using pread_loop_works [OF assms, of "[]"] by (auto simp: pread_all_def)
  then show ?thesis using pread_all_sound [OF r(1)] by auto
qed


lemma pwrite_loop_works:
  assumes "working (od_results dev)" "offset + cnt \<le> length (od_bytes dev)" "cnt \<le> length buf" "w \<le> cnt"
    and "od_bytes dev = overwrite offset (take w buf) bytes" "length bytes = length (od_bytes dev)"
  shows "\<exists>dev'. pwrite_loop buf cnt offset w dev = (True, dev') \<and> od_bytes dev' = overwrite offset (take cnt buf) bytes \<and>
    working (od_results dev')"
  using assms
proof (induction buf cnt offset w dev rule: pwrite_loop.induct)
  case (1 buf cnt offset w dev)
  let ?pos = "offset + w"
  obtain s rs where t: "transfer (min (cnt - w) (length (od_bytes dev) - ?pos)) (od_results dev) = (s, rs)" by fastforce
  note w = transfer_working [OF "1.prems"(1) t] and le = transfer_le [OF t]
  show ?case
  proof (cases "w < cnt")
    case True
    then have "s \<noteq> 0" using w(2) "1.prems"(2) by simp
    let ?d = "\<lparr>od_bytes = overwrite ?pos (take s (drop w buf)) (od_bytes dev), od_results = rs\<rparr>"
    have l: "s \<le> cnt - w" "length (take w buf) = w" "length (take s (drop w buf)) = s" using le "1.prems"(3,4) by auto
    have "od_bytes ?d = overwrite offset (take w buf @ take s (drop w buf)) bytes"
      unfolding "1.prems"(5) open_dev.select_convs
      using overwrite_append [of offset "take w buf" "take s (drop w buf)" bytes] l "1.prems"(2,4,6) by simp
    then have "od_bytes ?d = overwrite offset (take (w + s) buf) bytes" by (simp only: take_add)
    moreover have "length (od_bytes ?d) = length (od_bytes dev)" using "1.prems"(2,4) l by simp
    ultimately have "\<exists>dev'. pwrite_loop buf cnt offset (w + s) ?d = (True, dev') \<and>
        od_bytes dev' = overwrite offset (take cnt buf) bytes \<and> working (od_results dev')"
      using "1.IH" [OF True refl t [symmetric] refl \<open>s \<noteq> 0\<close>] w(1) "1.prems"(2-4,6) l(1) by simp
    then show ?thesis using t True \<open>s \<noteq> 0\<close> by (subst pwrite_loop.simps) (simp add: Let_def)
  next
    case False
    then have "w = cnt" using "1.prems"(4) by simp
    then show ?thesis using "1.prems"(1,5) by (subst pwrite_loop.simps) simp
  qed
qed

lemma pwrite_all_works:
  assumes "working (od_results dev)" "offset + cnt \<le> length (od_bytes dev)" "cnt \<le> length buf"
  shows "\<exists>dev'. pwrite_all buf cnt offset dev = (True, dev') \<and> od_bytes dev' = overwrite offset (take cnt buf) (od_bytes dev) \<and>
    working (od_results dev')"
  unfolding pwrite_all_def using pwrite_loop_works [OF assms, of 0 "od_bytes dev"] by simp

lemma read_loop_works:
  assumes "working (is_results st)" "length buf \<le> sz" "sz - length buf \<le> length (is_bytes st)"
  shows "\<exists>st'. read_loop sz buf st = (True, buf @ take (sz - length buf) (is_bytes st), st') \<and>
    is_bytes st' = drop (sz - length buf) (is_bytes st) \<and> working (is_results st')"
  using assms
proof (induction sz buf st rule: read_loop.induct)
  case (1 sz buf st)
  obtain s rs where t: "transfer (min (sz - length buf) (length (is_bytes st))) (is_results st) = (s, rs)" by fastforce
  note w = transfer_working [OF "1.prems"(1) t] and le = transfer_le [OF t]
  show ?case
  proof (cases "length buf < sz")
    case True
    then have s: "s \<noteq> 0" using w(2) "1.prems"(3) by simp
    have m: "sz - length buf = s + (sz - (length buf + s))" using le True by auto
    let ?b = "buf @ take s (is_bytes st)" and ?st = "\<lparr>is_bytes = drop s (is_bytes st), is_results = rs\<rparr>"
    have l: "length ?b = length buf + s" "s \<le> sz - length buf" using le by auto
    have eq: "?b @ take (sz - length ?b) (drop s (is_bytes st)) = buf @ take (sz - length buf) (is_bytes st)"
      "drop (sz - length ?b) (drop s (is_bytes st)) = drop (sz - length buf) (is_bytes st)"
      unfolding l(1) by (subst m, simp add: take_add) (subst m, simp add: add.commute)
    have "length ?b \<le> sz" "sz - length ?b \<le> length (is_bytes ?st)" using l True "1.prems"(3) by simp_all
    from "1.IH" [OF True t [symmetric] refl s _ this] w(1)
    have "\<exists>st'. read_loop sz ?b ?st = (True, ?b @ take (sz - length ?b) (drop s (is_bytes st)), st') \<and>
        is_bytes st' = drop (sz - length ?b) (drop s (is_bytes st)) \<and> working (is_results st')" by simp
    moreover have "read_loop sz buf st = read_loop sz ?b ?st" using t True s by (subst read_loop.simps) simp
    ultimately show ?thesis unfolding eq by simp
  next
    case False
    then show ?thesis using "1.prems" by (subst read_loop.simps) simp
  qed
qed

lemma read_data_works:
  assumes "working (is_results st)" "is_bytes st = d @ rest" "length d = sz"
  shows "\<exists>st'. read_data sz st = (True, d, st') \<and> is_bytes st' = rest \<and> working (is_results st')"
  unfolding read_data_def using read_loop_works [OF assms(1), of "[]" sz] assms(2,3) by auto

lemma write_loop_works:
  assumes "working (os_results st)" "w \<le> sz" "sz \<le> length d"
  shows "\<exists>st'. write_loop d sz w st = (True, st') \<and> os_bytes st' = os_bytes st @ take (sz - w) (drop w d) \<and> working (os_results st')"
  using assms
proof (induction d sz w st rule: write_loop.induct)
  case (1 d sz w st)
  obtain s rs where t: "transfer (sz - w) (os_results st) = (s, rs)" by fastforce
  note wk = transfer_working [OF "1.prems"(1) t] and le = transfer_le [OF t]
  show ?case
  proof (cases "w < sz")
    case True
    then have s: "s \<noteq> 0" using wk(2) by simp
    have m: "sz - w = s + (sz - (w + s))" using le True by simp
    have "take (sz - w) (drop w d) = take s (drop w d) @ take (sz - (w + s)) (drop (w + s) d)"
      by (subst m, simp add: take_add add.commute)
    with "1.IH" [OF True t [symmetric] refl s] wk(1) "1.prems"(3) le t True s show ?thesis
      by (subst write_loop.simps) auto
  qed (use "1.prems" in \<open>subst write_loop.simps, simp\<close>)
qed

lemma write_data_works:
  assumes "working (os_results st)" "sz \<le> length d"
  shows "\<exists>st'. write_data d sz st = (True, st') \<and> os_bytes st' = os_bytes st @ take sz d \<and> working (os_results st')"
  unfolding write_data_def using write_loop_works [OF assms(1) _ assms(2), of 0] by simp


section \<open>Sector arrays as byte sequences\<close>

lemma put_sector_ok:
  assumes "sector_array_wf ary" "i < sa_size ary" "off + length d \<le> sa_sector_size ary"
    and "sector_at ary i = Some sect" "sd_data sect = Some buf"
  shows "sector_array_wf (put_sector i (sect\<lparr>sd_data := Some (overwrite off d buf)\<rparr>) ary) \<and>
    sa_size (put_sector i (sect\<lparr>sd_data := Some (overwrite off d buf)\<rparr>) ary) = sa_size ary \<and>
    sa_sector_size (put_sector i (sect\<lparr>sd_data := Some (overwrite off d buf)\<rparr>) ary) = sa_sector_size ary \<and>
    flat (put_sector i (sect\<lparr>sd_data := Some (overwrite off d buf)\<rparr>) ary) = overwrite (i * sa_sector_size ary + off) d (flat ary)"
proof -
  have "length buf = sa_sector_size ary"
    using assms by (elim sector_array_wfE [of ary i]) (auto simp: sector_wf_def)
  then have "sector_write ary i off d = Some (put_sector i (sect\<lparr>sd_data := Some (overwrite off d buf)\<rparr>) ary)"
    using assms by (simp add: sector_write_def put_sector_def mem_write_overwrite)
  then show ?thesis using sector_write_ok [OF assms(1-3)] by auto
qed

lemma dev_block_offset:
  fixes off :: u64
  assumes "(unat off + 1) * sz \<le> len" "len < 2 ^ 64" "0 < sz"
  shows "unat (off * word_of_nat sz) = unat off * sz" "unat off * sz + sz \<le> len"
proof -
  show "unat off * sz + sz \<le> len" using assms(1) by (simp add: algebra_simps)
  moreover from this have "sz < 2 ^ 64" using assms(2) by linarith
  ultimately show "unat (off * word_of_nat sz) = unat off * sz"
    using assms(2) by (simp add: unat_mult_lem [THEN iffD1] unat_of_nat take_bit_nat_eq_self unat_word_ariths)
qed

lemma pread_sectors_works:
  assumes "sector_array_wf ary" "working (od_results dev)" "idx + n \<le> sa_size ary"
    and "(unat off + n) * sa_sector_size ary \<le> length (od_bytes dev)" "length (od_bytes dev) < 2 ^ 64"
  shows "\<exists>ary' dev'. pread_sectors dev off ary idx n = Some (True, ary', dev') \<and> sector_array_wf ary' \<and>
    sa_size ary' = sa_size ary \<and> sa_sector_size ary' = sa_sector_size ary \<and>
    flat ary' = overwrite (idx * sa_sector_size ary)
      (take (n * sa_sector_size ary) (drop (unat off * sa_sector_size ary) (od_bytes dev))) (flat ary) \<and>
    od_bytes dev' = od_bytes dev \<and> working (od_results dev')"
  using assms
proof (induction n arbitrary: ary dev off idx)
  case (Suc n)
  let ?sz = "sa_sector_size ary" and ?b = "od_bytes dev"
  have idx: "idx < sa_size ary" and sz: "0 < ?sz" using Suc.prems by (simp_all add: sector_array_wf_def)
  obtain sect where s: "sector_at ary idx = Some sect" "sector_wf sect" "sd_size sect = ?sz"
    using Suc.prems(1) idx by (rule sector_array_wfE)
  obtain buf where buf: "sd_data sect = Some buf" using s(2) by (auto simp: sector_wf_def)
  have "(unat off + 1) * ?sz \<le> (unat off + Suc n) * ?sz" by simp
  then have "(unat off + 1) * ?sz \<le> length ?b" using Suc.prems(4) by linarith
  note o = dev_block_offset [OF this Suc.prems(5) sz]
  let ?d = "take ?sz (drop (unat off * ?sz) ?b)"
  obtain dev1 where dev1: "pread_all ?sz (unat off * ?sz) dev = (True, ?d, dev1)" "od_bytes dev1 = ?b" "working (od_results dev1)"
    using pread_all_works [OF Suc.prems(2) o(2)] by blast
  let ?a1 = "put_sector idx (sect\<lparr>sd_data := Some (overwrite 0 ?d buf)\<rparr>) ary"
  have ld: "length ?d = ?sz" using o(2) by simp
  have a1: "sector_array_wf ?a1" "sa_size ?a1 = sa_size ary" "sa_sector_size ?a1 = ?sz" "flat ?a1 = overwrite (idx * ?sz) ?d (flat ary)"
    using put_sector_ok [OF Suc.prems(1) idx _ s(1) buf, of 0 ?d] ld by simp_all
  have "(unat off + Suc n) * 1 \<le> (unat off + Suc n) * ?sz" using sz by (intro mult_le_mono2) simp
  from le_trans [OF this Suc.prems(4)] have "unat off + 1 < 2 ^ 64" using Suc.prems(5) by simp
  then have off1: "unat (off + 1) = unat off + 1" by (simp add: unat_add_nowrap)
  have "(unat (off + 1) + n) * sa_sector_size ?a1 \<le> length (od_bytes dev1)" using Suc.prems(4) off1 a1(3) dev1(2) by simp
  from Suc.IH [OF a1(1) dev1(3) _ this, of "idx + 1"] obtain ary' dev' where
    r: "pread_sectors dev1 (off + 1) ?a1 (idx + 1) n = Some (True, ary', dev')" "sector_array_wf ary'"
      "sa_size ary' = sa_size ary" "sa_sector_size ary' = ?sz"
      "flat ary' = overwrite ((idx + 1) * ?sz) (take (n * ?sz) (drop (unat (off + 1) * ?sz) ?b)) (flat ?a1)"
      "od_bytes dev' = ?b" "working (od_results dev')"
    using Suc.prems(3,5) a1(2,3) dev1(2) by auto
  have "flat ary' = overwrite (idx * ?sz) (?d @ take (n * ?sz) (drop (unat (off + 1) * ?sz) ?b)) (flat ary)"
    unfolding r(5) a1(4)
    using overwrite_append [of "idx * ?sz" ?d "take (n * ?sz) (drop (unat (off + 1) * ?sz) ?b)" "flat ary"] ld
      length_flat [OF Suc.prems(1)] mult_le_mono1 [OF Suc.prems(3), of ?sz] by (simp add: algebra_simps min_def)
  also have "?d @ take (n * ?sz) (drop (unat (off + 1) * ?sz) ?b) = take (Suc n * ?sz) (drop (unat off * ?sz) ?b)"
    unfolding off1 by (simp add: take_add add.commute)
  finally have "flat ary' = overwrite (idx * ?sz) (take (Suc n * ?sz) (drop (unat off * ?sz) ?b)) (flat ary)" .
  moreover have "pread_sectors dev off ary idx (Suc n) = Some (True, ary', dev')"
    using s(1,3) buf dev1(1) o(1) r(1) by (simp add: get_sector_data_in_array_def dev_sector_read_def)
  ultimately show ?case using r by blast
qed simp


lemma read_sectors_works:
  assumes "sector_array_wf ary" "working (is_results st)" "idx + n \<le> sa_size ary"
    and "is_bytes st = d @ rest" "length d = n * sa_sector_size ary"
  shows "\<exists>ary' st'. read_sectors st ary idx n = Some (True, ary', st') \<and> sector_array_wf ary' \<and>
    sa_size ary' = sa_size ary \<and> sa_sector_size ary' = sa_sector_size ary \<and>
    flat ary' = overwrite (idx * sa_sector_size ary) d (flat ary) \<and> is_bytes st' = rest \<and> working (is_results st')"
  using assms
proof (induction n arbitrary: ary st idx d)
  case (Suc n)
  let ?sz = "sa_sector_size ary"
  have idx: "idx < sa_size ary" using Suc.prems by simp
  obtain sect where s: "sector_at ary idx = Some sect" "sector_wf sect" "sd_size sect = ?sz"
    using Suc.prems(1) idx by (rule sector_array_wfE)
  obtain buf where buf: "sd_data sect = Some buf" using s(2) by (auto simp: sector_wf_def)
  let ?d1 = "take ?sz d" and ?d2 = "drop ?sz d"
  have l: "length ?d1 = ?sz" "length ?d2 = n * ?sz" "d = ?d1 @ ?d2" using Suc.prems(5) by simp_all
  obtain st1 where st1: "read_data ?sz st = (True, ?d1, st1)" "is_bytes st1 = ?d2 @ rest" "working (is_results st1)"
    using read_data_works [OF Suc.prems(2), of ?d1 "?d2 @ rest" ?sz] Suc.prems(4) l by auto
  let ?a1 = "put_sector idx (sect\<lparr>sd_data := Some (overwrite 0 ?d1 buf)\<rparr>) ary"
  have a1: "sector_array_wf ?a1" "sa_size ?a1 = sa_size ary" "sa_sector_size ?a1 = ?sz" "flat ?a1 = overwrite (idx * ?sz) ?d1 (flat ary)"
    using put_sector_ok [OF Suc.prems(1) idx _ s(1) buf, of 0 ?d1] l(1) by simp_all
  from Suc.IH [OF a1(1) st1(3) _ st1(2), of "idx + 1"] obtain ary' st' where
    r: "read_sectors st1 ?a1 (idx + 1) n = Some (True, ary', st')" "sector_array_wf ary'"
      "sa_size ary' = sa_size ary" "sa_sector_size ary' = ?sz" "flat ary' = overwrite ((idx + 1) * ?sz) ?d2 (flat ?a1)"
      "is_bytes st' = rest" "working (is_results st')"
    using Suc.prems(3) a1(2,3) l(2) by auto
  have "flat ary' = overwrite (idx * ?sz) (?d1 @ ?d2) (flat ary)"
    unfolding r(5) a1(4)
    using overwrite_append [of "idx * ?sz" ?d1 ?d2 "flat ary"] l
      length_flat [OF Suc.prems(1)] mult_le_mono1 [OF Suc.prems(3), of ?sz] by (simp add: algebra_simps)
  then have "flat ary' = overwrite (idx * ?sz) d (flat ary)" by simp
  moreover have "read_sectors st ary idx (Suc n) = Some (True, ary', st')"
    using s(1) buf st1(1) r(1) by simp
  ultimately show ?case using r by blast
qed simp

lemma write_sectors_works:
  assumes "sector_array_wf ary" "working (os_results st)" "idx + n \<le> sa_size ary"
  shows "\<exists>st'. write_sectors st ary idx n = Some (True, st') \<and>
    os_bytes st' = os_bytes st @ take (n * sa_sector_size ary) (drop (idx * sa_sector_size ary) (flat ary)) \<and> working (os_results st')"
  using assms
proof (induction n arbitrary: st idx)
  case (Suc n)
  let ?sz = "sa_sector_size ary"
  have idx: "idx < sa_size ary" using Suc.prems by simp
  obtain sect where s: "sector_at ary idx = Some sect" "sector_wf sect" "sd_size sect = ?sz" "sector_rows ary ! idx = sector_bytes sect"
    using Suc.prems(1) idx by (rule sector_array_wfE)
  obtain buf where buf: "sd_data sect = Some buf" "length buf = ?sz" using s(2,3) by (auto simp: sector_wf_def)
  have b: "buf = take ?sz (drop (idx * ?sz) (flat ary))"
    using sector_read_ok [OF Suc.prems(1) idx, of 0 ?sz] s(1) buf by (simp add: sector_read_def mem_read_in)
  obtain st1 where st1: "write_data buf ?sz st = (True, st1)" "os_bytes st1 = os_bytes st @ buf" "working (os_results st1)"
    using write_data_works [OF Suc.prems(2), of ?sz buf] buf(2) by auto
  from Suc.IH [OF Suc.prems(1) st1(3), of "idx + 1"] Suc.prems(3) obtain st' where
    r: "write_sectors st1 ary (idx + 1) n = Some (True, st')"
      "os_bytes st' = os_bytes st1 @ take (n * ?sz) (drop ((idx + 1) * ?sz) (flat ary))" "working (os_results st')" by auto
  have "write_sectors st ary idx (Suc n) = Some (True, st')" using s(1) buf st1(1) r(1) by simp
  moreover have "os_bytes st' = os_bytes st @ take (Suc n * ?sz) (drop (idx * ?sz) (flat ary))"
    unfolding r(2) st1(2) by (subst b) (simp add: take_add add.commute)
  ultimately show ?case using r(3) by blast
qed simp


section \<open>Writing logical blocks\<close>

lemma step_lb_unat:
  assumes "is_valid_pbs pbs"
  shows "unat (step_lb pbs pos rem) = min (unat (n_lb_in_pb pbs) - unat pos mod unat (n_lb_in_pb pbs)) (unat rem)"
    "unat (ucast (off_in_pb pbs (ucast pos)) :: u32) = unat pos mod unat (n_lb_in_pb pbs)"
    "unat (addr_pb pbs (ucast pos)) = unat pos div unat (n_lb_in_pb pbs)"
proof -
  have k: "0 < unat (n_lb_in_pb pbs)" "unat (n_lb_in_pb pbs) < 2 ^ 32" using n_lb_in_pb_bounds [OF assms] by auto
  have p: "unat (ucast pos :: u64) = unat pos" using unat_u32_lt [of pos] by (simp add: unsigned_ucast_eq take_bit_nat_eq_self)
  have m: "unat pos mod unat (n_lb_in_pb pbs) < unat (n_lb_in_pb pbs)" using k by simp
  then show o: "unat (ucast (off_in_pb pbs (ucast pos)) :: u32) = unat pos mod unat (n_lb_in_pb pbs)"
    using k less_trans [OF m k(2)] by (simp add: unsigned_ucast_eq unat_off_in_pb p take_bit_nat_eq_self)
  show "unat (addr_pb pbs (ucast pos)) = unat pos div unat (n_lb_in_pb pbs)" by (simp add: unat_addr_pb p)
  have "unat (n_lb_in_pb pbs - ucast (off_in_pb pbs (ucast pos)) :: u32) = unat (n_lb_in_pb pbs) - unat pos mod unat (n_lb_in_pb pbs)"
    using m o by (subst unat_sub_nowrap) (simp_all add: word_le_nat_alt)
  then show "unat (step_lb pbs pos rem) = min (unat (n_lb_in_pb pbs) - unat pos mod unat (n_lb_in_pb pbs)) (unat rem)"
    by (auto simp: step_lb_def Let_def word_less_nat_alt min_def)
qed

lemma sector_write_lb_works:
  assumes "sector_array_wf ary" "i < sa_size ary" "sector_at ary i = Some sect" "working (od_results dev)"
    and "(unat idx_lb + unat n_lb) * 512 \<le> sa_sector_size ary" "sa_sector_size ary < 2 ^ 32"
    and "(unat off + unat n_lb) * 512 \<le> length (od_bytes dev)" "length (od_bytes dev) < 2 ^ 64"
  shows "\<exists>dev'. sector_write_lb dev off sect idx_lb n_lb = (True, dev') \<and> working (od_results dev') \<and>
    od_bytes dev' = overwrite (unat off * 512)
      (take (unat n_lb * 512) (drop (i * sa_sector_size ary + unat idx_lb * 512) (flat ary))) (od_bytes dev)"
proof -
  obtain buf where buf: "sd_data sect = Some buf" "length buf = sa_sector_size ary"
    using assms(1-3) by (elim sector_array_wfE [of ary i]) (auto simp: sector_wf_def)
  have b: "take (unat n_lb * 512) (drop (unat idx_lb * 512) buf) =
      take (unat n_lb * 512) (drop (i * sa_sector_size ary + unat idx_lb * 512) (flat ary))"
    using sector_read_ok [OF assms(1,2), of "unat idx_lb * 512" "unat n_lb * 512"] assms(3,5) buf
    by (simp add: sector_read_def mem_read_in algebra_simps)
  have w: "unat (n_lb * LOGICAL_BLOCK_SIZE) = unat n_lb * 512" "unat (idx_lb * LOGICAL_BLOCK_SIZE) = unat idx_lb * 512"
    using assms(5,6) by (simp_all add: unat_word_ariths)
  have "unat off * 512 < 2 ^ 64" using assms(7,8) by simp
  then have o: "unat (off * ucast LOGICAL_BLOCK_SIZE) = unat off * 512"
    by (simp add: unat_word_ariths LOGICAL_BLOCK_SIZE_def)
  have fit: "unat off * 512 + unat n_lb * 512 \<le> length (od_bytes dev)" "unat n_lb * 512 \<le> length (drop (unat idx_lb * 512) buf)"
    using assms(5,7) buf(2) by simp_all
  obtain dev' where "pwrite_all (drop (unat idx_lb * 512) buf) (unat n_lb * 512) (unat off * 512) dev = (True, dev')"
    "od_bytes dev' = overwrite (unat off * 512) (take (unat n_lb * 512) (drop (unat idx_lb * 512) buf)) (od_bytes dev)"
    "working (od_results dev')"
    using pwrite_all_works [OF assms(4) fit] by blast
  then show ?thesis using buf b w o by (auto simp: sector_write_lb_def)
qed

lemma pwrite_lb_loop_works:
  assumes "sector_array_wf ary" "sa_sector_size ary = unat pbs" "is_valid_pbs pbs" "working (od_results dev)" "w_lb \<le> n_lb"
    and "(unat idx_lb + unat n_lb) * 512 \<le> sa_size ary * sa_sector_size ary" "unat idx_lb + unat n_lb < 2 ^ 32"
    and "(unat off + unat n_lb) * 512 \<le> length (od_bytes dev)" "length (od_bytes dev) < 2 ^ 64"
  shows "\<exists>dev'. pwrite_lb_loop dev off ary idx_lb n_lb w_lb = Some (True, dev') \<and> working (od_results dev') \<and>
    od_bytes dev' = overwrite ((unat off + unat w_lb) * 512)
      (take ((unat n_lb - unat w_lb) * 512) (drop ((unat idx_lb + unat w_lb) * 512) (flat ary))) (od_bytes dev)"
  using assms(1,2,4-)
proof (induction dev off ary idx_lb n_lb w_lb rule: pwrite_lb_loop.induct)
  case (1 dev off ary idx_lb n_lb w_lb)
  let ?k = "unat (n_lb_in_pb pbs)" and ?p = "unat idx_lb + unat w_lb" and ?len = "length (od_bytes dev)"
  have k: "0 < ?k" "?k * 512 = unat pbs" using n_lb_in_pb_bounds [OF assms(3)] n_lb_in_pb_bytes [OF assms(3)] by auto
  have pbs: "word_of_nat (sa_sector_size ary) = pbs" using "1.prems"(2) by simp
  have wn: "unat w_lb \<le> unat n_lb" using "1.prems"(4) by (simp add: word_le_nat_alt)
  show ?case
  proof (cases "w_lb < n_lb")
    case False
    then have "w_lb = n_lb" using "1.prems"(4) by simp
    then show ?thesis using "1.prems"(3) by (subst pwrite_lb_loop.simps) simp
  next
    case True
    then have lt: "unat w_lb < unat n_lb" by (simp add: word_less_nat_alt)
    have p: "unat (idx_lb + w_lb) = ?p" using "1.prems"(6) wn by (simp add: unat_add_nowrap)
    let ?t = "step_lb pbs (idx_lb + w_lb) (n_lb - w_lb)" and ?o = "ucast (off_in_pb pbs (ucast (idx_lb + w_lb))) :: u32"
    let ?i = "unat (addr_pb pbs (ucast (idx_lb + w_lb)))"
    have nw: "unat (n_lb - w_lb) = unat n_lb - unat w_lb" using "1.prems"(4) by (rule unat_sub_nowrap)
    note st = step_lb_unat [OF assms(3), of "idx_lb + w_lb", unfolded p]
    have t: "unat ?t = min (?k - ?p mod ?k) (unat n_lb - unat w_lb)" using st(1) nw by simp
    have m: "?p mod ?k < ?k" using k(1) by simp
    then have t0: "?t \<noteq> 0" using t lt by (auto simp: unat_eq_zero [symmetric] simp del: unat_eq_zero)
    have tle: "unat w_lb + unat ?t \<le> unat n_lb" "?p mod ?k + unat ?t \<le> ?k" using t wn m by auto
    have w': "unat (w_lb + ?t) = unat w_lb + unat ?t" using tle(1) unat_u32_lt [of n_lb] by (simp add: unat_add_nowrap)
    have "?p < sa_size ary * ?k"
    proof -
      have "(?p + 1) * 512 \<le> sa_size ary * ?k * 512" using "1.prems"(2,5) k(2) lt by (simp add: algebra_simps)
      then show ?thesis by simp
    qed
    then have i: "?i = ?p div ?k" "?i < sa_size ary" using st(3) k(1) by (simp_all add: less_mult_imp_div_less mult.commute)
    obtain sect where sect: "sector_at ary ?i = Some sect" using "1.prems"(1) i(2) by (rule sector_array_wfE)
    have ow: "unat (off + ucast w_lb) = unat off + unat w_lb"
      using "1.prems"(7,8) wn unat_u32_lt [of w_lb] by (subst unat_add_nowrap) (simp_all add: unsigned_ucast_eq take_bit_nat_eq_self)
    have pb: "unat pbs < 2 ^ 32" using unat_u32_lt [of pbs] by simp
    have fit: "(unat ?o + unat ?t) * 512 \<le> sa_sector_size ary" "sa_sector_size ary < 2 ^ 32"
      "(unat (off + ucast w_lb) + unat ?t) * 512 \<le> ?len"
      using st(2) tle "1.prems"(2,7) k(2) ow pb mult_le_mono1 [OF tle(2), of 512] by simp_all
    obtain dev1 where d1: "sector_write_lb dev (off + ucast w_lb) sect ?o ?t = (True, dev1)" "working (od_results dev1)"
      "od_bytes dev1 = overwrite (unat (off + ucast w_lb) * 512)
        (take (unat ?t * 512) (drop (?i * sa_sector_size ary + unat ?o * 512) (flat ary))) (od_bytes dev)"
      using sector_write_lb_works [OF "1.prems"(1) i(2) sect "1.prems"(3) fit "1.prems"(8)] by blast
    have pos: "?i * sa_sector_size ary + unat ?o * 512 = ?p * 512"
    proof -
      have "?i * (?k * 512) + ?p mod ?k * 512 = (?p div ?k * ?k + ?p mod ?k) * 512" unfolding i(1) by (simp only: add_mult_distrib mult.assoc)
      then show ?thesis using "1.prems"(2) k(2) st(2) by simp
    qed
    let ?A = "take (unat ?t * 512) (drop (?p * 512) (flat ary))"
    let ?B = "take ((unat n_lb - unat (w_lb + ?t)) * 512) (drop ((unat idx_lb + unat (w_lb + ?t)) * 512) (flat ary))"
    have lf: "(unat idx_lb + unat n_lb) * 512 \<le> length (flat ary)" using "1.prems"(5) length_flat [OF "1.prems"(1)] by simp
    have lA: "length ?A = unat ?t * 512" "length ?B = (unat n_lb - unat (w_lb + ?t)) * 512" using lf tle(1) w' by auto
    have d1b: "od_bytes dev1 = overwrite ((unat off + unat w_lb) * 512) ?A (od_bytes dev)" using d1(3) pos ow by simp
    have len1: "length (od_bytes dev1) = ?len" unfolding d1b using lA(1) fit(3) ow by (simp add: algebra_simps)
    have "w_lb + ?t \<le> n_lb" using tle(1) w' by (simp add: word_le_nat_alt)
    from "1.IH" [OF True pbs [symmetric] refl refl refl t0 sect d1(1) [symmetric] refl _ "1.prems"(1,2) d1(2) this "1.prems"(5,6)]
    obtain dev' where r: "pwrite_lb_loop dev1 off ary idx_lb n_lb (w_lb + ?t) = Some (True, dev')" "working (od_results dev')"
      "od_bytes dev' = overwrite ((unat off + unat (w_lb + ?t)) * 512) ?B (od_bytes dev1)"
      using len1 "1.prems"(7,8) by auto
    have run: "pwrite_lb_loop dev off ary idx_lb n_lb w_lb = Some (True, dev')"
      using True t0 sect d1(1) r(1) pbs by (subst pwrite_lb_loop.simps) (simp add: Let_def)
    have "od_bytes dev' = overwrite ((unat off + unat w_lb) * 512 + length ?A) ?B (overwrite ((unat off + unat w_lb) * 512) ?A (od_bytes dev))"
      unfolding r(3) d1b lA(1) w' by (simp add: algebra_simps)
    also have "\<dots> = overwrite ((unat off + unat w_lb) * 512) (?A @ ?B) (od_bytes dev)"
      using lA tle(1) w' "1.prems"(7) by (intro overwrite_append) (simp add: algebra_simps)
    also have "?A @ ?B = take ((unat n_lb - unat w_lb) * 512) (drop (?p * 512) (flat ary))"
    proof -
      have "(unat n_lb - unat w_lb) * 512 = unat ?t * 512 + (unat n_lb - unat (w_lb + ?t)) * 512"
        unfolding w' add_mult_distrib [symmetric] using tle(1) by simp
      moreover have "(unat idx_lb + unat (w_lb + ?t)) * 512 = unat ?t * 512 + ?p * 512" unfolding w' by simp
      ultimately show ?thesis by (simp add: take_add ac_simps)
    qed
    finally show ?thesis using run r(2) by blast
  qed
qed


lemma sector_array_pwrite_lb_works:
  assumes "sector_array_wf ary" "sa_sector_size ary = unat pbs" "is_valid_pbs pbs" "working (od_results dev)"
    and "(unat idx_lb + unat n_lb) * 512 \<le> sa_size ary * sa_sector_size ary" "unat idx_lb + unat n_lb < 2 ^ 32"
    and "(unat off + unat n_lb) * 512 \<le> length (od_bytes dev)" "length (od_bytes dev) < 2 ^ 64"
  shows "\<exists>dev'. sector_array_pwrite_lb dev off ary idx_lb n_lb = Some (True, dev') \<and> working (od_results dev') \<and>
    od_bytes dev' = overwrite (unat off * 512) (take (unat n_lb * 512) (drop (unat idx_lb * 512) (flat ary))) (od_bytes dev)"
  using pwrite_lb_loop_works [OF assms(1-4) _ assms(5-), of 0] by (simp add: sector_array_pwrite_lb_def)

end
