(* ===== verification/Walb_Tool_Log.thy ===== *)
theory Walb_Tool_Log
  imports Walb_Tool_Io
begin

text \<open>
  Logpacks in the control tool (\<^verbatim>\<open>tool/logpack.c\<close>) and the header of a log stream
  (\<^verbatim>\<open>tool/walb_log.h\<close>).  A logpack buffer has the sector of the header and the sector array of
  the data; the header structure is read out of the bytes of its sector.  Indexing the records
  or the array out of their bounds is undefined.
\<close>

section \<open>Logpack buffers\<close>

record logpack =
  lp_sectd :: sector_data
  lp_sectd_ary :: sector_data_array

definition lp_header :: "logpack \<Rightarrow> walb_logpack_header" where
  "lp_header pack = logpack_header_of_bytes (sector_bytes (lp_sectd pack))"

definition put_logh :: "walb_logpack_header \<Rightarrow> sector_data \<Rightarrow> sector_data" where
  "put_logh logh sect = sect\<lparr>sd_data := Some (overwrite 0 (logpack_header_bytes logh) (sector_bytes sect))\<rparr>"

text \<open>What the allocations return.\<close>

record pack_alloc =
  pa_malloc :: bool
  pa_header :: "bool \<times> u8 list option"
  pa_array :: "bool \<times> bool \<times> (bool \<times> u8 list option) list"
  pa_realloc :: "nat \<Rightarrow> bool \<times> (bool \<times> u8 list option) list"

definition alloc_logpack :: "pack_alloc \<Rightarrow> u32 \<Rightarrow> nat \<Rightarrow> logpack option" where
  "alloc_logpack a pbs n_sectors =
     (if \<not> pa_malloc a then None
      else case sector_alloc (unat pbs) (fst (pa_header a)) (snd (pa_header a)) of
        None \<Rightarrow> None
      | Some sectd \<Rightarrow>
          map_option (\<lambda>ary. \<lparr>lp_sectd = sectd, lp_sectd_ary = ary\<rparr>)
            (sector_array_alloc (unat pbs) n_sectors (fst (pa_array a)) (fst (snd (pa_array a))) (snd (snd (pa_array a)))))"

definition resize_logpack_if_necessary :: "pack_alloc \<Rightarrow> logpack \<Rightarrow> nat \<Rightarrow> bool \<times> logpack" where
  "resize_logpack_if_necessary a pack n_sectors =
     (if n_sectors \<le> sa_size (lp_sectd_ary pack) then (True, pack)
      else
        (let (ok, ary) = sector_array_realloc (lp_sectd_ary pack) n_sectors (fst (pa_realloc a n_sectors)) (snd (pa_realloc a n_sectors)) in
         (ok, pack\<lparr>lp_sectd_ary := ary\<rparr>)))"

section \<open>The log device\<close>

definition read_logpack_header_from_wldev ::
  "open_dev \<Rightarrow> walb_super_sector \<Rightarrow> u64 \<Rightarrow> u32 \<Rightarrow> sector_data \<Rightarrow> bool \<times> sector_data \<times> open_dev" where
  "read_logpack_header_from_wldev dev super lsid salt logh_sect =
     (let off = get_ring_buffer_offset_2 super + lsid mod ss_ring_buffer_size super;
          (ok, sect1, dev1) = dev_sector_read dev off logh_sect;
          logh = logpack_header_of_bytes (sector_bytes sect1) in
      (ok \<and> lsid = lh_logpack_lsid logh \<and> is_valid_logpack_header_with_checksum logh (ss_physical_bs super) salt, sect1, dev1))"

text \<open>The loop returns the index of the first record that cannot be read or has a wrong checksum.\<close>

fun read_records_wldev ::
  "walb_super_sector \<Rightarrow> u32 \<Rightarrow> open_dev \<Rightarrow> nat \<Rightarrow> walb_log_record list \<Rightarrow> nat \<Rightarrow> sector_data_array \<Rightarrow>
   (nat \<times> sector_data_array \<times> open_dev) option" where
  "read_records_wldev super salt dev i [] total_pb ary = Some (i, ary, dev)"
| "read_records_wldev super salt dev i (rec # recs) total_pb ary =
     (if test_bit_u32 LOG_RECORD_DISCARD (lr_flags rec) then read_records_wldev super salt dev (i + 1) recs total_pb ary
      else
        (let pbs = ss_physical_bs super; log_lb = lr_io_size rec;
             log_pb = unat (ucast (capacity_pb pbs (ucast log_lb)) :: u32);
             log_off = get_offset_of_lsid_2 super (lr_lsid rec) in
         case sector_array_pread dev log_off ary total_pb log_pb of
           None \<Rightarrow> None
         | Some (ok, ary1, dev1) \<Rightarrow>
             if \<not> ok then Some (i, ary1, dev1)
             else if test_bit_u32 LOG_RECORD_PADDING (lr_flags rec) then
               read_records_wldev super salt dev1 (i + 1) recs (total_pb + log_pb) ary1
             else
               (case sector_array_checksum ary1 (total_pb * unat pbs) (unat (log_lb * ss_logical_bs super)) salt of
                  None \<Rightarrow> None
                | Some csum \<Rightarrow>
                    if csum \<noteq> lr_checksum rec then Some (i, ary1, dev1)
                    else read_records_wldev super salt dev1 (i + 1) recs (total_pb + log_pb) ary1)))"

definition read_logpack_data_from_wldev ::
  "open_dev \<Rightarrow> walb_super_sector \<Rightarrow> walb_logpack_header \<Rightarrow> u32 \<Rightarrow> sector_data_array \<Rightarrow>
   (nat \<times> sector_data_array \<times> open_dev) option" where
  "read_logpack_data_from_wldev dev super logh salt sect_ary =
     (if unat (lh_total_io_size logh) > sa_size sect_ary then Some (0, sect_ary, dev)
      else if unat (lh_n_records logh) > length (lh_record logh) then None
      else read_records_wldev super salt dev 0 (used_records logh) 0 sect_ary)"

section \<open>Streams\<close>

definition write_logpack_header :: "out_stream \<Rightarrow> u32 \<Rightarrow> sector_data \<Rightarrow> bool \<times> out_stream" where
  "write_logpack_header st pbs sect = write_data (sector_bytes sect) (unat pbs) st"

definition read_logpack_header :: "in_stream \<Rightarrow> u32 \<Rightarrow> u32 \<Rightarrow> sector_data \<Rightarrow> bool \<times> sector_data \<times> in_stream" where
  "read_logpack_header st pbs salt sect =
     (let (ok, d, st1) = read_data (unat pbs) st;
          sect1 = sect\<lparr>sd_data := Some (overwrite 0 d (sector_bytes sect))\<rparr> in
      (ok \<and> is_valid_logpack_header_with_checksum (logpack_header_of_bytes (sector_bytes sect1)) pbs salt, sect1, st1))"

fun read_records_stream ::
  "u32 \<Rightarrow> in_stream \<Rightarrow> walb_log_record list \<Rightarrow> sector_data_array \<Rightarrow> (bool \<times> sector_data_array \<times> in_stream) option" where
  "read_records_stream salt st [] ary = Some (True, ary, st)"
| "read_records_stream salt st (rec # recs) ary =
     (if test_bit_u32 LOG_RECORD_DISCARD (lr_flags rec) then read_records_stream salt st recs ary
      else
        (let pbs = word_of_nat (sa_sector_size ary) :: u32; idx_pb = ucast (lr_lsid_local rec) - 1 :: u32;
             log_lb = lr_io_size rec; log_pb = unat (ucast (capacity_pb pbs (ucast log_lb)) :: u32) in
         case sector_array_read st ary (unat idx_pb) log_pb of
           None \<Rightarrow> None
         | Some (ok, ary1, st1) \<Rightarrow>
             if \<not> ok then Some (False, ary1, st1)
             else if test_bit_u32 LOG_RECORD_PADDING (lr_flags rec) then read_records_stream salt st1 recs ary1
             else
               (case sector_array_checksum ary1 (unat (idx_pb * pbs)) (unat (log_lb * LOGICAL_BLOCK_SIZE)) salt of
                  None \<Rightarrow> None
                | Some csum \<Rightarrow>
                    if csum \<noteq> lr_checksum rec then Some (False, ary1, st1)
                    else read_records_stream salt st1 recs ary1)))"

definition read_logpack_data ::
  "in_stream \<Rightarrow> walb_logpack_header \<Rightarrow> u32 \<Rightarrow> sector_data_array \<Rightarrow> (bool \<times> sector_data_array \<times> in_stream) option" where
  "read_logpack_data st logh salt sect_ary =
     (if unat (lh_total_io_size logh) > sa_size sect_ary then Some (False, sect_ary, st)
      else if unat (lh_n_records logh) > length (lh_record logh) then None
      else read_records_stream salt st (used_records logh) sect_ary)"

section \<open>The data device\<close>

fun redo_records_tool :: "open_dev \<Rightarrow> walb_log_record list \<Rightarrow> sector_data_array \<Rightarrow> (bool \<times> open_dev) option" where
  "redo_records_tool dev [] ary = Some (True, dev)"
| "redo_records_tool dev (rec # recs) ary =
     (if test_bit_u32 LOG_RECORD_PADDING (lr_flags rec) then redo_records_tool dev recs ary
      else
        (let off_lb = lr_offset rec;
             idx_lb = ucast (addr_lb (word_of_nat (sa_sector_size ary)) (ucast (lr_lsid_local rec) - 1)) :: u32;
             n_lb = lr_io_size rec in
         if test_bit_u32 LOG_RECORD_DISCARD (lr_flags rec) then redo_records_tool dev recs ary
         else case sector_array_pwrite_lb dev off_lb ary idx_lb n_lb of
           None \<Rightarrow> None
         | Some (ok, dev1) \<Rightarrow> if \<not> ok then Some (False, dev1) else redo_records_tool dev1 recs ary))"

definition tool_redo_logpack :: "open_dev \<Rightarrow> walb_logpack_header \<Rightarrow> sector_data_array \<Rightarrow> (bool \<times> open_dev) option" where
  "tool_redo_logpack dev logh sect_ary =
     (if unat (lh_n_records logh) > length (lh_record logh) then None
      else redo_records_tool dev (used_records logh) sect_ary)"

section \<open>Other operations on headers\<close>

definition end_header :: "u32 \<Rightarrow> u32 \<Rightarrow> walb_logpack_header" where
  "end_header pbs salt =
     logpack_header_seal ((logpack_header_of_bytes (replicate (unat pbs) 0))\<lparr>lh_sector_type := SECTOR_TYPE_LOGPACK,
       lh_n_records := 0, lh_logpack_lsid := - 1\<rparr>) pbs salt"

definition write_end_logpack_header :: "bool \<times> u8 list option \<Rightarrow> out_stream \<Rightarrow> u32 \<Rightarrow> u32 \<Rightarrow> bool \<times> out_stream" where
  "write_end_logpack_header a st pbs salt =
     (case sector_alloc (unat pbs) (fst a) (snd a) of
        None \<Rightarrow> (False, st)
      | Some sect \<Rightarrow> write_data (logpack_header_bytes (end_header pbs salt)) (unat pbs) st)"

definition write_invalid_logpack_header ::
  "bool \<times> u8 list option \<Rightarrow> open_dev \<Rightarrow> sector_data \<Rightarrow> u64 \<Rightarrow> bool \<times> open_dev" where
  "write_invalid_logpack_header a dev super_sect lsid =
     (let super = get_super_sector super_sect; off = get_offset_of_lsid_2 super lsid in
      case sector_alloc_zero (unat (ss_physical_bs super)) (fst a) (snd a) of
        None \<Rightarrow> (False, dev)
      | Some sect \<Rightarrow> dev_sector_write dev off sect)"

text \<open>The tool's own copy of the truncation in \<^verbatim>\<open>redo.c\<close>.\<close>

definition tool_shrink_logpack_header :: "walb_logpack_header \<Rightarrow> nat \<Rightarrow> u32 \<Rightarrow> u32 \<Rightarrow> walb_logpack_header" where
  "tool_shrink_logpack_header logh invalid_idx pbs salt =
     (let n = unat (lh_n_records logh);
          logh1 = logh\<lparr>lh_record := map (\<lambda>(i, rec). if invalid_idx \<le> i \<and> i < n then log_record_init rec else rec)
                    (enumerate 0 (lh_record logh)), lh_n_records := of_nat invalid_idx\<rparr>;
          (total, pad) = foldl (\<lambda>(t, p) rec.
             (if \<not> test_bit_u32 LOG_RECORD_DISCARD (lr_flags rec) then t + ucast (capacity_pb pbs (ucast (lr_io_size rec))) else t,
              if test_bit_u32 LOG_RECORD_PADDING (lr_flags rec) then p + 1 else p))
            (0, 0) (take invalid_idx (lh_record logh1));
          logh2 = logh1\<lparr>lh_total_io_size := total, lh_n_padding := pad, lh_checksum := 0\<rparr> in
      logh2\<lparr>lh_checksum := checksum (logpack_header_bytes logh2) (unat pbs) salt\<rparr>)"

definition get_padding_size_in_logpack_header :: "walb_logpack_header \<Rightarrow> u32 \<Rightarrow> u32" where
  "get_padding_size_in_logpack_header logh pbs =
     foldl (\<lambda>s rec. if test_bit_u32 LOG_RECORD_PADDING (lr_flags rec) then s + ucast (capacity_pb pbs (ucast (lr_io_size rec))) else s)
       0 (used_records logh)"

section \<open>The header of a log stream\<close>

definition WALBLOG_HEADER_SIZE :: nat where "WALBLOG_HEADER_SIZE = 4096"
definition SECTOR_TYPE_WALBLOG_HEADER :: u16 where "SECTOR_TYPE_WALBLOG_HEADER = 4"

record walblog_header =
  wh_sector_type :: u16
  wh_version :: u16
  wh_header_size :: u16
  wh_reserved1 :: u16
  wh_checksum :: u32
  wh_log_checksum_salt :: u32
  wh_logical_bs :: u32
  wh_physical_bs :: u32
  wh_uuid :: "u8 list"
  wh_begin_lsid :: u64
  wh_end_lsid :: u64

definition wlog_header_bytes :: "walblog_header \<Rightarrow> u8 list" where
  "wlog_header_bytes wh =
     le_bytes 2 (wh_sector_type wh) @ le_bytes 2 (wh_version wh) @ le_bytes 2 (wh_header_size wh) @ le_bytes 2 (wh_reserved1 wh) @
     le_bytes 4 (wh_checksum wh) @ le_bytes 4 (wh_log_checksum_salt wh) @ le_bytes 4 (wh_logical_bs wh) @
     le_bytes 4 (wh_physical_bs wh) @ wh_uuid wh @ le_bytes 8 (wh_begin_lsid wh) @ le_bytes 8 (wh_end_lsid wh)"

definition wlog_header_of_bytes :: "u8 list \<Rightarrow> walblog_header" where
  "wlog_header_of_bytes b =
     \<lparr>wh_sector_type = le_word (take 2 b), wh_version = le_word (take 2 (drop 2 b)), wh_header_size = le_word (take 2 (drop 4 b)),
      wh_reserved1 = le_word (take 2 (drop 6 b)), wh_checksum = le_word (take 4 (drop 8 b)),
      wh_log_checksum_salt = le_word (take 4 (drop 12 b)), wh_logical_bs = le_word (take 4 (drop 16 b)),
      wh_physical_bs = le_word (take 4 (drop 20 b)), wh_uuid = take 16 (drop 24 b),
      wh_begin_lsid = le_word (take 8 (drop 40 b)), wh_end_lsid = le_word (take 8 (drop 48 b))\<rparr>"

text \<open>The check reads the whole buffer of \<^verbatim>\<open>WALBLOG_HEADER_SIZE\<close> bytes.\<close>

definition is_valid_wlog_header :: "u8 list \<Rightarrow> bool" where
  "is_valid_wlog_header buf =
     (let wh = wlog_header_of_bytes buf in
      checksum buf WALBLOG_HEADER_SIZE 0 = 0 \<and> wh_sector_type wh = SECTOR_TYPE_WALBLOG_HEADER \<and>
      wh_version wh = WALB_LOG_VERSION \<and> \<not> wh_end_lsid wh \<le> wh_begin_lsid wh \<and>
      wh_logical_bs wh = LOGICAL_BLOCK_SIZE \<and> is_valid_pbs (wh_physical_bs wh))"


section \<open>The data of a logpack\<close>

text \<open>
  The data of the records one after the other, each in whole physical blocks: the checksums
  are right, and the data lies where the log device keeps the records.
\<close>

fun recs_data :: "u32 \<Rightarrow> u32 \<Rightarrow> walb_log_record list \<Rightarrow> u8 list \<Rightarrow> bool" where
  "recs_data pbs salt [] d \<longleftrightarrow> d = []"
| "recs_data pbs salt (r # rs) d \<longleftrightarrow>
     rec_pb pbs r * unat pbs \<le> length d \<and>
     (rec_normal r \<longrightarrow> lr_checksum r = checksum d (512 * unat (lr_io_size r)) salt) \<and>
     recs_data pbs salt rs (drop (rec_pb pbs r * unat pbs) d)"

fun recs_on_dev :: "walb_super_sector \<Rightarrow> u8 list \<Rightarrow> walb_log_record list \<Rightarrow> u8 list \<Rightarrow> bool" where
  "recs_on_dev super bytes [] d \<longleftrightarrow> True"
| "recs_on_dev super bytes (r # rs) d \<longleftrightarrow>
     (let pbs = ss_physical_bs super; off = unat (get_offset_of_lsid_2 super (lr_lsid r)) * unat pbs;
          n = rec_pb pbs r * unat pbs in
      (\<not> rec_discard r \<longrightarrow> off + n \<le> length bytes \<and> take n d = take n (drop off bytes)) \<and>
      recs_on_dev super bytes rs (drop n d))"

text \<open>The writes of the records to the data device.\<close>

fun replay_bytes :: "u32 \<Rightarrow> walb_log_record list \<Rightarrow> u8 list \<Rightarrow> u8 list \<Rightarrow> u8 list" where
  "replay_bytes pbs [] d dd = dd"
| "replay_bytes pbs (r # rs) d dd =
     replay_bytes pbs rs (drop (rec_pb pbs r * unat pbs) d)
       (if rec_normal r then overwrite (unat (lr_offset r) * 512) (take (512 * unat (lr_io_size r)) d) dd else dd)"

text \<open>Every write lies inside of a device of the given size.\<close>

definition recs_fit :: "nat \<Rightarrow> walb_log_record list \<Rightarrow> bool" where
  "recs_fit len recs \<longleftrightarrow> (\<forall>r \<in> set recs. rec_normal r \<longrightarrow> (unat (lr_offset r) + unat (lr_io_size r)) * 512 \<le> len)"

lemma recs_data_length: "recs_data pbs salt rs d \<Longrightarrow> length d = recs_pb pbs rs * unat pbs"
  by (induction rs arbitrary: d) (fastforce simp: add_mult_distrib)+

lemma replay_bytes_length: "recs_fit (length dd) rs \<Longrightarrow> length (replay_bytes pbs rs d dd) = length dd"
  by (induction rs arbitrary: d dd) (auto simp: recs_fit_def)

lemma checksum_prefix:
  assumes "4 dvd n" "n \<le> length xs" "take n xs = take n ys" "n \<le> length ys"
  shows "checksum xs n salt = checksum ys n salt"
  using assms by (simp add: checksum_word_sum)

text \<open>Sizes of one record that is not a discard.\<close>

lemma rec_sizes:
  assumes "is_valid_pbs pbs" "unat pbs \<le> 4096" "is_valid_log_record r" "\<not> rec_discard r"
  shows "unat (ucast (capacity_pb pbs (ucast (lr_io_size r))) :: u32) = rec_pb pbs r"
    "unat (lr_io_size r * LOGICAL_BLOCK_SIZE) = 512 * unat (lr_io_size r)"
    "512 * unat (lr_io_size r) \<le> rec_pb pbs r * unat pbs" "unat (lr_io_size r) \<le> 65535"
proof -
  show n: "unat (lr_io_size r) \<le> 65535"
    using assms(3,4) by (simp add: is_valid_log_record_def rec_discard_def word_le_nat_alt unat_WALB_MAX_NORMAL_IO_SECTORS)
  then show "unat (lr_io_size r * LOGICAL_BLOCK_SIZE) = 512 * unat (lr_io_size r)" by (simp add: unat_mult_nowrap)
  show "unat (ucast (capacity_pb pbs (ucast (lr_io_size r))) :: u32) = rec_pb pbs r"
    using assms(4) unat_redo_pb [OF assms(1)] by (simp add: rec_pb_def)
  have "unat (lr_io_size r) * 512 \<le> rec_pb pbs r * unat (n_lb_in_pb pbs) * 512"
    using rec_pb_covers [OF assms(1,4)] by simp
  then show "512 * unat (lr_io_size r) \<le> rec_pb pbs r * unat pbs"
    using n_lb_in_pb_bytes [OF assms(1)] by (simp add: mult.assoc)
qed

text \<open>The checksum of a record whose data has been stored in the array.\<close>

lemma array_checksum:
  assumes pbs: "is_valid_pbs pbs" and wf: "sector_array_wf ary" "sa_sector_size ary = unat pbs"
    and f: "flat ary = overwrite (k * unat pbs) d f0" "length f0 = sa_size ary * unat pbs" "length d = n * unat pbs" "k + n \<le> sa_size ary"
    and s: "512 * s \<le> length d"
  shows "sector_array_checksum ary (k * unat pbs) (512 * s) salt = Some (checksum d (512 * s) salt)"
proof -
  have "4 dvd (512 :: nat)" by simp
  then have 4: "4 dvd unat pbs" using pbs by (meson dvd_trans is_valid_pbs_unat)
  have l: "k * unat pbs + length d \<le> length f0" using mult_le_mono1 [OF f(4), of "unat pbs"] f(2,3) by (simp add: add_mult_distrib)
  have c: "sector_array_checksum ary (k * unat pbs) (512 * s) salt = Some (checksum (drop (k * unat pbs) (flat ary)) (512 * s) salt)"
    using 4 l s f(2,3) wf by (intro sector_array_checksum_flat) auto
  have "drop (k * unat pbs) (flat ary) = d @ drop (k * unat pbs + length d) f0" unfolding f(1) using l by (simp add: overwrite_def)
  then show ?thesis unfolding c using s by (simp add: checksum_word_sum)
qed


lemma stored_checksum:
  assumes pbs: "is_valid_pbs pbs" "unat pbs \<le> 4096" and r: "is_valid_log_record r" "\<not> rec_discard r" "\<not> rec_padding r"
    and d: "recs_data pbs salt (r # rs) d" and wf: "sector_array_wf ary" "sa_sector_size ary = unat pbs"
    and f: "flat ary = overwrite (k * unat pbs) (take (rec_pb pbs r * unat pbs) d) f0" "length f0 = sa_size ary * unat pbs"
      "k + rec_pb pbs r \<le> sa_size ary"
  shows "sector_array_checksum ary (k * unat pbs) (512 * unat (lr_io_size r)) salt = Some (lr_checksum r)"
proof -
  let ?d1 = "take (rec_pb pbs r * unat pbs) d"
  note sz = rec_sizes [OF pbs r(1,2)]
  have l: "rec_pb pbs r * unat pbs \<le> length d" "length ?d1 = rec_pb pbs r * unat pbs" using d by simp_all
  have "rec_normal r" using r by (simp add: rec_normal_def)
  then have c: "lr_checksum r = checksum d (512 * unat (lr_io_size r)) salt" using d by simp
  have "checksum d (512 * unat (lr_io_size r)) salt = checksum ?d1 (512 * unat (lr_io_size r)) salt"
    using sz(3) l by (intro checksum_prefix) (auto simp: min_def)
  moreover have "sector_array_checksum ary (k * unat pbs) (512 * unat (lr_io_size r)) salt =
      Some (checksum ?d1 (512 * unat (lr_io_size r)) salt)"
    using sz(3) l(2) by (intro array_checksum [OF pbs(1) wf f(1,2) l(2) f(3)]) simp
  ultimately show ?thesis using c by simp
qed

lemma rec_ok_pos: "recs_ok pbs rbs p l (r # rs) \<Longrightarrow> is_valid_log_record r \<and> unat (lr_lsid_local r) = l \<and> 0 < l"
  by (auto simp: rec_ok_def is_valid_log_record_def word_less_nat_alt)

text \<open>The bytes a sequence of records leaves in the array.\<close>

lemma read_records_wldev_ok:
  assumes pbs: "pbs = ss_physical_bs super" "is_valid_pbs pbs" "unat pbs \<le> 4096" "ss_logical_bs super = LOGICAL_BLOCK_SIZE"
    and "recs_ok pbs rbs p l rs" "recs_data pbs salt rs d" "recs_on_dev super (od_bytes dev) rs d"
    and "sector_array_wf ary" "sa_sector_size ary = unat pbs" "k + recs_pb pbs rs \<le> sa_size ary"
    and "working (od_results dev)" "length (od_bytes dev) < 2 ^ 64"
  shows "\<exists>ary' dev'. read_records_wldev super salt dev i rs k ary = Some (i + length rs, ary', dev') \<and> sector_array_wf ary' \<and>
    sa_size ary' = sa_size ary \<and> sa_sector_size ary' = unat pbs \<and> flat ary' = overwrite (k * unat pbs) d (flat ary) \<and>
    od_bytes dev' = od_bytes dev \<and> working (od_results dev')"
  using assms(5-)
proof (induction rs arbitrary: l d dev ary k i)
  case Nil
  then show ?case by simp
next
  case (Cons r rs)
  let ?n = "rec_pb pbs r" and ?b = "od_bytes dev" and ?off = "get_offset_of_lsid_2 super (lr_lsid r)"
  have ok: "is_valid_log_record r" "recs_ok pbs rbs p (l + ?n) rs" using Cons.prems(1) rec_ok_pos by auto
  let ?d1 = "take (?n * unat pbs) d" and ?d2 = "drop (?n * unat pbs) d"
  have d: "?n * unat pbs \<le> length d" "recs_data pbs salt rs ?d2" "recs_on_dev super ?b rs ?d2"
    using Cons.prems(2,3) pbs(1) by (simp_all add: Let_def)
  show ?case
  proof (cases "rec_discard r")
    case True
    then have "?n = 0" by (simp add: rec_pb_def)
    then show ?thesis
      using Cons.IH [OF ok(2) d(2,3) Cons.prems(4,5) _ Cons.prems(7,8), of k "i + 1"] Cons.prems(6) True by (simp add: rec_discard_def)
  next
    case nd: False
    note sz = rec_sizes [OF pbs(2,3) ok(1) nd]
    have on: "unat ?off * unat pbs + ?n * unat pbs \<le> length ?b" "?d1 = take (?n * unat pbs) (drop (unat ?off * unat pbs) ?b)"
      using Cons.prems(3) nd pbs(1) by (simp_all add: Let_def)
    from on(1) have "(unat ?off + ?n) * sa_sector_size ary \<le> length ?b" using Cons.prems(5) by (simp add: add_mult_distrib)
    from pread_sectors_works [OF Cons.prems(4,7) _ this Cons.prems(8), of k] Cons.prems(5,6) obtain ary1 dev1 where
      r1: "sector_array_pread dev ?off ary k ?n = Some (True, ary1, dev1)" "sector_array_wf ary1" "sa_size ary1 = sa_size ary"
        "sa_sector_size ary1 = unat pbs" "flat ary1 = overwrite (k * unat pbs) ?d1 (flat ary)" "od_bytes dev1 = ?b" "working (od_results dev1)"
      unfolding on(2) by (auto simp: sector_array_pread_def)
    have l1: "length ?d1 = ?n * unat pbs" using d(1) by simp
    have fl: "length (flat ary) = sa_size ary * unat pbs" using length_flat [OF Cons.prems(4)] Cons.prems(5) by simp
    have csum: "sector_array_checksum ary1 (k * unat pbs) (512 * unat (lr_io_size r)) salt = Some (lr_checksum r)" if n: "\<not> rec_padding r"
      using Cons.prems(6) fl r1(3) by (intro stored_checksum [OF pbs(2,3) ok(1) nd n Cons.prems(2) r1(2,4,5)]) simp_all
    have next_rec: "read_records_wldev super salt dev i (r # rs) k ary = read_records_wldev super salt dev1 (i + 1) rs (k + ?n) ary1"
      using nd r1(1) csum sz(1,2) pbs(1,4) by (simp add: rec_discard_def rec_padding_def Let_def)
    have "k + ?n + recs_pb pbs rs \<le> sa_size ary1" using Cons.prems(6) r1(3) by simp
    from Cons.IH [OF ok(2) d(2) _ r1(2,4) this r1(7), of "i + 1"] d(3) r1(6) Cons.prems(8) obtain ary' dev' where
      r2: "read_records_wldev super salt dev1 (i + 1) rs (k + ?n) ary1 = Some (i + 1 + length rs, ary', dev')" "sector_array_wf ary'"
        "sa_size ary' = sa_size ary1" "sa_sector_size ary' = unat pbs" "flat ary' = overwrite ((k + ?n) * unat pbs) ?d2 (flat ary1)"
        "od_bytes dev' = ?b" "working (od_results dev')" by auto
    have tot: "k * unat pbs + length ?d1 + length ?d2 \<le> length (flat ary)"
      using mult_le_mono1 [OF Cons.prems(6), of "unat pbs"] recs_data_length [OF Cons.prems(2)] fl d(1) by (simp add: add_mult_distrib)
    have "flat ary' = overwrite (k * unat pbs + length ?d1) ?d2 (overwrite (k * unat pbs) ?d1 (flat ary))"
      unfolding r2(5) r1(5) l1 by (simp add: add_mult_distrib)
    then have "flat ary' = overwrite (k * unat pbs) d (flat ary)" using overwrite_append [OF tot] by simp
    then show ?thesis using next_rec r1(3) r2 by simp
  qed
qed

lemma read_records_stream_ok:
  assumes pbs: "is_valid_pbs pbs" "unat pbs \<le> 4096"
    and "recs_ok pbs rbs p l rs" "recs_data pbs salt rs d" "is_bytes st = d @ rest"
    and "sector_array_wf ary" "sa_sector_size ary = unat pbs" "l + recs_pb pbs rs \<le> sa_size ary + 1" "0 < l" "l < 65536" "working (is_results st)"
  shows "\<exists>ary' st'. read_records_stream salt st rs ary = Some (True, ary', st') \<and> sector_array_wf ary' \<and>
    sa_size ary' = sa_size ary \<and> sa_sector_size ary' = unat pbs \<and> flat ary' = overwrite ((l - 1) * unat pbs) d (flat ary) \<and>
    is_bytes st' = rest \<and> working (is_results st')"
  using assms(3-)
proof (induction rs arbitrary: l d st ary)
  case Nil
  then show ?case by simp
next
  case (Cons r rs)
  let ?n = "rec_pb pbs r"
  have ok: "is_valid_log_record r" "unat (lr_lsid_local r) = l" "recs_ok pbs rbs p (l + ?n) rs" using Cons.prems(1) rec_ok_pos by auto
  let ?d1 = "take (?n * unat pbs) d" and ?d2 = "drop (?n * unat pbs) d"
  have d: "?n * unat pbs \<le> length d" "recs_data pbs salt rs ?d2" using Cons.prems(2) by simp_all
  show ?case
  proof (cases "rec_discard r")
    case True
    then have "?n = 0" by (simp add: rec_pb_def)
    then show ?thesis
      using Cons.IH [OF ok(3) d(2) _ Cons.prems(4,5) _ _ _ Cons.prems(9)] Cons.prems(3,6-8) True by (simp add: rec_discard_def)
  next
    case nd: False
    note sz = rec_sizes [OF pbs ok(1) nd]
    have w: "word_of_nat (sa_sector_size ary) = pbs" using Cons.prems(5) by simp
    have i: "unat (ucast (lr_lsid_local r) - 1 :: u32) = l - 1"
      using ok(2) Cons.prems(7) by (subst unat_sub_nowrap) (simp_all add: word_le_nat_alt)
    have "(l - 1) * unat pbs \<le> 65535 * 4096" using Cons.prems(8) pbs(2) by (intro mult_le_mono) simp_all
    then have ib: "unat ((ucast (lr_lsid_local r) - 1) * pbs) = (l - 1) * unat pbs" using i by (subst unat_mult_nowrap) simp_all
    have l1: "length ?d1 = ?n * unat pbs" using d(1) by simp
    have "is_bytes st = ?d1 @ (?d2 @ rest)" using Cons.prems(3) by simp
    moreover have "l - 1 + ?n \<le> sa_size ary" using Cons.prems(6,7) by simp
    ultimately obtain ary1 st1 where
      r1: "sector_array_read st ary (l - 1) ?n = Some (True, ary1, st1)" "sector_array_wf ary1" "sa_size ary1 = sa_size ary"
        "sa_sector_size ary1 = unat pbs" "flat ary1 = overwrite ((l - 1) * unat pbs) ?d1 (flat ary)" "is_bytes st1 = ?d2 @ rest" "working (is_results st1)"
      using read_sectors_works [OF Cons.prems(4,9), of "l - 1" ?n ?d1 "?d2 @ rest"] Cons.prems(5) l1 by (auto simp: sector_array_read_def)
    have fl: "length (flat ary) = sa_size ary * unat pbs" using length_flat [OF Cons.prems(4)] Cons.prems(5) by simp
    have csum: "sector_array_checksum ary1 ((l - 1) * unat pbs) (512 * unat (lr_io_size r)) salt = Some (lr_checksum r)" if n: "\<not> rec_padding r"
      using Cons.prems(6,7) fl r1(3) by (intro stored_checksum [OF pbs ok(1) nd n Cons.prems(2) r1(2,4,5)]) simp_all
    have next_rec: "read_records_stream salt st (r # rs) ary = read_records_stream salt st1 rs ary1"
      using nd r1(1) csum sz(1,2) w i ib by (simp add: rec_discard_def rec_padding_def Let_def)
    have "l - 1 + recs_pb pbs (r # rs) \<le> sa_size ary" using Cons.prems(6,7) by simp
    from mult_le_mono1 [OF this, of "unat pbs"] have tot: "(l - 1) * unat pbs + length ?d1 + length ?d2 \<le> length (flat ary)"
      using recs_data_length [OF Cons.prems(2)] fl d(1) by (simp add: add_mult_distrib)
    show ?thesis
    proof (cases "rs = []")
      case True
      then have "?d2 = []" using d(2) by simp
      then show ?thesis using next_rec r1 True by auto
    next
      case False
      then have "l + ?n < 65536" using rec_ok_pos [of pbs rbs p "l + ?n" "hd rs" "tl rs"] ok(3) unat_u16_lt [of "lr_lsid_local (hd rs)"] by simp
      from Cons.IH [OF ok(3) d(2) r1(6,2,4) _ _ this r1(7)] Cons.prems(6) r1(3) Cons.prems(7) obtain ary' st' where
        r2: "read_records_stream salt st1 rs ary1 = Some (True, ary', st')" "sector_array_wf ary'"
          "sa_size ary' = sa_size ary1" "sa_sector_size ary' = unat pbs" "flat ary' = overwrite ((l + ?n - 1) * unat pbs) ?d2 (flat ary1)"
          "is_bytes st' = rest" "working (is_results st')" by auto
      have "(l + ?n - 1) * unat pbs = (l - 1) * unat pbs + length ?d1"
        unfolding l1 add_mult_distrib [symmetric] using Cons.prems(7) by simp
      then have "flat ary' = overwrite ((l - 1) * unat pbs) d (flat ary)" unfolding r2(5) r1(5) using overwrite_append [OF tot] by simp
      then show ?thesis using next_rec r1(3) r2 by simp
    qed
  qed
qed


lemma redo_records_tool_ok:
  assumes pbs: "is_valid_pbs pbs" "unat pbs \<le> 4096"
    and "recs_ok pbs rbs p l rs" "recs_data pbs salt rs d" "recs_fit (length (od_bytes dev)) rs"
    and ary: "sector_array_wf ary" "sa_sector_size ary = unat pbs"
    and "drop ((l - 1) * unat pbs) (flat ary) = d @ rest" "l < 65536"
    and "working (od_results dev)" "length (od_bytes dev) < 2 ^ 64"
  shows "\<exists>dev'. redo_records_tool dev rs ary = Some (True, dev') \<and> od_bytes dev' = replay_bytes pbs rs d (od_bytes dev) \<and>
    working (od_results dev')"
  using assms(3-5,8-)
proof (induction rs arbitrary: l d dev)
  case (Cons r rs)
  let ?n = "rec_pb pbs r" and ?d2 = "drop (rec_pb pbs r * unat pbs) d"
  have ok: "is_valid_log_record r" "unat (lr_lsid_local r) = l" "0 < l" "recs_ok pbs rbs p (l + ?n) rs" using Cons.prems(1) rec_ok_pos by auto
  have d: "?n * unat pbs \<le> length d" "recs_data pbs salt rs ?d2" using Cons.prems(2) by simp_all
  have fit: "recs_fit (length (od_bytes dev)) rs" using Cons.prems(3) by (simp add: recs_fit_def)
  have step: "(l + ?n - 1) * unat pbs = (l - 1) * unat pbs + ?n * unat pbs" using ok(3) by (cases l) (simp_all add: add_mult_distrib)
  have rest: "drop ((l + ?n - 1) * unat pbs) (flat ary) = ?d2 @ rest"
    unfolding step using arg_cong [OF Cons.prems(4), of "drop (?n * unat pbs)"] d(1) by (simp add: add.commute)
  have l': "l + ?n < 65536" if "rs \<noteq> []"
    using that rec_ok_pos [of pbs rbs p "l + ?n" "hd rs" "tl rs"] ok(4) unat_u16_lt [of "lr_lsid_local (hd rs)"] by simp
  have IH: "\<exists>dev'. redo_records_tool dev1 rs ary = Some (True, dev') \<and> od_bytes dev' = replay_bytes pbs rs ?d2 (od_bytes dev1) \<and>
      working (od_results dev')" if "working (od_results dev1)" "length (od_bytes dev1) = length (od_bytes dev)" for dev1
  proof (cases "rs = []")
    case False
    then show ?thesis using Cons.IH [OF ok(4) d(2) _ rest l' that(1)] fit that(2) Cons.prems(7) by simp
  qed (use that in simp)
  show ?case
  proof (cases "rec_normal r")
    case False
    then have "redo_records_tool dev (r # rs) ary = redo_records_tool dev rs ary"
      by (auto simp: rec_normal_def rec_discard_def rec_padding_def Let_def)
    then show ?thesis using IH [OF Cons.prems(6) refl] False by (simp del: redo_records_tool.simps)
  next
    case True
    then have nd: "\<not> rec_discard r" "\<not> rec_padding r" by (simp_all add: rec_normal_def)
    note sz = rec_sizes [OF pbs ok(1) nd(1)]
    let ?i = "ucast (addr_lb (word_of_nat (sa_sector_size ary)) (ucast (lr_lsid_local r) - 1)) :: u32" and ?m = "lr_io_size r"
    have w: "word_of_nat (sa_sector_size ary) = pbs" using ary(2) by simp
    have k: "unat (n_lb_in_pb pbs) * 512 = unat pbs" "unat (n_lb_in_pb pbs) \<le> 8" using n_lb_in_pb_bytes [OF pbs(1)] pbs(2) by simp_all
    have "unat (ucast (lr_lsid_local r) - 1 :: u64) = l - 1"
      using ok(2,3) by (subst unat_sub_nowrap) (simp_all add: word_le_nat_alt)
    moreover have small: "(l - 1) * unat (n_lb_in_pb pbs) \<le> 65535 * 8" using Cons.prems(5) k(2) by (intro mult_le_mono) simp_all
    ultimately have "unat (addr_lb pbs (ucast (lr_lsid_local r) - 1)) = (l - 1) * unat (n_lb_in_pb pbs)" by (subst unat_addr_lb) simp_all
    then have i: "unat ?i = (l - 1) * unat (n_lb_in_pb pbs)" using small unfolding w by (simp add: unsigned_ucast_eq take_bit_nat_eq_self)
    have ib: "unat ?i * 512 = (l - 1) * unat pbs" unfolding i k(1) [symmetric] by simp
    have dl: "length d = recs_pb pbs (r # rs) * unat pbs" using recs_data_length [OF Cons.prems(2)] .
    have "length (d @ rest) \<le> length (flat ary) - (l - 1) * unat pbs" unfolding Cons.prems(4) [symmetric] by simp
    moreover have "0 < ?n * unat pbs" using Cons.prems(1) nd pbs(1) by (auto simp: rec_ok_def is_valid_pbs_unat)
    then have "0 < length d" using d(1) by linarith
    ultimately have "(l - 1) * unat pbs + length d \<le> length (flat ary)" unfolding length_append by linarith
    then have fits: "(unat ?i + unat ?m) * 512 \<le> sa_size ary * sa_sector_size ary"
      using ib d(1) sz(3) length_flat [OF ary(1)] by simp
    have small32: "unat ?i + unat ?m < 2 ^ 32" using i small sz(4) by simp
    have on: "(unat (lr_offset r) + unat ?m) * 512 \<le> length (od_bytes dev)" using Cons.prems(3) True by (simp add: recs_fit_def)
    obtain dev1 where d1: "sector_array_pwrite_lb dev (lr_offset r) ary ?i ?m = Some (True, dev1)" "working (od_results dev1)"
      "od_bytes dev1 = overwrite (unat (lr_offset r) * 512) (take (unat ?m * 512) (drop (unat ?i * 512) (flat ary))) (od_bytes dev)"
      using sector_array_pwrite_lb_works [OF ary pbs(1) Cons.prems(6) fits small32 on Cons.prems(7)] by blast
    have tk: "take (unat ?m * 512) (drop (unat ?i * 512) (flat ary)) = take (512 * unat ?m) d"
      unfolding ib Cons.prems(4) using sz(3) d(1) by (simp add: mult.commute)
    have b1: "od_bytes dev1 = overwrite (unat (lr_offset r) * 512) (take (512 * unat ?m) d) (od_bytes dev)" using d1(3) tk by simp
    have "length (od_bytes dev1) = length (od_bytes dev)" unfolding b1 using on by simp
    from IH [OF d1(2) this] obtain dev' where "redo_records_tool dev1 rs ary = Some (True, dev')"
      "od_bytes dev' = replay_bytes pbs rs ?d2 (od_bytes dev1)" "working (od_results dev')" by blast
    then show ?thesis using d1(1) nd True b1 by (simp add: rec_discard_def rec_padding_def Let_def)
  qed
qed simp


section \<open>Truncation\<close>

lemma resum_records_foldl:
  "foldl (\<lambda>(t, p) rec.
     (if \<not> test_bit_u32 LOG_RECORD_DISCARD (lr_flags rec) then t + ucast (capacity_pb pbs (ucast (lr_io_size rec))) else t,
      if test_bit_u32 LOG_RECORD_PADDING (lr_flags rec) then p + 1 else p)) acc rs = resum_records pbs rs acc"
  by (induction rs arbitrary: acc) (auto simp: case_prod_beta intro: prod.expand)

lemma enumerate_init:
  assumes "i \<le> n" "n \<le> length rs"
  shows "map (\<lambda>(j, r). if i \<le> j \<and> j < n then f r else r) (enumerate 0 rs) = take i rs @ map f (drop i (take n rs)) @ drop n rs"
  using assms by (intro nth_equalityI) (auto simp: nth_append nth_enumerate_eq min_def)

text \<open>
  The control tool truncates a logpack header to the records before an invalid one exactly as
  the driver does when it replays the log.
\<close>

theorem tool_shrink_agrees:
  assumes "invalid_idx \<le> unat (lh_n_records logh)" "unat (lh_n_records logh) \<le> length (lh_record logh)"
  shows "tool_shrink_logpack_header logh invalid_idx pbs salt = shrink_logpack_header pbs salt invalid_idx logh"
  using enumerate_init [OF assms, of log_record_init]
  by (simp add: tool_shrink_logpack_header_def shrink_logpack_header_def logpack_header_seal_def Let_def resum_records_foldl
      case_prod_beta)

theorem tool_shrink_agrees_witness:
  "tool_shrink_logpack_header redo_demo_header 1 512 77 = shrink_logpack_header 512 77 1 redo_demo_header"
  by (rule tool_shrink_agrees) (simp_all add: redo_demo_header_def redo_demo_raw_def redo_demo_recs_def logpack_header_seal_def Let_def demo_header_def)

end
