(* ===== verification/Walb_Wdev_Util.thy ===== *)
theory Walb_Wdev_Util
  imports Walb_Device
begin

text \<open>
  The utilities of \<^verbatim>\<open>module/wdev_util.c\<close> (all but the freezing of a device, which is in its
  own theory) and the lsid bookkeeping of \<^verbatim>\<open>module/io.c\<close>.
\<close>

section \<open>Logpack checks and lsids\<close>

definition get_logpack_header :: "sector_data \<Rightarrow> walb_logpack_header" where
  "get_logpack_header sect = logpack_header_of_bytes (sector_bytes sect)"

definition walb_check_lsid_valid ::
    "'d block_ops \<Rightarrow> sync_alloc \<Rightarrow> 'd walb_dev \<Rightarrow> u64 \<Rightarrow> bool \<times> 'd walb_dev" where
  "walb_check_lsid_valid ops alloc wdev lsid =
     (case sector_alloc (unat (wd_physical_bs wdev)) (sy_malloc alloc) (sy_buf alloc) of
        None \<Rightarrow> (False, wdev)
      | Some sect \<Rightarrow>
          (let off = get_offset_of_lsid_2 (get_super_sector (wd_lsuper0 wdev)) lsid;
               (ok, ldev1, sect1) = sector_io ops (sy_bio alloc) REQ_OP_READ False False (wd_ldev wdev) off sect;
               logh = get_logpack_header sect1 in
           (ok \<and> is_valid_logpack_header_with_checksum logh (ucast (wd_physical_bs wdev)) (wd_log_checksum_salt wdev) \<and>
              lh_logpack_lsid logh = lsid,
            wdev\<lparr>wd_ldev := ldev1\<rparr>)))"

definition get_oldest_lsid :: "'d walb_dev \<Rightarrow> u64" where
  "get_oldest_lsid wdev = oldest (wd_lsids wdev)"

definition get_written_lsid :: "'d walb_dev \<Rightarrow> u64" where
  "get_written_lsid wdev = written (wd_lsids wdev)"

definition get_permanent_lsid :: "'d walb_dev \<Rightarrow> u64" where
  "get_permanent_lsid wdev = permanent (wd_lsids wdev)"

definition get_completed_lsid :: "'d walb_dev \<Rightarrow> u64" where
  "get_completed_lsid wdev = completed (wd_lsids wdev)"

definition walb_get_log_usage :: "'d walb_dev \<Rightarrow> u64" where
  "walb_get_log_usage wdev = latest (wd_lsids wdev) - oldest (wd_lsids wdev)"

definition walb_get_log_capacity :: "'d walb_dev \<Rightarrow> u64" where
  "walb_get_log_capacity wdev = wd_ring_buffer_size wdev"

definition backup_lsid_set :: "'d walb_dev \<Rightarrow> lsid_set" where
  "backup_lsid_set wdev = wd_lsids wdev"

definition restore_lsid_set :: "'d walb_dev \<Rightarrow> lsid_set \<Rightarrow> 'd walb_dev" where
  "restore_lsid_set wdev lsids = wdev\<lparr>wd_lsids := lsids\<rparr>"

definition invalidate_lsid :: "'d block_ops \<Rightarrow> sync_alloc \<Rightarrow> 'd walb_dev \<Rightarrow> u64 \<Rightarrow> bool \<times> 'd walb_dev" where
  "invalidate_lsid ops alloc wdev lsid =
     (case sector_alloc (unat (wd_physical_bs wdev)) (sy_malloc alloc)
             (map_option (\<lambda>_. replicate (unat (wd_physical_bs wdev)) 0) (sy_buf alloc)) of
        None \<Rightarrow> (False, wdev)
      | Some zero_sector \<Rightarrow>
          (let off = get_offset_of_lsid_2 (get_super_sector (wd_lsuper0 wdev)) lsid;
               (ret, ldev1, s1) = sector_io ops (sy_bio alloc) REQ_OP_WRITE False False (wd_ldev wdev) off zero_sector;
               wdev1 = wdev\<lparr>wd_ldev := ldev1\<rparr> in
           (ret, if \<not> ret then set_wdev_flag WALB_STATE_READ_ONLY wdev1 else wdev1)))"

section \<open>Names, geometry and queue limits\<close>

text \<open>\<^verbatim>\<open>sizeof(WALB_DIR_NAME) - 1\<close> is 4 and \<^verbatim>\<open>sizeof("/L") - 1\<close> is 2.\<close>

definition WALB_DEV_NAME_MAX_LEN :: nat where
  "WALB_DEV_NAME_MAX_LEN = DISK_NAME_LEN - 4 - 2 - 1"

fun decimal :: "nat \<Rightarrow> u8 list" where
  "decimal n = (if n < 10 then [word_of_nat (48 + n)] else decimal (n div 10) @ [word_of_nat (48 + n mod 10)])"

declare decimal.simps [simp del]

text \<open>\<^verbatim>\<open>memset\<close> with 0 followed by \<^verbatim>\<open>snprintf\<close> of a C string into the name field.\<close>

definition name_field :: "u8 list \<Rightarrow> u8 list" where
  "name_field cstr =
     (let bs = take (DISK_NAME_LEN - 1) (takeWhile (\<lambda>c. c \<noteq> 0) cstr) in
      bs @ replicate (DISK_NAME_LEN - length bs) 0)"

definition walb_set_name :: "'d walb_dev \<Rightarrow> u32 \<Rightarrow> u8 list option \<Rightarrow> int \<times> 'd walb_dev" where
  "walb_set_name wdev minor name =
     (let super = get_super_sector (wd_lsuper0 wdev);
          dev_name = ss_name super;
          dev_name1 =
            (if (case name of None \<Rightarrow> False | Some nm \<Rightarrow> nm \<noteq> [] \<and> hd nm \<noteq> 0) then name_field (the name)
             else if dev_name ! 0 = 0 then name_field (decimal (unat (minor div 2)))
             else dev_name[DISK_NAME_LEN - 1 := 0]);
          wdev1 = wdev\<lparr>wd_lsuper0 := put_super_sector (super\<lparr>ss_name := dev_name1\<rparr>) (wd_lsuper0 wdev)\<rparr> in
      (if strnlen dev_name1 DISK_NAME_LEN > WALB_DEV_NAME_MAX_LEN then - 1 else 0, wdev1))"

text \<open>The wrapper queue gets a write cache flag and a FUA flag.\<close>

definition walb_decide_flush_support :: "'d block_ops \<Rightarrow> 'd walb_dev \<Rightarrow> 'd walb_dev \<times> bool \<times> bool" where
  "walb_decide_flush_support ops wdev =
     (let lq_flush = is_queue_flush_enabled ops (wd_ldev wdev); lq_fua = is_queue_fua_enabled ops (wd_ldev wdev);
          wdev0 = wdev\<lparr>wd_support_flush := False, wd_support_fua := False\<rparr> in
      if lq_flush then (wdev0\<lparr>wd_support_flush := True, wd_support_fua := lq_fua\<rparr>, True, lq_fua)
      else (wdev0, False, False))"

definition WALB_MAX_DISCARD_IO_SECTORS :: u32 where "WALB_MAX_DISCARD_IO_SECTORS = - 1"

text \<open>Discard granularity, maximal discard sectors and the queue's discard flag.\<close>

definition walb_discard_support :: "'d walb_dev \<Rightarrow> bool \<Rightarrow> 'd walb_dev \<times> u32 \<times> u32 \<times> bool" where
  "walb_discard_support wdev support =
     (wdev\<lparr>wd_support_discard := support\<rparr>,
      if support then (ucast (wd_physical_bs wdev), WALB_MAX_DISCARD_IO_SECTORS, True) else (0, 0, False))"

definition resize_disk :: "u64 \<Rightarrow> u64 \<Rightarrow> bool \<times> u64" where
  "resize_disk old_size new_size = (if old_size = new_size then (True, old_size) else (True, new_size))"

record hd_geometry =
  geo_heads :: u8
  geo_sectors :: u8
  geo_cylinders :: u16
  geo_start :: ulong

definition set_geometry :: "u64 \<Rightarrow> hd_geometry" where
  "set_geometry n_sectors = \<lparr>geo_heads = 4, geo_sectors = 16, geo_cylinders = ucast (drop_bit 6 n_sectors), geo_start = 0\<rparr>"

text \<open>The buffer of a control request, as bytes; its two first 64-bit words are the range.\<close>

definition get_lsid_range_from_ctl :: "u8 list \<Rightarrow> (u64 \<times> u64) option" where
  "get_lsid_range_from_ctl kbuf =
     (if 16 > length kbuf then None
      else
        (let lsid0 = le_word (take 8 kbuf); lsid1 = le_word (take 8 (drop 8 kbuf)) in
         if \<not> is_lsid_range_valid lsid0 lsid1 then None else Some (lsid0, lsid1)))"

definition set_chunk_sectors :: "u32 \<Rightarrow> u32 \<Rightarrow> u32" where
  "set_chunk_sectors pbs io_min = (if pbs < io_min then io_min div LOGICAL_BLOCK_SIZE else 0)"

section \<open>The lsids during IO\<close>

definition update_flush_lsid_if_necessary :: "u64 \<Rightarrow> u64 \<Rightarrow> 'd walb_dev \<Rightarrow> 'd walb_dev" where
  "update_flush_lsid_if_necessary jiffies flush_lsid wdev =
     (if flush (wd_lsids wdev) < flush_lsid
      then wdev\<lparr>wd_lsids := (wd_lsids wdev)\<lparr>flush := flush_lsid\<rparr>,
             wd_iocore := (wd_iocore wdev)\<lparr>ic_log_flush_jiffies :=
               jiffies + ucast (wd_log_flush_interval_jiffies wdev)\<rparr>\<rparr>
      else wdev)"

text \<open>The first critical section of \<^verbatim>\<open>force_flush_ldev\<close>: what the flush will make permanent.\<close>

definition force_flush_begin :: "u64 \<Rightarrow> 'd walb_dev \<Rightarrow> u64 \<times> 'd walb_dev" where
  "force_flush_begin jiffies wdev =
     (let new_permanent_lsid = completed (wd_lsids wdev) in
      (new_permanent_lsid, update_flush_lsid_if_necessary jiffies new_permanent_lsid wdev))"

text \<open>The flush itself, which sets the read-only flag when it fails.\<close>

definition force_flush_issue :: "'d block_ops \<Rightarrow> 'd walb_dev \<Rightarrow> 'd walb_dev" where
  "force_flush_issue ops wdev =
     (if supports_flush_request_bdev ops (wd_ldev wdev) then
        (let (ok, ldev1) = bo_issue_flush ops (wd_ldev wdev); wdev1 = wdev\<lparr>wd_ldev := ldev1\<rparr> in
         if \<not> ok then set_wdev_flag WALB_STATE_READ_ONLY wdev1 else wdev1)
      else wdev)"

text \<open>The second critical section, also that of a flushed logpack header.\<close>

definition update_permanent_lsid :: "u64 \<Rightarrow> 'd walb_dev \<Rightarrow> bool \<times> 'd walb_dev" where
  "update_permanent_lsid new_permanent_lsid wdev =
     (if permanent (wd_lsids wdev) < new_permanent_lsid
      then (is_permanent_log_empty (wd_lsids wdev),
            wdev\<lparr>wd_lsids := (wd_lsids wdev)\<lparr>permanent := new_permanent_lsid\<rparr>\<rparr>)
      else (False, wdev))"

definition force_flush_ldev :: "'d block_ops \<Rightarrow> u64 \<Rightarrow> 'd walb_dev \<Rightarrow> bool \<times> 'd walb_dev" where
  "force_flush_ldev ops jiffies wdev =
     (let (new_permanent_lsid, wdev1) = force_flush_begin jiffies wdev in
      update_permanent_lsid new_permanent_lsid (force_flush_issue ops wdev1))"

text \<open>One round of the loop of \<^verbatim>\<open>wait_for_log_permanent\<close> on a snapshot of the lsids.\<close>

datatype wait_round = Permanent | Retry | Force_flush

definition wait_for_log_permanent_round :: "bool \<Rightarrow> u32 \<Rightarrow> u64 \<Rightarrow> lsid_set \<Rightarrow> wait_round" where
  "wait_for_log_permanent_round before_timeout log_flush_interval_pb lsid lsids =
     (if lsid \<le> permanent lsids then Permanent
      else if lsid > completed lsids then Retry
      else if lsid \<le> flush lsids then Retry
      else if before_timeout \<and> lsid < flush lsids + ucast log_flush_interval_pb then Retry
      else Force_flush)"

section \<open>Facts\<close>

lemma update_flush_fields [simp]:
  "completed (wd_lsids (update_flush_lsid_if_necessary j f w)) = completed (wd_lsids w)"
  "latest (wd_lsids (update_flush_lsid_if_necessary j f w)) = latest (wd_lsids w)"
  "permanent (wd_lsids (update_flush_lsid_if_necessary j f w)) = permanent (wd_lsids w)"
  "flush (wd_lsids (update_flush_lsid_if_necessary j f w)) = max (flush (wd_lsids w)) f"
  "written (wd_lsids (update_flush_lsid_if_necessary j f w)) = written (wd_lsids w)"
  "prev_written (wd_lsids (update_flush_lsid_if_necessary j f w)) = prev_written (wd_lsids w)"
  "oldest (wd_lsids (update_flush_lsid_if_necessary j f w)) = oldest (wd_lsids w)"
  by (auto simp: update_flush_lsid_if_necessary_def max_def)

lemma force_flush_issue_lsids [simp]: "wd_lsids (force_flush_issue ops w) = wd_lsids w"
  by (simp add: force_flush_issue_def Let_def split: prod.splits)

text \<open>A forced flush keeps the lsids in order and makes all completed logs permanent.\<close>

lemma force_flush_ldev_valid:
  assumes "lsid_set_is_valid (wd_lsids wdev)"
  shows "lsid_set_is_valid (wd_lsids (snd (force_flush_ldev ops j wdev)))"
    "permanent (wd_lsids (snd (force_flush_ldev ops j wdev))) = completed (wd_lsids wdev)"
  using assms
  by (auto simp: force_flush_ldev_def force_flush_begin_def update_permanent_lsid_def lsid_set_is_valid_def
      Let_def max_def)

lemma name_field_terminated: "strnlen (name_field s) DISK_NAME_LEN < DISK_NAME_LEN" "length (name_field s) = DISK_NAME_LEN"
proof -
  define bs where "bs = take (DISK_NAME_LEN - 1) (takeWhile (\<lambda>c. c \<noteq> 0) s)"
  have bs: "\<forall>c \<in> set bs. c \<noteq> 0" "length bs < DISK_NAME_LEN"
    by (auto simp: bs_def DISK_NAME_LEN_def dest: in_set_takeD set_takeWhileD)
  obtain k where k: "DISK_NAME_LEN - length bs = Suc k" using bs(2) by (metis Suc_diff_Suc)
  have eq: "name_field s = bs @ replicate (DISK_NAME_LEN - length bs) 0"
    unfolding name_field_def Let_def bs_def ..
  then have "name_field s = bs @ 0 # replicate k 0" using k by simp
  then show "strnlen (name_field s) DISK_NAME_LEN < DISK_NAME_LEN"
    using strnlen_terminated [OF bs, of "replicate k 0"] bs(2) by simp
  show "length (name_field s) = DISK_NAME_LEN"
    unfolding eq using bs(2) by simp
qed

lemma strnlen_last_zero:
  assumes "length s = n" "0 < n"
  shows "strnlen (s[n - 1 := 0]) n < n"
proof -
  have "0 \<in> set (s[n - 1 := 0])" using assms by (metis diff_less less_numeral_extra(1) set_update_memI)
  then have "takeWhile (\<lambda>c. c \<noteq> 0) (s[n - 1 := 0]) \<noteq> s[n - 1 := 0]" by (auto simp: takeWhile_eq_all_conv)
  then have "length (takeWhile (\<lambda>c. c \<noteq> 0) (s[n - 1 := 0])) < n"
    using assms(1) length_takeWhile_le [of "\<lambda>c. c \<noteq> 0" "s[n - 1 := 0]"]
    by (metis le_neq_implies_less length_list_update takeWhile_eq_take take_all)
  then show ?thesis using assms(1) by (simp add: strnlen_def)
qed

text \<open>Whatever the super sector held, the name is terminated after \<^verbatim>\<open>walb_set_name\<close>.\<close>

lemma walb_set_name_terminated:
  assumes "104 \<le> length (sector_bytes (wd_lsuper0 wdev))"
  shows "strnlen (ss_name (get_super_sector (wd_lsuper0 (snd (walb_set_name wdev minor name))))) DISK_NAME_LEN < DISK_NAME_LEN"
proof -
  let ?ss = "get_super_sector (wd_lsuper0 wdev)"
  have wf: "super_wf ?ss" by (rule get_super_sector_wf [OF assms])
  then have len: "length (ss_name ?ss) = DISK_NAME_LEN" by (simp add: super_wf_def)
  have pos: "0 < DISK_NAME_LEN" by (simp add: DISK_NAME_LEN_def)
  have put: "length nm = DISK_NAME_LEN \<Longrightarrow>
      get_super_sector (put_super_sector (?ss\<lparr>ss_name := nm\<rparr>) (wd_lsuper0 wdev)) = ?ss\<lparr>ss_name := nm\<rparr>" for nm
    using wf assms by (intro put_super_sector(3)) (simp_all add: super_wf_def)
  show ?thesis
    using name_field_terminated strnlen_last_zero [OF len pos] len
    by (simp add: walb_set_name_def Let_def put)
qed

end
