(* ===== verification/Walb_Checkpoint.thy ===== *)
theory Walb_Checkpoint
  imports Walb_Wdev_Util
begin

text \<open>
  Checkpointing (\<^verbatim>\<open>module/checkpoint.c\<close>).  A delayed work writes the super sector from time
  to time, and the controller (ioctl handlers, freezing, the log submission task) starts and
  stops it.  Each critical section under \<^verbatim>\<open>cpd->lock\<close> is a definition; the functions compose
  them.  \<^verbatim>\<open>cancel_delayed_work_sync\<close> returns only when the work is neither queued nor running.
  The second half lets the work run concurrently with one controller, section by section.
  \<^verbatim>\<open>msecs_to_jiffies\<close> depends on the kernel configuration and is an argument.
\<close>

section \<open>Operations\<close>

definition WALB_DEFAULT_CHECKPOINT_INTERVAL :: u32 where "WALB_DEFAULT_CHECKPOINT_INTERVAL = 10000"
definition WALB_MAX_CHECKPOINT_INTERVAL :: u32 where "WALB_MAX_CHECKPOINT_INTERVAL = 24 * 60 * 60 * 1000"

definition init_checkpointing :: "checkpoint_data \<Rightarrow> checkpoint_data" where
  "init_checkpointing cpd = cpd\<lparr>cp_interval := WALB_DEFAULT_CHECKPOINT_INTERVAL, cp_status := CP_STOPPED\<rparr>"

definition take_checkpoint ::
  "'d block_ops \<Rightarrow> sync_alloc \<Rightarrow> 'd walb_dev \<Rightarrow> (bool \<times> 'd walb_dev) option" where
  "take_checkpoint ops al wdev =
     (if written (wd_lsids wdev) = prev_written (wd_lsids wdev) then Some (True, wdev)
      else walb_sync_super_block ops al wdev)"

text \<open>
  The sections of \<^verbatim>\<open>task_do_checkpointing\<close>: the first one decides whether to go on and reads
  the interval; the second one runs after a failed checkpoint, the third one after a good one.
  An unexpected state only gives a warning.
\<close>

definition task_begin :: "checkpoint_data \<Rightarrow> bool \<times> checkpoint_data" where
  "task_begin cpd =
     (case cp_status cpd of CP_STOPPING \<Rightarrow> (False, cpd)
      | CP_WAITING \<Rightarrow> (True, cpd\<lparr>cp_status := CP_RUNNING\<rparr>)
      | _ \<Rightarrow> (True, cpd))"

definition task_fail :: "checkpoint_data \<Rightarrow> checkpoint_data" where
  "task_fail cpd = cpd\<lparr>cp_status := CP_STOPPED\<rparr>"

definition calc_next_delay :: "u64 \<Rightarrow> u64 \<Rightarrow> u64 \<Rightarrow> u64" where
  "calc_next_delay delay j0 j1 =
     (let sync_time = j1 - j0; next_delay = delay - sync_time in
      if sint next_delay \<le> 0 then 1 else next_delay)"

definition task_end :: "u64 \<Rightarrow> checkpoint_data \<Rightarrow> checkpoint_data" where
  "task_end next_delay cpd =
     (if cp_status cpd = CP_RUNNING then cpd\<lparr>cp_dwork := Some next_delay, cp_status := CP_WAITING\<rparr> else cpd)"

text \<open>The whole task when nothing else runs; \<^verbatim>\<open>j0\<close> and \<^verbatim>\<open>j1\<close> are the times around the checkpoint.\<close>

definition task_do_checkpointing ::
  "'d block_ops \<Rightarrow> sync_alloc \<Rightarrow> (u32 \<Rightarrow> u64) \<Rightarrow> u64 \<Rightarrow> u64 \<Rightarrow> 'd walb_dev \<Rightarrow> 'd walb_dev option" where
  "task_do_checkpointing ops al msecs_to_jiffies j0 j1 wdev =
     (let interval = cp_interval (wd_cpd wdev); (go, cpd1) = task_begin (wd_cpd wdev); wdev1 = wdev\<lparr>wd_cpd := cpd1\<rparr> in
      if \<not> go then Some wdev1
      else case take_checkpoint ops al wdev1 of
        None \<Rightarrow> None
      | Some (ok, wdev2) \<Rightarrow>
          if \<not> ok then Some (wdev2\<lparr>wd_cpd := task_fail (wd_cpd wdev2)\<rparr>)
          else Some (wdev2\<lparr>wd_cpd := task_end (calc_next_delay (msecs_to_jiffies interval) j0 j1) (wd_cpd wdev2)\<rparr>))"

definition start_checkpointing :: "(u32 \<Rightarrow> u64) \<Rightarrow> checkpoint_data \<Rightarrow> checkpoint_data" where
  "start_checkpointing msecs_to_jiffies cpd =
     (if cp_status cpd \<noteq> CP_STOPPED then cpd
      else let interval = cp_interval cpd in
        if interval = 0 then cpd
        else cpd\<lparr>cp_dwork := Some (msecs_to_jiffies interval), cp_status := CP_WAITING\<rparr>)"

definition stop_begin :: "checkpoint_data \<Rightarrow> bool \<times> checkpoint_data" where
  "stop_begin cpd =
     (let state = cp_status cpd in
      if state \<noteq> CP_WAITING \<and> state \<noteq> CP_RUNNING then (False, cpd)
      else (True, cpd\<lparr>cp_status := CP_STOPPING\<rparr>))"

definition stop_end :: "checkpoint_data \<Rightarrow> checkpoint_data" where
  "stop_end cpd = cpd\<lparr>cp_status := CP_STOPPED\<rparr>"

definition stop_checkpointing :: "checkpoint_data \<Rightarrow> checkpoint_data" where
  "stop_checkpointing cpd =
     (let (go, cpd1) = stop_begin cpd in if \<not> go then cpd1 else stop_end (cpd1\<lparr>cp_dwork := None\<rparr>))"

definition get_checkpoint_interval :: "checkpoint_data \<Rightarrow> u32" where
  "get_checkpoint_interval cpd = cp_interval cpd"

definition set_checkpoint_interval :: "(u32 \<Rightarrow> u64) \<Rightarrow> u32 \<Rightarrow> checkpoint_data \<Rightarrow> checkpoint_data" where
  "set_checkpoint_interval msecs_to_jiffies interval cpd =
     start_checkpointing msecs_to_jiffies (stop_checkpointing (cpd\<lparr>cp_interval := interval\<rparr>))"

section \<open>Concurrent runs\<close>

text \<open>
  The work: idle, started but before its first section, taking a checkpoint, or about to enter
  its last section.  The controller: idle, waiting in \<^verbatim>\<open>cancel_delayed_work_sync\<close>, or past it.
\<close>

datatype cp_task = T_Idle | T_Fired | T_Take u32 | T_Fail | T_Finish u32

datatype cp_ctl = C_Idle | C_Cancel | C_Cancelled

record cp_sys =
  cs_cpd :: checkpoint_data
  cs_task :: cp_task
  cs_ctl :: cp_ctl

inductive cp_step :: "cp_sys \<Rightarrow> cp_sys \<Rightarrow> bool" where
  fire: "cp_dwork (cs_cpd s) = Some d \<Longrightarrow> cs_task s = T_Idle \<Longrightarrow>
    cp_step s (s\<lparr>cs_cpd := (cs_cpd s)\<lparr>cp_dwork := None\<rparr>, cs_task := T_Fired\<rparr>)"
| begin_go: "cs_task s = T_Fired \<Longrightarrow> task_begin (cs_cpd s) = (True, c) \<Longrightarrow>
    cp_step s (s\<lparr>cs_cpd := c, cs_task := T_Take (cp_interval (cs_cpd s))\<rparr>)"
| begin_return: "cs_task s = T_Fired \<Longrightarrow> task_begin (cs_cpd s) = (False, c) \<Longrightarrow>
    cp_step s (s\<lparr>cs_cpd := c, cs_task := T_Idle\<rparr>)"
| take_ok: "cs_task s = T_Take i \<Longrightarrow> cp_step s (s\<lparr>cs_task := T_Finish i\<rparr>)"
| take_failed: "cs_task s = T_Take i \<Longrightarrow> cp_step s (s\<lparr>cs_task := T_Fail\<rparr>)"
| fail: "cs_task s = T_Fail \<Longrightarrow> cp_step s (s\<lparr>cs_cpd := task_fail (cs_cpd s), cs_task := T_Idle\<rparr>)"
| finish: "cs_task s = T_Finish i \<Longrightarrow> cp_step s (s\<lparr>cs_cpd := task_end d (cs_cpd s), cs_task := T_Idle\<rparr>)"
| set_interval: "cs_ctl s = C_Idle \<Longrightarrow> cp_step s (s\<lparr>cs_cpd := (cs_cpd s)\<lparr>cp_interval := i\<rparr>\<rparr>)"
| start: "cs_ctl s = C_Idle \<Longrightarrow> cp_step s (s\<lparr>cs_cpd := start_checkpointing m (cs_cpd s)\<rparr>)"
| stop: "cs_ctl s = C_Idle \<Longrightarrow> stop_begin (cs_cpd s) = (True, c) \<Longrightarrow>
    cp_step s (s\<lparr>cs_cpd := c, cs_ctl := C_Cancel\<rparr>)"
| cancelled: "cs_ctl s = C_Cancel \<Longrightarrow> cs_task s = T_Idle \<Longrightarrow>
    cp_step s (s\<lparr>cs_cpd := (cs_cpd s)\<lparr>cp_dwork := None\<rparr>, cs_ctl := C_Cancelled\<rparr>)"
| stopped: "cs_ctl s = C_Cancelled \<Longrightarrow> cp_step s (s\<lparr>cs_cpd := stop_end (cs_cpd s), cs_ctl := C_Idle\<rparr>)"

definition cp_start :: "checkpoint_data \<Rightarrow> cp_sys" where
  "cp_start cpd = \<lparr>cs_cpd = (init_checkpointing cpd)\<lparr>cp_dwork := None\<rparr>, cs_task = T_Idle, cs_ctl = C_Idle\<rparr>"

abbreviation cp_reach :: "checkpoint_data \<Rightarrow> cp_sys \<Rightarrow> bool" where
  "cp_reach cpd \<equiv> reach cp_step (cp_start cpd)"

lemmas cp_begin = reach_start [of cp_step]
lemmas cp_more = reach_step [of cp_step]

section \<open>Invariant\<close>

definition task_in_section :: "cp_task \<Rightarrow> bool" where
  "task_in_section t = (case t of T_Idle \<Rightarrow> False | T_Fired \<Rightarrow> False | _ \<Rightarrow> True)"

text \<open>What each state of the work, and the controller, says about the state of checkpointing.\<close>

definition cp_inv :: "cp_sys \<Rightarrow> bool" where
  "cp_inv s \<longleftrightarrow>
     (cp_dwork (cs_cpd s) \<noteq> None \<longrightarrow> cs_task s = T_Idle \<and> cp_status (cs_cpd s) \<in> {CP_WAITING, CP_STOPPING}) \<and>
     (cs_task s = T_Fired \<longrightarrow> cp_status (cs_cpd s) \<in> {CP_WAITING, CP_STOPPING}) \<and>
     (task_in_section (cs_task s) \<longrightarrow> cp_status (cs_cpd s) \<in> {CP_RUNNING, CP_STOPPING}) \<and>
     (cp_status (cs_cpd s) = CP_WAITING \<longrightarrow> cp_dwork (cs_cpd s) \<noteq> None \<or> cs_task s = T_Fired) \<and>
     (cp_status (cs_cpd s) = CP_RUNNING \<longrightarrow> task_in_section (cs_task s)) \<and>
     (cs_ctl s = C_Idle \<longrightarrow> cp_status (cs_cpd s) \<noteq> CP_STOPPING) \<and>
     (cs_ctl s \<noteq> C_Idle \<longrightarrow> cp_status (cs_cpd s) \<in> {CP_STOPPING, CP_STOPPED}) \<and>
     (cs_ctl s = C_Cancelled \<longrightarrow> cp_dwork (cs_cpd s) = None \<and> cs_task s = T_Idle)"

lemmas cp_section_defs = task_begin_def task_fail_def task_end_def stop_begin_def stop_end_def start_checkpointing_def
  task_in_section_def Let_def

lemma cp_step_inv: "cp_step s s' \<Longrightarrow> cp_inv s \<Longrightarrow> cp_inv s'"
  by (induction rule: cp_step.induct) (auto simp: cp_inv_def cp_section_defs split: cp_state.splits cp_task.splits if_splits)

interpretation cp: inductive_invariant cp_step "\<lambda>s. \<exists>cpd. s = cp_start cpd" cp_inv
proof
  show "cp_inv s" if "\<exists>cpd. s = cp_start cpd" for s
    using that by (auto simp: cp_inv_def cp_start_def init_checkpointing_def task_in_section_def)
qed (rule cp_step_inv)

lemma cp_reach_inv: "cp_reach cpd s \<Longrightarrow> cp_inv s"
  by (rule cp.reach_inv) auto


definition demo_cpd :: checkpoint_data where
  "demo_cpd = \<lparr>cp_interval = 0, cp_status = CP_RUNNING, cp_dwork = None\<rparr>"

definition demo_fired :: cp_sys where
  "demo_fired = \<lparr>cs_cpd = \<lparr>cp_interval = 10000, cp_status = CP_WAITING, cp_dwork = None\<rparr>, cs_task = T_Fired, cs_ctl = C_Idle\<rparr>"

lemma demo_fired_reached: "cp_reach demo_cpd demo_fired"
proof -
  let ?w = "(cp_start demo_cpd)\<lparr>cs_cpd := start_checkpointing (\<lambda>x. ucast x) (cs_cpd (cp_start demo_cpd))\<rparr>"
  note defs = cp_start_def demo_cpd_def init_checkpointing_def start_checkpointing_def demo_fired_def
    WALB_DEFAULT_CHECKPOINT_INTERVAL_def
  have "cp_step (cp_start demo_cpd) ?w" by (rule cp_step.start) (simp add: cp_start_def)
  moreover have "cp_step ?w demo_fired"
    using cp_step.fire [of ?w 10000] by (simp add: defs)
  ultimately show ?thesis by (rule cp_more [OF cp_more [OF cp_begin]])
qed


text \<open>
  Setting the interval to 0 stores it before the work is stopped, so a work that has just been
  started reads the interval 0 that its assertion excludes.
\<close>

lemma interval_zero_race: "\<exists>s. cp_reach demo_cpd s \<and> cs_task s = T_Take 0"
proof -
  let ?z = "demo_fired\<lparr>cs_cpd := (cs_cpd demo_fired)\<lparr>cp_interval := 0\<rparr>\<rparr>"
  have "cp_step demo_fired ?z" by (rule cp_step.set_interval) (simp add: demo_fired_def)
  moreover have "cp_step ?z (?z\<lparr>cs_cpd := (cs_cpd ?z)\<lparr>cp_status := CP_RUNNING\<rparr>, cs_task := T_Take (cp_interval (cs_cpd ?z))\<rparr>)"
    by (rule cp_step.begin_go) (simp_all add: demo_fired_def task_begin_def)
  ultimately have "cp_reach demo_cpd (?z\<lparr>cs_cpd := (cs_cpd ?z)\<lparr>cp_status := CP_RUNNING\<rparr>, cs_task := T_Take (cp_interval (cs_cpd ?z))\<rparr>)"
    by (rule cp_more [OF cp_more [OF demo_fired_reached]])
  moreover have "cs_task (?z\<lparr>cs_cpd := (cs_cpd ?z)\<lparr>cp_status := CP_RUNNING\<rparr>, cs_task := T_Take (cp_interval (cs_cpd ?z))\<rparr>) = T_Take 0"
    by simp
  ultimately show ?thesis by blast
qed

text \<open>The sequential functions are runs of the sections, so they end in the states the invariant names.\<close>

lemma stop_checkpointing_stopped:
  "cp_status cpd \<noteq> CP_STOPPING \<Longrightarrow> cp_status (stop_checkpointing cpd) = CP_STOPPED"
  "cp_interval (stop_checkpointing cpd) = cp_interval cpd"
  by (cases "cp_status cpd") (auto simp: stop_checkpointing_def stop_begin_def stop_end_def Let_def)

lemma next_delay_positive: "0 < sint (calc_next_delay delay j0 j1)"
  by (simp add: calc_next_delay_def Let_def)

end
