(* ===== verification/Walb_Pending.thy ===== *)
theory Walb_Pending
  imports Walb_Biow_Index
begin

text \<open>
  Pending writes, \<^verbatim>\<open>module/pending_io.c\<close>: the writes whose log IO is done and whose data IO is
  not.  A read copies the blocks it shares with them, in the order of their lsids, instead of
  reading these blocks from the data device; a write that a newer one covers completely is
  taken out, since its data need not be written.
\<close>

section \<open>Operations\<close>

fun insert_before_greater :: "biow_store \<Rightarrow> ulong \<Rightarrow> ulong list \<Rightarrow> ulong list" where
  "insert_before_greater H biow [] = [biow]"
| "insert_before_greater H biow (x # xs) =
     (if bw_lsid (H biow) < bw_lsid (H x) then biow # x # xs else x # insert_before_greater H biow xs)"

definition insert_to_sorted_bio_wrapper_list_by_lsid :: "biow_store \<Rightarrow> ulong \<Rightarrow> ulong list \<Rightarrow> ulong list" where
  "insert_to_sorted_bio_wrapper_list_by_lsid H biow biow_list =
     (if biow_list \<noteq> [] \<and> bw_lsid (H biow) < bw_lsid (H (hd biow_list)) then biow # biow_list
      else insert_before_greater H biow biow_list)"

definition pending_insert ::
    "rb_op \<Rightarrow> tree_map \<Rightarrow> u32 \<Rightarrow> biow_store \<Rightarrow> ulong \<Rightarrow> treemap_allocs \<Rightarrow> bool \<times> tree_map \<times> u32" where
  "pending_insert rb_ins pending_data max_sectors H biow al =
     (case multimap_add rb_ins pending_data (bw_pos (H biow)) biow al of
        (Some _, _) \<Rightarrow> (False, pending_data, max_sectors)
      | (None, data') \<Rightarrow> (True, data', max max_sectors (bw_len (H biow))))"

definition pending_delete ::
    "rb_op \<Rightarrow> tree_map \<Rightarrow> u32 \<Rightarrow> biow_store \<Rightarrow> ulong \<Rightarrow> tree_map \<times> u32" where
  "pending_delete rb_del pending_data max_sectors H biow =
     (let (biow_tmp, data') = multimap_del rb_del pending_data (bw_pos (H biow)) biow in
      (data', if multimap_is_empty data' then 0 else max_sectors))"

definition collect_body :: "biow_store \<Rightarrow> ulong \<Rightarrow> ulong \<Rightarrow> ulong list \<Rightarrow> ulong list" where
  "collect_body H biow biow_tmp biow_list =
     (if \<not> bio_wrapper_state_is_discard (H biow_tmp) \<and> bio_wrapper_is_overlap (H biow) (H biow_tmp) then
        insert_to_sorted_bio_wrapper_list_by_lsid H biow_tmp biow_list
      else biow_list)"

text \<open>The copies in the order of the list; they stop at the first that fails.\<close>

fun copy_all ::
    "(bio \<Rightarrow> u32 \<Rightarrow> (bio \<times> bio) option) \<Rightarrow> (ulong \<Rightarrow> nat \<Rightarrow> nat) \<Rightarrow> biow_store \<Rightarrow> ulong \<Rightarrow> ulong list \<Rightarrow>
     (bool \<times> biow_store) option" where
  "copy_all bio_split seg H biow [] = Some (True, H)"
| "copy_all bio_split seg H biow (biow_tmp # vs) =
     (case bio_wrapper_copy_overlapped bio_split (seg biow) (seg biow_tmp) (H biow) (H biow_tmp) of
        None \<Rightarrow> None
      | Some (ok, w) \<Rightarrow>
          if ok then copy_all bio_split seg (H(biow := w)) biow vs else Some (False, H(biow := w)))"

text \<open>The result flag, the store and the bios that were ended.\<close>

definition pending_check_and_copy ::
    "(bio \<Rightarrow> u32 \<Rightarrow> (bio \<times> bio) option) \<Rightarrow> (ulong \<Rightarrow> nat \<Rightarrow> nat) \<Rightarrow> tree_map \<Rightarrow> u32 \<Rightarrow> biow_store \<Rightarrow> ulong \<Rightarrow>
     (bool \<times> biow_store \<times> bio list) option" where
  "pending_check_and_copy bio_split seg pending_data max_sectors H biow =
     (let start_pos = search_start max_sectors (bw_pos (H biow));
          (found, cur) = multimap_cursor_search pending_data multimap_cursor_init start_pos MAP_SEARCH_GE False in
      if \<not> found then Some (True, H, [])
      else
        (case scan_while pending_data (biow_end (H biow)) (collect_body H biow) cur [] of
           None \<Rightarrow> None
         | Some biow_list \<Rightarrow>
             (case copy_all bio_split seg H biow biow_list of
                None \<Rightarrow> None
              | Some (ok, H') \<Rightarrow>
                  if \<not> ok then Some (False, H', [])
                  else
                    (let (w, ended) = bio_wrapper_endio_copied (H' biow) in
                     Some (True, H'(biow := w), ended)))))"

partial_function (option) overwritten_loop ::
    "rb_op \<Rightarrow> u64 \<Rightarrow> ulong \<Rightarrow> tree_map \<Rightarrow> multimap_cursor \<Rightarrow> biow_store \<Rightarrow> (tree_map \<times> biow_store) option" where
  "overwritten_loop rb_del end_pos biow tmap cur H =
     (if multimap_cursor_key tmap cur < end_pos then
        (let biow_tmp = multimap_cursor_val cur in
         if biow_tmp \<noteq> biow \<and> bio_wrapper_is_overwritten_by (H biow_tmp) (H biow) then
           (let H' = H(biow_tmp := biow_set_flag BIO_WRAPPER_OVERWRITTEN (H biow_tmp)) in
            case multimap_cursor_del rb_del tmap cur of
              (_, tmap', cur') \<Rightarrow>
                if multimap_cursor_is_data cur' then overwritten_loop rb_del end_pos biow tmap' cur' H'
                else Some (tmap', H'))
         else
           (case multimap_cursor_next tmap cur of
              (found, cur') \<Rightarrow>
                if found then overwritten_loop rb_del end_pos biow tmap cur' H else Some (tmap, H)))
      else Some (tmap, H))"

definition pending_delete_fully_overwritten ::
    "rb_op \<Rightarrow> tree_map \<Rightarrow> biow_store \<Rightarrow> ulong \<Rightarrow> (tree_map \<times> biow_store) option" where
  "pending_delete_fully_overwritten rb_del pending_data H biow =
     (let start_pos = bw_pos (H biow);
          (found, cur) = multimap_cursor_search pending_data multimap_cursor_init start_pos MAP_SEARCH_GE False in
      if \<not> found then Some (pending_data, H)
      else overwritten_loop rb_del (biow_end (H biow)) biow pending_data cur H)"

definition pending_insert_and_delete_fully_overwritten ::
    "rb_op \<Rightarrow> rb_op \<Rightarrow> tree_map \<Rightarrow> u32 \<Rightarrow> biow_store \<Rightarrow> ulong \<Rightarrow> treemap_allocs \<Rightarrow>
     (bool \<times> tree_map \<times> u32 \<times> biow_store) option" where
  "pending_insert_and_delete_fully_overwritten rb_ins rb_del pending_data max_sectors H biow al =
     (case pending_insert rb_ins pending_data max_sectors H biow al of
        (ok, data', max') \<Rightarrow>
          if \<not> ok then Some (False, data', max', H)
          else map_option (\<lambda>(data'', H'). (True, data'', max', H'))
                 (pending_delete_fully_overwritten rb_del data' H biow))"

section \<open>Collecting in the order of the lsids\<close>

definition lsid_sorted :: "biow_store \<Rightarrow> ulong list \<Rightarrow> bool" where
  "lsid_sorted H vs \<longleftrightarrow> sorted_wrt (\<lambda>u v. bw_lsid (H u) \<le> bw_lsid (H v)) vs"

lemma insert_before_greater_set: "set (insert_before_greater H b vs) = insert b (set vs)"
  by (induction vs) auto

lemma insert_before_greater_sorted: "lsid_sorted H vs \<Longrightarrow> lsid_sorted H (insert_before_greater H b vs)"
  unfolding lsid_sorted_def
  by (induction vs) (auto simp: insert_before_greater_set)

lemma insert_to_sorted_eq:
  "insert_to_sorted_bio_wrapper_list_by_lsid H b vs = insert_before_greater H b vs"
  by (cases vs) (auto simp: insert_to_sorted_bio_wrapper_list_by_lsid_def)

lemma fold_collect_body:
  assumes "lsid_sorted H l"
  shows "lsid_sorted H (fold (collect_body H b) vs l)"
    "set (fold (collect_body H b) vs l) =
       set l \<union> {v \<in> set vs. \<not> bio_wrapper_state_is_discard (H v) \<and> bio_wrapper_is_overlap (H b) (H v)}"
  using assms
proof (induction vs arbitrary: l)
  case (Cons v vs)
  case 1
  then show ?case using Cons.IH(1) insert_before_greater_sorted by (simp add: collect_body_def insert_to_sorted_eq)
next
  case (Cons v vs)
  case 2
  then show ?case
    using Cons.IH(2) [of "collect_body H b v l"] insert_before_greater_sorted [of H l v]
    by (auto simp: collect_body_def insert_to_sorted_eq insert_before_greater_set)
qed simp_all

section \<open>Copying from the pending writes\<close>

text \<open>
  A pending write keeps, in its cloned entry, the iterator it was submitted with; the bios of a
  read cover its blocks and nothing has been copied yet.
\<close>

definition pending_ok :: "bio_wrapper \<Rightarrow> bool" where
  "pending_ok w \<longleftrightarrow> biow_ok w \<and> iter_ok (be_iter (bw_cloned_bioe w)) \<and>
     iter_blocks (be_iter (bw_cloned_bioe w)) = biow_blocks w"

definition read_ok :: "bio_wrapper \<Rightarrow> bool" where
  "read_ok w \<longleftrightarrow> biow_ok w \<and>
     marked_list {} (unat (bw_pos w)) (bw_cloned_bio_list w) (unat (bw_pos w) + unat (bw_len w))"

text \<open>The write of the list that was copied last to a block.\<close>

definition newest_at :: "biow_store \<Rightarrow> ulong list \<Rightarrow> nat \<Rightarrow> ulong \<Rightarrow> bool" where
  "newest_at H vs x v \<longleftrightarrow> v \<in> set vs \<and> x \<in> biow_blocks (H v) \<and>
     (\<forall>u \<in> set vs. x \<in> biow_blocks (H u) \<longrightarrow> bw_lsid (H u) \<le> bw_lsid (H v))"

definition read_data_ok :: "biow_store \<Rightarrow> ulong list \<Rightarrow> nat \<Rightarrow> nat \<Rightarrow> pages \<Rightarrow> pages \<Rightarrow> bool" where
  "read_data_ok H vs p q d d' \<longleftrightarrow>
     (\<forall>a. if a div 512 \<in> {p ..< q} \<inter> (\<Union>v \<in> set vs. biow_blocks (H v))
          then \<exists>v. newest_at H vs (a div 512) v \<and> d' a = bw_data (H v) a else d' a = d a)"

lemma read_data_snoc:
  assumes "lsid_sorted H (vs @ [v])" "read_data_ok H vs p q d d'"
  shows "read_data_ok H (vs @ [v]) p q d (copy_blocks d' (bw_data (H v)) (biow_blocks (H v) \<inter> {p ..< q}))"
proof -
  have le: "\<forall>u \<in> set vs. bw_lsid (H u) \<le> bw_lsid (H v)"
    using assms(1) by (simp add: lsid_sorted_def sorted_wrt_append)
  have new: "newest_at H (vs @ [v]) x v" if "x \<in> biow_blocks (H v)" for x
    using le that by (simp add: newest_at_def)
  have old: "newest_at H (vs @ [v]) x u" if "newest_at H vs x u" "x \<notin> biow_blocks (H v)" for x u
    using that by (simp add: newest_at_def)
  show ?thesis
    unfolding read_data_ok_def
  proof
    fix a
    show "if a div 512 \<in> {p ..< q} \<inter> (\<Union>v \<in> set (vs @ [v]). biow_blocks (H v))
        then \<exists>w. newest_at H (vs @ [v]) (a div 512) w \<and>
          copy_blocks d' (bw_data (H v)) (biow_blocks (H v) \<inter> {p ..< q}) a = bw_data (H w) a
        else copy_blocks d' (bw_data (H v)) (biow_blocks (H v) \<inter> {p ..< q}) a = d a"
    proof (cases "a div 512 \<in> biow_blocks (H v)")
      case True
      then show ?thesis
        using new [OF True] assms(2) [unfolded read_data_ok_def, THEN spec, of a]
        by (auto simp: copy_blocks_def)
    next
      case False
      then show ?thesis
        using old [OF _ False] assms(2) [unfolded read_data_ok_def, THEN spec, of a]
        by (auto simp: copy_blocks_def split: if_splits)
    qed
  qed
qed

context bio_chain_splitter
begin

lemma copy_all_ok:
  assumes seg: "\<forall>v a. 0 < seg v a" and b: "b \<notin> set (us @ vs)" and vs: "\<forall>v \<in> set (us @ vs). pending_ok (H0 v)"
    and H: "\<And>v. v \<noteq> b \<Longrightarrow> H v = H0 v" and srt: "lsid_sorted H0 (us @ vs)"
    and m: "marked_list (\<Union>v \<in> set us. biow_blocks (H0 v)) p (bw_cloned_bio_list (H b)) q"
    and d: "read_data_ok H0 us p q d (bw_data (H b))"
  shows "\<exists>ok H'. copy_all bio_split seg H b vs = Some (ok, H') \<and> (\<forall>v. v \<noteq> b \<longrightarrow> H' v = H v) \<and>
    (ok \<longrightarrow> marked_list (\<Union>v \<in> set (us @ vs). biow_blocks (H0 v)) p (bw_cloned_bio_list (H' b)) q \<and>
       read_data_ok H0 (us @ vs) p q d (bw_data (H' b))) \<and>
    (\<not> ok \<longrightarrow> (\<exists>b n. bio_split b n = None))"
  using b vs H srt m d
proof (induction vs arbitrary: us H)
  case Nil
  then show ?case by (intro exI [of _ True] exI [of _ H]) simp
next
  case (Cons v vs)
  let ?i = "be_iter (bw_cloned_bioe (H v))" and ?T = "\<Union>v \<in> set us. biow_blocks (H0 v)"
  have v: "pending_ok (H0 v)" "v \<noteq> b" "H v = H0 v" using Cons.prems(1-3) by auto
  have ib: "iter_ok ?i" "iter_blocks ?i = biow_blocks (H0 v)" "biow_blocks (H0 v) \<noteq> {}"
    using v by (auto simp: pending_ok_def biow_ok_def biow_blocks_def)
  then have i: "iter_ok ?i" "iter_blocks ?i = biow_blocks (H0 v)" "it_lo ?i < it_hi ?i"
    by (auto simp: iter_blocks_def)
  have sg: "\<forall>a. 0 < seg b a" "\<forall>a. 0 < seg v a" using seg by auto
  from copy_list_ok [OF sg i(1,3) Cons.prems(5), of "bw_data (H v)" "bw_data (H b)"]
  obtain ok D ps where cl:
      "copy_list bio_split (seg b) (seg v) ?i (bw_data (H v)) (bw_data (H b)) (bw_cloned_bio_list (H b)) = Some (ok, D, ps)"
      "ok \<Longrightarrow> D = copy_blocks (bw_data (H b)) (bw_data (H0 v)) (biow_blocks (H0 v) \<inter> {p ..< q})"
      "ok \<Longrightarrow> marked_list (?T \<union> biow_blocks (H0 v)) p ps q"
      "\<not> ok \<longrightarrow> (\<exists>b n. bio_split b n = None)"
    using v(3) unfolding i(2) by metis
  define w H1 where "w = (H b)\<lparr>bw_data := D, bw_cloned_bio_list := ps\<rparr>" and "H1 = H(b := w)"
  have H1: "H1 b = w" "\<And>v. v \<noteq> b \<Longrightarrow> H1 v = H v" by (simp_all add: H1_def)
  have "bio_wrapper_copy_overlapped bio_split (seg b) (seg v) (H b) (H v) = Some (ok, w)"
    using cl(1) by (simp add: bio_wrapper_copy_overlapped_def w_def)
  then have step: "copy_all bio_split seg H b (v # vs) = (if ok then copy_all bio_split seg H1 b vs else Some (False, H1))"
    by (simp add: H1_def)
  show ?case
  proof (cases ok)
    case False
    then show ?thesis using step cl(4) H1(2) by (intro exI [of _ False] exI [of _ H1]) (simp del: copy_all.simps)
  next
    case True
    have srt: "lsid_sorted H0 (us @ [v])" using Cons.prems(4) by (auto simp: lsid_sorted_def sorted_wrt_append)
    have ih: "\<exists>ok H'. copy_all bio_split seg H1 b vs = Some (ok, H') \<and> (\<forall>v. v \<noteq> b \<longrightarrow> H' v = H1 v) \<and>
        (ok \<longrightarrow> marked_list (\<Union>v \<in> set ((us @ [v]) @ vs). biow_blocks (H0 v)) p (bw_cloned_bio_list (H' b)) q \<and>
           read_data_ok H0 ((us @ [v]) @ vs) p q d (bw_data (H' b))) \<and>
        (\<not> ok \<longrightarrow> (\<exists>b n. bio_split b n = None))"
    proof (rule Cons.IH)
      show "marked_list (\<Union>v \<in> set (us @ [v]). biow_blocks (H0 v)) p (bw_cloned_bio_list (H1 b)) q"
        using cl(3) True by (simp add: H1(1) w_def Un_commute)
      show "read_data_ok H0 (us @ [v]) p q d (bw_data (H1 b))"
        using read_data_snoc [OF srt Cons.prems(6)] cl(2) True by (simp add: H1(1) w_def)
      show "H1 x = H0 x" if "x \<noteq> b" for x using that H1(2) Cons.prems(3) by simp
    qed (use Cons.prems in simp_all)
    show ?thesis unfolding step using ih True H1(2) by auto
  qed
qed

end

text \<open>The pending writes with data.\<close>

definition pending_writes :: "tree_map \<Rightarrow> biow_store \<Rightarrow> ulong set" where
  "pending_writes t H = {v \<in> set (mm_vals t). \<not> bio_wrapper_state_is_discard (H v)}"

text \<open>What a read has in its buffer: for a block of a pending write, the bytes of the newest one.\<close>

definition newest_data :: "ulong set \<Rightarrow> biow_store \<Rightarrow> bio_wrapper \<Rightarrow> pages \<Rightarrow> bool" where
  "newest_data W H r d' \<longleftrightarrow>
     (\<forall>a. if a div 512 \<in> biow_blocks r \<and> (\<exists>v \<in> W. a div 512 \<in> biow_blocks (H v))
          then \<exists>v \<in> W. a div 512 \<in> biow_blocks (H v) \<and>
                 (\<forall>u \<in> W. a div 512 \<in> biow_blocks (H u) \<longrightarrow> bw_lsid (H u) \<le> bw_lsid (H v)) \<and>
                 d' a = bw_data (H v) a
          else d' a = bw_data r a)"

lemma read_data_newest:
  assumes "read_data_ok H L p q (bw_data r) d'" "biow_blocks r = {p ..< q}"
    and L: "set L = {v \<in> W. biow_blocks r \<inter> biow_blocks (H v) \<noteq> {}}"
  shows "newest_data W H r d'"
  unfolding newest_data_def
proof
  fix a :: nat
  let ?x = "a div 512"
  have ex: "(\<exists>v \<in> W. ?x \<in> biow_blocks (H v)) = (?x \<in> (\<Union>v \<in> set L. biow_blocks (H v)))" if "?x \<in> biow_blocks r"
    using that unfolding L by auto
  have nw: "v \<in> W \<and> ?x \<in> biow_blocks (H v) \<and> (\<forall>u \<in> W. ?x \<in> biow_blocks (H u) \<longrightarrow> bw_lsid (H u) \<le> bw_lsid (H v))"
    if "newest_at H L ?x v" "?x \<in> biow_blocks r" for v
    using that unfolding newest_at_def L by blast
  show "if ?x \<in> biow_blocks r \<and> (\<exists>v \<in> W. ?x \<in> biow_blocks (H v))
      then \<exists>v \<in> W. ?x \<in> biow_blocks (H v) \<and>
             (\<forall>u \<in> W. ?x \<in> biow_blocks (H u) \<longrightarrow> bw_lsid (H u) \<le> bw_lsid (H v)) \<and> d' a = bw_data (H v) a
      else d' a = bw_data r a"
  proof (cases "?x \<in> biow_blocks r \<and> (\<exists>v \<in> W. ?x \<in> biow_blocks (H v))")
    case True
    then have "\<exists>v. newest_at H L ?x v \<and> d' a = bw_data (H v) a"
      using assms(1) [unfolded read_data_ok_def, THEN spec, of a] ex assms(2) by auto
    then show ?thesis using True nw by auto
  next
    case False
    then have "?x \<notin> {p ..< q} \<inter> (\<Union>v \<in> set L. biow_blocks (H v))" using ex assms(2) by auto
    then have "d' a = bw_data r a" using assms(1) [unfolded read_data_ok_def, THEN spec, of a] by (simp only: if_False)
    then show ?thesis using False by (simp only: if_False)
  qed
qed

lemma collected_list:
  assumes ix: "index_ok rb_good t m H" and r: "biow_ok (H b)" and dat: "\<forall>v \<in> pending_writes t H. pending_ok (H v)"
    and s: "multimap_cursor_search t multimap_cursor_init (search_start m (bw_pos (H b))) MAP_SEARCH_GE False = (found, cur)"
  obtains L where "if found then scan_while t (biow_end (H b)) (collect_body H b) cur [] = Some L else L = []"
    "lsid_sorted H L" "set L = {v \<in> pending_writes t H. biow_blocks (H b) \<inter> biow_blocks (H v) \<noteq> {}}"
proof -
  let ?vs = "range_vals t (search_start m (bw_pos (H b))) (biow_end (H b))"
  let ?P = "\<lambda>v. \<not> bio_wrapper_state_is_discard (H v) \<and> bio_wrapper_is_overlap (H b) (H v)"
  define L where "L = fold (collect_body H b) ?vs []"
  have wf: "multimap_wf rb_good t" using ix by (simp add: index_ok_def)
  have nil: "lsid_sorted H []" by (simp add: lsid_sorted_def)
  note f = fold_collect_body [OF nil, of b ?vs, folded L_def]
  have "filter ?P ?vs = filter ?P (mm_vals t)" by (rule range_has_overlapping [OF ix r]) simp
  from arg_cong [OF this, of set] have "set L = {v \<in> set (mm_vals t). ?P v}" using f(2) by auto
  moreover have "bio_wrapper_is_overlap (H b) (H v) = (biow_blocks (H b) \<inter> biow_blocks (H v) \<noteq> {})"
    if "v \<in> set (mm_vals t)" for v
    using overlap_iff_blocks [OF r] index_ok_vals(2) [OF ix that] by simp
  ultimately have "set L = {v \<in> pending_writes t H. biow_blocks (H b) \<inter> biow_blocks (H v) \<noteq> {}}"
    by (auto simp: pending_writes_def)
  moreover have "if found then scan_while t (biow_end (H b)) (collect_body H b) cur [] = Some L else L = []"
    using search_scan [OF wf s, of "biow_end (H b)" "collect_body H b" "[]"] by (auto simp: L_def)
  ultimately show ?thesis using that f(1) by blast
qed


section \<open>Taking out overwritten writes\<close>

definition overwritten :: "biow_store \<Rightarrow> ulong \<Rightarrow> ulong \<Rightarrow> bool" where
  "overwritten H b v \<longleftrightarrow> v \<noteq> b \<and> bio_wrapper_is_overwritten_by (H v) (H b)"

definition flagged :: "biow_store \<Rightarrow> ulong \<Rightarrow> ulong set \<Rightarrow> biow_store" where
  "flagged H b S = (\<lambda>v. if v \<in> S \<and> overwritten H b v then biow_set_flag BIO_WRAPPER_OVERWRITTEN (H v) else H v)"

text \<open>The pairs from the cursor on: sorted, distinct, and indexed by their positions.\<close>

definition scan_ok :: "biow_store \<Rightarrow> (u64 \<times> ulong) list \<Rightarrow> bool" where
  "scan_ok H ps \<longleftrightarrow> sorted_wrt (\<lambda>a b. fst a \<le> fst b) ps \<and> distinct (map snd ps) \<and>
     (\<forall>u \<in> set ps. fst u = bw_pos (H (snd u)) \<and> biow_ok (H (snd u)))"

lemma overwritten_end:
  assumes "overwritten H b v" "biow_ok (H v)" "biow_ok (H b)"
  shows "bw_pos (H v) < biow_end (H b)" "bw_pos (H b) \<le> bw_pos (H v)"
  using assms unat_biow_end [OF assms(2)] unat_biow_end [OF assms(3)]
  by (auto simp: overwritten_def bio_wrapper_is_overwritten_by_def biow_end_def word_le_nat_alt word_less_nat_alt biow_ok_def)

lemma not_overwritten_beyond:
  assumes "scan_ok H (p # vs)" "biow_ok (H b)" "\<not> fst p < biow_end (H b)"
  shows "\<forall>u \<in> set (p # vs). \<not> overwritten H b (snd u)"
proof
  fix u assume u: "u \<in> set (p # vs)"
  then have "fst p \<le> fst u" "fst u = bw_pos (H (snd u))" "biow_ok (H (snd u))"
    using assms(1) by (auto simp: scan_ok_def)
  then show "\<not> overwritten H b (snd u)"
    using overwritten_end(1) [of H b "snd u"] assms(2,3) by auto
qed

lemma scan_ok_append: "scan_ok H (us @ vs) \<Longrightarrow> scan_ok H vs"
  by (simp add: scan_ok_def sorted_wrt_append)

lemma scan_ok_Cons: "scan_ok H (p # vs) \<Longrightarrow> scan_ok H vs"
  by (simp add: scan_ok_def)

lemma scan_ok_cong:
  "(\<And>v. bw_pos (H' v) = bw_pos (H v) \<and> bw_len (H' v) = bw_len (H v)) \<Longrightarrow> scan_ok H' ps = scan_ok H ps"
  by (simp add: scan_ok_def biow_ok_def)

lemma flagged_same: "\<forall>v \<in> S. \<not> overwritten H b v \<Longrightarrow> flagged H b S = H"
  by (auto simp: flagged_def fun_eq_iff)

lemma flagged_step:
  assumes "v \<notin> S" "overwritten H b v"
  shows "flagged (H(v := biow_set_flag BIO_WRAPPER_OVERWRITTEN (H v))) b S = flagged H b (insert v S)"
    "overwritten (H(v := biow_set_flag BIO_WRAPPER_OVERWRITTEN (H v))) b = overwritten H b"
proof -
  show ow: "overwritten (H(v := biow_set_flag BIO_WRAPPER_OVERWRITTEN (H v))) b = overwritten H b"
    using assms(2) by (auto simp: overwritten_def bio_wrapper_is_overwritten_by_def fun_eq_iff)
  show "flagged (H(v := biow_set_flag BIO_WRAPPER_OVERWRITTEN (H v))) b S = flagged H b (insert v S)"
    using assms unfolding flagged_def ow by (auto simp: fun_eq_iff)
qed

context rb_contract
begin

text \<open>At the last pair.\<close>

lemma overwritten_loop_last:
  assumes wf: "multimap_wf rb_good t" and at: "mcursor_at t us p [] c"
    and sc: "scan_ok H [p]" and b: "biow_ok (H b)"
  shows "\<exists>t'. overwritten_loop rb_del (biow_end (H b)) b t c H = Some (t', flagged H b {snd p}) \<and>
    multimap_wf rb_good t' \<and> mm_pairs t' = us @ filter (\<lambda>u. \<not> overwritten H b (snd u)) [p]"
proof (cases "fst p < biow_end (H b) \<and> overwritten H b (snd p)")
  case True
  obtain t' c' where d: "multimap_cursor_del rb_del t c = (True, t', c')" "multimap_wf rb_good t'"
      "mm_pairs t' = us" "multimap_cursor_is_end c'"
    using multimap_cursor_del_spec [OF wf at] by auto
  have "\<not> multimap_cursor_is_data c'"
    using d(4) by (simp add: multimap_cursor_is_end_def multimap_cursor_is_data_def map_cursor_is_end_def map_cursor_is_data_def)
  moreover have "flagged H b {snd p} = H(snd p := biow_set_flag BIO_WRAPPER_OVERWRITTEN (H (snd p)))"
    using True by (auto simp: flagged_def)
  ultimately show ?thesis
    using True mcursor_key_val [OF wf at] d
    by (subst overwritten_loop.simps) (simp add: Let_def flip: overwritten_def)
next
  case False
  obtain c' where nx: "multimap_cursor_next t c = (False, c')"
    using mcursor_next [OF wf at] by (cases "multimap_cursor_next t c") auto
  have no: "\<not> overwritten H b (snd p)" using False not_overwritten_beyond [OF sc b] by auto
  then have "overwritten_loop rb_del (biow_end (H b)) b t c H = Some (t, H)"
    using mcursor_key_val [OF wf at] nx
    by (subst overwritten_loop.simps) (simp add: Let_def flip: overwritten_def)
  then show ?thesis using no mcursor_at_pairs [OF at] wf by (simp add: flagged_same)
qed

lemma overwritten_loop_ok:
  assumes "multimap_wf rb_good t" "mcursor_at t us p vs c" "scan_ok H (p # vs)" "biow_ok (H b)"
  shows "\<exists>t'. overwritten_loop rb_del (biow_end (H b)) b t c H = Some (t', flagged H b (snd ` set (p # vs))) \<and>
    multimap_wf rb_good t' \<and> mm_pairs t' = us @ filter (\<lambda>u. \<not> overwritten H b (snd u)) (p # vs)"
  using assms
proof (induction vs arbitrary: t us p c H)
  case Nil
  then show ?case using overwritten_loop_last by simp
next
  case (Cons q vs)
  note kv = mcursor_key_val [OF Cons.prems(1,2)]
  have ps: "mm_pairs t = us @ p # q # vs" by (rule mcursor_at_pairs [OF Cons.prems(2)])
  note ok' = scan_ok_Cons [OF Cons.prems(3)]
  consider (stop) "\<not> fst p < biow_end (H b)" | (del) "fst p < biow_end (H b)" "overwritten H b (snd p)"
    | (keep) "fst p < biow_end (H b)" "\<not> overwritten H b (snd p)" by blast
  then show ?case
  proof cases
    case stop
    note no = not_overwritten_beyond [OF Cons.prems(3,4) stop]
    have "overwritten_loop rb_del (biow_end (H b)) b t c H = Some (t, H)"
      using kv stop by (subst overwritten_loop.simps) simp
    moreover have "flagged H b (snd ` set (p # q # vs)) = H" using no by (intro flagged_same) auto
    moreover have "filter (\<lambda>u. \<not> overwritten H b (snd u)) (p # q # vs) = p # q # vs"
      using no by (simp add: filter_id_conv)
    ultimately show ?thesis using ps Cons.prems(1) by simp
  next
    case keep
    obtain c' where c': "multimap_cursor_next t c = (True, c')" "mcursor_at t (us @ [p]) q vs c'"
      using mcursor_next [OF Cons.prems(1,2)] by (cases "multimap_cursor_next t c") auto
    have "overwritten_loop rb_del (biow_end (H b)) b t c H = overwritten_loop rb_del (biow_end (H b)) b t c' H"
      using kv keep c'(1) by (subst overwritten_loop.simps) (simp add: Let_def flip: overwritten_def)
    moreover have "flagged H b (snd ` set (p # q # vs)) = flagged H b (snd ` set (q # vs))"
      using keep(2) by (auto simp: flagged_def)
    ultimately show ?thesis
      using Cons.IH [OF Cons.prems(1) c'(2) ok' Cons.prems(4)] keep(2) by simp
  next
    case del
    define H1 where "H1 = H(snd p := biow_set_flag BIO_WRAPPER_OVERWRITTEN (H (snd p)))"
    obtain t' c' where d: "multimap_cursor_del rb_del t c = (True, t', c')" "multimap_wf rb_good t'"
        "mcursor_at t' us q vs c'"
      using multimap_cursor_del_spec [OF Cons.prems(1,2)] by auto
    have ne: "snd p \<notin> snd ` set (q # vs)" and pb: "snd p \<noteq> b"
      using Cons.prems(3) del(2) by (auto simp: scan_ok_def overwritten_def)
    note fl = flagged_step [OF ne del(2), folded H1_def]
    have same: "H1 b = H b" and pl: "\<And>v. bw_pos (H1 v) = bw_pos (H v) \<and> bw_len (H1 v) = bw_len (H v)"
      using pb by (simp_all add: H1_def)
    have okH: "scan_ok H1 (q # vs)" using ok' scan_ok_cong [where H' = H1 and H = H and ps = "q # vs"] pl by simp
    have "overwritten_loop rb_del (biow_end (H b)) b t c H = overwritten_loop rb_del (biow_end (H1 b)) b t' c' H1"
      using kv del d(1) mcursor_key_val(3) [OF d(2,3)] same
      by (subst overwritten_loop.simps) (simp add: Let_def H1_def flip: overwritten_def)
    moreover have "insert (snd p) (snd ` set (q # vs)) = snd ` set (p # q # vs)" by simp
    ultimately show ?thesis
      using Cons.IH [OF d(2,3) okH] Cons.prems(4) del(2) same fl by simp
  qed
qed

lemma delete_fully_overwritten_spec:
  assumes ix: "index_ok rb_good t m H" and b: "biow_ok (H b)"
  shows "\<exists>t'. pending_delete_fully_overwritten rb_del t H b = Some (t', flagged H b (set (mm_vals t))) \<and>
    index_ok rb_good t' m (flagged H b (set (mm_vals t))) \<and>
    mm_vals t' = filter (\<lambda>v. \<not> overwritten H b v) (mm_vals t)"
proof -
  let ?F = "flagged H b (set (mm_vals t))"
  have wf: "multimap_wf rb_good t" using ix by (simp add: index_ok_def)
  have pl: "bw_pos (?F v) = bw_pos (H v) \<and> bw_len (?F v) = bw_len (H v)" for v by (simp add: flagged_def)
  have pair: "fst u = bw_pos (H (snd u)) \<and> biow_ok (H (snd u))" if "u \<in> set (mm_pairs t)" for u
    using ix that by (auto simp: index_ok_def)
  have "\<exists>t'. pending_delete_fully_overwritten rb_del t H b = Some (t', ?F) \<and> multimap_wf rb_good t' \<and>
      mm_pairs t' = filter (\<lambda>u. \<not> overwritten H b (snd u)) (mm_pairs t)"
  proof (cases "multimap_cursor_search t multimap_cursor_init (bw_pos (H b)) MAP_SEARCH_GE False")
    case (Pair found c)
    have below: "\<not> overwritten H b (snd u)" if "u \<in> set (mm_pairs t)" "fst u < bw_pos (H b)" for u
      using overwritten_end(2) [of H b "snd u"] pair [OF that(1)] b that(2) by auto
    show ?thesis
    proof (cases found)
      case False
      then have "\<forall>u \<in> set (mm_pairs t). fst u < bw_pos (H b)"
        using mcursor_search_GE [OF wf, where c = multimap_cursor_init and key = "bw_pos (H b)"] Pair by simp
      then have no: "\<forall>u \<in> set (mm_pairs t). \<not> overwritten H b (snd u)" using below by blast
      then have "?F = H" by (intro flagged_same) (auto simp: mm_vals_def)
      then show ?thesis
        using False Pair wf no by (simp add: pending_delete_fully_overwritten_def filter_id_conv)
    next
      case True
      then obtain us p vs where at: "mcursor_at t us p vs c" "\<forall>u \<in> set us. fst u < bw_pos (H b)"
        using mcursor_search_GE [OF wf, where c = multimap_cursor_init and key = "bw_pos (H b)"] Pair by auto
      have ps: "mm_pairs t = us @ p # vs" by (rule mcursor_at_pairs [OF at(1)])
      have "scan_ok H (mm_pairs t)"
        using mm_pairs_sorted [OF multimap_wf_sorted [OF wf]] index_ok_vals(1) [OF ix] pair
        by (simp add: scan_ok_def mm_vals_def)
      then have sc: "scan_ok H (p # vs)" unfolding ps by (rule scan_ok_append)
      have nu: "\<forall>u \<in> set us. \<not> overwritten H b (snd u)" using below at(2) ps by simp
      have "flagged H b (snd ` set (p # vs)) = ?F"
        using nu ps by (auto simp: flagged_def fun_eq_iff mm_vals_def)
      moreover have "filter (\<lambda>u. \<not> overwritten H b (snd u)) us = us" using nu by (simp add: filter_id_conv)
      ultimately show ?thesis
        using overwritten_loop_ok [OF wf at(1) sc b] True Pair ps
        by (simp add: pending_delete_fully_overwritten_def)
    qed
  qed
  then obtain t' where t': "pending_delete_fully_overwritten rb_del t H b = Some (t', ?F)" "multimap_wf rb_good t'"
      "mm_pairs t' = filter (\<lambda>u. \<not> overwritten H b (snd u)) (mm_pairs t)" by blast
  have "index_ok rb_good t' m H" using ix t'(2,3) by (auto simp: index_ok_def)
  then have "index_ok rb_good t' m ?F" by (rule index_ok_cong) (simp_all add: pl)
  then show ?thesis using t' by (simp add: mm_vals_def filter_map comp_def)
qed

end

text \<open>
  C36. Inserting a pending write and taking out what it overwrites returns.  When the insertion
  has its memory, the pending data then has the new write and exactly those older ones that it
  does not cover completely; the ones taken out carry the overwritten flag and no other wrapper
  changes.  Otherwise nothing changes.
\<close>

theorem pending_insert_drops_overwritten:
  assumes "rb_contract rb_ins rb_del rb_good" "index_ok rb_good t m H"
    and "biow_ok (H b)" "b \<notin> set (mm_vals t)" "b \<noteq> INVALID_VAL"
  shows "\<exists>ok t' m' H'. pending_insert_and_delete_fully_overwritten rb_ins rb_del t m H b al = Some (ok, t', m', H') \<and>
    (if ok then
       (let out = {v \<in> set (mm_vals t). biow_blocks (H v) \<subseteq> biow_blocks (H b)} in
        index_ok rb_good t' m' H' \<and> set (mm_vals t') = insert b (set (mm_vals t) - out) \<and>
        (\<forall>v. H' v = (if v \<in> out then biow_set_flag BIO_WRAPPER_OVERWRITTEN (H v) else H v)))
     else t' = t \<and> m' = m \<and> H' = H \<and> \<not> (cell_ok al \<and> head_ok al \<and> node_ok al))"
proof -
  obtain e t1 where add: "multimap_add rb_ins t (bw_pos (H b)) b al = (e, t1)" by fastforce
  note a = rb_contract.index_add [OF assms add]
  show ?thesis
  proof (cases e)
    case (Some err)
    then show ?thesis
      using a add
      by (intro exI [of _ False]) (simp add: pending_insert_and_delete_fully_overwritten_def pending_insert_def)
  next
    case None
    let ?m = "max m (bw_len (H b))" and ?F = "flagged H b (set (mm_vals t1))"
    have ix: "index_ok rb_good t1 ?m H" and vals: "set (mm_vals t1) = insert b (set (mm_vals t))"
      using a None by auto
    obtain t' where d: "pending_delete_fully_overwritten rb_del t1 H b = Some (t', ?F)"
        "index_ok rb_good t' ?m ?F" "mm_vals t' = filter (\<lambda>v. \<not> overwritten H b v) (mm_vals t1)"
      using rb_contract.delete_fully_overwritten_spec [OF assms(1) ix assms(3)] by blast
    have ow: "overwritten H b v = (biow_blocks (H v) \<subseteq> biow_blocks (H b))" if "v \<in> set (mm_vals t)" for v
      using that assms(4) overwritten_iff_blocks [of "H v" "H b"] index_ok_vals(2) [OF assms(2) that] assms(3)
      by (auto simp: overwritten_def)
    have "\<not> overwritten H b b" by (simp add: overwritten_def)
    then have "set (mm_vals t') = insert b (set (mm_vals t) - {v \<in> set (mm_vals t). biow_blocks (H v) \<subseteq> biow_blocks (H b)})"
      using ow by (auto simp: d(3) vals)
    moreover have "?F v = (if v \<in> {v \<in> set (mm_vals t). biow_blocks (H v) \<subseteq> biow_blocks (H b)}
        then biow_set_flag BIO_WRAPPER_OVERWRITTEN (H v) else H v)" for v
      using ow \<open>\<not> overwritten H b b\<close> by (auto simp: flagged_def vals)
    ultimately show ?thesis
      using d(1,2) add None
      by (intro exI [of _ True]) (simp add: pending_insert_and_delete_fully_overwritten_def pending_insert_def Let_def)
  qed
qed

text \<open>One pending write of eight blocks at block 100, a write that covers it, and a read of it.\<close>

definition demo_pending :: tree_map where
  "demo_pending = RbNode RB_BLACK RbNull (100, CellHead \<lparr>tch_key = 100, tch_cells = [1]\<rparr>) RbNull"

definition demo_ios :: biow_store where
  "demo_ios v = (if v = 1 then demo_wrapper 100 8 5 1 else if v = 2 then demo_wrapper 96 16 6 2 else demo_wrapper 98 4 0 0)"

lemma demo_pending_index: "index_ok rb_inv demo_pending 8 demo_ios" "mm_vals demo_pending = [1]"
proof -
  have ps: "mm_pairs demo_pending = [(100, 1)]"
    by (simp add: mm_pairs_def demo_pending_def cells_at_def node_val_def)
  then show "mm_vals demo_pending = [1]" by (simp add: mm_vals_def)
  have "multimap_wf rb_inv demo_pending"
    by (simp add: multimap_wf_def map_wf_def demo_pending_def rb_inv_def TREEMAP_INVALID_VAL_def map_abs_def
        good_head_def INVALID_VAL_def)
  then show "index_ok rb_inv demo_pending 8 demo_ios"
    by (simp add: index_ok_def ps demo_ios_def demo_wrapper_def biow_ok_def)
qed

lemma demo_ios_ok: "pending_ok (demo_ios 1)" "biow_ok (demo_ios 2)" "read_ok (demo_ios 3)"
  using demo_wrapper_list [of 8 100 5 1] demo_wrapper_list [of 4 98 0 0]
  by (simp_all add: demo_ios_def pending_ok_def read_ok_def) (simp_all add: demo_wrapper_def biow_ok_def biow_blocks_def)


theorem pending_insert_drops_overwritten_witness:
  "\<exists>ok t' m' H'. pending_insert_and_delete_fully_overwritten tool_rb_ins tool_rb_del demo_pending 8 demo_ios 2
       \<lparr>cell_ok = True, head_ok = True, node_ok = True\<rparr> = Some (ok, t', m', H') \<and> ok \<and>
     set (mm_vals t') = {2} \<and> bio_wrapper_state_is_overwritten (H' 1)"
proof -
  let ?al = "\<lparr>cell_ok = True, head_ok = True, node_ok = True\<rparr>"
  have out: "{v \<in> set (mm_vals demo_pending). biow_blocks (demo_ios v) \<subseteq> biow_blocks (demo_ios 2)} = {1}"
    by (auto simp: demo_pending_index(2) demo_ios_def demo_wrapper_def biow_blocks_def)
  have "2 \<notin> set (mm_vals demo_pending)" "(2 :: ulong) \<noteq> INVALID_VAL"
    by (simp_all add: demo_pending_index(2) INVALID_VAL_def)
  note r = pending_insert_drops_overwritten [OF tool_rb.rb_contract_axioms demo_pending_index(1) demo_ios_ok(2) this,
      of ?al, unfolded out Let_def]
  then show ?thesis
    by (auto simp: demo_pending_index(2) bio_wrapper_state_is_overwritten_def biow_set_flag_def
        BIO_WRAPPER_OVERWRITTEN_def split: if_splits)
qed

end
