(* ===== verification/Walb_Overlapped.thy ===== *)
theory Walb_Overlapped
  imports Walb_Biow_Index
begin

text \<open>
  Serialization of overlapping writes, \<^verbatim>\<open>module/overlapped_io.c\<close>.  A write enters the
  overlapped data with the number of writes in it that overlap, is submitted to the data
  device when this number is 0, and on completion leaves and decrements the number of those
  that overlap it.  The counter is a C \<^verbatim>\<open>int\<close>; it is an \<^typ>\<open>int\<close> here, and the invariant
  keeps it between 0 and the number of entries.
\<close>

section \<open>Operations\<close>

definition count_body :: "ulong \<Rightarrow> ulong \<Rightarrow> biow_store \<Rightarrow> biow_store" where
  "count_body biow biow_tmp H =
     (if bio_wrapper_is_overlap (H biow) (H biow_tmp) then
        H(biow := (H biow)\<lparr>bw_n_overlapped := bw_n_overlapped (H biow) + 1\<rparr>)
      else H)"

definition overlapped_check_and_insert ::
    "rb_op \<Rightarrow> tree_map \<Rightarrow> u32 \<Rightarrow> biow_store \<Rightarrow> ulong \<Rightarrow> treemap_allocs \<Rightarrow>
     (bool \<times> tree_map \<times> u32 \<times> biow_store) option" where
  "overlapped_check_and_insert rb_ins overlapped_data max_sectors H biow al =
     (let start_pos = search_start max_sectors (bw_pos (H biow));
          H0 = H(biow := (H biow)\<lparr>bw_n_overlapped := 0\<rparr>);
          (found, cur) = multimap_cursor_search overlapped_data multimap_cursor_init start_pos MAP_SEARCH_GE False in
      case (if \<not> found then Some H0
            else map_option
              (\<lambda>H1. if bw_n_overlapped (H1 biow) > 0 then H1(biow := biow_set_flag BIO_WRAPPER_DELAYED (H1 biow)) else H1)
              (scan_while overlapped_data (biow_end (H0 biow)) (count_body biow) cur H0)) of
        None \<Rightarrow> None
      | Some H2 \<Rightarrow>
          (case multimap_add rb_ins overlapped_data (bw_pos (H2 biow)) biow al of
             (Some _, _) \<Rightarrow> Some (False, overlapped_data, max_sectors, H2)
           | (None, data') \<Rightarrow> Some (True, data', max max_sectors (bw_len (H2 biow)), H2)))"

definition notify_body ::
    "ulong \<Rightarrow> ulong \<Rightarrow> biow_store \<times> ulong list \<times> nat \<Rightarrow> biow_store \<times> ulong list \<times> nat" where
  "notify_body biow biow_tmp s =
     (case s of (H, submit, n) \<Rightarrow>
        if bio_wrapper_is_overlap (H biow) (H biow_tmp) then
          (let H' = H(biow_tmp := (H biow_tmp)\<lparr>bw_n_overlapped := bw_n_overlapped (H biow_tmp) - 1\<rparr>) in
           if bw_n_overlapped (H' biow_tmp) = 0 then (H', submit @ [biow_tmp], n + 1) else (H', submit, n))
        else (H, submit, n))"

definition overlapped_delete_and_notify ::
    "rb_op \<Rightarrow> tree_map \<Rightarrow> u32 \<Rightarrow> ulong list \<Rightarrow> biow_store \<Rightarrow> ulong \<Rightarrow>
     (nat \<times> tree_map \<times> u32 \<times> ulong list \<times> biow_store) option" where
  "overlapped_delete_and_notify rb_del overlapped_data max_sectors should_submit_list H biow =
     (let start_pos = search_start max_sectors (bw_pos (H biow));
          (biow_tmp, data') = multimap_del rb_del overlapped_data (bw_pos (H biow)) biow;
          max_sectors' = (if multimap_is_empty data' then 0 else max_sectors);
          (found, cur) = multimap_cursor_search data' multimap_cursor_init start_pos MAP_SEARCH_GE False in
      if \<not> found then Some (0, data', max_sectors', should_submit_list, H)
      else map_option (\<lambda>(H', submit, n). (n, data', max_sectors', submit, H'))
             (scan_while data' (biow_end (H biow)) (notify_body biow) cur (H, should_submit_list, 0)))"

section \<open>What the loops compute\<close>

lemma fold_count_body:
  assumes "b \<notin> set vs"
  shows "fold (count_body b) vs H =
    H(b := (H b)\<lparr>bw_n_overlapped := bw_n_overlapped (H b) + int (length (filter (\<lambda>v. bio_wrapper_is_overlap (H b) (H v)) vs))\<rparr>)"
  using assms
proof (induction vs arbitrary: H)
  case (Cons v vs)
  have "bio_wrapper_is_overlap (w\<lparr>bw_n_overlapped := n\<rparr>) x = bio_wrapper_is_overlap w x" for w x n
    by (rule overlap_cong) simp_all
  moreover have "filter (\<lambda>u. bio_wrapper_is_overlap w ((H(b := y)) u)) vs = filter (\<lambda>u. bio_wrapper_is_overlap w (H u)) vs" for w y
    by (rule filter_cong) (use Cons.prems in auto)
  ultimately show ?case using Cons by (auto simp: count_body_def fun_eq_iff)
qed simp

definition decremented :: "biow_store \<Rightarrow> ulong \<Rightarrow> ulong set \<Rightarrow> biow_store" where
  "decremented H b S = (\<lambda>v. if v \<in> S \<and> bio_wrapper_is_overlap (H b) (H v)
     then (H v)\<lparr>bw_n_overlapped := bw_n_overlapped (H v) - 1\<rparr> else H v)"

definition woken :: "biow_store \<Rightarrow> ulong \<Rightarrow> ulong \<Rightarrow> bool" where
  "woken H b v \<longleftrightarrow> bio_wrapper_is_overlap (H b) (H v) \<and> bw_n_overlapped (H v) = 1"

lemma fold_notify_body:
  assumes "b \<notin> set vs" "distinct vs"
  shows "fold (notify_body b) vs (H, sl, n) =
    (decremented H b (set vs), sl @ filter (woken H b) vs, n + length (filter (woken H b) vs))"
  using assms
proof (induction vs arbitrary: H sl n)
  case Nil
  then show ?case by (simp add: decremented_def)
next
  case (Cons v vs)
  let ?H = "if bio_wrapper_is_overlap (H b) (H v) then H(v := (H v)\<lparr>bw_n_overlapped := bw_n_overlapped (H v) - 1\<rparr>) else H"
  have step: "notify_body b v (H, sl, n) =
      (?H, sl @ (if woken H b v then [v] else []), n + (if woken H b v then 1 else 0))"
    by (auto simp: notify_body_def woken_def Let_def)
  have w: "filter (woken ?H b) vs = filter (woken H b) vs"
    by (rule filter_cong) (use Cons.prems in \<open>auto simp: woken_def\<close>)
  have "decremented ?H b (set vs) = decremented H b (set (v # vs))"
    using Cons.prems by (auto simp: decremented_def fun_eq_iff)
  then show ?case using Cons.IH [of ?H] Cons.prems by (simp add: step w)
qed

section \<open>The invariant\<close>

text \<open>
  The history variable \<^verbatim>\<open>q\<close> lists the entries in the order of their insertion; \<^verbatim>\<open>ahead q v\<close> are
  the older ones than \<^verbatim>\<open>v\<close>.  Every counter is the number of older entries that overlap.
\<close>

definition ahead :: "'a list \<Rightarrow> 'a \<Rightarrow> 'a list" where
  "ahead q v = takeWhile (\<lambda>u. u \<noteq> v) q"

definition n_ahead :: "biow_store \<Rightarrow> ulong list \<Rightarrow> ulong \<Rightarrow> nat" where
  "n_ahead H q v = length (filter (\<lambda>u. bio_wrapper_is_overlap (H v) (H u)) (ahead q v))"

definition ol_inv :: "(tree_map \<Rightarrow> bool) \<Rightarrow> tree_map \<Rightarrow> u32 \<Rightarrow> biow_store \<Rightarrow> ulong list \<Rightarrow> bool" where
  "ol_inv rb_good t m H q \<longleftrightarrow> index_ok rb_good t m H \<and> distinct q \<and> set q = set (mm_vals t) \<and>
     (\<forall>v \<in> set q. bw_n_overlapped (H v) = int (n_ahead H q v))"

lemma ahead_append: "ahead (xs @ ys) v = (if v \<in> set xs then ahead xs v else xs @ ahead ys v)"
  by (induction xs) (auto simp: ahead_def)

lemma ahead_Cons: "ahead (x # xs) v = (if x = v then [] else x # ahead xs v)"
  by (simp add: ahead_def)

lemma ahead_subset: "set (ahead q v) \<subseteq> set q"
  by (auto simp: ahead_def dest: set_takeWhileD)

lemma n_ahead_cong:
  assumes "\<And>u. u \<in> insert v (set q) \<Longrightarrow> bw_pos (H' u) = bw_pos (H u) \<and> bw_len (H' u) = bw_len (H u)"
  shows "n_ahead H' q v = n_ahead H q v"
proof -
  have "filter (\<lambda>u. bio_wrapper_is_overlap (H' v) (H' u)) (ahead q v) =
      filter (\<lambda>u. bio_wrapper_is_overlap (H v) (H u)) (ahead q v)"
  proof (rule filter_cong [OF refl])
    fix u assume "u \<in> set (ahead q v)"
    then show "bio_wrapper_is_overlap (H' v) (H' u) = bio_wrapper_is_overlap (H v) (H u)"
      using assms ahead_subset [of q v] by (intro overlap_cong) auto
  qed
  then show ?thesis by (simp add: n_ahead_def)
qed

lemma length_filter_set_eq:
  "distinct xs \<Longrightarrow> distinct ys \<Longrightarrow> set xs = set ys \<Longrightarrow> length (filter P xs) = length (filter P ys)"
  by (metis distinct_card distinct_filter set_filter)

text \<open>The state after the insertion of \<^verbatim>\<open>b\<close>: only its own wrapper has changed.\<close>

definition ol_entered :: "biow_store \<Rightarrow> ulong list \<Rightarrow> ulong \<Rightarrow> biow_store" where
  "ol_entered H q b =
     (let n = length (filter (\<lambda>u. bio_wrapper_is_overlap (H b) (H u)) q);
          w = (H b)\<lparr>bw_n_overlapped := int n\<rparr> in
      H(b := if n > 0 then biow_set_flag BIO_WRAPPER_DELAYED w else w))"

lemma ol_entered_pos_len: "bw_pos (ol_entered H q b v) = bw_pos (H v) \<and> bw_len (ol_entered H q b v) = bw_len (H v)"
  by (simp add: ol_entered_def Let_def)

lemma ol_inv_enter:
  assumes inv: "ol_inv rb_good t m H q" and b: "b \<notin> set q"
    and t': "index_ok rb_good t' m' H" "set (mm_vals t') = insert b (set (mm_vals t))"
  shows "ol_inv rb_good t' m' (ol_entered H q b) (q @ [b])"
proof -
  let ?H = "ol_entered H q b"
  have n: "n_ahead ?H (q @ [b]) v = n_ahead H (q @ [b]) v" for v
    by (rule n_ahead_cong) (simp add: ol_entered_pos_len)
  have old: "n_ahead H (q @ [b]) v = n_ahead H q v" if "v \<in> set q" for v
    using that by (simp add: n_ahead_def ahead_append)
  have new: "n_ahead H (q @ [b]) b = length (filter (\<lambda>u. bio_wrapper_is_overlap (H b) (H u)) q)"
    using b by (simp add: n_ahead_def ahead_append ahead_Cons)
  have "bw_n_overlapped (?H v) = int (n_ahead ?H (q @ [b]) v)" if "v \<in> set (q @ [b])" for v
  proof (cases "v = b")
    case True
    then show ?thesis unfolding n by (simp add: new) (simp add: ol_entered_def Let_def)
  next
    case False
    then have v: "v \<in> set q" using that by simp
    then have "bw_n_overlapped (?H v) = bw_n_overlapped (H v)" using b by (auto simp: ol_entered_def Let_def)
    then show ?thesis using inv v unfolding n by (simp add: old ol_inv_def)
  qed
  moreover have "index_ok rb_good t' m' ?H"
    by (rule index_ok_cong [OF t'(1)]) (simp_all add: ol_entered_pos_len)
  ultimately show ?thesis using inv b t'(2) by (auto simp: ol_inv_def)
qed

text \<open>After \<^verbatim>\<open>b\<close> has left, every entry after it that overlaps counts one less.\<close>

lemma ol_inv_leave:
  assumes inv: "ol_inv rb_good t m H (xs @ b # ys)" and zero: "bw_n_overlapped (H b) = 0"
    and t': "index_ok rb_good t' m' H" "set (mm_vals t') = set (mm_vals t) - {b}"
  shows "ol_inv rb_good t' m' (decremented H b (set (mm_vals t'))) (xs @ ys)"
    "set (filter (woken H b) (mm_vals t')) =
       {v \<in> set (xs @ ys). 0 < bw_n_overlapped (H v) \<and> bw_n_overlapped (decremented H b (set (mm_vals t')) v) = 0}"
proof -
  let ?S = "set (mm_vals t')" and ?q = "xs @ b # ys"
  let ?H = "decremented H b ?S"
  have dis: "distinct ?q" and S: "?S = set (xs @ ys)" and n: "\<And>v. v \<in> set ?q \<Longrightarrow> bw_n_overlapped (H v) = int (n_ahead H ?q v)"
    using inv t'(2) by (auto simp: ol_inv_def)
  have pl: "bw_pos (?H v) = bw_pos (H v) \<and> bw_len (?H v) = bw_len (H v)" for v by (simp add: decremented_def)
  have n': "n_ahead ?H q v = n_ahead H q v" for q v by (rule n_ahead_cong) (simp add: pl)
  have "n_ahead H ?q b = 0" using n [of b] zero by simp
  then have older: "\<not> bio_wrapper_is_overlap (H b) (H v)" if "v \<in> set xs" for v
    using dis that by (auto simp: n_ahead_def ahead_append ahead_Cons filter_empty_conv)
  have xs: "n_ahead H (xs @ ys) v = n_ahead H ?q v" if "v \<in> set xs" for v
    using that by (simp add: n_ahead_def ahead_append)
  have ys: "n_ahead H ?q v = n_ahead H (xs @ ys) v + (if bio_wrapper_is_overlap (H b) (H v) then 1 else 0)"
    if "v \<in> set ys" for v
  proof -
    have "v \<notin> set xs" "b \<noteq> v" using dis that by auto
    then show ?thesis by (simp add: n_ahead_def ahead_append ahead_Cons overlap_commute [of "H b" "H v"])
  qed
  have "bw_n_overlapped (?H v) = int (n_ahead ?H (xs @ ys) v)" if "v \<in> set (xs @ ys)" for v
  proof (cases "v \<in> set xs")
    case True
    then show ?thesis using n [of v] older [of v] xs [of v] unfolding n' by (simp add: decremented_def)
  next
    case False
    then have "v \<in> set ys" using that by simp
    then show ?thesis using n [of v] ys [of v] S unfolding n' by (simp add: decremented_def)
  qed
  moreover have "index_ok rb_good t' m' ?H" by (rule index_ok_cong [OF t'(1)]) (simp_all add: pl)
  ultimately show "ol_inv rb_good t' m' ?H (xs @ ys)" using dis S by (simp add: ol_inv_def)
  show "set (filter (woken H b) (mm_vals t')) =
      {v \<in> set (xs @ ys). 0 < bw_n_overlapped (H v) \<and> bw_n_overlapped (?H v) = 0}"
    using older S by (auto simp: woken_def decremented_def)
qed

lemma range_vals_subset: "set (range_vals t lo hi) \<subseteq> set (mm_vals t)"
  by (auto simp: range_vals_def mm_vals_def)

lemma range_vals_distinct: "distinct (mm_vals t) \<Longrightarrow> distinct (range_vals t lo hi)"
  by (simp add: range_vals_def mm_vals_def distinct_map_filter)

text \<open>The counting loop, whether the search finds a first candidate or not.\<close>

lemma count_loop_result:
  assumes inv: "ol_inv rb_good t m H q" and b: "biow_ok (H b)" "b \<notin> set q"
    and s: "multimap_cursor_search t multimap_cursor_init (search_start m (bw_pos (H b))) MAP_SEARCH_GE False = (found, cur)"
  defines "H0 \<equiv> H(b := (H b)\<lparr>bw_n_overlapped := 0\<rparr>)"
  shows "(if \<not> found then Some H0
      else map_option (\<lambda>H1. if bw_n_overlapped (H1 b) > 0 then H1(b := biow_set_flag BIO_WRAPPER_DELAYED (H1 b)) else H1)
        (scan_while t (biow_end (H0 b)) (count_body b) cur H0)) = Some (ol_entered H q b)"
proof -
  let ?vs = "range_vals t (search_start m (bw_pos (H b))) (biow_end (H b))"
  have ix: "index_ok rb_good t m H" and wf: "multimap_wf rb_good t" and q: "distinct q" "set q = set (mm_vals t)"
    using inv by (auto simp: ol_inv_def index_ok_def)
  have nb: "b \<notin> set ?vs" using b(2) q(2) range_vals_subset by fast
  have "filter (\<lambda>v. bio_wrapper_is_overlap (H0 b) (H0 v)) ?vs = filter (\<lambda>v. bio_wrapper_is_overlap (H b) (H v)) ?vs"
    by (rule filter_cong) (use nb in \<open>auto simp: H0_def bio_wrapper_is_overlap_def\<close>)
  also have "\<dots> = filter (\<lambda>v. bio_wrapper_is_overlap (H b) (H v)) (mm_vals t)"
    by (rule range_has_overlapping [OF ix b(1)])
  finally have n: "length (filter (\<lambda>v. bio_wrapper_is_overlap (H0 b) (H0 v)) ?vs) =
      length (filter (\<lambda>v. bio_wrapper_is_overlap (H b) (H v)) q)"
    using length_filter_set_eq [OF index_ok_vals(1) [OF ix] q(1)] q(2) by simp
  have e: "biow_end (H0 b) = biow_end (H b)" by (simp add: H0_def biow_end_def)
  show ?thesis
  proof (cases found)
    case False
    then have "?vs = []" using search_scan [OF wf s, of "biow_end (H b)"] by simp
    then show ?thesis using False n by (simp add: ol_entered_def H0_def Let_def)
  next
    case True
    have "scan_while t (biow_end (H0 b)) (count_body b) cur H0 = Some (fold (count_body b) ?vs H0)"
      using search_scan [OF wf s, of "biow_end (H b)" "count_body b" H0] True e by simp
    then show ?thesis
      using True fold_count_body [OF nb, of H0] n
      by (simp add: ol_entered_def Let_def) (auto simp: H0_def)
  qed
qed

context rb_contract
begin

lemma check_and_insert_spec:
  assumes inv: "ol_inv rb_good t m H q" and b: "biow_ok (H b)" "b \<notin> set q" "b \<noteq> INVALID_VAL"
  shows "\<exists>ok t' m'. overlapped_check_and_insert rb_ins t m H b al = Some (ok, t', m', ol_entered H q b) \<and>
           (if ok then ol_inv rb_good t' m' (ol_entered H q b) (q @ [b])
            else t' = t \<and> m' = m \<and> \<not> (cell_ok al \<and> head_ok al \<and> node_ok al))"
proof -
  have ix: "index_ok rb_good t m H" and nb: "b \<notin> set (mm_vals t)" using inv b(2) by (auto simp: ol_inv_def)
  obtain found cur where s: "multimap_cursor_search t multimap_cursor_init (search_start m (bw_pos (H b))) MAP_SEARCH_GE False = (found, cur)"
    by fastforce
  obtain e t' where add: "multimap_add rb_ins t (bw_pos (H b)) b al = (e, t')" by fastforce
  note a = index_add [OF ix b(1) nb b(3) add]
  have "overlapped_check_and_insert rb_ins t m H b al =
      (case e of Some _ \<Rightarrow> Some (False, t, m, ol_entered H q b)
       | None \<Rightarrow> Some (True, t', max m (bw_len (H b)), ol_entered H q b))"
    unfolding overlapped_check_and_insert_def s Let_def prod.case count_loop_result [OF inv b(1,2) s]
    by (simp add: ol_entered_pos_len add split: option.split)
  then show ?thesis
    using a ol_inv_enter [OF inv b(2)] by (cases e) auto
qed

lemma delete_and_notify_spec:
  assumes inv: "ol_inv rb_good t m H (xs @ b # ys)" and zero: "bw_n_overlapped (H b) = 0"
  shows "\<exists>t' m' H' new. overlapped_delete_and_notify rb_del t m sl H b = Some (length new, t', m', sl @ new, H') \<and>
           ol_inv rb_good t' m' H' (xs @ ys) \<and> distinct new \<and>
           (\<forall>v. H' v = H v \<or> H' v = (H v)\<lparr>bw_n_overlapped := bw_n_overlapped (H v) - 1\<rparr>) \<and>
           set new = {v \<in> set (xs @ ys). 0 < bw_n_overlapped (H v) \<and> bw_n_overlapped (H' v) = 0}"
proof -
  have ix: "index_ok rb_good t m H" and b: "b \<in> set (mm_vals t)" using inv by (auto simp: ol_inv_def)
  obtain v t' where d: "multimap_del rb_del t (bw_pos (H b)) b = (v, t')" by fastforce
  note del = index_del [OF ix b d]
  have wf: "multimap_wf rb_good t'" using del(2) by (simp add: index_ok_def)
  define m' where "m' = (if multimap_is_empty t' then 0 else m)"
  have ix': "index_ok rb_good t' m' H"
    using del(2) multimap_is_empty_vals [OF wf] by (auto simp: m'_def index_ok_def mm_vals_def)
  note lv = ol_inv_leave [OF inv zero ix' del(3)]
  let ?vs = "range_vals t' (search_start m (bw_pos (H b))) (biow_end (H b))"
  have vs: "b \<notin> set ?vs" "distinct ?vs"
    using range_vals_subset del(3) range_vals_distinct [OF index_ok_vals(1) [OF ix']] by fastforce+
  have bok: "biow_ok (H b)" using index_ok_vals(2) [OF ix b] by simp
  have w: "filter (woken H b) ?vs = filter (woken H b) (mm_vals t')"
    by (rule range_has_overlapping [OF del(2) bok]) (simp add: woken_def)
  have dec: "decremented H b (set ?vs) = decremented H b (set (mm_vals t'))"
    using arg_cong [OF range_has_overlapping [OF del(2) bok, of "\<lambda>v. bio_wrapper_is_overlap (H b) (H v)"], of set]
    by (auto simp: decremented_def fun_eq_iff)
  obtain found cur where s: "multimap_cursor_search t' multimap_cursor_init (search_start m (bw_pos (H b))) MAP_SEARCH_GE False = (found, cur)"
    by fastforce
  have "overlapped_delete_and_notify rb_del t m sl H b =
      Some (length (filter (woken H b) ?vs), t', m', sl @ filter (woken H b) ?vs, decremented H b (set ?vs))"
  proof (cases found)
    case False
    then have "?vs = []" using search_scan [OF wf s, of "biow_end (H b)"] by simp
    then show ?thesis
      using False by (simp add: overlapped_delete_and_notify_def d s m'_def Let_def decremented_def)
  next
    case True
    then show ?thesis
      using search_scan [OF wf s, of "biow_end (H b)" "notify_body b" "(H, sl, 0)"] fold_notify_body [OF vs, of H sl 0]
      by (simp add: overlapped_delete_and_notify_def d s m'_def Let_def)
  qed
  moreover have "\<forall>v. decremented H b S v = H v \<or> decremented H b S v = (H v)\<lparr>bw_n_overlapped := bw_n_overlapped (H v) - 1\<rparr>" for S
    by (simp add: decremented_def)
  ultimately show ?thesis using lv w dec index_ok_vals(1) [OF ix'] by auto
qed

end

section \<open>All interleavings\<close>

text \<open>
  The overlapped data with the writes that are at the data device (\<^verbatim>\<open>ol_submitted\<close>) and the
  history of the entries.  A write enters and is submitted at once unless its delayed flag is
  set, as the callers in \<^verbatim>\<open>module/io.c\<close> and \<^verbatim>\<open>module/redo.c\<close> do; a completed write leaves and those
  it wakes are submitted.  Entering may fail for lack of memory and is then tried again; the
  flag that a failed attempt has set stays.
\<close>

record ol_state =
  ol_data :: tree_map
  ol_max :: u32
  ol_store :: biow_store
  ol_submitted :: "ulong list"
  ol_queue :: "ulong list"

definition ol_start :: "biow_store \<Rightarrow> ol_state" where
  "ol_start H = \<lparr>ol_data = multimap_init, ol_max = 0, ol_store = H, ol_submitted = [], ol_queue = []\<rparr>"

inductive ol_step :: "rb_op \<Rightarrow> rb_op \<Rightarrow> ol_state \<Rightarrow> ol_state \<Rightarrow> bool"
  for rb_ins rb_del :: rb_op where
  enter: "\<lbrakk>b \<notin> set (ol_queue s); biow_ok (ol_store s b); b \<noteq> INVALID_VAL;
      overlapped_check_and_insert rb_ins (ol_data s) (ol_max s) (ol_store s) b al = Some (True, t', m', H')\<rbrakk> \<Longrightarrow>
    ol_step rb_ins rb_del s \<lparr>ol_data = t', ol_max = m', ol_store = H',
      ol_submitted = (if bio_wrapper_state_is_delayed (H' b) then ol_submitted s else ol_submitted s @ [b]),
      ol_queue = ol_queue s @ [b]\<rparr>"
| enter_fails: "\<lbrakk>b \<notin> set (ol_queue s); biow_ok (ol_store s b); b \<noteq> INVALID_VAL;
      overlapped_check_and_insert rb_ins (ol_data s) (ol_max s) (ol_store s) b al = Some (False, t', m', H')\<rbrakk> \<Longrightarrow>
    ol_step rb_ins rb_del s (s\<lparr>ol_data := t', ol_max := m', ol_store := H'\<rparr>)"
| leave: "\<lbrakk>b \<in> set (ol_submitted s);
      overlapped_delete_and_notify rb_del (ol_data s) (ol_max s) [] (ol_store s) b = Some (n, t', m', new, H')\<rbrakk> \<Longrightarrow>
    ol_step rb_ins rb_del s \<lparr>ol_data = t', ol_max = m', ol_store = H',
      ol_submitted = remove1 b (ol_submitted s) @ new, ol_queue = remove1 b (ol_queue s)\<rparr>"

inductive ol_reach :: "rb_op \<Rightarrow> rb_op \<Rightarrow> ol_state \<Rightarrow> bool" for rb_ins rb_del :: rb_op where
  start: "ol_reach rb_ins rb_del (ol_start H)"
| step: "ol_reach rb_ins rb_del s \<Longrightarrow> ol_step rb_ins rb_del s s' \<Longrightarrow> ol_reach rb_ins rb_del s'"

text \<open>The runs in which no write enters with the flag of a failed attempt.\<close>

definition ol_fresh :: "ol_state \<Rightarrow> ol_state \<Rightarrow> bool" where
  "ol_fresh s s' = (\<forall>b \<in> set (ol_queue s') - set (ol_queue s). \<not> bio_wrapper_state_is_delayed (ol_store s b))"

inductive ol_reach_fresh :: "rb_op \<Rightarrow> rb_op \<Rightarrow> ol_state \<Rightarrow> bool" for rb_ins rb_del :: rb_op where
  fresh_start: "ol_reach_fresh rb_ins rb_del (ol_start H)"
| fresh_step: "ol_reach_fresh rb_ins rb_del s \<Longrightarrow> ol_step rb_ins rb_del s s' \<Longrightarrow> ol_fresh s s' \<Longrightarrow> ol_reach_fresh rb_ins rb_del s'"

lemma ol_fresh_reach: "ol_reach_fresh rb_ins rb_del s \<Longrightarrow> ol_reach rb_ins rb_del s"
  by (induction rule: ol_reach_fresh.induct) (auto intro: ol_reach.start ol_reach.step)

text \<open>The submitted writes wait for none, and in fresh runs all those are submitted.\<close>

definition ol_ready :: "ol_state \<Rightarrow> ulong set" where
  "ol_ready s = {v \<in> set (ol_queue s). bw_n_overlapped (ol_store s v) = 0}"

definition ol_state_inv :: "(tree_map \<Rightarrow> bool) \<Rightarrow> ol_state \<Rightarrow> bool" where
  "ol_state_inv rb_good s \<longleftrightarrow> ol_inv rb_good (ol_data s) (ol_max s) (ol_store s) (ol_queue s) \<and>
     distinct (ol_submitted s) \<and> set (ol_submitted s) \<subseteq> ol_ready s"

lemma ol_entered_delayed:
  "bw_n_overlapped (ol_entered H q b b) \<noteq> 0 \<Longrightarrow> bio_wrapper_state_is_delayed (ol_entered H q b b)"
  "\<not> bio_wrapper_state_is_delayed (H b) \<Longrightarrow>
     bio_wrapper_state_is_delayed (ol_entered H q b b) = (bw_n_overlapped (ol_entered H q b b) \<noteq> 0)"
  by (auto simp: ol_entered_def Let_def bio_wrapper_state_is_delayed_def biow_set_flag_def BIO_WRAPPER_DELAYED_def)

lemma ol_entered_other [simp]: "v \<noteq> b \<Longrightarrow> ol_entered H q b v = H v"
  by (simp add: ol_entered_def Let_def)

lemma ol_inv_other:
  assumes "ol_inv rb_good t m H q" "b \<notin> set q"
  shows "ol_inv rb_good t m (ol_entered H q b) q"
proof -
  let ?H = "ol_entered H q b"
  have same: "?H v = H v" if "v \<in> set q" for v using that assms(2) by (intro ol_entered_other) auto
  have "n_ahead ?H q v = n_ahead H q v" if "v \<in> set q" for v
    by (rule n_ahead_cong) (simp add: ol_entered_pos_len)
  moreover have "index_ok rb_good t m ?H"
    by (rule index_ok_cong [of rb_good t m H]) (use assms in \<open>simp_all add: ol_inv_def ol_entered_pos_len\<close>)
  ultimately show ?thesis using assms same by (simp add: ol_inv_def)
qed

context rb_contract
begin

lemma ol_start_inv: "ol_state_inv rb_good (ol_start H)"
proof -
  have "multimap_wf rb_good multimap_init"
    using good_null by (simp add: multimap_wf_def map_wf_def multimap_init_def map_abs_def)
  then show ?thesis
    by (simp add: ol_state_inv_def ol_start_def ol_inv_def index_ok_def mm_vals_def mm_pairs_def multimap_init_def)
qed

lemma leave_spec:
  assumes inv: "ol_inv rb_good t m H q" and b: "b \<in> set q" "bw_n_overlapped (H b) = 0"
    and d: "overlapped_delete_and_notify rb_del t m [] H b = Some (n, t', m', new, H')"
  shows "ol_inv rb_good t' m' H' (remove1 b q)" "distinct new"
    "set new = {v \<in> set q - {b}. 0 < bw_n_overlapped (H v) \<and> bw_n_overlapped (H' v) = 0}"
    "\<And>v. v \<in> set q - {b} \<Longrightarrow> bw_n_overlapped (H v) = 0 \<Longrightarrow> bw_n_overlapped (H' v) = 0" "set (remove1 b q) = set q - {b}"
    "\<And>v. v \<in> set q \<Longrightarrow> 0 \<le> bw_n_overlapped (H v)"
proof -
  obtain xs ys where q: "q = xs @ b # ys" using b(1) by (meson split_list)
  have nb: "b \<notin> set xs" "b \<notin> set ys" using inv q by (auto simp: ol_inv_def)
  have r: "ol_inv rb_good t' m' H' (xs @ ys)" "distinct new"
      "set new = {v \<in> set (xs @ ys). 0 < bw_n_overlapped (H v) \<and> bw_n_overlapped (H' v) = 0}"
      and dec: "\<And>v. H' v = H v \<or> H' v = (H v)\<lparr>bw_n_overlapped := bw_n_overlapped (H v) - 1\<rparr>"
    using delete_and_notify_spec [OF inv [unfolded q] b(2), of "[]"] d by auto
  have e: "remove1 b q = xs @ ys" "set q - {b} = set (xs @ ys)" using nb by (auto simp: q remove1_append)
  show "ol_inv rb_good t' m' H' (remove1 b q)" "distinct new" "set (remove1 b q) = set q - {b}"
    "set new = {v \<in> set q - {b}. 0 < bw_n_overlapped (H v) \<and> bw_n_overlapped (H' v) = 0}"
    using r e by simp_all
  show "0 \<le> bw_n_overlapped (H v)" if "v \<in> set q" for v using inv that by (auto simp: ol_inv_def)
  have ge: "0 \<le> bw_n_overlapped (H' v)" if "v \<in> set q - {b}" for v using r(1) that e by (auto simp: ol_inv_def)
  show "bw_n_overlapped (H' v) = 0" if "v \<in> set q - {b}" "bw_n_overlapped (H v) = 0" for v
    using ge [OF that(1)] dec [of v] that(2) by auto
qed

lemma ol_step_inv:
  assumes "ol_step rb_ins rb_del s s'" "ol_state_inv rb_good s"
  shows "ol_state_inv rb_good s' \<and> (ol_fresh s s' \<and> set (ol_submitted s) = ol_ready s \<longrightarrow> set (ol_submitted s') = ol_ready s')"
  using assms
proof cases
  case (enter b al t' m' H')
  let ?H = "ol_store s" and ?q = "ol_queue s"
  have inv: "ol_inv rb_good (ol_data s) (ol_max s) ?H ?q" using assms(2) by (simp add: ol_state_inv_def)
  have H': "H' = ol_entered ?H ?q b" "ol_inv rb_good t' m' H' (?q @ [b])"
    using check_and_insert_spec [OF inv enter(3,2,4), of al] enter(5) by auto
  have same: "bw_n_overlapped (H' v) = bw_n_overlapped (?H v)" if "v \<in> set ?q" for v
    using that enter(2) H'(1) by (cases "v = b") auto
  have ready: "ol_ready s' = ol_ready s \<union> (if bw_n_overlapped (H' b) = 0 then {b} else {})"
    using same enter(1) by (auto simp: ol_ready_def)
  have nb: "b \<notin> set (ol_submitted s)" using assms(2) enter(2) by (auto simp: ol_state_inv_def ol_ready_def)
  have "bw_n_overlapped (H' b) = 0" if "\<not> bio_wrapper_state_is_delayed (H' b)"
    using that ol_entered_delayed(1) [of ?H ?q b] H'(1) by auto
  moreover have "bio_wrapper_state_is_delayed (H' b) = (bw_n_overlapped (H' b) \<noteq> 0)" if "ol_fresh s s'"
    using that enter(1,2) ol_entered_delayed(2) [of ?H b ?q] H'(1) by (simp add: ol_fresh_def)
  moreover have "distinct (ol_submitted s)" "set (ol_submitted s) \<subseteq> ol_ready s" using assms(2) by (simp_all add: ol_state_inv_def)
  moreover have "ol_submitted s' = (if bio_wrapper_state_is_delayed (H' b) then ol_submitted s else ol_submitted s @ [b])"
    "ol_inv rb_good (ol_data s') (ol_max s') (ol_store s') (ol_queue s')" using enter(1) H'(2) by simp_all
  ultimately show ?thesis unfolding ol_state_inv_def ready using nb by (cases "bio_wrapper_state_is_delayed (H' b)") auto
next
  case (enter_fails b al t' m' H')
  have inv: "ol_inv rb_good (ol_data s) (ol_max s) (ol_store s) (ol_queue s)"
    using assms(2) by (simp add: ol_state_inv_def)
  have H': "H' = ol_entered (ol_store s) (ol_queue s) b" "t' = ol_data s" "m' = ol_max s"
    using check_and_insert_spec [OF inv enter_fails(3,2,4), of al] enter_fails(5) by auto
  have "H' v = ol_store s v" if "v \<in> set (ol_queue s)" for v
    using that enter_fails(2) H'(1) by (cases "v = b") auto
  then show ?thesis
    using assms(2) enter_fails(1,2) H' ol_inv_other [OF inv, of b] by (auto simp: ol_state_inv_def ol_ready_def)
next
  case (leave b n t' m' new H')
  let ?H = "ol_store s" and ?q = "ol_queue s"
  have b: "b \<in> set ?q" "bw_n_overlapped (?H b) = 0" and inv: "ol_inv rb_good (ol_data s) (ol_max s) ?H ?q"
    and sub: "distinct (ol_submitted s)" "set (ol_submitted s) \<subseteq> ol_ready s"
    using assms(2) leave(2) by (auto simp: ol_state_inv_def ol_ready_def)
  note l = leave_spec [OF inv b leave(3)]
  have 1: "set (remove1 b (ol_submitted s)) = set (ol_submitted s) - {b}" using sub(1) by simp
  have "(ol_ready s - {b}) \<inter> set new = {}" unfolding l(3) ol_ready_def by auto
  moreover have r': "ol_ready s' = {v \<in> set ?q - {b}. bw_n_overlapped (H' v) = 0}" using leave(1) l(5) by (simp add: ol_ready_def)
  moreover have "{v \<in> set ?q - {b}. bw_n_overlapped (H' v) = 0} = (ol_ready s - {b}) \<union> set new"
    unfolding l(3) ol_ready_def using l(4,6) by (auto simp: less_le)
  ultimately show ?thesis
    using l(1,2) sub 1 by (auto simp: leave(1) ol_state_inv_def)
qed

lemma ol_reach_inv: "ol_reach rb_ins rb_del s \<Longrightarrow> ol_state_inv rb_good s"
  by (induction rule: ol_reach.induct) (auto intro: ol_start_inv dest: ol_step_inv)

lemma ol_reach_fresh_ready: "ol_reach_fresh rb_ins rb_del s \<Longrightarrow> set (ol_submitted s) = ol_ready s"
proof (induction rule: ol_reach_fresh.induct)
  case (fresh_start H)
  then show ?case by (simp add: ol_start_def ol_ready_def)
next
  case (fresh_step s s')
  then show ?case using ol_step_inv [OF fresh_step(2)] ol_reach_inv [OF ol_fresh_reach] by blast
qed

end

section \<open>Properties\<close>

lemma ol_inv_zero_iff:
  assumes "ol_inv rb_good t m H q" "v \<in> set q"
  shows "bw_n_overlapped (H v) = 0 \<longleftrightarrow> (\<forall>u \<in> set (ahead q v). biow_blocks (H u) \<inter> biow_blocks (H v) = {})"
proof -
  have ok: "biow_ok (H u)" if "u \<in> set q" for u
    using assms(1) that index_ok_vals(2) [of rb_good t m H] by (auto simp: ol_inv_def)
  have "bio_wrapper_is_overlap (H v) (H u) \<longleftrightarrow> biow_blocks (H u) \<inter> biow_blocks (H v) \<noteq> {}"
    if "u \<in> set (ahead q v)" for u
    using overlap_iff_blocks [OF ok ok] assms(2) that ahead_subset [of q v] by blast
  moreover have "bw_n_overlapped (H v) = 0 \<longleftrightarrow> n_ahead H q v = 0" using assms by (simp add: ol_inv_def)
  ultimately show ?thesis by (auto simp: n_ahead_def filter_empty_conv)
qed

text \<open>
  Inserting a write into the overlapped data returns, and its counter is then the number of
  the entries that overlap it, the delayed flag is set when there is one, and no other wrapper
  changes.  When an allocation fails the data is unchanged and the call says so.
\<close>

theorem overlapped_check_and_insert_counts:
  assumes "rb_contract rb_ins rb_del rb_good" "ol_inv rb_good t m H q"
    and "biow_ok (H b)" "b \<notin> set q" "b \<noteq> INVALID_VAL"
  shows "\<exists>ok t' m' H'. overlapped_check_and_insert rb_ins t m H b al = Some (ok, t', m', H') \<and>
           (\<forall>v. v \<noteq> b \<longrightarrow> H' v = H v) \<and>
           bw_n_overlapped (H' b) = int (card {v \<in> set q. biow_blocks (H v) \<inter> biow_blocks (H b) \<noteq> {}}) \<and>
           (0 < bw_n_overlapped (H' b) \<longrightarrow> bio_wrapper_state_is_delayed (H' b)) \<and>
           (if ok then ol_inv rb_good t' m' H' (q @ [b])
            else t' = t \<and> m' = m \<and> \<not> (cell_ok al \<and> head_ok al \<and> node_ok al))"
proof -
  have "bio_wrapper_is_overlap (H b) (H v) = (biow_blocks (H v) \<inter> biow_blocks (H b) \<noteq> {})" if "v \<in> set q" for v
    using overlap_iff_blocks [OF assms(3), of "H v"] that assms(2) index_ok_vals(2) [of rb_good t m H v]
    by (auto simp: ol_inv_def Int_commute)
  then have "{v \<in> set q. biow_blocks (H v) \<inter> biow_blocks (H b) \<noteq> {}} =
      set (filter (\<lambda>v. bio_wrapper_is_overlap (H b) (H v)) q)" by auto
  then have "card {v \<in> set q. biow_blocks (H v) \<inter> biow_blocks (H b) \<noteq> {}} =
      length (filter (\<lambda>v. bio_wrapper_is_overlap (H b) (H v)) q)"
    using assms(2) by (simp add: ol_inv_def distinct_card del: set_filter)
  then have "bw_n_overlapped (ol_entered H q b b) = int (card {v \<in> set q. biow_blocks (H v) \<inter> biow_blocks (H b) \<noteq> {}})"
      "0 < bw_n_overlapped (ol_entered H q b b) \<longrightarrow> bio_wrapper_state_is_delayed (ol_entered H q b b)"
    by (simp_all add: ol_entered_def Let_def bio_wrapper_state_is_delayed_def biow_set_flag_def BIO_WRAPPER_DELAYED_def)
  moreover obtain ok t' m' where "overlapped_check_and_insert rb_ins t m H b al = Some (ok, t', m', ol_entered H q b)"
      "if ok then ol_inv rb_good t' m' (ol_entered H q b) (q @ [b])
       else t' = t \<and> m' = m \<and> \<not> (cell_ok al \<and> head_ok al \<and> node_ok al)"
    using rb_contract.check_and_insert_spec [OF assms, of al] by blast
  ultimately show ?thesis using ol_entered_other [of _ b H q] by blast
qed

text \<open>
  C1. Whatever writes enter and complete in whatever order, a write at the data device overlaps
  no unfinished write that entered before it.  So two overlapping writes are never at the data
  device together, and they reach it in the order in which they entered.
\<close>

theorem overlapped_writes_serialized:
  assumes "rb_contract rb_ins rb_del rb_good" "ol_reach rb_ins rb_del s"
    and "v \<in> set (ol_submitted s)" "u \<in> set (ahead (ol_queue s) v)"
  shows "biow_blocks (ol_store s u) \<inter> biow_blocks (ol_store s v) = {}"
proof -
  have inv: "ol_inv rb_good (ol_data s) (ol_max s) (ol_store s) (ol_queue s)"
      "v \<in> set (ol_queue s)" "bw_n_overlapped (ol_store s v) = 0"
    using rb_contract.ol_reach_inv [OF assms(1,2)] assms(3) by (auto simp: ol_state_inv_def ol_ready_def)
  then show ?thesis using ol_inv_zero_iff [OF inv(1,2)] assms(4) by blast
qed

text \<open>
  C35. No write waits for ever, unless it has entered with the flag of a failed attempt: while there are unfinished writes the oldest one is at the data
  device, completing any write at the data device returns, and the writes it wakes are exactly
  those whose last older overlapping write it was.
\<close>

theorem overlapped_writes_progress:
  assumes "rb_contract rb_ins rb_del rb_good" "ol_reach_fresh rb_ins rb_del s" "ol_queue s \<noteq> []"
  shows "hd (ol_queue s) \<in> set (ol_submitted s) \<and>
    (\<forall>b \<in> set (ol_submitted s). \<exists>t' m' new H'.
       overlapped_delete_and_notify rb_del (ol_data s) (ol_max s) [] (ol_store s) b = Some (length new, t', m', new, H') \<and>
       set new = {v \<in> set (ol_queue s) - {b}. 0 < bw_n_overlapped (ol_store s v) \<and>
         (\<forall>u \<in> set (ahead (remove1 b (ol_queue s)) v). biow_blocks (H' u) \<inter> biow_blocks (H' v) = {})})"
proof -
  let ?H = "ol_store s" and ?q = "ol_queue s"
  have inv: "ol_inv rb_good (ol_data s) (ol_max s) ?H ?q" and sub: "set (ol_submitted s) = {v \<in> set ?q. bw_n_overlapped (?H v) = 0}"
    using rb_contract.ol_reach_inv [OF assms(1) ol_fresh_reach [OF assms(2)]] rb_contract.ol_reach_fresh_ready [OF assms(1,2)]
    by (simp_all add: ol_state_inv_def ol_ready_def)
  have "ahead ?q (hd ?q) = []" using assms(3) by (cases ?q) (simp_all add: ahead_Cons)
  then have "hd ?q \<in> set (ol_submitted s)"
    using ol_inv_zero_iff [OF inv, of "hd ?q"] assms(3) by (simp add: sub)
  moreover have "\<exists>t' m' new H'.
       overlapped_delete_and_notify rb_del (ol_data s) (ol_max s) [] ?H b = Some (length new, t', m', new, H') \<and>
       set new = {v \<in> set ?q - {b}. 0 < bw_n_overlapped (?H v) \<and>
         (\<forall>u \<in> set (ahead (remove1 b ?q) v). biow_blocks (H' u) \<inter> biow_blocks (H' v) = {})}"
    if b: "b \<in> set (ol_submitted s)" for b
  proof -
    have b': "b \<in> set ?q" "bw_n_overlapped (?H b) = 0" using b sub by auto
    obtain xs ys where q: "?q = xs @ b # ys" using b'(1) by (meson split_list)
    have nb: "b \<notin> set xs" "b \<notin> set ys" using inv q by (auto simp: ol_inv_def)
    obtain t' m' H' new where d: "overlapped_delete_and_notify rb_del (ol_data s) (ol_max s) [] ?H b = Some (length new, t', m', new, H')"
        "ol_inv rb_good t' m' H' (xs @ ys)"
        "set new = {v \<in> set (xs @ ys). 0 < bw_n_overlapped (?H v) \<and> bw_n_overlapped (H' v) = 0}"
      using rb_contract.delete_and_notify_spec [OF assms(1) inv [unfolded q] b'(2), of "[]"] by auto
    have "remove1 b ?q = xs @ ys" "set ?q - {b} = set (xs @ ys)" using nb by (auto simp: q remove1_append)
    then have "set new = {v \<in> set ?q - {b}. 0 < bw_n_overlapped (?H v) \<and>
         (\<forall>u \<in> set (ahead (remove1 b ?q) v). biow_blocks (H' u) \<inter> biow_blocks (H' v) = {})}"
      unfolding d(3) using ol_inv_zero_iff [OF d(2)] by (intro Collect_cong) (simp cong: conj_cong)
    then show ?thesis using d(1) by blast
  qed
  ultimately show ?thesis by blast
qed

text \<open>Two writes of eight blocks, at the blocks 100 and 200, in the overlapped data.\<close>

definition demo_store :: biow_store where
  "demo_store v = demo_wrapper (100 * v) 8 0 0"

definition allocs_ok :: treemap_allocs where
  "allocs_ok = \<lparr>cell_ok = True, head_ok = True, node_ok = True\<rparr>"

lemma demo_store_ok [simp]: "biow_ok (demo_store 1)" "biow_ok (demo_store 2)"
  by (simp_all add: demo_store_def demo_wrapper_def biow_ok_def)

lemma ol_start_ol_inv: "ol_inv rb_inv multimap_init 0 H []"
  using tool_rb.ol_start_inv [of H] by (simp add: ol_state_inv_def ol_start_def)

lemma ol_enter_one:
  assumes "ol_reach tool_rb_ins tool_rb_del s" "b \<notin> set (ol_queue s)" "biow_ok (ol_store s b)" "b \<noteq> INVALID_VAL"
  shows "\<exists>s'. ol_step tool_rb_ins tool_rb_del s s' \<and> ol_queue s' = ol_queue s @ [b] \<and>
    ol_store s' = ol_entered (ol_store s) (ol_queue s) b"
proof -
  have inv: "ol_inv rb_inv (ol_data s) (ol_max s) (ol_store s) (ol_queue s)"
    using tool_rb.ol_reach_inv [OF assms(1)] by (simp add: ol_state_inv_def)
  obtain ok t' m' where r: "overlapped_check_and_insert tool_rb_ins (ol_data s) (ol_max s) (ol_store s) b allocs_ok =
      Some (ok, t', m', ol_entered (ol_store s) (ol_queue s) b)" "ok"
    using tool_rb.check_and_insert_spec [OF inv assms(3,2,4), of allocs_ok]
    by (auto simp: allocs_ok_def split: if_splits)
  show ?thesis
    using ol_step.enter [OF assms(2,3,4) r(1) [unfolded eqTrueI [OF r(2)]]]
    by (intro exI conjI) (assumption, simp_all)
qed

lemma ol_enter_fresh:
  assumes "ol_reach_fresh tool_rb_ins tool_rb_del s" "b \<notin> set (ol_queue s)" "biow_ok (ol_store s b)" "b \<noteq> INVALID_VAL"
    and "\<not> bio_wrapper_state_is_delayed (ol_store s b)"
  shows "\<exists>s'. ol_reach_fresh tool_rb_ins tool_rb_del s' \<and> ol_queue s' = ol_queue s @ [b] \<and>
    ol_store s' = ol_entered (ol_store s) (ol_queue s) b"
proof -
  obtain s' where s': "ol_step tool_rb_ins tool_rb_del s s'" "ol_queue s' = ol_queue s @ [b]"
      "ol_store s' = ol_entered (ol_store s) (ol_queue s) b"
    using ol_enter_one [OF ol_fresh_reach [OF assms(1)] assms(2-4)] by blast
  moreover have "ol_fresh s s'" using s'(2) assms(5) by (auto simp: ol_fresh_def)
  ultimately show ?thesis using ol_reach_fresh.fresh_step [OF assms(1)] by blast
qed

lemma ol_demo:
  obtains s where "ol_reach_fresh tool_rb_ins tool_rb_del s" "ol_queue s = [1, 2]" "2 \<in> set (ol_submitted s)"
proof -
  have nd: "\<not> bio_wrapper_state_is_delayed (demo_store v)" for v
    by (simp add: demo_store_def demo_wrapper_def bio_wrapper_state_is_delayed_def test_bit_u64_bit)
  obtain s1 where s1: "ol_reach_fresh tool_rb_ins tool_rb_del s1" "ol_queue s1 = [1]" "ol_store s1 = ol_entered demo_store [] 1"
    using ol_enter_fresh [OF ol_reach_fresh.fresh_start [of _ _ demo_store], of 1] nd by (auto simp: ol_start_def INVALID_VAL_def)
  have ok: "biow_ok (ol_entered demo_store [] 1 2)" by simp
  obtain s2 where s2: "ol_reach_fresh tool_rb_ins tool_rb_del s2" "ol_queue s2 = [1, 2]"
      "ol_store s2 = ol_entered (ol_entered demo_store [] 1) [1] 2"
    using ol_enter_fresh [OF s1(1), of 2] s1(2,3) ok nd by (auto simp: INVALID_VAL_def)
  have "bw_n_overlapped (ol_store s2 2) = 0"
    unfolding s2(3) by code_simp
  then have "2 \<in> set (ol_submitted s2)"
    using tool_rb.ol_reach_fresh_ready [OF s2(1)] s2(2) by (simp add: ol_ready_def)
  with s2 that show ?thesis by blast
qed

theorem overlapped_check_and_insert_counts_witness:
  "\<exists>ok t' m' H'. overlapped_check_and_insert tool_rb_ins multimap_init 0 demo_store 1 allocs_ok = Some (ok, t', m', H') \<and>
     (\<forall>v. v \<noteq> 1 \<longrightarrow> H' v = demo_store v) \<and>
     bw_n_overlapped (H' 1) = int (card {v \<in> set []. biow_blocks (demo_store v) \<inter> biow_blocks (demo_store 1) \<noteq> {}}) \<and>
     (0 < bw_n_overlapped (H' 1) \<longrightarrow> bio_wrapper_state_is_delayed (H' 1)) \<and>
     (if ok then ol_inv rb_inv t' m' H' ([] @ [1])
      else t' = multimap_init \<and> m' = 0 \<and> \<not> (cell_ok allocs_ok \<and> head_ok allocs_ok \<and> node_ok allocs_ok))"
  by (rule overlapped_check_and_insert_counts [OF tool_rb.rb_contract_axioms ol_start_ol_inv])
     (simp_all add: INVALID_VAL_def)

theorem overlapped_writes_serialized_witness:
  "\<exists>s. ol_reach tool_rb_ins tool_rb_del s \<and> 2 \<in> set (ol_submitted s) \<and> 1 \<in> set (ahead (ol_queue s) 2) \<and>
     biow_blocks (ol_store s 1) \<inter> biow_blocks (ol_store s 2) = {}"
proof -
  obtain s where s: "ol_reach_fresh tool_rb_ins tool_rb_del s" "ol_queue s = [1, 2]" "2 \<in> set (ol_submitted s)"
    by (rule ol_demo)
  have "1 \<in> set (ahead (ol_queue s) 2)" by (simp add: s(2) ahead_def)
  then show ?thesis
    using overlapped_writes_serialized [OF tool_rb.rb_contract_axioms ol_fresh_reach [OF s(1)] s(3)] s ol_fresh_reach by blast
qed

theorem overlapped_writes_progress_witness:
  "\<exists>s. ol_reach_fresh tool_rb_ins tool_rb_del s \<and> hd (ol_queue s) = 1 \<and> hd (ol_queue s) \<in> set (ol_submitted s)"
proof -
  obtain s where s: "ol_reach_fresh tool_rb_ins tool_rb_del s" "ol_queue s = [1, 2]" "2 \<in> set (ol_submitted s)"
    by (rule ol_demo)
  then show ?thesis
    using overlapped_writes_progress [OF tool_rb.rb_contract_axioms s(1)] by (intro exI [of _ s]) simp
qed

section \<open>A stale delayed flag\<close>

text \<open>A write that waits for none and is not at the data device.\<close>

definition ol_stuck :: "ol_state \<Rightarrow> ulong \<Rightarrow> bool" where
  "ol_stuck s b \<longleftrightarrow> b \<in> ol_ready s \<and> b \<notin> set (ol_submitted s)"

lemma ol_entered_keeps_delayed:
  "bio_wrapper_state_is_delayed (H b) \<Longrightarrow> bio_wrapper_state_is_delayed (ol_entered H q b b)"
  by (simp add: ol_entered_def Let_def bio_wrapper_state_is_delayed_def biow_set_flag_def BIO_WRAPPER_DELAYED_def)

context rb_contract
begin

text \<open>Only the completion of an older overlapping write submits a waiting one, and there is none.\<close>

lemma ol_stuck_step:
  assumes "ol_step rb_ins rb_del s s'" "ol_state_inv rb_good s" "ol_stuck s v"
  shows "ol_stuck s' v"
  using assms(1)
proof cases
  case (enter b al t' m' H')
  have inv: "ol_inv rb_good (ol_data s) (ol_max s) (ol_store s) (ol_queue s)" using assms(2) by (simp add: ol_state_inv_def)
  have "H' = ol_entered (ol_store s) (ol_queue s) b"
    using check_and_insert_spec [OF inv enter(3,2,4), of al] enter(5) by auto
  moreover have "v \<noteq> b" using assms(3) enter(2) by (auto simp: ol_stuck_def ol_ready_def)
  ultimately show ?thesis using assms(3) by (simp add: enter(1) ol_stuck_def ol_ready_def)
next
  case (enter_fails b al t' m' H')
  have inv: "ol_inv rb_good (ol_data s) (ol_max s) (ol_store s) (ol_queue s)" using assms(2) by (simp add: ol_state_inv_def)
  have "H' = ol_entered (ol_store s) (ol_queue s) b"
    using check_and_insert_spec [OF inv enter_fails(3,2,4), of al] enter_fails(5) by auto
  moreover have "v \<noteq> b" using assms(3) enter_fails(2) by (auto simp: ol_stuck_def ol_ready_def)
  ultimately show ?thesis using assms(3) by (simp add: enter_fails(1) ol_stuck_def ol_ready_def)
next
  case (leave b n t' m' new H')
  have b: "b \<in> set (ol_queue s)" "bw_n_overlapped (ol_store s b) = 0"
    and inv: "ol_inv rb_good (ol_data s) (ol_max s) (ol_store s) (ol_queue s)"
    using assms(2) leave(2) by (auto simp: ol_state_inv_def ol_ready_def)
  note l = leave_spec [OF inv b leave(3)]
  have v: "v \<in> set (ol_queue s) - {b}" "bw_n_overlapped (ol_store s v) = 0" "v \<notin> set (ol_submitted s)"
    using assms(3) leave(2) by (auto simp: ol_stuck_def ol_ready_def)
  have "v \<notin> set new" "v \<notin> set (remove1 b (ol_submitted s))" using v l(3) by (auto dest: set_remove1_subset [THEN subsetD])
  then show ?thesis using v(1) l(4) [OF v(1,2)] l(5) by (simp add: leave(1) ol_stuck_def ol_ready_def)
qed

lemma ol_stuck_forever:
  assumes "reach (ol_step rb_ins rb_del) s s'" "ol_reach rb_ins rb_del s" "ol_stuck s v"
  shows "ol_stuck s' v \<and> ol_reach rb_ins rb_del s'"
  using assms
proof (induction rule: reach.induct)
  case (reach_step s1 s2)
  then show ?case using ol_stuck_step [OF reach_step(2) ol_reach_inv] ol_reach.step by blast
qed simp

end

text \<open>
  C8.  A write that an attempt without memory has marked as delayed and that enters once the writes it
  overlapped are gone is never sent to the data device: nobody is left to wake it up, and it
  stays in the overlapped data for ever.
\<close>

theorem stale_delayed_write_never_submitted:
  assumes "rb_contract rb_ins rb_del rb_good" "ol_reach rb_ins rb_del s"
    and "bio_wrapper_state_is_delayed (ol_store s b)"
    and "\<forall>u \<in> set (ol_queue s). biow_blocks (ol_store s u) \<inter> biow_blocks (ol_store s b) = {}"
    and "b \<notin> set (ol_queue s)" "ol_step rb_ins rb_del s s1" "b \<in> set (ol_queue s1)"
    and "reach (ol_step rb_ins rb_del) s1 s'"
  shows "b \<in> set (ol_queue s') \<and> b \<notin> set (ol_submitted s')"
proof -
  have sinv: "ol_state_inv rb_good s" by (rule rb_contract.ol_reach_inv [OF assms(1,2)])
  then have inv: "ol_inv rb_good (ol_data s) (ol_max s) (ol_store s) (ol_queue s)" by (simp add: ol_state_inv_def)
  have r1: "ol_reach rb_ins rb_del s1" using assms(2,6) by (rule ol_reach.step)
  from assms(6) have "ol_stuck s1 b"
  proof cases
    case (enter c al t' m' H')
    then have c: "c = b" using assms(5,7) by simp
    have H': "H' = ol_entered (ol_store s) (ol_queue s) b" "ol_inv rb_good t' m' H' (ol_queue s @ [b])"
      using rb_contract.check_and_insert_spec [OF assms(1) inv enter(3,2,4), of al] enter(5) c by auto
    have "biow_blocks (H' u) = biow_blocks (ol_store s u)" for u
      by (simp add: H'(1) biow_blocks_def ol_entered_pos_len)
    moreover have "set (ahead (ol_queue s @ [b]) b) = set (ol_queue s)" using assms(5) by (simp add: ahead_append ahead_Cons)
    ultimately have "bw_n_overlapped (H' b) = 0" using ol_inv_zero_iff [OF H'(2), of b] assms(4) by simp
    moreover have "bio_wrapper_state_is_delayed (H' b)" using assms(3) ol_entered_keeps_delayed H'(1) by simp
    moreover have "b \<notin> set (ol_submitted s)" using sinv assms(5) by (auto simp: ol_state_inv_def ol_ready_def)
    ultimately show ?thesis by (simp add: enter(1) c ol_stuck_def ol_ready_def)
  next
    case leave
    then show ?thesis using assms(5,7) set_remove1_subset by fastforce
  qed (use assms(5,7) in simp)
  then show ?thesis using rb_contract.ol_stuck_forever [OF assms(1,8) r1] by (auto simp: ol_stuck_def ol_ready_def)
qed


text \<open>Such a run: the second of two overlapping writes fails to enter, the first one completes, and
  the second one enters.\<close>

definition twin_store :: biow_store where
  "twin_store v = demo_wrapper (100 + v) 8 0 0"

definition allocs_none :: treemap_allocs where
  "allocs_none = \<lparr>cell_ok = False, head_ok = False, node_ok = False\<rparr>"

lemma check_and_insert_no_memory:
  assumes "overlapped_check_and_insert rb_ins t m H b allocs_none = Some (ok, t', m', H')"
  shows "\<not> ok"
  using assms
  by (auto simp: overlapped_check_and_insert_def multimap_add_def allocs_none_def Let_def split: option.splits prod.splits if_splits)

lemma ol_fail_one:
  assumes "ol_reach tool_rb_ins tool_rb_del s" "b \<notin> set (ol_queue s)" "biow_ok (ol_store s b)" "b \<noteq> INVALID_VAL"
  shows "ol_step tool_rb_ins tool_rb_del s (s\<lparr>ol_store := ol_entered (ol_store s) (ol_queue s) b\<rparr>)"
proof -
  have inv: "ol_inv rb_inv (ol_data s) (ol_max s) (ol_store s) (ol_queue s)"
    using tool_rb.ol_reach_inv [OF assms(1)] by (simp add: ol_state_inv_def)
  obtain ok t' m' where r: "overlapped_check_and_insert tool_rb_ins (ol_data s) (ol_max s) (ol_store s) b allocs_none =
      Some (ok, t', m', ol_entered (ol_store s) (ol_queue s) b)" "\<not> ok \<Longrightarrow> t' = ol_data s \<and> m' = ol_max s"
    using tool_rb.check_and_insert_spec [OF inv assms(3,2,4), of allocs_none] by auto
  have "\<not> ok" using check_and_insert_no_memory [OF r(1)] .
  then show ?thesis using ol_step.enter_fails [OF assms(2-4), of tool_rb_ins allocs_none t' m'] r by simp
qed

lemma ol_leave_one:
  assumes "ol_reach tool_rb_ins tool_rb_del s" "b \<in> set (ol_submitted s)"
  shows "\<exists>s'. ol_step tool_rb_ins tool_rb_del s s' \<and> ol_queue s' = remove1 b (ol_queue s) \<and>
    (\<forall>v. bw_flags (ol_store s' v) = bw_flags (ol_store s v) \<and> bw_pos (ol_store s' v) = bw_pos (ol_store s v) \<and>
       bw_len (ol_store s' v) = bw_len (ol_store s v))"
proof -
  have inv: "ol_inv rb_inv (ol_data s) (ol_max s) (ol_store s) (ol_queue s)" and b: "b \<in> set (ol_queue s)" "bw_n_overlapped (ol_store s b) = 0"
    using tool_rb.ol_reach_inv [OF assms(1)] assms(2) by (auto simp: ol_state_inv_def ol_ready_def)
  obtain xs ys where q: "ol_queue s = xs @ b # ys" using b(1) by (meson split_list)
  obtain t' m' H' new where d: "overlapped_delete_and_notify tool_rb_del (ol_data s) (ol_max s) [] (ol_store s) b = Some (length new, t', m', new, H')"
      "\<forall>v. H' v = ol_store s v \<or> H' v = (ol_store s v)\<lparr>bw_n_overlapped := bw_n_overlapped (ol_store s v) - 1\<rparr>"
    using tool_rb.delete_and_notify_spec [OF inv [unfolded q] b(2), of "[]"] by auto
  have "bw_flags (H' v) = bw_flags (ol_store s v) \<and> bw_pos (H' v) = bw_pos (ol_store s v) \<and> bw_len (H' v) = bw_len (ol_store s v)" for v
    using d(2) [rule_format, of v] by auto
  then show ?thesis using ol_step.leave [OF assms(2) d(1), of tool_rb_ins] by (intro exI conjI) (assumption, simp_all)
qed

lemma ol_stale:
  obtains s where "ol_reach tool_rb_ins tool_rb_del s" "ol_queue s = []" "bio_wrapper_state_is_delayed (ol_store s 2)" "biow_ok (ol_store s 2)"
proof -
  let ?H1 = "ol_entered twin_store [] 1" and ?H2 = "ol_entered (ol_entered twin_store [] 1) [1] 2"
  have ok: "biow_ok (twin_store 1)" "biow_ok (twin_store 2)" by (simp_all add: twin_store_def demo_wrapper_def biow_ok_def)
  have nd: "\<not> bio_wrapper_state_is_delayed (twin_store 1)"
    by (simp add: twin_store_def demo_wrapper_def bio_wrapper_state_is_delayed_def test_bit_u64_bit)
  obtain s1 where s1: "ol_reach_fresh tool_rb_ins tool_rb_del s1" "ol_queue s1 = [1]" "ol_store s1 = ?H1"
    using ol_enter_fresh [OF ol_reach_fresh.fresh_start [of _ _ twin_store], of 1] ok(1) nd by (auto simp: ol_start_def INVALID_VAL_def)
  have z: "bw_n_overlapped (?H1 1) = 0" "bio_wrapper_state_is_delayed (?H2 2)" by code_simp+
  have sub: "1 \<in> set (ol_submitted s1)" using tool_rb.ol_reach_fresh_ready [OF s1(1)] s1(2,3) z(1) by (simp add: ol_ready_def)
  have r1: "ol_reach tool_rb_ins tool_rb_del s1" by (rule ol_fresh_reach [OF s1(1)])
  have "biow_ok (?H1 2)" using ok(2) by simp
  then have r2: "ol_reach tool_rb_ins tool_rb_del (s1\<lparr>ol_store := ?H2\<rparr>)"
    using ol_reach.step [OF r1 ol_fail_one [OF r1, of 2]] s1(2,3) by (simp add: INVALID_VAL_def)
  obtain s3 where s3: "ol_step tool_rb_ins tool_rb_del (s1\<lparr>ol_store := ?H2\<rparr>) s3" "ol_queue s3 = []"
      "bw_flags (ol_store s3 2) = bw_flags (?H2 2)" "bw_pos (ol_store s3 2) = bw_pos (?H2 2)" "bw_len (ol_store s3 2) = bw_len (?H2 2)"
    using ol_leave_one [OF r2, of 1] sub s1(2) by auto
  show thesis
  proof (rule that [of s3])
    show "ol_reach tool_rb_ins tool_rb_del s3" using r2 s3(1) by (rule ol_reach.step)
    show "bio_wrapper_state_is_delayed (ol_store s3 2)" using z(2) s3(3) by (simp add: bio_wrapper_state_is_delayed_def)
    show "biow_ok (ol_store s3 2)" using ok(2) s3(4,5) by (simp add: biow_ok_def ol_entered_pos_len)
  qed (rule s3(2))
qed

theorem stale_delayed_write_never_submitted_witness:
  "\<exists>s. ol_reach tool_rb_ins tool_rb_del s \<and> (\<forall>s'. reach (ol_step tool_rb_ins tool_rb_del) s s' \<longrightarrow>
     2 \<in> set (ol_queue s') \<and> 2 \<notin> set (ol_submitted s'))"
proof -
  obtain s where s: "ol_reach tool_rb_ins tool_rb_del s" "ol_queue s = []" "bio_wrapper_state_is_delayed (ol_store s 2)" "biow_ok (ol_store s 2)"
    by (rule ol_stale)
  obtain s1 where s1: "ol_step tool_rb_ins tool_rb_del s s1" "ol_queue s1 = [2]"
    using ol_enter_one [OF s(1), of 2] s(2,4) by (auto simp: INVALID_VAL_def)
  have "2 \<in> set (ol_queue s') \<and> 2 \<notin> set (ol_submitted s')" if "reach (ol_step tool_rb_ins tool_rb_del) s1 s'" for s'
    by (rule stale_delayed_write_never_submitted [OF tool_rb.rb_contract_axioms s(1,3) _ _ s1(1) _ that]) (simp_all add: s(2) s1(2))
  then show ?thesis using ol_reach.step [OF s(1) s1(1)] by blast
qed


end
