(* ===== verification/Walb_Wal.thy ===== *)
theory Walb_Wal
  imports Walb_Wdev_Util
begin

text \<open>
  The write-ahead rule: a write reaches the data device only after its log is permanent on the
  log device.  The tasks of \<^verbatim>\<open>module/io.c\<close> that touch the lsids run concurrently; each
  critical section under \<^verbatim>\<open>lsid_lock\<close> and each device request is one step here.  A log
  unit stands for a logpack in flight: the lsids where its writes end, the lsid where the
  logpack ends and, when its header carries a flush, the lsid up to which that flush makes the
  log permanent.  Two ghost components record what the devices really hold: \<^verbatim>\<open>ws_durable\<close>,
  the lsid below which the log has survived a successful flush, and \<^verbatim>\<open>ws_issued\<close>, the
  writes sent to the data device.  A successful flush makes durable every log that was complete
  when the flush was requested, which is what \<^verbatim>\<open>REQ_PREFLUSH\<close> and
  \<^verbatim>\<open>blkdev_issue_flush\<close> promise.
\<close>

section \<open>State\<close>

record log_unit =
  lu_started :: bool
  lu_flush :: "u64 option"
  lu_ends :: "u64 list"
  lu_next :: u64

datatype flusher = F_Idle | F_Issue u64 | F_Update u64

text \<open>
  The data submission task: it takes a batch off the queue and runs
  \<^verbatim>\<open>wait_for_log_permanent\<close> for the end of its last write.
\<close>

datatype data_task = D_Idle | D_Test u64 "u64 list" | D_Load u64 "u64 list" | D_Flush u64 "u64 list"

record 'd wal_state =
  ws_dev :: "'d walb_dev"
  ws_wait :: "log_unit list"
  ws_data :: "u64 list"
  ws_flusher :: "nat \<Rightarrow> flusher"
  ws_task :: data_task
  ws_durable :: u64
  ws_issued :: "u64 list"

text \<open>The section of \<^verbatim>\<open>create_logpack_list\<close> that stores the lsids.\<close>

definition store_lsids :: "u64 \<Rightarrow> u64 \<Rightarrow> bool \<Rightarrow> 'd walb_dev \<Rightarrow> u64 option \<times> 'd walb_dev" where
  "store_lsids jiffies latest_lsid is_flush wdev =
     (let wdev1 = wdev\<lparr>wd_lsids := (wd_lsids wdev)\<lparr>latest := latest_lsid\<rparr>\<rparr> in
      if is_flush then
        (let new_permanent_lsid = completed (wd_lsids wdev1) in
         (Some new_permanent_lsid, update_flush_lsid_if_necessary jiffies new_permanent_lsid wdev1))
      else (None, wdev1))"

definition set_completed :: "u64 \<Rightarrow> 'd walb_dev \<Rightarrow> 'd walb_dev" where
  "set_completed lsid wdev = wdev\<lparr>wd_lsids := (wd_lsids wdev)\<lparr>completed := lsid\<rparr>\<rparr>"

text \<open>Consecutive logpacks from \<^verbatim>\<open>l\<close> on: the writes of each end between its bounds, in order.\<close>

fun units_ok :: "u64 \<Rightarrow> log_unit list \<Rightarrow> u64 \<Rightarrow> bool" where
  "units_ok l [] l' = (l \<le> l')"
| "units_ok l (u # us) l' = (sorted (l # lu_ends u @ [lu_next u]) \<and> units_ok (lu_next u) us l')"

abbreviation lsids_of :: "'d wal_state \<Rightarrow> lsid_set" where
  "lsids_of s \<equiv> wd_lsids (ws_dev s)"

section \<open>Steps\<close>

text \<open>
  Thread 0 of the flushers is the data submission task itself, the others are the tasks that
  build logpacks and that wait for them.  A logpack is given up when the device is read-only
  at the moment its completion is processed, or when one of its IOs fails, which makes the
  device read-only.  The parameter says whether a forced flush may fail.
\<close>

inductive wal_step :: "bool \<Rightarrow> 'd wal_state \<Rightarrow> 'd wal_state \<Rightarrow> bool" for faults where
  create: "\<not> is_read_only (ws_dev s) \<Longrightarrow> units_ok (latest (lsids_of s)) (u # us) new \<Longrightarrow>
    list_all (\<lambda>x. \<not> lu_started x \<and> lu_flush x = None) (u # us) \<Longrightarrow> store_lsids j new fl (ws_dev s) = (t, dev) \<Longrightarrow>
    wal_step faults s (s\<lparr>ws_dev := dev, ws_wait := ws_wait s @ u\<lparr>lu_flush := t\<rparr> # us\<rparr>)"
| logpack_start: "ws_wait s = u # us \<Longrightarrow> \<not> lu_started u \<Longrightarrow> \<not> is_read_only (ws_dev s) \<Longrightarrow>
    wal_step faults s (s\<lparr>ws_wait := u\<lparr>lu_started := True\<rparr> # us\<rparr>)"
| logpack_skip: "ws_wait s = u # us \<Longrightarrow> \<not> lu_started u \<Longrightarrow> is_read_only (ws_dev s) \<Longrightarrow>
    wal_step faults s (s\<lparr>ws_wait := us\<rparr>)"
| logpack_failed: "ws_wait s = u # us \<Longrightarrow> lu_started u \<Longrightarrow>
    wal_step faults s (s\<lparr>ws_dev := set_wdev_flag WALB_STATE_READ_ONLY (ws_dev s), ws_wait := us\<rparr>)"
| header_done: "ws_wait s = u # us \<Longrightarrow> lu_started u \<Longrightarrow> lu_flush u = Some t \<Longrightarrow>
    wal_step faults s (s\<lparr>ws_dev := snd (update_permanent_lsid t (ws_dev s)),
      ws_wait := u\<lparr>lu_flush := None\<rparr> # us, ws_durable := max (ws_durable s) t\<rparr>)"
| log_io_done: "ws_wait s = u # us \<Longrightarrow> lu_started u \<Longrightarrow> lu_flush u = None \<Longrightarrow> lu_ends u = e # es \<Longrightarrow>
    wal_step faults s (s\<lparr>ws_wait := u\<lparr>lu_ends := es\<rparr> # us, ws_data := ws_data s @ [e]\<rparr>)"
| fua_io_done: "ws_wait s = u # us \<Longrightarrow> lu_started u \<Longrightarrow> lu_flush u = None \<Longrightarrow> lu_ends u = e # es \<Longrightarrow>
    ws_flusher s 1 = F_Idle \<Longrightarrow> force_flush_begin j (set_completed e (ws_dev s)) = (c, dev) \<Longrightarrow>
    wal_step faults s (s\<lparr>ws_dev := dev, ws_wait := u\<lparr>lu_ends := es\<rparr> # us, ws_data := ws_data s @ [e],
      ws_flusher := (ws_flusher s)(1 := F_Issue c)\<rparr>)"
| logpack_done: "ws_wait s = u # us \<Longrightarrow> lu_started u \<Longrightarrow> lu_flush u = None \<Longrightarrow> lu_ends u = [] \<Longrightarrow>
    wal_step faults s (s\<lparr>ws_dev := set_completed (lu_next u) (ws_dev s), ws_wait := us\<rparr>)"
| flush_begin: "ws_flusher s i = F_Idle \<Longrightarrow> i \<noteq> 0 \<Longrightarrow> force_flush_begin j (ws_dev s) = (c, dev) \<Longrightarrow>
    wal_step faults s (s\<lparr>ws_dev := dev, ws_flusher := (ws_flusher s)(i := F_Issue c)\<rparr>)"
| flush_ok: "ws_flusher s i = F_Issue c \<Longrightarrow>
    wal_step faults s (s\<lparr>ws_durable := max (ws_durable s) c, ws_flusher := (ws_flusher s)(i := F_Update c)\<rparr>)"
| flush_failed: "faults \<Longrightarrow> ws_flusher s i = F_Issue c \<Longrightarrow>
    wal_step faults s (s\<lparr>ws_dev := set_wdev_flag WALB_STATE_READ_ONLY (ws_dev s),
      ws_flusher := (ws_flusher s)(i := F_Update c)\<rparr>)"
| flush_end: "ws_flusher s i = F_Update c \<Longrightarrow>
    wal_step faults s (s\<lparr>ws_dev := snd (update_permanent_lsid c (ws_dev s)),
      ws_flusher := (ws_flusher s)(i := F_Idle)\<rparr>)"
| take_batch: "ws_task s = D_Idle \<Longrightarrow> ws_data s = batch @ rest \<Longrightarrow> batch \<noteq> [] \<Longrightarrow>
    wal_step faults s (s\<lparr>ws_data := rest, ws_task := D_Test (last batch) batch\<rparr>)"
| test_read_only: "ws_task s = D_Test l batch \<Longrightarrow> is_read_only (ws_dev s) \<Longrightarrow>
    wal_step faults s (s\<lparr>ws_task := D_Idle\<rparr>)"
| test_writable: "ws_task s = D_Test l batch \<Longrightarrow> \<not> is_read_only (ws_dev s) \<Longrightarrow>
    wal_step faults s (s\<lparr>ws_task := D_Load l batch\<rparr>)"
| load_permanent: "ws_task s = D_Load l batch \<Longrightarrow>
    wait_for_log_permanent_round b (wd_log_flush_interval_pb (ws_dev s)) l (lsids_of s) = Permanent \<Longrightarrow>
    wal_step faults s (s\<lparr>ws_task := D_Idle, ws_issued := ws_issued s @ batch\<rparr>)"
| load_retry: "ws_task s = D_Load l batch \<Longrightarrow>
    wait_for_log_permanent_round b (wd_log_flush_interval_pb (ws_dev s)) l (lsids_of s) = Retry \<Longrightarrow>
    wal_step faults s (s\<lparr>ws_task := D_Test l batch\<rparr>)"
| load_force: "ws_task s = D_Load l batch \<Longrightarrow>
    wait_for_log_permanent_round b (wd_log_flush_interval_pb (ws_dev s)) l (lsids_of s) = Force_flush \<Longrightarrow>
    ws_flusher s 0 = F_Idle \<Longrightarrow> force_flush_begin j (ws_dev s) = (c, dev) \<Longrightarrow>
    wal_step faults s (s\<lparr>ws_dev := dev, ws_task := D_Flush l batch, ws_flusher := (ws_flusher s)(0 := F_Issue c)\<rparr>)"
| forced: "ws_task s = D_Flush l batch \<Longrightarrow> ws_flusher s 0 = F_Idle \<Longrightarrow> \<not> is_read_only (ws_dev s) \<Longrightarrow>
    wal_step faults s (s\<lparr>ws_task := D_Idle, ws_issued := ws_issued s @ batch\<rparr>)"
| forced_read_only: "ws_task s = D_Flush l batch \<Longrightarrow> ws_flusher s 0 = F_Idle \<Longrightarrow> is_read_only (ws_dev s) \<Longrightarrow>
    wal_step faults s (s\<lparr>ws_task := D_Idle\<rparr>)"

text \<open>A device just started: all lsids are equal and everything before them is durable.\<close>

definition wal_start :: "'d walb_dev \<Rightarrow> 'd wal_state" where
  "wal_start wdev = \<lparr>ws_dev = wdev, ws_wait = [], ws_data = [], ws_flusher = (\<lambda>_. F_Idle), ws_task = D_Idle,
     ws_durable = permanent (wd_lsids wdev), ws_issued = []\<rparr>"

abbreviation wal_reach :: "bool \<Rightarrow> 'd walb_dev \<Rightarrow> 'd wal_state \<Rightarrow> bool" where
  "wal_reach faults wdev \<equiv> reach (wal_step faults) (wal_start wdev)"

lemmas wal_begin = reach_start [of "wal_step faults" for faults]
lemmas wal_more = reach_step [of "wal_step faults" for faults]

section \<open>Invariant\<close>

definition log_order :: "lsid_set \<Rightarrow> bool" where
  "log_order l \<longleftrightarrow> permanent l \<le> flush l \<and> flush l \<le> completed l \<and> completed l \<le> latest l"

definition flusher_ok :: "lsid_set \<Rightarrow> u64 \<Rightarrow> flusher \<Rightarrow> bool" where
  "flusher_ok l d f = (case f of F_Idle \<Rightarrow> True | F_Issue c \<Rightarrow> c \<le> flush l | F_Update c \<Rightarrow> c \<le> flush l \<and> c \<le> d)"

definition task_ok :: "u64 \<Rightarrow> flusher \<Rightarrow> data_task \<Rightarrow> bool" where
  "task_ok d f t = (case t of D_Idle \<Rightarrow> True | D_Test l b \<Rightarrow> \<forall>e \<in> set b. e \<le> l | D_Load l b \<Rightarrow> \<forall>e \<in> set b. e \<le> l
     | D_Flush l b \<Rightarrow> (\<forall>e \<in> set b. e \<le> l) \<and>
         (case f of F_Idle \<Rightarrow> l \<le> d | F_Issue c \<Rightarrow> l \<le> c | F_Update c \<Rightarrow> l \<le> c))"

definition queues_ok :: "'d wal_state \<Rightarrow> bool" where
  "queues_ok s \<longleftrightarrow> units_ok (completed (lsids_of s)) (ws_wait s) (latest (lsids_of s)) \<and>
     sorted (ws_data s @ concat (map lu_ends (ws_wait s))) \<and>
     (\<forall>e \<in> set (ws_data s @ concat (map lu_ends (ws_wait s))). e \<le> latest (lsids_of s)) \<and>
     (\<forall>u \<in> set (ws_wait s). \<forall>t. lu_flush u = Some t \<longrightarrow> t \<le> flush (lsids_of s))"

definition wal_inv :: "'d wal_state \<Rightarrow> bool" where
  "wal_inv s \<longleftrightarrow> log_order (lsids_of s) \<and> permanent (lsids_of s) \<le> ws_durable s \<and> queues_ok s \<and>
     (\<forall>i. flusher_ok (lsids_of s) (ws_durable s) (ws_flusher s i)) \<and>
     task_ok (ws_durable s) (ws_flusher s 0) (ws_task s) \<and> (\<forall>e \<in> set (ws_issued s). e \<le> ws_durable s)"

lemma update_permanent_fields [simp]:
  "permanent (wd_lsids (snd (update_permanent_lsid t w))) = max (permanent (wd_lsids w)) t"
  "flush (wd_lsids (snd (update_permanent_lsid t w))) = flush (wd_lsids w)"
  "completed (wd_lsids (snd (update_permanent_lsid t w))) = completed (wd_lsids w)"
  "latest (wd_lsids (snd (update_permanent_lsid t w))) = latest (wd_lsids w)"
  by (auto simp: update_permanent_lsid_def max_def)

lemma set_completed_fields [simp]:
  "permanent (wd_lsids (set_completed t w)) = permanent (wd_lsids w)" "flush (wd_lsids (set_completed t w)) = flush (wd_lsids w)"
  "completed (wd_lsids (set_completed t w)) = t" "latest (wd_lsids (set_completed t w)) = latest (wd_lsids w)"
  by (simp_all add: set_completed_def)

lemma units_ok_le: "units_ok l us l' \<Longrightarrow> l \<le> l'"
  by (induction us arbitrary: l) force+

lemma units_ok_mono: "units_ok l us l' \<Longrightarrow> k \<le> l \<Longrightarrow> units_ok k us l'"
  by (cases us) auto

lemma units_ok_append: "units_ok l us m \<Longrightarrow> units_ok m vs l' \<Longrightarrow> units_ok l (us @ vs) l'"
proof (induction us arbitrary: l)
  case Nil
  then show ?case using units_ok_mono by auto
qed auto

lemma units_ok_bounds: "units_ok l us l' \<Longrightarrow> e \<in> set (concat (map lu_ends us)) \<Longrightarrow> l \<le> e \<and> e \<le> l'"
proof (induction us arbitrary: l)
  case (Cons u us)
  then have "l \<le> lu_next u" "units_ok (lu_next u) us l'" by auto
  then show ?case
    using Cons units_ok_le [of "lu_next u" us l'] by (fastforce simp: sorted_append)
qed simp

lemma units_ok_sorted: "units_ok l us l' \<Longrightarrow> sorted (concat (map lu_ends us))"
proof (induction us arbitrary: l)
  case (Cons u us)
  have "\<forall>e \<in> set (concat (map lu_ends us)). lu_next u \<le> e" using Cons.prems units_ok_bounds [of "lu_next u" us l'] by auto
  then show ?case using Cons by (force simp: sorted_append)
qed simp

text \<open>Flags, flush targets and the started marks do not matter for the bounds of the units.\<close>

lemma units_ok_flush [simp]:
  "units_ok l (u\<lparr>lu_flush := t\<rparr> # us) l' = units_ok l (u # us) l'"
  "units_ok l (u\<lparr>lu_started := b\<rparr> # us) l' = units_ok l (u # us) l'"
  by simp_all

text \<open>The queues after a change that leaves completed and latest alone and may raise flush.\<close>

lemma queues_ok_flush:
  assumes "queues_ok s" "ws_wait s' = ws_wait s" "ws_data s' = ws_data s"
    "completed (lsids_of s') = completed (lsids_of s)" "latest (lsids_of s') = latest (lsids_of s)"
    "flush (lsids_of s) \<le> flush (lsids_of s')"
  shows "queues_ok s'"
  using assms by (fastforce simp: queues_ok_def)

lemma flusher_ok_mono:
  "flusher_ok l d f \<Longrightarrow> flush l \<le> flush l' \<Longrightarrow> d \<le> d' \<Longrightarrow> flusher_ok l' d' f"
  by (auto simp: flusher_ok_def split: flusher.splits)

lemma task_ok_mono: "task_ok d f t \<Longrightarrow> d \<le> d' \<Longrightarrow> task_ok d' f t"
  by (auto simp: task_ok_def split: flusher.splits data_task.splits)

text \<open>The head of the queue leaves it.\<close>

lemma queues_ok_tail:
  assumes "queues_ok s" "ws_wait s = u # us" "ws_wait s' = us" "ws_data s' = ws_data s" "wd_lsids (ws_dev s') = lsids_of s"
  shows "queues_ok s'"
proof -
  have "units_ok (completed (lsids_of s)) us (latest (lsids_of s))"
    using assms(1,2) units_ok_mono [of "lu_next u" us] by (auto simp: queues_ok_def)
  then show ?thesis using assms by (auto simp: queues_ok_def sorted_append)
qed

lemma begin_facts:
  assumes "force_flush_begin j w = (c, w')"
  shows "c = completed (wd_lsids w)" "completed (wd_lsids w') = completed (wd_lsids w)"
    "latest (wd_lsids w') = latest (wd_lsids w)" "permanent (wd_lsids w') = permanent (wd_lsids w)"
    "flush (wd_lsids w') = max (flush (wd_lsids w)) c"
  using assms by (auto simp: force_flush_begin_def Let_def)

lemma store_facts:
  assumes "store_lsids j new fl w = (t, w')"
  shows "completed (wd_lsids w') = completed (wd_lsids w)" "latest (wd_lsids w') = new"
    "permanent (wd_lsids w') = permanent (wd_lsids w)" "flush (wd_lsids w) \<le> flush (wd_lsids w')"
    "flush (wd_lsids w') = flush (wd_lsids w) \<or> flush (wd_lsids w') = completed (wd_lsids w)"
    "\<And>x. t = Some x \<Longrightarrow> x \<le> flush (wd_lsids w')"
  using assms by (auto simp: store_lsids_def Let_def max_def split: if_splits)

text \<open>Steps that change neither lsids nor queues but the threads, the ghosts and the read-only flag.\<close>

lemma wal_inv_threads:
  assumes "wal_inv s" "lsids_of s' = lsids_of s" "ws_wait s' = ws_wait s" "ws_data s' = ws_data s"
    and "ws_durable s \<le> ws_durable s'" "\<And>i. flusher_ok (lsids_of s) (ws_durable s') (ws_flusher s' i)"
    and "task_ok (ws_durable s') (ws_flusher s' 0) (ws_task s')"
    and "\<forall>e \<in> set (ws_issued s'). e \<le> ws_durable s'"
  shows "wal_inv s'"
proof -
  have "queues_ok s'" using assms(1-4) by (simp add: wal_inv_def queues_ok_def)
  moreover have "permanent (lsids_of s) \<le> ws_durable s'" "log_order (lsids_of s)"
    using assms(1) order_trans [OF _ assms(5)] by (simp_all add: wal_inv_def)
  ultimately show ?thesis using assms(6-8) by (simp add: wal_inv_def assms(2))
qed

lemma inv_flusher:
  "wal_inv s \<Longrightarrow> ws_durable s \<le> d \<Longrightarrow> flush (lsids_of s) \<le> flush l \<Longrightarrow> flusher_ok l d (ws_flusher s i)"
  by (rule flusher_ok_mono [of "lsids_of s" "ws_durable s"]) (simp_all add: wal_inv_def)

text \<open>A flush is requested: the flush lsid rises to the completed one.\<close>

lemma wal_inv_begin:
  assumes inv: "wal_inv s" and b: "force_flush_begin j (ws_dev s) = (c, dev)"
    and s': "s' = s\<lparr>ws_dev := dev, ws_flusher := (ws_flusher s)(i := F_Issue c), ws_task := t\<rparr>"
    and t: "task_ok (ws_durable s) (((ws_flusher s)(i := F_Issue c)) 0) t"
  shows "wal_inv s'"
proof -
  note f = begin_facts [OF b]
  have q: "queues_ok s" using inv by (simp add: wal_inv_def)
  have "queues_ok s'" unfolding s' by (rule queues_ok_flush [OF q]) (simp_all add: f)
  moreover have "flusher_ok (wd_lsids dev) (ws_durable s) (((ws_flusher s)(i := F_Issue c)) k)" for k
    using inv_flusher [OF inv, of "ws_durable s" "wd_lsids dev" k] f by (simp add: flusher_ok_def)
  moreover have "log_order (wd_lsids dev)" using inv f by (auto simp: wal_inv_def log_order_def max_def)
  ultimately show ?thesis using inv t unfolding s' by (simp add: wal_inv_def f(4))
qed

lemma wal_inv_create:
  assumes inv: "wal_inv s" and us: "units_ok (latest (lsids_of s)) (u # us) new"
    and none: "list_all (\<lambda>x. \<not> lu_started x \<and> lu_flush x = None) (u # us)"
    and st: "store_lsids j new fl (ws_dev s) = (t, dev)"
  shows "wal_inv (s\<lparr>ws_dev := dev, ws_wait := ws_wait s @ u\<lparr>lu_flush := t\<rparr> # us\<rparr>)"
proof -
  note f = store_facts [OF st]
  let ?old = "ws_data s @ concat (map lu_ends (ws_wait s))" and ?new = "concat (map lu_ends (u # us))"
  have q: "queues_ok s" using inv by (simp add: wal_inv_def)
  have le: "latest (lsids_of s) \<le> new" using units_ok_le [OF us] .
  have nb: "\<forall>e \<in> set ?new. latest (lsids_of s) \<le> e \<and> e \<le> new" using units_ok_bounds [OF us] by blast
  have ob: "\<forall>e \<in> set ?old. e \<le> latest (lsids_of s)" "sorted ?old" using q by (auto simp: queues_ok_def)
  have "sorted (?old @ ?new)"
    using ob nb units_ok_sorted [OF us] by (simp only: sorted_append [of ?old ?new]) (meson order_trans)
  moreover have "\<forall>e \<in> set (?old @ ?new). e \<le> new" using ob(1) nb le by (auto intro: order_trans)
  moreover have "units_ok (completed (lsids_of s)) (ws_wait s @ u\<lparr>lu_flush := t\<rparr> # us) new"
    using q us by (intro units_ok_append [of _ _ "latest (lsids_of s)"]) (simp_all add: queues_ok_def)
  moreover have "\<forall>v \<in> set (ws_wait s @ u\<lparr>lu_flush := t\<rparr> # us). \<forall>x. lu_flush v = Some x \<longrightarrow> x \<le> flush (wd_lsids dev)"
    using q f(4,6) none by (auto simp: queues_ok_def list_all_iff intro: order_trans)
  ultimately have "queues_ok (s\<lparr>ws_dev := dev, ws_wait := ws_wait s @ u\<lparr>lu_flush := t\<rparr> # us\<rparr>)"
    using f(1,2) by (simp add: queues_ok_def)
  moreover have "log_order (wd_lsids dev)" using inv f le by (auto simp: wal_inv_def log_order_def)
  ultimately show ?thesis
    using inv f(3,4) inv_flusher [OF inv order_refl, of "wd_lsids dev"] by (simp add: wal_inv_def)
qed

text \<open>One write of the first logpack is complete in the log, possibly with FUA.\<close>

lemma wal_inv_io_done:
  assumes inv: "wal_inv s" and w: "ws_wait s = u # us" "lu_ends u = e # es"
    and c: "c = completed (lsids_of s) \<or> c = e"
    and s': "s' = s\<lparr>ws_dev := set_completed c (ws_dev s), ws_wait := u\<lparr>lu_ends := es\<rparr> # us, ws_data := ws_data s @ [e]\<rparr>"
  shows "wal_inv s'"
proof -
  have q: "queues_ok s" using inv by (simp add: wal_inv_def)
  then have u: "units_ok (completed (lsids_of s)) (u # us) (latest (lsids_of s))" using w(1) by (simp add: queues_ok_def)
  have e: "completed (lsids_of s) \<le> e" "e \<le> latest (lsids_of s)"
    using units_ok_bounds [OF u, of e] w(2) by auto
  have "units_ok c (u\<lparr>lu_ends := es\<rparr> # us) (latest (lsids_of s))"
    using u w(2) c by auto
  then have "queues_ok s'" using q w s' by (auto simp: queues_ok_def)
  moreover have "log_order (lsids_of s')" using inv s' c e by (auto simp: wal_inv_def log_order_def)
  moreover have "flusher_ok (lsids_of s') (ws_durable s) (ws_flusher s i)" for i
    using inv_flusher [OF inv order_refl, of "lsids_of s'"] s' by simp
  ultimately show ?thesis using inv s' by (simp add: wal_inv_def)
qed

lemma set_completed_same [simp]: "set_completed (completed (wd_lsids w)) w = w"
  by (simp add: set_completed_def)

lemma set_flag_lsids [simp]: "wd_lsids (set_wdev_flag b w) = wd_lsids w"
  by (simp add: set_wdev_flag_def)

lemma wal_inv_parts:
  assumes "wal_inv s"
  shows "log_order (lsids_of s)" "permanent (lsids_of s) \<le> ws_durable s" "queues_ok s"
    "\<And>i. flusher_ok (lsids_of s) (ws_durable s) (ws_flusher s i)"
    "task_ok (ws_durable s) (ws_flusher s 0) (ws_task s)" "\<forall>e \<in> set (ws_issued s). e \<le> ws_durable s"
  using assms by (simp_all add: wal_inv_def)

text \<open>The first logpack leaves the queue; the device may become read-only.\<close>

lemma wal_inv_tail:
  assumes inv: "wal_inv s" and w: "ws_wait s = u # us"
    and dev: "wd_lsids dev = lsids_of s"
  shows "wal_inv (s\<lparr>ws_dev := dev, ws_wait := us\<rparr>)"
proof -
  note p = wal_inv_parts [OF inv]
  have "queues_ok (s\<lparr>ws_dev := dev, ws_wait := us\<rparr>)" by (rule queues_ok_tail [OF p(3) w]) (simp_all add: dev)
  then show ?thesis using p by (simp add: wal_inv_def dev)
qed

lemma wal_inv_logpack_done:
  assumes inv: "wal_inv s" and w: "ws_wait s = u # us" "lu_ends u = []"
  shows "wal_inv (s\<lparr>ws_dev := set_completed (lu_next u) (ws_dev s), ws_wait := us\<rparr>)"
proof -
  note p = wal_inv_parts [OF inv]
  have u: "completed (lsids_of s) \<le> lu_next u" "units_ok (lu_next u) us (latest (lsids_of s))"
    using p(3) w by (simp_all add: queues_ok_def)
  then have "queues_ok (s\<lparr>ws_dev := set_completed (lu_next u) (ws_dev s), ws_wait := us\<rparr>)"
    using p(3) w by (auto simp: queues_ok_def)
  moreover have "log_order (wd_lsids (set_completed (lu_next u) (ws_dev s)))"
    using p(1) u units_ok_le [OF u(2)] by (auto simp: log_order_def)
  moreover have "flusher_ok (wd_lsids (set_completed (lu_next u) (ws_dev s))) (ws_durable s) (ws_flusher s i)" for i
    by (rule flusher_ok_mono [OF p(4)]) simp_all
  ultimately show ?thesis using p by (simp add: wal_inv_def)
qed

text \<open>The permanent lsid rises to a durable one that was requested before.\<close>

lemma wal_inv_permanent:
  assumes inv: "wal_inv s" and t: "t \<le> flush (lsids_of s)" and d: "t \<le> d" "ws_durable s \<le> d"
    and s': "ws_dev s' = snd (update_permanent_lsid t (ws_dev s))" "ws_durable s' = d"
      "ws_issued s' = ws_issued s" "ws_task s' = ws_task s"
    and q: "ws_data s' = ws_data s" "queues_ok s'"
    and f: "\<And>i. flusher_ok (lsids_of s) d (ws_flusher s' i)" "task_ok d (ws_flusher s' 0) (ws_task s)"
  shows "wal_inv s'"
proof -
  note p = wal_inv_parts [OF inv]
  have "log_order (lsids_of s')" using p(1) t by (simp add: log_order_def s')
  moreover have "permanent (lsids_of s') \<le> d" using p(2) d by (simp add: s')
  moreover have "flusher_ok (lsids_of s') d (ws_flusher s' i)" for i
    by (rule flusher_ok_mono [OF f(1)]) (simp_all add: s')
  moreover have "\<forall>e \<in> set (ws_issued s). e \<le> d" using p(6) d(2) by (auto intro: order_trans)
  ultimately show ?thesis using q f(2) by (simp add: wal_inv_def s'(2-4))
qed

lemma wal_inv_header_done:
  assumes inv: "wal_inv s" and w: "ws_wait s = u # us" "lu_flush u = Some t"
  shows "wal_inv (s\<lparr>ws_dev := snd (update_permanent_lsid t (ws_dev s)), ws_wait := u\<lparr>lu_flush := None\<rparr> # us,
    ws_durable := max (ws_durable s) t\<rparr>)"
proof -
  note p = wal_inv_parts [OF inv]
  have "t \<le> flush (lsids_of s)" using p(3) w by (simp add: queues_ok_def)
  then show ?thesis
  proof (rule wal_inv_permanent [OF inv, where d = "max (ws_durable s) t"])
    show "queues_ok (s\<lparr>ws_dev := snd (update_permanent_lsid t (ws_dev s)), ws_wait := u\<lparr>lu_flush := None\<rparr> # us,
        ws_durable := max (ws_durable s) t\<rparr>)"
      using p(3) w by (simp add: queues_ok_def)
  qed (simp_all add: flusher_ok_mono [OF p(4)] task_ok_mono [OF p(5)])
qed

lemma wal_inv_flush_end:
  assumes inv: "wal_inv s" and f: "ws_flusher s i = F_Update c"
  shows "wal_inv (s\<lparr>ws_dev := snd (update_permanent_lsid c (ws_dev s)), ws_flusher := (ws_flusher s)(i := F_Idle)\<rparr>)"
proof -
  note p = wal_inv_parts [OF inv]
  have c: "c \<le> flush (lsids_of s)" "c \<le> ws_durable s" using p(4) [of i] f by (simp_all add: flusher_ok_def)
  have t: "task_ok (ws_durable s) (((ws_flusher s)(i := F_Idle)) 0) (ws_task s)"
    using p(5) f c by (auto simp: task_ok_def split: data_task.splits)
  show ?thesis
  proof (rule wal_inv_permanent [OF inv c(1) c(2) order_refl])
    show "queues_ok (s\<lparr>ws_dev := snd (update_permanent_lsid c (ws_dev s)), ws_flusher := (ws_flusher s)(i := F_Idle)\<rparr>)"
      by (rule queues_ok_flush [OF p(3)]) simp_all
    show "flusher_ok (lsids_of s) (ws_durable s) (ws_flusher
       (s\<lparr>ws_dev := snd (update_permanent_lsid c (ws_dev s)), ws_flusher := (ws_flusher s)(i := F_Idle)\<rparr>) k)" for k
      using p(4) by (simp add: flusher_ok_def)
  qed (simp_all add: t [simplified])
qed

lemma wal_inv_flush_ok:
  assumes inv: "wal_inv s" and f: "ws_flusher s i = F_Issue c"
  shows "wal_inv (s\<lparr>ws_durable := max (ws_durable s) c, ws_flusher := (ws_flusher s)(i := F_Update c)\<rparr>)"
proof -
  note p = wal_inv_parts [OF inv]
  have c: "c \<le> flush (lsids_of s)" using p(4) [of i] f by (simp add: flusher_ok_def)
  have "task_ok (max (ws_durable s) c) (((ws_flusher s)(i := F_Update c)) 0) (ws_task s)"
    using task_ok_mono [OF p(5), of "max (ws_durable s) c"] f by (auto simp: task_ok_def split: data_task.splits)
  moreover have "flusher_ok (lsids_of s) (max (ws_durable s) c) (((ws_flusher s)(i := F_Update c)) k)" for k
    using flusher_ok_mono [OF p(4), of "lsids_of s" "max (ws_durable s) c" k] c by (simp add: flusher_ok_def)
  ultimately show ?thesis
    using p(6) by (intro wal_inv_threads [OF inv]) (auto simp: le_max_iff_disj)
qed

text \<open>Every step keeps the invariant, as long as forced flushes do not fail.\<close>

lemma wal_step_inv:
  assumes "wal_step False s s'" and inv: "wal_inv s"
  shows "wal_inv s'"
  using assms(1)
proof cases
  case (create u us new j fl t dev)
  then show ?thesis using wal_inv_create [OF inv] by simp
next
  case (logpack_start u us)
  then show ?thesis using inv by (simp add: wal_inv_def queues_ok_def)
next
  case (logpack_skip u us)
  then show ?thesis using wal_inv_tail [OF inv, of u us "ws_dev s"] by simp
next
  case (logpack_failed u us)
  then show ?thesis using wal_inv_tail [OF inv, of u us] by simp
next
  case (header_done u us t)
  then show ?thesis using wal_inv_header_done [OF inv] by simp
next
  case (log_io_done u us e es)
  then show ?thesis using wal_inv_io_done [OF inv, of u us e es "completed (lsids_of s)"] by simp
next
  case (fua_io_done u us e es j c dev)
  define s1 where "s1 = s\<lparr>ws_dev := set_completed e (ws_dev s), ws_wait := u\<lparr>lu_ends := es\<rparr> # us, ws_data := ws_data s @ [e]\<rparr>"
  have i1: "wal_inv s1" using wal_inv_io_done [OF inv fua_io_done(2,5), of e] s1_def by simp
  then have "task_ok (ws_durable s1) (((ws_flusher s1)(1 := F_Issue c)) 0) (ws_task s1)"
    using wal_inv_parts(5) [OF i1] by simp
  moreover have "force_flush_begin j (ws_dev s1) = (c, dev)" using fua_io_done(7) by (simp add: s1_def)
  ultimately show ?thesis using wal_inv_begin [OF i1, where j = j and c = c and dev = dev and s' = s' and i = 1 and t = "ws_task s1"] fua_io_done(1) by (simp add: s1_def)
next
  case (logpack_done u us)
  then show ?thesis using wal_inv_logpack_done [OF inv] by simp
next
  case (flush_begin i j c dev)
  then show ?thesis
    using wal_inv_begin [OF inv, where j = j and c = c and dev = dev and s' = s' and i = i and t = "ws_task s"] wal_inv_parts(5) [OF inv] by simp
next
  case (flush_ok i c)
  then show ?thesis using wal_inv_flush_ok [OF inv] by simp
next
  case (flush_end i c)
  then show ?thesis using wal_inv_flush_end [OF inv] by simp
next
  case (take_batch batch rest)
  then have "sorted batch" "batch \<noteq> []" using wal_inv_parts(3) [OF inv] by (simp_all add: queues_ok_def sorted_append)
  then have "\<forall>e \<in> set batch. e \<le> last batch" by (induction batch) auto
  then show ?thesis using take_batch inv by (simp add: wal_inv_def queues_ok_def sorted_append task_ok_def)
next
  case (test_read_only l batch)
  then show ?thesis using inv by (simp add: wal_inv_def queues_ok_def task_ok_def)
next
  case (test_writable l batch)
  then show ?thesis using inv by (simp add: wal_inv_def queues_ok_def task_ok_def)
next
  case (load_permanent l batch b)
  then have "l \<le> permanent (lsids_of s)" by (simp add: wait_for_log_permanent_round_def split: if_splits)
  then have "\<forall>e \<in> set batch. e \<le> ws_durable s"
    using load_permanent wal_inv_parts(2,5) [OF inv] by (fastforce simp: task_ok_def)
  then show ?thesis
    using load_permanent wal_inv_parts [OF inv] by (intro wal_inv_threads [OF inv]) (auto simp: task_ok_def)
next
  case (load_retry l batch b)
  then show ?thesis using inv by (simp add: wal_inv_def queues_ok_def task_ok_def)
next
  case (load_force l batch b j c dev)
  then have "l \<le> completed (lsids_of s)" by (simp add: wait_for_log_permanent_round_def not_less split: if_splits)
  then have "task_ok (ws_durable s) (F_Issue c) (D_Flush l batch)"
    using load_force(2) wal_inv_parts(5) [OF inv] begin_facts(1) [OF load_force(5)] by (simp add: task_ok_def)
  then show ?thesis
    using wal_inv_begin [OF inv load_force(5), where s' = s' and i = 0 and t = "D_Flush l batch"] load_force(1) by simp
next
  case (forced l batch)
  then have "\<forall>e \<in> set batch. e \<le> ws_durable s"
    using wal_inv_parts(5) [OF inv] by (fastforce simp: task_ok_def)
  then show ?thesis
    using forced wal_inv_parts [OF inv] by (intro wal_inv_threads [OF inv]) (auto simp: task_ok_def)
next
  case (forced_read_only l batch)
  then show ?thesis using inv by (simp add: wal_inv_def queues_ok_def task_ok_def)
qed simp

interpretation wal: inductive_invariant "wal_step False"
    "\<lambda>s. \<exists>wdev. s = wal_start wdev \<and> log_order (wd_lsids wdev)" wal_inv
proof
  show "wal_inv s" if "\<exists>wdev. s = wal_start wdev \<and> log_order (wd_lsids wdev)" for s :: "'a wal_state"
    using that by (auto simp: wal_inv_def wal_start_def queues_ok_def flusher_ok_def task_ok_def log_order_def)
qed (rule wal_step_inv)

lemma wal_reach_inv:
  assumes "wal_reach False wdev s" and "log_order (wd_lsids wdev)"
  shows "wal_inv s"
  using wal.reach_inv [OF assms(1)] assms(2) by blast

section \<open>The write-ahead rule\<close>

text \<open>
  C2. Whatever the interleaving of the tasks that build logpacks, wait for them, flush the log
  and submit data, a write is sent to the data device only when its whole log is durable on the
  log device, and the lsids stay in the order permanent, flush, completed, latest; this holds
  as long as no forced flush fails.
\<close>

theorem wal_safety:
  assumes "wal_reach False wdev s" and "log_order (wd_lsids wdev)"
  shows "list_all (\<lambda>e. e \<le> ws_durable s) (ws_issued s) \<and> log_order (wd_lsids (ws_dev s)) \<and>
    permanent (wd_lsids (ws_dev s)) \<le> ws_durable s"
  using wal_inv_parts [OF wal_reach_inv [OF assms]] by (simp add: list_all_iff)

text \<open>
  A run of the demo device: two writes in one logpack, the second with FUA.  The data task has
  seen a writable device and is about to look at the lsids for the first write while the
  flush for the second one is under way.
\<close>

definition demo_unit :: "u64 list \<Rightarrow> log_unit" where
  "demo_unit es = \<lparr>lu_started = True, lu_flush = None, lu_ends = es, lu_next = 54\<rparr>"

definition demo_lsids :: "lsid_set \<Rightarrow> ram wal_state" where
  "demo_lsids l = (wal_start demo_wdev)\<lparr>ws_dev := demo_wdev\<lparr>wd_lsids := l\<rparr>\<rparr>"

definition demo_created :: lsid_set where
  "demo_created = (wd_lsids demo_wdev)\<lparr>latest := 54\<rparr>"

definition demo_racing :: "ram wal_state" where
  "demo_racing = (wal_start demo_wdev)\<lparr>ws_dev := snd (force_flush_begin 0 (set_completed 54 (demo_wdev\<lparr>wd_lsids := demo_created\<rparr>))),
     ws_wait := [demo_unit []], ws_data := [54], ws_flusher := (\<lambda>_. F_Idle)(1 := F_Issue 54), ws_task := D_Load 52 [52]\<rparr>"

lemma demo_writable [simp]: "\<not> is_read_only demo_wdev" "\<not> is_read_only (demo_wdev\<lparr>wd_lsids := l\<rparr>)"
  by (simp_all add: is_read_only_def demo_wdev_def)

lemma demo_racing_reached: "wal_reach faults demo_wdev demo_racing"
proof -
  let ?fresh = "(demo_unit [52, 54])\<lparr>lu_started := False\<rparr>"
  let ?s1 = "(demo_lsids demo_created)\<lparr>ws_wait := [?fresh]\<rparr>"
  let ?s2 = "(demo_lsids demo_created)\<lparr>ws_wait := [demo_unit [52, 54]]\<rparr>"
  let ?s3 = "(demo_lsids demo_created)\<lparr>ws_wait := [demo_unit [54]], ws_data := [52]\<rparr>"
  let ?s4 = "(demo_lsids demo_created)\<lparr>ws_wait := [demo_unit [54]], ws_task := D_Test 52 [52]\<rparr>"
  let ?s5 = "(demo_lsids demo_created)\<lparr>ws_wait := [demo_unit [54]], ws_task := D_Load 52 [52]\<rparr>"
  note defs = demo_lsids_def demo_created_def wal_start_def demo_unit_def demo_wdev_def
  have w1: "wal_step faults (wal_start demo_wdev) ?s1"
    using wal_step.create [of "wal_start demo_wdev" ?fresh "[]" 54 0 False None "demo_wdev\<lparr>wd_lsids := demo_created\<rparr>" faults]
    by (simp add: defs store_lsids_def is_read_only_def)
  have w2: "wal_step faults ?s1 ?s2"
    using wal_step.logpack_start [of ?s1 ?fresh "[]" faults] by (simp add: defs is_read_only_def)
  have w3: "wal_step faults ?s2 ?s3"
    using wal_step.log_io_done [of ?s2 "demo_unit [52, 54]" "[]" 52 "[54]" faults] by (simp add: defs)
  have w4: "wal_step faults ?s3 ?s4"
    using wal_step.take_batch [of ?s3 "[52]" "[]" faults] by (simp add: defs)
  have w5: "wal_step faults ?s4 ?s5"
    using wal_step.test_writable [of ?s4 52 "[52]" faults] by (simp add: defs is_read_only_def)
  have w6: "wal_step faults ?s5 demo_racing"
    using wal_step.fua_io_done [of ?s5 "demo_unit [54]" "[]" 54 "[]" 0 54
        "snd (force_flush_begin 0 (set_completed 54 (demo_wdev\<lparr>wd_lsids := demo_created\<rparr>)))" faults]
    by (simp add: demo_racing_def demo_lsids_def wal_start_def demo_unit_def force_flush_begin_def Let_def)
  have "wal_reach faults demo_wdev ?s3"
    by (rule wal_more [OF wal_more [OF wal_more [OF wal_begin w1] w2] w3])
  then show ?thesis by (rule wal_more [OF wal_more [OF wal_more [OF _ w4] w5] w6])
qed

text \<open>The flush ends, well or badly, and the data task reads the lsids.\<close>

definition demo_ended :: "ram wal_state \<Rightarrow> ram wal_state" where
  "demo_ended s = s\<lparr>ws_dev := snd (update_permanent_lsid 54 (ws_dev s)), ws_flusher := (\<lambda>_. F_Idle),
     ws_task := D_Idle, ws_issued := [52]\<rparr>"

lemma demo_ended_reached:
  assumes "wal_reach faults demo_wdev s" "ws_flusher s = (\<lambda>_. F_Idle)(1 := F_Update 54)"
    "ws_task s = D_Load 52 [52]" "ws_issued s = []"
  shows "wal_reach faults demo_wdev (demo_ended s)"
proof -
  let ?s = "s\<lparr>ws_dev := snd (update_permanent_lsid 54 (ws_dev s)), ws_flusher := (ws_flusher s)(1 := F_Idle)\<rparr>"
  have "wal_step faults s ?s" using assms(2) by (intro wal_step.flush_end) simp
  moreover have "wal_step faults ?s (?s\<lparr>ws_task := D_Idle, ws_issued := ws_issued ?s @ [52]\<rparr>)"
    using assms(3) by (intro wal_step.load_permanent [where l = 52 and b = True])
      (simp_all add: wait_for_log_permanent_round_def le_max_iff_disj)
  moreover have "?s\<lparr>ws_task := D_Idle, ws_issued := ws_issued ?s @ [52]\<rparr> = demo_ended s"
    using assms(2,4) by (simp add: demo_ended_def fun_upd_idem)
  ultimately show ?thesis using wal_more [OF wal_more [OF assms(1)]] by simp
qed

definition demo_flushed :: "ram wal_state" where
  "demo_flushed = demo_racing\<lparr>ws_durable := 54, ws_flusher := (ws_flusher demo_racing)(1 := F_Update 54)\<rparr>"

lemma demo_flushed_reached: "wal_reach False demo_wdev demo_flushed"
proof -
  have "max (ws_durable demo_racing) 54 = 54" by (simp add: demo_racing_def wal_start_def demo_wdev_def)
  moreover have "ws_flusher demo_racing 1 = F_Issue 54" by (simp add: demo_racing_def)
  ultimately have "wal_step False demo_racing demo_flushed"
    unfolding demo_flushed_def using wal_step.flush_ok [of demo_racing 1 54 False] by simp
  then show ?thesis by (rule wal_more [OF demo_racing_reached])
qed

theorem wal_safety_witness:
  "ws_issued (demo_ended demo_flushed) = [52] \<and>
   list_all (\<lambda>e. e \<le> ws_durable (demo_ended demo_flushed)) (ws_issued (demo_ended demo_flushed)) \<and>
   log_order (wd_lsids (ws_dev (demo_ended demo_flushed)))"
proof -
  have f: "ws_flusher demo_flushed = (\<lambda>_. F_Idle)(1 := F_Update 54)" "ws_task demo_flushed = D_Load 52 [52]"
    "ws_issued demo_flushed = []"
    by (simp_all add: demo_flushed_def demo_racing_def wal_start_def)
  have "log_order (wd_lsids demo_wdev)" by (simp add: log_order_def demo_wdev_def)
  then show ?thesis
    using wal_safety [OF demo_ended_reached [OF demo_flushed_reached f]] by (simp add: demo_ended_def)
qed

text \<open>
  A forced flush that fails still advances the permanent lsid after it has set the
  read-only flag, so a data task that tested the flag just before submits a write whose log
  is not durable: there is a run in which the write ending at lsid 52 is sent to the data
  device although only the log below 35 is durable.
\<close>

theorem wal_flush_failure_race:
  "\<exists>s. wal_reach True demo_wdev s \<and> ws_issued s = [52] \<and> ws_durable s = 35 \<and> is_read_only (ws_dev s)"
proof -
  let ?s = "demo_racing\<lparr>ws_dev := set_wdev_flag WALB_STATE_READ_ONLY (ws_dev demo_racing),
    ws_flusher := (ws_flusher demo_racing)(1 := F_Update 54)\<rparr>"
  have "wal_step True demo_racing ?s" by (rule wal_step.flush_failed) (simp_all add: demo_racing_def)
  then have "wal_reach True demo_wdev ?s" by (rule wal_more [OF demo_racing_reached])
  then have "wal_reach True demo_wdev (demo_ended ?s)"
    by (rule demo_ended_reached) (simp_all add: demo_racing_def wal_start_def)
  moreover have "ws_durable (demo_ended ?s) = 35" "ws_issued (demo_ended ?s) = [52]"
    by (simp_all add: demo_ended_def demo_racing_def wal_start_def demo_wdev_def)
  moreover have "is_read_only (ws_dev (demo_ended ?s))"
    by (simp add: demo_ended_def is_read_only_def set_wdev_flag_def update_permanent_lsid_def walb_state_defs)
  ultimately show ?thesis by blast
qed

end
