(* ===== verification/Walb_Iocore.thy ===== *)
theory Walb_Iocore
  imports Walb_Checkpoint Walb_Log_Submit Walb_Pending Walb_Overlapped Walb_Wal
begin

text \<open>
  The IO core (\<^verbatim>\<open>module/io.c\<close>): the submit queue and its freezing, the accounting of pending
  data that stops and restarts the queue, the entry points for requests, reads, the submission
  of data IOs, their completion and cancellation, and the garbage collection of logpacks.
  Bio wrappers live in a store indexed by their address.  The state carries the effects on the
  outside: the requests that were ended with their status, the wrappers sent to the data device
  in order, and the tasks put on the workqueue, named by their working bit.  Results of kernel
  allocations, the completion status of an IO and the time are arguments.
\<close>

record 'd io_state =
  io_dev :: "'d walb_dev"
  io_biows :: biow_store
  io_ended :: "(bio \<times> u8) list"
  io_submitted :: "ulong list"
  io_tasks :: "nat list"

text \<open>Status values of the block layer.\<close>

definition BLK_STS_OK :: u8 where "BLK_STS_OK = 0"
definition BLK_STS_RESOURCE :: u8 where "BLK_STS_RESOURCE = 9"
definition BLK_STS_IOERR :: u8 where "BLK_STS_IOERR = 10"

lemmas blk_sts_defs = BLK_STS_OK_def BLK_STS_RESOURCE_def BLK_STS_IOERR_def

abbreviation io_core :: "'d io_state \<Rightarrow> iocore_data" where
  "io_core s \<equiv> wd_iocore (io_dev s)"

definition upd_core :: "(iocore_data \<Rightarrow> iocore_data) \<Rightarrow> 'd io_state \<Rightarrow> 'd io_state" where
  "upd_core f s = s\<lparr>io_dev := (io_dev s)\<lparr>wd_iocore := f (wd_iocore (io_dev s))\<rparr>\<rparr>"

definition end_bio :: "bio option \<Rightarrow> u8 \<Rightarrow> 'd io_state \<Rightarrow> 'd io_state" where
  "end_bio b st s = (case b of None \<Rightarrow> s | Some b' \<Rightarrow> s\<lparr>io_ended := io_ended s @ [(b', st)]\<rparr>)"

lemma upd_core_fields [simp]:
  "io_core (upd_core f s) = f (io_core s)" "io_biows (upd_core f s) = io_biows s"
  "io_ended (upd_core f s) = io_ended s" "io_submitted (upd_core f s) = io_submitted s"
  "io_tasks (upd_core f s) = io_tasks s" "wd_lsids (io_dev (upd_core f s)) = wd_lsids (io_dev s)"
  "wd_flags (io_dev (upd_core f s)) = wd_flags (io_dev s)"
  by (simp_all add: upd_core_def)

lemma end_bio_fields [simp]:
  "io_dev (end_bio b st s) = io_dev s" "io_biows (end_bio b st s) = io_biows s"
  "io_submitted (end_bio b st s) = io_submitted s" "io_tasks (end_bio b st s) = io_tasks s"
  by (simp_all add: end_bio_def split: option.splits)

section \<open>The submit queue\<close>

definition is_frozen :: "iocore_data \<Rightarrow> bool" where
  "is_frozen ic = (ic_is_frozen_sys ic \<or> ic_is_frozen_usr ic)"

definition set_frozen :: "bool \<Rightarrow> bool \<Rightarrow> iocore_data \<Rightarrow> iocore_data" where
  "set_frozen is_usr v ic = (if is_usr then ic\<lparr>ic_is_frozen_usr := v\<rparr> else ic\<lparr>ic_is_frozen_sys := v\<rparr>)"

definition freeze_detail :: "bool \<Rightarrow> iocore_data \<Rightarrow> iocore_data" where
  "freeze_detail is_usr ic = set_frozen is_usr True ic"

definition make_frozen_queue_empty :: "iocore_data \<Rightarrow> iocore_data" where
  "make_frozen_queue_empty ic =
     (if ic_frozen_queue ic = [] then ic
      else ic\<lparr>ic_logpack_submit_queue := ic_logpack_submit_queue ic @ ic_frozen_queue ic, ic_frozen_queue := []\<rparr>)"

definition melt_detail :: "bool \<Rightarrow> iocore_data \<Rightarrow> bool \<times> iocore_data" where
  "melt_detail is_usr ic =
     (let ic1 = set_frozen is_usr False ic; melted = \<not> is_frozen ic1 in
      (melted, if melted then make_frozen_queue_empty ic1 else ic1))"

definition push_into_lpack_submit_queue :: "ulong \<Rightarrow> iocore_data \<Rightarrow> bool \<times> iocore_data" where
  "push_into_lpack_submit_queue biow ic =
     (if is_frozen ic then
        (ic_logpack_submit_queue ic \<noteq> [], ic\<lparr>ic_frozen_queue := ic_frozen_queue ic @ [biow]\<rparr>)
      else
        (let ic1 = make_frozen_queue_empty ic in
         (True, ic1\<lparr>ic_logpack_submit_queue := ic_logpack_submit_queue ic1 @ [biow]\<rparr>)))"

text \<open>\<^verbatim>\<open>dispatch_task_if_necessary\<close> repeats a failed allocation until the work is queued.\<close>

definition dispatch_task_if_necessary :: "nat \<Rightarrow> 'd io_state \<Rightarrow> 'd io_state" where
  "dispatch_task_if_necessary nr s =
     (if \<not> test_bit_u64 nr (ic_flags (io_core s))
      then (upd_core (\<lambda>ic. ic\<lparr>ic_flags := set_bit_u64 nr (ic_flags ic)\<rparr>) s)\<lparr>io_tasks := io_tasks s @ [nr]\<rparr>
      else s)"

definition dispatch_submit_log_task :: "'d io_state \<Rightarrow> 'd io_state" where
  "dispatch_submit_log_task = dispatch_task_if_necessary IOCORE_STATE_SUBMIT_LOG_TASK_WORKING"

definition dispatch_wait_log_task :: "'d io_state \<Rightarrow> 'd io_state" where
  "dispatch_wait_log_task = dispatch_task_if_necessary IOCORE_STATE_WAIT_LOG_TASK_WORKING"

definition dispatch_submit_data_task :: "'d io_state \<Rightarrow> 'd io_state" where
  "dispatch_submit_data_task = dispatch_task_if_necessary IOCORE_STATE_SUBMIT_DATA_TASK_WORKING"

definition dispatch_wait_data_task :: "'d io_state \<Rightarrow> 'd io_state" where
  "dispatch_wait_data_task = dispatch_task_if_necessary IOCORE_STATE_WAIT_DATA_TASK_WORKING"

definition clear_working_flag :: "nat \<Rightarrow> iocore_data \<Rightarrow> iocore_data" where
  "clear_working_flag nr ic = ic\<lparr>ic_flags := clear_bit_u64 nr (ic_flags ic)\<rparr>"

text \<open>
  The dequeuing section of the tasks: at most \<^verbatim>\<open>bulk\<close> elements, but at least one; an empty
  queue clears the working flag.
\<close>

definition dequeue_bulk :: "u32 \<Rightarrow> 'a list \<Rightarrow> 'a list \<times> 'a list" where
  "dequeue_bulk bulk q = (let n = max 1 (unat bulk) in (take n q, drop n q))"

section \<open>Counters of wrappers\<close>

definition start_write_bio_wrapper :: "ulong \<Rightarrow> 'd io_state \<Rightarrow> 'd io_state" where
  "start_write_bio_wrapper biow s =
     (upd_core (\<lambda>ic. ic\<lparr>ic_n_started_write_bio := ic_n_started_write_bio ic + 1\<rparr>) s)\<lparr>io_biows :=
       (io_biows s)(biow := biow_set_flag BIO_WRAPPER_STARTED (io_biows s biow))\<rparr>"

definition dequeue_submit_queue :: "'d io_state \<Rightarrow> ulong list \<times> 'd io_state" where
  "dequeue_submit_queue s =
     (let q = ic_logpack_submit_queue (io_core s);
          s1 = (if q = [] then upd_core (clear_working_flag IOCORE_STATE_SUBMIT_LOG_TASK_WORKING) s else s);
          (biow_list, rest) = dequeue_bulk (wd_n_io_bulk (io_dev s)) q in
      (biow_list, fold start_write_bio_wrapper biow_list
         (upd_core (\<lambda>ic. ic\<lparr>ic_logpack_submit_queue := rest\<rparr>) s1)))"

definition alloc_bio_wrapper_inc :: "bool \<Rightarrow> ulong \<Rightarrow> 'd io_state \<Rightarrow> bool \<times> 'd io_state" where
  "alloc_bio_wrapper_inc alloc_ok biow s =
     (if \<not> alloc_ok then (False, s)
      else (True, (upd_core (\<lambda>ic. ic\<lparr>ic_n_pending_bio := ic_n_pending_bio ic + 1\<rparr>) s)\<lparr>io_biows :=
        (io_biows s)(biow := (io_biows s biow)\<lparr>bw_flags := clear_bit_u64 BIO_WRAPPER_STARTED (bw_flags (io_biows s biow))\<rparr>)\<rparr>))"

definition destroy_bio_wrapper_dec :: "ulong \<Rightarrow> 'd io_state \<Rightarrow> 'd io_state" where
  "destroy_bio_wrapper_dec biow s =
     upd_core (\<lambda>ic. ic\<lparr>ic_n_pending_bio := ic_n_pending_bio ic - 1,
       ic_n_started_write_bio := ic_n_started_write_bio ic - (if bio_wrapper_state_is_started (io_biows s biow) then 1 else 0)\<rparr>) s"

fun fail_and_destroy_bio_wrapper_list :: "ulong list \<Rightarrow> 'd io_state \<Rightarrow> 'd io_state" where
  "fail_and_destroy_bio_wrapper_list [] s = s"
| "fail_and_destroy_bio_wrapper_list (biow # bs) s =
     fail_and_destroy_bio_wrapper_list bs
       (destroy_bio_wrapper_dec biow (end_bio (bw_bio (io_biows s biow)) BLK_STS_IOERR s))"

section \<open>Pending data\<close>

text \<open>
  \<^verbatim>\<open>should_stop_queue\<close> adds in 32 bits.  \<^verbatim>\<open>time_is_before_jiffies\<close> compares as the kernel
  does, through the sign of the difference.
\<close>

definition should_stop_queue :: "u64 \<Rightarrow> bio_wrapper \<Rightarrow> 'd walb_dev \<Rightarrow> bool \<times> 'd walb_dev" where
  "should_stop_queue jiffies biow wdev =
     (let ic = wd_iocore wdev in
      if test_bit_u64 IOCORE_STATE_IS_QUEUE_STOPPED (ic_flags ic) then (False, wdev)
      else if ic_pending_sectors ic + bw_len biow > wd_max_pending_sectors wdev then
        (True, wdev\<lparr>wd_iocore := ic\<lparr>ic_queue_restart_jiffies := jiffies + ucast (wd_queue_stop_timeout_jiffies wdev)\<rparr>\<rparr>)
      else (False, wdev))"

definition time_is_before_jiffies :: "u64 \<Rightarrow> u64 \<Rightarrow> bool" where
  "time_is_before_jiffies jiffies t = (sint (t - jiffies) < 0)"

definition should_start_queue :: "u64 \<Rightarrow> bio_wrapper \<Rightarrow> 'd walb_dev \<Rightarrow> bool" where
  "should_start_queue jiffies biow wdev =
     (let ic = wd_iocore wdev in
      if \<not> test_bit_u64 IOCORE_STATE_IS_QUEUE_STOPPED (ic_flags ic) then False
      else
        (if ic_pending_sectors ic \<ge> bw_len biow
         then ic_pending_sectors ic - bw_len biow < wd_min_pending_sectors wdev else True) \<or>
        time_is_before_jiffies jiffies (ic_queue_restart_jiffies ic))"

definition delete_bio_wrapper_from_pending_data :: "rb_op \<Rightarrow> u64 \<Rightarrow> ulong \<Rightarrow> 'd io_state \<Rightarrow> bool \<times> 'd io_state" where
  "delete_bio_wrapper_from_pending_data rb_del jiffies biow s =
     (let w = io_biows s biow; starts_queue = should_start_queue jiffies w (io_dev s) in
      (starts_queue,
       upd_core (\<lambda>ic.
         if bio_wrapper_state_is_discard w then ic\<lparr>ic_pending_sectors := ic_pending_sectors ic - 1\<rparr>
         else if \<not> bio_wrapper_state_is_overwritten w then
           (let (data', max') = pending_delete rb_del (ic_pending_data ic) (ic_max_sectors_in_pending ic) (io_biows s) biow in
            ic\<lparr>ic_pending_sectors := ic_pending_sectors ic - bw_len w, ic_pending_data := data', ic_max_sectors_in_pending := max'\<rparr>)
         else ic\<lparr>ic_pending_sectors := ic_pending_sectors ic - bw_len w\<rparr>) s))"

text \<open>
  The insertion of one write of a complete logpack into the pending data.  Each round of the
  retry loop takes the next allocation result; a failed one undoes the accounting.
\<close>

fun insert_pending_data :: "rb_op \<Rightarrow> rb_op \<Rightarrow> u64 \<Rightarrow> treemap_allocs list \<Rightarrow> ulong \<Rightarrow> 'd io_state \<Rightarrow> (bool \<times> 'd io_state) option" where
  "insert_pending_data rb_ins rb_del jiffies [] biow s = None"
| "insert_pending_data rb_ins rb_del jiffies (al # als) biow s =
     (let w = io_biows s biow; (is_stop_queue, dev1) = should_stop_queue jiffies w (io_dev s); s1 = s\<lparr>io_dev := dev1\<rparr> in
      if bio_wrapper_state_is_discard w then
        Some (is_stop_queue, upd_core (\<lambda>ic. ic\<lparr>ic_pending_sectors := ic_pending_sectors ic + 1\<rparr>) s1)
      else
        (let ic = io_core s1 in
         case pending_insert_and_delete_fully_overwritten rb_ins rb_del (ic_pending_data ic)
             (ic_max_sectors_in_pending ic) (io_biows s1) biow al of
           None \<Rightarrow> None
         | Some (ok, data', max', H') \<Rightarrow>
             if \<not> ok then insert_pending_data rb_ins rb_del jiffies als biow s1
             else Some (is_stop_queue,
               (upd_core (\<lambda>ic. ic\<lparr>ic_pending_sectors := ic_pending_sectors ic + bw_len w,
                  ic_pending_data := data', ic_max_sectors_in_pending := max'\<rparr>) s1)\<lparr>io_biows := H'\<rparr>)))"

definition stop_queue_if_needed :: "bool \<Rightarrow> 'd io_state \<Rightarrow> 'd io_state" where
  "stop_queue_if_needed is_stop_queue s =
     (if is_stop_queue \<and> \<not> test_bit_u64 IOCORE_STATE_IS_QUEUE_STOPPED (ic_flags (io_core s))
      then upd_core (\<lambda>ic. freeze_detail False (ic\<lparr>ic_flags := set_bit_u64 IOCORE_STATE_IS_QUEUE_STOPPED (ic_flags ic)\<rparr>)) s
      else s)"

section \<open>Waiting for IOs\<close>

text \<open>The argument \<^verbatim>\<open>st\<close> is the status the device gave to the cloned bio.\<close>

definition wait_for_bio_wrapper_io :: "u8 \<Rightarrow> bool \<Rightarrow> bool \<Rightarrow> ulong \<Rightarrow> 'd io_state \<Rightarrow> 'd io_state" where
  "wait_for_bio_wrapper_io st is_endio is_delete biow s =
     (let w = io_biows s biow; bioe = bw_cloned_bioe w;
          w1 = (if bio_entry_exists bioe then w\<lparr>bw_cloned_bioe := bio_entry_end_io st bioe, bw_status := st\<rparr> else w);
          s1 = (if is_endio then end_bio (bw_bio w) (if bw_status w1 \<noteq> BLK_STS_OK then BLK_STS_IOERR else BLK_STS_OK) s else s);
          w2 = (if is_endio then w1\<lparr>bw_bio := None\<rparr> else w1);
          w3 = (if is_delete then w2\<lparr>bw_cloned_bioe := fin_bio_entry (bw_cloned_bioe w2)\<rparr> else w2) in
      s1\<lparr>io_biows := (io_biows s1)(biow := w3)\<rparr>)"

definition submit_write_bio_wrapper :: "ulong \<Rightarrow> 'd io_state \<Rightarrow> 'd io_state" where
  "submit_write_bio_wrapper biow s = s\<lparr>io_submitted := io_submitted s @ [biow]\<rparr>"

definition melt_and_dispatch :: "'d io_state \<Rightarrow> 'd io_state" where
  "melt_and_dispatch s =
     (let (melted, ic1) = melt_detail False (io_core s); s1 = upd_core (\<lambda>_. ic1) s in
      if melted then dispatch_submit_log_task s1 else s1)"

definition wait_for_write_bio_wrapper :: "rb_op \<Rightarrow> u64 \<Rightarrow> u8 \<Rightarrow> ulong \<Rightarrow> 'd io_state \<Rightarrow> 'd io_state option" where
  "wait_for_write_bio_wrapper rb_del jiffies st biow s =
     (let s1 = wait_for_bio_wrapper_io st False False biow s; ic = io_core s1 in
      case overlapped_delete_and_notify rb_del (ic_overlapped_data ic) (ic_max_sectors_in_overlapped ic) [] (io_biows s1) biow of
        None \<Rightarrow> None
      | Some (n, data', max', should_submit_list, H') \<Rightarrow>
          (let s2 = (upd_core (\<lambda>ic. ic\<lparr>ic_overlapped_data := data', ic_max_sectors_in_overlapped := max'\<rparr>) s1)\<lparr>io_biows := H'\<rparr>;
               s3 = fold submit_write_bio_wrapper should_submit_list s2;
               (starts_queue, s4) = delete_bio_wrapper_from_pending_data rb_del jiffies biow s3;
               s5 = (if starts_queue \<and> test_bit_u64 IOCORE_STATE_IS_QUEUE_STOPPED (ic_flags (io_core s4))
                     then upd_core (\<lambda>ic. ic\<lparr>ic_flags := clear_bit_u64 IOCORE_STATE_IS_QUEUE_STOPPED (ic_flags ic)\<rparr>) (melt_and_dispatch s4)
                     else s4);
               w = io_biows s5 biow in
           Some (if bio_entry_exists (bw_cloned_bioe w)
                 then s5\<lparr>io_biows := (io_biows s5)(biow := w\<lparr>bw_cloned_bioe := fin_bio_entry (bw_cloned_bioe w)\<rparr>)\<rparr>
                 else s5)))"

definition cancel_write_bio_wrapper :: "rb_op \<Rightarrow> u64 \<Rightarrow> ulong \<Rightarrow> 'd io_state \<Rightarrow> 'd io_state" where
  "cancel_write_bio_wrapper rb_del jiffies biow s =
     (let (starts_queue, s1) = delete_bio_wrapper_from_pending_data rb_del jiffies biow s;
          s2 = (if starts_queue then melt_and_dispatch s1 else s1);
          w = io_biows s2 biow;
          w1 = (if bio_entry_exists (bw_cloned_bioe w)
                then w\<lparr>bw_cloned_bio_list := [], bw_cloned_bioe := bio_entry_clear (bw_cloned_bioe w)\<rparr> else w) in
      s2\<lparr>io_biows := (io_biows s2)(biow := w1\<lparr>bw_status := BLK_STS_IOERR\<rparr>)\<rparr>)"

section \<open>Requests\<close>

text \<open>
  \<^verbatim>\<open>clone_ok\<close> is the result of the allocation of the clone and \<^verbatim>\<open>bio_split\<close> the kernel function.
  The bios that are answered from pending data end the clone, not the request.
\<close>

definition submit_read_bio_wrapper ::
  "bool \<Rightarrow> (bio \<Rightarrow> u32 \<Rightarrow> (bio \<times> bio) option) \<Rightarrow> (ulong \<Rightarrow> nat \<Rightarrow> nat) \<Rightarrow> ulong \<Rightarrow> 'd io_state \<Rightarrow> 'd io_state option" where
  "submit_read_bio_wrapper clone_ok bio_split seg biow s =
     (let w = io_biows s biow;
          fail = (\<lambda>s1. destroy_bio_wrapper_dec biow (end_bio (bw_bio w) BLK_STS_RESOURCE s1));
          put = (\<lambda>w1. w1\<lparr>bw_cloned_bio_list := [], bw_cloned_bioe := fin_bio_entry (bw_cloned_bioe w1)\<rparr>);
          set = (\<lambda>w1 s1. s1\<lparr>io_biows := (io_biows s1)(biow := w1)\<rparr>) in
      case bw_bio w of
        None \<Rightarrow> None
      | Some b \<Rightarrow>
          (let (ok, bioe) = init_bio_entry_by_clone clone_ok (bw_cloned_bioe w) b in
           if \<not> ok then Some (fail s)
           else case be_bio bioe of
             None \<Rightarrow> None
           | Some c \<Rightarrow>
               (case split_bio_for_chunk bio_split [] c (wd_ddev_chunk_sectors (io_dev s)) of
                  None \<Rightarrow> None
                | Some (split_ok, bl, rest) \<Rightarrow>
                    (let w1 = w\<lparr>bw_cloned_bioe := bioe, bw_cloned_bio_list := bl\<rparr> in
                     if \<not> split_ok then Some (fail (set (put w1) s))
                     else
                       (let s1 = set w1 s; ic = io_core s1 in
                        case pending_check_and_copy bio_split seg (ic_pending_data ic) (ic_max_sectors_in_pending ic)
                            (io_biows s1) biow of
                          None \<Rightarrow> None
                        | Some (copy_ok, H', ended) \<Rightarrow>
                            if \<not> copy_ok then Some (fail (set (put (H' biow)) (s1\<lparr>io_biows := H'\<rparr>)))
                            else Some (submit_write_bio_wrapper biow (s1\<lparr>io_biows := H'\<rparr>)))))))"

text \<open>
  \<^verbatim>\<open>iocore_make_request\<close>: \<^verbatim>\<open>deep_clone\<close> is the copy of the request with its data, if its
  memory could be allocated, and \<^verbatim>\<open>biow\<close> the address of the new wrapper.
\<close>

definition iocore_make_request ::
  "bool \<Rightarrow> bio option \<Rightarrow> bool \<Rightarrow> (bio \<Rightarrow> u32 \<Rightarrow> (bio \<times> bio) option) \<Rightarrow> (ulong \<Rightarrow> nat \<Rightarrow> nat) \<Rightarrow> ulong \<Rightarrow> bio \<Rightarrow>
   'd io_state \<Rightarrow> 'd io_state option" where
  "iocore_make_request alloc_ok deep_clone clone_ok bio_split seg biow b s =
     (if bi_op b = REQ_OP_OTHER then Some (end_bio (Some b) BLK_STS_IOERR s)
      else
        (let is_write = (bi_op b \<noteq> REQ_OP_READ) in
         if is_wdev_dying (io_dev s) then Some (end_bio (Some b) BLK_STS_IOERR s)
         else if is_write \<and> is_read_only (io_dev s) then Some (end_bio (Some b) BLK_STS_IOERR s)
         else
           (let (ok, s1) = alloc_bio_wrapper_inc alloc_ok biow s in
            if \<not> ok then Some (end_bio (Some b) BLK_STS_RESOURCE s)
            else
              (let s2 = s1\<lparr>io_biows := (io_biows s1)(biow := init_bio_wrapper (io_biows s1 biow) (Some b))\<rparr> in
               if is_write then
                 (case deep_clone of
                    None \<Rightarrow> Some (end_bio (Some b) BLK_STS_IOERR (destroy_bio_wrapper_dec biow s2))
                  | Some c \<Rightarrow>
                      (let s3 = s2\<lparr>io_biows := (io_biows s2)(biow := (io_biows s2 biow)\<lparr>bw_copied_bio := Some c\<rparr>)\<rparr>;
                           (nonempty, ic1) = push_into_lpack_submit_queue biow (io_core s3);
                           s4 = upd_core (\<lambda>_. ic1) s3 in
                       Some (if nonempty then dispatch_submit_log_task s4 else s4)))
               else submit_read_bio_wrapper clone_ok bio_split seg biow s2))))"

text \<open>The walblog device: reads are forwarded to the log device.\<close>

definition iocore_log_make_request :: "'d walb_dev \<Rightarrow> bio \<Rightarrow> u8 option" where
  "iocore_log_make_request wdev b =
     (if is_wdev_dying wdev then Some BLK_STS_IOERR
      else if op_is_write (bi_op b) then Some BLK_STS_IOERR
      else None)"

section \<open>A complete logpack\<close>

text \<open>
  One pass of \<^verbatim>\<open>wait_for_logpack_and_submit_datapack\<close> over the wrappers of a logpack.
  \<^verbatim>\<open>wa_status\<close> gives the completion status of each log IO; the wrappers that stay in the list
  of the pack for the garbage collection are returned.
\<close>

record 'd wait_args =
  wa_ops :: "'d block_ops"
  wa_ins :: rb_op
  wa_del :: rb_op
  wa_allocs :: "treemap_allocs list"
  wa_split :: "bio \<Rightarrow> u32 \<Rightarrow> (bio \<times> bio) option"
  wa_jiffies :: u64
  wa_status :: "ulong \<Rightarrow> u8"

definition biow_end_lsid :: "u32 \<Rightarrow> bio_wrapper \<Rightarrow> u64" where
  "biow_end_lsid pbs w =
     (let pb = (if bio_wrapper_state_is_discard w then 0 else ucast (capacity_pb pbs (ucast (bw_len w))) :: u32) in
      bw_lsid w + ucast pb)"

definition prepare_data_bios :: "'d wait_args \<Rightarrow> 'd walb_dev \<Rightarrow> bio_wrapper \<Rightarrow> bio_wrapper option" where
  "prepare_data_bios wa wdev w =
     (if \<not> bio_wrapper_state_is_discard w \<or> bo_queue_discard (wa_ops wa) (wd_ddev wdev) then
        (case bw_copied_bio w of
           None \<Rightarrow> None
         | Some c \<Rightarrow>
             (let c1 = c\<lparr>bi_private := 0\<rparr>; w1 = w\<lparr>bw_cloned_bioe := init_bio_entry (bw_cloned_bioe w) c1\<rparr> in
              map_option (\<lambda>bl. w1\<lparr>bw_cloned_bio_list := bl\<rparr>)
                (split_bio_for_chunk_never_giveup (wa_split wa) [] c1 (wd_ddev_chunk_sectors wdev))))
      else Some w)"

definition flush_for_fua :: "'d wait_args \<Rightarrow> ulong \<Rightarrow> 'd io_state \<Rightarrow> 'd io_state" where
  "flush_for_fua wa biow s =
     (let w = io_biows s biow in
      case bw_copied_bio w of
        Some c \<Rightarrow>
          if bi_fua c then
            s\<lparr>io_dev := snd (force_flush_ldev (wa_ops wa) (wa_jiffies wa)
               (set_completed (biow_end_lsid (ucast (wd_physical_bs (io_dev s))) w) (io_dev s)))\<rparr>
          else s
      | None \<Rightarrow> s)"

definition wait_one_failed :: "ulong \<Rightarrow> 'd io_state \<Rightarrow> 'd io_state" where
  "wait_one_failed biow s =
     destroy_bio_wrapper_dec biow (end_bio (bw_bio (io_biows s biow)) BLK_STS_IOERR
       (s\<lparr>io_dev := set_wdev_flag WALB_STATE_READ_ONLY (io_dev s)\<rparr>))"

definition wait_one_write :: "'d wait_args \<Rightarrow> ulong \<Rightarrow> 'd io_state \<Rightarrow> 'd io_state option" where
  "wait_one_write wa biow s =
     Option.bind (prepare_data_bios wa (io_dev s) (io_biows s biow)) (\<lambda>w1.
     Option.bind (insert_pending_data (wa_ins wa) (wa_del wa) (wa_jiffies wa) (wa_allocs wa) biow
         (s\<lparr>io_biows := (io_biows s)(biow := w1)\<rparr>)) (\<lambda>(is_stop_queue, s1).
       let s2 = flush_for_fua wa biow (stop_queue_if_needed is_stop_queue s1);
           s3 = end_bio (bw_bio (io_biows s2 biow)) BLK_STS_OK s2;
           s4 = s3\<lparr>io_biows := (io_biows s3)(biow := (io_biows s3 biow)\<lparr>bw_bio := None\<rparr>)\<rparr> in
       Some (upd_core (\<lambda>ic. ic\<lparr>ic_datapack_submit_queue := ic_datapack_submit_queue ic @ [biow]\<rparr>) s4)))"

fun wait_biow_loop :: "'d wait_args \<Rightarrow> ulong list \<Rightarrow> bool \<Rightarrow> 'd io_state \<Rightarrow> (bool \<times> ulong list \<times> 'd io_state) option" where
  "wait_biow_loop wa [] is_failed s = Some (is_failed, [], s)"
| "wait_biow_loop wa (biow # bs) is_failed s =
     (let s1 = wait_for_bio_wrapper_io (wa_status wa biow) False True biow s; w = io_biows s1 biow in
      if is_failed \<or> bw_status w \<noteq> BLK_STS_OK then wait_biow_loop wa bs True (wait_one_failed biow s1)
      else if bw_len w = 0 then
        wait_biow_loop wa bs is_failed (destroy_bio_wrapper_dec biow (end_bio (bw_bio w) BLK_STS_OK s1))
      else
        Option.bind (wait_one_write wa biow s1) (\<lambda>s2.
          map_option (\<lambda>(f, kept, s3). (f, biow # kept, s3)) (wait_biow_loop wa bs is_failed s2)))"

definition wait_for_logpack_and_submit_datapack ::
  "'d wait_args \<Rightarrow> u8 \<Rightarrow> pack \<Rightarrow> 'd io_state \<Rightarrow> (pack \<times> 'd io_state) option" where
  "wait_for_logpack_and_submit_datapack wa header_status wpack s =
     (let ro = is_read_only (io_dev s); (header_ok, wpack1) = wait_for_logpack_header header_status wpack;
          is_failed = (ro \<or> \<not> header_ok);
          s1 = (if \<not> is_failed \<and> pack_header_should_flush wpack1
                then s\<lparr>io_dev := snd (update_permanent_lsid (pk_new_permanent_lsid wpack1) (io_dev s))\<rparr> else s) in
      map_option (\<lambda>(failed, kept, s2).
          (wpack1\<lparr>pk_biow_list := kept\<rparr>,
           if \<not> failed then s2\<lparr>io_dev := set_completed (get_next_lsid (pk_header wpack1)) (io_dev s2)\<rparr> else s2))
        (wait_biow_loop wa (pk_biow_list wpack1) is_failed s1))"

section \<open>Data IOs\<close>

text \<open>Insertion sort from the end of the list; wrappers with equal positions come out reversed.\<close>

definition insert_to_sorted_bio_wrapper_list_by_pos :: "biow_store \<Rightarrow> ulong \<Rightarrow> ulong list \<Rightarrow> ulong list" where
  "insert_to_sorted_bio_wrapper_list_by_pos H biow biow_list =
     (if biow_list \<noteq> [] \<and> bw_pos (H biow) > bw_pos (H (last biow_list)) then biow_list @ [biow]
      else
        (let keep = (\<lambda>tmp. \<not> bw_pos (H biow) > bw_pos (H tmp)); r = rev biow_list in
         rev (dropWhile keep r) @ biow # rev (takeWhile keep r)))"

fun insert_overlapped_all :: "rb_op \<Rightarrow> treemap_allocs list \<Rightarrow> ulong list \<Rightarrow> 'd io_state \<Rightarrow> 'd io_state option" where
  "insert_overlapped_all rb_ins als [] s = Some s"
| "insert_overlapped_all rb_ins [] (biow # bs) s = None"
| "insert_overlapped_all rb_ins (al # als) (biow # bs) s =
     (let ic = io_core s in
      case overlapped_check_and_insert rb_ins (ic_overlapped_data ic) (ic_max_sectors_in_overlapped ic) (io_biows s) biow al of
        None \<Rightarrow> None
      | Some (ok, data', max', H') \<Rightarrow>
          (let s1 = (upd_core (\<lambda>ic. ic\<lparr>ic_overlapped_data := data', ic_max_sectors_in_overlapped := max'\<rparr>) s)\<lparr>io_biows := H'\<rparr> in
           insert_overlapped_all rb_ins als (if ok then bs else biow # bs) s1))"

definition sort_step :: "bool \<Rightarrow> ulong \<Rightarrow> 'd io_state \<times> ulong list \<Rightarrow> 'd io_state \<times> ulong list" where
  "sort_step sort_data_io biow =
     (\<lambda>(s, sorted_list).
        let w = io_biows s biow;
            s1 = s\<lparr>io_biows := (io_biows s)(biow := w\<lparr>bw_cloned_bio_list := bio_clear_flush_flags_list (bw_cloned_bio_list w)\<rparr>)\<rparr> in
        (s1, if bio_wrapper_state_is_delayed w then sorted_list
             else if sort_data_io then insert_to_sorted_bio_wrapper_list_by_pos (io_biows s1) biow sorted_list
             else sorted_list @ [biow]))"

definition submit_data_batch :: "rb_op \<Rightarrow> rb_op \<Rightarrow> bool \<Rightarrow> treemap_allocs list \<Rightarrow> u64 \<Rightarrow> bool \<Rightarrow> ulong list \<Rightarrow> 'd io_state \<Rightarrow> 'd io_state option" where
  "submit_data_batch rb_ins rb_del sort_data_io als jiffies is_permanent biow_list s =
     (if \<not> is_permanent then Some (fold (cancel_write_bio_wrapper rb_del jiffies) biow_list s)
      else
        Option.bind (insert_overlapped_all rb_ins als biow_list s) (\<lambda>s1.
          let (s2, sorted_list) = fold (sort_step sort_data_io) biow_list (s1, []);
              s3 = fold submit_write_bio_wrapper sorted_list s2;
              s4 = upd_core (\<lambda>ic. ic\<lparr>ic_datapack_wait_queue := ic_datapack_wait_queue ic @ biow_list\<rparr>) s3 in
          Some (dispatch_wait_data_task s4)))"

section \<open>Garbage collection\<close>

fun gc_biows :: "ulong list \<Rightarrow> 'd io_state \<Rightarrow> 'd io_state" where
  "gc_biows [] s = s"
| "gc_biows (biow # bs) s =
     gc_biows bs (destroy_bio_wrapper_dec biow
       (if bw_status (io_biows s biow) \<noteq> BLK_STS_OK
        then s\<lparr>io_dev := set_wdev_flag WALB_STATE_READ_ONLY (io_dev s)\<rparr> else s))"

fun gc_packs :: "pack list \<Rightarrow> u64 \<Rightarrow> 'd io_state \<Rightarrow> u64 \<times> 'd io_state" where
  "gc_packs [] written_lsid s = (written_lsid, s)"
| "gc_packs (wpack # ps) written_lsid s =
     gc_packs ps (get_next_lsid_unsafe (pk_header wpack)) (gc_biows (pk_biow_list wpack) s)"

definition gc_logpack_list :: "pack list \<Rightarrow> 'd io_state \<Rightarrow> 'd io_state" where
  "gc_logpack_list wpack_list s =
     (let (written_lsid, s1) = gc_packs wpack_list INVALID_LSID s in
      s1\<lparr>io_dev := (io_dev s1)\<lparr>wd_lsids := (wd_lsids (io_dev s1))\<lparr>written := written_lsid\<rparr>\<rparr>\<rparr>)"

text \<open>The loop of \<^verbatim>\<open>dequeue_and_gc_logpack_list\<close> until the queue is empty.\<close>

function dequeue_and_gc_logpack_list :: "'d io_state \<Rightarrow> 'd io_state" where
  "dequeue_and_gc_logpack_list s =
     (case ic_logpack_gc_queue (io_core s) of
        [] \<Rightarrow> s
      | q \<Rightarrow>
          (let (batch, rest) = dequeue_bulk (wd_n_pack_bulk (io_dev s)) q;
               s1 = gc_logpack_list batch (upd_core (\<lambda>ic. ic\<lparr>ic_logpack_gc_queue := rest\<rparr>) s) in
           dequeue_and_gc_logpack_list
             (upd_core (\<lambda>ic. ic\<lparr>ic_n_pending_gc := ic_n_pending_gc ic - int (length batch)\<rparr>) s1)))"
  by pat_completeness auto

lemma gc_biows_queue [simp]: "ic_logpack_gc_queue (io_core (gc_biows bs s)) = ic_logpack_gc_queue (io_core s)"
  by (induction bs s rule: gc_biows.induct) (simp_all add: destroy_bio_wrapper_dec_def)

lemma gc_packs_queue [simp]:
  "ic_logpack_gc_queue (io_core (snd (gc_packs ps l s))) = ic_logpack_gc_queue (io_core s)"
  by (induction ps l s rule: gc_packs.induct) simp_all

lemma gc_logpack_list_queue [simp]:
  "ic_logpack_gc_queue (io_core (gc_logpack_list ps s)) = ic_logpack_gc_queue (io_core s)"
  using gc_packs_queue [of ps INVALID_LSID s]
  by (cases "gc_packs ps INVALID_LSID s") (simp add: gc_logpack_list_def)

lemma dequeue_bulk_parts: "dequeue_bulk n q = (b, r) \<Longrightarrow> q = b @ r \<and> (q \<noteq> [] \<longrightarrow> b \<noteq> [])"
  by (auto simp: dequeue_bulk_def Let_def)

termination dequeue_and_gc_logpack_list
proof (relation "measure (\<lambda>s. length (ic_logpack_gc_queue (io_core s)))", goal_cases)
  case (2 s x xs y batch rest s1)
  then show ?case using dequeue_bulk_parts [of "wd_n_pack_bulk (io_dev s)" "x # xs" batch rest] by (cases batch) auto
qed simp

section \<open>A failed logpack\<close>

lemma wait_io_bio [simp]:
  "bw_bio (io_biows (wait_for_bio_wrapper_io st False d b s) c) = bw_bio (io_biows s c)"
  "io_dev (wait_for_bio_wrapper_io st False d b s) = io_dev s"
  "io_ended (wait_for_bio_wrapper_io st False d b s) = io_ended s"
  by (simp_all add: wait_for_bio_wrapper_io_def Let_def)

lemma destroy_fields [simp]:
  "io_biows (destroy_bio_wrapper_dec b s) = io_biows s" "io_ended (destroy_bio_wrapper_dec b s) = io_ended s"
  "wd_lsids (io_dev (destroy_bio_wrapper_dec b s)) = wd_lsids (io_dev s)"
  "wd_flags (io_dev (destroy_bio_wrapper_dec b s)) = wd_flags (io_dev s)"
  "ic_datapack_submit_queue (io_core (destroy_bio_wrapper_dec b s)) = ic_datapack_submit_queue (io_core s)"
  "ic_n_pending_bio (io_core (destroy_bio_wrapper_dec b s)) = ic_n_pending_bio (io_core s) - 1"
  by (simp_all add: destroy_bio_wrapper_dec_def)

lemma wait_one_failed_fields [simp]:
  "bw_bio (io_biows (wait_one_failed b s) c) = bw_bio (io_biows s c)"
  "io_ended (wait_one_failed b s) = io_ended s @ (case bw_bio (io_biows s b) of None \<Rightarrow> [] | Some x \<Rightarrow> [(x, BLK_STS_IOERR)])"
  "wd_lsids (io_dev (wait_one_failed b s)) = wd_lsids (io_dev s)"
  "is_read_only (io_dev (wait_one_failed b s))"
  "ic_datapack_submit_queue (io_core (wait_one_failed b s)) = ic_datapack_submit_queue (io_core s)"
  "ic_n_pending_bio (io_core (wait_one_failed b s)) = ic_n_pending_bio (io_core s) - 1"
  by (simp_all add: wait_one_failed_def is_read_only_def end_bio_def set_wdev_flag_def walb_state_defs split: option.splits)

lemma wait_biow_loop_failed:
  "\<exists>s'. wait_biow_loop wa bs True s = Some (True, [], s') \<and>
    io_ended s' = io_ended s @ concat (map (\<lambda>b. case bw_bio (io_biows s b) of None \<Rightarrow> [] | Some x \<Rightarrow> [(x, BLK_STS_IOERR)]) bs) \<and>
    ic_datapack_submit_queue (io_core s') = ic_datapack_submit_queue (io_core s) \<and>
    wd_lsids (io_dev s') = wd_lsids (io_dev s) \<and>
    ic_n_pending_bio (io_core s') = ic_n_pending_bio (io_core s) - int (length bs) \<and>
    (bs \<noteq> [] \<or> is_read_only (io_dev s) \<longrightarrow> is_read_only (io_dev s'))"
proof (induction bs arbitrary: s)
  case (Cons b bs)
  let ?s = "wait_one_failed b (wait_for_bio_wrapper_io (wa_status wa b) False True b s)"
  show ?case using Cons [of ?s] by (simp add: Let_def) (auto simp: add.commute)
qed simp

text \<open>
  C30. A logpack whose header failed, or that completes on a read-only device, fails as a whole:
  every request in it ends with an error, none of its writes reaches the queue of data IOs, the
  lsids do not move, no wrapper is left for the garbage collection to wait for and the
  device is read-only afterwards.
\<close>

theorem failed_logpack_fails_all:
  assumes "is_read_only (io_dev s) \<or> (bio_entry_exists (pk_header_bioe wpack) \<and> st \<noteq> 0)"
    and "pk_biow_list wpack \<noteq> []"
  shows "\<exists>wpack' s'. wait_for_logpack_and_submit_datapack wa st wpack s = Some (wpack', s') \<and>
    pk_biow_list wpack' = [] \<and>
    io_ended s' = io_ended s @ concat (map (\<lambda>b. case bw_bio (io_biows s b) of None \<Rightarrow> [] | Some x \<Rightarrow> [(x, BLK_STS_IOERR)]) (pk_biow_list wpack)) \<and>
    ic_datapack_submit_queue (io_core s') = ic_datapack_submit_queue (io_core s) \<and>
    wd_lsids (io_dev s') = wd_lsids (io_dev s) \<and> is_read_only (io_dev s') \<and>
    ic_n_pending_bio (io_core s') = ic_n_pending_bio (io_core s) - int (length (pk_biow_list wpack))"
proof -
  have fails: "is_read_only (io_dev s) \<or> \<not> fst (wait_for_logpack_header st wpack)"
    using assms(1) by (auto simp: wait_for_logpack_header_def Let_def bio_entry_end_io_def)
  have list: "pk_biow_list (snd (wait_for_logpack_header st wpack)) = pk_biow_list wpack"
    by (simp add: wait_for_logpack_header_def Let_def)
  obtain ok w where w: "wait_for_logpack_header st wpack = (ok, w)" by fastforce
  from wait_biow_loop_failed [of wa "pk_biow_list wpack" s]
  obtain s' where s': "wait_biow_loop wa (pk_biow_list wpack) True s = Some (True, [], s')"
    and rest: "io_ended s' = io_ended s @ concat (map (\<lambda>b. case bw_bio (io_biows s b) of None \<Rightarrow> [] | Some x \<Rightarrow> [(x, BLK_STS_IOERR)]) (pk_biow_list wpack))"
    "ic_datapack_submit_queue (io_core s') = ic_datapack_submit_queue (io_core s)" "wd_lsids (io_dev s') = wd_lsids (io_dev s)"
    "ic_n_pending_bio (io_core s') = ic_n_pending_bio (io_core s) - int (length (pk_biow_list wpack))" "is_read_only (io_dev s')"
    using assms(2) by blast
  have "wait_for_logpack_and_submit_datapack wa st wpack s = Some (w\<lparr>pk_biow_list := []\<rparr>, s')"
    using s' fails list w by (auto simp: wait_for_logpack_and_submit_datapack_def Let_def)
  then show ?thesis using rest by (intro exI [of _ "w\<lparr>pk_biow_list := []\<rparr>"] exI [of _ s']) simp
qed

section \<open>The order of data IOs\<close>

lemma insert_by_pos_set:
  "mset (insert_to_sorted_bio_wrapper_list_by_pos H b l) = add_mset b (mset l)"
proof -
  have "mset l = mset (rev (dropWhile P (rev l))) + mset (rev (takeWhile P (rev l)))" for P
    by (metis add.commute mset_append mset_rev takeWhile_dropWhile_id)
  then show ?thesis by (simp add: insert_to_sorted_bio_wrapper_list_by_pos_def Let_def)
qed

lemma insert_by_pos_sorted:
  assumes "sorted (map (\<lambda>b. bw_pos (H b)) l)"
  shows "sorted (map (\<lambda>b. bw_pos (H b)) (insert_to_sorted_bio_wrapper_list_by_pos H b l))"
proof -
  let ?k = "\<lambda>t. \<not> bw_pos (H b) > bw_pos (H t)" and ?f = "\<lambda>b. bw_pos (H b)"
  let ?lo = "rev (dropWhile ?k (rev l))" and ?hi = "rev (takeWhile ?k (rev l))"
  have l: "l = ?lo @ ?hi" by (metis rev_append rev_rev_ident takeWhile_dropWhile_id)
  have s: "sorted (map ?f ?lo)" "sorted (map ?f ?hi)" "\<forall>x \<in> set ?lo. \<forall>y \<in> set ?hi. ?f x \<le> ?f y"
    using assms by (subst (asm) l, simp add: sorted_append)+
  have hi: "\<forall>y \<in> set ?hi. ?f b \<le> ?f y" by (auto dest: set_takeWhileD)
  have lo: "\<forall>x \<in> set ?lo. ?f x \<le> ?f b"
  proof (cases "dropWhile ?k (rev l)")
    case (Cons x xs)
    then have x: "?f x < ?f b" using hd_dropWhile [of ?k "rev l"] by auto
    have "?lo = rev xs @ [x]" using Cons by simp
    then have "\<forall>y \<in> set ?lo. ?f y \<le> ?f x" using s(1) by (simp add: sorted_append)
    then show ?thesis using x by (meson less_imp_le order_trans)
  next
    case Nil
    then show ?thesis by (simp only: rev.simps list.set ball_empty)
  qed
  have "sorted (map ?f (?lo @ b # ?hi))" using s(1,2) hi lo s(3) by (auto simp: sorted_append)
  moreover have "sorted (map ?f (l @ [b]))" if "l \<noteq> []" "?f b > ?f (last l)"
  proof -
    have "\<forall>x \<in> set l. ?f x \<le> ?f (last l)"
      using assms that(1) by (cases l rule: rev_cases) (auto simp: sorted_append)
    then show ?thesis using assms that(2) by (auto simp: sorted_append intro: order_trans less_imp_le)
  qed
  ultimately show ?thesis by (simp add: insert_to_sorted_bio_wrapper_list_by_pos_def Let_def)
qed

text \<open>What sorting one wrapper leaves alone: everything but the flush flags of its clones.\<close>

lemma sort_step_fields:
  assumes "sort_step sd b (s, l) = (s', l')"
  shows "bw_pos (io_biows s' c) = bw_pos (io_biows s c)" "bw_flags (io_biows s' c) = bw_flags (io_biows s c)"
    "io_dev s' = io_dev s" "io_submitted s' = io_submitted s" "io_tasks s' = io_tasks s"
  using assms by (auto simp: sort_step_def Let_def split: if_splits)

lemma sort_step_list:
  assumes "sort_step True b (s, l) = (s', l')" and "sorted (map (\<lambda>c. bw_pos (io_biows s c)) l)"
  shows "sorted (map (\<lambda>c. bw_pos (io_biows s' c)) l')"
    "mset l' = mset l + (if bio_wrapper_state_is_delayed (io_biows s b) then {#} else {#b#})"
proof -
  have l: "sorted (map (\<lambda>c. bw_pos (io_biows s' c)) l)" using assms(2) sort_step_fields(1) [OF assms(1)] by simp
  have "l' = l \<or> l' = insert_to_sorted_bio_wrapper_list_by_pos (io_biows s') b l"
    using assms(1) by (auto simp: sort_step_def Let_def split: if_splits)
  then show "sorted (map (\<lambda>c. bw_pos (io_biows s' c)) l')" using l insert_by_pos_sorted [OF l] by blast
  show "mset l' = mset l + (if bio_wrapper_state_is_delayed (io_biows s b) then {#} else {#b#})"
    using assms(1) by (auto simp: sort_step_def Let_def insert_by_pos_set)
qed

lemma sort_all:
  assumes "fold (sort_step True) bs (s, l) = (s', l')" and "sorted (map (\<lambda>c. bw_pos (io_biows s c)) l)"
  shows "sorted (map (\<lambda>c. bw_pos (io_biows s' c)) l') \<and>
    mset l' = mset l + mset (filter (\<lambda>b. \<not> bio_wrapper_state_is_delayed (io_biows s b)) bs) \<and>
    (\<forall>c. bw_pos (io_biows s' c) = bw_pos (io_biows s c) \<and> bw_flags (io_biows s' c) = bw_flags (io_biows s c)) \<and>
    io_dev s' = io_dev s \<and> io_submitted s' = io_submitted s \<and> io_tasks s' = io_tasks s"
  using assms
proof (induction bs arbitrary: s l)
  case (Cons b bs)
  obtain s1 l1 where st: "sort_step True b (s, l) = (s1, l1)" by fastforce
  note f = sort_step_fields [OF st] and m = sort_step_list [OF st Cons.prems(2)]
  have "bio_wrapper_state_is_delayed (io_biows s1 c) = bio_wrapper_state_is_delayed (io_biows s c)" for c
    by (simp add: bio_wrapper_state_is_delayed_def f)
  then show ?case using Cons.IH [OF _ m(1)] Cons.prems(1) st m(2) f by auto
qed simp

lemma submit_all: "fold submit_write_bio_wrapper l s = s\<lparr>io_submitted := io_submitted s @ l\<rparr>"
  by (induction l arbitrary: s) (simp_all add: submit_write_bio_wrapper_def)

lemma insert_overlapped_all_fields:
  "insert_overlapped_all ins als bs s = Some s' \<Longrightarrow>
     io_submitted s' = io_submitted s \<and> ic_datapack_wait_queue (io_core s') = ic_datapack_wait_queue (io_core s) \<and>
     ic_flags (io_core s') = ic_flags (io_core s) \<and> io_tasks s' = io_tasks s"
proof (induction als arbitrary: bs s)
  case Nil
  then show ?case by (cases bs) auto
next
  case (Cons al als)
  show ?case
  proof (cases bs)
    case bs: (Cons b bs')
    then show ?thesis
      using Cons.prems by (auto simp: Let_def split: option.splits prod.splits dest!: Cons.IH)
  qed (use Cons.prems in simp)
qed


section \<open>Stopping the queue\<close>

lemma melt_and_dispatch_melts:
  assumes "\<not> ic_is_frozen_usr (io_core s)"
  shows "\<not> is_frozen (io_core (melt_and_dispatch s))" "ic_frozen_queue (io_core (melt_and_dispatch s)) = []"
    "test_bit_u64 IOCORE_STATE_IS_QUEUE_STOPPED (ic_flags (io_core (melt_and_dispatch s))) =
     test_bit_u64 IOCORE_STATE_IS_QUEUE_STOPPED (ic_flags (io_core s))"
    "io_biows (melt_and_dispatch s) = io_biows s"
    "wd_max_pending_sectors (io_dev (melt_and_dispatch s)) = wd_max_pending_sectors (io_dev s)"
  using assms
  by (auto simp: melt_and_dispatch_def melt_detail_def set_frozen_def is_frozen_def make_frozen_queue_empty_def
      dispatch_submit_log_task_def dispatch_task_if_necessary_def iocore_state_defs upd_core_def Let_def)

lemma delete_pending_core:
  assumes "delete_bio_wrapper_from_pending_data rb_del j b s = (st, s')"
  shows "ic_flags (io_core s') = ic_flags (io_core s)" "ic_is_frozen_usr (io_core s') = ic_is_frozen_usr (io_core s)"
    "st = should_start_queue j (io_biows s b) (io_dev s)" "io_biows s' = io_biows s"
  using assms by (auto simp: delete_bio_wrapper_from_pending_data_def Let_def split: prod.splits if_splits)

text \<open>
  When pending data had stopped the queue and a cancelled write makes room again, the queue is
  melted but the flag that says it is stopped stays set; from then on no amount of pending
  data stops the queue.
\<close>

theorem cancel_leaves_queue_flag:
  assumes "should_start_queue j (io_biows s b) (io_dev s)" and "\<not> ic_is_frozen_usr (io_core s)"
  shows "\<not> is_frozen (io_core (cancel_write_bio_wrapper rb_del j b s)) \<and>
    test_bit_u64 IOCORE_STATE_IS_QUEUE_STOPPED (ic_flags (io_core (cancel_write_bio_wrapper rb_del j b s))) \<and>
    \<not> fst (should_stop_queue j' w (io_dev (cancel_write_bio_wrapper rb_del j b s)))"
proof -
  obtain st s1 where d: "delete_bio_wrapper_from_pending_data rb_del j b s = (st, s1)" by fastforce
  note f = delete_pending_core [OF d]
  have "test_bit_u64 IOCORE_STATE_IS_QUEUE_STOPPED (ic_flags (io_core s))"
    using assms(1) by (auto simp: should_start_queue_def Let_def split: if_splits)
  moreover have "io_dev (cancel_write_bio_wrapper rb_del j b s) = io_dev (melt_and_dispatch s1)"
    using assms(1) d f(3) by (simp add: cancel_write_bio_wrapper_def Let_def)
  ultimately show ?thesis
    using melt_and_dispatch_melts [of s1] assms(2) f by (simp add: should_stop_queue_def Let_def)
qed

definition demo_io :: "u64 \<Rightarrow> ram io_state" where
  "demo_io flags = \<lparr>io_dev = demo_wdev\<lparr>wd_iocore := blank_iocore\<lparr>ic_flags := flags\<rparr>\<rparr>,
     io_biows = (\<lambda>a. demo_write (8 * a) 8), io_ended = [], io_submitted = [], io_tasks = []\<rparr>"

theorem cancel_leaves_queue_flag_witness:
  "\<not> is_frozen (io_core (cancel_write_bio_wrapper tool_rb_del 0 1 (demo_io 16))) \<and>
   \<not> fst (should_stop_queue 0 (demo_write 0 8) (io_dev (cancel_write_bio_wrapper tool_rb_del 0 1 (demo_io 16))))"
proof -
  have "test_bit_u64 4 16" by (simp add: test_bit_u64_def push_bit_eq_mult)
  then have "should_start_queue 0 (io_biows (demo_io 16) 1) (io_dev (demo_io 16))"
    by (simp add: should_start_queue_def demo_io_def blank_iocore_def demo_write_def demo_wrapper_def iocore_state_defs Let_def)
  then show ?thesis
    using cancel_leaves_queue_flag [of 0 "demo_io 16" 1 tool_rb_del 0 "demo_write 0 8"]
    by (simp add: demo_io_def blank_iocore_def)
qed

definition demo_wait :: "ram wait_args" where
  "demo_wait = \<lparr>wa_ops = ram_ops, wa_ins = tool_rb_ins, wa_del = tool_rb_del, wa_allocs = [allocs_ok], wa_split = cut_bio,
     wa_jiffies = 0, wa_status = (\<lambda>_. 0)\<rparr>"

definition demo_logpack :: pack where
  "demo_logpack = demo_mem\<lparr>pk_biow_list := [1, 2], pk_header_bioe := (pk_header_bioe demo_mem)\<lparr>be_bio := Some (demo_bio 0 1)\<rparr>\<rparr>"

theorem failed_logpack_fails_all_witness:
  "\<exists>wpack' s'. wait_for_logpack_and_submit_datapack demo_wait 10 demo_logpack (demo_io 0) = Some (wpack', s') \<and>
     io_ended s' = [(demo_bio 8 8, BLK_STS_IOERR), (demo_bio 16 8, BLK_STS_IOERR)] \<and>
     is_read_only (io_dev s') \<and> ic_datapack_submit_queue (io_core s') = []"
proof -
  have p: "bio_entry_exists (pk_header_bioe demo_logpack)" "pk_biow_list demo_logpack = [1, 2]"
    by (simp_all add: bio_entry_exists_def demo_logpack_def)
  then show ?thesis
    using failed_logpack_fails_all [of "demo_io 0" demo_logpack 10 demo_wait]
    by (auto simp: demo_io_def demo_write_def blank_iocore_def p(2))
qed

lemma demo_batch:
  obtains s1 where "insert_overlapped_all tool_rb_ins [allocs_ok] [2] (demo_io 0) = Some s1"
proof -
  have "overlapped_check_and_insert tool_rb_ins (ic_overlapped_data blank_iocore) (ic_max_sectors_in_overlapped blank_iocore)
      (io_biows (demo_io 0)) 2 allocs_ok \<noteq> None \<and>
    fst (the (overlapped_check_and_insert tool_rb_ins (ic_overlapped_data blank_iocore) (ic_max_sectors_in_overlapped blank_iocore)
      (io_biows (demo_io 0)) 2 allocs_ok))"
    by code_simp
  then obtain d m H where "overlapped_check_and_insert tool_rb_ins (ic_overlapped_data (io_core (demo_io 0)))
      (ic_max_sectors_in_overlapped (io_core (demo_io 0))) (io_biows (demo_io 0)) 2 allocs_ok = Some (True, d, m, H)"
    by (auto simp: demo_io_def)
  then show ?thesis using that by (simp add: Let_def)
qed


end
