(* ===== verification/Walb_Freeze.thy ===== *)
theory Walb_Freeze
  imports Walb_Iocore
begin

text \<open>
  Freezing and melting of a device: \<^verbatim>\<open>iocore_freeze\<close> and \<^verbatim>\<open>iocore_melt\<close> (\<^verbatim>\<open>module/io.c\<close>), the
  freeze states with the delayed melt work (\<^verbatim>\<open>module/wdev_util.c\<close>) and the two functions around
  the clearing of the log (\<^verbatim>\<open>module/wdev_ioctl.c\<close>).  The body of a function under \<^verbatim>\<open>freeze_lock\<close>
  is one definition.  What the IO tasks do to the device during one sleep of a polling loop is
  the argument \<^verbatim>\<open>tasks\<close>; a loop that never ends is \<^const>\<open>None\<close>.  The second half lets the melt
  work and any number of ioctl handlers run concurrently, section by section.
\<close>

section \<open>Operations\<close>

partial_function (option) poll :: "('s \<Rightarrow> bool) \<Rightarrow> ('s \<Rightarrow> 's) \<Rightarrow> 's \<Rightarrow> 's option" where
  "poll ready sleep s = (if ready s then Some s else poll ready sleep (sleep s))"

definition wait_for_logpack_submit_queue_empty :: "('d io_state \<Rightarrow> 'd io_state) \<Rightarrow> 'd io_state \<Rightarrow> 'd io_state option" where
  "wait_for_logpack_submit_queue_empty tasks = poll (\<lambda>s. ic_logpack_submit_queue (io_core s) = []) tasks"

definition wait_for_all_started_write_io_done :: "('d io_state \<Rightarrow> 'd io_state) \<Rightarrow> 'd io_state \<Rightarrow> 'd io_state option" where
  "wait_for_all_started_write_io_done tasks = poll (\<lambda>s. \<not> ic_n_started_write_bio (io_core s) > 0) tasks"

definition wait_for_all_pending_gc_done :: "('d io_state \<Rightarrow> 'd io_state) \<Rightarrow> 'd io_state \<Rightarrow> 'd io_state option" where
  "wait_for_all_pending_gc_done tasks = poll (\<lambda>s. \<not> ic_n_pending_gc (io_core s) > 0) tasks"

definition iocore_freeze :: "('d io_state \<Rightarrow> 'd io_state) \<Rightarrow> 'd io_state \<Rightarrow> 'd io_state option" where
  "iocore_freeze tasks s =
     (case wait_for_logpack_submit_queue_empty tasks (upd_core (freeze_detail True) s) of
        None \<Rightarrow> None
      | Some s1 \<Rightarrow>
          (case wait_for_all_started_write_io_done tasks s1 of
             None \<Rightarrow> None
           | Some s2 \<Rightarrow> wait_for_all_pending_gc_done tasks s2))"

definition iocore_melt :: "'d io_state \<Rightarrow> 'd io_state" where
  "iocore_melt s =
     (let (melted, ic1) = melt_detail True (io_core s); s1 = upd_core (\<lambda>_. ic1) s in
      if melted then dispatch_submit_log_task s1 else s1)"

abbreviation frz_of :: "'d io_state \<Rightarrow> frz_state" where
  "frz_of s \<equiv> wd_freeze_state (io_dev s)"

definition set_freeze_state :: "frz_state \<Rightarrow> 'd io_state \<Rightarrow> 'd io_state" where
  "set_freeze_state st s = s\<lparr>io_dev := (io_dev s)\<lparr>wd_freeze_state := st\<rparr>\<rparr>"

definition set_freeze_dwork :: "u64 option \<Rightarrow> 'd io_state \<Rightarrow> 'd io_state" where
  "set_freeze_dwork d s = s\<lparr>io_dev := (io_dev s)\<lparr>wd_freeze_dwork := d\<rparr>\<rparr>"

definition upd_cpd :: "(checkpoint_data \<Rightarrow> checkpoint_data) \<Rightarrow> 'd io_state \<Rightarrow> 'd io_state" where
  "upd_cpd f s = s\<lparr>io_dev := (io_dev s)\<lparr>wd_cpd := f (wd_cpd (io_dev s))\<rparr>\<rparr>"

definition task_melt :: "(u32 \<Rightarrow> u64) \<Rightarrow> 'd io_state \<Rightarrow> 'd io_state" where
  "task_melt msecs_to_jiffies s =
     (case frz_of s of
        FRZ_FROZEN_TIMEO \<Rightarrow> set_freeze_state FRZ_MELTED (iocore_melt (upd_cpd (start_checkpointing msecs_to_jiffies) s))
      | _ \<Rightarrow> s)"

text \<open>The two critical sections of \<^verbatim>\<open>cancel_melt_work\<close>, with the synchronous cancellation between them.\<close>

definition cancel_begin :: "'d io_state \<Rightarrow> bool \<times> 'd io_state" where
  "cancel_begin s =
     (if frz_of s = FRZ_CANCELING then (False, s)
      else if frz_of s = FRZ_FROZEN_TIMEO then (True, set_freeze_state FRZ_CANCELING s)
      else (False, s))"

definition cancel_end :: "'d io_state \<Rightarrow> 'd io_state" where
  "cancel_end s = set_freeze_state FRZ_FROZEN s"

definition cancel_melt_work :: "'d io_state \<Rightarrow> 'd io_state" where
  "cancel_melt_work s =
     (let (should_cancel_work, s1) = cancel_begin s in
      if should_cancel_work then cancel_end (set_freeze_dwork None s1) else s1)"

definition freeze_enqueue :: "(u32 \<Rightarrow> u64) \<Rightarrow> u32 \<Rightarrow> 'd io_state \<Rightarrow> 'd io_state" where
  "freeze_enqueue msecs_to_jiffies timeout_sec s =
     (if timeout_sec > 0
      then set_freeze_dwork (Some (msecs_to_jiffies (timeout_sec * 1000))) (set_freeze_state FRZ_FROZEN_TIMEO s)
      else s)"

definition freeze_if_melted ::
  "('d io_state \<Rightarrow> 'd io_state) \<Rightarrow> (u32 \<Rightarrow> u64) \<Rightarrow> u32 \<Rightarrow> 'd io_state \<Rightarrow> (bool \<times> 'd io_state) option" where
  "freeze_if_melted tasks msecs_to_jiffies timeout_sec s =
     (case frz_of s of
        FRZ_MELTED \<Rightarrow>
          map_option (\<lambda>s1. (True, freeze_enqueue msecs_to_jiffies timeout_sec
             (set_freeze_state FRZ_FROZEN (upd_cpd stop_checkpointing s1)))) (iocore_freeze tasks s)
      | FRZ_FROZEN \<Rightarrow> Some (True, freeze_enqueue msecs_to_jiffies timeout_sec s)
      | FRZ_FROZEN_TIMEO \<Rightarrow> Some (False, s)
      | FRZ_FROZEN_DEEP \<Rightarrow> Some (False, s)
      | FRZ_CANCELING \<Rightarrow> Some (True, s))"

definition melt_section :: "(u32 \<Rightarrow> u64) \<Rightarrow> bool \<Rightarrow> 'd io_state \<Rightarrow> bool \<times> 'd io_state" where
  "melt_section msecs_to_jiffies restarts_checkpointing s =
     (case frz_of s of
        FRZ_MELTED \<Rightarrow> (True, s)
      | FRZ_FROZEN \<Rightarrow>
          (True, set_freeze_state FRZ_MELTED (iocore_melt
             (if restarts_checkpointing then upd_cpd (start_checkpointing msecs_to_jiffies) s else s)))
      | _ \<Rightarrow> (False, s))"

definition melt_if_frozen :: "(u32 \<Rightarrow> u64) \<Rightarrow> bool \<Rightarrow> 'd io_state \<Rightarrow> bool \<times> 'd io_state" where
  "melt_if_frozen msecs_to_jiffies restarts_checkpointing s =
     melt_section msecs_to_jiffies restarts_checkpointing (cancel_melt_work s)"

text \<open>An unexpected state, here \<^verbatim>\<open>FRZ_CANCELING\<close>, only gives a warning.\<close>

definition freeze_for_reset_wal :: "('d io_state \<Rightarrow> 'd io_state) \<Rightarrow> 'd io_state \<Rightarrow> (bool \<times> 'd io_state) option" where
  "freeze_for_reset_wal tasks s =
     (case frz_of s of
        FRZ_MELTED \<Rightarrow> map_option (\<lambda>s1. (True, set_freeze_state FRZ_FROZEN_DEEP s1)) (iocore_freeze tasks s)
      | FRZ_CANCELING \<Rightarrow> Some (True, s)
      | _ \<Rightarrow> Some (False, s))"

definition melt_for_reset_wal :: "'d io_state \<Rightarrow> 'd io_state" where
  "melt_for_reset_wal s = set_freeze_state FRZ_MELTED (iocore_melt s)"

lemma freeze_fields [simp]:
  "frz_of (set_freeze_state st s) = st" "frz_of (set_freeze_dwork d s) = frz_of s" "frz_of (upd_cpd f s) = frz_of s"
  "frz_of (upd_core g s) = frz_of s"
  "wd_freeze_dwork (io_dev (set_freeze_state st s)) = wd_freeze_dwork (io_dev s)"
  "wd_freeze_dwork (io_dev (set_freeze_dwork d s)) = d"
  "wd_freeze_dwork (io_dev (upd_cpd f s)) = wd_freeze_dwork (io_dev s)"
  "wd_freeze_dwork (io_dev (upd_core g s)) = wd_freeze_dwork (io_dev s)"
  "io_core (set_freeze_state st s) = io_core s" "io_core (set_freeze_dwork d s) = io_core s"
  "io_core (upd_cpd f s) = io_core s"
  by (simp_all add: set_freeze_state_def set_freeze_dwork_def upd_cpd_def upd_core_def)

section \<open>What the IO tasks keep\<close>

lemma poll_ends:
  assumes "poll r f s = Some s'" and "\<And>s. v (f s) = v s"
  shows "v s' = v s \<and> r s'"
proof -
  have "f = f \<longrightarrow> v s' = v s \<and> r s'"
    using assms(1)
  proof (rule poll.raw_induct [where P = "\<lambda>r' f' s s'. f' = f \<longrightarrow> v s' = v s \<and> r' s'", rotated])
    show "f' = f \<longrightarrow> v y = v x \<and> r' y"
      if "\<And>r f' s s'. p r f' s = Some s' \<Longrightarrow> f' = f \<longrightarrow> v s' = v s \<and> r s'"
        "(if r' x then Some x else p r' f' (f' x)) = Some y" for p r' f' x y
      using that(1) [of r' f' "f' x" y] that(2) assms(2) by (auto split: if_splits)
  qed
  then show ?thesis by simp
qed

text \<open>The view of a device that only \<^verbatim>\<open>freeze_lock\<close> protects.\<close>

definition frz_view :: "'d io_state \<Rightarrow> frz_state \<times> u64 option \<times> bool" where
  "frz_view s = (frz_of s, wd_freeze_dwork (io_dev s), ic_is_frozen_usr (io_core s))"

locale iocore_tasks =
  fixes tasks :: "'d io_state \<Rightarrow> 'd io_state"
  assumes tasks_view: "frz_view (tasks s) = frz_view s"
begin

lemma poll_view: "poll r tasks s = Some s' \<Longrightarrow> frz_view s' = frz_view s \<and> r s'"
  using poll_ends [of r tasks s s' frz_view] tasks_view by simp

lemma iocore_freeze_done:
  assumes "iocore_freeze tasks s = Some s'"
  shows "frz_view s' = (fst (frz_view s), fst (snd (frz_view s)), True)" "\<not> ic_n_pending_gc (io_core s') > 0"
proof -
  obtain s1 s2 where "poll (\<lambda>s. ic_logpack_submit_queue (io_core s) = []) tasks (upd_core (freeze_detail True) s) = Some s1"
    "poll (\<lambda>s. \<not> ic_n_started_write_bio (io_core s) > 0) tasks s1 = Some s2"
    "poll (\<lambda>s. \<not> ic_n_pending_gc (io_core s) > 0) tasks s2 = Some s'"
    using assms by (auto simp: iocore_freeze_def wait_for_logpack_submit_queue_empty_def wait_for_all_pending_gc_done_def
        wait_for_all_started_write_io_done_def split: option.splits)
  note p = poll_view [OF this(1)] poll_view [OF this(2)] poll_view [OF this(3)]
  moreover have "frz_view (upd_core (freeze_detail True) s) = (fst (frz_view s), fst (snd (frz_view s)), True)"
    by (simp add: frz_view_def freeze_detail_def set_frozen_def)
  ultimately show "frz_view s' = (fst (frz_view s), fst (snd (frz_view s)), True)" "\<not> ic_n_pending_gc (io_core s') > 0" by simp_all
qed

end

text \<open>The collection of finished logpacks is one of these tasks.\<close>

lemma frz_view_upd [simp]:
  "frz_view (s\<lparr>io_biows := H\<rparr>) = frz_view s" "frz_view (s\<lparr>io_ended := e\<rparr>) = frz_view s"
  "frz_view (destroy_bio_wrapper_dec b s) = frz_view s"
  "frz_view (s\<lparr>io_dev := set_wdev_flag i (io_dev s)\<rparr>) = frz_view s"
  "frz_view (s\<lparr>io_dev := (io_dev s)\<lparr>wd_lsids := l\<rparr>\<rparr>) = frz_view s"
  "frz_view (upd_core (\<lambda>ic. ic\<lparr>ic_logpack_gc_queue := q\<rparr>) s) = frz_view s"
  "frz_view (upd_core (\<lambda>ic. ic\<lparr>ic_n_pending_gc := n ic\<rparr>) s) = frz_view s"
  by (simp_all add: frz_view_def destroy_bio_wrapper_dec_def upd_core_def set_wdev_flag_def)

lemma gc_biows_view [simp]: "frz_view (gc_biows bs s) = frz_view s"
  by (induction bs s rule: gc_biows.induct) (simp_all add: Let_def)

lemma gc_packs_view [simp]: "frz_view (snd (gc_packs ps l s)) = frz_view s"
  by (induction ps l s rule: gc_packs.induct) simp_all

lemma gc_logpack_list_view [simp]: "frz_view (gc_logpack_list ps s) = frz_view s"
  using gc_packs_view [of ps INVALID_LSID s] by (cases "gc_packs ps INVALID_LSID s") (simp add: gc_logpack_list_def)

lemma dequeue_and_gc_view: "frz_view (dequeue_and_gc_logpack_list s) = frz_view s"
proof (induction s rule: dequeue_and_gc_logpack_list.induct)
  case (1 s)
  then show ?case
    by (subst dequeue_and_gc_logpack_list.simps) (auto simp: Let_def split: list.split prod.split)
qed

interpretation gc_task: iocore_tasks dequeue_and_gc_logpack_list
  by unfold_locales (rule dequeue_and_gc_view)

section \<open>Concurrent handlers\<close>

text \<open>
  A handler is outside of the sections, waits in \<^verbatim>\<open>cancel_delayed_work_sync\<close>, is past it, or
  clears the log.  The flag \<^verbatim>\<open>race\<close> says whether the clearing of the log may start while another
  handler cancels the melt work, as the code allows.
\<close>

datatype frz_ctl = P_Idle | P_Cancel | P_Cancelled | P_Reset

record 'd frz_sys =
  fz_io :: "'d io_state"
  fz_fired :: bool
  fz_ctl :: "nat \<Rightarrow> frz_ctl"

inductive frz_step :: "bool \<Rightarrow> 'd frz_sys \<Rightarrow> 'd frz_sys \<Rightarrow> bool" for race where
  fire: "wd_freeze_dwork (io_dev (fz_io s)) = Some d \<Longrightarrow> \<not> fz_fired s \<Longrightarrow>
    frz_step race s (s\<lparr>fz_io := set_freeze_dwork None (fz_io s), fz_fired := True\<rparr>)"
| melt_work: "fz_fired s \<Longrightarrow> frz_step race s (s\<lparr>fz_io := task_melt m (fz_io s), fz_fired := False\<rparr>)"
| cancel: "fz_ctl s c = P_Idle \<Longrightarrow> cancel_begin (fz_io s) = (True, i) \<Longrightarrow>
    frz_step race s (s\<lparr>fz_io := i, fz_ctl := (fz_ctl s)(c := P_Cancel)\<rparr>)"
| cancelled: "fz_ctl s c = P_Cancel \<Longrightarrow> \<not> fz_fired s \<Longrightarrow>
    frz_step race s (s\<lparr>fz_io := set_freeze_dwork None (fz_io s), fz_ctl := (fz_ctl s)(c := P_Cancelled)\<rparr>)"
| uncancel: "fz_ctl s c = P_Cancelled \<Longrightarrow>
    frz_step race s (s\<lparr>fz_io := cancel_end (fz_io s), fz_ctl := (fz_ctl s)(c := P_Idle)\<rparr>)"
| freeze: "fz_ctl s c = P_Idle \<Longrightarrow> iocore_tasks tasks \<Longrightarrow> freeze_if_melted tasks m t (fz_io s) = Some (ok, i) \<Longrightarrow>
    frz_step race s (s\<lparr>fz_io := i\<rparr>)"
| melt: "fz_ctl s c = P_Idle \<Longrightarrow> melt_section m r (fz_io s) = (ok, i) \<Longrightarrow> frz_step race s (s\<lparr>fz_io := i\<rparr>)"
| reset: "fz_ctl s c = P_Idle \<Longrightarrow> race \<or> frz_of (fz_io s) \<noteq> FRZ_CANCELING \<Longrightarrow> iocore_tasks tasks \<Longrightarrow>
    freeze_for_reset_wal tasks (fz_io s) = Some (True, i) \<Longrightarrow>
    frz_step race s (s\<lparr>fz_io := i, fz_ctl := (fz_ctl s)(c := P_Reset)\<rparr>)"
| reset_end: "fz_ctl s c = P_Reset \<Longrightarrow>
    frz_step race s (s\<lparr>fz_io := melt_for_reset_wal (fz_io s), fz_ctl := (fz_ctl s)(c := P_Idle)\<rparr>)"
| reset_abort: "fz_ctl s c = P_Reset \<Longrightarrow> frz_step race s (s\<lparr>fz_ctl := (fz_ctl s)(c := P_Idle)\<rparr>)"
| io: "iocore_tasks tasks \<Longrightarrow> frz_step race s (s\<lparr>fz_io := tasks (fz_io s)\<rparr>)"

definition frz_start :: "'d frz_sys \<Rightarrow> bool" where
  "frz_start s \<longleftrightarrow> frz_view (fz_io s) = (FRZ_MELTED, None, False) \<and> \<not> fz_fired s \<and> fz_ctl s = (\<lambda>_. P_Idle)"

text \<open>The invariant of the freeze states, the melt work and the handlers.\<close>

definition frz_ok :: "frz_state \<times> u64 option \<times> bool \<Rightarrow> bool \<Rightarrow> (nat \<Rightarrow> frz_ctl) \<Rightarrow> bool" where
  "frz_ok v fired ctl \<longleftrightarrow>
     (case v of (st, dwork, usr) \<Rightarrow>
        (usr \<longleftrightarrow> st \<noteq> FRZ_MELTED) \<and>
        (dwork \<noteq> None \<longrightarrow> st \<in> {FRZ_FROZEN_TIMEO, FRZ_CANCELING} \<and> \<not> fired) \<and>
        (fired \<longrightarrow> st \<in> {FRZ_FROZEN_TIMEO, FRZ_CANCELING}) \<and>
        (st = FRZ_FROZEN_TIMEO \<longrightarrow> dwork \<noteq> None \<or> fired) \<and>
        (\<forall>c. ctl c \<in> {P_Cancel, P_Cancelled} \<longrightarrow> st = FRZ_CANCELING \<and> (\<forall>c'. ctl c' \<in> {P_Cancel, P_Cancelled} \<longrightarrow> c' = c)) \<and>
        (\<forall>c. ctl c = P_Cancelled \<longrightarrow> dwork = None \<and> \<not> fired) \<and>
        (\<forall>c. ctl c = P_Reset \<longrightarrow> st = FRZ_FROZEN_DEEP \<and> (\<forall>c'. ctl c' = P_Reset \<longrightarrow> c' = c)) \<and>
        (st = FRZ_CANCELING \<longrightarrow> (\<exists>c. ctl c \<in> {P_Cancel, P_Cancelled})))"

definition frz_inv :: "'d frz_sys \<Rightarrow> bool" where
  "frz_inv s = frz_ok (frz_view (fz_io s)) (fz_fired s) (fz_ctl s)"

section \<open>The sections on the view\<close>

lemma melt_detail_usr [simp]: "ic_is_frozen_usr (snd (melt_detail True ic)) = False"
  by (simp add: melt_detail_def make_frozen_queue_empty_def set_frozen_def Let_def)

lemma dispatch_view [simp]: "frz_view (dispatch_task_if_necessary nr s) = frz_view s"
  by (simp add: dispatch_task_if_necessary_def frz_view_def upd_core_def)

lemma iocore_melt_view: "frz_view (iocore_melt s) = (frz_of s, wd_freeze_dwork (io_dev s), False)"
proof -
  obtain melted ic1 where m: "melt_detail True (io_core s) = (melted, ic1)" by fastforce
  then have "frz_view (upd_core (\<lambda>_. ic1) s) = (frz_of s, wd_freeze_dwork (io_dev s), False)"
    using melt_detail_usr [of "io_core s"] by (simp add: frz_view_def)
  then show ?thesis by (simp add: iocore_melt_def m dispatch_submit_log_task_def Let_def)
qed

lemma frz_view_set [simp]:
  "frz_view (set_freeze_state st s) = (st, snd (frz_view s))"
  "frz_view (set_freeze_dwork d s) = (fst (frz_view s), d, snd (snd (frz_view s)))"
  "frz_view (upd_cpd f s) = frz_view s"
  by (simp_all add: frz_view_def)

lemma iocore_melt_view' [simp]: "frz_view (iocore_melt s) = (fst (frz_view s), fst (snd (frz_view s)), False)"
  unfolding iocore_melt_view by (simp add: frz_view_def)

lemma iocore_melt_usr [simp]: "\<not> ic_is_frozen_usr (io_core (iocore_melt s))"
  using iocore_melt_view [of s] by (simp add: frz_view_def)

lemma freeze_enqueue_view [simp]:
  "frz_view (freeze_enqueue m t s) =
     (if t > 0 then (FRZ_FROZEN_TIMEO, Some (m (t * 1000)), snd (snd (frz_view s))) else frz_view s)"
  by (simp add: freeze_enqueue_def)

lemma frz_of_view: "frz_of s = fst (frz_view s)"
  by (simp add: frz_view_def)

lemma freeze_if_melted_view:
  assumes "iocore_tasks tasks" and "freeze_if_melted tasks m t s = Some (ok, s')"
  shows "frz_view s' = frz_view s \<or>
    fst (frz_view s) \<in> {FRZ_MELTED, FRZ_FROZEN} \<and> (fst (frz_view s) = FRZ_FROZEN \<longrightarrow> snd (snd (frz_view s')) = snd (snd (frz_view s))) \<and>
    (fst (frz_view s) = FRZ_MELTED \<longrightarrow> snd (snd (frz_view s'))) \<and>
    (fst (frz_view s') = FRZ_FROZEN \<and> fst (snd (frz_view s')) = fst (snd (frz_view s)) \<or>
     fst (frz_view s') = FRZ_FROZEN_TIMEO \<and> fst (snd (frz_view s')) \<noteq> None)"
proof (cases "frz_of s")
  case FRZ_MELTED
  then obtain s1 where "iocore_freeze tasks s = Some s1"
    "s' = freeze_enqueue m t (set_freeze_state FRZ_FROZEN (upd_cpd stop_checkpointing s1))"
    using assms(2) by (auto simp: freeze_if_melted_def)
  then show ?thesis
    using iocore_tasks.iocore_freeze_done(1) [OF assms(1)] FRZ_MELTED by (auto simp: frz_of_view)
qed (use assms(2) in \<open>auto simp: freeze_if_melted_def frz_of_view split: if_splits\<close>)

lemma freeze_for_reset_view:
  assumes "iocore_tasks tasks" and "freeze_for_reset_wal tasks s = Some (True, s')"
  shows "frz_view s' = frz_view s \<and> fst (frz_view s) = FRZ_CANCELING \<or>
    fst (frz_view s) = FRZ_MELTED \<and> frz_view s' = (FRZ_FROZEN_DEEP, fst (snd (frz_view s)), True)"
proof (cases "frz_of s")
  case FRZ_MELTED
  then obtain s1 where "iocore_freeze tasks s = Some s1" "s' = set_freeze_state FRZ_FROZEN_DEEP s1"
    using assms(2) by (auto simp: freeze_for_reset_wal_def)
  then show ?thesis
    using iocore_tasks.iocore_freeze_done(1) [OF assms(1)] FRZ_MELTED by (auto simp: frz_of_view)
qed (use assms(2) in \<open>auto simp: freeze_for_reset_wal_def frz_of_view\<close>)

lemmas frz_sections = task_melt_def cancel_begin_def cancel_end_def melt_section_def melt_for_reset_wal_def

lemmas frz_inv_defs = frz_inv_def frz_ok_def frz_of_view frz_sections

lemma frz_step_inv: "frz_step False s s' \<Longrightarrow> frz_inv s \<Longrightarrow> frz_inv s'"
proof (induction rule: frz_step.induct)
  case (freeze s c tasks m t ok i)
  from freeze_if_melted_view [OF freeze(2,3)] freeze(4) show ?case
    by (cases "frz_view (fz_io s)"; cases "frz_view i") (auto simp: frz_inv_defs)
next
  case (reset s c tasks i)
  from freeze_for_reset_view [OF reset(3,4)] reset(1,2,5) show ?case
    by (cases "frz_view (fz_io s)") (auto simp: frz_inv_defs)
next
  case (io tasks s)
  then show ?case using iocore_tasks.tasks_view [OF io(1), of "fz_io s"] by (simp add: frz_inv_def)
next
  case (melt s c m r ok i)
  then show ?case by (cases "frz_view (fz_io s)"; cases r) (auto simp: frz_inv_defs split: frz_state.splits)
next
  case (melt_work s m)
  then show ?case by (cases "frz_view (fz_io s)") (auto simp: frz_inv_defs split: frz_state.splits)
next
  case (cancel s c i)
  then show ?case by (cases "frz_view (fz_io s)") (auto simp: frz_inv_defs split: if_splits)
next
  case (fire s d)
  then have "fst (snd (frz_view (fz_io s))) = Some d" by (simp add: frz_view_def)
  then show ?case using fire by (cases "frz_view (fz_io s)") (auto simp: frz_inv_defs)
next
  case (cancelled s c)
  then show ?case by (cases "frz_view (fz_io s)") (auto simp: frz_inv_defs)
next
  case (uncancel s c)
  then show ?case by (cases "frz_view (fz_io s)") (auto simp: frz_inv_defs)
next
  case (reset_end s c)
  then show ?case by (cases "frz_view (fz_io s)") (auto simp: frz_inv_defs)
next
  case (reset_abort s c)
  then show ?case by (cases "frz_view (fz_io s)") (auto simp: frz_inv_defs)
qed

interpretation frz: inductive_invariant "frz_step False" frz_start frz_inv
proof
  show "frz_inv s" if "frz_start s" for s :: "'a frz_sys"
    using that by (simp add: frz_start_def frz_inv_def frz_ok_def)
qed (rule frz_step_inv)


definition frozen_io :: "frz_state \<Rightarrow> u64 option \<Rightarrow> bool \<Rightarrow> ram io_state" where
  "frozen_io st d usr = (demo_io 0)\<lparr>io_dev := demo_wdev\<lparr>wd_freeze_state := st, wd_freeze_dwork := d,
     wd_iocore := blank_iocore\<lparr>ic_is_frozen_usr := usr\<rparr>\<rparr>\<rparr>"

lemma frozen_io_simps [simp]:
  "set_freeze_state st' (frozen_io st d usr) = frozen_io st' d usr"
  "set_freeze_dwork d' (frozen_io st d usr) = frozen_io st d' usr"
  "frz_of (frozen_io st d usr) = st" "frz_view (frozen_io st d usr) = (st, d, usr)"
  by (simp_all add: frozen_io_def set_freeze_state_def set_freeze_dwork_def demo_wdev_def frz_view_def)

definition frz_demo :: "ram frz_sys" where
  "frz_demo = \<lparr>fz_io = frozen_io FRZ_MELTED None False, fz_fired = False, fz_ctl = (\<lambda>_. P_Idle)\<rparr>"

lemma frz_demo_start: "frz_start frz_demo"
  by (simp add: frz_start_def frz_demo_def frozen_io_def frz_view_def)

lemma id_tasks: "iocore_tasks (\<lambda>s. s)"
  by unfold_locales simp

lemma iocore_freeze_idle:
  assumes "ic_logpack_submit_queue (io_core s) = []" "ic_n_started_write_bio (io_core s) = 0" "ic_n_pending_gc (io_core s) = 0"
  shows "iocore_freeze tasks s = Some (upd_core (freeze_detail True) s)"
  using assms by (simp add: iocore_freeze_def wait_for_logpack_submit_queue_empty_def wait_for_all_started_write_io_done_def
      wait_for_all_pending_gc_done_def poll.simps freeze_detail_def set_frozen_def)

abbreviation frz_at :: "frz_state \<Rightarrow> u64 option \<Rightarrow> bool \<Rightarrow> (nat \<Rightarrow> frz_ctl) \<Rightarrow> ram frz_sys" where
  "frz_at st d usr ctl \<equiv> \<lparr>fz_io = frozen_io st d usr, fz_fired = False, fz_ctl = ctl\<rparr>"

lemma frz_demo_timeo:
  "frz_step race frz_demo (frz_at FRZ_FROZEN_TIMEO (Some 5000) True (\<lambda>_. P_Idle))"
proof -
  have "freeze_if_melted (\<lambda>s. s) (\<lambda>x. ucast x) 5 (frozen_io FRZ_MELTED None False) =
      Some (True, frozen_io FRZ_FROZEN_TIMEO (Some 5000) True)"
    by (simp add: freeze_if_melted_def iocore_freeze_idle frozen_io_def demo_wdev_def blank_iocore_def freeze_enqueue_def
        set_freeze_dwork_def set_freeze_state_def upd_cpd_def upd_core_def freeze_detail_def set_frozen_def
        stop_checkpointing_def stop_begin_def)
  from frz_step.freeze [where s = frz_demo and c = 0 and race = race, OF _ id_tasks, simplified frz_demo_def, simplified, OF this]
  show ?thesis by (simp add: frz_demo_def)
qed

lemma frz_demo_reach: "reach (frz_step race) frz_demo (frz_at FRZ_FROZEN_TIMEO (Some 5000) True (\<lambda>_. P_Idle))"
  by (rule reach_step [of "frz_step race", OF reach_start frz_demo_timeo])


text \<open>
  The clearing of the log does not check for a melt work being cancelled: a handler that
  melts the device at the same time lets write IOs be processed while the log is being reset.
\<close>

theorem reset_wal_race:
  "\<exists>(s0 :: ram frz_sys) s. frz_start s0 \<and> reach (frz_step True) s0 s \<and>
     fz_ctl s 1 = P_Reset \<and> frz_of (fz_io s) = FRZ_MELTED \<and> \<not> ic_is_frozen_usr (io_core (fz_io s))"
proof -
  let ?c0 = "\<lambda>_. P_Idle" and ?m = "\<lambda>x :: u32. ucast x :: u64"
  let ?c1 = "?c0(0 := P_Cancel)" and ?c2 = "?c0(0 := P_Cancel, 1 := P_Reset)" and ?c3 = "?c0(0 := P_Cancelled, 1 := P_Reset)"
    and ?c4 = "?c0(0 := P_Idle, 1 := P_Reset)"
  let ?s1 = "frz_at FRZ_FROZEN_TIMEO (Some 5000) True ?c0" and ?s2 = "frz_at FRZ_CANCELING (Some 5000) True ?c1"
    and ?s3 = "frz_at FRZ_CANCELING (Some 5000) True ?c2" and ?s4 = "frz_at FRZ_CANCELING None True ?c3"
    and ?s5 = "frz_at FRZ_FROZEN None True ?c4"
  let ?i = "snd (melt_section ?m True (frozen_io FRZ_FROZEN None True))"
  have "frz_step True ?s1 ?s2"
    using frz_step.cancel [of ?s1 0 "frozen_io FRZ_CANCELING (Some 5000) True" True] by (simp add: cancel_begin_def)
  moreover have "frz_step True ?s2 ?s3"
    using frz_step.reset [of ?s2 1 True "\<lambda>s. s" "frozen_io FRZ_CANCELING (Some 5000) True"] id_tasks
    by (simp add: freeze_for_reset_wal_def fun_upd_twist)
  moreover have "frz_step True ?s3 ?s4" using frz_step.cancelled [of ?s3 0 True] by (simp add: fun_upd_twist)
  ultimately have r4: "reach (frz_step True) frz_demo ?s4" by (rule reach_three [of "frz_step True", OF frz_demo_reach])
  have "frz_step True ?s4 ?s5" using frz_step.uncancel [of ?s4 0 True] by (simp add: cancel_end_def fun_upd_twist)
  moreover have "frz_step True ?s5 (?s5\<lparr>fz_io := ?i\<rparr>)"
    using frz_step.melt [of ?s5 0 ?m True "fst (melt_section ?m True (frozen_io FRZ_FROZEN None True))" ?i True] by simp
  ultimately have "reach (frz_step True) frz_demo (?s5\<lparr>fz_io := ?i\<rparr>)" by (rule reach_two [of "frz_step True", OF r4])
  moreover have "frz_view ?i = (FRZ_MELTED, None, False)"
    by (simp add: melt_section_def)
  ultimately show ?thesis using frz_demo_start
    by (intro exI [of _ frz_demo] exI [of _ "?s5\<lparr>fz_io := ?i\<rparr>"]) (simp add: frz_view_def)
qed

end
