(* ===== verification/Walb_Wdev_Ioctl.thy ===== *)
theory Walb_Wdev_Ioctl
  imports Walb_Freeze
begin

text \<open>
  The ioctls of a walb device (\<^verbatim>\<open>module/wdev_ioctl.c\<close>) and the transfer of their argument
  between user space and the kernel (\<^verbatim>\<open>walb_get_ctl\<close>, \<^verbatim>\<open>walb_put_ctl\<close> in \<^verbatim>\<open>module/control.c\<close>,
  \<^verbatim>\<open>struct walb_ctl\<close> in \<^verbatim>\<open>include/linux/walb/ioctl.h\<close>).  A handler takes the device with its IO
  state and the control structure and returns the error code with both; \<^const>\<open>None\<close> is a
  wait that never ends.  Handlers are modelled without other handlers running at the same
  time; their interleavings are the subject of \<^verbatim>\<open>Walb_Freeze\<close>.
\<close>

section \<open>The control structure\<close>

record walb_ctl_data =
  cd_wmajor :: u32
  cd_wminor :: u32
  cd_lmajor :: u32
  cd_lminor :: u32
  cd_dmajor :: u32
  cd_dminor :: u32
  cd_buf_size :: u64
  cd_buf :: "u8 list option"
  cd_kbuf :: "u8 list option"

record walb_ctl =
  ctl_command :: nat
  ctl_val_int :: int
  ctl_val_u64 :: u64
  ctl_val_u32 :: u32
  ctl_error :: int
  ctl_u2k :: walb_ctl_data
  ctl_k2u :: walb_ctl_data

definition EBUSY :: int where "EBUSY = 16"
definition EFAULT :: int where "EFAULT = 14"
definition ENOTTY :: int where "ENOTTY = 25"

definition WALB_IOCTL_START_DEV :: nat where "WALB_IOCTL_START_DEV = 1"
definition WALB_IOCTL_STOP_DEV :: nat where "WALB_IOCTL_STOP_DEV = 2"
definition WALB_IOCTL_GET_MAJOR :: nat where "WALB_IOCTL_GET_MAJOR = 3"
definition WALB_IOCTL_LIST_DEV :: nat where "WALB_IOCTL_LIST_DEV = 4"
definition WALB_IOCTL_NUM_OF_DEV :: nat where "WALB_IOCTL_NUM_OF_DEV = 5"
definition WALB_IOCTL_GET_OLDEST_LSID :: nat where "WALB_IOCTL_GET_OLDEST_LSID = 6"
definition WALB_IOCTL_SET_OLDEST_LSID :: nat where "WALB_IOCTL_SET_OLDEST_LSID = 7"
definition WALB_IOCTL_STATUS :: nat where "WALB_IOCTL_STATUS = 8"
definition WALB_IOCTL_GET_CHECKPOINT_INTERVAL :: nat where "WALB_IOCTL_GET_CHECKPOINT_INTERVAL = 16"
definition WALB_IOCTL_TAKE_CHECKPOINT :: nat where "WALB_IOCTL_TAKE_CHECKPOINT = 17"
definition WALB_IOCTL_SET_CHECKPOINT_INTERVAL :: nat where "WALB_IOCTL_SET_CHECKPOINT_INTERVAL = 18"
definition WALB_IOCTL_GET_WRITTEN_LSID :: nat where "WALB_IOCTL_GET_WRITTEN_LSID = 19"
definition WALB_IOCTL_GET_PERMANENT_LSID :: nat where "WALB_IOCTL_GET_PERMANENT_LSID = 20"
definition WALB_IOCTL_GET_COMPLETED_LSID :: nat where "WALB_IOCTL_GET_COMPLETED_LSID = 21"
definition WALB_IOCTL_GET_LOG_USAGE :: nat where "WALB_IOCTL_GET_LOG_USAGE = 22"
definition WALB_IOCTL_GET_LOG_CAPACITY :: nat where "WALB_IOCTL_GET_LOG_CAPACITY = 23"
definition WALB_IOCTL_IS_FLUSH_CAPABLE :: nat where "WALB_IOCTL_IS_FLUSH_CAPABLE = 24"
definition WALB_IOCTL_RESIZE :: nat where "WALB_IOCTL_RESIZE = 25"
definition WALB_IOCTL_CLEAR_LOG :: nat where "WALB_IOCTL_CLEAR_LOG = 26"
definition WALB_IOCTL_IS_LOG_OVERFLOW :: nat where "WALB_IOCTL_IS_LOG_OVERFLOW = 27"
definition WALB_IOCTL_FREEZE :: nat where "WALB_IOCTL_FREEZE = 28"
definition WALB_IOCTL_MELT :: nat where "WALB_IOCTL_MELT = 29"
definition WALB_IOCTL_IS_FROZEN :: nat where "WALB_IOCTL_IS_FROZEN = 30"

text \<open>The results of the kernel's allocations and copies for one control structure.\<close>

record ctl_results =
  cr_alloc :: bool
  cr_copy_in :: bool
  cr_alloc_u2k :: bool
  cr_copy_u2k :: bool
  cr_alloc_k2u :: bool
  cr_copy_k2u :: bool
  cr_copy_out :: bool

definition walb_alloc_and_copy_from_user :: "bool \<Rightarrow> bool \<Rightarrow> u8 list option \<Rightarrow> u64 \<Rightarrow> u8 list option" where
  "walb_alloc_and_copy_from_user alloc_ok copy_ok userbuf buf_size =
     (if buf_size = 0 \<or> userbuf = None then None
      else if \<not> alloc_ok then None
      else if \<not> copy_ok then None
      else map_option (take (unat buf_size)) userbuf)"

definition walb_get_ctl :: "ctl_results \<Rightarrow> walb_ctl \<Rightarrow> walb_ctl option" where
  "walb_get_ctl r userctl =
     (if \<not> cr_alloc r then None
      else if \<not> cr_copy_in r then None
      else
        (let u2k = ctl_u2k userctl; k2u = ctl_k2u userctl;
             kbuf = (if cd_buf_size u2k > 0
                     then walb_alloc_and_copy_from_user (cr_alloc_u2k r) (cr_copy_u2k r) (cd_buf u2k) (cd_buf_size u2k)
                     else cd_kbuf u2k) in
         if cd_buf_size u2k > 0 \<and> kbuf = None then None
         else if cd_buf_size k2u > 0 \<and> \<not> cr_alloc_k2u r then None
         else Some (userctl\<lparr>ctl_u2k := u2k\<lparr>cd_kbuf := kbuf\<rparr>,
                ctl_k2u := (if cd_buf_size k2u > 0
                            then k2u\<lparr>cd_kbuf := Some (replicate (unat (cd_buf_size k2u)) 0)\<rparr> else k2u)\<rparr>)))"

definition walb_copy_to_user_and_free :: "bool \<Rightarrow> u8 list option \<Rightarrow> u8 list option \<Rightarrow> u64 \<Rightarrow> int \<times> u8 list option" where
  "walb_copy_to_user_and_free copy_ok userbuf buf buf_size =
     (if buf_size = 0 \<or> userbuf = None \<or> buf = None then (- 1, userbuf)
      else if \<not> copy_ok then (- 1, userbuf)
      else (0, buf))"

text \<open>The result is the return value and the structure in user space.\<close>

definition walb_put_ctl :: "ctl_results \<Rightarrow> walb_ctl \<Rightarrow> walb_ctl \<Rightarrow> int \<times> walb_ctl" where
  "walb_put_ctl r userctl ctl =
     (let k2u = ctl_k2u ctl;
          (ret, buf) = (if cd_buf_size k2u > 0
                        then walb_copy_to_user_and_free (cr_copy_k2u r) (cd_buf k2u) (cd_kbuf k2u) (cd_buf_size k2u)
                        else (0, cd_buf k2u)) in
      if ret \<noteq> 0 then (- 1, userctl)
      else if \<not> cr_copy_out r then (- 1, userctl\<lparr>ctl_k2u := (ctl_k2u userctl)\<lparr>cd_buf := buf\<rparr>\<rparr>)
      else (0, ctl\<lparr>ctl_k2u := k2u\<lparr>cd_buf := buf\<rparr>\<rparr>))"

section \<open>Handlers\<close>

text \<open>
  What a handler finds around it: the block devices, the allocations of the super sector
  functions, the clock conversion, the IO tasks and the random numbers.
\<close>

record 'd ioctl_env =
  ie_ops :: "'d block_ops"
  ie_alloc :: sync_alloc
  ie_msecs :: "u32 \<Rightarrow> u64"
  ie_tasks :: "'d io_state \<Rightarrow> 'd io_state"
  ie_uuid :: "u8 list"
  ie_salt :: u32

type_synonym 'd ioctl = "'d ioctl_env \<Rightarrow> walb_ctl \<Rightarrow> 'd io_state \<Rightarrow> (int \<times> walb_ctl \<times> 'd io_state) option"

definition upd_dev :: "('d walb_dev \<Rightarrow> 'd walb_dev) \<Rightarrow> 'd io_state \<Rightarrow> 'd io_state" where
  "upd_dev f s = s\<lparr>io_dev := f (io_dev s)\<rparr>"

definition sync_super :: "'d ioctl_env \<Rightarrow> 'd io_state \<Rightarrow> (bool \<times> 'd io_state) option" where
  "sync_super e s = map_option (\<lambda>(ok, w). (ok, s\<lparr>io_dev := w\<rparr>)) (walb_sync_super_block (ie_ops e) (ie_alloc e) (io_dev s))"

definition ioctl_wdev_get_oldest_lsid :: "'d ioctl" where
  "ioctl_wdev_get_oldest_lsid e ctl s = Some (0, ctl\<lparr>ctl_val_u64 := get_oldest_lsid (io_dev s)\<rparr>, s)"

definition ioctl_wdev_set_oldest_lsid :: "'d ioctl" where
  "ioctl_wdev_set_oldest_lsid e ctl s =
     (let lsid = ctl_val_u64 ctl; lsids = wd_lsids (io_dev s) in
      if lsid < oldest lsids \<or> prev_written lsids < lsid then Some (- EFAULT, ctl, s)
      else
        (let (valid, w1) = (if lsid < permanent lsids then walb_check_lsid_valid (ie_ops e) (ie_alloc e) (io_dev s) lsid
                            else (True, io_dev s));
             s1 = s\<lparr>io_dev := w1\<rparr> in
         if \<not> valid then Some (- EFAULT, ctl, s1)
         else map_option (\<lambda>(ok, s2). (if ok then 0 else - EFAULT, ctl, s2))
           (sync_super e (upd_dev (\<lambda>w. w\<lparr>wd_lsids := (wd_lsids w)\<lparr>oldest := lsid\<rparr>\<rparr>) s1))))"

definition ioctl_wdev_status :: "'d ioctl" where
  "ioctl_wdev_status e ctl s = Some (- EFAULT, ctl, s)"

definition ioctl_wdev_take_checkpoint :: "'d ioctl" where
  "ioctl_wdev_take_checkpoint e ctl s =
     (let s1 = upd_cpd stop_checkpointing s in
      map_option (\<lambda>(ok, w).
         if \<not> ok then (- EFAULT, ctl, s1\<lparr>io_dev := w\<rparr>)
         else (0, ctl, upd_cpd (start_checkpointing (ie_msecs e)) (s1\<lparr>io_dev := w\<rparr>)))
       (take_checkpoint (ie_ops e) (ie_alloc e) (io_dev s1)))"

definition ioctl_wdev_get_checkpoint_interval :: "'d ioctl" where
  "ioctl_wdev_get_checkpoint_interval e ctl s =
     Some (0, ctl\<lparr>ctl_val_u32 := get_checkpoint_interval (wd_cpd (io_dev s))\<rparr>, s)"

definition ioctl_wdev_set_checkpoint_interval :: "'d ioctl" where
  "ioctl_wdev_set_checkpoint_interval e ctl s =
     (let interval = ctl_val_u32 ctl in
      if interval > WALB_MAX_CHECKPOINT_INTERVAL then Some (- EFAULT, ctl, s)
      else Some (0, ctl, upd_cpd (set_checkpoint_interval (ie_msecs e) interval) s))"

definition ioctl_wdev_get_written_lsid :: "'d ioctl" where
  "ioctl_wdev_get_written_lsid e ctl s = Some (0, ctl\<lparr>ctl_val_u64 := get_written_lsid (io_dev s)\<rparr>, s)"

definition ioctl_wdev_get_permanent_lsid :: "'d ioctl" where
  "ioctl_wdev_get_permanent_lsid e ctl s = Some (0, ctl\<lparr>ctl_val_u64 := get_permanent_lsid (io_dev s)\<rparr>, s)"

definition ioctl_wdev_get_completed_lsid :: "'d ioctl" where
  "ioctl_wdev_get_completed_lsid e ctl s = Some (0, ctl\<lparr>ctl_val_u64 := get_completed_lsid (io_dev s)\<rparr>, s)"

definition ioctl_wdev_get_log_usage :: "'d ioctl" where
  "ioctl_wdev_get_log_usage e ctl s = Some (0, ctl\<lparr>ctl_val_u64 := walb_get_log_usage (io_dev s)\<rparr>, s)"

definition ioctl_wdev_get_log_capacity :: "'d ioctl" where
  "ioctl_wdev_get_log_capacity e ctl s = Some (0, ctl\<lparr>ctl_val_u64 := walb_get_log_capacity (io_dev s)\<rparr>, s)"

text \<open>The flush flag of the walb device's own queue is \<^verbatim>\<open>support_flush\<close>.\<close>

definition ioctl_wdev_is_flush_capable :: "'d ioctl" where
  "ioctl_wdev_is_flush_capable e ctl s =
     Some (0, ctl\<lparr>ctl_val_int := (if wd_support_flush (io_dev s) then 1 else 0)\<rparr>, s)"

definition ioctl_wdev_resize :: "'d ioctl" where
  "ioctl_wdev_resize e ctl s =
     (let old_size = wd_gd_capacity (io_dev s);
          ddev_size = bo_nr_sects (ie_ops e) (wd_ddev (io_dev s));
          new_size = (if ctl_val_u64 ctl = 0 then ddev_size else ctl_val_u64 ctl) in
      if new_size < old_size then Some (- EFAULT, ctl, s)
      else if new_size > ddev_size then Some (- EFAULT, ctl, s)
      else if new_size = old_size then Some (0, ctl, s)
      else
        (let (ok, cap) = resize_disk old_size new_size;
             s1 = upd_dev (\<lambda>w. w\<lparr>wd_size := new_size, wd_ddev_size := ddev_size, wd_gd_capacity := cap\<rparr>) s in
         if \<not> ok then Some (- EFAULT, ctl, s1)
         else map_option (\<lambda>(ok, s2). (if ok then 0 else - EFAULT, ctl, s2)) (sync_super e s1)))"

definition ioctl_wdev_is_log_overflow :: "'d ioctl" where
  "ioctl_wdev_is_log_overflow e ctl s =
     Some (0, ctl\<lparr>ctl_val_int := (if test_bit_u64 WALB_STATE_OVERFLOW (wd_flags (io_dev s)) then 1 else 0)\<rparr>, s)"

definition ioctl_wdev_freeze :: "'d ioctl" where
  "ioctl_wdev_freeze e ctl s =
     (let timeout_sec = (if ctl_val_u32 ctl > 86400 then 86400 else ctl_val_u32 ctl) in
      map_option (\<lambda>(ok, s1). (if ok then 0 else - EFAULT, ctl, s1))
        (freeze_if_melted (ie_tasks e) (ie_msecs e) timeout_sec (cancel_melt_work s)))"

definition ioctl_wdev_is_frozen :: "'d ioctl" where
  "ioctl_wdev_is_frozen e ctl s = Some (0, ctl\<lparr>ctl_val_int := (if frz_of s = FRZ_MELTED then 0 else 1)\<rparr>, s)"

definition ioctl_wdev_melt :: "'d ioctl" where
  "ioctl_wdev_melt e ctl s =
     (let (ok, s1) = melt_if_frozen (ie_msecs e) True (cancel_melt_work s) in
      Some (if ok then 0 else - EFAULT, ctl, s1))"

section \<open>Clearing the log\<close>

definition zero_lsids :: lsid_set where
  "zero_lsids = \<lparr>latest = 0, completed = 0, flush = 0, permanent = 0, written = 0, prev_written = 0, oldest = 0\<rparr>"

text \<open>The log disk and the ring buffer take the new size of the log device.\<close>

definition clear_log_grow :: "u64 \<Rightarrow> 'd walb_dev \<Rightarrow> bool \<times> 'd walb_dev" where
  "clear_log_grow new_ldev_size w =
     (let (ok, cap) = resize_disk (wd_log_gd_capacity w) new_ldev_size; w1 = w\<lparr>wd_log_gd_capacity := cap\<rparr>;
          pbs = ucast (wd_physical_bs w) in
      if \<not> ok then (False, set_wdev_flag WALB_STATE_READ_ONLY w1)
      else (True, w1\<lparr>wd_ldev_size := new_ldev_size,
              wd_ring_buffer_size := addr_pb pbs new_ldev_size - get_ring_buffer_offset pbs\<rparr>))"

definition clear_log_super :: "u8 list \<Rightarrow> u32 \<Rightarrow> 'd walb_dev \<Rightarrow> 'd walb_dev" where
  "clear_log_super new_uuid new_salt w =
     (let super = get_super_sector (wd_lsuper0 w) in
      w\<lparr>wd_log_checksum_salt := new_salt,
        wd_lsuper0 := put_super_sector (super\<lparr>ss_uuid := new_uuid, ss_ring_buffer_size := wd_ring_buffer_size w,
          ss_log_checksum_salt := new_salt\<rparr>) (wd_lsuper0 w)\<rparr>)"

text \<open>The labels \<^verbatim>\<open>error1\<close> and \<^verbatim>\<open>error2\<close>.\<close>

definition clear_log_error1 :: "'d ioctl_env \<Rightarrow> walb_ctl \<Rightarrow> 'd io_state \<Rightarrow> int \<times> walb_ctl \<times> 'd io_state" where
  "clear_log_error1 e ctl s = (- EFAULT, ctl, melt_for_reset_wal (upd_cpd (start_checkpointing (ie_msecs e)) s))"

definition clear_log_error2 ::
  "'d ioctl_env \<Rightarrow> walb_ctl \<Rightarrow> lsid_set \<Rightarrow> u64 \<Rightarrow> 'd io_state \<Rightarrow> int \<times> walb_ctl \<times> 'd io_state" where
  "clear_log_error2 e ctl lsids old_ring_buffer_size s =
     clear_log_error1 e ctl (upd_dev (\<lambda>w. (restore_lsid_set w lsids)\<lparr>wd_ring_buffer_size := old_ring_buffer_size\<rparr>) s)"

definition ioctl_wdev_clear_log :: "'d ioctl" where
  "ioctl_wdev_clear_log e ctl s =
     (case freeze_for_reset_wal (ie_tasks e) s of
        None \<Rightarrow> None
      | Some (frozen, s1) \<Rightarrow>
          if \<not> frozen then Some (- EFAULT, ctl, s1)
          else
            (let s2 = upd_cpd stop_checkpointing s1;
                 old_ldev_size = wd_ldev_size (io_dev s2);
                 new_ldev_size = bo_nr_sects (ie_ops e) (wd_ldev (io_dev s2)) in
             if old_ldev_size > new_ldev_size then Some (- EFAULT, ctl, s2)
             else
               (let old_ring_buffer_size = wd_ring_buffer_size (io_dev s2);
                    lsids = backup_lsid_set (io_dev s2);
                    s3 = upd_dev (\<lambda>w. w\<lparr>wd_lsids := zero_lsids\<rparr>) s2;
                    (grown_ok, w4) = (if old_ldev_size < new_ldev_size then clear_log_grow new_ldev_size (io_dev s3)
                                      else (True, io_dev s3));
                    s4 = s3\<lparr>io_dev := w4\<rparr> in
                if \<not> grown_ok then Some (clear_log_error1 e ctl s4)
                else
                  (case sync_super e (upd_dev (clear_log_super (ie_uuid e) (ie_salt e)) s4) of
                     None \<Rightarrow> None
                   | Some (ok, s5) \<Rightarrow>
                       if \<not> ok then Some (clear_log_error2 e ctl lsids old_ring_buffer_size s5)
                       else
                         (let (inv, w6) = invalidate_lsid (ie_ops e) (ie_alloc e) (io_dev s5) 0; s6 = s5\<lparr>io_dev := w6\<rparr> in
                          if \<not> inv then
                            Some (clear_log_error2 e ctl lsids old_ring_buffer_size
                              (upd_dev (set_wdev_flag WALB_STATE_READ_ONLY) s6))
                          else
                            Some (0, ctl, melt_for_reset_wal (upd_cpd (start_checkpointing (ie_msecs e))
                              (upd_dev (\<lambda>w. w\<lparr>wd_flags := clear_bit_u64 WALB_STATE_OVERFLOW (wd_flags w)\<rparr>) s6))))))))"

section \<open>Dispatch\<close>

definition wdev_handler :: "nat \<Rightarrow> 'd ioctl option" where
  "wdev_handler cmd =
     map_of [(WALB_IOCTL_GET_OLDEST_LSID, ioctl_wdev_get_oldest_lsid),
       (WALB_IOCTL_SET_OLDEST_LSID, ioctl_wdev_set_oldest_lsid),
       (WALB_IOCTL_TAKE_CHECKPOINT, ioctl_wdev_take_checkpoint),
       (WALB_IOCTL_GET_CHECKPOINT_INTERVAL, ioctl_wdev_get_checkpoint_interval),
       (WALB_IOCTL_SET_CHECKPOINT_INTERVAL, ioctl_wdev_set_checkpoint_interval),
       (WALB_IOCTL_GET_WRITTEN_LSID, ioctl_wdev_get_written_lsid),
       (WALB_IOCTL_GET_PERMANENT_LSID, ioctl_wdev_get_permanent_lsid),
       (WALB_IOCTL_GET_COMPLETED_LSID, ioctl_wdev_get_completed_lsid),
       (WALB_IOCTL_GET_LOG_USAGE, ioctl_wdev_get_log_usage),
       (WALB_IOCTL_GET_LOG_CAPACITY, ioctl_wdev_get_log_capacity),
       (WALB_IOCTL_IS_FLUSH_CAPABLE, ioctl_wdev_is_flush_capable),
       (WALB_IOCTL_STATUS, ioctl_wdev_status),
       (WALB_IOCTL_RESIZE, ioctl_wdev_resize),
       (WALB_IOCTL_CLEAR_LOG, ioctl_wdev_clear_log),
       (WALB_IOCTL_IS_LOG_OVERFLOW, ioctl_wdev_is_log_overflow),
       (WALB_IOCTL_FREEZE, ioctl_wdev_freeze),
       (WALB_IOCTL_MELT, ioctl_wdev_melt),
       (WALB_IOCTL_IS_FROZEN, ioctl_wdev_is_frozen)] cmd"

text \<open>The result has the structure as user space sees it afterwards.\<close>

definition walb_dispatch_ioctl_wdev :: "ctl_results \<Rightarrow> 'd ioctl" where
  "walb_dispatch_ioctl_wdev r e userctl s =
     (case walb_get_ctl r userctl of
        None \<Rightarrow> Some (- EFAULT, userctl, s)
      | Some ctl \<Rightarrow>
          (case (case wdev_handler (ctl_command ctl) of None \<Rightarrow> Some (- EFAULT, ctl, s) | Some h \<Rightarrow> h e ctl s) of
             None \<Rightarrow> None
           | Some (ret, ctl1, s1) \<Rightarrow>
               (let (put, userctl1) = walb_put_ctl r userctl ctl1 in
                Some (if put \<noteq> 0 then - EFAULT else ret, userctl1, s1))))"

section \<open>Properties\<close>

lemma upd_dev_fields [simp]:
  "io_dev (upd_dev f s) = f (io_dev s)" "io_biows (upd_dev f s) = io_biows s" "io_tasks (upd_dev f s) = io_tasks s"
  by (simp_all add: upd_dev_def)

lemma iocore_melt_dev:
  "\<exists>ic. io_dev (iocore_melt s) = (io_dev s)\<lparr>wd_iocore := ic\<rparr>"
  unfolding iocore_melt_def dispatch_submit_log_task_def dispatch_task_if_necessary_def
  by (auto simp: Let_def upd_core_def split: prod.splits)

text \<open>Melting after the clearing of the log changes the freeze state and the IO core only.\<close>

lemma melt_for_reset_dev:
  obtains ic where "io_dev (melt_for_reset_wal s) = (io_dev s)\<lparr>wd_iocore := ic, wd_freeze_state := FRZ_MELTED\<rparr>"
  using iocore_melt_dev [of s] by (auto simp: melt_for_reset_wal_def set_freeze_state_def)

lemma clear_log_error2_dev:
  obtains s' ic cpd where "clear_log_error2 e ctl l r s = (- EFAULT, ctl, s')"
    "io_dev s' = (io_dev s)\<lparr>wd_lsids := l, wd_ring_buffer_size := r, wd_cpd := cpd, wd_iocore := ic, wd_freeze_state := FRZ_MELTED\<rparr>"
proof -
  let ?s = "upd_cpd (start_checkpointing (ie_msecs e)) (upd_dev (\<lambda>w. (restore_lsid_set w l)\<lparr>wd_ring_buffer_size := r\<rparr>) s)"
  obtain ic where "io_dev (melt_for_reset_wal ?s) = (io_dev ?s)\<lparr>wd_iocore := ic, wd_freeze_state := FRZ_MELTED\<rparr>"
    by (rule melt_for_reset_dev)
  then show ?thesis
    by (intro that [of "melt_for_reset_wal ?s" ic "wd_cpd (io_dev ?s)"])
      (simp_all add: clear_log_error2_def clear_log_error1_def restore_lsid_set_def upd_cpd_def)
qed

lemma clear_log_shrunk:
  assumes "frz_of s = FRZ_MELTED" and "iocore_freeze (ie_tasks e) s = Some s1"
    and "bo_nr_sects (ie_ops e) (wd_ldev (io_dev s1)) < wd_ldev_size (io_dev s1)"
  shows "ioctl_wdev_clear_log e ctl s = Some (- EFAULT, ctl, upd_cpd stop_checkpointing (set_freeze_state FRZ_FROZEN_DEEP s1))"
  using assms by (simp add: ioctl_wdev_clear_log_def freeze_for_reset_wal_def upd_cpd_def set_freeze_state_def)

lemma deep_is_stuck:
  assumes "frz_of s = FRZ_FROZEN_DEEP"
  shows "ioctl_wdev_melt e ctl s = Some (- EFAULT, ctl, s)" "ioctl_wdev_freeze e ctl s = Some (- EFAULT, ctl, s)"
    "ioctl_wdev_clear_log e ctl s = Some (- EFAULT, ctl, s)"
  using assms by (simp_all add: ioctl_wdev_melt_def melt_if_frozen_def melt_section_def cancel_melt_work_def cancel_begin_def
      ioctl_wdev_freeze_def freeze_if_melted_def ioctl_wdev_clear_log_def freeze_for_reset_wal_def Let_def)

text \<open>
  When the log device has become smaller, clearing the log returns an error but leaves the
  device frozen for the reset: from then on melting, freezing and clearing the log all fail and
  change nothing, so write IOs are never processed again.
\<close>

theorem clear_log_shrunk_stays_frozen:
  assumes "iocore_tasks (ie_tasks e)" and "frz_of s = FRZ_MELTED" and "iocore_freeze (ie_tasks e) s = Some s1"
    and "bo_nr_sects (ie_ops e) (wd_ldev (io_dev s1)) < wd_ldev_size (io_dev s1)"
  shows "\<exists>s'. ioctl_wdev_clear_log e ctl s = Some (- EFAULT, ctl, s') \<and> ic_is_frozen_usr (io_core s') \<and>
    (\<forall>e' ctl'. ioctl_wdev_melt e' ctl' s' = Some (- EFAULT, ctl', s') \<and>
       ioctl_wdev_freeze e' ctl' s' = Some (- EFAULT, ctl', s') \<and>
       ioctl_wdev_clear_log e' ctl' s' = Some (- EFAULT, ctl', s'))"
proof -
  let ?s = "upd_cpd stop_checkpointing (set_freeze_state FRZ_FROZEN_DEEP s1)"
  have "ic_is_frozen_usr (io_core s1)"
    using iocore_tasks.iocore_freeze_done(1) [OF assms(1,3)] by (simp add: frz_view_def)
  moreover have "frz_of ?s = FRZ_FROZEN_DEEP" by simp
  ultimately show ?thesis
    using clear_log_shrunk [OF assms(2-4)] deep_is_stuck [of ?s] by (intro exI [of _ ?s]) simp
qed

text \<open>
  When the super sector cannot be synced for lack of memory, clearing the log fails and
  restores the lsids, but keeps the new checksum salt: the device, which is not made read-only
  and whose super sector on the log device still has the old salt, goes on writing logpacks
  whose checksums use a salt that redo will not know.
\<close>

theorem clear_log_failure_changes_salt:
  assumes "frz_of s = FRZ_MELTED" and "iocore_freeze (ie_tasks e) s = Some s1"
    and "bo_nr_sects (ie_ops e) (wd_ldev (io_dev s1)) = wd_ldev_size (io_dev s1)"
    and "\<not> sy_malloc (ie_alloc e)"
  shows "\<exists>s'. ioctl_wdev_clear_log e ctl s = Some (- EFAULT, ctl, s') \<and> frz_of s' = FRZ_MELTED \<and>
    wd_flags (io_dev s') = wd_flags (io_dev s1) \<and> wd_lsids (io_dev s') = wd_lsids (io_dev s1) \<and>
    wd_ldev (io_dev s') = wd_ldev (io_dev s1) \<and> wd_log_checksum_salt (io_dev s') = ie_salt e"
proof -
  let ?s4 = "upd_dev (\<lambda>w. w\<lparr>wd_lsids := zero_lsids\<rparr>) (upd_cpd stop_checkpointing (set_freeze_state FRZ_FROZEN_DEEP s1))"
  let ?s5 = "upd_dev (clear_log_super (ie_uuid e) (ie_salt e)) ?s4"
  have "sync_super e ?s5 = Some (False, ?s5)"
    using assms(4) by (auto simp: sync_super_def walb_sync_super_block_def sector_alloc_def)
  then have "ioctl_wdev_clear_log e ctl s =
      Some (clear_log_error2 e ctl (wd_lsids (io_dev s1)) (wd_ring_buffer_size (io_dev s1)) ?s5)"
    using assms(1-3) by (simp add: ioctl_wdev_clear_log_def freeze_for_reset_wal_def upd_cpd_def set_freeze_state_def
        backup_lsid_set_def Let_def upd_dev_def)
  moreover obtain s' ic cpd where "clear_log_error2 e ctl (wd_lsids (io_dev s1)) (wd_ring_buffer_size (io_dev s1)) ?s5 =
      (- EFAULT, ctl, s')" "io_dev s' = (io_dev ?s5)\<lparr>wd_lsids := wd_lsids (io_dev s1), wd_ring_buffer_size := wd_ring_buffer_size (io_dev s1),
        wd_cpd := cpd, wd_iocore := ic, wd_freeze_state := FRZ_MELTED\<rparr>"
    by (rule clear_log_error2_dev)
  ultimately show ?thesis
    by (intro exI [of _ s']) (simp add: upd_cpd_def set_freeze_state_def clear_log_super_def Let_def)
qed

definition demo_env :: "bool \<Rightarrow> u64 \<Rightarrow> ram ioctl_env" where
  "demo_env mem sects = \<lparr>ie_ops = ram_ops\<lparr>bo_nr_sects := (\<lambda>_. sects)\<rparr>, ie_alloc = demo_alloc\<lparr>sy_malloc := mem\<rparr>,
     ie_msecs = (\<lambda>x. ucast x), ie_tasks = dequeue_and_gc_logpack_list, ie_uuid = replicate 16 9, ie_salt = 4711\<rparr>"

definition demo_ctl :: walb_ctl where
  "demo_ctl =
     (let d = \<lparr>cd_wmajor = 0, cd_wminor = 0, cd_lmajor = 0, cd_lminor = 0, cd_dmajor = 0, cd_dminor = 0,
        cd_buf_size = 0, cd_buf = None, cd_kbuf = None\<rparr> in
      \<lparr>ctl_command = WALB_IOCTL_CLEAR_LOG, ctl_val_int = 0, ctl_val_u64 = 0, ctl_val_u32 = 0, ctl_error = 0,
       ctl_u2k = d, ctl_k2u = d\<rparr>)"

lemma demo_freeze:
  "iocore_freeze tasks (frozen_io FRZ_MELTED None False) =
     Some (upd_core (freeze_detail True) (frozen_io FRZ_MELTED None False))"
  by (rule iocore_freeze_idle) (simp_all add: frozen_io_def blank_iocore_def)

theorem clear_log_shrunk_stays_frozen_witness:
  "\<exists>s'. ioctl_wdev_clear_log (demo_env True 5000) demo_ctl (frozen_io FRZ_MELTED None False) = Some (- EFAULT, demo_ctl, s') \<and>
    ic_is_frozen_usr (io_core s') \<and>
    (\<forall>e' ctl'. ioctl_wdev_melt e' ctl' s' = Some (- EFAULT, ctl', s') \<and>
       ioctl_wdev_freeze e' ctl' s' = Some (- EFAULT, ctl', s') \<and>
       ioctl_wdev_clear_log e' ctl' s' = Some (- EFAULT, ctl', s'))"
proof (rule clear_log_shrunk_stays_frozen [OF _ _ demo_freeze])
  show "iocore_tasks (ie_tasks (demo_env True 5000))" by (simp add: demo_env_def gc_task.iocore_tasks_axioms)
qed (simp_all add: demo_env_def upd_core_def frozen_io_def demo_wdev_def)

theorem clear_log_failure_changes_salt_witness:
  "\<exists>s'. ioctl_wdev_clear_log (demo_env False 100000) demo_ctl (frozen_io FRZ_MELTED None False) = Some (- EFAULT, demo_ctl, s') \<and>
    frz_of s' = FRZ_MELTED \<and>
    wd_flags (io_dev s') = wd_flags (io_dev (upd_core (freeze_detail True) (frozen_io FRZ_MELTED None False))) \<and>
    wd_lsids (io_dev s') = wd_lsids (io_dev (upd_core (freeze_detail True) (frozen_io FRZ_MELTED None False))) \<and>
    wd_ldev (io_dev s') = wd_ldev (io_dev (upd_core (freeze_detail True) (frozen_io FRZ_MELTED None False))) \<and>
    wd_log_checksum_salt (io_dev s') = ie_salt (demo_env False 100000)"
  by (rule clear_log_failure_changes_salt [OF _ demo_freeze])
    (simp_all add: demo_env_def upd_core_def frozen_io_def demo_wdev_def)

section \<open>The oldest lsid\<close>

lemma check_lsid_valid_dev: "\<exists>ldev. snd (walb_check_lsid_valid ops al wdev lsid) = wdev\<lparr>wd_ldev := ldev\<rparr>"
proof (cases "sector_alloc (unat (wd_physical_bs wdev)) (sy_malloc al) (sy_buf al)")
  case None
  then show ?thesis by (intro exI [of _ "wd_ldev wdev"]) (simp add: walb_check_lsid_valid_def)
next
  case (Some sect)
  then show ?thesis by (auto simp: walb_check_lsid_valid_def Let_def split: prod.splits)
qed

lemma sync_super_lsids:
  assumes "sync_super e s = Some (ok, s')"
  shows "wd_lsids (io_dev s') = (if ok then (wd_lsids (io_dev s))\<lparr>prev_written := written (wd_lsids (io_dev s))\<rparr>
    else wd_lsids (io_dev s))"
  using assms
  by (auto simp: sync_super_def walb_sync_super_block_def Let_def split: if_splits option.splits prod.splits)

text \<open>
  Setting the oldest lsid keeps the lsids in order, whatever the request: a refused request
  leaves them as they are, an accepted one lies between the oldest and the previously written
  lsid.
\<close>

lemma set_oldest_lsid_keeps_order:
  assumes "lsid_set_is_valid (wd_lsids (io_dev s))" and "ioctl_wdev_set_oldest_lsid e ctl s = Some (ret, ctl', s')"
  shows "lsid_set_is_valid (wd_lsids (io_dev s'))" "ret = 0 \<Longrightarrow> oldest (wd_lsids (io_dev s')) = ctl_val_u64 ctl"
proof -
  let ?l = "ctl_val_u64 ctl" and ?ls = "wd_lsids (io_dev s)"
  obtain valid w1 where w1: "(if ?l < permanent ?ls then walb_check_lsid_valid (ie_ops e) (ie_alloc e) (io_dev s) ?l
      else (True, io_dev s)) = (valid, w1)" by fastforce
  then have w1_ls: "wd_lsids w1 = ?ls"
    using check_lsid_valid_dev [of "ie_ops e" "ie_alloc e" "io_dev s" ?l] by (auto split: if_splits)
  let ?s2 = "upd_dev (\<lambda>w. w\<lparr>wd_lsids := (wd_lsids w)\<lparr>oldest := ?l\<rparr>\<rparr>) (s\<lparr>io_dev := w1\<rparr>)"
  consider (range) "s' = s" "ret = - EFAULT" | (bad) "s' = s\<lparr>io_dev := w1\<rparr>" "ret = - EFAULT"
    | (sync) ok where "sync_super e ?s2 = Some (ok, s')" "ret = (if ok then 0 else - EFAULT)"
        "oldest ?ls \<le> ?l" "?l \<le> prev_written ?ls"
    using assms(2) w1 unfolding ioctl_wdev_set_oldest_lsid_def Let_def
    by (auto split: if_splits prod.splits simp: not_less)
  then have "lsid_set_is_valid (wd_lsids (io_dev s')) \<and> (ret = 0 \<longrightarrow> oldest (wd_lsids (io_dev s')) = ?l)"
  proof cases
    case sync
    from sync_super_lsids [OF sync(1)] show ?thesis
      using sync(2-) assms(1) w1_ls by (auto simp: lsid_set_is_valid_def EFAULT_def split: if_splits)
  qed (use assms(1) w1_ls in \<open>auto simp: EFAULT_def\<close>)
  then show "lsid_set_is_valid (wd_lsids (io_dev s'))" "ret = 0 \<Longrightarrow> oldest (wd_lsids (io_dev s')) = ctl_val_u64 ctl" by auto
qed

section \<open>A successful clearing of the log\<close>

lemma sync_super_fields:
  assumes "sync_super e s = Some (ok, s')"
  shows "wd_log_checksum_salt (io_dev s') = wd_log_checksum_salt (io_dev s)" "wd_ldev_size (io_dev s') = wd_ldev_size (io_dev s)"
    "wd_ring_buffer_size (io_dev s') = wd_ring_buffer_size (io_dev s)"
  using assms
  by (auto simp: sync_super_def walb_sync_super_block_def set_wdev_flag_def Let_def split: if_splits option.splits prod.splits)

lemma invalidate_lsid_dev:
  "\<exists>ldev fl. snd (invalidate_lsid ops al wdev lsid) = wdev\<lparr>wd_ldev := ldev, wd_flags := fl\<rparr>"
proof (cases "sector_alloc (unat (wd_physical_bs wdev)) (sy_malloc al)
    (map_option (\<lambda>_. replicate (unat (wd_physical_bs wdev)) 0) (sy_buf al))")
  case None
  then show ?thesis
    by (intro exI [of _ "wd_ldev wdev"] exI [of _ "wd_flags wdev"]) (simp add: invalidate_lsid_def del: sector_alloc_def)
next
  case (Some sect)
  obtain ret ldev1 s1 where io: "sector_io ops (sy_bio al) REQ_OP_WRITE False False (wd_ldev wdev)
      (get_offset_of_lsid_2 (get_super_sector (wd_lsuper0 wdev)) lsid) sect = (ret, ldev1, s1)" by (metis prod_cases3)
  show ?thesis
    by (intro exI [of _ ldev1] exI [of _ "if ret then wd_flags wdev else set_bit_u64 WALB_STATE_READ_ONLY (wd_flags wdev)"])
      (simp add: invalidate_lsid_def Some io set_wdev_flag_def Let_def)
qed

lemma clear_log_error_codes:
  "clear_log_error1 e ctl s \<noteq> (0, ctl', s')" "clear_log_error2 e ctl l r s \<noteq> (0, ctl', s')"
  by (simp_all add: clear_log_error1_def clear_log_error2_def EFAULT_def)

text \<open>
  C22. When clearing the log succeeds, all lsids are 0, the checksum salt is the new one, the
  overflow flag is clear, and write IOs are processed again.
\<close>

theorem clear_log_resets:
  assumes "ioctl_wdev_clear_log e ctl s = Some (0, ctl', s')"
  shows "wd_lsids (io_dev s') = zero_lsids \<and> wd_log_checksum_salt (io_dev s') = ie_salt e \<and>
    \<not> test_bit_u64 WALB_STATE_OVERFLOW (wd_flags (io_dev s')) \<and> frz_of s' = FRZ_MELTED \<and>
    \<not> ic_is_frozen_usr (io_core s')"
proof -
  obtain s4 s5 w6 where s5: "sync_super e (upd_dev (clear_log_super (ie_uuid e) (ie_salt e)) s4) = Some (True, s5)"
    and s4: "wd_lsids (io_dev s4) = zero_lsids"
    and w6: "snd (invalidate_lsid (ie_ops e) (ie_alloc e) (io_dev s5) 0) = w6"
    and s': "s' = melt_for_reset_wal (upd_cpd (start_checkpointing (ie_msecs e))
      (upd_dev (\<lambda>w. w\<lparr>wd_flags := clear_bit_u64 WALB_STATE_OVERFLOW (wd_flags w)\<rparr>) (s5\<lparr>io_dev := w6\<rparr>)))"
    using assms
    by (fastforce simp: ioctl_wdev_clear_log_def Let_def EFAULT_def clear_log_error_codes clear_log_grow_def resize_disk_def
        split: option.splits prod.splits if_splits)
  have "wd_lsids (io_dev s5) = zero_lsids"
    using sync_super_lsids [OF s5] s4 by (simp add: clear_log_super_def Let_def zero_lsids_def)
  moreover have "wd_log_checksum_salt (io_dev s5) = ie_salt e"
    using sync_super_fields(1) [OF s5] by (simp add: clear_log_super_def Let_def)
  moreover obtain ldev fl where "w6 = (io_dev s5)\<lparr>wd_ldev := ldev, wd_flags := fl\<rparr>"
    using invalidate_lsid_dev w6 by metis
  moreover obtain ic where "io_dev s' = (io_dev (upd_cpd (start_checkpointing (ie_msecs e))
      (upd_dev (\<lambda>w. w\<lparr>wd_flags := clear_bit_u64 WALB_STATE_OVERFLOW (wd_flags w)\<rparr>) (s5\<lparr>io_dev := w6\<rparr>))))\<lparr>wd_iocore := ic,
        wd_freeze_state := FRZ_MELTED\<rparr>"
    unfolding s' by (rule melt_for_reset_dev)
  moreover have "\<not> ic_is_frozen_usr (io_core s')"
    unfolding s' melt_for_reset_wal_def by simp
  ultimately show ?thesis by (simp add: upd_cpd_def)
qed

lemma clear_log_super_ok:
  assumes "wdev_super_ok w" "length uuid = UUID_SIZE"
  shows "wdev_super_ok (clear_log_super uuid salt w)"
proof -
  let ?ss = "(get_super_sector (wd_lsuper0 w))\<lparr>ss_uuid := uuid, ss_ring_buffer_size := wd_ring_buffer_size w,
    ss_log_checksum_salt := salt\<rparr>"
  note ok = wdev_super_okD [OF assms(1)]
  have len: "104 \<le> length (sector_bytes (wd_lsuper0 w))" using ok(1,3) by simp
  have wf: "super_wf ?ss" using get_super_sector_wf [OF len] assms(2) by (simp add: super_wf_def)
  note put = put_super_sector [OF wf len]
  have "sector_wf (put_super_sector ?ss (wd_lsuper0 w))"
    using put(2,4) ok(1,3) assms(1) by (auto simp: sector_wf_def wdev_super_ok_def put_super_sector_def sector_bytes_def)
  then show ?thesis
    using assms(1) put(3,4) by (simp add: wdev_super_ok_def clear_log_super_def Let_def)
qed

lemma ram_sync:
  assumes "wdev_super_ok w" "\<not> is_read_only w" "wd_physical_bs w = 512"
  shows "\<exists>w'. walb_sync_super_block (ram_ops\<lparr>bo_nr_sects := f\<rparr>) demo_alloc w = Some (True, w')"
proof -
  have buf: "length b = unat (wd_physical_bs w)" if "sy_buf demo_alloc = Some b" for b
    using that assms(3) by (auto simp: demo_alloc_def)
  have "fst (bo_issue_flush (ram_ops\<lparr>bo_nr_sects := f\<rparr>) d)" for d by (simp add: ram_ops_def)
  moreover have "fst (walb_write_super_sector (ram_ops\<lparr>bo_nr_sects := f\<rparr>) (sy_bio demo_alloc) d s)"
    if "sd_size s = unat (wd_physical_bs w)" for d s
    using that assms(3) by (simp add: write_super_sector_eq sector_io_def Let_def ram_ops_def demo_alloc_def)
  moreover have "sy_malloc demo_alloc" "sy_buf demo_alloc \<noteq> None" by (simp_all add: demo_alloc_def)
  ultimately show ?thesis
    using sync_paths [where al = demo_alloc and ops = "ram_ops\<lparr>bo_nr_sects := f\<rparr>", OF assms(1) buf] assms(2) by auto
qed

lemma demo_clear_log:
  "\<exists>s'. ioctl_wdev_clear_log (demo_env True 100000) demo_ctl (frozen_io FRZ_MELTED None False) = Some (0, demo_ctl, s')"
proof -
  let ?e = "demo_env True 100000"
  let ?s1 = "set_freeze_state FRZ_FROZEN_DEEP (upd_core (freeze_detail True) (frozen_io FRZ_MELTED None False))"
  let ?s4 = "upd_dev (\<lambda>w. w\<lparr>wd_lsids := zero_lsids\<rparr>) (upd_cpd stop_checkpointing ?s1)"
  let ?w = "clear_log_super (replicate 16 9) 4711 (io_dev ?s4)"
  have "wdev_super_ok (io_dev ?s4)"
    using demo_wdev_ok by (simp add: wdev_super_ok_def frozen_io_def upd_cpd_def upd_core_def set_freeze_state_def)
  then have "wdev_super_ok ?w" by (rule clear_log_super_ok) (simp add: UUID_SIZE_def)
  moreover have "\<not> is_read_only ?w" "wd_physical_bs ?w = 512"
    by (simp_all add: clear_log_super_def Let_def is_read_only_def frozen_io_def upd_cpd_def upd_core_def set_freeze_state_def
        demo_wdev_def)
  ultimately obtain w' where w': "walb_sync_super_block (ie_ops ?e) (ie_alloc ?e) ?w = Some (True, w')"
    using ram_sync [of ?w "\<lambda>_. 100000"] by (auto simp: demo_env_def demo_alloc_def)
  have sync: "sync_super ?e (upd_dev (clear_log_super (ie_uuid ?e) (ie_salt ?e)) ?s4) = Some (True, ?s4\<lparr>io_dev := w'\<rparr>)"
    using w' by (simp add: sync_super_def demo_env_def upd_dev_def)
  have "wd_physical_bs w' = 512"
    using w' by (auto simp: walb_sync_super_block_def Let_def set_wdev_flag_def clear_log_super_def frozen_io_def upd_cpd_def
        upd_core_def set_freeze_state_def demo_wdev_def split: if_splits option.splits prod.splits)
  then have "fst (invalidate_lsid (ie_ops ?e) (ie_alloc ?e) w' 0)"
    by (simp add: invalidate_lsid_def demo_env_def demo_alloc_def sector_alloc_def sector_io_def ram_ops_def Let_def)
  then show ?thesis
    using sync demo_freeze [of "ie_tasks ?e"]
    by (auto simp: ioctl_wdev_clear_log_def freeze_for_reset_wal_def Let_def upd_cpd_def set_freeze_state_def upd_dev_def
        upd_core_def frozen_io_def demo_wdev_def demo_env_def split: prod.splits)
qed

theorem clear_log_resets_witness:
  "\<exists>s'. ioctl_wdev_clear_log (demo_env True 100000) demo_ctl (frozen_io FRZ_MELTED None False) = Some (0, demo_ctl, s') \<and>
    wd_lsids (io_dev s') = zero_lsids \<and> wd_log_checksum_salt (io_dev s') = ie_salt (demo_env True 100000) \<and>
    \<not> test_bit_u64 WALB_STATE_OVERFLOW (wd_flags (io_dev s')) \<and> frz_of s' = FRZ_MELTED \<and>
    \<not> ic_is_frozen_usr (io_core s')"
  using demo_clear_log clear_log_resets by blast

end
