(* ===== verification/Walb_Alldevs.thy ===== *)
theory Walb_Alldevs
  imports Walb_Wdev_Ioctl
begin

text \<open>
  The list of all walb devices (\<^verbatim>\<open>module/alldevs.c\<close>).  It is kept in an \<^verbatim>\<open>idr\<close> of the kernel,
  whose operations are an argument with the laws of the locale \<^verbatim>\<open>idr_contract\<close>.  A key is the
  minor number divided by 2; an entry is a device or the mark of an allocated minor.  The
  functions are called with the lock of the list held; the debugging counter of the module is
  left out.
\<close>

section \<open>The idr of the kernel\<close>

record ('i, 'v) idr_ops =
  idr_find :: "'i \<Rightarrow> nat \<Rightarrow> 'v option"
  idr_get_next :: "'i \<Rightarrow> nat \<Rightarrow> (nat \<times> 'v) option"
  idr_alloc :: "'i \<Rightarrow> 'v \<Rightarrow> nat \<Rightarrow> nat \<Rightarrow> (nat \<times> 'i) option"
  idr_replace :: "'i \<Rightarrow> 'v \<Rightarrow> nat \<Rightarrow> 'v option \<times> 'i"
  idr_remove :: "'i \<Rightarrow> nat \<Rightarrow> 'i"

text \<open>\<^verbatim>\<open>idr_for_each_entry\<close>: the entries from a key on.\<close>

partial_function (option) idr_entries :: "('i, 'v) idr_ops \<Rightarrow> 'i \<Rightarrow> nat \<Rightarrow> (nat \<times> 'v) list option" where
  "idr_entries ops idr key =
     (case idr_get_next ops idr key of
        None \<Rightarrow> Some []
      | Some (k, v) \<Rightarrow> Option.bind (idr_entries ops idr (k + 1)) (\<lambda>es. Some ((k, v) # es)))"

text \<open>The entries of a table in ascending order of their keys.\<close>

definition entries_from :: "(nat \<Rightarrow> 'v option) \<Rightarrow> nat \<Rightarrow> (nat \<times> 'v) list" where
  "entries_from m k = map (\<lambda>j. (j, the (m j))) (sorted_list_of_set {j. k \<le> j \<and> m j \<noteq> None})"

locale idr_contract =
  fixes ops :: "('i, 'v) idr_ops" and tbl :: "'i \<Rightarrow> nat \<Rightarrow> 'v option"
  assumes tbl_finite: "finite (dom (tbl i))"
    and find_tbl: "idr_find ops i k = tbl i k"
    and get_next_Some: "idr_get_next ops i k = Some (j, v) \<Longrightarrow>
      k \<le> j \<and> tbl i j = Some v \<and> (\<forall>m. k \<le> m \<and> m < j \<longrightarrow> tbl i m = None)"
    and get_next_None: "idr_get_next ops i k = None \<Longrightarrow> k \<le> m \<Longrightarrow> tbl i m = None"
    and alloc_Some: "idr_alloc ops i v st en = Some (k, i') \<Longrightarrow>
      st \<le> k \<and> k < en \<and> tbl i k = None \<and> tbl i' = (tbl i)(k \<mapsto> v)"
    and replace_tbl: "tbl i k = Some old \<Longrightarrow> fst (idr_replace ops i v k) = Some old \<and>
      tbl (snd (idr_replace ops i v k)) = (tbl i)(k \<mapsto> v)"
    and remove_tbl: "tbl (idr_remove ops i k) = (tbl i)(k := None)"
begin

lemma finite_keys [simp]: "finite {j. k \<le> j \<and> tbl i j \<noteq> None}"
  by (rule finite_subset [OF _ tbl_finite [of i]]) auto

lemma entries_next:
  assumes "idr_get_next ops i k = Some (j, v)"
  shows "entries_from (tbl i) k = (j, v) # entries_from (tbl i) (j + 1)"
proof -
  note n = get_next_Some [OF assms]
  have eq: "{m. k \<le> m \<and> tbl i m \<noteq> None} = insert j {m. j + 1 \<le> m \<and> tbl i m \<noteq> None}"
    using n by (fastforce simp: Suc_le_eq not_less_iff_gr_or_eq nat_less_le)
  have "sorted_list_of_set {m. k \<le> m \<and> tbl i m \<noteq> None} = j # sorted_list_of_set {m. j + 1 \<le> m \<and> tbl i m \<noteq> None}"
    unfolding eq using finite_keys [of "j + 1" i] by (subst sorted_list_of_set_insert_remove) (auto intro: insort_is_Cons)
  then show ?thesis using n by (simp add: entries_from_def)
qed

lemma entries_end: "idr_get_next ops i k = None \<Longrightarrow> entries_from (tbl i) k = []"
proof -
  assume "idr_get_next ops i k = None"
  then have e: "{j. k \<le> j \<and> tbl i j \<noteq> None} = {}" using get_next_None [of i k] by auto
  show ?thesis unfolding entries_from_def e by simp
qed

text \<open>The iteration ends and gives the entries in ascending order of their keys.\<close>

lemma idr_entries_sorted: "idr_entries ops i k = Some (entries_from (tbl i) k)"
proof (induction "card {j. k \<le> j \<and> tbl i j \<noteq> None}" arbitrary: k rule: less_induct)
  case less
  show ?case
  proof (cases "idr_get_next ops i k")
    case None
    then show ?thesis by (subst idr_entries.simps) (simp add: entries_end)
  next
    case (Some p)
    obtain j v where p: "p = (j, v)" by fastforce
    note n = get_next_Some [OF Some [unfolded p]]
    have "{m. j + 1 \<le> m \<and> tbl i m \<noteq> None} \<subset> {m. k \<le> m \<and> tbl i m \<noteq> None}" using n by (auto simp: Suc_le_eq)
    then have "card {m. j + 1 \<le> m \<and> tbl i m \<noteq> None} < card {m. k \<le> m \<and> tbl i m \<noteq> None}"
      by (intro psubset_card_mono finite_keys)
    from less [OF this] show ?thesis
      using Some p by (subst idr_entries.simps) (simp add: entries_next)
  qed
qed

lemma entries_from_set: "set (entries_from (tbl i) k) = {(j, v). k \<le> j \<and> tbl i j = Some v}"
  using finite_keys [of k i] by (auto simp: entries_from_def)

end

section \<open>Devices\<close>

text \<open>
  What the list reads of a device: its IO state, the minor of \<^verbatim>\<open>devt\<close>, the names of both
  disks, the device numbers of the log and the data device, and the numbers of users.
\<close>

record 'd wdev_entry =
  we_io :: "'d io_state"
  we_minor :: u32
  we_disk_name :: "u8 list"
  we_log_disk_name :: "u8 list"
  we_ldevt :: u32
  we_ddevt :: u32
  we_n_users :: int
  we_log_n_users :: int

datatype 'd slot = ALL_WDEVS_PREALLOCED | Wdev "'d wdev_entry"

record 'i alldevs =
  ad_idr :: 'i
  ad_nr_devs :: int

definition MINORBITS :: nat where "MINORBITS = 20"
definition ALL_WDEVS_KEY_MAX :: nat where "ALL_WDEVS_KEY_MAX = 2 ^ MINORBITS div 2"

text \<open>A C string in an array of \<^verbatim>\<open>DISK_NAME_LEN\<close> characters, as \<^verbatim>\<open>strncmp\<close> and \<^verbatim>\<open>snprintf\<close> read it.\<close>

definition disk_cstr :: "u8 list \<Rightarrow> u8 list" where
  "disk_cstr name = takeWhile (\<lambda>c. c \<noteq> 0) (take DISK_NAME_LEN name)"

definition get_key_from_wdev :: "'d wdev_entry \<Rightarrow> nat" where
  "get_key_from_wdev wdev = unat (we_minor wdev) div 2"

definition search_wdev_with_minor :: "('i, 'd slot) idr_ops \<Rightarrow> 'i alldevs \<Rightarrow> u32 \<Rightarrow> 'd slot option" where
  "search_wdev_with_minor ops ad minor = idr_find ops (ad_idr ad) (unat minor div 2)"

record walb_disk_data =
  dd_name :: "u8 list"
  dd_major :: u32
  dd_minor :: u32

definition disk_data_of :: "u32 \<Rightarrow> 'd wdev_entry \<Rightarrow> walb_disk_data" where
  "disk_data_of major wdev =
     \<lparr>dd_name = name_field (we_disk_name wdev), dd_major = major, dd_minor = we_minor wdev\<rparr>"

text \<open>The loop of \<^verbatim>\<open>get_wdev_list_range\<close>; reading a device through the mark of a minor is undefined.\<close>

fun list_loop :: "('i, 'd slot) idr_ops \<Rightarrow> u32 \<Rightarrow> 'i \<Rightarrow> nat \<Rightarrow> nat \<Rightarrow> nat \<Rightarrow> walb_disk_data list option" where
  "list_loop ops major idr key1 0 key = Some []"
| "list_loop ops major idr key1 (Suc remaining) key =
     (if \<not> key < key1 then Some []
      else case idr_get_next ops idr key of
        None \<Rightarrow> Some []
      | Some (key', ALL_WDEVS_PREALLOCED) \<Rightarrow> None
      | Some (key', Wdev wdev) \<Rightarrow>
          map_option (\<lambda>ds. disk_data_of major wdev # ds) (list_loop ops major idr key1 remaining (key' + 1)))"

text \<open>The stored descriptions; the return value is their number.\<close>

definition get_wdev_list_range ::
  "('i, 'd slot) idr_ops \<Rightarrow> u32 \<Rightarrow> 'i alldevs \<Rightarrow> nat \<Rightarrow> u32 \<Rightarrow> u32 \<Rightarrow> walb_disk_data list option" where
  "get_wdev_list_range ops major ad n minor0 minor1 =
     (let key0 = unat minor0 div 2; key1 = unat minor1 div 2; key1' = (if key0 = key1 then key0 + 1 else key1) in
      list_loop ops major (ad_idr ad) key1' n key0)"

definition get_n_devices :: "'i alldevs \<Rightarrow> u32" where
  "get_n_devices ad = word_of_int (ad_nr_devs ad)"

definition alldevs_add :: "('i, 'd slot) idr_ops \<Rightarrow> 'd wdev_entry \<Rightarrow> 'i alldevs \<Rightarrow> (bool \<times> 'i alldevs) option" where
  "alldevs_add ops wdev ad =
     (case idr_entries ops (ad_idr ad) 0 of
        None \<Rightarrow> None
      | Some es \<Rightarrow>
          if list_ex (\<lambda>(k, s). case s of ALL_WDEVS_PREALLOCED \<Rightarrow> False
               | Wdev w \<Rightarrow> disk_cstr (we_disk_name w) = disk_cstr (we_disk_name wdev)) es
          then Some (False, ad)
          else Some (True, ad\<lparr>ad_idr := snd (idr_replace ops (ad_idr ad) (Wdev wdev) (get_key_from_wdev wdev)),
                 ad_nr_devs := ad_nr_devs ad + 1\<rparr>))"

definition alldevs_del :: "('i, 'd slot) idr_ops \<Rightarrow> 'd wdev_entry \<Rightarrow> 'i alldevs \<Rightarrow> 'i alldevs" where
  "alldevs_del ops wdev ad =
     (let key = get_key_from_wdev wdev;
          idr1 = snd (idr_replace ops (ad_idr ad) ALL_WDEVS_PREALLOCED key) in
      ad\<lparr>ad_idr := idr_remove ops idr1 key, ad_nr_devs := ad_nr_devs ad - 1\<rparr>)"

definition alldevs_pop :: "('i, 'd slot) idr_ops \<Rightarrow> 'i alldevs \<Rightarrow> ('d wdev_entry option \<times> 'i alldevs) option" where
  "alldevs_pop ops ad =
     (case idr_get_next ops (ad_idr ad) 0 of
        None \<Rightarrow> Some (None, ad)
      | Some (key, ALL_WDEVS_PREALLOCED) \<Rightarrow> None
      | Some (key, Wdev wdev) \<Rightarrow> Some (Some wdev, alldevs_del ops wdev ad))"

definition alloc_any_minor :: "('i, 'd slot) idr_ops \<Rightarrow> 'i alldevs \<Rightarrow> u32 \<times> 'i alldevs" where
  "alloc_any_minor ops ad =
     (case idr_alloc ops (ad_idr ad) ALL_WDEVS_PREALLOCED 0 ALL_WDEVS_KEY_MAX of
        None \<Rightarrow> (- 1, ad)
      | Some (key, idr1) \<Rightarrow>
          (if key \<ge> ALL_WDEVS_KEY_MAX then - 1 else word_of_nat (key * 2), ad\<lparr>ad_idr := idr1\<rparr>))"

definition alloc_specific_minor :: "('i, 'd slot) idr_ops \<Rightarrow> u32 \<Rightarrow> 'i alldevs \<Rightarrow> u32 \<times> 'i alldevs" where
  "alloc_specific_minor ops minor ad =
     (let key = unat minor div 2 in
      case idr_alloc ops (ad_idr ad) ALL_WDEVS_PREALLOCED key (key + 1) of
        None \<Rightarrow> (- 1, ad)
      | Some (key', idr1) \<Rightarrow> (if key' \<noteq> key then - 1 else word_of_nat (key' * 2), ad\<lparr>ad_idr := idr1\<rparr>))"

definition free_minor :: "('i, 'd slot) idr_ops \<Rightarrow> u32 \<Rightarrow> 'i alldevs \<Rightarrow> 'i alldevs" where
  "free_minor ops minor ad = ad\<lparr>ad_idr := idr_remove ops (ad_idr ad) (unat minor div 2)\<rparr>"

text \<open>Again the mark of a minor must not be met.\<close>

definition alldevs_is_already_used :: "('i, 'd slot) idr_ops \<Rightarrow> u32 \<Rightarrow> 'i alldevs \<Rightarrow> bool option" where
  "alldevs_is_already_used ops devt ad =
     (case idr_entries ops (ad_idr ad) 0 of
        None \<Rightarrow> None
      | Some es \<Rightarrow>
          if list_ex (\<lambda>(k, s). s = ALL_WDEVS_PREALLOCED) es then None
          else Some (list_ex (\<lambda>(k, s). case s of ALL_WDEVS_PREALLOCED \<Rightarrow> False
                 | Wdev w \<Rightarrow> devt = we_ldevt w \<or> devt = we_ddevt w) es))"

section \<open>An idr\<close>

text \<open>Association lists with unique keys.\<close>

definition alist_ops :: "((nat \<times> 'v) list, 'v) idr_ops" where
  "alist_ops = \<lparr>idr_find = map_of,
     idr_get_next = (\<lambda>i k. case sort (filter (\<lambda>j. k \<le> j) (map fst i)) of [] \<Rightarrow> None | j # _ \<Rightarrow> Some (j, the (map_of i j))),
     idr_alloc = (\<lambda>i v st en. case filter (\<lambda>k. map_of i k = None) [st..<en] of [] \<Rightarrow> None | k # _ \<Rightarrow> Some (k, (k, v) # i)),
     idr_replace = (\<lambda>i v k. (map_of i k, if map_of i k = None then i else (k, v) # i)),
     idr_remove = (\<lambda>i k. filter (\<lambda>(j, v). j \<noteq> k) i)\<rparr>"

lemma map_of_remove: "map_of (filter (\<lambda>(j, v). j \<noteq> k) i) = (map_of i)(k := None)"
  by (induction i) (auto simp: fun_eq_iff)

interpretation alist_idr: idr_contract alist_ops map_of
proof
  fix i :: "(nat \<times> 'v) list" and k j v
  show "finite (dom (map_of i))" by (rule finite_dom_map_of)
  show "k \<le> j \<and> map_of i j = Some v \<and> (\<forall>m. k \<le> m \<and> m < j \<longrightarrow> map_of i m = None)"
    if n: "idr_get_next alist_ops i k = Some (j, v)"
  proof -
    let ?l = "sort (filter (\<lambda>j. k \<le> j) (map fst i))"
    obtain js where l: "?l = j # js" "v = the (map_of i j)"
      using n by (cases ?l) (simp_all add: alist_ops_def)
    have set: "set ?l = {m. k \<le> m \<and> map_of i m \<noteq> None}" by (auto simp: map_of_eq_None_iff)
    have "sorted (j # js)" unfolding l(1) [symmetric] by simp
    then have "\<forall>m \<in> set ?l. j \<le> m" unfolding l(1) by auto
    moreover have "j \<in> set ?l" unfolding l(1) by simp
    ultimately show ?thesis unfolding set using l(2) by (auto simp: not_less [symmetric])
  qed
  show "map_of i m = None" if "idr_get_next alist_ops i k = None" "k \<le> m" for m
  proof -
    let ?l = "sort (filter (\<lambda>j. k \<le> j) (map fst i))"
    have "?l = []" using that(1) by (cases ?l) (simp_all add: alist_ops_def)
    then have "set ?l = {}" by simp
    then show ?thesis using that(2) by (auto simp: map_of_eq_None_iff)
  qed
next
  fix i :: "(nat \<times> 'v) list" and v st en k i'
  assume "idr_alloc alist_ops i v st en = Some (k, i')"
  then obtain ks where ks: "filter (\<lambda>k. map_of i k = None) [st..<en] = k # ks" "i' = (k, v) # i"
    by (auto simp: alist_ops_def split: list.splits)
  then have "k \<in> set (filter (\<lambda>k. map_of i k = None) [st..<en])" by simp
  then show "st \<le> k \<and> k < en \<and> map_of i k = None \<and> map_of i' = (map_of i)(k \<mapsto> v)" using ks(2) by auto
qed (auto simp: alist_ops_def map_of_remove)

section \<open>Listing a range\<close>

text \<open>The entries the loop visits: it goes on as long as the key after the last entry is in the range.\<close>

fun listed :: "nat \<Rightarrow> nat \<Rightarrow> (nat \<times> 'a) list \<Rightarrow> (nat \<times> 'a) list" where
  "listed key1 key [] = []"
| "listed key1 key ((k, v) # es) = (if key < key1 then (k, v) # listed key1 (k + 1) es else [])"

fun slot_wdev :: "'d slot \<Rightarrow> 'd wdev_entry" where
  "slot_wdev (Wdev w) = w"
| "slot_wdev ALL_WDEVS_PREALLOCED = undefined"

abbreviation slot_data :: "u32 \<Rightarrow> nat \<times> 'd slot \<Rightarrow> walb_disk_data" where
  "slot_data major e \<equiv> disk_data_of major (slot_wdev (snd e))"

lemma list_loop_listed:
  assumes "idr_contract ops tbl" and "\<forall>k. tbl i k \<noteq> Some ALL_WDEVS_PREALLOCED"
  shows "list_loop ops major i key1 n key = Some (map (slot_data major) (take n (listed key1 key (entries_from (tbl i) key))))"
proof (induction n arbitrary: key)
  case (Suc n)
  show ?case
  proof (cases "idr_get_next ops i key")
    case None
    then show ?thesis by (simp add: idr_contract.entries_end [OF assms(1)])
  next
    case (Some p)
    then obtain k v where p: "idr_get_next ops i key = Some (k, v)" by (cases p) auto
    then obtain w where "v = Wdev w"
      using idr_contract.get_next_Some [OF assms(1) p] assms(2) by (cases v) auto
    then show ?thesis using p Suc [of "k + 1"] by (simp add: idr_contract.entries_next [OF assms(1) p])
  qed
qed simp

lemma listed_ends:
  assumes "key1 \<le> key"
  shows "listed key1 key es = []"
  using assms by (cases es) auto

lemma listed_split:
  assumes "sorted_wrt (\<lambda>x y. fst x < fst y) es"
  shows "\<exists>beyond. listed key1 key es = (if key < key1 then takeWhile (\<lambda>e. fst e < key1) es @ beyond else []) \<and>
    length beyond \<le> 1 \<and> (\<forall>e \<in> set beyond. key1 \<le> fst e)"
  using assms
proof (induction key1 key es rule: listed.induct)
  case (2 key1 key k v es)
  show ?case
  proof (cases "key < key1 \<and> k < key1")
    case True
    from "2.IH" 2(2) True obtain beyond where
      b: "listed key1 (k + 1) es = (if k + 1 < key1 then takeWhile (\<lambda>e. fst e < key1) es @ beyond else [])"
      "length beyond \<le> 1" "\<forall>e \<in> set beyond. key1 \<le> fst e" by auto
    show ?thesis
    proof (cases "k + 1 < key1")
      case True
      then show ?thesis using b \<open>key < key1 \<and> k < key1\<close> by auto
    next
      case False
      then have "takeWhile (\<lambda>e. fst e < key1) es = []"
        using 2(2) \<open>key < key1 \<and> k < key1\<close> by (cases es) auto
      then show ?thesis using b False \<open>key < key1 \<and> k < key1\<close> by (intro exI [of _ "[]"]) auto
    qed
  next
    case False
    then show ?thesis
      using listed_ends [of key1 "k + 1" es]
      by (cases "key < key1") (auto intro: exI [of _ "[(k, v)]"] exI [of _ "[] :: (nat \<times> 'a) list"])
  qed
qed (auto intro: exI [of _ "[]"])

lemma takeWhile_sorted_filter:
  "sorted_wrt (\<lambda>x y. fst x < fst y) es \<Longrightarrow> takeWhile (\<lambda>e. fst e < b) es = filter (\<lambda>e. fst e < (b :: nat)) es"
proof (induction es)
  case (Cons e es)
  show ?case
  proof (cases "fst e < b")
    case False
    then have "filter (\<lambda>e. fst e < b) es = []" using Cons.prems by (auto simp: filter_empty_conv)
    then show ?thesis using False by simp
  qed (use Cons in simp)
qed simp

lemma entries_from_sorted: "sorted_wrt (\<lambda>x y. fst x < fst y) (entries_from m k)"
proof -
  have "sorted_wrt (<) (sorted_list_of_set {j. k \<le> j \<and> m j \<noteq> None})" by simp
  then show ?thesis by (simp add: entries_from_def sorted_wrt_map)
qed

text \<open>
  Listing the devices of a range of minors gives the first \<^verbatim>\<open>n\<close> of: the devices whose keys
  lie in the range, in ascending order, followed by at most one device beyond the range, which
  the loop stores because it only tests the key it starts the search from.
\<close>

theorem list_range_devices:
  assumes "idr_contract ops tbl" and "\<forall>k. tbl (ad_idr ad) k \<noteq> Some ALL_WDEVS_PREALLOCED"
    and "key0 = unat minor0 div 2" and "key1 = unat minor1 div 2" and "key0 < key1"
  shows "\<exists>beyond. get_wdev_list_range ops major ad n minor0 minor1 =
      Some (map (slot_data major) (take n (filter (\<lambda>e. fst e < key1) (entries_from (tbl (ad_idr ad)) key0) @ beyond))) \<and>
    length beyond \<le> 1 \<and> (\<forall>e \<in> set beyond. key1 \<le> fst e)"
proof -
  let ?es = "entries_from (tbl (ad_idr ad)) key0"
  obtain beyond where "listed key1 key0 ?es = takeWhile (\<lambda>e. fst e < key1) ?es @ beyond"
    "length beyond \<le> 1" "\<forall>e \<in> set beyond. key1 \<le> fst e"
    using listed_split [OF entries_from_sorted [of "tbl (ad_idr ad)" key0], of key1 key0] assms(5) by auto
  then show ?thesis
    using list_loop_listed [OF assms(1,2)] assms(3-5)
    by (intro exI [of _ beyond]) (simp add: get_wdev_list_range_def takeWhile_sorted_filter [OF entries_from_sorted] Let_def)
qed

definition demo_entry :: "u32 \<Rightarrow> ram wdev_entry" where
  "demo_entry minor = \<lparr>we_io = demo_io 0, we_minor = minor, we_disk_name = [119, 47, 48 + ucast minor], we_log_disk_name = [],
     we_ldevt = 800 + minor, we_ddevt = 900 + minor, we_n_users = 0, we_log_n_users = 0\<rparr>"

definition demo_alldevs :: "(nat \<times> ram slot) list alldevs" where
  "demo_alldevs = \<lparr>ad_idr = [(5, Wdev (demo_entry 10)), (0, Wdev (demo_entry 0)), (1, Wdev (demo_entry 2))], ad_nr_devs = 3\<rparr>"

theorem list_range_devices_witness:
  "\<exists>beyond. get_wdev_list_range alist_ops 250 demo_alldevs 10 2 6 =
      Some (map (slot_data 250) (take 10 (filter (\<lambda>e. fst e < 3) (entries_from (map_of (ad_idr demo_alldevs)) 1) @ beyond))) \<and>
    length beyond \<le> 1 \<and> (\<forall>e \<in> set beyond. 3 \<le> fst e)"
  by (rule list_range_devices [OF alist_idr.idr_contract_axioms])
    (auto simp: demo_alldevs_def unat_div_distrib)

text \<open>The minors 2 to 5 asked for: the device with minor 10 is listed as well.\<close>

lemma list_range_beyond:
  "get_wdev_list_range alist_ops 250 demo_alldevs 10 2 6 = Some [disk_data_of 250 (demo_entry 2), disk_data_of 250 (demo_entry 10)]"
proof -
  have e: "idr_get_next alist_ops (ad_idr demo_alldevs) 1 = Some (1, Wdev (demo_entry 2))"
    "idr_get_next alist_ops (ad_idr demo_alldevs) 2 = Some (5, Wdev (demo_entry 10))"
    by (simp_all add: alist_ops_def demo_alldevs_def)
  have "list_loop alist_ops 250 (ad_idr demo_alldevs) 3 (Suc n) 6 = Some []" for n by simp
  then have "list_loop alist_ops 250 (ad_idr demo_alldevs) 3 (Suc (Suc n)) 2 = Some [disk_data_of 250 (demo_entry 10)]" for n
    using e(2) by (subst list_loop.simps) simp
  then have "list_loop alist_ops 250 (ad_idr demo_alldevs) 3 (Suc (Suc (Suc n))) 1 =
      Some [disk_data_of 250 (demo_entry 2), disk_data_of 250 (demo_entry 10)]" for n
    using e(1) by (subst list_loop.simps) (simp del: list_loop.simps add: numeral_2_eq_2)
  from this [of 7] show ?thesis by (simp add: get_wdev_list_range_def Let_def)
qed

end
