(* ===== verification/Walb_Start.thy ===== *)
theory Walb_Start
  imports Walb_Alldevs Walb_Redo
begin

text \<open>
  The life of a walb device (\<^verbatim>\<open>module/walb.c\<close>): its parameters, reading the super sector,
  preparing and registering it, opening and closing, finalizing and destroying, and the
  initialization of the IO core (\<^verbatim>\<open>iocore_initialize\<close> in \<^verbatim>\<open>module/io.c\<close>).  The results of kernel
  functions are fields of the argument \<^verbatim>\<open>start_env\<close>.  Queue limits, disks and sysfs entries of
  the kernel are represented by the success of their creation.
\<close>

section \<open>Parameters\<close>

record walb_start_param =
  sp_name :: "u8 list"
  sp_max_pending_mb :: u32
  sp_min_pending_mb :: u32
  sp_queue_stop_timeout_ms :: u32
  sp_max_logpack_kb :: u32
  sp_log_flush_interval_ms :: u32
  sp_log_flush_interval_mb :: u32
  sp_n_pack_bulk :: u32
  sp_n_io_bulk :: u32

definition MAX_PENDING_MB :: u32 where "MAX_PENDING_MB = 16384"

definition is_walb_start_param_valid :: "walb_start_param \<Rightarrow> bool" where
  "is_walb_start_param_valid param =
     (strnlen (sp_name param) DISK_NAME_LEN < DISK_NAME_LEN \<and>
      2 \<le> sp_max_pending_mb param \<and> sp_max_pending_mb param \<le> MAX_PENDING_MB \<and>
      1 \<le> sp_min_pending_mb param \<and> sp_min_pending_mb param < sp_max_pending_mb param \<and>
      1 \<le> sp_queue_stop_timeout_ms param \<and>
      sp_log_flush_interval_mb param * 2 \<le> sp_max_pending_mb param \<and>
      0 < sp_n_pack_bulk param \<and> 0 < sp_n_io_bulk param)"

text \<open>The part of \<^verbatim>\<open>prepare_wdev\<close> that sets the parameters; all products are 32 bits wide.\<close>

definition set_start_params :: "(u32 \<Rightarrow> u64) \<Rightarrow> walb_start_param \<Rightarrow> 'd walb_dev \<Rightarrow> 'd walb_dev" where
  "set_start_params msecs_to_jiffies param wdev =
     (let pbs = ucast (wd_physical_bs wdev) :: u32;
          flush_jiffies = ucast (msecs_to_jiffies (sp_log_flush_interval_ms param)) :: u32 in
      wdev\<lparr>wd_max_logpack_pb := min (sp_max_logpack_kb param * 1024 div pbs) MAX_TOTAL_IO_SIZE_IN_LOGPACK_HEADER,
        wd_log_flush_interval_jiffies := flush_jiffies,
        wd_log_flush_interval_pb :=
          (if flush_jiffies = 0 then 0 else sp_log_flush_interval_mb param * (1024 * 1024 div pbs)),
        wd_max_pending_sectors := sp_max_pending_mb param * 1024 * 1024 div LOGICAL_BLOCK_SIZE,
        wd_min_pending_sectors := sp_min_pending_mb param * 1024 * 1024 div LOGICAL_BLOCK_SIZE,
        wd_queue_stop_timeout_jiffies := ucast (msecs_to_jiffies (sp_queue_stop_timeout_ms param)),
        wd_n_pack_bulk := (if sp_n_pack_bulk param > 0 then sp_n_pack_bulk param else 128),
        wd_n_io_bulk := (if sp_n_io_bulk param > 0 then sp_n_io_bulk param else 1024)\<rparr>)"

section \<open>The IO core\<close>

record core_results =
  ci_mmgr :: bool
  ci_pack_cache :: bool
  ci_bio_entry :: bool
  ci_bio_wrapper :: bool
  ci_pack_work :: bool
  ci_kmalloc :: bool
  ci_overlapped :: bool
  ci_pending :: bool
  ci_jiffies :: u64

text \<open>
  \<^const>\<open>None\<close> is the undefined behaviour of \<^verbatim>\<open>multimap_destroy\<close> on a null pointer in the error
  path; otherwise the result is the data or a failure.
\<close>

definition create_iocore_data :: "core_results \<Rightarrow> iocore_data option option" where
  "create_iocore_data r =
     (if \<not> ci_kmalloc r then Some None
      else case multimap_create (ci_overlapped r) of
        None \<Rightarrow> None
      | Some ol \<Rightarrow>
          (case multimap_create (ci_pending r) of
             None \<Rightarrow> None
           | Some pd \<Rightarrow>
               Some (Some \<lparr>ic_flags = 0, ic_is_frozen_sys = False, ic_is_frozen_usr = False, ic_frozen_queue = [],
                 ic_logpack_submit_queue = [], ic_logpack_wait_queue = [], ic_datapack_submit_queue = [],
                 ic_datapack_wait_queue = [], ic_logpack_gc_queue = [], ic_n_pending_bio = 0, ic_n_started_write_bio = 0,
                 ic_n_pending_gc = 0, ic_overlapped_data = ol, ic_max_sectors_in_overlapped = 0,
                 ic_pending_data = pd, ic_pending_sectors = 0, ic_max_sectors_in_pending = 0,
                 ic_queue_restart_jiffies = ci_jiffies r, ic_log_flush_jiffies = ci_jiffies r\<rparr>)))"

text \<open>The name of the garbage collection worker always fits its buffer.\<close>

definition iocore_initialize :: "core_results \<Rightarrow> iocore_data option option" where
  "iocore_initialize r =
     (if \<not> ci_mmgr r \<or> \<not> ci_pack_cache r \<or> \<not> ci_bio_entry r \<or> \<not> ci_bio_wrapper r \<or> \<not> ci_pack_work r then Some None
      else create_iocore_data r)"

definition wait_for_all_pending_io_done :: "('d io_state \<Rightarrow> 'd io_state) \<Rightarrow> 'd io_state \<Rightarrow> 'd io_state option" where
  "wait_for_all_pending_io_done tasks = poll (\<lambda>s. \<not> ic_n_pending_bio (io_core s) > 0) tasks"

text \<open>\<^verbatim>\<open>flush_all_wq\<close> lets the queued tasks finish.\<close>

definition iocore_flush :: "('d io_state \<Rightarrow> 'd io_state) \<Rightarrow> 'd io_state \<Rightarrow> 'd io_state option" where
  "iocore_flush tasks s = map_option tasks (wait_for_all_pending_io_done tasks s)"

section \<open>The log device\<close>

record 'd start_env =
  se_ops :: "'d block_ops"
  se_alloc :: sync_alloc
  se_tmp_alloc :: sync_alloc
  se_kzalloc :: bool
  se_ldev :: "'d option"
  se_ddev :: "'d option"
  se_msecs :: "u32 \<Rightarrow> u64"
  se_queue :: bool
  se_disk :: bool
  se_log_queue :: bool
  se_log_disk :: bool
  se_discard :: bool
  se_core :: core_results
  se_redo_mem :: bool
  se_log_reads :: "'d \<Rightarrow> u64 \<Rightarrow> redo_block"
  se_header_status :: u8
  se_biows :: biow_store
  se_sysfs :: bool

text \<open>Reads the super sector, writes it back and reads it again into a second sector.\<close>

definition walb_ldev_initialize :: "'d start_env \<Rightarrow> 'd walb_dev \<Rightarrow> (bool \<times> 'd walb_dev) option" where
  "walb_ldev_initialize e wdev =
     (let al = se_alloc e; al2 = se_tmp_alloc e; size = unat (wd_physical_bs wdev); ops = se_ops e in
      case sector_alloc size (sy_malloc al) (sy_buf al) of
        None \<Rightarrow> Some (False, wdev)
      | Some lsuper0 \<Rightarrow>
          (case sector_alloc size (sy_malloc al2) (sy_buf al2) of
             None \<Rightarrow> Some (False, wdev)
           | Some tmp \<Rightarrow>
               (let (ok1, ldev1, s1) = walb_read_super_sector ops (sy_bio al) (wd_ldev wdev) lsuper0 in
                if \<not> ok1 then Some (False, wdev\<lparr>wd_ldev := ldev1\<rparr>)
                else
                  (let (ok2, ldev2, s2) = walb_write_super_sector ops (sy_bio al) ldev1 s1 in
                   if \<not> ok2 then Some (False, wdev\<lparr>wd_ldev := ldev2\<rparr>)
                   else
                     (let (ok3, ldev3, t3) = walb_read_super_sector ops (sy_bio al2) ldev2 tmp;
                          wdev3 = wdev\<lparr>wd_ldev := ldev3, wd_lsuper0 := s2\<rparr> in
                      if \<not> ok3 then Some (False, wdev3)
                      else case is_same_sector s2 t3 of
                        None \<Rightarrow> None
                      | Some same \<Rightarrow>
                          Some (same \<and> ss_physical_bs (get_super_sector s2) = ucast (wd_physical_bs wdev), wdev3))))))"

definition walb_ldev_finalize :: "'d block_ops \<Rightarrow> sync_alloc \<Rightarrow> bool \<Rightarrow> bool \<Rightarrow> 'd walb_dev \<Rightarrow> 'd walb_dev option" where
  "walb_ldev_finalize ops al sync_superblock is_sync wdev =
     map_option snd (walb_finalize_super_block ops al wdev (sync_superblock \<and> is_sync))"

section \<open>Preparing a device\<close>

text \<open>The zeroed structure with both devices opened; fields of \<^verbatim>\<open>kzalloc\<close>ed memory are 0.\<close>

definition fresh_wdev :: "'d block_ops \<Rightarrow> 'd \<Rightarrow> 'd \<Rightarrow> 'd walb_dev" where
  "fresh_wdev ops ldev ddev =
     \<lparr>wd_flags = 0, wd_ldev_size = bo_nr_sects ops ldev, wd_ddev_size = bo_nr_sects ops ddev, wd_size = 0,
      wd_physical_bs = word_of_nat (bo_physical_block_size ops ldev), wd_ldev = ldev, wd_ddev = ddev,
      wd_ldev_chunk_sectors = 0, wd_ddev_chunk_sectors = 0, wd_lsuper0 = \<lparr>sd_size = 0, sd_data = None\<rparr>,
      wd_ring_buffer_off = 0, wd_ring_buffer_size = 0, wd_log_checksum_salt = 0,
      wd_lsids = \<lparr>latest = 0, completed = 0, flush = 0, permanent = 0, written = 0, prev_written = 0, oldest = 0\<rparr>,
      wd_cpd = \<lparr>cp_interval = 0, cp_status = CP_STOPPED, cp_dwork = None\<rparr>, wd_max_logpack_pb = 0,
      wd_log_flush_interval_pb = 0, wd_log_flush_interval_jiffies = 0, wd_max_pending_sectors = 0,
      wd_min_pending_sectors = 0, wd_queue_stop_timeout_jiffies = 0, wd_n_pack_bulk = 0, wd_n_io_bulk = 0,
      wd_support_flush = False, wd_support_fua = False, wd_support_discard = False, wd_freeze_state = FRZ_MELTED,
      wd_freeze_dwork = None, wd_gd_capacity = 0, wd_log_gd_capacity = 0, wd_iocore = blank_iocore\<rparr>"

definition load_super :: "'d walb_dev \<Rightarrow> 'd walb_dev" where
  "load_super wdev =
     (let super = get_super_sector (wd_lsuper0 wdev); w = ss_written_lsid super in
      wdev\<lparr>wd_cpd := init_checkpointing (wd_cpd wdev),
        wd_lsids := \<lparr>latest = w, completed = w, flush = w, permanent = w, written = w, prev_written = w,
          oldest = ss_oldest_lsid super\<rparr>,
        wd_ring_buffer_size := ss_ring_buffer_size super, wd_ring_buffer_off := get_ring_buffer_offset_2 super,
        wd_log_checksum_salt := ss_log_checksum_salt super, wd_size := ss_device_size super\<rparr>)"

definition set_chunks :: "'d block_ops \<Rightarrow> 'd walb_dev \<Rightarrow> 'd walb_dev" where
  "set_chunks ops wdev =
     (let pbs = ucast (wd_physical_bs wdev) in
      wdev\<lparr>wd_ldev_chunk_sectors := set_chunk_sectors pbs (bo_io_min ops (wd_ldev wdev)),
        wd_ddev_chunk_sectors := set_chunk_sectors pbs (bo_io_min ops (wd_ddev wdev))\<rparr>)"

text \<open>The characters of \<^verbatim>\<open>"walb/"\<close> and \<^verbatim>\<open>"walb/L"\<close>.\<close>

definition walb_dir :: "u8 list" where "walb_dir = [119, 97, 108, 98, 47]"

definition walb_prepare_device :: "'d start_env \<Rightarrow> 'd walb_dev \<Rightarrow> u8 list \<Rightarrow> (u8 list \<times> 'd walb_dev) option" where
  "walb_prepare_device e wdev name =
     (if \<not> se_queue e \<or> \<not> se_disk e then None
      else Some (name_field (walb_dir @ name),
        fst (walb_discard_support (fst (walb_decide_flush_support (se_ops e) (wdev\<lparr>wd_gd_capacity := wd_size wdev\<rparr>)))
          (se_discard e))))"

definition walblog_prepare_device :: "'d start_env \<Rightarrow> 'd walb_dev \<Rightarrow> u8 list \<Rightarrow> (u8 list \<times> 'd walb_dev) option" where
  "walblog_prepare_device e wdev name =
     (if \<not> se_log_queue e \<or> \<not> se_log_disk e then None
      else Some (name_field (walb_dir @ [76] @ name), wdev\<lparr>wd_log_gd_capacity := wd_ldev_size wdev\<rparr>))"

definition check_overflow :: "'d start_env \<Rightarrow> 'd walb_dev \<Rightarrow> 'd walb_dev" where
  "check_overflow e wdev =
     (let l = latest (wd_lsids wdev); o' = oldest (wd_lsids wdev) in
      if l - o' > wd_ring_buffer_size wdev then set_wdev_flag WALB_STATE_OVERFLOW wdev
      else if l > o' then
        (let (valid, wdev1) = walb_check_lsid_valid (se_ops e) (se_alloc e) wdev o' in
         if \<not> valid then set_wdev_flag WALB_STATE_OVERFLOW wdev1 else wdev1)
      else wdev)"

text \<open>
  From the super sector to the redo.  The result is \<^const>\<open>None\<close> when redo or the error path of
  the IO core never returns or is undefined, and otherwise a failure or the device with the
  names of both disks, the name written back to the parameters, and the data IOs of the redo.
\<close>

definition prepare_loaded ::
  "'d start_env \<Rightarrow> u32 \<Rightarrow> walb_start_param \<Rightarrow> 'd walb_dev \<Rightarrow>
   ('d walb_dev \<times> u8 list \<times> u8 list \<times> u8 list \<times> redo_io list) option option" where
  "prepare_loaded e minor param wdev =
     (if wd_size wdev > wd_ddev_size wdev then Some None
      else
        (let wdev1 = set_chunks (se_ops e) (set_start_params (se_msecs e) param wdev);
             (ret, wdev2) = walb_set_name wdev1 minor (Some (sp_name param));
             dev_name = takeWhile (\<lambda>c. c \<noteq> 0) (ss_name (get_super_sector (wd_lsuper0 wdev2))) in
         if ret \<noteq> 0 then Some None
         else case walb_prepare_device e wdev2 dev_name of
           None \<Rightarrow> Some None
         | Some (disk_name, wdev3) \<Rightarrow>
             (case walblog_prepare_device e wdev3 dev_name of
                None \<Rightarrow> Some None
              | Some (log_name, wdev4) \<Rightarrow>
                  (case iocore_initialize (se_core e) of
                     None \<Rightarrow> None
                   | Some None \<Rightarrow> Some None
                   | Some (Some ic) \<Rightarrow>
                       (case execute_redo (se_ops e) (se_alloc e) (se_redo_mem e) (se_log_reads e (wd_ldev wdev4))
                               (se_header_status e) (wdev4\<lparr>wd_iocore := ic\<rparr>) of
                          None \<Rightarrow> None
                        | Some (ok, wdev5, ios, hdr) \<Rightarrow>
                            if \<not> ok then Some None
                            else Some (Some (check_overflow e wdev5, disk_name, log_name, name_field dev_name, ios)))))))"

definition prepare_wdev ::
  "'d start_env \<Rightarrow> u32 \<Rightarrow> u32 \<Rightarrow> u32 \<Rightarrow> walb_start_param \<Rightarrow>
   ('d wdev_entry \<times> walb_start_param \<times> redo_io list) option option" where
  "prepare_wdev e minor ldevt ddevt param =
     (if \<not> se_kzalloc e then Some None
      else case se_ldev e of
        None \<Rightarrow> Some None
      | Some ldev \<Rightarrow>
          (case se_ddev e of
             None \<Rightarrow> Some None
           | Some ddev \<Rightarrow>
               if (word_of_nat (bo_physical_block_size (se_ops e) ldev) :: u16) \<noteq>
                  word_of_nat (bo_physical_block_size (se_ops e) ddev) then Some None
               else case walb_ldev_initialize e (fresh_wdev (se_ops e) ldev ddev) of
                 None \<Rightarrow> None
               | Some (ok, wdev0) \<Rightarrow>
                   if \<not> ok then Some None
                   else case prepare_loaded e minor param (load_super wdev0) of
                     None \<Rightarrow> None
                   | Some None \<Rightarrow> Some None
                   | Some (Some (wdev1, disk_name, log_name, name, ios)) \<Rightarrow>
                       Some (Some (\<lparr>we_io = \<lparr>io_dev = wdev1, io_biows = se_biows e, io_ended = [], io_submitted = [], io_tasks = []\<rparr>,
                          we_minor = minor, we_disk_name = disk_name, we_log_disk_name = log_name, we_ldevt = ldevt,
                          we_ddevt = ddevt, we_n_users = 0, we_log_n_users = 0\<rparr>, param\<lparr>sp_name := name\<rparr>, ios))))"

section \<open>The rest of the life of a device\<close>

definition upd_io :: "('d io_state \<Rightarrow> 'd io_state) \<Rightarrow> 'd wdev_entry \<Rightarrow> 'd wdev_entry" where
  "upd_io f w = w\<lparr>we_io := f (we_io w)\<rparr>"

definition register_wdev :: "'d start_env \<Rightarrow> 'd wdev_entry \<Rightarrow> bool \<times> 'd wdev_entry" where
  "register_wdev e w =
     (let w1 = upd_io (upd_cpd (start_checkpointing (se_msecs e))) w in
      if \<not> se_sysfs e then (False, upd_io (upd_cpd stop_checkpointing) w1) else (True, w1))"

definition unregister_wdev :: "'d wdev_entry \<Rightarrow> 'd wdev_entry" where
  "unregister_wdev w = upd_io (upd_cpd stop_checkpointing) w"

definition finalize_wdev ::
  "'d block_ops \<Rightarrow> sync_alloc \<Rightarrow> (u32 \<Rightarrow> u64) \<Rightarrow> ('d io_state \<Rightarrow> 'd io_state) \<Rightarrow> bool \<Rightarrow> 'd wdev_entry \<Rightarrow> 'd wdev_entry option" where
  "finalize_wdev ops al msecs_to_jiffies tasks sync_superblock w =
     (let s1 = upd_dev (set_wdev_flag WALB_STATE_FINALIZE) (we_io w);
          (ok, s2) = melt_if_frozen msecs_to_jiffies False s1 in
      case iocore_flush tasks s2 of
        None \<Rightarrow> None
      | Some s3 \<Rightarrow>
          map_option (\<lambda>wdev. w\<lparr>we_io := s3\<lparr>io_dev := wdev\<rparr>\<rparr>) (walb_ldev_finalize ops al sync_superblock True (io_dev s3)))"

text \<open>The wait of \<^verbatim>\<open>destroy_wdev\<close> until the last user has closed the device.\<close>

definition destroy_wait :: "('d wdev_entry \<Rightarrow> 'd wdev_entry) \<Rightarrow> 'd wdev_entry \<Rightarrow> 'd wdev_entry option" where
  "destroy_wait users w = poll (\<lambda>w. \<not> we_n_users w > 0) users w"

definition walb_open :: "'d wdev_entry \<Rightarrow> int \<times> 'd wdev_entry" where
  "walb_open w = (0, w\<lparr>we_n_users := we_n_users w + 1\<rparr>)"

definition walb_release :: "'d wdev_entry \<Rightarrow> 'd wdev_entry" where
  "walb_release w = w\<lparr>we_n_users := we_n_users w - 1\<rparr>"

definition walblog_open :: "'d wdev_entry \<Rightarrow> int \<times> 'd wdev_entry" where
  "walblog_open w = (0, w\<lparr>we_log_n_users := we_log_n_users w + 1\<rparr>)"

definition walblog_release :: "'d wdev_entry \<Rightarrow> 'd wdev_entry" where
  "walblog_release w = w\<lparr>we_log_n_users := we_log_n_users w - 1\<rparr>"

text \<open>
  The block device ioctls; the argument in user space is a geometry, the version or a control
  structure, and \<^verbatim>\<open>put_ok\<close> says whether copying the answer there succeeds.
\<close>

datatype walb_cmd = HDIO_GETGEO | WALB_IOCTL_VERSION | WALB_IOCTL_WDEV walb_ctl | Other_cmd

datatype walb_answer = No_answer | Geometry hd_geometry | Version u32 | Control walb_ctl

definition walb_ioctl ::
  "u32 \<Rightarrow> bool \<Rightarrow> ctl_results \<Rightarrow> 'd ioctl_env \<Rightarrow> walb_cmd \<Rightarrow> 'd io_state \<Rightarrow> (int \<times> walb_answer \<times> 'd io_state) option" where
  "walb_ioctl version put_ok r e cmd s =
     (case cmd of
        HDIO_GETGEO \<Rightarrow>
          if \<not> put_ok then Some (- EFAULT, No_answer, s) else Some (0, Geometry (set_geometry (wd_ddev_size (io_dev s))), s)
      | WALB_IOCTL_VERSION \<Rightarrow>
          if \<not> put_ok then Some (- EFAULT, No_answer, s) else Some (0, Version version, s)
      | WALB_IOCTL_WDEV ctl \<Rightarrow> map_option (\<lambda>(ret, ctl1, s1). (ret, Control ctl1, s1)) (walb_dispatch_ioctl_wdev r e ctl s)
      | Other_cmd \<Rightarrow> Some (- ENOTTY, No_answer, s))"

definition walblog_ioctl :: "bool \<Rightarrow> walb_cmd \<Rightarrow> 'd walb_dev \<Rightarrow> int \<times> walb_answer" where
  "walblog_ioctl put_ok cmd wdev =
     (case cmd of
        HDIO_GETGEO \<Rightarrow> if \<not> put_ok then (- EFAULT, No_answer) else (0, Geometry (set_geometry (wd_ldev_size wdev)))
      | _ \<Rightarrow> (- ENOTTY, No_answer))"

section \<open>The limits of pending data\<close>

lemma mb_sectors:
  assumes "unat (mb :: u32) < 4096"
  shows "unat (mb * 1024 * 1024 div LOGICAL_BLOCK_SIZE) = 2048 * unat mb"
proof -
  have "unat (mb * 1024) = unat mb * 1024" using assms by (subst unat_mult_nowrap) simp_all
  then have "unat (mb * 1024 * 1024) = unat mb * 1048576" using assms by (subst unat_mult_nowrap) simp_all
  then show ?thesis by (simp add: unat_div_distrib LOGICAL_BLOCK_SIZE_def)
qed

text \<open>
  C28. For valid parameters with a limit below 4096 megabytes, the limits of pending data in
  sectors are exact and in order, so that a stopped queue can be restarted.
\<close>

theorem start_limits_exact:
  assumes "is_walb_start_param_valid param" and "unat (sp_max_pending_mb param) < 4096"
  shows "unat (wd_max_pending_sectors (set_start_params m param wdev)) = 2048 * unat (sp_max_pending_mb param) \<and>
    unat (wd_min_pending_sectors (set_start_params m param wdev)) = 2048 * unat (sp_min_pending_mb param) \<and>
    0 < wd_min_pending_sectors (set_start_params m param wdev) \<and>
    wd_min_pending_sectors (set_start_params m param wdev) < wd_max_pending_sectors (set_start_params m param wdev)"
proof -
  have p: "0 < unat (sp_min_pending_mb param)" "unat (sp_min_pending_mb param) < unat (sp_max_pending_mb param)"
    using assms(1) by (auto simp: is_walb_start_param_valid_def word_le_nat_alt word_less_nat_alt)
  then show ?thesis
    using mb_sectors [OF assms(2)] mb_sectors [of "sp_min_pending_mb param"] assms(2)
    by (simp add: set_start_params_def Let_def word_less_nat_alt)
qed

definition demo_param :: "u32 \<Rightarrow> walb_start_param" where
  "demo_param mb = \<lparr>sp_name = [119, 48] @ replicate 30 0, sp_max_pending_mb = mb, sp_min_pending_mb = 1, sp_queue_stop_timeout_ms = 100,
     sp_max_logpack_kb = 32, sp_log_flush_interval_ms = 100, sp_log_flush_interval_mb = 1, sp_n_pack_bulk = 128,
     sp_n_io_bulk = 1024\<rparr>"

lemma demo_param_valid: "2 \<le> mb \<Longrightarrow> mb \<le> 16384 \<Longrightarrow> is_walb_start_param_valid (demo_param mb)"
  by (auto simp: is_walb_start_param_valid_def demo_param_def MAX_PENDING_MB_def strnlen_def DISK_NAME_LEN_def
      word_le_nat_alt word_less_nat_alt)

theorem start_limits_exact_witness:
  "unat (wd_max_pending_sectors (set_start_params ucast (demo_param 32) demo_wdev)) = 2048 * unat (sp_max_pending_mb (demo_param 32)) \<and>
    unat (wd_min_pending_sectors (set_start_params ucast (demo_param 32) demo_wdev)) = 2048 * unat (sp_min_pending_mb (demo_param 32)) \<and>
    0 < wd_min_pending_sectors (set_start_params ucast (demo_param 32) demo_wdev) \<and>
    wd_min_pending_sectors (set_start_params ucast (demo_param 32) demo_wdev) <
      wd_max_pending_sectors (set_start_params ucast (demo_param 32) demo_wdev)"
  by (rule start_limits_exact [OF demo_param_valid]) (simp_all add: demo_param_def)

text \<open>
  From 4096 megabytes on, which the check of the parameters admits, the product wraps: the
  limit is 0 and lies below the restart limit.
\<close>

lemma pending_limit_wraps:
  "is_walb_start_param_valid (demo_param 4096)"
  "wd_max_pending_sectors (set_start_params m (demo_param 4096) wdev) = 0"
  "wd_min_pending_sectors (set_start_params m (demo_param 4096) wdev) = 2048"
proof -
  show "is_walb_start_param_valid (demo_param 4096)" by (rule demo_param_valid) simp_all
  have "(4294967296 :: u32) div LOGICAL_BLOCK_SIZE = 0" by code_simp
  then show "wd_max_pending_sectors (set_start_params m (demo_param 4096) wdev) = 0"
    by (simp add: set_start_params_def demo_param_def Let_def)
  show "wd_min_pending_sectors (set_start_params m (demo_param 4096) wdev) = 2048"
    by (simp add: set_start_params_def demo_param_def Let_def LOGICAL_BLOCK_SIZE_def)
qed

section \<open>A prepared device\<close>

lemma execute_redo_lsids:
  assumes "execute_redo ops al mem ldev hst wdev = Some (True, wdev', ios, hdr)"
  shows "\<exists>l. wd_lsids wdev' = \<lparr>latest = l, completed = l, flush = l, permanent = l, written = l, prev_written = l,
      oldest = oldest (wd_lsids wdev)\<rparr>"
    "wd_size wdev' = wd_size wdev \<and> wd_ddev_size wdev' = wd_ddev_size wdev \<and> wd_freeze_state wdev' = wd_freeze_state wdev \<and>
     wd_iocore wdev' = wd_iocore wdev \<and> wd_cpd wdev' = wd_cpd wdev \<and> wd_flags wdev' = wd_flags wdev \<and>
     wd_max_pending_sectors wdev' = wd_max_pending_sectors wdev \<and> wd_min_pending_sectors wdev' = wd_min_pending_sectors wdev \<and>
     wd_ring_buffer_size wdev' = wd_ring_buffer_size wdev"
proof -
  obtain l where "walb_sync_super_block ops al (wdev\<lparr>wd_lsids := (wd_lsids wdev)\<lparr>prev_written := l, written := l, completed := l,
      permanent := l, flush := l, latest := l\<rparr>\<rparr>) = Some (True, wdev')"
    using assms by (auto simp: execute_redo_def Let_def split: if_splits option.splits)
  note s = this
  show "\<exists>l. wd_lsids wdev' = \<lparr>latest = l, completed = l, flush = l, permanent = l, written = l, prev_written = l,
      oldest = oldest (wd_lsids wdev)\<rparr>"
    using s by (cases "wd_lsids wdev")
      (auto simp: walb_sync_super_block_def Let_def split: if_splits option.splits prod.splits)
  show "wd_size wdev' = wd_size wdev \<and> wd_ddev_size wdev' = wd_ddev_size wdev \<and> wd_freeze_state wdev' = wd_freeze_state wdev \<and>
     wd_iocore wdev' = wd_iocore wdev \<and> wd_cpd wdev' = wd_cpd wdev \<and> wd_flags wdev' = wd_flags wdev \<and>
     wd_max_pending_sectors wdev' = wd_max_pending_sectors wdev \<and> wd_min_pending_sectors wdev' = wd_min_pending_sectors wdev \<and>
     wd_ring_buffer_size wdev' = wd_ring_buffer_size wdev"
    using s by (auto simp: walb_sync_super_block_def Let_def split: if_splits option.splits prod.splits)
qed

lemma check_overflow_fields:
  "wd_lsids (check_overflow e wdev) = wd_lsids wdev" "wd_freeze_state (check_overflow e wdev) = wd_freeze_state wdev"
  "wd_iocore (check_overflow e wdev) = wd_iocore wdev" "wd_cpd (check_overflow e wdev) = wd_cpd wdev"
  "wd_size (check_overflow e wdev) = wd_size wdev" "wd_ddev_size (check_overflow e wdev) = wd_ddev_size wdev"
  "wd_ring_buffer_size (check_overflow e wdev) = wd_ring_buffer_size wdev"
  "latest (wd_lsids wdev) - oldest (wd_lsids wdev) > wd_ring_buffer_size wdev \<Longrightarrow>
     test_bit_u64 WALB_STATE_OVERFLOW (wd_flags (check_overflow e wdev))"
proof -
  obtain valid wdev1 where c: "walb_check_lsid_valid (se_ops e) (se_alloc e) wdev (oldest (wd_lsids wdev)) = (valid, wdev1)"
    by fastforce
  then obtain ldev where "wdev1 = wdev\<lparr>wd_ldev := ldev\<rparr>"
    using check_lsid_valid_dev [of "se_ops e" "se_alloc e" wdev "oldest (wd_lsids wdev)"] by auto
  then show "wd_lsids (check_overflow e wdev) = wd_lsids wdev" "wd_freeze_state (check_overflow e wdev) = wd_freeze_state wdev"
    "wd_iocore (check_overflow e wdev) = wd_iocore wdev" "wd_cpd (check_overflow e wdev) = wd_cpd wdev"
    "wd_size (check_overflow e wdev) = wd_size wdev" "wd_ddev_size (check_overflow e wdev) = wd_ddev_size wdev"
    "wd_ring_buffer_size (check_overflow e wdev) = wd_ring_buffer_size wdev"
    using c by (simp_all add: check_overflow_def Let_def set_wdev_flag_def)
  show "latest (wd_lsids wdev) - oldest (wd_lsids wdev) > wd_ring_buffer_size wdev \<Longrightarrow>
      test_bit_u64 WALB_STATE_OVERFLOW (wd_flags (check_overflow e wdev))"
    by (simp add: check_overflow_def set_wdev_flag_def Let_def walb_state_defs)
qed

lemma set_name_fields:
  "wd_lsids (snd (walb_set_name w minor nm)) = wd_lsids w" "wd_freeze_state (snd (walb_set_name w minor nm)) = wd_freeze_state w"
  "wd_cpd (snd (walb_set_name w minor nm)) = wd_cpd w" "wd_size (snd (walb_set_name w minor nm)) = wd_size w"
  "wd_ddev_size (snd (walb_set_name w minor nm)) = wd_ddev_size w"
  by (simp_all add: walb_set_name_def Let_def)

lemma create_iocore_blank:
  assumes "create_iocore_data r = Some (Some ic)"
  shows "\<not> is_frozen ic" "ic_frozen_queue ic = []" "ic_logpack_submit_queue ic = []" "ic_n_pending_bio ic = 0"
    "ic_n_started_write_bio ic = 0" "ic_n_pending_gc ic = 0" "ic_pending_sectors ic = 0"
  using assms by (auto simp: create_iocore_data_def is_frozen_def split: if_splits option.splits)

lemma prepare_device_fields:
  assumes "walb_prepare_device e w nm = Some (dn, w')"
  shows "wd_lsids w' = wd_lsids w" "wd_freeze_state w' = wd_freeze_state w" "wd_cpd w' = wd_cpd w"
    "wd_size w' = wd_size w" "wd_ddev_size w' = wd_ddev_size w"
  using assms
  by (auto simp: walb_prepare_device_def walb_discard_support_def walb_decide_flush_support_def Let_def split: if_splits)

text \<open>
  C27. A device that was prepared successfully is ready: its lsids are in order, with all of them
  but the oldest at the end of the redone log, when the super sector's lsids are in order; the
  IO core is empty and not frozen; checkpointing is stopped; the device is not larger than the
  data device; and a log that is larger than the ring buffer is marked as overflown.
\<close>

theorem prepared_device_ready:
  assumes "prepare_wdev e minor ldevt ddevt param = Some (Some (w, param', ios))"
  shows "\<exists>wdev l. wdev = io_dev (we_io w) \<and> wd_size wdev \<le> wd_ddev_size wdev \<and> wd_freeze_state wdev = FRZ_MELTED \<and>
    cp_status (wd_cpd wdev) = CP_STOPPED \<and> \<not> is_frozen (wd_iocore wdev) \<and> ic_n_pending_bio (wd_iocore wdev) = 0 \<and>
    ic_logpack_submit_queue (wd_iocore wdev) = [] \<and>
    wd_lsids wdev = \<lparr>latest = l, completed = l, flush = l, permanent = l, written = l, prev_written = l,
      oldest = oldest (wd_lsids wdev)\<rparr> \<and>
    (oldest (wd_lsids wdev) \<le> l \<longrightarrow> lsid_set_is_valid (wd_lsids wdev)) \<and>
    (l - oldest (wd_lsids wdev) > wd_ring_buffer_size wdev \<longrightarrow> test_bit_u64 WALB_STATE_OVERFLOW (wd_flags wdev))"
proof -
  obtain ldev ddev wdev0 wdev1 dn ln nm where
    i: "walb_ldev_initialize e (fresh_wdev (se_ops e) ldev ddev) = Some (True, wdev0)"
    and p: "prepare_loaded e minor param (load_super wdev0) = Some (Some (wdev1, dn, ln, nm, ios))"
    and w: "io_dev (we_io w) = wdev1"
    using assms by (auto simp: prepare_wdev_def split: if_splits option.splits prod.splits)
  let ?w1 = "set_chunks (se_ops e) (set_start_params (se_msecs e) param (load_super wdev0))"
  let ?w2 = "snd (walb_set_name ?w1 minor (Some (sp_name param)))"
  obtain w3 w4 ic w5 hdr where
    size: "\<not> wd_size (load_super wdev0) > wd_ddev_size (load_super wdev0)"
    and w3: "walb_prepare_device e ?w2 (takeWhile (\<lambda>c. c \<noteq> 0) (ss_name (get_super_sector (wd_lsuper0 ?w2)))) = Some (dn, w3)"
    and w4: "w4 = w3\<lparr>wd_log_gd_capacity := wd_ldev_size w3\<rparr>"
    and ic: "create_iocore_data (se_core e) = Some (Some ic)"
    and redo: "execute_redo (se_ops e) (se_alloc e) (se_redo_mem e) (se_log_reads e (wd_ldev w4)) (se_header_status e)
        (w4\<lparr>wd_iocore := ic\<rparr>) = Some (True, w5, ios, hdr)"
    and wdev1: "wdev1 = check_overflow e w5"
    using p unfolding prepare_loaded_def Let_def
    by (fastforce simp: walblog_prepare_device_def iocore_initialize_def split: if_splits option.splits prod.splits)
  have frz: "wd_freeze_state wdev0 = FRZ_MELTED"
    using i by (auto simp: walb_ldev_initialize_def fresh_wdev_def Let_def split: option.splits prod.splits if_splits)
  obtain l where l: "wd_lsids w5 = \<lparr>latest = l, completed = l, flush = l, permanent = l, written = l, prev_written = l,
      oldest = oldest (wd_lsids w4)\<rparr>"
    using execute_redo_lsids(1) [OF redo] by auto
  note f5 = execute_redo_lsids(2) [OF redo] and f3 = prepare_device_fields [OF w3] and fo = check_overflow_fields [where e = e and wdev = w5]
  have f4: "wd_size w5 \<le> wd_ddev_size w5" "wd_freeze_state w5 = FRZ_MELTED" "wd_iocore w5 = ic"
      "cp_status (wd_cpd w5) = CP_STOPPED"
    using f5 f3 w4 size frz
    by (simp_all add: set_name_fields set_chunks_def set_start_params_def load_super_def Let_def init_checkpointing_def not_less)
  show ?thesis
    unfolding w wdev1
    using l f4 fo create_iocore_blank [OF ic] by (intro exI [of _ "check_overflow e w5"] exI [of _ l]) (auto simp: lsid_set_is_valid_def)
qed

section \<open>A device that starts\<close>

text \<open>
  On devices that read back what was written, a log device with a well-formed super sector of
  the right block size passes the initial check.
\<close>

definition super_good :: "sector_data \<Rightarrow> bool" where
  "super_good s \<longleftrightarrow> sector_wf s \<and> sd_size s = 512 \<and> ss_version (get_super_sector s) = WALB_LOG_VERSION \<and>
     strnlen (ss_name (get_super_sector s)) DISK_NAME_LEN < DISK_NAME_LEN"

lemma ram_write_super:
  assumes "super_good s"
  shows "walb_write_super_sector (ram_ops\<lparr>bo_nr_sects := f\<rparr>) True d s =
    (True, d(addr_lb 512 (get_super_sector0_offset 512) := sector_bytes (sealed_super s)), sealed_super s)"
  using assms
  by (simp add: write_super_sector_eq sector_io_def ram_ops_def super_good_def Let_def)

lemma super_good_sealed:
  assumes "super_good s"
  shows "super_good (sealed_super s)"
    "\<exists>c. get_super_sector (sealed_super s) = (get_super_sector s)\<lparr>ss_sector_type := SECTOR_TYPE_SUPER, ss_checksum := c\<rparr>"
    "checksum (sector_bytes (sealed_super s)) 512 0 = 0"
proof -
  have s: "length (sector_bytes s) = sd_size s" "104 \<le> sd_size s" "4 dvd sd_size s"
    using assms by (simp_all add: super_good_def sector_wf_length)
  note ok = sealed_super_ok [OF s]
  show "\<exists>c. get_super_sector (sealed_super s) = (get_super_sector s)\<lparr>ss_sector_type := SECTOR_TYPE_SUPER, ss_checksum := c\<rparr>"
    by (rule ok(4))
  show "checksum (sector_bytes (sealed_super s)) 512 0 = 0" using ok(1) assms by (simp add: super_good_def)
  have "sector_wf (sealed_super s)"
    using ok(2,3) assms by (auto simp: sector_wf_def super_good_def sealed_super_def put_super_sector_def sector_bytes_def Let_def)
  then show "super_good (sealed_super s)" using assms ok(3,4) by (auto simp: super_good_def)
qed

lemma ram_read_super:
  assumes "super_good s" "sd_size t = 512"
    and "d (addr_lb 512 (get_super_sector0_offset 512)) = sector_bytes (sealed_super s)"
  shows "walb_read_super_sector (ram_ops\<lparr>bo_nr_sects := f\<rparr>) True d t =
    (True, d, t\<lparr>sd_data := Some (sector_bytes (sealed_super s))\<rparr>)"
proof -
  obtain c where c: "get_super_sector (sealed_super s) = (get_super_sector s)\<lparr>ss_sector_type := SECTOR_TYPE_SUPER, ss_checksum := c\<rparr>"
    using super_good_sealed(2) [OF assms(1)] by auto
  have "get_super_sector (t\<lparr>sd_data := Some (sector_bytes (sealed_super s))\<rparr>) = get_super_sector (sealed_super s)"
    by (simp add: get_super_sector_def sector_bytes_def)
  then show ?thesis
    using assms super_good_sealed(3) [OF assms(1)] c
    by (simp add: walb_read_super_sector_def sector_io_def ram_ops_def Let_def super_good_def) (simp add: sector_bytes_def)
qed

lemma super_good_data: "super_good s \<Longrightarrow> super_good \<lparr>sd_size = 512, sd_data = Some (sector_bytes s)\<rparr>"
  by (auto simp: super_good_def sector_wf_def get_super_sector_def sector_bytes_def)

definition demo_senv :: "ram \<Rightarrow> ram start_env" where
  "demo_senv ldev = \<lparr>se_ops = ram_ops\<lparr>bo_nr_sects := (\<lambda>_. 2000000)\<rparr>, se_alloc = demo_alloc, se_tmp_alloc = demo_alloc,
     se_kzalloc = True, se_ldev = Some ldev, se_ddev = Some (\<lambda>_. []), se_msecs = ucast, se_queue = True, se_disk = True,
     se_log_queue = True, se_log_disk = True, se_discard = True,
     se_core = \<lparr>ci_mmgr = True, ci_pack_cache = True, ci_bio_entry = True, ci_bio_wrapper = True, ci_pack_work = True,
       ci_kmalloc = True, ci_overlapped = True, ci_pending = True, ci_jiffies = 7\<rparr>,
     se_redo_mem = True, se_log_reads = (\<lambda>_ _. \<lparr>rb_status = 0, rb_data = replicate 512 0\<rparr>), se_header_status = 0,
     se_biows = (\<lambda>_. demo_write 0 8), se_sysfs = True\<rparr>"

lemma ldev_initialize_good:
  assumes "super_good s" "ss_physical_bs (get_super_sector s) = 512" "wd_physical_bs wdev = 512"
    and "wd_ldev wdev (addr_lb 512 (get_super_sector0_offset 512)) = sector_bytes (sealed_super s)"
  shows "\<exists>d s2. walb_ldev_initialize (demo_senv x) wdev = Some (True, wdev\<lparr>wd_ldev := d, wd_lsuper0 := s2\<rparr>) \<and>
    super_good s2 \<and> (\<exists>c. get_super_sector s2 = (get_super_sector s)\<lparr>ss_sector_type := SECTOR_TYPE_SUPER, ss_checksum := c\<rparr>)"
proof -
  let ?a = "addr_lb 512 (get_super_sector0_offset 512)" and ?d = "wd_ldev wdev"
  let ?s1 = "\<lparr>sd_size = 512, sd_data = Some (sector_bytes (sealed_super s))\<rparr>"
  note g1 = super_good_data [OF super_good_sealed(1) [OF assms(1)]]
  note g2 = super_good_sealed [OF g1]
  have alloc: "sector_alloc 512 (sy_malloc demo_alloc) (sy_buf demo_alloc) = Some \<lparr>sd_size = 512, sd_data = Some (replicate 512 7)\<rparr>"
    "sy_bio demo_alloc" by (simp_all add: sector_alloc_def demo_alloc_def)
  have r1: "walb_read_super_sector (ram_ops\<lparr>bo_nr_sects := (\<lambda>_. 2000000)\<rparr>) True ?d \<lparr>sd_size = 512, sd_data = Some (replicate 512 7)\<rparr> =
      (True, ?d, ?s1)" using ram_read_super [OF assms(1), of _ ?d] assms(4) by simp
  note w = ram_write_super [OF g1, of "\<lambda>_. 2000000" ?d]
  have r2: "walb_read_super_sector (ram_ops\<lparr>bo_nr_sects := (\<lambda>_. 2000000)\<rparr>) True (?d(?a := sector_bytes (sealed_super ?s1)))
      \<lparr>sd_size = 512, sd_data = Some (replicate 512 7)\<rparr> =
      (True, ?d(?a := sector_bytes (sealed_super ?s1)), \<lparr>sd_size = 512, sd_data = Some (sector_bytes (sealed_super ?s1))\<rparr>)"
    using ram_read_super [OF g1, of _ "?d(?a := sector_bytes (sealed_super ?s1))"] by simp
  have same: "is_same_sector (sealed_super ?s1) \<lparr>sd_size = 512, sd_data = Some (sector_bytes (sealed_super ?s1))\<rparr> = Some True"
    using is_same_sector_ok g2(1) super_good_data [OF g2(1)] by (simp add: super_good_def sector_bytes_def)
  have "get_super_sector ?s1 = get_super_sector (sealed_super s)" by (simp add: get_super_sector_def sector_bytes_def)
  then obtain c where c: "get_super_sector (sealed_super ?s1) =
      (get_super_sector s)\<lparr>ss_sector_type := SECTOR_TYPE_SUPER, ss_checksum := c\<rparr>"
    using super_good_sealed(2) [OF assms(1)] g2(2) by auto
  have "walb_ldev_initialize (demo_senv x) wdev =
      Some (True, wdev\<lparr>wd_ldev := ?d(?a := sector_bytes (sealed_super ?s1)), wd_lsuper0 := sealed_super ?s1\<rparr>)"
    using assms(2,3) alloc c r1 w r2 same by (simp add: walb_ldev_initialize_def demo_senv_def Let_def)
  then show ?thesis using g2(1) c by blast
qed

lemma redo_empty_log:
  assumes "is_valid_pbs (wdev_pbs wdev)" "65536 \<le> unat (wd_ring_buffer_size wdev)"
    and "\<And>off. ldev off = \<lparr>rb_status = 0, rb_data = replicate 512 0\<rparr>"
    and "walb_sync_super_block ops al (wdev\<lparr>wd_lsids := (wd_lsids wdev)\<lparr>prev_written := l, written := l, completed := l,
      permanent := l, flush := l, latest := l\<rparr>\<rparr>) = Some (True, wdev')" "l = written (wd_lsids wdev)"
  shows "\<exists>ios. execute_redo ops al True ldev hst wdev = Some (True, wdev', ios, None)"
proof -
  have "le_word (replicate 2 0) = (0 :: u16)" by code_simp
  then have "lh_sector_type (logpack_header_of_bytes (replicate 512 0)) = 0"
    by (simp add: logpack_header_of_bytes_def Let_def)
  then have "log_ends ldev wdev l"
    by (simp add: log_ends_def create_log_bio_wrapper_for_redo_def assms(3) is_valid_logpack_header_with_checksum_def
        is_valid_logpack_header_def SECTOR_TYPE_LOGPACK_def Let_def)
  moreover have "log_stored ldev wdev l [] l" by simp
  ultimately obtain ios where "redo_loop ops ldev wdev hst l [] (create_redo_data l) =
      Some \<lparr>ru_failed = False, ru_ios = ios, ru_leaked = 0, ru_written = l, ru_header = None\<rparr>"
    using redo_loop_stored [OF assms(1,2) _ _ queue_at_create, of ldev l "[]" l ops hst "[]"] by auto
  then show ?thesis using assms(4,5) by (intro exI [of _ ios]) (simp add: execute_redo_def Let_def)
qed

lemma super_good_name:
  assumes "super_good s" "wd_lsuper0 w = s"
  shows "super_good (wd_lsuper0 (snd (walb_set_name w minor nm)))"
proof -
  have len: "length (sector_bytes s) = 512" using assms(1) sector_wf_length by (auto simp: super_good_def)
  then have l: "104 \<le> length (sector_bytes (wd_lsuper0 w))" using assms(2) by simp
  let ?ss = "get_super_sector s"
  have wf: "super_wf ?ss" using get_super_sector_wf [of s] len by simp
  obtain dn where dn: "wd_lsuper0 (snd (walb_set_name w minor nm)) = put_super_sector (?ss\<lparr>ss_name := dn\<rparr>) s" "length dn = DISK_NAME_LEN"
    using wf assms(2) name_field_terminated(2) by (simp add: walb_set_name_def Let_def super_wf_def)
  have wf': "super_wf (?ss\<lparr>ss_name := dn\<rparr>)" using wf dn(2) by (simp add: super_wf_def)
  note put = put_super_sector [OF wf', of s]
  have "sector_wf (put_super_sector (?ss\<lparr>ss_name := dn\<rparr>) s)"
    using put(2) len assms(1) by (auto simp: sector_wf_def super_good_def put_super_sector_def sector_bytes_def)
  moreover have "strnlen (ss_name (get_super_sector (wd_lsuper0 (snd (walb_set_name w minor nm))))) DISK_NAME_LEN < DISK_NAME_LEN"
    by (rule walb_set_name_terminated [OF l])
  ultimately show ?thesis using put(3,4) len assms(1) dn(1) by (simp add: super_good_def)
qed

definition demo_log :: ram where
  "demo_log = (\<lambda>_. replicate 512 0)(addr_lb 512 (get_super_sector0_offset 512) := sector_bytes (sealed_super demo_lsuper))"

lemma demo_lsuper_good: "super_good demo_lsuper" "get_super_sector demo_lsuper = demo_super\<lparr>ss_physical_bs := 512\<rparr>"
proof -
  show g: "get_super_sector demo_lsuper = demo_super\<lparr>ss_physical_bs := 512\<rparr>"
    unfolding get_super_sector_def demo_lsuper_def sector_bytes_def
    using demo_super_wf by (simp add: super_sector_of_bytes_def super_sector_bytes_def le_word_le_bytes super_wf_def
        demo_super_def UUID_SIZE_def DISK_NAME_LEN_def)
  show "super_good demo_lsuper"
    using demo_wdev_ok by (simp add: wdev_super_ok_def super_good_def demo_wdev_def)
qed

lemma demo_redo:
  assumes "super_good (wd_lsuper0 w)" "wd_physical_bs w = 512" "wd_flags w = 0" "wd_ring_buffer_size w = 100000"
  shows "\<exists>w' ios. execute_redo (se_ops (demo_senv x)) demo_alloc True (se_log_reads (demo_senv x) d) 0 w = Some (True, w', ios, None)"
proof -
  let ?l = "written (wd_lsids w)"
  let ?w = "w\<lparr>wd_lsids := (wd_lsids w)\<lparr>prev_written := ?l, written := ?l, completed := ?l, permanent := ?l, flush := ?l, latest := ?l\<rparr>\<rparr>"
  have pbs: "is_valid_pbs 512" by (simp add: is_valid_pbs_unat)
  have "wdev_super_ok ?w" using assms(1,2) pbs by (simp add: wdev_super_ok_def super_good_def)
  moreover have "\<not> is_read_only ?w" "wd_physical_bs ?w = 512" using assms by (simp_all add: is_read_only_def)
  ultimately obtain w' where "walb_sync_super_block (se_ops (demo_senv x)) demo_alloc ?w = Some (True, w')"
    using ram_sync [of ?w "\<lambda>_. 2000000"] by (auto simp: demo_senv_def)
  then have "\<exists>ios. execute_redo (se_ops (demo_senv x)) demo_alloc True (se_log_reads (demo_senv x) d) 0 w = Some (True, w', ios, None)"
    using assms(2,4) pbs by (intro redo_empty_log) (simp_all add: wdev_pbs_def demo_senv_def)
  then show ?thesis by blast
qed

lemma demo_prepare_loaded:
  assumes "super_good (wd_lsuper0 w)" "wd_physical_bs w = 512" "wd_flags w = 0" "wd_ring_buffer_size w = 100000"
    and "wd_size w \<le> wd_ddev_size w"
  shows "\<exists>r. prepare_loaded (demo_senv x) minor (demo_param 32) w = Some (Some r)"
proof -
  let ?e = "demo_senv x" and ?p = "demo_param 32"
  let ?w1 = "set_chunks (se_ops ?e) (set_start_params (se_msecs ?e) ?p w)"
  obtain ret w2 where n: "walb_set_name ?w1 minor (Some (sp_name ?p)) = (ret, w2)" by fastforce
  have "strnlen (name_field ([119, 48] @ replicate 30 0)) DISK_NAME_LEN \<le> WALB_DEV_NAME_MAX_LEN" by code_simp
  then have ret: "ret = 0" using n by (auto simp: walb_set_name_def demo_param_def Let_def)
  have w2: "super_good (wd_lsuper0 w2)"
    using super_good_name [OF assms(1), of ?w1 minor "Some (sp_name ?p)"] n by (simp add: set_chunks_def set_start_params_def Let_def)
  have f2: "wd_physical_bs w2 = 512" "wd_flags w2 = 0" "wd_ring_buffer_size w2 = 100000"
    using n assms by (auto simp: walb_set_name_def set_chunks_def set_start_params_def Let_def)
  let ?n = "takeWhile (\<lambda>c. c \<noteq> 0) (ss_name (get_super_sector (wd_lsuper0 w2)))"
  obtain dn w3 where w3: "walb_prepare_device ?e w2 ?n = Some (dn, w3)" by (simp add: walb_prepare_device_def demo_senv_def)
  then have f3: "super_good (wd_lsuper0 w3)" "wd_physical_bs w3 = 512" "wd_flags w3 = 0" "wd_ring_buffer_size w3 = 100000"
    using w2 f2 by (auto simp: walb_prepare_device_def walb_discard_support_def walb_decide_flush_support_def Let_def split: if_splits)
  obtain ic where ic: "iocore_initialize (se_core ?e) = Some (Some ic)"
    by (simp add: iocore_initialize_def create_iocore_data_def demo_senv_def multimap_create_def)
  let ?w4 = "w3\<lparr>wd_log_gd_capacity := wd_ldev_size w3, wd_iocore := ic\<rparr>"
  obtain w5 ios where r: "execute_redo (se_ops ?e) demo_alloc True (se_log_reads ?e (wd_ldev w3)) 0 ?w4 = Some (True, w5, ios, None)"
    using demo_redo [of ?w4 x "wd_ldev w3"] f3 by auto
  have al: "se_alloc ?e = demo_alloc" "se_redo_mem ?e" "se_header_status ?e = 0" by (simp_all add: demo_senv_def)
  have "walblog_prepare_device ?e w3 ?n = Some (name_field (walb_dir @ [76] @ ?n), w3\<lparr>wd_log_gd_capacity := wd_ldev_size w3\<rparr>)"
    by (simp add: walblog_prepare_device_def demo_senv_def)
  then show ?thesis
    using assms(5) n ret w3 ic r al by (simp add: prepare_loaded_def Let_def not_less [symmetric])
qed

lemma demo_prepare: "\<exists>w p ios. prepare_wdev (demo_senv demo_log) 4 800 900 (demo_param 32) = Some (Some (w, p, ios))"
proof -
  let ?e = "demo_senv demo_log"
  let ?f = "fresh_wdev (se_ops ?e) demo_log (\<lambda>_. [])"
  have f: "wd_physical_bs ?f = 512" "wd_ldev ?f = demo_log" "wd_flags ?f = 0" "wd_ddev_size ?f = 2000000"
    by (simp_all add: fresh_wdev_def demo_senv_def ram_ops_def)
  obtain d s2 c where i: "walb_ldev_initialize ?e ?f = Some (True, ?f\<lparr>wd_ldev := d, wd_lsuper0 := s2\<rparr>)" "super_good s2"
    "get_super_sector s2 = (get_super_sector demo_lsuper)\<lparr>ss_sector_type := SECTOR_TYPE_SUPER, ss_checksum := c\<rparr>"
    using ldev_initialize_good [OF demo_lsuper_good(1) _ f(1), of demo_log] f(2) demo_lsuper_good(2) by (auto simp: demo_log_def)
  let ?w = "load_super (?f\<lparr>wd_ldev := d, wd_lsuper0 := s2\<rparr>)"
  have "\<exists>r. prepare_loaded ?e 4 (demo_param 32) ?w = Some (Some r)"
    using i(2,3) f demo_lsuper_good(2) by (intro demo_prepare_loaded) (simp_all add: load_super_def Let_def demo_super_def)
  moreover have "se_kzalloc ?e" "se_ldev ?e = Some demo_log" "se_ddev ?e = Some (\<lambda>_. [])"
    "bo_physical_block_size (se_ops ?e) a = 512" for a by (simp_all add: demo_senv_def ram_ops_def)
  ultimately show ?thesis using i(1) by (auto simp: prepare_wdev_def)
qed

theorem prepared_device_ready_witness:
  "\<exists>w p ios wdev l. prepare_wdev (demo_senv demo_log) 4 800 900 (demo_param 32) = Some (Some (w, p, ios)) \<and>
    wdev = io_dev (we_io w) \<and> wd_freeze_state wdev = FRZ_MELTED \<and> \<not> is_frozen (wd_iocore wdev) \<and>
    wd_lsids wdev = \<lparr>latest = l, completed = l, flush = l, permanent = l, written = l, prev_written = l,
      oldest = oldest (wd_lsids wdev)\<rparr>"
proof -
  obtain w p ios where "prepare_wdev (demo_senv demo_log) 4 800 900 (demo_param 32) = Some (Some (w, p, ios))"
    using demo_prepare by blast
  with prepared_device_ready [OF this] show ?thesis by blast
qed

end
