(* ===== verification/Walb_Control.thy ===== *)
theory Walb_Control
  imports Walb_Start
begin

text \<open>
  The control device (\<^verbatim>\<open>module/control.c\<close>): starting, stopping and listing walb devices, the
  dispatch of its ioctls, and the end of the module (\<^verbatim>\<open>walb_exit\<close> in \<^verbatim>\<open>module/walb.c\<close>).  Every
  handler runs under the lock of the device list where the code takes it.  A device in the
  list and the pointer a handler holds are the same object, so what a handler does to the
  device is stored back under its key.
\<close>

section \<open>The structures in the buffers\<close>

definition SIZEOF_START_PARAM :: u64 where "SIZEOF_START_PARAM = 64"
definition SIZEOF_DISK_DATA :: nat where "SIZEOF_DISK_DATA = 40"

definition start_param_of_bytes :: "u8 list \<Rightarrow> walb_start_param" where
  "start_param_of_bytes b =
     (let f = (\<lambda>i. le_word (take 4 (drop (32 + 4 * i) b)) :: u32) in
      \<lparr>sp_name = take 32 b, sp_max_pending_mb = f 0, sp_min_pending_mb = f 1, sp_queue_stop_timeout_ms = f 2,
       sp_max_logpack_kb = f 3, sp_log_flush_interval_ms = f 4, sp_log_flush_interval_mb = f 5, sp_n_pack_bulk = f 6,
       sp_n_io_bulk = f 7\<rparr>)"

definition start_param_bytes :: "walb_start_param \<Rightarrow> u8 list" where
  "start_param_bytes p =
     sp_name p @ le_bytes 4 (sp_max_pending_mb p) @ le_bytes 4 (sp_min_pending_mb p) @ le_bytes 4 (sp_queue_stop_timeout_ms p) @
     le_bytes 4 (sp_max_logpack_kb p) @ le_bytes 4 (sp_log_flush_interval_ms p) @ le_bytes 4 (sp_log_flush_interval_mb p) @
     le_bytes 4 (sp_n_pack_bulk p) @ le_bytes 4 (sp_n_io_bulk p)"

definition disk_data_bytes :: "walb_disk_data \<Rightarrow> u8 list" where
  "disk_data_bytes d = dd_name d @ le_bytes 4 (dd_major d) @ le_bytes 4 (dd_minor d)"

definition MKDEV :: "u32 \<Rightarrow> u32 \<Rightarrow> u32" where
  "MKDEV ma mi = (push_bit 20 ma OR mi)"

definition WALB_DYNAMIC_MINOR :: u32 where "WALB_DYNAMIC_MINOR = - 1"

section \<open>Handlers\<close>

text \<open>What the handlers find around them; \<^verbatim>\<open>ce_users\<close> is what users do to a device while it is waited for.\<close>

record 'd control_env =
  ce_start :: "'d start_env"
  ce_tasks :: "'d io_state \<Rightarrow> 'd io_state"
  ce_sync_superblock :: bool
  ce_users :: "'d wdev_entry \<Rightarrow> 'd wdev_entry"
  ce_major :: u32

definition finalize_and_destroy :: "'d control_env \<Rightarrow> 'd wdev_entry \<Rightarrow> bool option" where
  "finalize_and_destroy e w =
     (case finalize_wdev (se_ops (ce_start e)) (se_alloc (ce_start e)) (se_msecs (ce_start e)) (ce_tasks e)
             (ce_sync_superblock e) w of
        None \<Rightarrow> None
      | Some w1 \<Rightarrow> map_option (\<lambda>_. True) (destroy_wait (ce_users e) w1))"

definition store_wdev :: "('i, 'd slot) idr_ops \<Rightarrow> 'd wdev_entry \<Rightarrow> 'i alldevs \<Rightarrow> 'i alldevs" where
  "store_wdev ops w ad = ad\<lparr>ad_idr := snd (idr_replace ops (ad_idr ad) (Wdev w) (get_key_from_wdev w))\<rparr>"

type_synonym ('i, 'd) control = "('i, 'd slot) idr_ops \<Rightarrow> 'd control_env \<Rightarrow> walb_ctl \<Rightarrow> 'i alldevs \<Rightarrow>
  (int \<times> walb_ctl \<times> 'i alldevs) option"

abbreviation fail_ctl :: "int \<Rightarrow> walb_ctl \<Rightarrow> 'i alldevs \<Rightarrow> (int \<times> walb_ctl \<times> 'i alldevs) option" where
  "fail_ctl err ctl ad \<equiv> Some (- EFAULT, ctl\<lparr>ctl_error := err\<rparr>, ad)"

text \<open>From the allocated minor on, and from the prepared device on.\<close>

definition start_prepared ::
  "('i, 'd slot) idr_ops \<Rightarrow> 'd control_env \<Rightarrow> walb_ctl \<Rightarrow> u32 \<Rightarrow> 'd wdev_entry \<Rightarrow> walb_start_param \<Rightarrow> 'i alldevs \<Rightarrow>
   (int \<times> walb_ctl \<times> 'i alldevs) option" where
  "start_prepared ops e ctl wminor w param ad =
     (case alldevs_add ops w ad of
        None \<Rightarrow> None
      | Some (False, ad1) \<Rightarrow>
          Option.bind (finalize_and_destroy e w) (\<lambda>_. fail_ctl (- 7) ctl (free_minor ops wminor ad1))
      | Some (True, ad1) \<Rightarrow>
          (let (ok, w1) = register_wdev (ce_start e) w in
           if \<not> ok then
             Option.bind (finalize_and_destroy e w1) (\<lambda>_. fail_ctl (- 8) ctl (alldevs_del ops w1 ad1))
           else Some (0, ctl\<lparr>ctl_error := 0, ctl_k2u := (ctl_k2u ctl)\<lparr>cd_wmajor := ce_major e, cd_wminor := wminor,
                  cd_kbuf := Some (start_param_bytes param)\<rparr>\<rparr>, store_wdev ops w1 ad1)))"

definition start_with_minor ::
  "('i, 'd slot) idr_ops \<Rightarrow> 'd control_env \<Rightarrow> walb_ctl \<Rightarrow> u32 \<Rightarrow> u32 \<Rightarrow> walb_start_param \<Rightarrow> u32 \<Rightarrow> 'i alldevs \<Rightarrow>
   (int \<times> walb_ctl \<times> 'i alldevs) option" where
  "start_with_minor ops e ctl ldevt ddevt param0 wminor ad =
     (if wminor \<ge> push_bit MINORBITS 1 then Some (- EFAULT, ctl, free_minor ops wminor ad)
      else case prepare_wdev (ce_start e) wminor ldevt ddevt param0 of
        None \<Rightarrow> None
      | Some None \<Rightarrow> fail_ctl (- 6) ctl (free_minor ops wminor ad)
      | Some (Some (w, param, ios)) \<Rightarrow> start_prepared ops e ctl wminor w param ad)"

definition ioctl_start_dev :: "('i, 'd) control" where
  "ioctl_start_dev ops e ctl ad =
     (let u2k = ctl_u2k ctl; k2u = ctl_k2u ctl;
          ldevt = MKDEV (cd_lmajor u2k) (cd_lminor u2k); ddevt = MKDEV (cd_dmajor u2k) (cd_dminor u2k) in
      if cd_buf_size u2k \<noteq> SIZEOF_START_PARAM then fail_ctl (- 1) ctl ad
      else if cd_buf_size k2u \<noteq> SIZEOF_START_PARAM then fail_ctl (- 2) ctl ad
      else case cd_kbuf u2k of
        None \<Rightarrow> None
      | Some b \<Rightarrow>
          (let param0 = start_param_of_bytes b in
           if \<not> is_walb_start_param_valid param0 then fail_ctl (- 3) ctl ad
           else case alldevs_is_already_used ops ldevt ad of
             None \<Rightarrow> None
           | Some True \<Rightarrow> fail_ctl (- 4) ctl ad
           | Some False \<Rightarrow>
               (case alldevs_is_already_used ops ddevt ad of
                  None \<Rightarrow> None
                | Some True \<Rightarrow> fail_ctl (- 5) ctl ad
                | Some False \<Rightarrow>
                    (let (wminor, ad1) = (if cd_wminor u2k = WALB_DYNAMIC_MINOR then alloc_any_minor ops ad
                                          else alloc_specific_minor ops (cd_wminor u2k) ad) in
                     start_with_minor ops e ctl ldevt ddevt param0 wminor ad1))))"

text \<open>A device still in use at the end of \<^verbatim>\<open>finalize_wdev\<close> is destroyed by a work later on.\<close>

definition ioctl_stop_dev :: "('i, 'd) control" where
  "ioctl_stop_dev ops e ctl ad =
     (let wminor = cd_wminor (ctl_u2k ctl); force = ctl_val_int ctl \<noteq> 0 in
      if cd_wmajor (ctl_u2k ctl) \<noteq> ce_major e then Some (- EFAULT, ctl, ad)
      else case search_wdev_with_minor ops ad wminor of
        None \<Rightarrow> fail_ctl (- 1) ctl ad
      | Some ALL_WDEVS_PREALLOCED \<Rightarrow> None
      | Some (Wdev w) \<Rightarrow>
          if \<not> force \<and> we_n_users w > 0 then Some (- EBUSY, ctl\<lparr>ctl_error := - 2\<rparr>, ad)
          else
            (let w1 = unregister_wdev w; ad1 = alldevs_del ops w1 ad in
             map_option (\<lambda>w2. (0, ctl\<lparr>ctl_error := 0\<rparr>, ad1))
               (finalize_wdev (se_ops (ce_start e)) (se_alloc (ce_start e)) (se_msecs (ce_start e)) (ce_tasks e)
                  (ce_sync_superblock e) w1)))"

definition ioctl_get_major :: "('i, 'd) control" where
  "ioctl_get_major ops e ctl ad =
     Some (0, ctl\<lparr>ctl_k2u := (ctl_k2u ctl)\<lparr>cd_wmajor := ce_major e\<rparr>, ctl_error := 0\<rparr>, ad)"

definition ioctl_list_dev :: "('i, 'd) control" where
  "ioctl_list_dev ops e ctl ad =
     (let u2k = ctl_u2k ctl; k2u = ctl_k2u ctl in
      if cd_buf_size u2k < 8 then Some (- EFAULT, ctl, ad)
      else case cd_kbuf u2k of
        None \<Rightarrow> None
      | Some b \<Rightarrow>
          (let minor0 = le_word (take 4 b) :: u32; minor1 = le_word (take 4 (drop 4 b)) in
           if minor0 \<ge> minor1 then Some (- EFAULT, ctl, ad)
           else
             (let n = (if cd_kbuf k2u \<noteq> None then unat (cd_buf_size k2u) div SIZEOF_DISK_DATA else 4294967295) in
              map_option (\<lambda>ds. (0, ctl\<lparr>ctl_val_int := int (length ds),
                 ctl_k2u := k2u\<lparr>cd_kbuf := map_option (\<lambda>kb. overwrite 0 (concat (map disk_data_bytes ds)) kb) (cd_kbuf k2u)\<rparr>\<rparr>, ad))
                (get_wdev_list_range ops (ce_major e) ad n minor0 minor1))))"

definition ioctl_num_of_dev :: "('i, 'd) control" where
  "ioctl_num_of_dev ops e ctl ad = Some (0, ctl\<lparr>ctl_val_int := sint (get_n_devices ad)\<rparr>, ad)"

definition dispatch_ioctl :: "('i, 'd) control" where
  "dispatch_ioctl ops e ctl ad =
     (if ctl_command ctl = WALB_IOCTL_START_DEV then ioctl_start_dev ops e ctl ad
      else if ctl_command ctl = WALB_IOCTL_STOP_DEV then ioctl_stop_dev ops e ctl ad
      else if ctl_command ctl = WALB_IOCTL_GET_MAJOR then ioctl_get_major ops e ctl ad
      else if ctl_command ctl = WALB_IOCTL_LIST_DEV then ioctl_list_dev ops e ctl ad
      else if ctl_command ctl = WALB_IOCTL_NUM_OF_DEV then ioctl_num_of_dev ops e ctl ad
      else Some (- ENOTTY, ctl, ad))"

definition ctl_ioctl :: "ctl_results \<Rightarrow> bool \<Rightarrow> ('i, 'd) control" where
  "ctl_ioctl r is_control ops e user ad =
     (if \<not> is_control then Some (- ENOTTY, user, ad)
      else case walb_get_ctl r user of
        None \<Rightarrow> Some (- EFAULT, user, ad)
      | Some ctl \<Rightarrow>
          map_option (\<lambda>(ret, ctl1, ad1). let (put, user1) = walb_put_ctl r user ctl1 in
             (if put \<noteq> 0 then - EFAULT else ret, user1, ad1))
            (dispatch_ioctl ops e ctl ad))"

text \<open>The devices stopped when the module is unloaded.\<close>

partial_function (option) walb_exit_loop ::
  "('i, 'd slot) idr_ops \<Rightarrow> 'd control_env \<Rightarrow> 'i alldevs \<Rightarrow> 'i alldevs option" where
  "walb_exit_loop ops e ad =
     (case alldevs_pop ops ad of
        None \<Rightarrow> None
      | Some (None, ad1) \<Rightarrow> Some ad1
      | Some (Some w, ad1) \<Rightarrow>
          (case finalize_and_destroy e (unregister_wdev w) of
             None \<Rightarrow> None
           | Some _ \<Rightarrow> walb_exit_loop ops e ad1))"

section \<open>The list of devices stays consistent\<close>

text \<open>
  Outside of the lock every entry is a device under the key of its minor, the count is right,
  and no two devices share a name, a log device or a data device.
\<close>

definition devices_inv :: "(nat \<Rightarrow> 'd slot option) \<Rightarrow> int \<Rightarrow> bool" where
  "devices_inv m n \<longleftrightarrow>
     (\<forall>k s. m k = Some s \<longrightarrow> k < ALL_WDEVS_KEY_MAX \<and> (\<exists>w. s = Wdev w \<and> unat (we_minor w) = 2 * k)) \<and>
     n = int (card (dom m)) \<and>
     (\<forall>k k' w w'. m k = Some (Wdev w) \<and> m k' = Some (Wdev w') \<and> k \<noteq> k' \<longrightarrow>
        disk_cstr (we_disk_name w) \<noteq> disk_cstr (we_disk_name w') \<and>
        {we_ldevt w, we_ddevt w} \<inter> {we_ldevt w', we_ddevt w'} = {})"

definition dev_used :: "(nat \<Rightarrow> 'd slot option) \<Rightarrow> u32 \<Rightarrow> bool" where
  "dev_used m devt \<longleftrightarrow> (\<exists>k w. m k = Some (Wdev w) \<and> (devt = we_ldevt w \<or> devt = we_ddevt w))"

lemma prepare_wdev_entry:
  assumes "prepare_wdev e minor ldevt ddevt param = Some (Some (w, param', ios))"
  shows "we_minor w = minor" "we_ldevt w = ldevt" "we_ddevt w = ddevt"
  using assms by (auto simp: prepare_wdev_def split: if_splits option.splits prod.splits)

context idr_contract
begin

lemma list_ex_entries: "list_ex (\<lambda>(k, s). P s) (entries_from (tbl i) 0) \<longleftrightarrow> (\<exists>k s. tbl i k = Some s \<and> P s)"
  using entries_from_set [of i 0] by (auto simp: list_ex_iff)

end

lemma slot_ex:
  "(\<exists>k s. m k = Some s \<and> (case s of ALL_WDEVS_PREALLOCED \<Rightarrow> False | Wdev w \<Rightarrow> P w)) \<longleftrightarrow> (\<exists>k w. m k = Some (Wdev w) \<and> P w)"
proof
  assume "\<exists>k s. m k = Some s \<and> (case s of ALL_WDEVS_PREALLOCED \<Rightarrow> False | Wdev w \<Rightarrow> P w)"
  then obtain k s where "m k = Some s" "case s of ALL_WDEVS_PREALLOCED \<Rightarrow> False | Wdev w \<Rightarrow> P w" by blast
  then show "\<exists>k w. m k = Some (Wdev w) \<and> P w" by (cases s) auto
next
  assume "\<exists>k w. m k = Some (Wdev w) \<and> P w"
  then obtain k w where "m k = Some (Wdev w)" "P w" by blast
  then show "\<exists>k s. m k = Some s \<and> (case s of ALL_WDEVS_PREALLOCED \<Rightarrow> False | Wdev w \<Rightarrow> P w)"
    by (intro exI [of _ k] exI [of _ "Wdev w"]) simp
qed

lemma already_used_iff:
  assumes "idr_contract ops tbl" "devices_inv (tbl (ad_idr ad)) n"
  shows "alldevs_is_already_used ops devt ad = Some (dev_used (tbl (ad_idr ad)) devt)"
proof -
  let ?m = "tbl (ad_idr ad)"
  have es: "idr_entries ops (ad_idr ad) 0 = Some (entries_from ?m 0)" by (rule idr_contract.idr_entries_sorted [OF assms(1)])
  note ex = idr_contract.list_ex_entries [OF assms(1), of _ "ad_idr ad"]
  have "\<not> (\<exists>k s. ?m k = Some s \<and> s = ALL_WDEVS_PREALLOCED)" using assms(2) by (fastforce simp: devices_inv_def)
  then show ?thesis
    unfolding alldevs_is_already_used_def es option.case ex [of "\<lambda>s. s = ALL_WDEVS_PREALLOCED"]
      ex [of "\<lambda>s. case s of ALL_WDEVS_PREALLOCED \<Rightarrow> False | Wdev w \<Rightarrow> devt = we_ldevt w \<or> devt = we_ddevt w"] slot_ex dev_used_def
    by simp
qed

lemma alldevs_add_cases:
  assumes "idr_contract ops tbl" "tbl (ad_idr ad) = m(k \<mapsto> ALL_WDEVS_PREALLOCED)" "m k = None" "get_key_from_wdev w = k"
    and "alldevs_add ops w ad = Some (ok, ad')"
  shows "if ok then tbl (ad_idr ad') = m(k \<mapsto> Wdev w) \<and> ad_nr_devs ad' = ad_nr_devs ad + 1 \<and>
      (\<forall>k' w'. m k' = Some (Wdev w') \<longrightarrow> disk_cstr (we_disk_name w') \<noteq> disk_cstr (we_disk_name w)) else ad' = ad"
proof -
  let ?m = "tbl (ad_idr ad)"
  have es: "idr_entries ops (ad_idr ad) 0 = Some (entries_from ?m 0)" by (rule idr_contract.idr_entries_sorted [OF assms(1)])
  note ex = idr_contract.list_ex_entries [OF assms(1), of _ "ad_idr ad"]
  have rep: "tbl (snd (idr_replace ops (ad_idr ad) (Wdev w) k)) = m(k \<mapsto> Wdev w)"
    using idr_contract.replace_tbl [OF assms(1), of "ad_idr ad" k] assms(2) by simp
  have "(\<exists>k' w'. ?m k' = Some (Wdev w') \<and> P w') \<longleftrightarrow> (\<exists>k' w'. m k' = Some (Wdev w') \<and> P w')" for P
    using assms(2,3) by (metis fun_upd_apply option.distinct(1) option.inject slot.distinct(1))
  then show ?thesis
    using assms(4,5) rep
    unfolding alldevs_add_def es option.case ex [of "\<lambda>s. case s of ALL_WDEVS_PREALLOCED \<Rightarrow> False
      | Wdev w' \<Rightarrow> disk_cstr (we_disk_name w') = disk_cstr (we_disk_name w)"] slot_ex
    by (auto split: if_splits)
qed

lemma alldevs_del_tbl:
  assumes "idr_contract ops tbl" "tbl (ad_idr ad) k = Some s" "get_key_from_wdev w = k"
  shows "tbl (ad_idr (alldevs_del ops w ad)) = (tbl (ad_idr ad))(k := None)" "ad_nr_devs (alldevs_del ops w ad) = ad_nr_devs ad - 1"
  using idr_contract.replace_tbl [OF assms(1,2)] idr_contract.remove_tbl [OF assms(1)] assms(3)
  by (simp_all add: alldevs_del_def Let_def)

lemma devices_inv_add:
  assumes "devices_inv m n" "m k = None" "k < ALL_WDEVS_KEY_MAX" "unat (we_minor w) = 2 * k" "finite (dom m)"
    and "\<forall>k' w'. m k' = Some (Wdev w') \<longrightarrow> disk_cstr (we_disk_name w') \<noteq> disk_cstr (we_disk_name w)"
    and "\<not> dev_used m (we_ldevt w)" "\<not> dev_used m (we_ddevt w)"
  shows "devices_inv (m(k \<mapsto> Wdev w)) (n + 1)"
proof -
  have "card (dom (m(k \<mapsto> Wdev w))) = card (dom m) + 1"
    using assms(2,5) by (simp add: domIff card_insert_disjoint)
  moreover have "disk_cstr (we_disk_name w1) \<noteq> disk_cstr (we_disk_name w2) \<and> {we_ldevt w1, we_ddevt w1} \<inter> {we_ldevt w2, we_ddevt w2} = {}"
    if kk: "(m(k \<mapsto> Wdev w)) k1 = Some (Wdev w1)" "(m(k \<mapsto> Wdev w)) k2 = Some (Wdev w2)" "k1 \<noteq> k2" for k1 k2 w1 w2
  proof (cases "k1 = k \<or> k2 = k")
    case False
    then show ?thesis using assms(1) kk unfolding devices_inv_def by (metis fun_upd_other)
  next
    case True
    then obtain w' k' where "m k' = Some (Wdev w')" "w1 = w \<and> w2 = w' \<or> w1 = w' \<and> w2 = w"
      using kk by (auto split: if_splits)
    then show ?thesis using assms(6-8) unfolding dev_used_def by auto metis+
  qed
  moreover have "\<forall>k' s. (m(k \<mapsto> Wdev w)) k' = Some s \<longrightarrow> k' < ALL_WDEVS_KEY_MAX \<and> (\<exists>w. s = Wdev w \<and> unat (we_minor w) = 2 * k')"
    using assms(1,3,4) by (auto simp: devices_inv_def)
  moreover have "n = int (card (dom m))" using assms(1) by (simp add: devices_inv_def)
  ultimately show ?thesis unfolding devices_inv_def by (intro conjI) (simp, simp, blast)
qed

lemma devices_inv_del:
  assumes "devices_inv m n" "m k = Some s" "finite (dom m)"
  shows "devices_inv (m(k := None)) (n - 1)"
proof -
  have "dom (m(k := None)) = dom m - {k}" by auto
  then have "int (card (dom (m(k := None)))) = int (card (dom m)) - 1"
    using assms(2) card_Suc_Diff1 [OF assms(3), of k] by (simp add: domI)
  then show ?thesis using assms(1) unfolding devices_inv_def by (auto split: if_splits)
qed


section \<open>Starting and stopping\<close>

lemma alloc_minor_cases:
  assumes "idr_contract ops tbl"
    and "(if dyn then alloc_any_minor ops ad else alloc_specific_minor ops minor ad) = (wminor, ad1)"
  shows "ad_nr_devs ad1 = ad_nr_devs ad \<and>
    (ad1 = ad \<and> wminor = - 1 \<or>
     (\<exists>k. tbl (ad_idr ad) k = None \<and> tbl (ad_idr ad1) = (tbl (ad_idr ad))(k \<mapsto> ALL_WDEVS_PREALLOCED) \<and> unat wminor = 2 * k))"
proof -
  note alloc = idr_contract.alloc_Some [OF assms(1)]
  have any: "unat (word_of_nat (key * 2) :: u32) = 2 * key" if "key < ALL_WDEVS_KEY_MAX" for key
    using that by (simp add: unat_of_nat take_bit_nat_eq_self ALL_WDEVS_KEY_MAX_def MINORBITS_def del: of_nat_mult)
  have "unat minor div 2 * 2 < 2 ^ 32" using unsigned_less [of minor, where 'a = nat] by simp
  then have spec: "unat (word_of_nat (unat minor div 2 * 2) :: u32) = 2 * (unat minor div 2)"
    by (simp add: unat_of_nat take_bit_nat_eq_self del: of_nat_mult)
  show ?thesis
  proof (cases dyn)
    case True
    then show ?thesis using assms(2) alloc [of "ad_idr ad" ALL_WDEVS_PREALLOCED 0 ALL_WDEVS_KEY_MAX] any
      by (fastforce simp: alloc_any_minor_def split: option.splits if_splits)
  next
    case False
    then show ?thesis
      using assms(2) alloc [of "ad_idr ad" ALL_WDEVS_PREALLOCED "unat minor div 2" "unat minor div 2 + 1"] spec
      by (fastforce simp: alloc_specific_minor_def Let_def split: option.splits if_splits)
  qed
qed

lemma register_wdev_entry:
  assumes "register_wdev e w = (ok, w1)"
  shows "we_minor w1 = we_minor w" "we_ldevt w1 = we_ldevt w" "we_ddevt w1 = we_ddevt w" "we_disk_name w1 = we_disk_name w"
  using assms by (auto simp: register_wdev_def upd_io_def Let_def split: if_splits)

lemma free_minor_tbl:
  assumes "idr_contract ops tbl"
  shows "tbl (ad_idr (free_minor ops minor ad)) = (tbl (ad_idr ad))(unat minor div 2 := None)"
    "ad_nr_devs (free_minor ops minor ad) = ad_nr_devs ad"
  using idr_contract.remove_tbl [OF assms] by (simp_all add: free_minor_def)

text \<open>What a handler may do to the list.\<close>

definition control_outcome :: "(nat \<Rightarrow> 'd slot option) \<Rightarrow> int \<Rightarrow> int \<Rightarrow> (nat \<Rightarrow> 'd slot option) \<Rightarrow> int \<Rightarrow> bool" where
  "control_outcome m n ret m' n' \<longleftrightarrow> devices_inv m' n' \<and> (ret \<noteq> 0 \<longrightarrow> m' = m \<and> n' = n)"

lemma start_prepared_outcome:
  assumes c: "idr_contract ops tbl" and inv: "devices_inv m n" "finite (dom m)" and k: "m k = None" "k < ALL_WDEVS_KEY_MAX"
    and ad: "tbl (ad_idr ad) = m(k \<mapsto> ALL_WDEVS_PREALLOCED)" "ad_nr_devs ad = n"
    and w: "unat (we_minor w) = 2 * k" "unat wminor = 2 * k" "\<not> dev_used m (we_ldevt w)" "\<not> dev_used m (we_ddevt w)"
    and r: "start_prepared ops e ctl wminor w param ad = Some (ret, ctl', ad')"
  shows "control_outcome m n ret (tbl (ad_idr ad')) (ad_nr_devs ad')"
proof -
  have key: "get_key_from_wdev w = k" using w(1) by (simp add: get_key_from_wdev_def)
  obtain ok ad1 where a: "alldevs_add ops w ad = Some (ok, ad1)"
    using r by (auto simp: start_prepared_def split: option.splits)
  note add = alldevs_add_cases [OF c ad(1) k(1) key a]
  obtain reg w1 where reg: "register_wdev (ce_start e) w = (reg, w1)" by fastforce
  note ent = register_wdev_entry [OF reg]
  have key1: "get_key_from_wdev w1 = k" using key ent(1) by (simp add: get_key_from_wdev_def)
  have undo: "m(k := None) = m" using k(1) by auto
  show ?thesis
  proof (cases ok)
    case False
    then have "ad' = free_minor ops wminor ad" "ret = - EFAULT"
      using r a add by (auto simp: start_prepared_def bind_eq_Some_conv)
    then show ?thesis using free_minor_tbl [OF c, of wminor ad] ad w(2) undo inv(1)
      by (simp add: control_outcome_def)
  next
    case True
    have t1: "tbl (ad_idr ad1) = m(k \<mapsto> Wdev w)" "ad_nr_devs ad1 = n + 1" using add True ad(2) by simp_all
    show ?thesis
    proof (cases reg)
      case False
      then have "ad' = alldevs_del ops w1 ad1" "ret = - EFAULT"
        using r a True reg by (auto simp: start_prepared_def bind_eq_Some_conv)
      then show ?thesis using alldevs_del_tbl [OF c _ key1, of ad1 "Wdev w"] t1 undo inv(1)
        by (simp add: control_outcome_def)
    next
      case reg: True
      then have "ad' = store_wdev ops w1 ad1" "ret = 0"
        using r a True \<open>register_wdev (ce_start e) w = (reg, w1)\<close> by (auto simp: start_prepared_def)
      then have "tbl (ad_idr ad') = m(k \<mapsto> Wdev w1)" "ad_nr_devs ad' = n + 1"
        using idr_contract.replace_tbl [OF c, of "ad_idr ad1" k "Wdev w"] t1 key1 by (simp_all add: store_wdev_def)
      moreover have "devices_inv (m(k \<mapsto> Wdev w1)) (n + 1)"
        by (rule devices_inv_add) (use inv k w ent add True in auto)
      ultimately show ?thesis using \<open>ret = 0\<close> by (simp add: control_outcome_def)
    qed
  qed
qed

lemma start_with_minor_outcome:
  assumes c: "idr_contract ops tbl" and inv: "devices_inv m n" "finite (dom m)" and used: "\<not> dev_used m ldevt" "\<not> dev_used m ddevt"
    and ad: "ad_nr_devs ad = n"
      "tbl (ad_idr ad) = m \<and> wminor = - 1 \<or> (\<exists>k. m k = None \<and> tbl (ad_idr ad) = m(k \<mapsto> ALL_WDEVS_PREALLOCED) \<and> unat wminor = 2 * k)"
    and r: "start_with_minor ops e ctl ldevt ddevt param0 wminor ad = Some (ret, ctl', ad')"
  shows "control_outcome m n ret (tbl (ad_idr ad')) (ad_nr_devs ad')"
proof -
  have max: "unat (- 1 :: u32) = 4294967295" by (simp add: unsigned_minus_1_eq_mask mask_eq_exp_minus_1)
  have freed: "tbl (ad_idr (free_minor ops wminor ad)) = m"
    using ad(2)
  proof
    assume "tbl (ad_idr ad) = m \<and> wminor = - 1"
    moreover have "m (unat (- 1 :: u32) div 2) = None"
    proof (rule ccontr)
      assume "m (unat (- 1 :: u32) div 2) \<noteq> None"
      then have "unat (- 1 :: u32) div 2 < ALL_WDEVS_KEY_MAX" using inv(1) unfolding devices_inv_def by blast
      then show False by (simp add: max ALL_WDEVS_KEY_MAX_def MINORBITS_def)
    qed
    ultimately show ?thesis using free_minor_tbl(1) [OF c, of wminor ad] by auto
  next
    assume "\<exists>k. m k = None \<and> tbl (ad_idr ad) = m(k \<mapsto> ALL_WDEVS_PREALLOCED) \<and> unat wminor = 2 * k"
    then show ?thesis using free_minor_tbl(1) [OF c, of wminor ad] by auto
  qed
  then have fail: "control_outcome m n (- EFAULT) (tbl (ad_idr (free_minor ops wminor ad))) (ad_nr_devs (free_minor ops wminor ad))"
    using inv(1) ad(1) by (simp add: control_outcome_def free_minor_def)
  show ?thesis
  proof (cases "wminor \<ge> push_bit MINORBITS 1")
    case True
    then show ?thesis using r fail by (simp add: start_with_minor_def)
  next
    case small: False
    then have "unat wminor < 2 ^ MINORBITS" by (simp add: word_le_nat_alt MINORBITS_def)
    moreover from this have "wminor \<noteq> - 1" by (auto simp: MINORBITS_def max)
    ultimately obtain k where k: "m k = None" "tbl (ad_idr ad) = m(k \<mapsto> ALL_WDEVS_PREALLOCED)" "unat wminor = 2 * k" "k < ALL_WDEVS_KEY_MAX"
      using ad(2) by (auto simp: ALL_WDEVS_KEY_MAX_def MINORBITS_def)
    show ?thesis
    proof (cases "\<exists>w param ios. prepare_wdev (ce_start e) wminor ldevt ddevt param0 = Some (Some (w, param, ios))")
      case True
      then obtain w param ios where p: "prepare_wdev (ce_start e) wminor ldevt ddevt param0 = Some (Some (w, param, ios))" by blast
      have "start_prepared ops e ctl wminor w param ad = Some (ret, ctl', ad')"
        using r small p by (simp add: start_with_minor_def)
      then show ?thesis
        using prepare_wdev_entry [OF p] k used by (intro start_prepared_outcome [OF c inv k(1,4,2) ad(1)]) simp_all
    next
      case False
      then show ?thesis using r small fail by (auto simp: start_with_minor_def split: option.splits)
    qed
  qed
qed


lemma ioctl_start_dev_outcome:
  assumes c: "idr_contract ops tbl" and inv: "devices_inv (tbl (ad_idr ad)) (ad_nr_devs ad)"
    and r: "ioctl_start_dev ops e ctl ad = Some (ret, ctl', ad')"
  shows "control_outcome (tbl (ad_idr ad)) (ad_nr_devs ad) ret (tbl (ad_idr ad')) (ad_nr_devs ad')"
proof -
  let ?m = "tbl (ad_idr ad)" and ?u = "ctl_u2k ctl"
  let ?l = "MKDEV (cd_lmajor ?u) (cd_lminor ?u)" and ?d = "MKDEV (cd_dmajor ?u) (cd_dminor ?u)"
  have same: "control_outcome ?m (ad_nr_devs ad) x ?m (ad_nr_devs ad)" for x using inv by (simp add: control_outcome_def)
  note used = already_used_iff [OF c inv]
  obtain wminor ad1 where a: "(if cd_wminor ?u = WALB_DYNAMIC_MINOR then alloc_any_minor ops ad
      else alloc_specific_minor ops (cd_wminor ?u) ad) = (wminor, ad1)" by fastforce
  note ac = alloc_minor_cases [OF c a]
  consider (kept) "ad' = ad"
    | (minor) param0 where "\<not> dev_used ?m ?l" "\<not> dev_used ?m ?d"
        "start_with_minor ops e ctl ?l ?d param0 wminor ad1 = Some (ret, ctl', ad')"
    using r unfolding ioctl_start_dev_def used Let_def a
    by (fastforce split: if_splits option.splits bool.splits)
  then show ?thesis
  proof cases
    case kept
    then show ?thesis using same by simp
  next
    case minor
    then show ?thesis
      using ac idr_contract.tbl_finite [OF c] by (intro start_with_minor_outcome [OF c inv _ minor(1,2) _ _ minor(3)]) auto
  qed
qed

lemma ioctl_stop_dev_outcome:
  assumes c: "idr_contract ops tbl" and inv: "devices_inv (tbl (ad_idr ad)) (ad_nr_devs ad)"
    and r: "ioctl_stop_dev ops e ctl ad = Some (ret, ctl', ad')"
  shows "control_outcome (tbl (ad_idr ad)) (ad_nr_devs ad) ret (tbl (ad_idr ad')) (ad_nr_devs ad')"
proof -
  let ?m = "tbl (ad_idr ad)" and ?k = "unat (cd_wminor (ctl_u2k ctl)) div 2"
  consider (kept) "ad' = ad"
    | (del) w where "?m ?k = Some (Wdev w)" "ad' = alldevs_del ops (unregister_wdev w) ad" "ret = 0"
    using r unfolding ioctl_stop_dev_def search_wdev_with_minor_def idr_contract.find_tbl [OF c] Let_def
    by (fastforce split: if_splits option.splits slot.splits)
  then show ?thesis
  proof cases
    case kept
    then show ?thesis using inv by (simp add: control_outcome_def)
  next
    case del
    then have "unat (we_minor w) = 2 * ?k" using inv by (auto simp: devices_inv_def)
    then have key: "get_key_from_wdev (unregister_wdev w) = ?k"
      by (simp add: get_key_from_wdev_def unregister_wdev_def upd_io_def)
    show ?thesis
      using alldevs_del_tbl [OF c del(1) key] devices_inv_del [OF inv del(1) idr_contract.tbl_finite [OF c]] del(2,3)
      by (simp add: control_outcome_def)
  qed
qed

text \<open>
  C23.  Whatever command the control device is given, the list of devices stays consistent: every
  entry is a device under the key of its minor, no mark of an allocated minor is left behind,
  the count of devices is right, and no two devices share a name, a log device or a data
  device.  A command that fails leaves the list as it was: each of the error paths of a start
  gives back the minor and the entry it took.
\<close>

theorem control_keeps_devices:
  assumes "idr_contract ops tbl"
    and "devices_inv (tbl (ad_idr ad)) (ad_nr_devs ad)"
    and "dispatch_ioctl ops e ctl ad = Some (ret, ctl', ad')"
  shows "devices_inv (tbl (ad_idr ad')) (ad_nr_devs ad') \<and>
    (ret \<noteq> 0 \<longrightarrow> tbl (ad_idr ad') = tbl (ad_idr ad) \<and> ad_nr_devs ad' = ad_nr_devs ad)"
proof -
  have same: "control_outcome (tbl (ad_idr ad)) (ad_nr_devs ad) x (tbl (ad_idr ad)) (ad_nr_devs ad)" for x
    using assms(2) by (simp add: control_outcome_def)
  have "control_outcome (tbl (ad_idr ad)) (ad_nr_devs ad) ret (tbl (ad_idr ad')) (ad_nr_devs ad')"
  proof (cases "ctl_command ctl = WALB_IOCTL_START_DEV \<or> ctl_command ctl = WALB_IOCTL_STOP_DEV")
    case True
    then show ?thesis using assms(3) ioctl_start_dev_outcome [OF assms(1,2)] ioctl_stop_dev_outcome [OF assms(1,2)]
      unfolding dispatch_ioctl_def by metis
  next
    case False
    then have "ad' = ad" using assms(3) unfolding dispatch_ioctl_def
      by (auto simp: ioctl_get_major_def ioctl_list_dev_def ioctl_num_of_dev_def Let_def split: if_splits option.splits)
    then show ?thesis using same by simp
  qed
  then show ?thesis by (simp add: control_outcome_def)
qed


lemma start_param_roundtrip:
  assumes "length (sp_name p) = DISK_NAME_LEN"
  shows "start_param_of_bytes (start_param_bytes p) = p"
  using assms by (simp add: start_param_of_bytes_def start_param_bytes_def DISK_NAME_LEN_def le_word_le_bytes Let_def)

definition demo_cenv :: "ram control_env" where
  "demo_cenv = \<lparr>ce_start = demo_senv demo_log, ce_tasks = id, ce_sync_superblock = True, ce_users = id, ce_major = 252\<rparr>"

definition demo_data :: walb_ctl_data where
  "demo_data = \<lparr>cd_wmajor = 252, cd_wminor = 4, cd_lmajor = 0, cd_lminor = 800, cd_dmajor = 0, cd_dminor = 900, cd_buf_size = 64,
     cd_buf = None, cd_kbuf = Some (start_param_bytes (demo_param 32))\<rparr>"

definition demo_start :: walb_ctl where
  "demo_start = \<lparr>ctl_command = WALB_IOCTL_START_DEV, ctl_val_int = 0, ctl_val_u64 = 0, ctl_val_u32 = 0, ctl_error = 0,
     ctl_u2k = demo_data, ctl_k2u = demo_data\<rparr>"



lemma demo_start_runs:
  "\<exists>ctl' ad' w. dispatch_ioctl alist_ops demo_cenv demo_start \<lparr>ad_idr = [], ad_nr_devs = 0\<rparr> = Some (0, ctl', ad') \<and>
     map_of (ad_idr ad') = [2 \<mapsto> Wdev w] \<and> ad_nr_devs ad' = 1"
proof -
  obtain w p ios where w: "prepare_wdev (demo_senv demo_log) 4 800 900 (demo_param 32) = Some (Some (w, p, ios))"
    using demo_prepare by blast
  let ?ad = "\<lparr>ad_idr = [(2, ALL_WDEVS_PREALLOCED)], ad_nr_devs = 0\<rparr> :: (nat \<times> ram slot) list alldevs"
  have key: "get_key_from_wdev w = 2" using prepare_wdev_entry(1) [OF w] by (simp add: get_key_from_wdev_def)
  have e0: "idr_entries alist_ops [] 0 = Some ([] :: (nat \<times> ram slot) list)" by (subst idr_entries.simps) (simp add: alist_ops_def)
  have "idr_entries alist_ops [(2, ALL_WDEVS_PREALLOCED)] 3 = Some ([] :: (nat \<times> ram slot) list)"
    by (subst idr_entries.simps) (simp add: alist_ops_def)
  then have e1: "idr_entries alist_ops [(2, ALL_WDEVS_PREALLOCED)] 0 = Some [(2, ALL_WDEVS_PREALLOCED :: ram slot)]"
    by (subst idr_entries.simps) (simp add: alist_ops_def)
  have add: "alldevs_add alist_ops w ?ad = Some (True, \<lparr>ad_idr = [(2, Wdev w), (2, ALL_WDEVS_PREALLOCED)], ad_nr_devs = 1\<rparr>)"
    using e1 key by (simp add: alldevs_add_def) (simp add: alist_ops_def)
  have reg: "fst (register_wdev (demo_senv demo_log) w)" by (simp add: register_wdev_def demo_senv_def Let_def)
  then obtain w1 where w1: "register_wdev (demo_senv demo_log) w = (True, w1)" by (metis eq_fst_iff)
  have "get_key_from_wdev w1 = 2" using key register_wdev_entry(1) [OF w1] by (simp add: get_key_from_wdev_def)
  then have run: "\<exists>ctl' ad'. start_prepared alist_ops demo_cenv demo_start 4 w p ?ad = Some (0, ctl', ad') \<and>
     map_of (ad_idr ad') = [2 \<mapsto> Wdev w1] \<and> ad_nr_devs ad' = 1"
    using add w1 by (simp add: start_prepared_def demo_cenv_def store_wdev_def) (simp add: alist_ops_def)
  have alloc: "alloc_specific_minor alist_ops 4 \<lparr>ad_idr = [], ad_nr_devs = 0\<rparr> = (4, ?ad)"
    by (simp add: alloc_specific_minor_def alist_ops_def Let_def)
  have small: "\<not> push_bit MINORBITS 1 \<le> (4 :: u32)" by code_simp
  have devs: "MKDEV 0 800 = 800" "MKDEV 0 900 = 900" by (simp_all add: MKDEV_def)
  have ctl: "ctl_command demo_start = WALB_IOCTL_START_DEV" "ctl_u2k demo_start = demo_data" "ctl_k2u demo_start = demo_data"
    and env: "ce_start demo_cenv = demo_senv demo_log" by (simp_all add: demo_start_def demo_cenv_def)
  have data: "cd_lmajor demo_data = 0" "cd_lminor demo_data = 800" "cd_dmajor demo_data = 0" "cd_dminor demo_data = 900"
    "cd_wminor demo_data = 4" "cd_buf_size demo_data = 64" "cd_kbuf demo_data = Some (start_param_bytes (demo_param 32))"
    by (simp_all add: demo_data_def)
  have ps: "start_param_of_bytes (start_param_bytes (demo_param 32)) = demo_param 32"
    by (rule start_param_roundtrip) (simp add: demo_param_def DISK_NAME_LEN_def)
  have "dispatch_ioctl alist_ops demo_cenv demo_start \<lparr>ad_idr = [], ad_nr_devs = 0\<rparr> =
      start_prepared alist_ops demo_cenv demo_start 4 w p ?ad"
    using w alloc small e0 demo_param_valid [of 32] ps
    by (simp add: dispatch_ioctl_def ioctl_start_dev_def start_with_minor_def ctl data env devs
        SIZEOF_START_PARAM_def WALB_DYNAMIC_MINOR_def alldevs_is_already_used_def Let_def)
  then show ?thesis using run by (simp only:) blast
qed

lemma demo_start_inv:
  assumes "dispatch_ioctl alist_ops demo_cenv demo_start \<lparr>ad_idr = [], ad_nr_devs = 0\<rparr> = Some (ret, ctl', ad')"
  shows "devices_inv (map_of (ad_idr ad')) (ad_nr_devs ad')"
proof -
  have "devices_inv (map_of (ad_idr \<lparr>ad_idr = [], ad_nr_devs = 0\<rparr>) :: nat \<Rightarrow> ram slot option) (ad_nr_devs \<lparr>ad_idr = [], ad_nr_devs = 0\<rparr>)"
    by (simp add: devices_inv_def)
  from ioctl_start_dev_outcome [OF alist_idr.idr_contract_axioms this, of demo_cenv demo_start ret ctl' ad'] assms show ?thesis
    by (simp add: control_outcome_def dispatch_ioctl_def demo_start_def)
qed

theorem control_keeps_devices_witness:
  "\<exists>ctl' ad' w. dispatch_ioctl alist_ops demo_cenv demo_start \<lparr>ad_idr = [], ad_nr_devs = 0\<rparr> = Some (0, ctl', ad') \<and>
     map_of (ad_idr ad') = [2 \<mapsto> Wdev w] \<and> devices_inv (map_of (ad_idr ad')) (ad_nr_devs ad')"
proof -
  obtain ctl' ad' w where r: "dispatch_ioctl alist_ops demo_cenv demo_start \<lparr>ad_idr = [], ad_nr_devs = 0\<rparr> = Some (0, ctl', ad')"
    "map_of (ad_idr ad') = [2 \<mapsto> Wdev w]" using demo_start_runs by blast
  have "devices_inv (map_of (ad_idr \<lparr>ad_idr = [], ad_nr_devs = 0\<rparr>) :: nat \<Rightarrow> ram slot option) (ad_nr_devs \<lparr>ad_idr = [], ad_nr_devs = 0\<rparr>)"
    by (simp add: devices_inv_def)
  from control_keeps_devices [OF alist_idr.idr_contract_axioms this r(1)] show ?thesis using r by blast
qed


section \<open>Unloading\<close>

text \<open>
  C24.  When the module is unloaded and every device can be finalized, the loop ends and leaves
  the list of devices empty, with a count of 0.
\<close>

theorem walb_exit_stops_all:
  assumes "idr_contract ops tbl"
    and "devices_inv (tbl (ad_idr ad)) (ad_nr_devs ad)"
    and "\<And>w. finalize_and_destroy e (unregister_wdev w) \<noteq> None"
  shows "\<exists>ad'. walb_exit_loop ops e ad = Some ad' \<and> tbl (ad_idr ad') = Map.empty \<and> ad_nr_devs ad' = 0"
  using assms(2)
proof (induction "card (dom (tbl (ad_idr ad)))" arbitrary: ad rule: less_induct)
  case less
  let ?m = "tbl (ad_idr ad)"
  note fin = idr_contract.tbl_finite [OF assms(1), of "ad_idr ad"]
  show ?case
  proof (cases "idr_get_next ops (ad_idr ad) 0")
    case None
    then have "?m = Map.empty" using idr_contract.get_next_None [OF assms(1) None] by auto
    then show ?thesis using None less.prems by (subst walb_exit_loop.simps) (simp add: alldevs_pop_def devices_inv_def)
  next
    case (Some p)
    obtain k s where n: "idr_get_next ops (ad_idr ad) 0 = Some (k, s)" using Some by (cases p) simp
    have k: "?m k = Some s" using idr_contract.get_next_Some [OF assms(1) n] by simp
    then obtain w where w: "s = Wdev w" "unat (we_minor w) = 2 * k" using less.prems unfolding devices_inv_def by blast
    then have key: "get_key_from_wdev w = k" by (simp add: get_key_from_wdev_def)
    let ?ad1 = "alldevs_del ops w ad"
    note del = alldevs_del_tbl [OF assms(1) k key]
    have "card (dom (tbl (ad_idr ?ad1))) < card (dom ?m)"
      unfolding del(1) using k fin by (intro psubset_card_mono) auto
    moreover have "devices_inv (tbl (ad_idr ?ad1)) (ad_nr_devs ?ad1)"
      unfolding del using devices_inv_del [OF less.prems k fin] .
    ultimately obtain ad' where "walb_exit_loop ops e ?ad1 = Some ad'" "tbl (ad_idr ad') = Map.empty" "ad_nr_devs ad' = 0"
      using less.hyps by blast
    moreover have "alldevs_pop ops ad = Some (Some w, ?ad1)" using n w(1) by (simp add: alldevs_pop_def)
    ultimately show ?thesis using assms(3) [of w] by (subst walb_exit_loop.simps) auto
  qed
qed


definition demo_exit_env :: "ram control_env" where
  "demo_exit_env = demo_cenv\<lparr>ce_tasks := upd_core (\<lambda>ic. ic\<lparr>ic_n_pending_bio := 0\<rparr>), ce_sync_superblock := False,
     ce_users := (\<lambda>w. w\<lparr>we_n_users := 0\<rparr>)\<rparr>"

lemma poll_once: "ready (sleep s) \<Longrightarrow> poll ready sleep s \<noteq> None"
  by (subst poll.simps, subst poll.simps) simp

lemma demo_exit_finalizes: "finalize_and_destroy demo_exit_env w \<noteq> None"
proof -
  obtain ok s2 where m: "melt_if_frozen (se_msecs (ce_start demo_exit_env)) False
      (upd_dev (set_wdev_flag WALB_STATE_FINALIZE) (we_io w)) = (ok, s2)" by fastforce
  have "wait_for_all_pending_io_done (ce_tasks demo_exit_env) s2 \<noteq> None"
    unfolding wait_for_all_pending_io_done_def by (rule poll_once) (simp add: demo_exit_env_def upd_core_def)
  then obtain s3 where s3: "wait_for_all_pending_io_done (ce_tasks demo_exit_env) s2 = Some s3" by blast
  have "destroy_wait (ce_users demo_exit_env) w \<noteq> None" for w
    unfolding destroy_wait_def by (rule poll_once) (simp add: demo_exit_env_def)
  moreover have "ce_sync_superblock demo_exit_env = False" by (simp add: demo_exit_env_def)
  ultimately show ?thesis
    using m s3 by (simp add: finalize_and_destroy_def finalize_wdev_def iocore_flush_def walb_ldev_finalize_def
        walb_finalize_super_block_def Let_def)
qed

theorem walb_exit_stops_all_witness:
  "\<exists>ctl' ad1 ad'. dispatch_ioctl alist_ops demo_cenv demo_start \<lparr>ad_idr = [], ad_nr_devs = 0\<rparr> = Some (0, ctl', ad1) \<and>
     ad_nr_devs ad1 = 1 \<and> walb_exit_loop alist_ops demo_exit_env ad1 = Some ad' \<and> map_of (ad_idr ad') = Map.empty \<and> ad_nr_devs ad' = 0"
proof -
  obtain ctl' ad1 w where r: "dispatch_ioctl alist_ops demo_cenv demo_start \<lparr>ad_idr = [], ad_nr_devs = 0\<rparr> = Some (0, ctl', ad1)"
    "map_of (ad_idr ad1) = [2 \<mapsto> Wdev w]" "ad_nr_devs ad1 = 1" using demo_start_runs by blast
  have inv: "devices_inv (map_of (ad_idr ad1)) (ad_nr_devs ad1)" by (rule demo_start_inv [OF r(1)])
  from walb_exit_stops_all [OF alist_idr.idr_contract_axioms inv demo_exit_finalizes] show ?thesis using r by blast
qed

end
