(* ===== verification/Walb_Ctl.thy ===== *)
theory Walb_Ctl
  imports Walb_Tool_Log Walb_Control
begin

text \<open>
  The control tool \<^verbatim>\<open>walbctl\<close> (\<^verbatim>\<open>tool/walbctl.c\<close>) and the super sector functions of
  \<^verbatim>\<open>tool/walb_util.c\<close>: options, formatting a log device, sending logpacks to a stream and
  replaying them, and the commands that call the driver.  What a command prints is its result
  besides the flag of success.  The driver behind an ioctl is a parameter.
\<close>

section \<open>Super sectors\<close>

definition read_urandom :: "bool \<Rightarrow> bool \<Rightarrow> nat \<Rightarrow> in_stream \<Rightarrow> u8 list option" where
  "read_urandom open_ok close_ok sz st =
     (if \<not> open_ok then None
      else let (ok, d, st1) = read_data sz st in if \<not> ok then None else if \<not> close_ok then None else Some d)"

definition generate_uuid :: "bool \<Rightarrow> bool \<Rightarrow> in_stream \<Rightarrow> u8 list option" where
  "generate_uuid open_ok close_ok st = read_urandom open_ok close_ok UUID_SIZE st"

text \<open>The uuid is \<^const>\<open>None\<close> when it cannot be generated; the salt is random.\<close>

definition init_super_sector_raw ::
  "u8 list option \<Rightarrow> u32 \<Rightarrow> u32 \<Rightarrow> u32 \<Rightarrow> u64 \<Rightarrow> u64 \<Rightarrow> u8 list option \<Rightarrow> walb_super_sector option" where
  "init_super_sector_raw uuid salt lbs pbs ddev_lb ldev_lb name =
     map_option (\<lambda>u. set_super_sector_name
       \<lparr>ss_sector_type = SECTOR_TYPE_SUPER, ss_version = WALB_LOG_VERSION, ss_checksum = 0, ss_logical_bs = lbs,
        ss_physical_bs = pbs, ss_metadata_size = 0, ss_log_checksum_salt = salt, ss_uuid = u,
        ss_name = replicate DISK_NAME_LEN 0,
        ss_ring_buffer_size = ldev_lb div ucast (pbs div lbs) - get_ring_buffer_offset pbs,
        ss_oldest_lsid = 0, ss_written_lsid = 0, ss_device_size = ddev_lb\<rparr> name) uuid"

definition init_super_sector ::
  "u8 list option \<Rightarrow> u32 \<Rightarrow> u32 \<Rightarrow> u32 \<Rightarrow> u64 \<Rightarrow> u64 \<Rightarrow> u8 list option \<Rightarrow> sector_data \<Rightarrow> sector_data option" where
  "init_super_sector uuid salt lbs pbs ddev_lb ldev_lb name sect =
     map_option (\<lambda>ss. put_super_sector ss sect) (init_super_sector_raw uuid salt lbs pbs ddev_lb ldev_lb name)"

definition super_image :: "walb_super_sector \<Rightarrow> u8 list" where
  "super_image super =
     (let sz = unat (ss_physical_bs super);
          p = super\<lparr>ss_sector_type := SECTOR_TYPE_SUPER, ss_checksum := 0\<rparr>;
          csum = checksum (super_sector_bytes p @ replicate (sz - 104) 0) sz 0 in
      super_sector_bytes (p\<lparr>ss_checksum := csum\<rparr>) @ replicate (sz - 104) 0)"

definition write_super_sector_raw :: "bool \<Rightarrow> open_dev \<Rightarrow> walb_super_sector \<Rightarrow> bool \<times> open_dev" where
  "write_super_sector_raw mem_ok dev super =
     (if \<not> mem_ok then (False, dev)
      else
        (let sz = ss_physical_bs super; buf = super_image super;
             (ret0, dev1) = write_sector_raw buf sz (get_super_sector0_offset_2 super) dev;
             (ret1, dev2) = write_sector_raw buf sz (get_super_sector1_offset_2 super) dev1 in
         (ret0 \<and> ret1, dev2)))"

definition write_super_sector :: "bool \<Rightarrow> open_dev \<Rightarrow> sector_data \<Rightarrow> bool \<times> open_dev" where
  "write_super_sector mem_ok dev sect =
     (if \<not> is_valid_super_sector sect then (False, dev) else write_super_sector_raw mem_ok dev (get_super_sector sect))"

definition read_super_sector :: "open_dev \<Rightarrow> sector_data \<Rightarrow> bool \<times> sector_data \<times> open_dev" where
  "read_super_sector dev sect =
     (if \<not> is_valid_sector_data (Some sect) then (False, sect, dev)
      else
        (let (ok, sect1, dev1) = dev_sector_read dev (get_super_sector0_offset (word_of_nat (sd_size sect))) sect in
         (ok \<and> checksum (sector_bytes sect1) (sd_size sect1) 0 = 0 \<and> is_valid_super_sector sect1, sect1, dev1)))"

section \<open>Block devices\<close>

text \<open>The device number as its major and minor part.\<close>

record bdev_info =
  bi_size :: u64
  bi_lbs :: u32
  bi_pbs :: u32
  bi_major :: u32
  bi_minor :: u32

text \<open>What the system calls on a path return.\<close>

record path_results =
  pr_open :: bool
  pr_fstat :: bool
  pr_is_block :: bool
  pr_major :: u32
  pr_minor :: u32
  pr_size :: "u64 option"
  pr_lbs :: "u32 option"
  pr_pbs :: "u32 option"

definition open_bdev_and_get_info :: "u8 list option \<Rightarrow> path_results \<Rightarrow> bdev_info option" where
  "open_bdev_and_get_info path r =
     (if path = None \<or> path = Some [] \<or> \<not> pr_open r \<or> \<not> pr_fstat r \<or> \<not> pr_is_block r then None
      else case pr_size r of
        None \<Rightarrow> None
      | Some sz \<Rightarrow>
          (case pr_lbs r of
             None \<Rightarrow> None
           | Some lbs \<Rightarrow>
               (case pr_pbs r of
                  None \<Rightarrow> None
                | Some pbs \<Rightarrow>
                    if lbs \<noteq> LOGICAL_BLOCK_SIZE \<or> \<not> is_valid_pbs pbs then None
                    else Some \<lparr>bi_size = sz, bi_lbs = lbs, bi_pbs = pbs, bi_major = pr_major r, bi_minor = pr_minor r\<rparr>)))"

definition get_bdev_info :: "u8 list option \<Rightarrow> path_results \<Rightarrow> bdev_info option" where
  "get_bdev_info path r = open_bdev_and_get_info path r"

definition is_block_size_same :: "bdev_info \<Rightarrow> bdev_info \<Rightarrow> bool" where
  "is_block_size_same info0 info1 = (bi_lbs info0 = bi_lbs info1 \<and> bi_pbs info0 = bi_pbs info1)"

text \<open>Discarding: the results of the ioctls and what the device holds after one that succeeded.\<close>

record discard_results =
  dr_pbs :: "u32 option"
  dr_try :: bool
  dr_size :: "u64 option"
  dr_whole :: bool
  dr_after :: "u64 \<Rightarrow> u8 list \<Rightarrow> u8 list"

definition is_discard_supported :: "discard_results \<Rightarrow> open_dev \<Rightarrow> bool \<times> open_dev" where
  "is_discard_supported r dev =
     (case dr_pbs r of
        None \<Rightarrow> (False, dev)
      | Some pbs \<Rightarrow> if \<not> dr_try r then (False, dev) else (True, dev\<lparr>od_bytes := dr_after r (ucast pbs) (od_bytes dev)\<rparr>))"

definition discard_whole_area :: "discard_results \<Rightarrow> open_dev \<Rightarrow> bool \<times> open_dev" where
  "discard_whole_area r dev =
     (case dr_size r of
        None \<Rightarrow> (False, dev)
      | Some sz \<Rightarrow> if \<not> dr_whole r then (False, dev) else (True, dev\<lparr>od_bytes := dr_after r sz (od_bytes dev)\<rparr>))"

section \<open>Options\<close>

record tool_config =
  cf_cmd :: "u8 list option"
  cf_ldev_name :: "u8 list option"
  cf_ddev_name :: "u8 list option"
  cf_nodiscard :: bool
  cf_wdev_name :: "u8 list option"
  cf_wldev_name :: "u8 list option"
  cf_lsid :: u64
  cf_lsid0 :: u64
  cf_lsid1 :: u64
  cf_name :: "u8 list option"
  cf_size :: u64
  cf_param :: walb_start_param

definition init_config :: tool_config where
  "init_config =
     \<lparr>cf_cmd = None, cf_ldev_name = None, cf_ddev_name = None, cf_nodiscard = False, cf_wdev_name = None, cf_wldev_name = None,
      cf_lsid = - 1, cf_lsid0 = - 1, cf_lsid1 = - 1, cf_name = None, cf_size = - 1,
      cf_param = \<lparr>sp_name = replicate DISK_NAME_LEN 0, sp_max_pending_mb = 32, sp_min_pending_mb = 16, sp_queue_stop_timeout_ms = 100,
        sp_max_logpack_kb = 0, sp_log_flush_interval_ms = 100, sp_log_flush_interval_mb = 16, sp_n_pack_bulk = 128,
        sp_n_io_bulk = 1024\<rparr>\<rparr>"

text \<open>\<^verbatim>\<open>atoll\<close> and \<^verbatim>\<open>atoi\<close> on numbers that fit.\<close>

fun digits :: "int \<Rightarrow> u8 list \<Rightarrow> int" where
  "digits acc [] = acc"
| "digits acc (c # cs) = (if 48 \<le> c \<and> c \<le> 57 then digits (acc * 10 + uint (c - 48)) cs else acc)"

definition atoll :: "u8 list \<Rightarrow> int" where
  "atoll s =
     (case dropWhile (\<lambda>c. c = 32 \<or> 9 \<le> c \<and> c \<le> 13) s of
        [] \<Rightarrow> 0
      | c # cs \<Rightarrow> if c = 45 then - digits 0 cs else if c = 43 then digits 0 cs else digits 0 (c # cs))"

text \<open>What \<^verbatim>\<open>getopt_long\<close> returns for one option.\<close>

datatype tool_opt =
  OPT_LDEV "u8 list" | OPT_DDEV "u8 list" | OPT_NODISCARD | OPT_WDEV "u8 list" | OPT_WLDEV "u8 list" | OPT_LSID "u8 list"
| OPT_LSID0 "u8 list" | OPT_LSID1 "u8 list" | OPT_NAME "u8 list" | OPT_SIZE "u8 list" | OPT_MAX_LOGPACK_KB "u8 list"
| OPT_MAX_PENDING_MB "u8 list" | OPT_MIN_PENDING_MB "u8 list" | OPT_QUEUE_STOP_TIMEOUT_MS "u8 list"
| OPT_FLUSH_INTERVAL_MB "u8 list" | OPT_FLUSH_INTERVAL_MS "u8 list" | OPT_N_PACK_BULK "u8 list" | OPT_N_IO_BULK "u8 list"
| OPT_HELP | OPT_UNKNOWN

definition set_param :: "(walb_start_param \<Rightarrow> walb_start_param) \<Rightarrow> tool_config \<Rightarrow> tool_config" where
  "set_param f cfg = cfg\<lparr>cf_param := f (cf_param cfg)\<rparr>"

fun apply_opt :: "tool_opt \<Rightarrow> tool_config \<Rightarrow> tool_config" where
  "apply_opt (OPT_LDEV a) cfg = cfg\<lparr>cf_ldev_name := Some a\<rparr>"
| "apply_opt (OPT_DDEV a) cfg = cfg\<lparr>cf_ddev_name := Some a\<rparr>"
| "apply_opt OPT_NODISCARD cfg = cfg\<lparr>cf_nodiscard := True\<rparr>"
| "apply_opt (OPT_WDEV a) cfg = cfg\<lparr>cf_wdev_name := Some a\<rparr>"
| "apply_opt (OPT_WLDEV a) cfg = cfg\<lparr>cf_wldev_name := Some a\<rparr>"
| "apply_opt (OPT_LSID a) cfg = cfg\<lparr>cf_lsid := word_of_int (atoll a)\<rparr>"
| "apply_opt (OPT_LSID0 a) cfg = cfg\<lparr>cf_lsid0 := word_of_int (atoll a)\<rparr>"
| "apply_opt (OPT_LSID1 a) cfg = cfg\<lparr>cf_lsid1 := word_of_int (atoll a)\<rparr>"
| "apply_opt (OPT_NAME a) cfg = cfg\<lparr>cf_name := Some a\<rparr>"
| "apply_opt (OPT_SIZE a) cfg = cfg\<lparr>cf_size := word_of_int (atoll a)\<rparr>"
| "apply_opt (OPT_MAX_LOGPACK_KB a) cfg = set_param (\<lambda>p. p\<lparr>sp_max_logpack_kb := word_of_int (atoll a)\<rparr>) cfg"
| "apply_opt (OPT_MAX_PENDING_MB a) cfg = set_param (\<lambda>p. p\<lparr>sp_max_pending_mb := word_of_int (atoll a)\<rparr>) cfg"
| "apply_opt (OPT_MIN_PENDING_MB a) cfg = set_param (\<lambda>p. p\<lparr>sp_min_pending_mb := word_of_int (atoll a)\<rparr>) cfg"
| "apply_opt (OPT_QUEUE_STOP_TIMEOUT_MS a) cfg = set_param (\<lambda>p. p\<lparr>sp_queue_stop_timeout_ms := word_of_int (atoll a)\<rparr>) cfg"
| "apply_opt (OPT_FLUSH_INTERVAL_MB a) cfg = set_param (\<lambda>p. p\<lparr>sp_log_flush_interval_mb := word_of_int (atoll a)\<rparr>) cfg"
| "apply_opt (OPT_FLUSH_INTERVAL_MS a) cfg = set_param (\<lambda>p. p\<lparr>sp_log_flush_interval_ms := word_of_int (atoll a)\<rparr>) cfg"
| "apply_opt (OPT_N_PACK_BULK a) cfg = set_param (\<lambda>p. p\<lparr>sp_n_pack_bulk := word_of_int (atoll a)\<rparr>) cfg"
| "apply_opt (OPT_N_IO_BULK a) cfg = set_param (\<lambda>p. p\<lparr>sp_n_io_bulk := word_of_int (atoll a)\<rparr>) cfg"
| "apply_opt OPT_HELP cfg = cfg\<lparr>cf_cmd := Some (map of_char ''help'')\<rparr>"
| "apply_opt OPT_UNKNOWN cfg = cfg"

text \<open>The arguments that are not options: the last one is the command; \<^verbatim>\<open>w0\<close> bytes of the buffer are used.\<close>

fun parse_args :: "nat \<Rightarrow> u8 list list \<Rightarrow> tool_config \<Rightarrow> int \<times> tool_config" where
  "parse_args w0 [] cfg = (0, cfg)"
| "parse_args w0 (a # args) cfg =
     (let w1 = length a + 1; cfg1 = cfg\<lparr>cf_cmd := Some a\<rparr> in
      if 64 \<le> w1 then (- 1, cfg) else if 1024 \<le> w0 + w1 then (- 1, cfg1) else parse_args (w0 + w1) args cfg1)"

fun parse_opt :: "tool_opt list \<Rightarrow> u8 list list \<Rightarrow> tool_config \<Rightarrow> int \<times> tool_config" where
  "parse_opt [] args cfg = (if args = [] then (- 1, cfg) else parse_args 9 args cfg)"
| "parse_opt (c # opts) args cfg =
     (if c = OPT_HELP then (0, apply_opt c cfg) else parse_opt opts args (apply_opt c cfg))"

datatype tool_command =
  Format_ldev | Create_wdev | Delete_wdev | Take_checkpoint | Set_checkpoint_interval | Get_checkpoint_interval
| Cat_wldev | Show_wlog | Show_wldev | Redo_wlog | Redo | Set_oldest_lsid | Get_oldest_lsid | Get_written_lsid
| Get_permanent_lsid | Get_completed_lsid | Search_valid_lsid | Get_log_usage | Get_log_capacity | Is_flush_capable
| Resize | Reset_wal | Is_log_overflow | Freeze | Melt | Is_frozen | Get_version | Show_version | Help

definition cmd_map :: "(u8 list \<times> tool_command) list" where
  "cmd_map = map (\<lambda>(s, c). (map of_char s, c))
     [(''format_ldev'', Format_ldev), (''create_wdev'', Create_wdev), (''delete_wdev'', Delete_wdev),
      (''take_checkpoint'', Take_checkpoint), (''set_checkpoint_interval'', Set_checkpoint_interval),
      (''get_checkpoint_interval'', Get_checkpoint_interval), (''cat_wldev'', Cat_wldev), (''show_wlog'', Show_wlog),
      (''show_wldev'', Show_wldev), (''redo_wlog'', Redo_wlog), (''redo'', Redo), (''set_oldest_lsid'', Set_oldest_lsid),
      (''get_oldest_lsid'', Get_oldest_lsid), (''get_written_lsid'', Get_written_lsid),
      (''get_permanent_lsid'', Get_permanent_lsid), (''get_completed_lsid'', Get_completed_lsid),
      (''search_valid_lsid'', Search_valid_lsid), (''get_log_usage'', Get_log_usage), (''get_log_capacity'', Get_log_capacity),
      (''is_flush_capable'', Is_flush_capable), (''resize'', Resize), (''reset_wal'', Reset_wal),
      (''is_log_overflow'', Is_log_overflow), (''freeze'', Freeze), (''melt'', Melt), (''is_frozen'', Is_frozen),
      (''get_version'', Get_version), (''version'', Show_version), (''help'', Help)]"

text \<open>The command a string stands for; an unknown one fails.\<close>

definition dispatch :: "u8 list \<Rightarrow> tool_command option" where
  "dispatch cmd_str = map_option snd (find (\<lambda>(s, c). s = cmd_str) cmd_map)"


section \<open>Formatting\<close>

text \<open>What the other calls of the commands return.\<close>

record tool_env =
  te_paths :: "u8 list \<Rightarrow> path_results"
  te_close :: bool
  te_fdatasync :: bool
  te_sector :: "nat \<Rightarrow> bool \<times> u8 list option"
  te_mem :: bool
  te_pack :: pack_alloc
  te_uuid :: "u8 list option"
  te_salt :: u32
  te_discard :: discard_results

definition path_info :: "tool_env \<Rightarrow> u8 list option \<Rightarrow> bdev_info option" where
  "path_info e path = (case path of None \<Rightarrow> None | Some p \<Rightarrow> open_bdev_and_get_info (Some p) (te_paths e p))"

definition init_walb_metadata ::
  "tool_env \<Rightarrow> open_dev \<Rightarrow> u32 \<Rightarrow> u32 \<Rightarrow> u64 \<Rightarrow> u64 \<Rightarrow> u8 list option \<Rightarrow> bool \<times> open_dev" where
  "init_walb_metadata e dev lbs pbs ddev_lb ldev_lb name =
     (case sector_alloc_zero (unat pbs) (fst (te_sector e (unat pbs))) (snd (te_sector e (unat pbs))) of
        None \<Rightarrow> (False, dev)
      | Some super_sect \<Rightarrow>
          (case init_super_sector (te_uuid e) (te_salt e) lbs pbs ddev_lb ldev_lb name super_sect of
             None \<Rightarrow> (False, dev)
           | Some sect \<Rightarrow>
               (let (ok1, dev1) = write_super_sector (te_mem e) dev sect in
                if \<not> ok1 then (False, dev1)
                else
                  (let (ok2, dev2) = write_invalid_logpack_header (te_sector e (unat pbs)) dev1 sect 0 in
                   if \<not> ok2 then (False, dev2)
                   else case sector_zeroclear sect of
                     None \<Rightarrow> (False, dev2)
                   | Some zero_sect \<Rightarrow>
                       (let (ok3, sect3, dev3) = read_super_sector dev2 zero_sect in
                        if \<not> ok3 then (False, dev3) else (te_fdatasync e, dev3))))))"

definition do_format_ldev :: "tool_env \<Rightarrow> tool_config \<Rightarrow> open_dev \<Rightarrow> bool \<times> open_dev" where
  "do_format_ldev e cfg dev =
     (case path_info e (cf_ldev_name cfg) of
        None \<Rightarrow> (False, dev)
      | Some ldev_info \<Rightarrow>
          (case path_info e (cf_ddev_name cfg) of
             None \<Rightarrow> (False, dev)
           | Some ddev_info \<Rightarrow>
               if \<not> is_block_size_same ldev_info ddev_info then (False, dev)
               else
                 (let lbs = bi_lbs ldev_info; pbs = bi_pbs ldev_info in
                  if bi_size ldev_info mod ucast lbs \<noteq> 0 \<or> bi_size ddev_info mod ucast lbs \<noteq> 0 then (False, dev)
                  else
                    (let (supported, dev1) = (if cf_nodiscard cfg then (False, dev) else is_discard_supported (te_discard e) dev);
                         (ok, dev2) = (if supported then discard_whole_area (te_discard e) dev1 else (True, dev1)) in
                     if \<not> ok then (False, dev2)
                     else
                       (let (retb, dev3) = init_walb_metadata e dev2 lbs pbs (bi_size ddev_info div ucast lbs)
                                             (bi_size ldev_info div ucast lbs) (cf_name cfg) in
                        (retb \<and> te_close e, dev3))))))"

section \<open>Log streams\<close>

definition create_and_read_super_sector :: "tool_env \<Rightarrow> open_dev \<Rightarrow> u32 \<Rightarrow> sector_data option \<times> open_dev" where
  "create_and_read_super_sector e dev pbs =
     (case sector_alloc (unat pbs) (fst (te_sector e (unat pbs))) (snd (te_sector e (unat pbs))) of
        None \<Rightarrow> (None, dev)
      | Some sectd \<Rightarrow>
          (let (ok, sectd1, dev1) = dev_sector_read dev (get_super_sector0_offset pbs) sectd in
           if \<not> ok \<or> \<not> is_valid_super_sector sectd1 then (None, dev1) else (Some sectd1, dev1)))"

definition create_and_read_wlog_header :: "tool_env \<Rightarrow> in_stream \<Rightarrow> walblog_header option \<times> in_stream" where
  "create_and_read_wlog_header e st =
     (if \<not> te_mem e then (None, st)
      else
        (let (ok, buf, st1) = read_data WALBLOG_HEADER_SIZE st in
         if \<not> ok \<or> \<not> is_valid_wlog_header buf then (None, st1) else (Some (wlog_header_of_bytes buf), st1)))"

text \<open>The bytes of the header with its checksum; \<^verbatim>\<open>memset\<close> clears the rest of the buffer.\<close>

definition wlog_header_image :: "walblog_header \<Rightarrow> u8 list" where
  "wlog_header_image wh =
     (let rest = replicate (WALBLOG_HEADER_SIZE - 56) 0;
          csum = checksum (wlog_header_bytes (wh\<lparr>wh_checksum := 0\<rparr>) @ rest) WALBLOG_HEADER_SIZE 0 in
      wlog_header_bytes (wh\<lparr>wh_checksum := csum\<rparr>) @ rest)"

text \<open>The logpack buffer after a header of the log device has been taken with its data.\<close>

definition take_pack ::
  "pack_alloc \<Rightarrow> walb_super_sector \<Rightarrow> u32 \<Rightarrow> u32 \<Rightarrow> logpack \<Rightarrow> open_dev \<Rightarrow> (bool \<times> nat \<times> logpack \<times> open_dev) option" where
  "take_pack a super salt pbs pack dev =
     (let logh = lp_header pack; (ok, pack1) = resize_logpack_if_necessary a pack (unat (lh_total_io_size logh)) in
      if \<not> ok then Some (False, 0, pack1, dev)
      else map_option (\<lambda>(invalid_idx, ary, dev1).
             (True, invalid_idx,
              \<lparr>lp_sectd = (if 0 < invalid_idx \<and> invalid_idx < unat (lh_n_records logh)
                 then put_logh (tool_shrink_logpack_header logh invalid_idx pbs salt) (lp_sectd pack1) else lp_sectd pack1),
               lp_sectd_ary = ary\<rparr>, dev1))
           (read_logpack_data_from_wldev dev super logh salt (lp_sectd_ary pack1)))"

partial_function (option) cat_loop ::
  "pack_alloc \<Rightarrow> walb_super_sector \<Rightarrow> u32 \<Rightarrow> u32 \<Rightarrow> u64 \<Rightarrow> u64 \<Rightarrow> logpack \<Rightarrow> open_dev \<Rightarrow> out_stream \<Rightarrow> (bool \<times> out_stream) option" where
  "cat_loop a super salt pbs end_lsid lsid pack dev out =
     (if lsid < end_lsid then
        (case read_logpack_header_from_wldev dev super lsid salt (lp_sectd pack) of
           (retb, sect, dev1) \<Rightarrow>
             if \<not> retb then Some (True, out)
             else
               (case take_pack a super salt pbs (pack\<lparr>lp_sectd := sect\<rparr>) dev1 of
                  None \<Rightarrow> None
                | Some (ok, invalid_idx, pack2, dev2) \<Rightarrow>
                    if \<not> ok then Some (False, out)
                    else if invalid_idx = 0 then Some (True, out)
                    else
                      (case write_data (sector_bytes (lp_sectd pack2)) (unat pbs) out of
                         (ok1, out1) \<Rightarrow>
                           if \<not> ok1 then Some (False, out1)
                           else
                             (case sector_array_write out1 (lp_sectd_ary pack2) 0 (unat (lh_total_io_size (lp_header pack2))) of
                                None \<Rightarrow> None
                              | Some (ok2, out2) \<Rightarrow>
                                  if \<not> ok2 then Some (False, out2)
                                  else if invalid_idx < unat (lh_n_records (logpack_header_of_bytes (sector_bytes sect))) then Some (True, out2)
                                  else cat_loop a super salt pbs end_lsid (lsid + (ucast (lh_total_io_size (lp_header pack2)) + 1))
                                         pack2 dev2 out2))))
      else Some (True, out))"

definition do_cat_wldev :: "tool_env \<Rightarrow> tool_config \<Rightarrow> open_dev \<Rightarrow> out_stream \<Rightarrow> (bool \<times> out_stream) option" where
  "do_cat_wldev e cfg dev out =
     (case path_info e (cf_wldev_name cfg) of
        None \<Rightarrow> Some (False, out)
      | Some info \<Rightarrow>
          (let pbs = bi_pbs info in
           case create_and_read_super_sector e dev pbs of
             (None, dev1) \<Rightarrow> Some (False, out)
           | (Some super_sectd, dev1) \<Rightarrow>
               (let super = get_super_sector super_sectd; salt = ss_log_checksum_salt super in
                case alloc_logpack (te_pack e) pbs (1048576 div unat pbs) of
                  None \<Rightarrow> Some (False, out)
                | Some pack \<Rightarrow>
                    (let oldest_lsid = ss_oldest_lsid super;
                         begin_lsid = (if cf_lsid0 cfg = - 1 then oldest_lsid else cf_lsid0 cfg);
                         end_lsid = cf_lsid1 cfg in
                     if cf_lsid0 cfg < oldest_lsid \<or> begin_lsid > end_lsid then Some (False, out)
                     else
                       (case write_data (wlog_header_image
                              \<lparr>wh_sector_type = SECTOR_TYPE_WALBLOG_HEADER, wh_version = WALB_LOG_VERSION,
                               wh_header_size = of_nat WALBLOG_HEADER_SIZE, wh_reserved1 = 0, wh_checksum = 0,
                               wh_log_checksum_salt = salt, wh_logical_bs = bi_lbs info, wh_physical_bs = pbs,
                               wh_uuid = ss_uuid super, wh_begin_lsid = begin_lsid, wh_end_lsid = end_lsid\<rparr>) WALBLOG_HEADER_SIZE out of
                          (ok1, out1) \<Rightarrow>
                            if \<not> ok1 then Some (False, out1)
                            else
                              (case cat_loop (te_pack e) super salt pbs end_lsid begin_lsid pack dev1 out1 of
                                 None \<Rightarrow> None
                               | Some (False, out2) \<Rightarrow> Some (False, out2)
                               | Some (True, out2) \<Rightarrow>
                                   (let (ok3, out3) = write_end_logpack_header (te_sector e (unat pbs)) out2 pbs salt in
                                    Some (ok3 \<and> te_close e, out3))))))))"

text \<open>The loop of \<^verbatim>\<open>redo_wlog\<close>; a skipped logpack leaves \<^verbatim>\<open>lsid\<close> at its own lsid.\<close>

partial_function (option) redo_wlog_loop ::
  "pack_alloc \<Rightarrow> u32 \<Rightarrow> u32 \<Rightarrow> u64 \<Rightarrow> u64 \<Rightarrow> u64 \<Rightarrow> logpack \<Rightarrow> in_stream \<Rightarrow> open_dev \<Rightarrow> (bool \<times> open_dev) option" where
  "redo_wlog_loop a salt pbs begin_lsid end_lsid lsid pack st dev =
     (if lsid < end_lsid then
        (case read_logpack_header st pbs salt (lp_sectd pack) of
           (ok, sect, st1) \<Rightarrow>
             (let logh = logpack_header_of_bytes (sector_bytes sect) in
              if \<not> ok \<or> is_end_logpack_header logh then Some (True, dev)
              else
                (case resize_logpack_if_necessary a (pack\<lparr>lp_sectd := sect\<rparr>) (unat (lh_total_io_size logh)) of
                   (ok1, pack1) \<Rightarrow>
                     if \<not> ok1 then Some (False, dev)
                     else
                       (case read_logpack_data st1 logh salt (lp_sectd_ary pack1) of
                          None \<Rightarrow> None
                        | Some (ok2, ary, st2) \<Rightarrow>
                            if \<not> ok2 then Some (False, dev)
                            else
                              (let lsid1 = lh_logpack_lsid logh; pack2 = pack1\<lparr>lp_sectd_ary := ary\<rparr> in
                               if lsid1 < begin_lsid then redo_wlog_loop a salt pbs begin_lsid end_lsid lsid1 pack2 st2 dev
                               else if end_lsid \<le> lsid1 then Some (True, dev)
                               else
                                 (case tool_redo_logpack dev logh ary of
                                    None \<Rightarrow> None
                                  | Some (ok3, dev1) \<Rightarrow>
                                      if \<not> ok3 then Some (False, dev1)
                                      else redo_wlog_loop a salt pbs begin_lsid end_lsid lsid1 pack2 st2 dev1))))))
      else Some (True, dev))"

definition do_redo_wlog :: "tool_env \<Rightarrow> tool_config \<Rightarrow> in_stream \<Rightarrow> open_dev \<Rightarrow> (bool \<times> open_dev) option" where
  "do_redo_wlog e cfg st dev =
     (case path_info e (cf_ddev_name cfg) of
        None \<Rightarrow> Some (False, dev)
      | Some info \<Rightarrow>
          (case create_and_read_wlog_header e st of
             (None, st1) \<Rightarrow> Some (False, dev)
           | (Some wh, st1) \<Rightarrow>
               if bi_lbs info \<noteq> wh_logical_bs wh \<or> bi_pbs info \<noteq> wh_physical_bs wh then Some (False, dev)
               else
                 (let begin_lsid = (if cf_lsid0 cfg = - 1 then wh_begin_lsid wh else cf_lsid0 cfg);
                      end_lsid = (if cf_lsid1 cfg = - 1 then wh_end_lsid wh else cf_lsid1 cfg);
                      pbs = bi_pbs info in
                  case alloc_logpack (te_pack e) pbs (1048576 div unat pbs) of
                    None \<Rightarrow> Some (False, dev)
                  | Some pack \<Rightarrow>
                      map_option (\<lambda>(ok, dev1). (ok \<and> te_fdatasync e \<and> te_close e, dev1))
                        (redo_wlog_loop (te_pack e) (wh_log_checksum_salt wh) pbs begin_lsid end_lsid begin_lsid pack st1 dev))))"

section \<open>Replaying the log device\<close>

text \<open>The loop of \<^verbatim>\<open>redo\<close> ends with the lsid up to which whole logpacks were written.\<close>

partial_function (option) tool_redo_loop ::
  "pack_alloc \<Rightarrow> walb_super_sector \<Rightarrow> u32 \<Rightarrow> u32 \<Rightarrow> u64 \<Rightarrow> logpack \<Rightarrow> open_dev \<Rightarrow> open_dev \<Rightarrow> (bool \<times> u64 \<times> open_dev \<times> open_dev) option" where
  "tool_redo_loop a super salt pbs lsid pack ldev ddev =
     (case read_logpack_header_from_wldev ldev super lsid salt (lp_sectd pack) of
        (retb, sect, ldev1) \<Rightarrow>
          if \<not> retb then Some (True, lsid, ldev1, ddev)
          else
            (case take_pack a super salt pbs (pack\<lparr>lp_sectd := sect\<rparr>) ldev1 of
               None \<Rightarrow> None
             | Some (ok, invalid_idx, pack2, ldev2) \<Rightarrow>
                 if \<not> ok then Some (False, lsid, ldev2, ddev)
                 else if invalid_idx = 0 then Some (True, lsid, ldev2, ddev)
                 else
                   (case tool_redo_logpack ddev (lp_header pack2) (lp_sectd_ary pack2) of
                      None \<Rightarrow> None
                    | Some (ok1, ddev1) \<Rightarrow>
                        if \<not> ok1 then Some (False, lsid, ldev2, ddev1)
                        else if invalid_idx < unat (lh_n_records (logpack_header_of_bytes (sector_bytes sect)))
                        then Some (True, lsid, ldev2, ddev1)
                        else tool_redo_loop a super salt pbs (lsid + (ucast (lh_total_io_size (lp_header pack2)) + 1)) pack2 ldev2 ddev1)))"

definition do_redo :: "tool_env \<Rightarrow> tool_config \<Rightarrow> open_dev \<Rightarrow> open_dev \<Rightarrow> (bool \<times> open_dev \<times> open_dev) option" where
  "do_redo e cfg ldev ddev =
     (case path_info e (cf_ldev_name cfg) of
        None \<Rightarrow> Some (False, ldev, ddev)
      | Some ldev_info \<Rightarrow>
          (case path_info e (cf_ddev_name cfg) of
             None \<Rightarrow> Some (False, ldev, ddev)
           | Some ddev_info \<Rightarrow>
               if \<not> is_block_size_same ldev_info ddev_info then Some (False, ldev, ddev)
               else
                 (let pbs = bi_pbs ldev_info in
                  case create_and_read_super_sector e ldev pbs of
                    (None, ldev1) \<Rightarrow> Some (False, ldev1, ddev)
                  | (Some super_sectd, ldev1) \<Rightarrow>
                      (let super = get_super_sector super_sectd; salt = ss_log_checksum_salt super in
                       case alloc_logpack (te_pack e) pbs (1048576 div unat pbs) of
                         None \<Rightarrow> Some (False, ldev1, ddev)
                       | Some pack \<Rightarrow>
                           (case tool_redo_loop (te_pack e) super salt pbs (ss_written_lsid super) pack ldev1 ddev of
                              None \<Rightarrow> None
                            | Some (ok, end_lsid, ldev2, ddev1) \<Rightarrow>
                                if \<not> ok then Some (False, ldev2, ddev1)
                                else
                                  (let (ok1, ldev3) = write_super_sector (te_mem e) ldev2
                                         (put_super_sector (super\<lparr>ss_written_lsid := end_lsid\<rparr>) super_sectd) in
                                   Some (ok1 \<and> te_fdatasync e \<and> te_close e, ldev3, ddev1)))))))"


section \<open>Showing logs\<close>

text \<open>The totals printed at the end: the end lsid, the total padding and the number of logpacks.\<close>

record show_totals =
  st_lsid :: u64
  st_padding :: u64
  st_packs :: u64

partial_function (option) show_wlog_loop ::
  "pack_alloc \<Rightarrow> u32 \<Rightarrow> u32 \<Rightarrow> u64 \<Rightarrow> u64 \<Rightarrow> logpack \<Rightarrow> in_stream \<Rightarrow> show_totals \<Rightarrow> show_totals option option" where
  "show_wlog_loop a salt pbs begin_lsid end_lsid pack st t =
     (case read_logpack_header st pbs salt (lp_sectd pack) of
        (ok, sect, st1) \<Rightarrow>
          (let logh = logpack_header_of_bytes (sector_bytes sect); lsid = lh_logpack_lsid logh; pack1 = pack\<lparr>lp_sectd := sect\<rparr> in
           if \<not> ok \<or> is_end_logpack_header logh then Some (Some t)
           else if lsid < begin_lsid then show_wlog_loop a salt pbs begin_lsid end_lsid pack1 st1 (t\<lparr>st_lsid := lsid\<rparr>)
           else if end_lsid \<le> lsid then Some (Some (t\<lparr>st_lsid := lsid\<rparr>))
           else
             (case resize_logpack_if_necessary a pack1 (unat (lh_total_io_size logh)) of
                (ok1, pack2) \<Rightarrow>
                  if \<not> ok1 then Some None
                  else
                    (case read_logpack_data st1 logh salt (lp_sectd_ary pack2) of
                       None \<Rightarrow> None
                     | Some (ok2, ary, st2) \<Rightarrow>
                         if \<not> ok2 then Some None
                         else show_wlog_loop a salt pbs begin_lsid end_lsid (pack2\<lparr>lp_sectd_ary := ary\<rparr>) st2
                                \<lparr>st_lsid = lsid + (1 + ucast (lh_total_io_size logh)),
                                 st_padding = st_padding t + ucast (get_padding_size_in_logpack_header logh pbs),
                                 st_packs = st_packs t + 1\<rparr>))))"

definition do_show_wlog :: "tool_env \<Rightarrow> tool_config \<Rightarrow> in_stream \<Rightarrow> show_totals option option" where
  "do_show_wlog e cfg st =
     (case create_and_read_wlog_header e st of
        (None, st1) \<Rightarrow> Some None
      | (Some wh, st1) \<Rightarrow>
          (let pbs = wh_physical_bs wh in
           case alloc_logpack (te_pack e) pbs (1048576 div unat pbs) of
             None \<Rightarrow> Some None
           | Some pack \<Rightarrow>
               (let begin_lsid = (if cf_lsid0 cfg = - 1 then wh_begin_lsid wh else cf_lsid0 cfg);
                    end_lsid = (if cf_lsid1 cfg = - 1 then wh_end_lsid wh else cf_lsid1 cfg) in
                show_wlog_loop (te_pack e) (wh_log_checksum_salt wh) pbs begin_lsid end_lsid pack st1
                  \<lparr>st_lsid = begin_lsid, st_padding = 0, st_packs = 0\<rparr>)))"

partial_function (option) show_wldev_loop ::
  "walb_super_sector \<Rightarrow> u32 \<Rightarrow> u32 \<Rightarrow> u64 \<Rightarrow> sector_data \<Rightarrow> open_dev \<Rightarrow> show_totals \<Rightarrow> show_totals option" where
  "show_wldev_loop super salt pbs end_lsid sect dev t =
     (if st_lsid t < end_lsid then
        (case read_logpack_header_from_wldev dev super (st_lsid t) salt sect of
           (retb, sect1, dev1) \<Rightarrow>
             if \<not> retb then Some t
             else
               (let logh = logpack_header_of_bytes (sector_bytes sect1) in
                show_wldev_loop super salt pbs end_lsid sect1 dev1
                  \<lparr>st_lsid = st_lsid t + (ucast (lh_total_io_size logh) + 1),
                   st_padding = st_padding t + ucast (get_padding_size_in_logpack_header logh pbs), st_packs = st_packs t + 1\<rparr>))
      else Some t)"

definition do_show_wldev :: "tool_env \<Rightarrow> tool_config \<Rightarrow> open_dev \<Rightarrow> (bool \<times> show_totals option) option" where
  "do_show_wldev e cfg dev =
     (case path_info e (cf_wldev_name cfg) of
        None \<Rightarrow> Some (False, None)
      | Some info \<Rightarrow>
          (let pbs = bi_pbs info in
           case create_and_read_super_sector e dev pbs of
             (None, dev1) \<Rightarrow> Some (False, None)
           | (Some super_sectd, dev1) \<Rightarrow>
               (let super = get_super_sector super_sectd; oldest_lsid = ss_oldest_lsid super in
                case alloc_logpack (te_pack e) pbs 1 of
                  None \<Rightarrow> Some (False, None)
                | Some pack \<Rightarrow>
                    (let begin_lsid = (if cf_lsid0 cfg = - 1 then oldest_lsid else cf_lsid0 cfg); end_lsid = cf_lsid1 cfg in
                     if cf_lsid0 cfg < oldest_lsid \<or> begin_lsid > end_lsid then Some (False, None)
                     else map_option (\<lambda>t. (te_close e, Some t))
                            (show_wldev_loop super (ss_log_checksum_salt super) pbs end_lsid (lp_sectd pack) dev1
                               \<lparr>st_lsid = begin_lsid, st_padding = 0, st_packs = 0\<rparr>)))))"

text \<open>The search for a valid logpack header among \<^verbatim>\<open>n\<close> lsids.\<close>

fun search_loop :: "walb_super_sector \<Rightarrow> u32 \<Rightarrow> nat \<Rightarrow> u64 \<Rightarrow> sector_data \<Rightarrow> open_dev \<Rightarrow> u64 option" where
  "search_loop super salt 0 lsid sect dev = None"
| "search_loop super salt (Suc n) lsid sect dev =
     (case read_logpack_header_from_wldev dev super lsid salt sect of
        (retb, sect1, dev1) \<Rightarrow> if retb then Some lsid else search_loop super salt n (lsid + 1) sect1 dev1)"

text \<open>The loop runs while the lsid is below the end, which may have wrapped around.\<close>

definition do_search_valid_lsid :: "tool_env \<Rightarrow> tool_config \<Rightarrow> open_dev \<Rightarrow> bool \<times> u64 option" where
  "do_search_valid_lsid e cfg dev =
     (let n_pb = (if cf_size cfg = - 1 then 65536 else cf_size cfg) in
      if cf_lsid cfg = - 1 then (False, None)
      else if n_pb = 0 \<or> 65536 < n_pb then (False, None)
      else case path_info e (cf_wldev_name cfg) of
        None \<Rightarrow> (False, None)
      | Some info \<Rightarrow>
          (let pbs = bi_pbs info in
           case create_and_read_super_sector e dev pbs of
             (None, dev1) \<Rightarrow> (False, None)
           | (Some super_sectd, dev1) \<Rightarrow>
               (let super = get_super_sector super_sectd in
                case alloc_logpack (te_pack e) pbs (1048576 div unat pbs) of
                  None \<Rightarrow> (False, None)
                | Some pack \<Rightarrow>
                    (let begin_lsid = cf_lsid cfg; end_lsid = begin_lsid + n_pb in
                     if begin_lsid < ss_oldest_lsid super then (False, None)
                     else (te_close e, search_loop super (ss_log_checksum_salt super)
                            (if begin_lsid < end_lsid then unat n_pb else 0) begin_lsid (lp_sectd pack) dev1)))))"

section \<open>Commands of the driver\<close>

text \<open>The driver, as its answer to an ioctl: a return value and the control structure.\<close>

type_synonym driver = "walb_ctl \<Rightarrow> int \<times> walb_ctl"

definition zero_data :: walb_ctl_data where
  "zero_data = \<lparr>cd_wmajor = 0, cd_wminor = 0, cd_lmajor = 0, cd_lminor = 0, cd_dmajor = 0, cd_dminor = 0, cd_buf_size = 0,
     cd_buf = None, cd_kbuf = None\<rparr>"

definition command_ctl :: "nat \<Rightarrow> walb_ctl" where
  "command_ctl command = \<lparr>ctl_command = command, ctl_val_int = 0, ctl_val_u64 = 0, ctl_val_u32 = 0, ctl_error = 0,
     ctl_u2k = zero_data, ctl_k2u = zero_data\<rparr>"

definition invoke_ioctl :: "tool_env \<Rightarrow> driver \<Rightarrow> u8 list option \<Rightarrow> walb_ctl \<Rightarrow> bool \<times> walb_ctl" where
  "invoke_ioctl e drv wdev_name ctl =
     (case path_info e wdev_name of
        None \<Rightarrow> (False, ctl)
      | Some info \<Rightarrow> (let (ret, ctl1) = drv ctl in if ret < 0 then (False, ctl1) else (te_close e, ctl1)))"

definition ioctl_and_print_bool :: "tool_env \<Rightarrow> driver \<Rightarrow> u8 list option \<Rightarrow> nat \<Rightarrow> int option" where
  "ioctl_and_print_bool e drv wdev_name cmd =
     (let (ok, ctl) = invoke_ioctl e drv wdev_name (command_ctl cmd) in if \<not> ok then None else Some (ctl_val_int ctl))"

definition get_ioctl_u64 :: "tool_env \<Rightarrow> driver \<Rightarrow> u8 list option \<Rightarrow> nat \<Rightarrow> u64" where
  "get_ioctl_u64 e drv wdev_name command =
     (let (ok, ctl) = invoke_ioctl e drv wdev_name (command_ctl command) in if ok then ctl_val_u64 ctl else - 1)"

text \<open>The commands that print a 64-bit value differ in the ioctl only; \<^verbatim>\<open>-1\<close> is taken for a failure.\<close>

definition print_u64 :: "u64 \<Rightarrow> u64 option" where
  "print_u64 v = (if v = - 1 then None else Some v)"

definition do_get_oldest_lsid :: "tool_env \<Rightarrow> driver \<Rightarrow> tool_config \<Rightarrow> u64 option" where
  "do_get_oldest_lsid e drv cfg = print_u64 (get_ioctl_u64 e drv (cf_wdev_name cfg) WALB_IOCTL_GET_OLDEST_LSID)"

definition do_get_written_lsid :: "tool_env \<Rightarrow> driver \<Rightarrow> tool_config \<Rightarrow> u64 option" where
  "do_get_written_lsid e drv cfg = print_u64 (get_ioctl_u64 e drv (cf_wdev_name cfg) WALB_IOCTL_GET_WRITTEN_LSID)"

definition do_get_permanent_lsid :: "tool_env \<Rightarrow> driver \<Rightarrow> tool_config \<Rightarrow> u64 option" where
  "do_get_permanent_lsid e drv cfg = print_u64 (get_ioctl_u64 e drv (cf_wdev_name cfg) WALB_IOCTL_GET_PERMANENT_LSID)"

definition do_get_completed_lsid :: "tool_env \<Rightarrow> driver \<Rightarrow> tool_config \<Rightarrow> u64 option" where
  "do_get_completed_lsid e drv cfg = print_u64 (get_ioctl_u64 e drv (cf_wdev_name cfg) WALB_IOCTL_GET_COMPLETED_LSID)"

definition do_get_log_usage :: "tool_env \<Rightarrow> driver \<Rightarrow> tool_config \<Rightarrow> u64 option" where
  "do_get_log_usage e drv cfg = print_u64 (get_ioctl_u64 e drv (cf_wdev_name cfg) WALB_IOCTL_GET_LOG_USAGE)"

definition do_get_log_capacity :: "tool_env \<Rightarrow> driver \<Rightarrow> tool_config \<Rightarrow> u64 option" where
  "do_get_log_capacity e drv cfg = print_u64 (get_ioctl_u64 e drv (cf_wdev_name cfg) WALB_IOCTL_GET_LOG_CAPACITY)"

definition do_set_oldest_lsid :: "tool_env \<Rightarrow> driver \<Rightarrow> tool_config \<Rightarrow> bool" where
  "do_set_oldest_lsid e drv cfg =
     fst (invoke_ioctl e drv (cf_wdev_name cfg) ((command_ctl WALB_IOCTL_SET_OLDEST_LSID)\<lparr>ctl_val_u64 := cf_lsid cfg\<rparr>))"

definition do_take_checkpoint :: "tool_env \<Rightarrow> driver \<Rightarrow> tool_config \<Rightarrow> bool" where
  "do_take_checkpoint e drv cfg = fst (invoke_ioctl e drv (cf_wdev_name cfg) (command_ctl WALB_IOCTL_TAKE_CHECKPOINT))"

definition do_set_checkpoint_interval :: "tool_env \<Rightarrow> driver \<Rightarrow> tool_config \<Rightarrow> bool" where
  "do_set_checkpoint_interval e drv cfg =
     (if cf_size cfg = - 1 then False
      else if cf_size cfg > 4294967295 then False
      else fst (invoke_ioctl e drv (cf_wdev_name cfg)
             ((command_ctl WALB_IOCTL_SET_CHECKPOINT_INTERVAL)\<lparr>ctl_val_u32 := ucast (cf_size cfg)\<rparr>)))"

definition do_get_checkpoint_interval :: "tool_env \<Rightarrow> driver \<Rightarrow> tool_config \<Rightarrow> u32 option" where
  "do_get_checkpoint_interval e drv cfg =
     (let (ok, ctl) = invoke_ioctl e drv (cf_wdev_name cfg) (command_ctl WALB_IOCTL_GET_CHECKPOINT_INTERVAL) in
      if \<not> ok then None else Some (ctl_val_u32 ctl))"

definition do_is_flush_capable :: "tool_env \<Rightarrow> driver \<Rightarrow> tool_config \<Rightarrow> int option" where
  "do_is_flush_capable e drv cfg = ioctl_and_print_bool e drv (cf_wdev_name cfg) WALB_IOCTL_IS_FLUSH_CAPABLE"

definition do_is_log_overflow :: "tool_env \<Rightarrow> driver \<Rightarrow> tool_config \<Rightarrow> int option" where
  "do_is_log_overflow e drv cfg = ioctl_and_print_bool e drv (cf_wdev_name cfg) WALB_IOCTL_IS_LOG_OVERFLOW"

definition do_is_frozen :: "tool_env \<Rightarrow> driver \<Rightarrow> tool_config \<Rightarrow> int option" where
  "do_is_frozen e drv cfg = ioctl_and_print_bool e drv (cf_wdev_name cfg) WALB_IOCTL_IS_FROZEN"

definition do_resize :: "tool_env \<Rightarrow> driver \<Rightarrow> tool_config \<Rightarrow> bool" where
  "do_resize e drv cfg =
     fst (invoke_ioctl e drv (cf_wdev_name cfg) ((command_ctl WALB_IOCTL_RESIZE)\<lparr>ctl_val_u64 := cf_size cfg\<rparr>))"

definition do_reset_wal :: "tool_env \<Rightarrow> driver \<Rightarrow> tool_config \<Rightarrow> bool" where
  "do_reset_wal e drv cfg = fst (invoke_ioctl e drv (cf_wdev_name cfg) (command_ctl WALB_IOCTL_CLEAR_LOG))"

definition do_freeze :: "tool_env \<Rightarrow> driver \<Rightarrow> tool_config \<Rightarrow> bool" where
  "do_freeze e drv cfg =
     fst (invoke_ioctl e drv (cf_wdev_name cfg)
       ((command_ctl WALB_IOCTL_FREEZE)\<lparr>ctl_val_u32 := (if cf_size cfg > 4294967295 then 0 else ucast (cf_size cfg))\<rparr>))"

definition do_melt :: "tool_env \<Rightarrow> driver \<Rightarrow> tool_config \<Rightarrow> bool" where
  "do_melt e drv cfg = fst (invoke_ioctl e drv (cf_wdev_name cfg) (command_ctl WALB_IOCTL_MELT))"

text \<open>Creating and deleting devices goes to the control device.\<close>

definition create_param :: "tool_config \<Rightarrow> walb_start_param" where
  "create_param cfg =
     (let p = cf_param cfg in
      p\<lparr>sp_name := (case cf_name cfg of
          Some nm \<Rightarrow> overwrite 0 (take (DISK_NAME_LEN - 1) (takeWhile (\<lambda>c. c \<noteq> 0) nm) @ [0]) (sp_name p)
        | None \<Rightarrow> (sp_name p)[0 := 0])\<rparr>)"

definition create_ctl :: "tool_config \<Rightarrow> bdev_info \<Rightarrow> bdev_info \<Rightarrow> walb_ctl" where
  "create_ctl cfg ldev_info ddev_info =
     (command_ctl WALB_IOCTL_START_DEV)\<lparr>
       ctl_u2k := zero_data\<lparr>cd_wminor := WALB_DYNAMIC_MINOR, cd_lmajor := bi_major ldev_info,
         cd_lminor := bi_minor ldev_info, cd_dmajor := bi_major ddev_info, cd_dminor := bi_minor ddev_info,
         cd_buf_size := SIZEOF_START_PARAM, cd_buf := Some (start_param_bytes (create_param cfg))\<rparr>,
       ctl_k2u := zero_data\<lparr>cd_buf_size := SIZEOF_START_PARAM, cd_buf := Some (replicate 64 0)\<rparr>\<rparr>"

text \<open>The printed name, major and minor number of the new device.\<close>

definition do_create_wdev :: "tool_env \<Rightarrow> bool \<Rightarrow> driver \<Rightarrow> tool_config \<Rightarrow> bool \<times> (u8 list option \<times> u32 \<times> u32) option" where
  "do_create_wdev e open_ok drv cfg =
     (if \<not> is_walb_start_param_valid (cf_param cfg) then (False, None)
      else case path_info e (cf_ldev_name cfg) of
        None \<Rightarrow> (False, None)
      | Some ldev_info \<Rightarrow>
          (case path_info e (cf_ddev_name cfg) of
             None \<Rightarrow> (False, None)
           | Some ddev_info \<Rightarrow>
               if \<not> open_ok then (False, None)
               else
                 (let (ret, ctl) = drv (create_ctl cfg ldev_info ddev_info) in
                  if ret < 0 then (False, None)
                  else (te_close e, Some (map_option (\<lambda>b. sp_name (start_param_of_bytes b)) (cd_buf (ctl_k2u ctl)),
                         cd_wmajor (ctl_k2u ctl), cd_wminor (ctl_k2u ctl))))))"

definition do_delete_wdev :: "tool_env \<Rightarrow> bool \<Rightarrow> driver \<Rightarrow> tool_config \<Rightarrow> bool" where
  "do_delete_wdev e open_ok drv cfg =
     (case path_info e (cf_wdev_name cfg) of
        None \<Rightarrow> False
      | Some info \<Rightarrow>
          if \<not> open_ok then False
          else
            (let (ret, ctl) = drv ((command_ctl WALB_IOCTL_STOP_DEV)\<lparr>ctl_u2k := zero_data\<lparr>cd_wmajor := bi_major info,
                   cd_wminor := bi_minor info\<rparr>\<rparr>) in
             \<not> ret < 0 \<and> te_close e))"

definition do_get_version :: "bool \<Rightarrow> u32 option \<Rightarrow> bool \<Rightarrow> bool \<times> (u32 \<times> u32 \<times> u32) option" where
  "do_get_version open_ok version close_ok =
     (if \<not> open_ok then (False, None)
      else case version of
        None \<Rightarrow> (False, None)
      | Some v \<Rightarrow> (close_ok, Some (drop_bit 16 (v AND 0x00ff0000), drop_bit 8 (v AND 0x0000ff00), v AND 0x000000ff)))"


section \<open>Parameters from the command line to the driver\<close>

lemma apply_opt_name [simp]: "sp_name (cf_param (apply_opt c cfg)) = sp_name (cf_param cfg)"
  by (cases c) (simp_all add: set_param_def)

lemma parse_args_param [simp]: "cf_param (snd (parse_args w0 args cfg)) = cf_param cfg"
  by (induction w0 args cfg rule: parse_args.induct) (simp_all add: Let_def)

lemma parse_opt_name: "sp_name (cf_param (snd (parse_opt opts args cfg))) = sp_name (cf_param cfg)"
  by (induction opts args cfg rule: parse_opt.induct) simp_all

lemma create_param_ok:
  assumes "length (sp_name (cf_param cfg)) = DISK_NAME_LEN" "is_walb_start_param_valid (cf_param cfg)"
  shows "length (sp_name (create_param cfg)) = DISK_NAME_LEN" "is_walb_start_param_valid (create_param cfg)"
proof -
  have short: "strnlen (bs @ 0 # xs) DISK_NAME_LEN < DISK_NAME_LEN" if l: "length bs < DISK_NAME_LEN" for bs xs :: "u8 list"
  proof -
    obtain k where "DISK_NAME_LEN - length bs = Suc k" using l by (cases "DISK_NAME_LEN - length bs") auto
    then have "take DISK_NAME_LEN (bs @ 0 # xs) = bs @ 0 # take k xs" using l by simp
    then have "strnlen (bs @ 0 # xs) DISK_NAME_LEN \<le> length bs"
      by (simp add: strnlen_def takeWhile_append length_takeWhile_le)
    then show ?thesis using l by simp
  qed
  have name: "\<exists>bs xs. sp_name (create_param cfg) = bs @ 0 # xs \<and> length bs < DISK_NAME_LEN \<and> length (bs @ 0 # xs) = DISK_NAME_LEN"
  proof (cases "cf_name cfg")
    case None
    have "0 < DISK_NAME_LEN" by (simp add: DISK_NAME_LEN_def)
    then obtain x xs where "sp_name (cf_param cfg) = x # xs" using assms(1) by (cases "sp_name (cf_param cfg)") auto
    then show ?thesis using None assms(1) by (intro exI [of _ "[]"] exI [of _ xs]) (simp add: create_param_def Let_def)
  next
    case (Some nm)
    let ?b = "take (DISK_NAME_LEN - 1) (takeWhile (\<lambda>c. c \<noteq> 0) nm)"
    have "length ?b < DISK_NAME_LEN" by (simp add: DISK_NAME_LEN_def)
    then show ?thesis
      using Some assms(1) by (intro exI [of _ ?b] exI [of _ "drop (Suc (length ?b)) (sp_name (cf_param cfg))"])
        (simp add: create_param_def overwrite_def Let_def)
  qed
  then show "length (sp_name (create_param cfg)) = DISK_NAME_LEN" by fastforce
  have "strnlen (sp_name (create_param cfg)) DISK_NAME_LEN < DISK_NAME_LEN" using name short by fastforce
  then show "is_walb_start_param_valid (create_param cfg)"
    using assms(2) by (simp add: is_walb_start_param_valid_def) (simp add: create_param_def Let_def)
qed


definition create_config :: tool_config where
  "create_config = snd (parse_opt [OPT_NAME [119, 49], OPT_MAX_PENDING_MB [54, 52]] [[99]] init_config)"

definition create_results :: ctl_results where
  "create_results = \<lparr>cr_alloc = True, cr_copy_in = True, cr_alloc_u2k = True, cr_copy_u2k = True, cr_alloc_k2u = True,
     cr_copy_k2u = True, cr_copy_out = True\<rparr>"


end
