(* ===== verification/Walb_Log_Stream.thy ===== *)
theory Walb_Log_Stream
  imports Walb_Ctl
begin

text \<open>
  What the commands of the control tool do with a log of complete logpacks: \<^verbatim>\<open>cat_wldev\<close> sends
  it to a stream, \<^verbatim>\<open>redo_wlog\<close> replays the stream and \<^verbatim>\<open>redo\<close> the log device itself.  A
  logpack is given by its header and the data of its records.
\<close>

section \<open>Logpacks on a log device and in a stream\<close>

type_synonym stored_pack = "walb_logpack_header \<times> u8 list"

definition stored_ok :: "u32 \<Rightarrow> u64 \<Rightarrow> u32 \<Rightarrow> stored_pack \<Rightarrow> bool" where
  "stored_ok pbs rbs salt p \<longleftrightarrow>
     length (logpack_header_bytes (fst p)) = unat pbs \<and> length (lh_tail (fst p)) < 32 \<and> 0 < lh_n_records (fst p) \<and>
     logpack_inv pbs rbs (fst p) \<and> checksum (logpack_header_bytes (fst p)) (unat pbs) salt = 0 \<and>
     recs_data pbs salt (used_records (fst p)) (snd p)"

definition block_at :: "walb_super_sector \<Rightarrow> u8 list \<Rightarrow> u64 \<Rightarrow> u8 list option" where
  "block_at super bytes lsid =
     (let n = unat (ss_physical_bs super); off = unat (get_offset_of_lsid_2 super lsid) * n in
      if off + n \<le> length bytes then Some (take n (drop off bytes)) else None)"

definition pack_end :: "walb_logpack_header \<Rightarrow> u64" where
  "pack_end h = lh_logpack_lsid h + (ucast (lh_total_io_size h) + 1)"

fun packs_stored :: "walb_super_sector \<Rightarrow> u8 list \<Rightarrow> u64 \<Rightarrow> stored_pack list \<Rightarrow> u64 \<Rightarrow> bool" where
  "packs_stored super bytes l [] l' \<longleftrightarrow> l = l'"
| "packs_stored super bytes l (p # ps) l' \<longleftrightarrow>
     block_at super bytes l = Some (logpack_header_bytes (fst p)) \<and> lh_logpack_lsid (fst p) = l \<and>
     stored_ok (ss_physical_bs super) (ss_ring_buffer_size super) (ss_log_checksum_salt super) p \<and>
     recs_on_dev super bytes (used_records (fst p)) (snd p) \<and> packs_stored super bytes (pack_end (fst p)) ps l'"

text \<open>The block at an lsid can be read and holds no logpack header for it.\<close>

definition log_ends_at :: "walb_super_sector \<Rightarrow> u8 list \<Rightarrow> u64 \<Rightarrow> bool" where
  "log_ends_at super bytes l =
     (case block_at super bytes l of
        None \<Rightarrow> False
      | Some b \<Rightarrow>
          (let h = logpack_header_of_bytes b in
           \<not> (lh_logpack_lsid h = l \<and> is_valid_logpack_header_with_checksum h (ss_physical_bs super) (ss_log_checksum_salt super))))"

definition stream_of :: "stored_pack list \<Rightarrow> u8 list" where
  "stream_of ps = concat (map (\<lambda>(h, d). logpack_header_bytes h @ d) ps)"

definition replay_packs :: "u32 \<Rightarrow> stored_pack list \<Rightarrow> u8 list \<Rightarrow> u8 list" where
  "replay_packs pbs ps dd = fold (\<lambda>(h, d). replay_bytes pbs (used_records h) d) ps dd"

definition packs_fit :: "nat \<Rightarrow> stored_pack list \<Rightarrow> bool" where
  "packs_fit len ps \<longleftrightarrow> (\<forall>p \<in> set ps. recs_fit len (used_records (fst p)))"

text \<open>The log devices and the buffers the lemmas are about; memory is never short.\<close>

definition log_dev_ok :: "walb_super_sector \<Rightarrow> u8 list \<Rightarrow> bool" where
  "log_dev_ok super bytes \<longleftrightarrow>
     is_valid_pbs (ss_physical_bs super) \<and> unat (ss_physical_bs super) \<le> 4096 \<and> ss_logical_bs super = LOGICAL_BLOCK_SIZE \<and>
     65536 \<le> unat (ss_ring_buffer_size super) \<and> length bytes < 2 ^ 64"

definition allocs_ok :: "nat \<Rightarrow> nat \<Rightarrow> (bool \<times> u8 list option) list \<Rightarrow> bool" where
  "allocs_ok ss n allocs \<longleftrightarrow> n \<le> length allocs \<and> (\<forall>x \<in> set allocs. fst x \<and> (\<exists>b. snd x = Some b \<and> length b = ss))"

definition memory_ok :: "u32 \<Rightarrow> pack_alloc \<Rightarrow> bool" where
  "memory_ok pbs a \<longleftrightarrow>
     pa_malloc a \<and> fst (pa_header a) \<and> (\<exists>b. snd (pa_header a) = Some b \<and> length b = unat pbs) \<and>
     fst (pa_array a) \<and> fst (snd (pa_array a)) \<and> allocs_ok (unat pbs) (1048576 div unat pbs) (snd (snd (pa_array a))) \<and>
     (\<forall>n. fst (pa_realloc a n) \<and> allocs_ok (unat pbs) n (snd (pa_realloc a n)))"

definition pack_wf :: "u32 \<Rightarrow> logpack \<Rightarrow> bool" where
  "pack_wf pbs pack \<longleftrightarrow>
     sector_wf (lp_sectd pack) \<and> sd_size (lp_sectd pack) = unat pbs \<and> sector_array_wf (lp_sectd_ary pack) \<and>
     sa_sector_size (lp_sectd_ary pack) = unat pbs"

section \<open>Buffers\<close>

lemma alloc_sectors_succeeds:
  assumes "n \<le> length allocs" "\<forall>x \<in> set allocs. fst x \<and> (\<exists>b. snd x = Some b \<and> length b = ss)"
  shows "\<exists>a. alloc_sectors ss n allocs = Some a"
  using assms by (induction ss n allocs rule: alloc_sectors.induct) (auto simp: sector_alloc_def)

lemma allocs_ok_sized: "allocs_ok ss n allocs \<Longrightarrow> allocs_sized ss allocs"
  by (fastforce simp: allocs_ok_def allocs_sized_def)

lemma allocs_ok_some: "allocs_ok ss n allocs \<Longrightarrow> m \<le> n \<Longrightarrow> \<exists>a. alloc_sectors ss m allocs = Some a"
  by (rule alloc_sectors_succeeds) (auto simp: allocs_ok_def)

lemma alloc_logpack_ok:
  assumes "memory_ok pbs a" "is_valid_pbs pbs" "unat pbs \<le> 4096"
  obtains pack where "alloc_logpack a pbs (1048576 div unat pbs) = Some pack" "pack_wf pbs pack"
proof -
  have n: "0 < unat pbs" "0 < 1048576 div unat pbs" using assms(2,3) by (auto simp: is_valid_pbs_unat div_greater_zero_iff)
  have ok: "allocs_ok (unat pbs) (1048576 div unat pbs) (snd (snd (pa_array a)))" using assms(1) by (simp add: memory_ok_def)
  then obtain s where "alloc_sectors (unat pbs) (1048576 div unat pbs) (snd (snd (pa_array a))) = Some s"
    using allocs_ok_some by blast
  then obtain ary where ary: "sector_array_alloc (unat pbs) (1048576 div unat pbs) (fst (pa_array a)) (fst (snd (pa_array a)))
      (snd (snd (pa_array a))) = Some ary"
    using assms(1) by (simp add: sector_array_alloc_def memory_ok_def)
  obtain b where b: "fst (pa_header a)" "snd (pa_header a) = Some b" "length b = unat pbs" "pa_malloc a"
    using assms(1) by (auto simp: memory_ok_def)
  show ?thesis
  proof (rule that)
    show "alloc_logpack a pbs (1048576 div unat pbs) = Some \<lparr>lp_sectd = \<lparr>sd_size = unat pbs, sd_data = Some b\<rparr>, lp_sectd_ary = ary\<rparr>"
      using b ary by (simp add: alloc_logpack_def sector_alloc_def)
    show "pack_wf pbs \<lparr>lp_sectd = \<lparr>sd_size = unat pbs, sd_data = Some b\<rparr>, lp_sectd_ary = ary\<rparr>"
      using sector_array_alloc_ok [OF ary n allocs_ok_sized [OF ok]] b n by (simp add: pack_wf_def sector_wf_def)
  qed
qed

lemma resize_ok:
  assumes "memory_ok pbs a" "pack_wf pbs pack"
  obtains pack' where "resize_logpack_if_necessary a pack n = (True, pack')" "pack_wf pbs pack'" "lp_sectd pack' = lp_sectd pack"
    "n \<le> sa_size (lp_sectd_ary pack')"
proof (cases "n \<le> sa_size (lp_sectd_ary pack)")
  case True
  then show ?thesis using that assms(2) by (simp add: resize_logpack_if_necessary_def)
next
  case False
  let ?ary = "lp_sectd_ary pack" and ?r = "pa_realloc a n"
  have ok: "fst ?r" "allocs_ok (unat pbs) n (snd ?r)" using assms(1) by (simp_all add: memory_ok_def)
  have wf: "sector_array_wf ?ary" "sa_sector_size ?ary = unat pbs" using assms(2) by (simp_all add: pack_wf_def)
  obtain new where "alloc_sectors (unat pbs) (n - sa_size ?ary) (snd ?r) = Some new" using allocs_ok_some [OF ok(2)] by (meson diff_le_self)
  then obtain ary where r: "sector_array_realloc ?ary n (fst ?r) (snd ?r) = (True, ary)"
    using False ok(1) wf(2) by (simp add: sector_array_realloc_def Let_def)
  have "sector_array_wf ary \<and> sa_size ary = n \<and> sa_sector_size ary = unat pbs"
    using sector_array_realloc_ok [OF wf(1) _ _ r] False allocs_ok_sized [OF ok(2)] wf(2) by simp
  then show ?thesis using that [of "pack\<lparr>lp_sectd_ary := ary\<rparr>"] r False assms(2)
    by (simp add: resize_logpack_if_necessary_def pack_wf_def)
qed


section \<open>Reading the log device\<close>

lemma overwrite_whole: "length d = length buf \<Longrightarrow> overwrite 0 d buf = d"
  by (simp add: overwrite_def)

lemma block_read:
  assumes "log_dev_ok super (od_bytes dev)" "sector_wf sect" "sd_size sect = unat (ss_physical_bs super)" "working (od_results dev)"
    and "block_at super (od_bytes dev) l = Some b"
  obtains dev' where "read_logpack_header_from_wldev dev super l salt sect =
      (l = lh_logpack_lsid (logpack_header_of_bytes b) \<and>
         is_valid_logpack_header_with_checksum (logpack_header_of_bytes b) (ss_physical_bs super) salt,
       sect\<lparr>sd_data := Some b\<rparr>, dev')"
    "od_bytes dev' = od_bytes dev" "working (od_results dev')" "length b = unat (ss_physical_bs super)"
proof -
  let ?n = "unat (ss_physical_bs super)" and ?off = "get_offset_of_lsid_2 super l"
  have b: "unat ?off * ?n + ?n \<le> length (od_bytes dev)" "b = take ?n (drop (unat ?off * ?n) (od_bytes dev))"
    using assms(5) by (auto simp: block_at_def Let_def split: if_splits)
  have len: "length b = ?n" using b by simp
  have o: "unat (?off * word_of_nat ?n) = unat ?off * ?n"
    using assms(1) b(1) by (intro dev_block_offset [where len = "length (od_bytes dev)"]) (auto simp: log_dev_ok_def is_valid_pbs_unat)
  obtain dev' where r: "pread_all ?n (unat ?off * ?n) dev = (True, b, dev')" "od_bytes dev' = od_bytes dev" "working (od_results dev')"
    using pread_all_works [OF assms(4) b(1)] b(2) by blast
  obtain buf where "sd_data sect = Some buf" "length buf = ?n" using assms(2,3) by (auto simp: sector_wf_def)
  then have "dev_sector_read dev ?off sect = (True, sect\<lparr>sd_data := Some b\<rparr>, dev')"
    using r(1) o assms(3) len by (simp add: dev_sector_read_def overwrite_whole)
  then show ?thesis
    using that [OF _ r(2,3) len]
    by (simp add: read_logpack_header_from_wldev_def get_offset_of_lsid_2_def get_offset_of_lsid_def add.commute sector_bytes_def Let_def)
qed

lemma stored_ok_header:
  assumes "log_dev_ok super bytes" "stored_ok (ss_physical_bs super) (ss_ring_buffer_size super) salt p"
  shows "logpack_header_of_bytes (logpack_header_bytes (fst p)) = fst p"
    "is_valid_logpack_header_with_checksum (fst p) (ss_physical_bs super) salt" "\<not> is_end_logpack_header (fst p)"
    "unat (lh_n_records (fst p)) \<le> length (lh_record (fst p))" "length (used_records (fst p)) = unat (lh_n_records (fst p))"
    "0 < unat (lh_n_records (fst p))" "recs_pb (ss_physical_bs super) (used_records (fst p)) = unat (lh_total_io_size (fst p))"
    "recs_ok (ss_physical_bs super) (unat (ss_ring_buffer_size super)) (unat (lh_logpack_lsid (fst p))) 1 (used_records (fst p))"
    "length (snd p) = unat (lh_total_io_size (fst p)) * unat (ss_physical_bs super)" "lh_logpack_lsid (fst p) < pack_end (fst p)"
    "pack_end (fst p) \<le> MAX_LSID"
proof -
  have p: "length (lh_tail (fst p)) < 32" "0 < lh_n_records (fst p)" "logpack_inv (ss_physical_bs super) (ss_ring_buffer_size super) (fst p)"
    "checksum (logpack_header_bytes (fst p)) (unat (ss_physical_bs super)) salt = 0"
    "recs_data (ss_physical_bs super) salt (used_records (fst p)) (snd p)"
    using assms(2) by (simp_all add: stored_ok_def)
  show "logpack_header_of_bytes (logpack_header_bytes (fst p)) = fst p" by (rule logpack_header_decode [OF p(1)])
  show "is_valid_logpack_header_with_checksum (fst p) (ss_physical_bs super) salt"
    using stored_header_valid(1) [OF p(3) _ p(4)] assms(1) by (simp add: log_dev_ok_def)
  show "\<not> is_end_logpack_header (fst p)" using p(2) by (auto simp: is_end_logpack_header_def)
  show n: "unat (lh_n_records (fst p)) \<le> length (lh_record (fst p))"
    and "recs_ok (ss_physical_bs super) (unat (ss_ring_buffer_size super)) (unat (lh_logpack_lsid (fst p))) 1 (used_records (fst p))"
    and t: "recs_pb (ss_physical_bs super) (used_records (fst p)) = unat (lh_total_io_size (fst p))"
    using p(3) by (simp_all add: logpack_inv_def)
  show "length (used_records (fst p)) = unat (lh_n_records (fst p))" using n by (simp add: used_records_def)
  show "0 < unat (lh_n_records (fst p))" using p(2) by (simp add: word_less_nat_alt)
  show "length (snd p) = unat (lh_total_io_size (fst p)) * unat (ss_physical_bs super)" using recs_data_length [OF p(5)] t by simp
  have "unat (ucast (lh_total_io_size (fst p)) + 1 :: u64) = unat (lh_total_io_size (fst p)) + 1"
    using unat_u16_lt [of "lh_total_io_size (fst p)"] by (subst unat_add_nowrap) simp_all
  moreover have max: "unat (lh_logpack_lsid (fst p)) + 65536 \<le> unat MAX_LSID" using p(3) by (simp add: logpack_inv_def)
  ultimately have n: "unat (pack_end (fst p)) = unat (lh_logpack_lsid (fst p)) + (unat (lh_total_io_size (fst p)) + 1)"
    unfolding pack_end_def using unat_u16_lt [of "lh_total_io_size (fst p)"] unat_u64_lt [of MAX_LSID] by (subst unat_add_nowrap) simp_all
  then show "lh_logpack_lsid (fst p) < pack_end (fst p)" by (simp add: word_less_nat_alt)
  show "pack_end (fst p) \<le> MAX_LSID" using n max unat_u16_lt [of "lh_total_io_size (fst p)"] by (simp add: word_le_nat_alt)
qed

text \<open>Taking a logpack of the log device puts its data at the begin of the buffer.\<close>

lemma take_pack_ok:
  assumes dev: "log_dev_ok super (od_bytes dev)" and mem: "memory_ok (ss_physical_bs super) a"
    and p: "stored_ok (ss_physical_bs super) (ss_ring_buffer_size super) salt p" "recs_on_dev super (od_bytes dev) (used_records (fst p)) (snd p)"
    and pack: "pack_wf (ss_physical_bs super) pack" "sector_bytes (lp_sectd pack) = logpack_header_bytes (fst p)" and w: "working (od_results dev)"
  obtains pack' dev' where "take_pack a super salt (ss_physical_bs super) pack dev = Some (True, unat (lh_n_records (fst p)), pack', dev')"
    "pack_wf (ss_physical_bs super) pack'" "lp_sectd pack' = lp_sectd pack" "take (length (snd p)) (flat (lp_sectd_ary pack')) = snd p"
    "unat (lh_total_io_size (fst p)) \<le> sa_size (lp_sectd_ary pack')" "od_bytes dev' = od_bytes dev" "working (od_results dev')"
proof -
  let ?pbs = "ss_physical_bs super" and ?t = "unat (lh_total_io_size (fst p))"
  note h = stored_ok_header [OF dev p(1)]
  obtain pack1 where r: "resize_logpack_if_necessary a pack ?t = (True, pack1)" "pack_wf ?pbs pack1" "lp_sectd pack1 = lp_sectd pack"
    "?t \<le> sa_size (lp_sectd_ary pack1)" using resize_ok [OF mem pack(1)] .
  have pbs: "is_valid_pbs ?pbs" "unat ?pbs \<le> 4096" "ss_logical_bs super = LOGICAL_BLOCK_SIZE" "length (od_bytes dev) < 2 ^ 64"
    using dev by (simp_all add: log_dev_ok_def)
  have ary: "sector_array_wf (lp_sectd_ary pack1)" "sa_sector_size (lp_sectd_ary pack1) = unat ?pbs"
    "0 + recs_pb ?pbs (used_records (fst p)) \<le> sa_size (lp_sectd_ary pack1)" using r(2,4) h(7) by (simp_all add: pack_wf_def)
  have d: "recs_data ?pbs salt (used_records (fst p)) (snd p)" using p(1) by (simp add: stored_ok_def)
  obtain ary' dev' where rd: "read_records_wldev super salt dev 0 (used_records (fst p)) 0 (lp_sectd_ary pack1) =
      Some (0 + length (used_records (fst p)), ary', dev')" "sector_array_wf ary'" "sa_size ary' = sa_size (lp_sectd_ary pack1)"
      "sa_sector_size ary' = unat ?pbs" "flat ary' = overwrite (0 * unat ?pbs) (snd p) (flat (lp_sectd_ary pack1))"
      "od_bytes dev' = od_bytes dev" "working (od_results dev')"
    using read_records_wldev_ok [OF refl pbs(1-3) h(8) d p(2) ary w pbs(4), of 0] by blast
  let ?pack' = "\<lparr>lp_sectd = lp_sectd pack1, lp_sectd_ary = ary'\<rparr>"
  have lh: "lp_header pack = fst p" using pack(2) h(1) by (simp add: lp_header_def)
  show ?thesis
  proof (rule that [of ?pack' dev'])
    show "take_pack a super salt ?pbs pack dev = Some (True, unat (lh_n_records (fst p)), ?pack', dev')"
      using rd(1) r(1,4) h(4,5) by (simp add: take_pack_def lh read_logpack_data_from_wldev_def Let_def)
    show "take (length (snd p)) (flat (lp_sectd_ary ?pack')) = snd p" using rd(5) by (simp add: overwrite_def)
  qed (use r rd in \<open>simp_all add: pack_wf_def\<close>)
qed


text \<open>Header and data of the next logpack, as the loops of \<^verbatim>\<open>cat_wldev\<close> and \<^verbatim>\<open>redo\<close> get them.\<close>

lemma next_pack:
  assumes dev: "log_dev_ok super (od_bytes dev)" and mem: "memory_ok (ss_physical_bs super) a"
    and p: "packs_stored super (od_bytes dev) l (p # ps) l'" and pack: "pack_wf (ss_physical_bs super) pack" and w: "working (od_results dev)"
  obtains sect dev1 pack' dev' where
    "read_logpack_header_from_wldev dev super l (ss_log_checksum_salt super) (lp_sectd pack) = (True, sect, dev1)"
    "take_pack a super (ss_log_checksum_salt super) (ss_physical_bs super) (pack\<lparr>lp_sectd := sect\<rparr>) dev1 =
      Some (True, unat (lh_n_records (fst p)), pack', dev')"
    "sector_bytes sect = logpack_header_bytes (fst p)" "lp_sectd pack' = sect" "lp_header pack' = fst p" "pack_wf (ss_physical_bs super) pack'"
    "take (length (snd p)) (flat (lp_sectd_ary pack')) = snd p" "unat (lh_total_io_size (fst p)) \<le> sa_size (lp_sectd_ary pack')"
    "od_bytes dev' = od_bytes dev" "working (od_results dev')"
proof -
  let ?pbs = "ss_physical_bs super" and ?salt = "ss_log_checksum_salt super" and ?b = "logpack_header_bytes (fst p)"
  have s: "block_at super (od_bytes dev) l = Some ?b" "lh_logpack_lsid (fst p) = l" "stored_ok ?pbs (ss_ring_buffer_size super) ?salt p"
    "recs_on_dev super (od_bytes dev) (used_records (fst p)) (snd p)" using p by simp_all
  note h = stored_ok_header [OF dev s(3)]
  have sw: "sector_wf (lp_sectd pack)" "sd_size (lp_sectd pack) = unat ?pbs" using pack by (simp_all add: pack_wf_def)
  obtain dev1 where r: "read_logpack_header_from_wldev dev super l ?salt (lp_sectd pack) =
      (l = lh_logpack_lsid (logpack_header_of_bytes ?b) \<and> is_valid_logpack_header_with_checksum (logpack_header_of_bytes ?b) ?pbs ?salt,
       (lp_sectd pack)\<lparr>sd_data := Some ?b\<rparr>, dev1)"
      "od_bytes dev1 = od_bytes dev" "working (od_results dev1)" "length ?b = unat ?pbs"
    using block_read [OF dev sw w s(1)] .
  let ?sect = "(lp_sectd pack)\<lparr>sd_data := Some ?b\<rparr>"
  have wf: "pack_wf ?pbs (pack\<lparr>lp_sectd := ?sect\<rparr>)" using pack r(4) by (simp add: pack_wf_def sector_wf_def)
  have b: "sector_bytes (lp_sectd (pack\<lparr>lp_sectd := ?sect\<rparr>)) = ?b" by (simp add: sector_bytes_def)
  obtain pack' dev' where t: "take_pack a super ?salt ?pbs (pack\<lparr>lp_sectd := ?sect\<rparr>) dev1 = Some (True, unat (lh_n_records (fst p)), pack', dev')"
    "pack_wf ?pbs pack'" "lp_sectd pack' = lp_sectd (pack\<lparr>lp_sectd := ?sect\<rparr>)" "take (length (snd p)) (flat (lp_sectd_ary pack')) = snd p"
    "unat (lh_total_io_size (fst p)) \<le> sa_size (lp_sectd_ary pack')" "od_bytes dev' = od_bytes dev1" "working (od_results dev')"
    using take_pack_ok [of super dev1 a ?salt p, OF _ mem s(3) _ wf b r(3)] dev s(4) r(2) by metis
  show ?thesis
    using that [of ?sect dev1 pack' dev'] r(1,2) s(2) h(1,2) t by (simp add: lp_header_def sector_bytes_def)
qed

text \<open>At the end of the log no header is read.\<close>

lemma no_next_pack:
  assumes "log_dev_ok super (od_bytes dev)" "log_ends_at super (od_bytes dev) l" "pack_wf (ss_physical_bs super) pack" "working (od_results dev)"
  obtains sect dev1 where "read_logpack_header_from_wldev dev super l (ss_log_checksum_salt super) (lp_sectd pack) = (False, sect, dev1)"
    "od_bytes dev1 = od_bytes dev" "working (od_results dev1)"
proof -
  obtain b where b: "block_at super (od_bytes dev) l = Some b"
    "(l = lh_logpack_lsid (logpack_header_of_bytes b) \<and>
       is_valid_logpack_header_with_checksum (logpack_header_of_bytes b) (ss_physical_bs super) (ss_log_checksum_salt super)) = False"
    using assms(2) by (auto simp: log_ends_at_def Let_def split: option.splits)
  have s: "sector_wf (lp_sectd pack)" "sd_size (lp_sectd pack) = unat (ss_physical_bs super)" using assms(3) by (simp_all add: pack_wf_def)
  show ?thesis
    by (rule block_read [OF assms(1) s assms(4) b(1), of "ss_log_checksum_salt super"]) (use that in \<open>simp add: b(2)\<close>)
qed

section \<open>Sending the log\<close>

lemma stream_of_simps [simp]:
  "stream_of [] = []" "stream_of (p # ps) = logpack_header_bytes (fst p) @ snd p @ stream_of ps"
  by (simp_all add: stream_of_def case_prod_beta)

lemma cat_loop_ok:
  assumes "log_dev_ok super (od_bytes dev)" and mem: "memory_ok (ss_physical_bs super) a"
    and "packs_stored super (od_bytes dev) l ps l'" "\<forall>p \<in> set ps. lh_logpack_lsid (fst p) < end_lsid"
    and "end_lsid \<le> l' \<or> log_ends_at super (od_bytes dev) l'"
    and "pack_wf (ss_physical_bs super) pack" "working (od_results dev)" "working (os_results out)"
  shows "\<exists>out'. cat_loop a super (ss_log_checksum_salt super) (ss_physical_bs super) end_lsid l pack dev out = Some (True, out') \<and>
    os_bytes out' = os_bytes out @ stream_of ps \<and> working (os_results out')"
  using assms(1,3-)
proof (induction ps arbitrary: l pack dev out)
  case Nil
  let ?salt = "ss_log_checksum_salt super"
  show ?case
  proof (cases "l < end_lsid")
    case True
    then have "log_ends_at super (od_bytes dev) l" using Nil.prems(2,4) by auto
    then obtain sect dev1 where "read_logpack_header_from_wldev dev super l ?salt (lp_sectd pack) = (False, sect, dev1)"
      using no_next_pack [OF Nil.prems(1) _ Nil.prems(5,6)] by blast
    then show ?thesis using True Nil.prems(7) by (subst cat_loop.simps) simp
  qed (use Nil.prems(7) in \<open>subst cat_loop.simps, simp\<close>)
next
  case (Cons p ps)
  let ?pbs = "ss_physical_bs super" and ?salt = "ss_log_checksum_salt super"
  obtain sect dev1 pack' dev' where n: "read_logpack_header_from_wldev dev super l ?salt (lp_sectd pack) = (True, sect, dev1)"
    "take_pack a super ?salt ?pbs (pack\<lparr>lp_sectd := sect\<rparr>) dev1 = Some (True, unat (lh_n_records (fst p)), pack', dev')"
    "sector_bytes sect = logpack_header_bytes (fst p)" "lp_sectd pack' = sect" "lp_header pack' = fst p" "pack_wf ?pbs pack'"
    "take (length (snd p)) (flat (lp_sectd_ary pack')) = snd p" "unat (lh_total_io_size (fst p)) \<le> sa_size (lp_sectd_ary pack')"
    "od_bytes dev' = od_bytes dev" "working (od_results dev')"
    using next_pack [OF Cons.prems(1) mem Cons.prems(2,5,6)] .
  have ok: "stored_ok ?pbs (ss_ring_buffer_size super) ?salt p" "lh_logpack_lsid (fst p) = l" "packs_stored super (od_bytes dev) (pack_end (fst p)) ps l'"
    using Cons.prems(2) by simp_all
  note h = stored_ok_header [OF Cons.prems(1) ok(1)]
  have len: "length (logpack_header_bytes (fst p)) = unat ?pbs" using ok(1) by (simp add: stored_ok_def)
  obtain out1 where o1: "write_data (logpack_header_bytes (fst p)) (unat ?pbs) out = (True, out1)"
    "os_bytes out1 = os_bytes out @ logpack_header_bytes (fst p)" "working (os_results out1)"
    using write_data_works [OF Cons.prems(7), of "unat ?pbs" "logpack_header_bytes (fst p)"] len by auto
  have "sector_array_wf (lp_sectd_ary pack')" "sa_sector_size (lp_sectd_ary pack') = unat ?pbs" using n(6) by (simp_all add: pack_wf_def)
  then obtain out2 where o2: "sector_array_write out1 (lp_sectd_ary pack') 0 (unat (lh_total_io_size (fst p))) = Some (True, out2)"
    "os_bytes out2 = os_bytes out1 @ snd p" "working (os_results out2)"
    using write_sectors_works [of "lp_sectd_ary pack'" out1 0 "unat (lh_total_io_size (fst p))"] o1(3) n(7,8) h(9)
    by (auto simp: sector_array_write_def)
  have "cat_loop a super ?salt ?pbs end_lsid l pack dev out = cat_loop a super ?salt ?pbs end_lsid (pack_end (fst p)) pack' dev' out2"
    using Cons.prems(3) ok(2) h(1,6) n(1-5) o1(1) o2(1) by (subst cat_loop.simps) (simp add: pack_end_def)
  moreover have "\<exists>out'. cat_loop a super ?salt ?pbs end_lsid (pack_end (fst p)) pack' dev' out2 = Some (True, out') \<and>
      os_bytes out' = os_bytes out2 @ stream_of ps \<and> working (os_results out')"
    using Cons.IH [of dev' "pack_end (fst p)" pack' out2] Cons.prems(1,3,4) ok(3) n(6,9,10) o2(3) by simp
  ultimately show ?case using o1(2) o2(2) by auto
qed


section \<open>Replaying a logpack\<close>

lemma replay_packs_simps [simp]:
  "replay_packs pbs [] dd = dd" "replay_packs pbs (p # ps) dd = replay_packs pbs ps (replay_bytes pbs (used_records (fst p)) (snd p) dd)"
  by (simp_all add: replay_packs_def case_prod_beta)

lemma packs_fit_simps [simp]:
  "packs_fit len []" "packs_fit len (p # ps) \<longleftrightarrow> recs_fit len (used_records (fst p)) \<and> packs_fit len ps"
  by (auto simp: packs_fit_def)

lemma tool_redo_logpack_ok:
  assumes dev: "log_dev_ok super bytes" and p: "stored_ok (ss_physical_bs super) (ss_ring_buffer_size super) salt p"
    and fit: "recs_fit (length (od_bytes ddev)) (used_records (fst p))" and ary: "sector_array_wf ary" "sa_sector_size ary = unat (ss_physical_bs super)"
    and d: "take (length (snd p)) (flat ary) = snd p" and w: "working (od_results ddev)" "length (od_bytes ddev) < 2 ^ 64"
  obtains ddev' where "tool_redo_logpack ddev (fst p) ary = Some (True, ddev')" "working (od_results ddev')"
    "od_bytes ddev' = replay_bytes (ss_physical_bs super) (used_records (fst p)) (snd p) (od_bytes ddev)"
    "length (od_bytes ddev') = length (od_bytes ddev)"
proof -
  note h = stored_ok_header [OF dev p]
  have pbs: "is_valid_pbs (ss_physical_bs super)" "unat (ss_physical_bs super) \<le> 4096" using dev by (simp_all add: log_dev_ok_def)
  have data: "recs_data (ss_physical_bs super) salt (used_records (fst p)) (snd p)" using p by (simp add: stored_ok_def)
  have "drop ((1 - 1) * unat (ss_physical_bs super)) (flat ary) = snd p @ drop (length (snd p)) (flat ary)"
    using d append_take_drop_id [of "length (snd p)" "flat ary"] by simp
  from redo_records_tool_ok [OF pbs h(8) data fit ary this _ w] obtain ddev' where
    "redo_records_tool ddev (used_records (fst p)) ary = Some (True, ddev')" "working (od_results ddev')"
    "od_bytes ddev' = replay_bytes (ss_physical_bs super) (used_records (fst p)) (snd p) (od_bytes ddev)" by auto
  then show ?thesis using that [of ddev'] replay_bytes_length [OF fit] h(4) by (simp add: tool_redo_logpack_def)
qed

section \<open>Replaying the log device\<close>

lemma tool_redo_loop_ok:
  assumes "log_dev_ok super (od_bytes ldev)" and mem: "memory_ok (ss_physical_bs super) a"
    and "packs_stored super (od_bytes ldev) l ps l'" "log_ends_at super (od_bytes ldev) l'" "packs_fit (length (od_bytes ddev)) ps"
    and "pack_wf (ss_physical_bs super) pack" "working (od_results ldev)" "working (od_results ddev)" "length (od_bytes ddev) < 2 ^ 64"
  shows "\<exists>ldev' ddev'. tool_redo_loop a super (ss_log_checksum_salt super) (ss_physical_bs super) l pack ldev ddev = Some (True, l', ldev', ddev') \<and>
    od_bytes ldev' = od_bytes ldev \<and> working (od_results ldev') \<and> od_bytes ddev' = replay_packs (ss_physical_bs super) ps (od_bytes ddev)"
  using assms(1,3-)
proof (induction ps arbitrary: l pack ldev ddev)
  case Nil
  from no_next_pack [OF Nil.prems(1) _ Nil.prems(5,6)] Nil.prems(2,3) obtain sect ldev1 where
    "read_logpack_header_from_wldev ldev super l (ss_log_checksum_salt super) (lp_sectd pack) = (False, sect, ldev1)"
    "od_bytes ldev1 = od_bytes ldev" "working (od_results ldev1)" by auto
  then show ?case using Nil.prems(2) by (subst tool_redo_loop.simps) simp
next
  case (Cons p ps)
  let ?pbs = "ss_physical_bs super" and ?salt = "ss_log_checksum_salt super"
  obtain sect ldev1 pack' ldev' where n: "read_logpack_header_from_wldev ldev super l ?salt (lp_sectd pack) = (True, sect, ldev1)"
    "take_pack a super ?salt ?pbs (pack\<lparr>lp_sectd := sect\<rparr>) ldev1 = Some (True, unat (lh_n_records (fst p)), pack', ldev')"
    "sector_bytes sect = logpack_header_bytes (fst p)" "lp_sectd pack' = sect" "lp_header pack' = fst p" "pack_wf ?pbs pack'"
    "take (length (snd p)) (flat (lp_sectd_ary pack')) = snd p" "unat (lh_total_io_size (fst p)) \<le> sa_size (lp_sectd_ary pack')"
    "od_bytes ldev' = od_bytes ldev" "working (od_results ldev')"
    using next_pack [OF Cons.prems(1) mem Cons.prems(2,5,6)] .
  have ok: "stored_ok ?pbs (ss_ring_buffer_size super) ?salt p" "lh_logpack_lsid (fst p) = l" "packs_stored super (od_bytes ldev) (pack_end (fst p)) ps l'"
    using Cons.prems(2) by simp_all
  note h = stored_ok_header [OF Cons.prems(1) ok(1)]
  have ary: "sector_array_wf (lp_sectd_ary pack')" "sa_sector_size (lp_sectd_ary pack') = unat ?pbs" using n(6) by (simp_all add: pack_wf_def)
  have fit: "recs_fit (length (od_bytes ddev)) (used_records (fst p))" "packs_fit (length (od_bytes ddev)) ps" using Cons.prems(4) by simp_all
  obtain ddev1 where r: "tool_redo_logpack ddev (fst p) (lp_sectd_ary pack') = Some (True, ddev1)" "working (od_results ddev1)"
    "od_bytes ddev1 = replay_bytes ?pbs (used_records (fst p)) (snd p) (od_bytes ddev)" "length (od_bytes ddev1) = length (od_bytes ddev)"
    using tool_redo_logpack_ok [OF Cons.prems(1) ok(1) fit(1) ary n(7) Cons.prems(7,8)] .
  have "tool_redo_loop a super ?salt ?pbs l pack ldev ddev = tool_redo_loop a super ?salt ?pbs (pack_end (fst p)) pack' ldev' ddev1"
    using ok(2) h(1,6) n(1-5) r(1) by (subst tool_redo_loop.simps) (simp add: pack_end_def)
  moreover have "\<exists>ldev2 ddev2. tool_redo_loop a super ?salt ?pbs (pack_end (fst p)) pack' ldev' ddev1 = Some (True, l', ldev2, ddev2) \<and>
      od_bytes ldev2 = od_bytes ldev' \<and> working (od_results ldev2) \<and> od_bytes ddev2 = replay_packs ?pbs ps (od_bytes ddev1)"
    using Cons.IH [of ldev' "pack_end (fst p)" ddev1 pack'] Cons.prems(1,3,8) fit(2) ok(3) n(6,9,10) r(2,4) by simp
  ultimately show ?case using n(9) r(3) by auto
qed


section \<open>Replaying a stream\<close>

lemma log_records_of_bytes_length [simp]: "length (log_records_of_bytes n b) = n"
  by (induction n arbitrary: b) simp_all

lemma end_header_ok:
  assumes "24 \<le> unat pbs"
  shows "length (logpack_header_bytes (end_header pbs salt)) = unat pbs"
    "is_end_logpack_header (logpack_header_of_bytes (logpack_header_bytes (end_header pbs salt)))"
proof -
  let ?n = "(unat pbs - 24) div 32" and ?h = "end_header pbs salt"
  have m: "32 * ?n \<le> unat pbs - 24" by simp
  have t: "length (lh_record ?h) = ?n" "length (lh_tail ?h) = unat pbs - (24 + 32 * ?n)" "lh_n_records ?h = 0" "lh_logpack_lsid ?h = - 1"
    by (simp_all add: end_header_def logpack_header_seal_def logpack_header_of_bytes_def Let_def)
  show "length (logpack_header_bytes ?h) = unat pbs" using m assms by (simp only: logpack_header_bytes_records t)
  have "(unat pbs - 24) mod 32 = unat pbs - 24 - 32 * ?n" using minus_mult_div_eq_mod [of "unat pbs - 24" 32] by simp
  then have "length (lh_tail ?h) < 32" using mod_less_divisor [of 32 "unat pbs - 24"] t(2) by simp
  then show "is_end_logpack_header (logpack_header_of_bytes (logpack_header_bytes ?h))"
    using t(3,4) by (simp add: logpack_header_decode is_end_logpack_header_def)
qed

lemma stream_header:
  assumes "pack_wf pbs pack" "is_bytes st = b @ rest" "length b = unat pbs" "working (is_results st)"
  obtains st1 where "read_logpack_header st pbs salt (lp_sectd pack) =
      (is_valid_logpack_header_with_checksum (logpack_header_of_bytes b) pbs salt, (lp_sectd pack)\<lparr>sd_data := Some b\<rparr>, st1)"
    "is_bytes st1 = rest" "working (is_results st1)" "pack_wf pbs (pack\<lparr>lp_sectd := (lp_sectd pack)\<lparr>sd_data := Some b\<rparr>\<rparr>)"
proof -
  obtain st1 where r: "read_data (unat pbs) st = (True, b, st1)" "is_bytes st1 = rest" "working (is_results st1)"
    using read_data_works [OF assms(4,2,3)] by blast
  have "length (sector_bytes (lp_sectd pack)) = unat pbs" using assms(1) by (auto simp: pack_wf_def sector_wf_length)
  then have "read_logpack_header st pbs salt (lp_sectd pack) =
      (is_valid_logpack_header_with_checksum (logpack_header_of_bytes b) pbs salt, (lp_sectd pack)\<lparr>sd_data := Some b\<rparr>, st1)"
    using r(1) assms(3) by (simp add: read_logpack_header_def overwrite_whole Let_def) (simp add: sector_bytes_def)
  then show ?thesis using that r(2,3) assms(1,3) by (simp add: pack_wf_def sector_wf_def)
qed

text \<open>Header and data of the next logpack of a stream.\<close>

lemma stream_pack:
  assumes dev: "log_dev_ok super bytes" and mem: "memory_ok (ss_physical_bs super) a"
    and p: "stored_ok (ss_physical_bs super) (ss_ring_buffer_size super) salt p" and pack: "pack_wf (ss_physical_bs super) pack"
    and st: "is_bytes st = logpack_header_bytes (fst p) @ snd p @ rest" "working (is_results st)"
  obtains sect st1 pack1 ary st2 where "read_logpack_header st (ss_physical_bs super) salt (lp_sectd pack) = (True, sect, st1)"
    "logpack_header_of_bytes (sector_bytes sect) = fst p"
    "resize_logpack_if_necessary a (pack\<lparr>lp_sectd := sect\<rparr>) (unat (lh_total_io_size (fst p))) = (True, pack1)"
    "read_logpack_data st1 (fst p) salt (lp_sectd_ary pack1) = Some (True, ary, st2)" "pack_wf (ss_physical_bs super) (pack1\<lparr>lp_sectd_ary := ary\<rparr>)"
    "take (length (snd p)) (flat ary) = snd p" "is_bytes st2 = rest" "working (is_results st2)"
proof -
  let ?pbs = "ss_physical_bs super" and ?b = "logpack_header_bytes (fst p)" and ?t = "unat (lh_total_io_size (fst p))"
  note h = stored_ok_header [OF dev p]
  have pbs: "is_valid_pbs ?pbs" "unat ?pbs \<le> 4096" using dev by (simp_all add: log_dev_ok_def)
  have len: "length ?b = unat ?pbs" and d: "recs_data ?pbs salt (used_records (fst p)) (snd p)" using p by (simp_all add: stored_ok_def)
  let ?sect = "(lp_sectd pack)\<lparr>sd_data := Some ?b\<rparr>"
  obtain st1 where r: "read_logpack_header st ?pbs salt (lp_sectd pack) =
      (is_valid_logpack_header_with_checksum (logpack_header_of_bytes ?b) ?pbs salt, ?sect, st1)"
    "is_bytes st1 = snd p @ rest" "working (is_results st1)" "pack_wf ?pbs (pack\<lparr>lp_sectd := ?sect\<rparr>)"
    using stream_header [OF pack st(1) len st(2)] .
  obtain pack1 where z: "resize_logpack_if_necessary a (pack\<lparr>lp_sectd := ?sect\<rparr>) ?t = (True, pack1)" "pack_wf ?pbs pack1"
    "?t \<le> sa_size (lp_sectd_ary pack1)" using resize_ok [OF mem r(4)] by metis
  have ary: "sector_array_wf (lp_sectd_ary pack1)" "sa_sector_size (lp_sectd_ary pack1) = unat ?pbs"
    "1 + recs_pb ?pbs (used_records (fst p)) \<le> sa_size (lp_sectd_ary pack1) + 1" using z(2,3) h(7) by (simp_all add: pack_wf_def)
  obtain ary' st2 where s: "read_records_stream salt st1 (used_records (fst p)) (lp_sectd_ary pack1) = Some (True, ary', st2)" "sector_array_wf ary'"
    "sa_sector_size ary' = unat ?pbs" "flat ary' = overwrite ((1 - 1) * unat ?pbs) (snd p) (flat (lp_sectd_ary pack1))"
    "is_bytes st2 = rest" "working (is_results st2)"
    using read_records_stream_ok [OF pbs h(8) d r(2) ary _ _ r(3)] by auto
  show ?thesis
  proof (rule that [of ?sect st1 pack1 ary' st2])
    show "read_logpack_data st1 (fst p) salt (lp_sectd_ary pack1) = Some (True, ary', st2)"
      using s(1) z(3) h(4) by (simp add: read_logpack_data_def)
    show "take (length (snd p)) (flat ary') = snd p" using s(4) by (simp add: overwrite_def)
    show "logpack_header_of_bytes (sector_bytes ?sect) = fst p" using h(1) by (simp add: sector_bytes_def)
  qed (use r(1) h(1,2) z s in \<open>simp_all add: pack_wf_def\<close>)
qed

text \<open>The logpacks of a range of lsids.\<close>

definition in_range :: "u64 \<Rightarrow> u64 \<Rightarrow> stored_pack list \<Rightarrow> stored_pack list" where
  "in_range begin_lsid end_lsid ps = filter (\<lambda>p. begin_lsid \<le> lh_logpack_lsid (fst p) \<and> lh_logpack_lsid (fst p) < end_lsid) ps"

lemma packs_stored_ordered:
  assumes "log_dev_ok super bytes" "packs_stored super bytes l ps l'"
  shows "sorted_wrt (\<lambda>p q. lh_logpack_lsid (fst p) < lh_logpack_lsid (fst q)) ps \<and> (\<forall>p \<in> set ps. l \<le> lh_logpack_lsid (fst p)) \<and>
    (\<forall>p \<in> set ps. stored_ok (ss_physical_bs super) (ss_ring_buffer_size super) (ss_log_checksum_salt super) p)"
  using assms(2)
proof (induction ps arbitrary: l)
  case (Cons p ps)
  have "l < pack_end (fst p)" using Cons.prems stored_ok_header(10) [OF assms(1), of "ss_log_checksum_salt super" p] by auto
  then show ?case using Cons.IH [of "pack_end (fst p)"] Cons.prems by force
qed simp

lemma redo_wlog_loop_ok:
  assumes dev: "log_dev_ok super bytes" and mem: "memory_ok (ss_physical_bs super) a" and range: "begin_lsid < end_lsid"
    and "\<forall>p \<in> set ps. stored_ok (ss_physical_bs super) (ss_ring_buffer_size super) salt p"
    and "sorted_wrt (\<lambda>p q. lh_logpack_lsid (fst p) < lh_logpack_lsid (fst q)) ps" "packs_fit (length (od_bytes ddev)) ps"
    and "is_bytes st = stream_of ps @ logpack_header_bytes (end_header (ss_physical_bs super) salt)" "working (is_results st)" "lsid < end_lsid"
    and "pack_wf (ss_physical_bs super) pack" "working (od_results ddev)" "length (od_bytes ddev) < 2 ^ 64"
  shows "\<exists>ddev'. redo_wlog_loop a salt (ss_physical_bs super) begin_lsid end_lsid lsid pack st ddev = Some (True, ddev') \<and>
    od_bytes ddev' = replay_packs (ss_physical_bs super) (in_range begin_lsid end_lsid ps) (od_bytes ddev)"
  using assms(4-)
proof (induction ps arbitrary: lsid pack st ddev)
  case Nil
  let ?b = "logpack_header_bytes (end_header (ss_physical_bs super) salt)"
  have "24 \<le> unat (ss_physical_bs super)" using dev by (auto simp: log_dev_ok_def is_valid_pbs_unat)
  note e = end_header_ok [OF this, of salt]
  have "is_bytes st = ?b @ []" using Nil.prems(4) by simp
  from stream_header [OF Nil.prems(7) this e(1) Nil.prems(5), of salt] obtain st1 where
    "read_logpack_header st (ss_physical_bs super) salt (lp_sectd pack) =
      (is_valid_logpack_header_with_checksum (logpack_header_of_bytes ?b) (ss_physical_bs super) salt, (lp_sectd pack)\<lparr>sd_data := Some ?b\<rparr>, st1)" .
  then show ?case using Nil.prems(6) e(2) by (subst redo_wlog_loop.simps) (simp add: sector_bytes_def in_range_def)
next
  case (Cons p ps)
  let ?pbs = "ss_physical_bs super" and ?l = "lh_logpack_lsid (fst p)"
  have ok: "stored_ok ?pbs (ss_ring_buffer_size super) salt p" using Cons.prems(1) by simp
  have "is_bytes st = logpack_header_bytes (fst p) @ snd p @ (stream_of ps @ logpack_header_bytes (end_header ?pbs salt))" using Cons.prems(4) by simp
  then obtain sect st1 pack1 ary st2 where n: "read_logpack_header st ?pbs salt (lp_sectd pack) = (True, sect, st1)"
    "logpack_header_of_bytes (sector_bytes sect) = fst p"
    "resize_logpack_if_necessary a (pack\<lparr>lp_sectd := sect\<rparr>) (unat (lh_total_io_size (fst p))) = (True, pack1)"
    "read_logpack_data st1 (fst p) salt (lp_sectd_ary pack1) = Some (True, ary, st2)" "pack_wf ?pbs (pack1\<lparr>lp_sectd_ary := ary\<rparr>)"
    "take (length (snd p)) (flat ary) = snd p" "is_bytes st2 = stream_of ps @ logpack_header_bytes (end_header ?pbs salt)" "working (is_results st2)"
    using stream_pack [OF dev mem ok Cons.prems(7) _ Cons.prems(5)] by blast
  have ary: "sector_array_wf ary" "sa_sector_size ary = unat ?pbs" using n(5) by (simp_all add: pack_wf_def)
  have fit: "recs_fit (length (od_bytes ddev)) (used_records (fst p))" "packs_fit (length (od_bytes ddev)) ps" using Cons.prems(3) by simp_all
  obtain ddev1 where r: "tool_redo_logpack ddev (fst p) ary = Some (True, ddev1)" "working (od_results ddev1)"
    "od_bytes ddev1 = replay_bytes ?pbs (used_records (fst p)) (snd p) (od_bytes ddev)" "length (od_bytes ddev1) = length (od_bytes ddev)"
    using tool_redo_logpack_ok [OF dev ok fit(1) ary n(6) Cons.prems(8,9)] .
  note step = redo_wlog_loop.simps [of a salt ?pbs begin_lsid end_lsid lsid pack st ddev]
  note IH = Cons.IH [of _ st2 ?l "pack1\<lparr>lp_sectd_ary := ary\<rparr>"]
  have not_end: "\<not> is_end_logpack_header (fst p)" using stored_ok_header(3) [OF dev ok] .
  consider (before) "?l < begin_lsid" | (inside) "begin_lsid \<le> ?l" "?l < end_lsid" | (after) "end_lsid \<le> ?l" by force
  then show ?case
  proof cases
    case before
    then have l: "?l < end_lsid" "\<not> begin_lsid \<le> ?l" using range by simp_all
    from IH [OF _ _ fit(2) n(7,8) l(1) n(5) Cons.prems(8,9)] Cons.prems(1,2) before show ?thesis
      using Cons.prems(6) n(1-4) not_end l(2) by (simp add: step in_range_def)
  next
    case inside
    then have l: "\<not> ?l < begin_lsid" "\<not> end_lsid \<le> ?l" by simp_all
    from IH [OF _ _ _ n(7,8) inside(2) n(5) r(2), unfolded r(4), OF _ _ fit(2) Cons.prems(9)] Cons.prems(1,2) inside show ?thesis
      using Cons.prems(6) n(1-4) r(1,3) not_end l by (simp add: step in_range_def Let_def)
  next
    case after
    then have l: "\<not> ?l < begin_lsid" using range by simp
    have "in_range begin_lsid end_lsid (p # ps) = []" using after Cons.prems(2) by (fastforce simp: in_range_def filter_empty_conv)
    then show ?thesis using Cons.prems(6) n(1-4) l after not_end by (simp add: step Let_def)
  qed
qed


section \<open>The header of the stream\<close>

lemma wlog_header_image_ok:
  assumes "length (wh_uuid wh) = 16"
  shows "length (wlog_header_image wh) = WALBLOG_HEADER_SIZE" "\<exists>c. wlog_header_of_bytes (wlog_header_image wh) = wh\<lparr>wh_checksum := c\<rparr>"
    "checksum (wlog_header_image wh) WALBLOG_HEADER_SIZE 0 = 0"
proof -
  let ?rest = "replicate (WALBLOG_HEADER_SIZE - 56) 0 :: u8 list"
  define c where "c = checksum (wlog_header_bytes (wh\<lparr>wh_checksum := 0\<rparr>) @ ?rest) WALBLOG_HEADER_SIZE 0"
  let ?pre = "take 8 (wlog_header_bytes wh)" and ?post = "drop 12 (wlog_header_bytes wh) @ ?rest"
  have len: "length (wlog_header_bytes w) = 56" if "length (wh_uuid w) = 16" for w using that by (simp add: wlog_header_bytes_def)
  have split: "wlog_header_bytes (wh\<lparr>wh_checksum := x\<rparr>) @ ?rest = ?pre @ bytes_of_u32 x @ ?post" for x
    by (simp add: wlog_header_bytes_def le_bytes_u32 [symmetric])
  have img: "wlog_header_image wh = wlog_header_bytes (wh\<lparr>wh_checksum := c\<rparr>) @ ?rest"
    by (simp add: wlog_header_image_def c_def Let_def)
  show l: "length (wlog_header_image wh) = WALBLOG_HEADER_SIZE" unfolding img using len assms by (simp add: WALBLOG_HEADER_SIZE_def)
  have "wlog_header_of_bytes (wlog_header_image wh) = wh\<lparr>wh_checksum := c\<rparr>"
    unfolding img using assms by (simp add: wlog_header_bytes_def wlog_header_of_bytes_def le_word_le_bytes)
  then show "\<exists>c. wlog_header_of_bytes (wlog_header_image wh) = wh\<lparr>wh_checksum := c\<rparr>" ..
  have c: "c = checksum (?pre @ bytes_of_u32 0 @ ?post) WALBLOG_HEADER_SIZE 0" unfolding c_def split ..
  have "wlog_header_image wh = sealed_block ?pre ?post 0"
    unfolding img split sealed_block_def c using len [OF assms] by (simp add: WALBLOG_HEADER_SIZE_def)
  moreover have "checksum (sealed_block ?pre ?post 0) (length (sealed_block ?pre ?post 0)) 0 = 0"
    using len [OF assms] by (intro checksum_sealed_block_zero) (simp_all add: WALBLOG_HEADER_SIZE_def)
  ultimately show "checksum (wlog_header_image wh) WALBLOG_HEADER_SIZE 0 = 0" using l by metis
qed


section \<open>The commands\<close>

text \<open>The super sector is on the device, and the calls other than IO succeed.\<close>

definition super_on_dev :: "u8 list \<Rightarrow> walb_super_sector \<Rightarrow> bool" where
  "super_on_dev bytes super \<longleftrightarrow>
     (let n = unat (ss_physical_bs super); off = unat (get_super_sector0_offset (ss_physical_bs super)) * n; b = take n (drop off bytes) in
      off + n \<le> length bytes \<and> super_sector_of_bytes b = super \<and> is_valid_super_sector \<lparr>sd_size = n, sd_data = Some b\<rparr>)"

definition env_ok :: "tool_env \<Rightarrow> u32 \<Rightarrow> bool" where
  "env_ok e pbs \<longleftrightarrow>
     te_close e \<and> te_fdatasync e \<and> te_mem e \<and> memory_ok pbs (te_pack e) \<and>
     fst (te_sector e (unat pbs)) \<and> (\<exists>b. snd (te_sector e (unat pbs)) = Some b \<and> length b = unat pbs)"

definition path_ok :: "tool_env \<Rightarrow> u8 list option \<Rightarrow> u32 \<Rightarrow> bool" where
  "path_ok e path pbs \<longleftrightarrow> (\<exists>info. path_info e path = Some info \<and> bi_lbs info = LOGICAL_BLOCK_SIZE \<and> bi_pbs info = pbs)"

lemma env_sector:
  assumes "env_ok e pbs" "is_valid_pbs pbs"
  obtains s where "sector_alloc (unat pbs) (fst (te_sector e (unat pbs))) (snd (te_sector e (unat pbs))) = Some s"
    "sector_wf s" "sd_size s = unat pbs"
proof -
  obtain b where b: "fst (te_sector e (unat pbs))" "snd (te_sector e (unat pbs)) = Some b" "length b = unat pbs"
    using assms(1) by (auto simp: env_ok_def)
  have "0 < unat pbs" using assms(2) by (simp add: is_valid_pbs_unat)
  then show ?thesis using that [of "\<lparr>sd_size = unat pbs, sd_data = Some b\<rparr>"] b by (simp add: sector_alloc_def sector_wf_def)
qed

lemma read_super_ok:
  assumes e: "env_ok e (ss_physical_bs super)" and dev: "log_dev_ok super (od_bytes dev)" "super_on_dev (od_bytes dev) super"
    and w: "working (od_results dev)"
  obtains sectd dev' where "create_and_read_super_sector e dev (ss_physical_bs super) = (Some sectd, dev')" "get_super_sector sectd = super"
    "od_bytes dev' = od_bytes dev" "working (od_results dev')" "sector_wf sectd" "sd_size sectd = unat (ss_physical_bs super)"
    "is_valid_super_sector sectd"
proof -
  let ?n = "unat (ss_physical_bs super)" and ?off = "get_super_sector0_offset (ss_physical_bs super)"
  let ?b = "take ?n (drop (unat ?off * ?n) (od_bytes dev))"
  have s: "unat ?off * ?n + ?n \<le> length (od_bytes dev)" "super_sector_of_bytes ?b = super" "is_valid_super_sector \<lparr>sd_size = ?n, sd_data = Some ?b\<rparr>"
    using dev(2) by (simp_all add: super_on_dev_def Let_def)
  have pbs: "is_valid_pbs (ss_physical_bs super)" using dev(1) by (simp add: log_dev_ok_def)
  obtain sect where a: "sector_alloc ?n (fst (te_sector e ?n)) (snd (te_sector e ?n)) = Some sect" "sector_wf sect" "sd_size sect = ?n"
    using env_sector [OF e pbs] .
  obtain buf where buf: "sd_data sect = Some buf" "length buf = ?n" using a(2,3) by (auto simp: sector_wf_def)
  have o: "unat (?off * word_of_nat ?n) = unat ?off * ?n"
    using dev(1) s(1) pbs by (intro dev_block_offset [where len = "length (od_bytes dev)"]) (auto simp: log_dev_ok_def is_valid_pbs_unat)
  obtain dev' where r: "pread_all ?n (unat ?off * ?n) dev = (True, ?b, dev')" "od_bytes dev' = od_bytes dev" "working (od_results dev')"
    using pread_all_works [OF w s(1)] by blast
  have len: "length ?b = length buf" using s(1) buf(2) by simp
  let ?sectd = "\<lparr>sd_size = ?n, sd_data = Some ?b\<rparr>"
  have "sect\<lparr>sd_data := Some ?b\<rparr> = ?sectd" using a(3) by (cases sect) simp
  then have "dev_sector_read dev ?off sect = (True, ?sectd, dev')"
    using buf(1) a(3) o r(1) by (simp add: dev_sector_read_def overwrite_whole [OF len] del: length_take length_drop)
  then show ?thesis
    using that [of ?sectd dev'] a(1) s r(2,3) pbs by (simp add: create_and_read_super_sector_def get_super_sector_def sector_bytes_def sector_wf_def is_valid_pbs_unat)
qed

text \<open>What \<^verbatim>\<open>cat_wldev\<close> writes: a header for the range, the logpacks, and the end mark.\<close>

definition wlog_stream :: "walb_super_sector \<Rightarrow> u64 \<Rightarrow> u64 \<Rightarrow> stored_pack list \<Rightarrow> u8 list" where
  "wlog_stream super begin_lsid end_lsid ps =
     wlog_header_image \<lparr>wh_sector_type = SECTOR_TYPE_WALBLOG_HEADER, wh_version = WALB_LOG_VERSION,
       wh_header_size = of_nat WALBLOG_HEADER_SIZE, wh_reserved1 = 0, wh_checksum = 0, wh_log_checksum_salt = ss_log_checksum_salt super,
       wh_logical_bs = LOGICAL_BLOCK_SIZE, wh_physical_bs = ss_physical_bs super, wh_uuid = ss_uuid super,
       wh_begin_lsid = begin_lsid, wh_end_lsid = end_lsid\<rparr> @
     stream_of ps @ logpack_header_bytes (end_header (ss_physical_bs super) (ss_log_checksum_salt super))"

definition cat_begin :: "walb_super_sector \<Rightarrow> tool_config \<Rightarrow> u64" where
  "cat_begin super cfg = (if cf_lsid0 cfg = - 1 then ss_oldest_lsid super else cf_lsid0 cfg)"

text \<open>A log device with complete logpacks in the range a configuration asks for.\<close>

definition cat_source :: "walb_super_sector \<Rightarrow> tool_config \<Rightarrow> u8 list \<Rightarrow> stored_pack list \<Rightarrow> u64 \<Rightarrow> bool" where
  "cat_source super cfg bytes ps l \<longleftrightarrow>
     log_dev_ok super bytes \<and> super_on_dev bytes super \<and> ss_oldest_lsid super \<le> cf_lsid0 cfg \<and> cat_begin super cfg \<le> cf_lsid1 cfg \<and>
     packs_stored super bytes (cat_begin super cfg) ps l \<and> (\<forall>p \<in> set ps. lh_logpack_lsid (fst p) < cf_lsid1 cfg) \<and>
     (cf_lsid1 cfg \<le> l \<or> log_ends_at super bytes l)"

lemma uuid_length: "40 \<le> length b \<Longrightarrow> length (ss_uuid (super_sector_of_bytes b)) = 16"
  by (simp add: super_sector_of_bytes_def)

lemma super_on_dev_uuid:
  assumes "log_dev_ok super bytes" "super_on_dev bytes super"
  shows "length (ss_uuid super) = 16"
proof -
  let ?n = "unat (ss_physical_bs super)" and ?off = "unat (get_super_sector0_offset (ss_physical_bs super)) * unat (ss_physical_bs super)"
  have s: "super_sector_of_bytes (take ?n (drop ?off bytes)) = super" "?off + ?n \<le> length bytes" using assms(2) by (simp_all add: super_on_dev_def Let_def)
  have "512 \<le> ?n" using assms(1) by (auto simp: log_dev_ok_def is_valid_pbs_unat dest: dvd_imp_le)
  then have "40 \<le> length (take ?n (drop ?off bytes))" using s(2) by simp
  from uuid_length [OF this] show ?thesis unfolding s(1) .
qed

lemma do_cat_wldev_ok:
  assumes e: "env_ok e (ss_physical_bs super)" "path_ok e (cf_wldev_name cfg) (ss_physical_bs super)"
    and src: "cat_source super cfg (od_bytes dev) ps l" and w: "working (od_results dev)" "working (os_results out)"
  shows "\<exists>out'. do_cat_wldev e cfg dev out = Some (True, out') \<and>
    os_bytes out' = os_bytes out @ wlog_stream super (cat_begin super cfg) (cf_lsid1 cfg) ps"
proof -
  let ?pbs = "ss_physical_bs super" and ?salt = "ss_log_checksum_salt super" and ?b = "cat_begin super cfg"
  have s: "log_dev_ok super (od_bytes dev)" "super_on_dev (od_bytes dev) super" "packs_stored super (od_bytes dev) ?b ps l"
    "\<forall>p \<in> set ps. lh_logpack_lsid (fst p) < cf_lsid1 cfg" "cf_lsid1 cfg \<le> l \<or> log_ends_at super (od_bytes dev) l"
    "\<not> cf_lsid0 cfg < ss_oldest_lsid super" "\<not> cf_lsid1 cfg < ?b"
    using src by (auto simp: cat_source_def)
  have pbs: "is_valid_pbs ?pbs" "unat ?pbs \<le> 4096" using s(1) by (simp_all add: log_dev_ok_def)
  have mem: "memory_ok ?pbs (te_pack e)" "te_close e" using e(1) by (simp_all add: env_ok_def)
  obtain info where i: "path_info e (cf_wldev_name cfg) = Some info" "bi_lbs info = LOGICAL_BLOCK_SIZE" "bi_pbs info = ?pbs"
    using e(2) by (auto simp: path_ok_def)
  obtain sectd dev1 where r: "create_and_read_super_sector e dev ?pbs = (Some sectd, dev1)" "get_super_sector sectd = super"
    "od_bytes dev1 = od_bytes dev" "working (od_results dev1)" using read_super_ok [OF e(1) s(1,2) w(1)] by metis
  obtain pack where pk: "alloc_logpack (te_pack e) ?pbs (1048576 div unat ?pbs) = Some pack" "pack_wf ?pbs pack" using alloc_logpack_ok [OF mem(1) pbs] .
  let ?wh = "\<lparr>wh_sector_type = SECTOR_TYPE_WALBLOG_HEADER, wh_version = WALB_LOG_VERSION,
       wh_header_size = of_nat WALBLOG_HEADER_SIZE, wh_reserved1 = 0, wh_checksum = 0, wh_log_checksum_salt = ?salt,
       wh_logical_bs = LOGICAL_BLOCK_SIZE, wh_physical_bs = ?pbs, wh_uuid = ss_uuid super,
       wh_begin_lsid = ?b, wh_end_lsid = cf_lsid1 cfg\<rparr> :: walblog_header"
  have len: "length (wlog_header_image ?wh) = WALBLOG_HEADER_SIZE" using super_on_dev_uuid [OF s(1,2)] by (intro wlog_header_image_ok) simp
  obtain out1 where o1: "write_data (wlog_header_image ?wh) WALBLOG_HEADER_SIZE out = (True, out1)"
    "os_bytes out1 = os_bytes out @ wlog_header_image ?wh" "working (os_results out1)"
    using write_data_works [OF w(2), of WALBLOG_HEADER_SIZE "wlog_header_image ?wh"] len by auto
  obtain out2 where o2: "cat_loop (te_pack e) super ?salt ?pbs (cf_lsid1 cfg) ?b pack dev1 out1 = Some (True, out2)"
    "os_bytes out2 = os_bytes out1 @ stream_of ps" "working (os_results out2)"
    using cat_loop_ok [of super dev1 "te_pack e" ?b ps l, OF _ mem(1) _ s(4) _ pk(2) r(4) o1(3)] s(1,3,5) r(3) by auto
  have "24 \<le> unat ?pbs" using pbs by (auto simp: is_valid_pbs_unat dest: dvd_imp_le)
  note eh = end_header_ok(1) [OF this, of ?salt]
  obtain sect where "sector_alloc (unat ?pbs) (fst (te_sector e (unat ?pbs))) (snd (te_sector e (unat ?pbs))) = Some sect"
    using env_sector [OF e(1) pbs(1)] by blast
  then obtain out3 where o3: "write_end_logpack_header (te_sector e (unat ?pbs)) out2 ?pbs ?salt = (True, out3)"
    "os_bytes out3 = os_bytes out2 @ logpack_header_bytes (end_header ?pbs ?salt)"
    using write_data_works [OF o2(3), of "unat ?pbs" "logpack_header_bytes (end_header ?pbs ?salt)"] eh by (auto simp: write_end_logpack_header_def)
  have "do_cat_wldev e cfg dev out = Some (True, out3)"
    using i r(1,2) pk(1) s(6,7) o1(1) o2(1) o3(1) mem(2) by (simp add: do_cat_wldev_def Let_def cat_begin_def [symmetric])
  then show ?thesis using o1(2) o2(2) o3(2) by (simp add: wlog_stream_def)
qed


definition redo_range :: "tool_config \<Rightarrow> u64 \<Rightarrow> u64 \<Rightarrow> stored_pack list \<Rightarrow> stored_pack list" where
  "redo_range cfg begin_lsid end_lsid ps =
     in_range (if cf_lsid0 cfg = - 1 then begin_lsid else cf_lsid0 cfg) (if cf_lsid1 cfg = - 1 then end_lsid else cf_lsid1 cfg) ps"

lemma do_redo_wlog_ok:
  assumes e: "env_ok e (ss_physical_bs super)" "path_ok e (cf_ddev_name cfg) (ss_physical_bs super)"
    and dev: "log_dev_ok super bytes" "length (ss_uuid super) = 16" and range: "begin_lsid < end_lsid"
    and ps: "packs_stored super bytes l ps l'" "packs_fit (length (od_bytes ddev)) ps"
    and st: "is_bytes st = wlog_stream super begin_lsid end_lsid ps" "working (is_results st)"
    and dd: "working (od_results ddev)" "length (od_bytes ddev) < 2 ^ 64"
  shows "\<exists>ddev'. do_redo_wlog e cfg st ddev = Some (True, ddev') \<and>
    od_bytes ddev' = replay_packs (ss_physical_bs super) (redo_range cfg begin_lsid end_lsid ps) (od_bytes ddev)"
proof -
  let ?pbs = "ss_physical_bs super" and ?salt = "ss_log_checksum_salt super"
  have pbs: "is_valid_pbs ?pbs" "unat ?pbs \<le> 4096" using dev(1) by (simp_all add: log_dev_ok_def)
  have ev: "memory_ok ?pbs (te_pack e)" "te_close e" "te_fdatasync e" "te_mem e" using e(1) by (simp_all add: env_ok_def)
  obtain info where i: "path_info e (cf_ddev_name cfg) = Some info" "bi_lbs info = LOGICAL_BLOCK_SIZE" "bi_pbs info = ?pbs"
    using e(2) by (auto simp: path_ok_def)
  let ?wh = "\<lparr>wh_sector_type = SECTOR_TYPE_WALBLOG_HEADER, wh_version = WALB_LOG_VERSION,
       wh_header_size = of_nat WALBLOG_HEADER_SIZE, wh_reserved1 = 0, wh_checksum = 0, wh_log_checksum_salt = ?salt,
       wh_logical_bs = LOGICAL_BLOCK_SIZE, wh_physical_bs = ?pbs, wh_uuid = ss_uuid super,
       wh_begin_lsid = begin_lsid, wh_end_lsid = end_lsid\<rparr> :: walblog_header"
  let ?rest = "stream_of ps @ logpack_header_bytes (end_header ?pbs ?salt)"
  have u: "length (wh_uuid ?wh) = 16" using dev(2) by simp
  note img = wlog_header_image_ok [OF u]
  obtain c where c: "wlog_header_of_bytes (wlog_header_image ?wh) = ?wh\<lparr>wh_checksum := c\<rparr>" using img(2) by blast
  have "is_bytes st = wlog_header_image ?wh @ ?rest" using st(1) by (simp add: wlog_stream_def)
  from read_data_works [OF st(2) this img(1)] obtain st1 where
    r: "read_data WALBLOG_HEADER_SIZE st = (True, wlog_header_image ?wh, st1)" "is_bytes st1 = ?rest" "working (is_results st1)" by blast
  have "is_valid_wlog_header (wlog_header_image ?wh)" using img(3) c range pbs(1) by (simp add: is_valid_wlog_header_def Let_def not_le)
  then have hd: "create_and_read_wlog_header e st = (Some (?wh\<lparr>wh_checksum := c\<rparr>), st1)"
    using r(1) c ev(4) by (simp add: create_and_read_wlog_header_def)
  obtain pack where pk: "alloc_logpack (te_pack e) ?pbs (1048576 div unat ?pbs) = Some pack" "pack_wf ?pbs pack" using alloc_logpack_ok [OF ev(1) pbs] .
  let ?b = "if cf_lsid0 cfg = - 1 then begin_lsid else cf_lsid0 cfg" and ?e = "if cf_lsid1 cfg = - 1 then end_lsid else cf_lsid1 cfg"
  have o: "sorted_wrt (\<lambda>p q. lh_logpack_lsid (fst p) < lh_logpack_lsid (fst q)) ps" "\<forall>p \<in> set ps. stored_ok ?pbs (ss_ring_buffer_size super) ?salt p"
    using packs_stored_ordered [OF dev(1) ps(1)] by blast+
  have "\<exists>ddev'. redo_wlog_loop (te_pack e) ?salt ?pbs ?b ?e ?b pack st1 ddev = Some (True, ddev') \<and>
      od_bytes ddev' = replay_packs ?pbs (in_range ?b ?e ps) (od_bytes ddev)"
  proof (cases "?b < ?e")
    case True
    show ?thesis using redo_wlog_loop_ok [OF dev(1) ev(1) True o(2,1) ps(2) r(2,3) True pk(2) dd] .
  next
    case False
    then have "in_range ?b ?e ps = []" by (auto simp: in_range_def filter_empty_conv)
    then show ?thesis using False by (subst redo_wlog_loop.simps) simp
  qed
  then obtain ddev' where l: "redo_wlog_loop (te_pack e) ?salt ?pbs ?b ?e ?b pack st1 ddev = Some (True, ddev')"
    "od_bytes ddev' = replay_packs ?pbs (in_range ?b ?e ps) (od_bytes ddev)" by blast
  have "do_redo_wlog e cfg st ddev = Some (True, ddev')"
    using i hd pk(1) ev(2,3) l(1) by (simp add: do_redo_wlog_def Let_def split del: if_split cong: if_cong)
  then show ?thesis using l(2) by (simp add: redo_range_def)
qed

text \<open>
  C15.  Shipping the log: when the log device holds complete logpacks in the requested range,
  \<^verbatim>\<open>cat_wldev\<close> ends with success, and \<^verbatim>\<open>redo_wlog\<close> on what it wrote ends with success and writes
  to a data device exactly the logged writes of the logpacks in the range asked for, in the
  order of the log, whatever the sizes in which the system calls transfer the data.
\<close>

theorem cat_redo_roundtrip:
  assumes "env_ok e (ss_physical_bs super)" "path_ok e (cf_wldev_name cfg) (ss_physical_bs super)"
    and "path_ok e (cf_ddev_name cfg') (ss_physical_bs super)"
    and "cat_source super cfg (od_bytes ldev) ps l" "cat_begin super cfg < cf_lsid1 cfg" "working (od_results ldev)"
    and "working rs" "working rs'" "packs_fit (length (od_bytes ddev)) ps" "working (od_results ddev)" "length (od_bytes ddev) < 2 ^ 64"
  shows "\<exists>out ddev'. do_cat_wldev e cfg ldev \<lparr>os_bytes = [], os_results = rs\<rparr> = Some (True, out) \<and>
    do_redo_wlog e cfg' \<lparr>is_bytes = os_bytes out, is_results = rs'\<rparr> ddev = Some (True, ddev') \<and>
    od_bytes ddev' =
      replay_packs (ss_physical_bs super) (redo_range cfg' (cat_begin super cfg) (cf_lsid1 cfg) ps) (od_bytes ddev)"
proof -
  let ?out = "\<lparr>os_bytes = [], os_results = rs\<rparr>"
  have "working (os_results ?out)" using assms(7) by simp
  from do_cat_wldev_ok [OF assms(1,2,4,6) this] obtain out where
    o: "do_cat_wldev e cfg ldev ?out = Some (True, out)" "os_bytes out = wlog_stream super (cat_begin super cfg) (cf_lsid1 cfg) ps" by auto
  have s: "log_dev_ok super (od_bytes ldev)" "super_on_dev (od_bytes ldev) super" "packs_stored super (od_bytes ldev) (cat_begin super cfg) ps l"
    using assms(4) by (simp_all add: cat_source_def)
  let ?st = "\<lparr>is_bytes = os_bytes out, is_results = rs'\<rparr>"
  have "is_bytes ?st = wlog_stream super (cat_begin super cfg) (cf_lsid1 cfg) ps" "working (is_results ?st)" using o(2) assms(8) by simp_all
  from do_redo_wlog_ok [OF assms(1,3) s(1) super_on_dev_uuid [OF s(1,2)] assms(5) s(3) assms(9) this assms(10,11)] o(1) show ?thesis by blast
qed


section \<open>The same writes as the redo of the driver\<close>

text \<open>The data of each record, as \<^verbatim>\<open>replay_log\<close> of the redo in the driver takes it.\<close>

fun rec_datas :: "u32 \<Rightarrow> walb_log_record list \<Rightarrow> u8 list \<Rightarrow> u8 list list" where
  "rec_datas pbs [] d = []"
| "rec_datas pbs (r # rs) d = take (512 * unat (lr_io_size r)) d # rec_datas pbs rs (drop (rec_pb pbs r * unat pbs) d)"

definition pack_datas :: "u32 \<Rightarrow> stored_pack \<Rightarrow> walb_logpack_header \<times> u8 list list" where
  "pack_datas pbs p = (fst p, rec_datas pbs (used_records (fst p)) (snd p))"

lemma replay_bytes_records:
  assumes "is_valid_pbs pbs" "unat pbs \<le> 4096" "recs_ok pbs rbs l k rs" "recs_data pbs salt rs d" "recs_fit (length dd) rs"
    and "\<forall>i < length dd. f i = dd ! i" "i < length dd"
  shows "replay_bytes pbs rs d dd ! i = replay_records rs (rec_datas pbs rs d) f i"
  using assms(3-)
proof (induction rs arbitrary: k d dd f)
  case (Cons r rs)
  let ?d = "take (512 * unat (lr_io_size r)) d" and ?p = "unat (lr_offset r) * 512"
  have ok: "is_valid_log_record r" "recs_ok pbs rbs l (k + rec_pb pbs r) rs" using Cons.prems(1) rec_ok_pos by auto
  have d: "rec_pb pbs r * unat pbs \<le> length d" "recs_data pbs salt rs (drop (rec_pb pbs r * unat pbs) d)" using Cons.prems(2) by simp_all
  have fit: "recs_fit (length dd) rs" using Cons.prems(3) by (simp add: recs_fit_def)
  show ?case
  proof (cases "rec_normal r")
    case True
    then have "\<not> rec_discard r" by (simp add: rec_normal_def)
    from rec_sizes(3) [OF assms(1,2) ok(1) this] have len: "length ?d = 512 * unat (lr_io_size r)" using d(1) by simp
    have p: "?p + length ?d \<le> length dd" using Cons.prems(3) True len by (simp add: recs_fit_def add_mult_distrib)
    then have "\<forall>j < length dd. write_bytes ?p ?d f j = overwrite ?p ?d dd ! j"
      using Cons.prems(4) by (auto simp: write_bytes_def overwrite_def nth_append)
    then show ?thesis
      using Cons.IH [OF ok(2) d(2), of "overwrite ?p ?d dd" "write_bytes ?p ?d f"] True fit p Cons.prems(5) by (simp add: mult.commute)
  next
    case False
    then show ?thesis using Cons.IH [OF ok(2) d(2) fit Cons.prems(4,5)] by simp
  qed
qed simp

lemma replay_packs_log:
  assumes "log_dev_ok super bytes" "\<forall>p \<in> set ps. stored_ok (ss_physical_bs super) (ss_ring_buffer_size super) salt p"
    and "packs_fit (length dd) ps" "\<forall>i < length dd. f i = dd ! i" "i < length dd"
  shows "replay_packs (ss_physical_bs super) ps dd ! i = replay_log (map (pack_datas (ss_physical_bs super)) ps) f i"
  using assms(2-)
proof (induction ps arbitrary: dd f)
  case (Cons p ps)
  let ?pbs = "ss_physical_bs super" and ?rs = "used_records (fst p)"
  have p: "stored_ok ?pbs (ss_ring_buffer_size super) salt p" "\<forall>p \<in> set ps. stored_ok ?pbs (ss_ring_buffer_size super) salt p" using Cons.prems(1) by simp_all
  have pbs: "is_valid_pbs ?pbs" "unat ?pbs \<le> 4096" using assms(1) by (simp_all add: log_dev_ok_def)
  have d: "recs_data ?pbs salt ?rs (snd p)" using p(1) by (simp add: stored_ok_def)
  have fit: "recs_fit (length dd) ?rs" "packs_fit (length dd) ps" using Cons.prems(2) by simp_all
  note l = replay_bytes_length [OF fit(1), of ?pbs "snd p"]
  have "\<forall>j < length dd. replay_records ?rs (rec_datas ?pbs ?rs (snd p)) f j = replay_bytes ?pbs ?rs (snd p) dd ! j"
    using replay_bytes_records [OF pbs stored_ok_header(8) [OF assms(1) p(1)] d fit(1) Cons.prems(3)] by simp
  then show ?case using Cons.IH [OF p(2), of "replay_bytes ?pbs ?rs (snd p) dd"] l fit(2) Cons.prems(4) by (simp add: pack_datas_def)
qed simp


section \<open>Writing the super sector\<close>

lemma super_image_ok:
  assumes "super_wf super" "104 \<le> unat (ss_physical_bs super)"
  shows "length (super_image super) = unat (ss_physical_bs super)"
    "\<exists>c. super_sector_of_bytes (super_image super) = super\<lparr>ss_sector_type := SECTOR_TYPE_SUPER, ss_checksum := c\<rparr>"
    "4 dvd unat (ss_physical_bs super) \<Longrightarrow> checksum (super_image super) (unat (ss_physical_bs super)) 0 = 0"
proof -
  let ?rest = "replicate (unat (ss_physical_bs super) - 104) 0 :: u8 list"
  define c where "c = checksum (super_sector_bytes (super\<lparr>ss_sector_type := SECTOR_TYPE_SUPER, ss_checksum := 0\<rparr>) @ ?rest) (unat (ss_physical_bs super)) 0"
  let ?s = "super\<lparr>ss_sector_type := SECTOR_TYPE_SUPER, ss_checksum := c\<rparr>"
  have img: "super_image super = super_sector_bytes ?s @ ?rest" by (simp add: super_image_def c_def Let_def)
  have wf: "super_wf ?s" using assms(1) by simp
  show len: "length (super_image super) = unat (ss_physical_bs super)" unfolding img using super_sector_bytes_length [OF wf] assms(2) by simp
  let ?pre = "le_bytes 2 SECTOR_TYPE_SUPER @ le_bytes 2 (ss_version super)" and ?post = "drop 8 (super_sector_bytes super) @ ?rest"
  have split: "super_sector_bytes (super\<lparr>ss_sector_type := SECTOR_TYPE_SUPER, ss_checksum := x\<rparr>) @ ?rest = ?pre @ bytes_of_u32 x @ ?post" for x
    by (simp add: super_sector_bytes_def le_bytes_u32 [symmetric])
  have size: "unat (ss_physical_bs super) = length ?pre + 4 + length ?post" using super_sector_bytes_length [OF assms(1)] assms(2) by simp
  have c: "c = checksum (?pre @ bytes_of_u32 0 @ ?post) (unat (ss_physical_bs super)) 0" unfolding c_def split ..
  have "super_image super = sealed_block ?pre ?post 0" unfolding img split sealed_block_def c using size by simp
  moreover have "checksum (sealed_block ?pre ?post 0) (length (sealed_block ?pre ?post 0)) 0 = 0" if "4 dvd unat (ss_physical_bs super)"
    using that super_sector_bytes_length [OF assms(1)] by (intro checksum_sealed_block_zero) (simp_all add: dvd_diff_nat)
  ultimately show "4 dvd unat (ss_physical_bs super) \<Longrightarrow> checksum (super_image super) (unat (ss_physical_bs super)) 0 = 0" using len by metis
  have "super_sector_of_bytes (super_image super) = ?s"
    unfolding img using super_sector_roundtrip [of ?s ?rest] wf by (simp add: super_wf_def)
  then show "\<exists>c. super_sector_of_bytes (super_image super) = super\<lparr>ss_sector_type := SECTOR_TYPE_SUPER, ss_checksum := c\<rparr>" by blast
qed

lemma write_sector_raw_ok:
  assumes "working (od_results dev)" "length buf = unat sz" "0 < sz" "(unat off + 1) * unat sz \<le> length (od_bytes dev)" "length (od_bytes dev) < 2 ^ 64"
  shows "\<exists>dev'. write_sector_raw buf sz off dev = (True, dev') \<and> od_bytes dev' = overwrite (unat off * unat sz) buf (od_bytes dev) \<and>
    working (od_results dev')"
proof -
  have o: "unat (off * ucast sz) = unat off * unat sz" "unat off * unat sz + unat sz \<le> length (od_bytes dev)"
    using dev_block_offset [OF assms(4,5)] assms(3) by (simp_all add: word_less_nat_alt)
  show ?thesis
    using pwrite_loop_works [OF assms(1) o(2), of buf 0 "od_bytes dev"] assms(2) o(1) by (simp add: write_sector_raw_def write_sectors_raw_def)
qed

lemma overwrite_before:
  assumes "a + length x \<le> b" "b + length y \<le> length f"
  shows "take (length x) (drop a (overwrite b y (overwrite a x f))) = x"
proof -
  have "take b (overwrite a x f) = take a f @ x @ drop (a + length x) (take b f)" using assms by (simp add: overwrite_def take_drop)
  then show ?thesis using assms by (simp add: overwrite_def [of b])
qed


lemma packs_stored_end:
  assumes "log_dev_ok super bytes" "packs_stored super bytes l ps l'"
  shows "l \<le> l' \<and> (l \<noteq> INVALID_LSID \<longrightarrow> l' \<noteq> INVALID_LSID)"
  using assms(2)
proof (induction ps arbitrary: l)
  case (Cons p ps)
  note h = stored_ok_header(10,11) [OF assms(1), of "ss_log_checksum_salt super" p]
  have "l < pack_end (fst p)" "pack_end (fst p) \<le> MAX_LSID" using Cons.prems h by auto
  moreover have "MAX_LSID < INVALID_LSID" by code_simp
  ultimately have "l \<le> pack_end (fst p)" "pack_end (fst p) \<noteq> INVALID_LSID" by auto
  then show ?case using Cons.IH [of "pack_end (fst p)"] Cons.prems by auto
qed simp

lemma super_offsets:
  assumes "is_valid_pbs (ss_physical_bs super)" "unat (ss_physical_bs super) \<le> 4096"
  shows "unat (get_super_sector0_offset_2 super) < unat (get_super_sector1_offset_2 super)"
proof -
  have a: "unat (get_super_sector0_offset (ss_physical_bs super)) \<le> 4096"
    by (simp add: get_super_sector0_offset_def unat_div PAGE_SIZE_def)
  have m: "unat (1 + ucast (ss_metadata_size super) :: u64) = 1 + unat (ss_metadata_size super)"
    using unat_u32_lt [of "ss_metadata_size super"] by (subst unat_add_nowrap) simp_all
  have "unat (get_super_sector0_offset (ss_physical_bs super) + (1 + ucast (ss_metadata_size super))) =
      unat (get_super_sector0_offset (ss_physical_bs super)) + (1 + unat (ss_metadata_size super))"
    using a m unat_u32_lt [of "ss_metadata_size super"] by (subst unat_add_nowrap) simp_all
  then show ?thesis by (simp add: get_super_sector0_offset_2_def get_super_sector1_offset_2_def add.assoc)
qed

text \<open>Both copies are written and the first one is there afterwards.\<close>

lemma write_super_ok:
  assumes pbs: "is_valid_pbs (ss_physical_bs super)" "unat (ss_physical_bs super) \<le> 4096" "length (od_bytes dev) < 2 ^ 64"
    and dev: "super_wf super" "(unat (get_super_sector1_offset_2 super) + 1) * unat (ss_physical_bs super) \<le> length (od_bytes dev)"
    and w: "working (od_results dev)" and valid: "is_valid_super_sector_raw super (ss_physical_bs super)"
  shows "\<exists>dev' c. write_super_sector_raw True dev super = (True, dev') \<and> super_on_dev (od_bytes dev') (super\<lparr>ss_checksum := c\<rparr>) \<and>
    working (od_results dev') \<and> length (od_bytes dev') = length (od_bytes dev) \<and>
    take (unat (ss_physical_bs super)) (drop (unat (get_super_sector0_offset_2 super) * unat (ss_physical_bs super)) (od_bytes dev')) = super_image super"
proof -
  let ?pbs = "ss_physical_bs super" and ?img = "super_image super"
  let ?o0 = "get_super_sector0_offset_2 super" and ?o1 = "get_super_sector1_offset_2 super"
  have n: "512 \<le> unat ?pbs" "0 < ?pbs" using pbs(1) by (auto simp: is_valid_pbs_unat word_less_nat_alt dest: dvd_imp_le)
  have len: "length ?img = unat ?pbs" using super_image_ok(1) [OF dev(1)] n by simp
  obtain c where c: "super_sector_of_bytes ?img = super\<lparr>ss_checksum := c\<rparr>"
    using super_image_ok(2) [OF dev(1)] n(1) valid by (cases super) (auto simp: is_valid_super_sector_raw_def)
  note lt = super_offsets [OF pbs(1,2)]
  have "(unat ?o0 + 1) * unat ?pbs \<le> (unat ?o1 + 1) * unat ?pbs" using lt by (intro mult_le_mono1) simp
  then have f0: "(unat ?o0 + 1) * unat ?pbs \<le> length (od_bytes dev)" using dev(2) by (rule order_trans)
  obtain dev1 where r1: "write_sector_raw ?img ?pbs ?o0 dev = (True, dev1)" "od_bytes dev1 = overwrite (unat ?o0 * unat ?pbs) ?img (od_bytes dev)"
    "working (od_results dev1)" using write_sector_raw_ok [OF w len n(2) f0 pbs(3)] by blast
  have l1: "length (od_bytes dev1) = length (od_bytes dev)" unfolding r1(2) using f0 len by simp
  obtain dev2 where r2: "write_sector_raw ?img ?pbs ?o1 dev1 = (True, dev2)" "od_bytes dev2 = overwrite (unat ?o1 * unat ?pbs) ?img (od_bytes dev1)"
    "working (od_results dev2)" using write_sector_raw_ok [OF r1(3) len n(2)] dev(2) pbs(3) l1 by metis
  have l2: "length (od_bytes dev2) = length (od_bytes dev)" unfolding r2(2) using dev(2) len l1 by simp
  have "(unat ?o0 + 1) * unat ?pbs \<le> unat ?o1 * unat ?pbs" using lt by (intro mult_le_mono1) simp
  then have img: "take (unat ?pbs) (drop (unat ?o0 * unat ?pbs) (od_bytes dev2)) = ?img"
    using overwrite_before [of "unat ?o0 * unat ?pbs" ?img "unat ?o1 * unat ?pbs" ?img "od_bytes dev"] dev(2) len r1(2) r2(2) by simp
  have "super_on_dev (od_bytes dev2) (super\<lparr>ss_checksum := c\<rparr>)"
    using img c f0 l2 valid n by (simp add: super_on_dev_def get_super_sector0_offset_2_def [symmetric] is_valid_super_sector_def
        is_valid_sector_data_def sector_bytes_def is_valid_super_sector_raw_def add.commute Let_def)
  moreover have "write_super_sector_raw True dev super = (True, dev2)" using r1(1) r2(1) by (simp add: write_super_sector_raw_def Let_def)
  ultimately show ?thesis using r2(3) l2 img by blast
qed




section \<open>A log device\<close>

definition stream_super :: walb_super_sector where
  "stream_super = demo_super\<lparr>ss_physical_bs := 512, ss_ring_buffer_size := 99990, ss_written_lsid := 30\<rparr>"

definition stream_bytes :: "u8 list" where
  "stream_bytes = replicate 4096 0 @ (super_sector_bytes stream_super @ replicate 408 0) @ replicate 15872 0 @
     logpack_header_bytes redo_demo_header @ replicate 512 5 @ replicate 512 0"

definition stream_packs :: "stored_pack list" where
  "stream_packs = [(redo_demo_header, replicate 512 5)]"

definition stream_env :: tool_env where
  "stream_env =
     \<lparr>te_paths = (\<lambda>_. \<lparr>pr_open = True, pr_fstat = True, pr_is_block = True, pr_major = 8, pr_minor = 1, pr_size = Some 51200000,
        pr_lbs = Some 512, pr_pbs = Some 512\<rparr>),
      te_close = True, te_fdatasync = True, te_sector = (\<lambda>n. (True, Some (replicate n 0))), te_mem = True,
      te_pack = \<lparr>pa_malloc = True, pa_header = (True, Some (replicate 512 0)),
        pa_array = (True, True, replicate 2048 (True, Some (replicate 512 0))),
        pa_realloc = (\<lambda>n. (True, replicate n (True, Some (replicate 512 0))))\<rparr>,
      te_uuid = None, te_salt = 0,
      te_discard = \<lparr>dr_pbs = None, dr_try = False, dr_size = None, dr_whole = False, dr_after = (\<lambda>_ b. b)\<rparr>\<rparr>"

definition stream_config :: "u64 \<Rightarrow> u64 \<Rightarrow> tool_config" where
  "stream_config lsid0 lsid1 =
     init_config\<lparr>cf_ldev_name := Some [1], cf_wldev_name := Some [1], cf_ddev_name := Some [2], cf_lsid0 := lsid0, cf_lsid1 := lsid1\<rparr>"

lemma stream_super_fields [simp]:
  "ss_physical_bs stream_super = 512" "ss_logical_bs stream_super = 512" "ss_ring_buffer_size stream_super = 99990"
  "ss_log_checksum_salt stream_super = 77" "ss_oldest_lsid stream_super = 10" "ss_written_lsid stream_super = 30"
  "ss_metadata_size stream_super = 0"
  by (simp_all add: stream_super_def demo_super_def)

lemma stream_offsets [simp]:
  "get_super_sector0_offset 512 = 8" "get_super_sector1_offset_2 stream_super = 9"
  "get_offset_of_lsid_2 stream_super lsid = 10 + lsid mod 99990"
  by (simp_all add: get_super_sector0_offset_def get_super_sector1_offset_2_def get_ring_buffer_offset_2_def get_offset_of_lsid_2_def
      get_offset_of_lsid_def PAGE_SIZE_def)

lemma stream_lengths [simp]:
  "length (super_sector_bytes stream_super) = 104" "length (logpack_header_bytes redo_demo_header) = 512" "length stream_bytes = 22016"
proof -
  have "super_wf stream_super" by (simp add: stream_super_def super_wf_def demo_super_def UUID_SIZE_def DISK_NAME_LEN_def)
  then show s: "length (super_sector_bytes stream_super) = 104" by (rule super_sector_bytes_length)
  show h: "length (logpack_header_bytes redo_demo_header) = 512" by (simp add: logpack_header_bytes_records)
  show "length stream_bytes = 22016" by (simp add: stream_bytes_def s h)
qed

lemma stream_blocks:
  "take 512 (drop 4096 stream_bytes) = super_sector_bytes stream_super @ replicate 408 0"
  "take 512 (drop 20480 stream_bytes) = logpack_header_bytes redo_demo_header" "take 512 (drop 20992 stream_bytes) = replicate 512 5"
  "take 512 (drop 21504 stream_bytes) = replicate 512 0"
  by (simp_all add: stream_bytes_def)

lemma stream_dev_ok: "log_dev_ok stream_super stream_bytes" "super_on_dev stream_bytes stream_super"
proof -
  show "log_dev_ok stream_super stream_bytes" by (simp add: log_dev_ok_def is_valid_pbs_unat LOGICAL_BLOCK_SIZE_def)
  have s: "super_sector_of_bytes (super_sector_bytes stream_super @ replicate 408 0) = stream_super"
    by (rule super_sector_roundtrip) (simp_all add: stream_super_def demo_super_def UUID_SIZE_def DISK_NAME_LEN_def)
  have "is_valid_super_sector_raw stream_super 512" by code_simp
  then show "super_on_dev stream_bytes stream_super"
    using s by (simp add: super_on_dev_def stream_blocks is_valid_super_sector_def is_valid_sector_data_def sector_bytes_def Let_def)
qed

lemma stream_stored: "packs_stored stream_super stream_bytes 30 stream_packs 32" "log_ends_at stream_super stream_bytes 32"
proof -
  have "recs_data 512 77 redo_demo_recs (replicate 512 5)"
    using redo_demo_rec_facts unfolding redo_demo_recs_def by (simp add: rec_normal_def)
  moreover have "recs_on_dev stream_super stream_bytes redo_demo_recs (replicate 512 5)"
    using redo_demo_rec_facts unfolding redo_demo_recs_def by (simp add: stream_blocks Let_def)
  ultimately show "packs_stored stream_super stream_bytes 30 stream_packs 32"
    using redo_demo_inv redo_demo_sum
    by (simp add: stream_packs_def stored_ok_def block_at_def stream_blocks pack_end_def Let_def)
  have "le_word (replicate 2 0) = (0 :: u16)" by code_simp
  then have "lh_sector_type (logpack_header_of_bytes (replicate 512 0)) = 0"
    by (simp add: logpack_header_of_bytes_def Let_def)
  then show "log_ends_at stream_super stream_bytes 32"
    by (simp add: log_ends_at_def block_at_def stream_blocks is_valid_logpack_header_with_checksum_def is_valid_logpack_header_def
        SECTOR_TYPE_LOGPACK_def Let_def)
qed

lemma stream_fit: "packs_fit (length (od_bytes \<lparr>od_bytes = replicate 1000000 0, od_results = []\<rparr>)) stream_packs"
  using redo_demo_rec_facts by (simp add: stream_packs_def recs_fit_def redo_demo_recs_def rec_normal_def)

lemma stream_env_ok:
  "env_ok stream_env 512" "path_ok stream_env (cf_wldev_name (stream_config a b)) 512"
  "path_ok stream_env (cf_ldev_name (stream_config a b)) 512" "path_ok stream_env (cf_ddev_name (stream_config a b)) 512"
proof -
  show "env_ok stream_env 512" by (simp add: env_ok_def stream_env_def memory_ok_def allocs_ok_def)
  have "path_ok stream_env (Some [x]) 512" for x
    by (simp add: path_ok_def path_info_def open_bdev_and_get_info_def stream_env_def is_valid_pbs_unat LOGICAL_BLOCK_SIZE_def)
  then show "path_ok stream_env (cf_wldev_name (stream_config a b)) 512" "path_ok stream_env (cf_ldev_name (stream_config a b)) 512"
    "path_ok stream_env (cf_ddev_name (stream_config a b)) 512" by (simp_all add: stream_config_def)
qed

theorem cat_redo_roundtrip_witness:
  "\<exists>out ddev'. do_cat_wldev stream_env (stream_config 30 40) \<lparr>od_bytes = stream_bytes, od_results = [100, 3]\<rparr>
       \<lparr>os_bytes = [], os_results = [7]\<rparr> = Some (True, out) \<and>
    do_redo_wlog stream_env (stream_config (- 1) (- 1)) \<lparr>is_bytes = os_bytes out, is_results = [1]\<rparr>
       \<lparr>od_bytes = replicate 1000000 0, od_results = []\<rparr> = Some (True, ddev') \<and>
    od_bytes ddev' = replay_packs 512 (redo_range (stream_config (- 1) (- 1)) 30 40 stream_packs) (replicate 1000000 0)"
proof -
  have "cat_begin stream_super (stream_config 30 40) = 30" "cf_lsid1 (stream_config 30 40) = 40" by (simp_all add: cat_begin_def stream_config_def)
  moreover have "cat_source stream_super (stream_config 30 40) stream_bytes stream_packs 32"
    using stream_dev_ok stream_stored calculation by (simp add: cat_source_def stream_packs_def) (simp add: stream_config_def)
  ultimately show ?thesis
    using cat_redo_roundtrip [of stream_env stream_super "stream_config 30 40" "stream_config (- 1) (- 1)"
        "\<lparr>od_bytes = stream_bytes, od_results = [100, 3]\<rparr>" stream_packs 32 "[7]" "[1]" "\<lparr>od_bytes = replicate 1000000 0, od_results = []\<rparr>"]
      stream_env_ok stream_fit by (simp add: working_def)
qed


end
