(* ===== verification/Walb_Format.thy ===== *)
theory Walb_Format
  imports Walb_Log_Stream
begin

text \<open>
  Formatting a log device with the control tool: the super sector that \<^verbatim>\<open>format_ldev\<close> writes is
  the one that is read back, and the log starts empty.
\<close>

section \<open>The new super sector\<close>

definition new_super :: "u8 list \<Rightarrow> u32 \<Rightarrow> u32 \<Rightarrow> u64 \<Rightarrow> u64 \<Rightarrow> u8 list option \<Rightarrow> walb_super_sector" where
  "new_super uuid salt pbs ddev_lb ldev_lb name =
     set_super_sector_name
       \<lparr>ss_sector_type = SECTOR_TYPE_SUPER, ss_version = WALB_LOG_VERSION, ss_checksum = 0, ss_logical_bs = LOGICAL_BLOCK_SIZE,
        ss_physical_bs = pbs, ss_metadata_size = 0, ss_log_checksum_salt = salt, ss_uuid = uuid,
        ss_name = replicate DISK_NAME_LEN 0,
        ss_ring_buffer_size = ldev_lb div ucast (pbs div LOGICAL_BLOCK_SIZE) - get_ring_buffer_offset pbs,
        ss_oldest_lsid = 0, ss_written_lsid = 0, ss_device_size = ddev_lb\<rparr> name"

lemma new_super_fields [simp]:
  "ss_sector_type (new_super u s p d l n) = SECTOR_TYPE_SUPER" "ss_version (new_super u s p d l n) = WALB_LOG_VERSION"
  "ss_logical_bs (new_super u s p d l n) = LOGICAL_BLOCK_SIZE" "ss_physical_bs (new_super u s p d l n) = p"
  "ss_metadata_size (new_super u s p d l n) = 0" "ss_uuid (new_super u s p d l n) = u"
  "ss_oldest_lsid (new_super u s p d l n) = 0" "ss_written_lsid (new_super u s p d l n) = 0"
  "ss_log_checksum_salt (new_super u s p d l n) = s" "ss_checksum (new_super u s p d l n) = 0"
  by (simp_all add: new_super_def set_super_sector_name_def Let_def split: option.split)

lemma new_super_name:
  "length (ss_name (new_super u s p d l n)) = DISK_NAME_LEN" "strnlen (ss_name (new_super u s p d l n)) DISK_NAME_LEN < DISK_NAME_LEN"
proof -
  have pos: "0 < DISK_NAME_LEN" by (simp add: DISK_NAME_LEN_def)
  then have r: "replicate DISK_NAME_LEN (0 :: u8) = 0 # replicate (DISK_NAME_LEN - 1) 0" using replicate_Suc [of "DISK_NAME_LEN - 1" "0 :: u8"] by simp
  show "length (ss_name (new_super u s p d l n)) = DISK_NAME_LEN"
    using pos by (auto simp: new_super_def set_super_sector_name_def Let_def min_def split: option.split)
  show "strnlen (ss_name (new_super u s p d l n)) DISK_NAME_LEN < DISK_NAME_LEN"
  proof (cases n)
    case None
    then have "ss_name (new_super u s p d l n) = [] @ 0 # replicate (DISK_NAME_LEN - 1) 0"
      by (simp add: new_super_def set_super_sector_name_def r)
    then show ?thesis using strnlen_terminated [of "[]" DISK_NAME_LEN "replicate (DISK_NAME_LEN - 1) 0"] pos by simp
  next
    case (Some nm)
    then show ?thesis unfolding new_super_def using set_super_sector_name_valid by simp
  qed
qed

lemma new_super_valid:
  assumes "is_valid_pbs p" "length u = UUID_SIZE"
  shows "is_valid_super_sector_raw (new_super u s p d l n) p" "super_wf (new_super u s p d l n)"
proof -
  have v: "512 dvd unat p" "0 < unat p" using assms(1) by (simp_all add: is_valid_pbs_unat)
  then have "512 \<le> unat p" by (rule dvd_imp_le)
  moreover have "unat (p mod 512) = 0" using v(1) by (simp add: unat_mod)
  then have "p mod 512 = 0" by (simp add: unat_eq_0)
  ultimately show "is_valid_super_sector_raw (new_super u s p d l n) p"
    using assms(1) new_super_name(2) by (simp add: is_valid_super_sector_raw_def INVALID_LSID_def LOGICAL_BLOCK_SIZE_def word_le_nat_alt)
  show "super_wf (new_super u s p d l n)" using assms(2) new_super_name(1) by (simp add: super_wf_def)
qed


section \<open>Writing it\<close>

lemma zero_sector:
  assumes "env_ok e pbs" "is_valid_pbs pbs"
  shows "sector_alloc_zero (unat pbs) (fst (te_sector e (unat pbs))) (snd (te_sector e (unat pbs))) =
    Some \<lparr>sd_size = unat pbs, sd_data = Some (replicate (unat pbs) 0)\<rparr>"
proof -
  obtain s where s: "sector_alloc (unat pbs) (fst (te_sector e (unat pbs))) (snd (te_sector e (unat pbs))) = Some s" "sector_wf s" "sd_size s = unat pbs"
    using env_sector [OF assms] .
  then show ?thesis using sector_zeroclear_ok [OF s(2)] by (cases s) (simp add: sector_alloc_zero_def)
qed

lemma overwrite_after:
  assumes "a + n \<le> b" "b + length y \<le> length f"
  shows "take n (drop a (overwrite b y f)) = take n (drop a f)"
proof -
  have "take n (drop a (overwrite b y f)) = take n (drop a (take b (overwrite b y f)))" using assms(1) by (simp add: take_drop min_def)
  also have "take b (overwrite b y f) = take b f" using assms(2) by (simp add: overwrite_def)
  finally show ?thesis using assms(1) by (simp add: take_drop min_def)
qed

lemma new_super_offsets:
  "unat (get_super_sector0_offset p) = 4096 div unat p" "unat (get_super_sector1_offset_2 (new_super u s p d l n)) = 4096 div unat p + 1"
  "unat (get_offset_of_lsid_2 (new_super u s p d l n) 0) = 4096 div unat p + 2"
proof -
  show o: "unat (get_super_sector0_offset p) = 4096 div unat p" by (simp add: get_super_sector0_offset_def unat_div PAGE_SIZE_def)
  have small: "4096 div unat p < k" if "4096 < k" for k using that by (meson div_le_dividend le_less_trans)
  show o1: "unat (get_super_sector1_offset_2 (new_super u s p d l n)) = 4096 div unat p + 1"
    using o by (simp add: get_super_sector1_offset_2_def) (subst unat_add_nowrap, simp_all add: small)
  show "unat (get_offset_of_lsid_2 (new_super u s p d l n) 0) = 4096 div unat p + 2"
    using o1 by (simp add: get_offset_of_lsid_2_def get_offset_of_lsid_def get_ring_buffer_offset_2_def) (subst unat_add_nowrap, simp_all add: small)
qed

lemma zero_block_ends:
  assumes "block_at super bytes l = Some (replicate n 0)" "6 \<le> n"
  shows "log_ends_at super bytes l"
proof -
  have "le_word (replicate 2 0) = (0 :: u16)" by code_simp
  then have "lh_sector_type (logpack_header_of_bytes (replicate n 0)) = 0" using assms(2) by (simp add: logpack_header_of_bytes_def Let_def)
  then show ?thesis
    using assms(1) by (simp add: log_ends_at_def is_valid_logpack_header_with_checksum_def is_valid_logpack_header_def SECTOR_TYPE_LOGPACK_def Let_def)
qed

lemma init_walb_metadata_ok:
  fixes dev :: open_dev and ddev_lb ldev_lb name
  assumes e: "env_ok e pbs" "te_uuid e = Some u" "length u = UUID_SIZE" and pbs: "is_valid_pbs pbs" "unat pbs \<le> 4096"
    and dev: "(4096 div unat pbs + 3) * unat pbs \<le> length (od_bytes dev)" "length (od_bytes dev) < 2 ^ 64" and w: "working (od_results dev)"
  defines "super \<equiv> new_super u (te_salt e) pbs ddev_lb ldev_lb name"
  shows "\<exists>dev' c. init_walb_metadata e dev LOGICAL_BLOCK_SIZE pbs ddev_lb ldev_lb name = (True, dev') \<and>
    super_on_dev (od_bytes dev') (super\<lparr>ss_checksum := c\<rparr>) \<and> log_ends_at super (od_bytes dev') 0"
proof -
  let ?n = "unat pbs" and ?k = "4096 div unat pbs"
  let ?z = "\<lparr>sd_size = ?n, sd_data = Some (replicate ?n 0)\<rparr> :: sector_data" and ?sect = "put_super_sector super \<lparr>sd_size = ?n, sd_data = Some (replicate ?n 0)\<rparr>"
  have n: "512 \<le> ?n" "4 dvd ?n" "0 < ?n" using pbs(1) by (auto simp: is_valid_pbs_unat dest: dvd_imp_le intro: dvd_trans [of _ 512])
  have p: "ss_physical_bs super = pbs" by (simp add: super_def)
  note valid = new_super_valid [OF pbs(1) e(3), of "te_salt e" ddev_lb ldev_lb name, folded super_def]
  note off = new_super_offsets(1) [of pbs] new_super_offsets(2,3) [of u "te_salt e" pbs ddev_lb ldev_lb name, folded super_def]
  have init: "init_super_sector (te_uuid e) (te_salt e) LOGICAL_BLOCK_SIZE pbs ddev_lb ldev_lb name ?z = Some ?sect"
    by (simp add: init_super_sector_def init_super_sector_raw_def e(2) super_def new_super_def)
  have len: "104 \<le> length (sector_bytes ?z)" using n(1) by (simp add: sector_bytes_def)
  note put = put_super_sector [OF valid(2) len]
  have sw: "sector_wf ?sect" using put(2,4) n(3) by (auto simp: sector_wf_def put_super_sector_def sector_bytes_def)
  have sv: "is_valid_super_sector ?sect"
    using sector_wf_valid [OF sw] put(3,4) valid(1) by (simp add: is_valid_super_sector_def get_super_sector_def)
  have "(?k + 1 + 1) * ?n \<le> (?k + 3) * ?n" by (intro mult_le_mono1) simp
  then have f1: "(unat (get_super_sector1_offset_2 super) + 1) * unat (ss_physical_bs super) \<le> length (od_bytes dev)" using dev(1) off(2) p by simp
  obtain dev1 c where w1: "write_super_sector_raw True dev super = (True, dev1)" "super_on_dev (od_bytes dev1) (super\<lparr>ss_checksum := c\<rparr>)"
    "working (od_results dev1)" "length (od_bytes dev1) = length (od_bytes dev)" "take ?n (drop (?k * ?n) (od_bytes dev1)) = super_image super"
    using write_super_ok [of super dev, OF _ _ dev(2) valid(2) f1 w] pbs valid(1) off(1) p by (auto simp: get_super_sector0_offset_2_def)
  have "(unat (get_offset_of_lsid_2 super 0) + 1) * ?n \<le> length (od_bytes dev1)" using dev(1) off(3) w1(4) by (simp add: add_mult_distrib)
  from dev_block_offset [OF this _ n(3)] dev(2) w1(4) off(3) have o: "unat (get_offset_of_lsid_2 super 0 * word_of_nat ?n) = (?k + 2) * ?n"
    "(?k + 2) * ?n + ?n \<le> length (od_bytes dev1)" by simp_all
  obtain dev2 where w2: "pwrite_all (replicate ?n 0) ?n ((?k + 2) * ?n) dev1 = (True, dev2)" "working (od_results dev2)"
    "od_bytes dev2 = overwrite ((?k + 2) * ?n) (replicate ?n 0) (od_bytes dev1)"
    using pwrite_all_works [OF w1(3) o(2), of "replicate ?n 0"] by auto
  have inv: "write_invalid_logpack_header (te_sector e ?n) dev1 ?sect 0 = (True, dev2)"
    using zero_sector [OF e(1) pbs(1)] w2(1) o(1) put(3) p by (simp add: write_invalid_logpack_header_def dev_sector_write_def Let_def)
  have l2: "length (od_bytes dev2) = length (od_bytes dev1)" using w2(3) o(2) by simp
  have "?k * ?n + ?n \<le> (?k + 2) * ?n" by (simp add: add_mult_distrib)
  from overwrite_after [OF this, of "replicate ?n 0" "od_bytes dev1"] o(2) have img: "take ?n (drop (?k * ?n) (od_bytes dev2)) = super_image super"
    using w1(5) w2(3) by simp
  have zc: "sector_zeroclear ?sect = Some ?z" using sector_zeroclear_ok [OF sw] put(4) by (simp add: put_super_sector_def)
  have fit: "?k * ?n + ?n \<le> length (od_bytes dev2)" using o(2) l2 by (simp add: add_mult_distrib)
  have o0: "unat (get_super_sector0_offset pbs * word_of_nat ?n) = ?k * ?n"
    using dev_block_offset(1) [of "get_super_sector0_offset pbs" ?n "length (od_bytes dev2)"] fit off(1) n(3) l2 w1(4) dev(2) by simp
  obtain dev3 where rd: "pread_all ?n (?k * ?n) dev2 = (True, super_image super, dev3)" "od_bytes dev3 = od_bytes dev2"
    using pread_all_works [OF w2(2) fit] img by auto
  note si = super_image_ok [OF valid(2), unfolded p]
  have s3: "dev_sector_read dev2 (get_super_sector0_offset pbs) ?z = (True, \<lparr>sd_size = ?n, sd_data = Some (super_image super)\<rparr>, dev3)"
    using rd(1) o0 si(1) n(1) by (simp add: dev_sector_read_def overwrite_whole)
  have on: "super_on_dev (od_bytes dev2) (super\<lparr>ss_checksum := c\<rparr>)"
    using w1(2,5) img fit off(1) p by (simp add: super_on_dev_def Let_def)
  then have "is_valid_super_sector \<lparr>sd_size = ?n, sd_data = Some (super_image super)\<rparr>" using img off(1) p by (simp add: super_on_dev_def Let_def)
  then have rs: "read_super_sector dev2 ?z = (True, \<lparr>sd_size = ?n, sd_data = Some (super_image super)\<rparr>, dev3)"
    using s3 si(3) n by (simp add: read_super_sector_def is_valid_sector_data_def sector_bytes_def)
  have "init_walb_metadata e dev LOGICAL_BLOCK_SIZE pbs ddev_lb ldev_lb name = (True, dev3)"
    using zero_sector [OF e(1) pbs(1)] init sv w1(1) put(3) inv zc rs e(1) by (simp add: init_walb_metadata_def write_super_sector_def env_ok_def)
  moreover have "block_at super (od_bytes dev2) 0 = Some (replicate ?n 0)"
    using o(2) off(3) p w2(3) by (simp add: block_at_def overwrite_def Let_def)
  then have "log_ends_at super (od_bytes dev2) 0" using n(1) by (intro zero_block_ends [where n = ?n]) simp_all
  ultimately show ?thesis using on rd(2) by auto
qed


lemma path_info_sizes:
  assumes "path_info e path = Some info"
  shows "bi_lbs info = LOGICAL_BLOCK_SIZE" "is_valid_pbs (bi_pbs info)"
  using assms by (auto simp: path_info_def open_bdev_and_get_info_def split: option.splits if_splits)

text \<open>
  C17.  \<^verbatim>\<open>walbctl format_ldev\<close>: on two block devices of the same block size, with whole logical blocks
  and a log device that has room for the super sectors, the command succeeds; afterwards the log
  device holds a valid super sector with the sizes, the salt, the uuid and the name given, lsids
  0, and a log that is empty.  A discard before may leave any contents.
\<close>

theorem format_ldev_empty_log:
  assumes "path_info e (cf_ldev_name cfg) = Some li" "path_info e (cf_ddev_name cfg) = Some di" "is_block_size_same li di"
    and "bi_size li mod 512 = 0" "bi_size di mod 512 = 0"
    and "env_ok e (bi_pbs li)" "te_uuid e = Some u" "length u = UUID_SIZE" "unat (bi_pbs li) \<le> 4096"
    and "cf_nodiscard cfg \<or> dr_whole (te_discard e) \<and> dr_size (te_discard e) \<noteq> None"
    and "\<And>n b. length (dr_after (te_discard e) n b) = length b"
    and "(4096 div unat (bi_pbs li) + 3) * unat (bi_pbs li) \<le> length (od_bytes dev)" "length (od_bytes dev) < 2 ^ 64"
    and "working (od_results dev)"
  shows "\<exists>dev' c. do_format_ldev e cfg dev = (True, dev') \<and>
    (let super = new_super u (te_salt e) (bi_pbs li) (bi_size di div 512) (bi_size li div 512) (cf_name cfg) in
     super_on_dev (od_bytes dev') (super\<lparr>ss_checksum := c\<rparr>) \<and> log_ends_at super (od_bytes dev') 0)"
proof -
  note lbs = path_info_sizes [OF assms(1)]
  obtain sup dev1 where d1: "(if cf_nodiscard cfg then (False, dev) else is_discard_supported (te_discard e) dev) = (sup, dev1)" by fastforce
  then have k1: "length (od_bytes dev1) = length (od_bytes dev)" "od_results dev1 = od_results dev" "sup \<longrightarrow> \<not> cf_nodiscard cfg"
    using assms(11) by (auto simp: is_discard_supported_def split: if_splits option.splits)
  obtain ok dev2 where d2: "(if sup then discard_whole_area (te_discard e) dev1 else (True, dev1)) = (ok, dev2)" by fastforce
  then have k2: "ok" "length (od_bytes dev2) = length (od_bytes dev)" "od_results dev2 = od_results dev"
    using assms(10,11) k1 by (auto simp: discard_whole_area_def split: if_splits option.splits)
  let ?d = "bi_size di div ucast LOGICAL_BLOCK_SIZE" and ?l = "bi_size li div ucast LOGICAL_BLOCK_SIZE"
  obtain dev' c where m: "init_walb_metadata e dev2 LOGICAL_BLOCK_SIZE (bi_pbs li) ?d ?l (cf_name cfg) = (True, dev')"
    "super_on_dev (od_bytes dev') ((new_super u (te_salt e) (bi_pbs li) ?d ?l (cf_name cfg))\<lparr>ss_checksum := c\<rparr>)"
    "log_ends_at (new_super u (te_salt e) (bi_pbs li) ?d ?l (cf_name cfg)) (od_bytes dev') 0"
    using init_walb_metadata_ok [OF assms(6-8) lbs(2) assms(9), of dev2 ?d ?l "cf_name cfg"] assms(12-14) k2(2,3) by auto
  have c: "ucast LOGICAL_BLOCK_SIZE = (512 :: u64)" by (simp add: LOGICAL_BLOCK_SIZE_def)
  have "do_format_ldev e cfg dev = (True, dev')"
    using assms(1-5) lbs(1) d1 d2 k2(1) m(1) assms(6) c by (simp add: do_format_ldev_def env_ok_def Let_def)
  then show ?thesis using m(2,3) c by auto
qed

theorem format_ldev_empty_log_witness:
  "\<exists>dev' c. do_format_ldev (stream_env\<lparr>te_uuid := Some (replicate 16 9)\<rparr>) ((stream_config 0 0)\<lparr>cf_nodiscard := True\<rparr>)
       \<lparr>od_bytes = replicate 100000 1, od_results = [5]\<rparr> = (True, dev') \<and>
    (let super = new_super (replicate 16 9) 0 512 100000 100000 None in
     super_on_dev (od_bytes dev') (super\<lparr>ss_checksum := c\<rparr>) \<and> log_ends_at super (od_bytes dev') 0)"
proof -
  let ?e = "stream_env\<lparr>te_uuid := Some (replicate 16 9)\<rparr>" and ?cfg = "(stream_config 0 0)\<lparr>cf_nodiscard := True\<rparr>"
  let ?i = "\<lparr>bi_size = 51200000, bi_lbs = 512, bi_pbs = 512, bi_major = 8, bi_minor = 1\<rparr>"
  let ?dev = "\<lparr>od_bytes = replicate 100000 1, od_results = [5]\<rparr>"
  have i: "path_info ?e (cf_ldev_name ?cfg) = Some ?i" "path_info ?e (cf_ddev_name ?cfg) = Some ?i"
    by (simp_all add: stream_config_def path_info_def open_bdev_and_get_info_def stream_env_def is_valid_pbs_unat LOGICAL_BLOCK_SIZE_def)
  have e: "env_ok ?e 512" using stream_env_ok(1) by (simp add: env_ok_def)
  have "te_salt ?e = 0" "cf_name ?cfg = None" by (simp_all add: stream_env_def stream_config_def init_config_def)
  then show ?thesis
    using format_ldev_empty_log [OF i, of "replicate 16 9" ?dev] e
    by (simp add: is_block_size_same_def UUID_SIZE_def stream_env_def working_def)
qed

end
