(* ===== verification/Walb_Tasks.thy ===== *)
theory Walb_Tasks
  imports Walb_Iocore
begin

text \<open>
  The four tasks of the IO core (\<^verbatim>\<open>module/io.c\<close>) as whole loops, and the decisions around the
  creation of logpacks: flushing the log device and waiting for room in the ring buffer.  A task
  takes one list element per turn of its loop, with the results of allocations and devices in
  that turn; it is \<^const>\<open>None\<close> when the list ends before the task does.  The last part is about
  the working bits of the tasks when requests and tasks run concurrently.
\<close>

section \<open>Creating logpacks\<close>

text \<open>The decision to flush the log device; the difference of the lsids is unsigned.\<close>

definition decide_flush :: "'d block_ops \<Rightarrow> u64 \<Rightarrow> 'd walb_dev \<Rightarrow> bool \<Rightarrow> bool" where
  "decide_flush ops jiffies wdev is_flush =
     (is_flush \<or>
      supports_flush_request_bdev ops (wd_ldev wdev) \<and>
      (wd_log_flush_interval_pb wdev > 0 \<and>
         completed (wd_lsids wdev) - flush (wd_lsids wdev) > ucast (wd_log_flush_interval_pb wdev) \<or>
       wd_log_flush_interval_jiffies wdev > 0 \<and> ic_log_flush_jiffies (wd_iocore wdev) < jiffies))"

definition mark_first :: "(pack \<Rightarrow> pack) \<Rightarrow> pack list \<Rightarrow> pack list" where
  "mark_first f ps = (case ps of [] \<Rightarrow> [] | p # ps' \<Rightarrow> f p # ps')"

definition mark_permanent :: "u64 option \<Rightarrow> pack list \<Rightarrow> pack list" where
  "mark_permanent new_permanent ps =
     (case new_permanent of None \<Rightarrow> ps | Some l \<Rightarrow> mark_first (\<lambda>p. p\<lparr>pk_new_permanent_lsid := l\<rparr>) ps)"

text \<open>What happens in one turn of the loop that waits for room: time, the results of the
  allocations of a checkpoint, and what the other tasks do to the device meanwhile.\<close>

record 'd ring_turn =
  rt_jiffies :: u64
  rt_alloc :: sync_alloc
  rt_others :: "'d walb_dev \<Rightarrow> 'd walb_dev"

fun ring_wait ::
  "'d block_ops \<Rightarrow> (u32 \<Rightarrow> u64) \<Rightarrow> u64 \<Rightarrow> 'd ring_turn list \<Rightarrow> u64 \<Rightarrow> u64 \<Rightarrow> 'd walb_dev \<Rightarrow> (bool \<times> 'd walb_dev) option" where
  "ring_wait ops msecs latest_lsid [] written_lsid prev_written_lsid wdev =
     (if latest_lsid - prev_written_lsid > wd_ring_buffer_size wdev then None else Some (True, wdev))"
| "ring_wait ops msecs latest_lsid (t # ts) written_lsid prev_written_lsid wdev =
     (if latest_lsid - prev_written_lsid > wd_ring_buffer_size wdev then
        (if latest_lsid - written_lsid > wd_ring_buffer_size wdev then
           (if is_read_only wdev then Some (False, wdev)
            else
              (let wdev1 = rt_others t (snd (force_flush_ldev ops (rt_jiffies t) wdev)) in
               ring_wait ops msecs latest_lsid ts (written (wd_lsids wdev1)) (prev_written (wd_lsids wdev1)) wdev1))
         else
           (case take_checkpoint ops (rt_alloc t) (wdev\<lparr>wd_cpd := stop_checkpointing (wd_cpd wdev)\<rparr>) of
              None \<Rightarrow> None
            | Some (ok, wdev1) \<Rightarrow>
                if \<not> ok then Some (False, wdev1)
                else
                  (let wdev2 = rt_others t (wdev1\<lparr>wd_cpd := start_checkpointing msecs (wd_cpd wdev1)\<rparr>) in
                   ring_wait ops msecs latest_lsid ts (written (wd_lsids wdev2)) (prev_written (wd_lsids wdev2)) wdev2)))
      else Some (True, wdev))"

definition destroy_pack :: "pack \<Rightarrow> 'd io_state \<Rightarrow> 'd io_state" where
  "destroy_pack p s = fold destroy_bio_wrapper_dec (pk_biow_list p) s"

fun fail_packs :: "pack list \<Rightarrow> 'd io_state \<Rightarrow> 'd io_state" where
  "fail_packs [] s = s"
| "fail_packs (p # ps) s =
     fail_packs ps (destroy_pack (p\<lparr>pk_biow_list := []\<rparr>) (fail_and_destroy_bio_wrapper_list (pk_biow_list p) s))"

record 'd create_args =
  ca_ops :: "'d block_ops"
  ca_msecs :: "u32 \<Rightarrow> u64"
  ca_allocs :: "(pack option \<times> bool) list"
  ca_jiffies :: u64
  ca_error_before_overflow :: bool
  ca_turns :: "'d ring_turn list"

text \<open>The lsids are read before the packs are made, and stored before there is room for them.\<close>

definition create_logpack_list ::
  "'d create_args \<Rightarrow> ulong list \<Rightarrow> 'd io_state \<Rightarrow> (bool \<times> pack list \<times> 'd io_state) option" where
  "create_logpack_list ca biow_list s =
     (let wdev = io_dev s; lsids = wd_lsids wdev; rbs = wd_ring_buffer_size wdev in
      case create_packs (ca_allocs ca) (ucast (wd_physical_bs wdev)) rbs (wd_max_logpack_pb wdev) biow_list (latest lsids) (io_biows s) of
        None \<Rightarrow> None
      | Some st \<Rightarrow>
          (let is_flush = decide_flush (ca_ops ca) (ca_jiffies ca) wdev (wp_is_flush st);
               packs = (if is_flush then mark_first (\<lambda>p. p\<lparr>pk_is_flush_header := True\<rparr>) (wp_list st) else wp_list st);
               s1 = s\<lparr>io_biows := wp_store st\<rparr> in
           if ca_error_before_overflow ca \<and> rbs < wp_latest st - oldest lsids then Some (False, [], fail_packs packs s1)
           else
             (let (new_permanent, wdev1) = store_lsids (ca_jiffies ca) (wp_latest st) is_flush wdev;
                  packs1 = mark_permanent new_permanent packs;
                  wdev2 = (if wp_latest st - oldest lsids > rbs then set_wdev_flag WALB_STATE_OVERFLOW wdev1 else wdev1) in
              case ring_wait (ca_ops ca) (ca_msecs ca) (wp_latest st) (ca_turns ca) (written lsids) (prev_written lsids) wdev2 of
                None \<Rightarrow> None
              | Some (ok, wdev3) \<Rightarrow>
                  if ok then Some (True, packs1, s1\<lparr>io_dev := wdev3\<rparr>)
                  else Some (False, [], fail_packs packs1 (s1\<lparr>io_dev := wdev3\<rparr>)))))"

section \<open>The log tasks\<close>

definition log_params_of :: "'d block_ops \<Rightarrow> 'd walb_dev \<Rightarrow> log_params" where
  "log_params_of ops wdev =
     \<lparr>lp_pbs = ucast (wd_physical_bs wdev), lp_salt = wd_log_checksum_salt wdev, lp_ring_buffer_off = wd_ring_buffer_off wdev,
      lp_ring_buffer_size = wd_ring_buffer_size wdev, lp_chunk_sectors = wd_ldev_chunk_sectors wdev,
      lp_supports_flush = supports_flush_request_bdev ops (wd_ldev wdev)\<rparr>"

record 'd submit_turn =
  su_create :: "'d create_args"
  su_split :: "bio \<Rightarrow> u32 \<Rightarrow> (bio \<times> bio) option"

text \<open>The bios sent to the log device are returned besides the state.\<close>

fun task_submit_logpack_list :: "'d submit_turn list \<Rightarrow> 'd io_state \<Rightarrow> (bio list \<times> 'd io_state) option" where
  "task_submit_logpack_list [] s = None"
| "task_submit_logpack_list (t # ts) s =
     (let (biow_list, s1) = dequeue_submit_queue s in
      if biow_list = [] then Some ([], s1)
      else if is_read_only (io_dev s1) then task_submit_logpack_list ts (fail_and_destroy_bio_wrapper_list biow_list s1)
      else case create_logpack_list (su_create t) biow_list s1 of
        None \<Rightarrow> None
      | Some (ok, wpack_list, s2) \<Rightarrow>
          if \<not> ok then task_submit_logpack_list ts s2
          else
            (case submit_logpack_list (su_split t) (log_params_of (ca_ops (su_create t)) (io_dev s2)) wpack_list (io_biows s2) of
               None \<Rightarrow> None
             | Some (wpack_list1, H, ios) \<Rightarrow>
                 map_option (\<lambda>(ios', s'). (ios @ ios', s'))
                   (task_submit_logpack_list ts
                     (dispatch_wait_log_task (upd_core (\<lambda>ic. ic\<lparr>ic_logpack_wait_queue := ic_logpack_wait_queue ic @ wpack_list1\<rparr>)
                        (s2\<lparr>io_biows := H\<rparr>))))))"

definition dequeue_wait_queue :: "'d io_state \<Rightarrow> pack list \<times> 'd io_state" where
  "dequeue_wait_queue s =
     (let q = ic_logpack_wait_queue (io_core s);
          s1 = (if q = [] then upd_core (clear_working_flag IOCORE_STATE_WAIT_LOG_TASK_WORKING) s else s);
          (wpack_list, rest) = dequeue_bulk (wd_n_pack_bulk (io_dev s)) q in
      (wpack_list, upd_core (\<lambda>ic. ic\<lparr>ic_logpack_wait_queue := rest\<rparr>) s1))"

record 'd wait_turn =
  wt_args :: "'d wait_args"
  wt_header :: "u64 \<Rightarrow> u8"

fun wait_packs :: "'d wait_turn \<Rightarrow> pack list \<Rightarrow> 'd io_state \<Rightarrow> (pack list \<times> 'd io_state) option" where
  "wait_packs t [] s = Some ([], s)"
| "wait_packs t (p # ps) s =
     (case wait_for_logpack_and_submit_datapack (wt_args t) (wt_header t (lh_logpack_lsid (pk_header p))) p s of
        None \<Rightarrow> None
      | Some (p1, s1) \<Rightarrow> map_option (\<lambda>(ps1, s2). (p1 # ps1, s2)) (wait_packs t ps s1))"

fun task_wait_for_logpack_list :: "'d wait_turn list \<Rightarrow> 'd io_state \<Rightarrow> 'd io_state option" where
  "task_wait_for_logpack_list [] s = None"
| "task_wait_for_logpack_list (t # ts) s =
     (let (wpack_list, s1) = dequeue_wait_queue s in
      if wpack_list = [] then Some s1
      else case wait_packs t wpack_list s1 of
        None \<Rightarrow> None
      | Some (wpack_list1, s2) \<Rightarrow>
          task_wait_for_logpack_list ts
            (upd_core (\<lambda>ic. ic\<lparr>ic_n_pending_gc := ic_n_pending_gc ic + int (length wpack_list1),
                 ic_logpack_gc_queue := ic_logpack_gc_queue ic @ wpack_list1\<rparr>) (dispatch_submit_data_task s2)))"

section \<open>The data tasks\<close>

definition dequeue_data_queue :: "'d io_state \<Rightarrow> ulong list \<times> 'd io_state" where
  "dequeue_data_queue s =
     (let q = ic_datapack_submit_queue (io_core s);
          s1 = (if q = [] then upd_core (clear_working_flag IOCORE_STATE_SUBMIT_DATA_TASK_WORKING) s else s);
          (biow_list, rest) = dequeue_bulk (wd_n_io_bulk (io_dev s)) q in
      (biow_list, upd_core (\<lambda>ic. ic\<lparr>ic_datapack_submit_queue := rest\<rparr>) s1))"

text \<open>Waiting until the log up to an lsid is permanent, one list element per turn.\<close>

record 'd perm_turn =
  pt_before_timeout :: bool
  pt_jiffies :: u64
  pt_others :: "'d walb_dev \<Rightarrow> 'd walb_dev"

fun wait_for_log_permanent :: "'d block_ops \<Rightarrow> u64 \<Rightarrow> 'd perm_turn list \<Rightarrow> 'd walb_dev \<Rightarrow> (bool \<times> 'd walb_dev) option" where
  "wait_for_log_permanent ops lsid [] wdev = None"
| "wait_for_log_permanent ops lsid (t # ts) wdev =
     (if is_read_only wdev then Some (False, wdev)
      else case wait_for_log_permanent_round (pt_before_timeout t) (wd_log_flush_interval_pb wdev) lsid (wd_lsids wdev) of
        Permanent \<Rightarrow> Some (True, wdev)
      | Retry \<Rightarrow> wait_for_log_permanent ops lsid ts (pt_others t wdev)
      | Force_flush \<Rightarrow> (let wdev1 = snd (force_flush_ldev ops (pt_jiffies t) wdev) in Some (\<not> is_read_only wdev1, wdev1)))"

record 'd data_turn =
  dt_ops :: "'d block_ops"
  dt_ins :: rb_op
  dt_del :: rb_op
  dt_sort :: bool
  dt_allocs :: "treemap_allocs list"
  dt_jiffies :: u64
  dt_turns :: "'d perm_turn list"
  dt_status :: "ulong \<Rightarrow> u8"

fun task_submit_bio_wrapper_list :: "'d data_turn list \<Rightarrow> 'd io_state \<Rightarrow> 'd io_state option" where
  "task_submit_bio_wrapper_list [] s = None"
| "task_submit_bio_wrapper_list (t # ts) s =
     (let (biow_list, s1) = dequeue_data_queue s in
      if biow_list = [] then Some s1
      else
        (let lsid = biow_end_lsid (ucast (wd_physical_bs (io_dev s1))) (io_biows s1 (last biow_list)) in
         case wait_for_log_permanent (dt_ops t) lsid (dt_turns t) (io_dev s1) of
           None \<Rightarrow> None
         | Some (is_permanent, wdev) \<Rightarrow>
             (case submit_data_batch (dt_ins t) (dt_del t) (dt_sort t) (dt_allocs t) (dt_jiffies t) is_permanent biow_list
                     (s1\<lparr>io_dev := wdev\<rparr>) of
                None \<Rightarrow> None
              | Some s2 \<Rightarrow> task_submit_bio_wrapper_list ts s2)))"

definition dequeue_data_wait_queue :: "'d io_state \<Rightarrow> ulong list \<times> 'd io_state" where
  "dequeue_data_wait_queue s =
     (let q = ic_datapack_wait_queue (io_core s);
          s1 = (if q = [] then upd_core (clear_working_flag IOCORE_STATE_WAIT_DATA_TASK_WORKING) s else s);
          (biow_list, rest) = dequeue_bulk (wd_n_io_bulk (io_dev s)) q in
      (biow_list, upd_core (\<lambda>ic. ic\<lparr>ic_datapack_wait_queue := rest\<rparr>) s1))"

fun wait_biows :: "'d data_turn \<Rightarrow> ulong list \<Rightarrow> 'd io_state \<Rightarrow> 'd io_state option" where
  "wait_biows t [] s = Some s"
| "wait_biows t (b # bs) s = Option.bind (wait_for_write_bio_wrapper (dt_del t) (dt_jiffies t) (dt_status t b) b s) (wait_biows t bs)"

fun task_wait_for_bio_wrapper_list :: "'d data_turn list \<Rightarrow> 'd io_state \<Rightarrow> 'd io_state option" where
  "task_wait_for_bio_wrapper_list [] s = None"
| "task_wait_for_bio_wrapper_list (t # ts) s =
     (let (biow_list, s1) = dequeue_data_wait_queue s in
      if biow_list = [] then Some s1
      else case wait_biows t biow_list s1 of None \<Rightarrow> None | Some s2 \<Rightarrow> task_wait_for_bio_wrapper_list ts s2)"


section \<open>A full ring buffer\<close>

lemma fail_and_destroy_dev:
  "wd_lsids (io_dev (fail_and_destroy_bio_wrapper_list bs s)) = wd_lsids (io_dev s)"
  "wd_flags (io_dev (fail_and_destroy_bio_wrapper_list bs s)) = wd_flags (io_dev s)"
  "wd_cpd (io_dev (fail_and_destroy_bio_wrapper_list bs s)) = wd_cpd (io_dev s)"
  "io_biows (fail_and_destroy_bio_wrapper_list bs s) = io_biows s"
  by (induction bs s rule: fail_and_destroy_bio_wrapper_list.induct) (simp_all add: destroy_bio_wrapper_dec_def upd_core_def)

lemma fail_packs_dev:
  "wd_lsids (io_dev (fail_packs ps s)) = wd_lsids (io_dev s)" "wd_flags (io_dev (fail_packs ps s)) = wd_flags (io_dev s)"
  "wd_cpd (io_dev (fail_packs ps s)) = wd_cpd (io_dev s)"
  by (induction ps s rule: fail_packs.induct) (simp_all add: fail_and_destroy_dev destroy_pack_def)

definition request_of :: "biow_store \<Rightarrow> ulong \<Rightarrow> bio list" where
  "request_of H b = (case bw_bio (H b) of None \<Rightarrow> [] | Some r \<Rightarrow> [r])"

lemma fail_and_destroy_ended:
  "io_ended (fail_and_destroy_bio_wrapper_list bs s) =
     io_ended s @ map (\<lambda>r. (r, BLK_STS_IOERR)) (concat (map (request_of (io_biows s)) bs))"
  by (induction bs s rule: fail_and_destroy_bio_wrapper_list.induct)
    (auto simp: destroy_bio_wrapper_dec_def end_bio_def request_of_def split: option.split)

lemma fail_packs_ended:
  "io_ended (fail_packs ps s) =
     io_ended s @ map (\<lambda>r. (r, BLK_STS_IOERR)) (concat (map (request_of (io_biows s)) (concat (map pk_biow_list ps))))"
  by (induction ps s rule: fail_packs.induct) (simp_all add: fail_and_destroy_ended fail_and_destroy_dev destroy_pack_def)

lemma mark_first_biows [simp]:
  assumes "\<And>p. pk_biow_list (f p) = pk_biow_list p"
  shows "map pk_biow_list (mark_first f ps) = map pk_biow_list ps"
  using assms by (cases ps) (simp_all add: mark_first_def)

lemma store_lsids_fields:
  assumes "store_lsids j l fl wdev = (np, wdev')"
  shows "latest (wd_lsids wdev') = l" "written (wd_lsids wdev') = written (wd_lsids wdev)"
    "prev_written (wd_lsids wdev') = prev_written (wd_lsids wdev)" "wd_flags wdev' = wd_flags wdev" "wd_cpd wdev' = wd_cpd wdev"
    "wd_ring_buffer_size wdev' = wd_ring_buffer_size wdev"
  using assms by (auto simp: store_lsids_def update_flush_lsid_if_necessary_def Let_def split: if_splits)

text \<open>
  C6.  A full ring buffer and a checkpoint that fails for lack of memory: every write of the batch
  ends with an IO error and no logpack is submitted, but the latest lsid has already been moved
  past the logpacks and the device is not read-only, so the next logpack comes after a gap in
  the log, where redo stops.  Checkpointing stays stopped.
\<close>

theorem failed_checkpoint_leaves_log_gap:
  assumes packs: "create_packs (ca_allocs ca) (ucast (wd_physical_bs (io_dev s))) (wd_ring_buffer_size (io_dev s)) (wd_max_logpack_pb (io_dev s))
      biow_list (latest (wd_lsids (io_dev s))) (io_biows s) = Some st"
    and overflow: "\<not> ca_error_before_overflow ca" and rw: "\<not> is_read_only (io_dev s)"
    and full: "wp_latest st - prev_written (wd_lsids (io_dev s)) > wd_ring_buffer_size (io_dev s)"
      "\<not> wp_latest st - written (wd_lsids (io_dev s)) > wd_ring_buffer_size (io_dev s)"
    and turn: "ca_turns ca = t # ts" "\<not> sy_malloc (rt_alloc t)"
  shows "\<exists>s'. create_logpack_list ca biow_list s = Some (False, [], s') \<and>
    io_ended s' = io_ended s @ map (\<lambda>r. (r, BLK_STS_IOERR)) (concat (map (request_of (wp_store st)) (concat (map pk_biow_list (wp_list st))))) \<and>
    latest (wd_lsids (io_dev s')) = wp_latest st \<and> \<not> is_read_only (io_dev s') \<and>
    wd_cpd (io_dev s') = stop_checkpointing (wd_cpd (io_dev s))"
proof -
  let ?fl = "decide_flush (ca_ops ca) (ca_jiffies ca) (io_dev s) (wp_is_flush st)"
  obtain np wdev1 where st: "store_lsids (ca_jiffies ca) (wp_latest st) ?fl (io_dev s) = (np, wdev1)" by fastforce
  note f = store_lsids_fields [OF st]
  define wdev2 where "wdev2 = (if wp_latest st - oldest (wd_lsids (io_dev s)) > wd_ring_buffer_size (io_dev s)
    then set_wdev_flag WALB_STATE_OVERFLOW wdev1 else wdev1)"
  have k: "wd_lsids wdev2 = wd_lsids wdev1" "is_read_only wdev2 = is_read_only wdev1" "wd_cpd wdev2 = wd_cpd wdev1"
    "wd_ring_buffer_size wdev2 = wd_ring_buffer_size wdev1"
    by (simp_all add: wdev2_def set_wdev_flag_def is_read_only_def WALB_STATE_OVERFLOW_def WALB_STATE_READ_ONLY_def)
  have ro: "\<not> is_read_only wdev2" using rw f(4) k(2) by (simp add: is_read_only_def)
  let ?wdev3 = "wdev2\<lparr>wd_cpd := stop_checkpointing (wd_cpd wdev2)\<rparr>"
  have "written (wd_lsids (io_dev s)) \<noteq> prev_written (wd_lsids (io_dev s))" using full by auto
  then have "take_checkpoint (ca_ops ca) (rt_alloc t) ?wdev3 = Some (False, ?wdev3)"
    using turn(2) ro f(2,3) k(1) by (simp add: take_checkpoint_def walb_sync_super_block_def sector_alloc_def is_read_only_def)
  then have r: "ring_wait (ca_ops ca) (ca_msecs ca) (wp_latest st) (ca_turns ca) (written (wd_lsids (io_dev s)))
      (prev_written (wd_lsids (io_dev s))) wdev2 = Some (False, ?wdev3)"
    using full turn(1) f(6) k(4) by simp
  define packs where "packs = (if ?fl then mark_first (\<lambda>p. p\<lparr>pk_is_flush_header := True\<rparr>) (wp_list st) else wp_list st)"
  define packs1 where "packs1 = mark_permanent np packs"
  have b: "map pk_biow_list packs1 = map pk_biow_list (wp_list st)" by (simp add: packs1_def packs_def mark_permanent_def split: option.split)
  let ?s' = "fail_packs packs1 (s\<lparr>io_biows := wp_store st, io_dev := ?wdev3\<rparr>)"
  have "create_logpack_list ca biow_list s = Some (False, [], ?s')"
    using packs overflow st r by (simp add: create_logpack_list_def Let_def wdev2_def [symmetric] packs1_def packs_def)
  moreover have "io_ended ?s' = io_ended s @ map (\<lambda>r. (r, BLK_STS_IOERR)) (concat (map (request_of (wp_store st)) (concat (map pk_biow_list (wp_list st)))))"
    unfolding fail_packs_ended b by simp
  ultimately show ?thesis using f(1,5) k(1,3) ro by (simp add: fail_packs_dev is_read_only_def)
qed


definition gap_state :: "ram io_state" where
  "gap_state = \<lparr>io_dev = demo_wdev\<lparr>wd_ring_buffer_size := 150,
       wd_lsids := \<lparr>latest = 160, completed = 160, flush = 160, permanent = 160, written = 61, prev_written = 60, oldest = 60\<rparr>\<rparr>,
     io_biows = demo_queue, io_ended = [], io_submitted = [], io_tasks = []\<rparr>"

definition gap_args :: "ram create_args" where
  "gap_args = \<lparr>ca_ops = ram_ops, ca_msecs = (\<lambda>_. 1), ca_allocs = [(Some demo_mem, True)], ca_jiffies = 0, ca_error_before_overflow = False,
     ca_turns = [\<lparr>rt_jiffies = 0, rt_alloc = \<lparr>sy_malloc = False, sy_buf = None, sy_bio = True\<rparr>, rt_others = id\<rparr>]\<rparr>"

lemma gap_packs: "map_option wp_latest (create_packs [(Some demo_mem, True)] 512 150 64 [8] 160 demo_queue) = Some 211"
  by code_simp

theorem failed_checkpoint_leaves_log_gap_witness:
  "\<exists>st s'. create_packs (ca_allocs gap_args) 512 150 64 [8] 160 demo_queue = Some st \<and>
    create_logpack_list gap_args [8] gap_state = Some (False, [], s') \<and>
    io_ended s' = map (\<lambda>r. (r, BLK_STS_IOERR)) (concat (map (request_of (wp_store st)) (concat (map pk_biow_list (wp_list st))))) \<and>
    latest (wd_lsids (io_dev s')) = 211 \<and> \<not> is_read_only (io_dev s') \<and>
    wd_cpd (io_dev s') = stop_checkpointing (wd_cpd (io_dev gap_state))"
proof -
  obtain st where st: "create_packs [(Some demo_mem, True)] 512 150 64 [8] 160 demo_queue = Some st" "wp_latest st = 211" using gap_packs by auto
  have s: "wd_physical_bs (io_dev gap_state) = 512" "wd_ring_buffer_size (io_dev gap_state) = 150" "wd_max_logpack_pb (io_dev gap_state) = 64"
    "latest (wd_lsids (io_dev gap_state)) = 160" "written (wd_lsids (io_dev gap_state)) = 61" "prev_written (wd_lsids (io_dev gap_state)) = 60"
    "io_biows gap_state = demo_queue" "io_ended gap_state = []" "\<not> is_read_only (io_dev gap_state)"
    by (simp_all add: gap_state_def demo_wdev_def is_read_only_def)
  have a: "ca_allocs gap_args = [(Some demo_mem, True)]" "\<not> ca_error_before_overflow gap_args"
    "ca_turns gap_args = [\<lparr>rt_jiffies = 0, rt_alloc = \<lparr>sy_malloc = False, sy_buf = None, sy_bio = True\<rparr>, rt_others = id\<rparr>]"
    by (simp_all add: gap_args_def)
  show ?thesis using failed_checkpoint_leaves_log_gap [of gap_args gap_state "[8]" st, OF _ a(2) s(9) _ _ a(3)] st s a(1) by auto
qed


section \<open>The working bits\<close>

text \<open>
  Requests and the four tasks run concurrently.  The code's atomic sections are the steps: a
  queue is changed under its lock, and the working bit of a task is tested and set in one
  operation.  Between putting an entry into a queue and dispatching the task of that queue a
  producer can be interrupted anywhere; \<^verbatim>\<open>owes\<close> counts the entries not yet followed by a dispatch,
  \<^verbatim>\<open>allocating\<close> those of the producer that has set the bit and allocates the work, and \<^verbatim>\<open>done\<close> the
  finished runs of a task.  A failed allocation clears the bit again before the next round.
\<close>

definition dispatch_begin :: "nat \<Rightarrow> 'd io_state \<Rightarrow> 'd io_state" where
  "dispatch_begin nr s = upd_core (\<lambda>ic. ic\<lparr>ic_flags := set_bit_u64 nr (ic_flags ic)\<rparr>) s"

definition dispatch_alloc_failed :: "nat \<Rightarrow> 'd io_state \<Rightarrow> 'd io_state" where
  "dispatch_alloc_failed nr s = upd_core (\<lambda>ic. ic\<lparr>ic_flags := clear_bit_u64 nr (ic_flags ic)\<rparr>) s"

definition dispatch_queue_work :: "nat \<Rightarrow> 'd io_state \<Rightarrow> 'd io_state" where
  "dispatch_queue_work nr s = s\<lparr>io_tasks := io_tasks s @ [nr]\<rparr>"

fun dispatch_rounds :: "bool list \<Rightarrow> nat \<Rightarrow> 'd io_state \<Rightarrow> 'd io_state option" where
  "dispatch_rounds allocs nr s =
     (if test_bit_u64 nr (ic_flags (io_core s)) then Some s
      else case allocs of
        [] \<Rightarrow> None
      | ok # allocs' \<Rightarrow>
          if ok then Some (dispatch_queue_work nr (dispatch_begin nr s))
          else dispatch_rounds allocs' nr (dispatch_alloc_failed nr (dispatch_begin nr s)))"

lemmas dispatch_part_defs = dispatch_begin_def dispatch_alloc_failed_def dispatch_queue_work_def

text \<open>Without interference the rounds are one dispatch, as soon as an allocation succeeds.\<close>

lemma dispatch_rounds_dispatch:
  assumes "nr < 64" "True \<in> set allocs"
  shows "dispatch_rounds allocs nr s = Some (dispatch_task_if_necessary nr s)"
  using assms(2)
proof (induction allocs)
  case (Cons ok allocs)
  have "clear_bit_u64 nr (set_bit_u64 nr w) = w" if "\<not> test_bit_u64 nr w" for w
    using that assms(1) by (intro bit_eqI) (auto simp: bit_set_bit_u64 bit_clear_bit_u64 test_bit_u64_bit)
  then have "dispatch_alloc_failed nr (dispatch_begin nr s) = s" if "\<not> test_bit_u64 nr (ic_flags (io_core s))"
    using that by (simp add: dispatch_part_defs upd_core_def)
  then show ?case using Cons by (auto simp: dispatch_task_if_necessary_def dispatch_part_defs)
qed simp

datatype io_task = Submit_log | Wait_log | Submit_data | Wait_data

primrec working_bit :: "io_task \<Rightarrow> nat" where
  "working_bit Submit_log = IOCORE_STATE_SUBMIT_LOG_TASK_WORKING"
| "working_bit Wait_log = IOCORE_STATE_WAIT_LOG_TASK_WORKING"
| "working_bit Submit_data = IOCORE_STATE_SUBMIT_DATA_TASK_WORKING"
| "working_bit Wait_data = IOCORE_STATE_WAIT_DATA_TASK_WORKING"

primrec queue_empty :: "io_task \<Rightarrow> iocore_data \<Rightarrow> bool" where
  "queue_empty Submit_log ic = (ic_logpack_submit_queue ic = [])"
| "queue_empty Wait_log ic = (ic_logpack_wait_queue ic = [])"
| "queue_empty Submit_data ic = (ic_datapack_submit_queue ic = [])"
| "queue_empty Wait_data ic = (ic_datapack_wait_queue ic = [])"

text \<open>The dequeuing section of a task, and whether the task ends with it.\<close>

primrec dequeue_task :: "io_task \<Rightarrow> 'd io_state \<Rightarrow> bool \<times> 'd io_state" where
  "dequeue_task Submit_log s = map_prod (\<lambda>l. l = []) id (dequeue_submit_queue s)"
| "dequeue_task Wait_log s = map_prod (\<lambda>l. l = []) id (dequeue_wait_queue s)"
| "dequeue_task Submit_data s = map_prod (\<lambda>l. l = []) id (dequeue_data_queue s)"
| "dequeue_task Wait_data s = map_prod (\<lambda>l. l = []) id (dequeue_data_wait_queue s)"

definition working :: "io_task \<Rightarrow> 'd io_state \<Rightarrow> bool" where
  "working t s = test_bit_u64 (working_bit t) (ic_flags (io_core s))"

record 'd sched =
  sc_io :: "'d io_state"
  sc_owes :: "io_task \<Rightarrow> nat"
  sc_allocating :: "io_task \<Rightarrow> nat"
  sc_done :: "io_task \<Rightarrow> nat"

definition runs :: "io_task \<Rightarrow> 'd sched \<Rightarrow> nat" where
  "runs t c = count_list (io_tasks (sc_io c)) (working_bit t) - sc_done c t"

definition same_queues :: "'d io_state \<Rightarrow> 'd io_state \<Rightarrow> bool" where
  "same_queues s s' =
     (io_tasks s' = io_tasks s \<and> (\<forall>t. working t s' = working t s) \<and>
      ic_logpack_submit_queue (io_core s') = ic_logpack_submit_queue (io_core s) \<and>
      ic_logpack_wait_queue (io_core s') = ic_logpack_wait_queue (io_core s) \<and>
      ic_datapack_submit_queue (io_core s') = ic_datapack_submit_queue (io_core s) \<and>
      ic_datapack_wait_queue (io_core s') = ic_datapack_wait_queue (io_core s) \<and>
      ic_frozen_queue (io_core s') = ic_frozen_queue (io_core s) \<and> is_frozen (io_core s') = is_frozen (io_core s))"

definition put_entry :: "io_task \<Rightarrow> (iocore_data \<Rightarrow> iocore_data) \<Rightarrow> 'd sched \<Rightarrow> 'd sched" where
  "put_entry t f c = c\<lparr>sc_io := upd_core f (sc_io c), sc_owes := (sc_owes c)(t := Suc (sc_owes c t))\<rparr>"

inductive sched_step :: "'d sched \<Rightarrow> 'd sched \<Rightarrow> bool" where
  request: "push_into_lpack_submit_queue biow (io_core (sc_io c)) = (True, ic) \<Longrightarrow>
    sched_step c (put_entry Submit_log (\<lambda>_. ic) c)"
| request_frozen: "push_into_lpack_submit_queue biow (io_core (sc_io c)) = (False, ic) \<Longrightarrow>
    sched_step c (c\<lparr>sc_io := upd_core (\<lambda>_. ic) (sc_io c)\<rparr>)"
| freeze: "sched_step c (c\<lparr>sc_io := upd_core (freeze_detail is_usr) (sc_io c)\<rparr>)"
| melt: "melt_detail is_usr (io_core (sc_io c)) = (True, ic) \<Longrightarrow> sched_step c (put_entry Submit_log (\<lambda>_. ic) c)"
| melt_frozen: "melt_detail is_usr (io_core (sc_io c)) = (False, ic) \<Longrightarrow>
    sched_step c (c\<lparr>sc_io := upd_core (\<lambda>_. ic) (sc_io c)\<rparr>)"
| log_submitted: "runs Submit_log c > 0 \<Longrightarrow>
    sched_step c (put_entry Wait_log (\<lambda>ic. ic\<lparr>ic_logpack_wait_queue := ic_logpack_wait_queue ic @ ps\<rparr>) c)"
| log_done: "runs Wait_log c > 0 \<Longrightarrow>
    sched_step c (put_entry Submit_data (\<lambda>ic. ic\<lparr>ic_datapack_submit_queue := ic_datapack_submit_queue ic @ [b]\<rparr>) c)"
| data_submitted: "runs Submit_data c > 0 \<Longrightarrow>
    sched_step c (put_entry Wait_data (\<lambda>ic. ic\<lparr>ic_datapack_wait_queue := ic_datapack_wait_queue ic @ bs\<rparr>) c)"
| intend: "sched_step c (c\<lparr>sc_owes := (sc_owes c)(t := Suc (sc_owes c t))\<rparr>)"
| dispatch_working: "k \<le> sc_owes c t \<Longrightarrow> working t (sc_io c) \<Longrightarrow>
    sched_step c (c\<lparr>sc_owes := (sc_owes c)(t := sc_owes c t - k)\<rparr>)"
| dispatch_set: "0 < k \<Longrightarrow> k \<le> sc_owes c t \<Longrightarrow> \<not> working t (sc_io c) \<Longrightarrow>
    sched_step c (c\<lparr>sc_io := dispatch_begin (working_bit t) (sc_io c), sc_owes := (sc_owes c)(t := sc_owes c t - k),
      sc_allocating := (sc_allocating c)(t := sc_allocating c t + k)\<rparr>)"
| dispatch_failed: "0 < sc_allocating c t \<Longrightarrow>
    sched_step c (c\<lparr>sc_io := dispatch_alloc_failed (working_bit t) (sc_io c),
      sc_owes := (sc_owes c)(t := sc_owes c t + sc_allocating c t), sc_allocating := (sc_allocating c)(t := 0)\<rparr>)"
| dispatch_queued: "0 < sc_allocating c t \<Longrightarrow>
    sched_step c (c\<lparr>sc_io := dispatch_queue_work (working_bit t) (sc_io c), sc_allocating := (sc_allocating c)(t := 0)\<rparr>)"
| dequeue: "runs t c > 0 \<Longrightarrow> dequeue_task t (sc_io c) = (finished, s) \<Longrightarrow>
    sched_step c (c\<lparr>sc_io := s, sc_done := (sc_done c)(t := sc_done c t + (if finished then 1 else 0))\<rparr>)"
| other: "same_queues (sc_io c) s \<Longrightarrow> sched_step c (c\<lparr>sc_io := s\<rparr>)"

definition sched_start :: "'d io_state \<Rightarrow> 'd sched" where
  "sched_start s = \<lparr>sc_io = s, sc_owes = (\<lambda>_. 0), sc_allocating = (\<lambda>_. 0), sc_done = (\<lambda>_. 0)\<rparr>"

definition idle_core :: "'d io_state \<Rightarrow> bool" where
  "idle_core s = (io_tasks s = [] \<and> ic_flags (io_core s) = 0 \<and> ic_frozen_queue (io_core s) = [] \<and>
     ic_logpack_submit_queue (io_core s) = [] \<and> ic_logpack_wait_queue (io_core s) = [] \<and>
     ic_datapack_submit_queue (io_core s) = [] \<and> ic_datapack_wait_queue (io_core s) = [])"

inductive sched_reachable :: "'d sched \<Rightarrow> bool" where
  start: "idle_core s \<Longrightarrow> sched_reachable (sched_start s)"
| step: "sched_reachable c \<Longrightarrow> sched_step c c' \<Longrightarrow> sched_reachable c'"

text \<open>The invariant, for one task and for the frozen requests.\<close>

definition task_inv :: "'d sched \<Rightarrow> io_task \<Rightarrow> bool" where
  "task_inv c t =
     (count_list (io_tasks (sc_io c)) (working_bit t) =
        sc_done c t + (if working t (sc_io c) \<and> sc_allocating c t = 0 then 1 else 0) \<and>
      (0 < sc_allocating c t \<longrightarrow> working t (sc_io c)) \<and>
      (\<not> queue_empty t (io_core (sc_io c)) \<and> sc_owes c t = 0 \<longrightarrow> working t (sc_io c)))"

definition frozen_inv :: "'d sched \<Rightarrow> bool" where
  "frozen_inv c = (ic_frozen_queue (io_core (sc_io c)) \<noteq> [] \<longrightarrow> is_frozen (io_core (sc_io c)))"


lemma working_bit_inj [simp]: "(working_bit t = working_bit t') = (t = t')" "working_bit t < 64"
  by (cases t; cases t'; simp add: iocore_state_defs)+

lemma task_inv_put:
  assumes "task_inv c t'" "ic_flags (f (io_core (sc_io c))) = ic_flags (io_core (sc_io c))"
    "t' \<noteq> t \<Longrightarrow> queue_empty t' (f (io_core (sc_io c))) = queue_empty t' (io_core (sc_io c))"
  shows "task_inv (put_entry t f c) t'"
  using assms by (cases "t' = t") (simp_all add: task_inv_def put_entry_def working_def)

lemma task_inv_keep:
  assumes "task_inv c t" "io_tasks s = io_tasks (sc_io c)" "working t s = working t (sc_io c)"
    "queue_empty t (io_core s) = queue_empty t (io_core (sc_io c))"
  shows "task_inv (c\<lparr>sc_io := s\<rparr>) t"
  using assms by (simp add: task_inv_def)

lemma push_effect:
  assumes "push_into_lpack_submit_queue b ic = (r, ic')"
  shows "ic_flags ic' = ic_flags ic" "t \<noteq> Submit_log \<or> \<not> r \<Longrightarrow> queue_empty t ic' = queue_empty t ic"
    "is_frozen ic' = is_frozen ic" "ic_frozen_queue ic' \<noteq> [] \<Longrightarrow> is_frozen ic'"
  using assms by (cases t; auto simp: push_into_lpack_submit_queue_def make_frozen_queue_empty_def is_frozen_def Let_def split: if_splits)+

lemma melt_effect:
  assumes "melt_detail u ic = (r, ic')"
  shows "ic_flags ic' = ic_flags ic" "t \<noteq> Submit_log \<or> \<not> r \<Longrightarrow> queue_empty t ic' = queue_empty t ic"
    "ic_frozen_queue ic' \<noteq> [] \<Longrightarrow> is_frozen ic'"
  using assms by (cases t; auto simp: melt_detail_def set_frozen_def make_frozen_queue_empty_def is_frozen_def Let_def split: if_splits)+

lemma start_all_effect:
  "io_tasks (fold start_write_bio_wrapper bs s) = io_tasks s"
  "ic_flags (io_core (fold start_write_bio_wrapper bs s)) = ic_flags (io_core s)"
  "queue_empty t (io_core (fold start_write_bio_wrapper bs s)) = queue_empty t (io_core s)"
  "ic_frozen_queue (io_core (fold start_write_bio_wrapper bs s)) = ic_frozen_queue (io_core s)"
  "is_frozen (io_core (fold start_write_bio_wrapper bs s)) = is_frozen (io_core s)"
  by (induction bs arbitrary: s; cases t; simp add: start_write_bio_wrapper_def is_frozen_def)+

lemma working_upd [simp]:
  "working u (upd_core f s) = test_bit_u64 (working_bit u) (ic_flags (f (io_core s)))"
  "working u (s\<lparr>io_tasks := ts\<rparr>) = working u s"
  by (simp_all add: working_def)

lemma working_start_all [simp]: "working u (fold start_write_bio_wrapper bs s) = working u s"
  by (simp add: working_def start_all_effect)

lemmas dequeue_defs = dequeue_submit_queue_def dequeue_wait_queue_def dequeue_data_queue_def dequeue_data_wait_queue_def
  dequeue_bulk_def clear_working_flag_def

lemma dequeue_finished: "fst (dequeue_task t s) = queue_empty t (io_core s)"
  by (cases t) (simp_all add: dequeue_defs Let_def)

lemma dequeue_queues:
  "u \<noteq> t \<or> queue_empty t (io_core s) \<Longrightarrow> queue_empty u (io_core (snd (dequeue_task t s))) = queue_empty u (io_core s)"
  by (cases t; cases u) (simp_all add: dequeue_defs Let_def start_all_effect)

lemma dequeue_keeps:
  "io_tasks (snd (dequeue_task t s)) = io_tasks s"
  "ic_frozen_queue (io_core (snd (dequeue_task t s))) = ic_frozen_queue (io_core s)"
  "is_frozen (io_core (snd (dequeue_task t s))) = is_frozen (io_core s)"
  by (cases t; simp add: dequeue_defs Let_def start_all_effect; simp add: is_frozen_def)+

lemma dequeue_flags:
  "ic_flags (io_core (snd (dequeue_task t s))) =
     (if queue_empty t (io_core s) then clear_bit_u64 (working_bit t) (ic_flags (io_core s)) else ic_flags (io_core s))"
  by (cases t) (simp_all add: dequeue_defs Let_def start_all_effect)

lemma dequeue_working: "working u (snd (dequeue_task t s)) = (working u s \<and> \<not> (queue_empty t (io_core s) \<and> u = t))"
  by (auto simp: working_def dequeue_flags)

lemma dispatch_parts_queues:
  "queue_empty u (io_core (dispatch_begin nr s)) = queue_empty u (io_core s)"
  "queue_empty u (io_core (dispatch_alloc_failed nr s)) = queue_empty u (io_core s)"
  "queue_empty u (io_core (dispatch_queue_work nr s)) = queue_empty u (io_core s)"
  by (cases u; simp add: dispatch_part_defs)+

lemma dispatch_parts_working:
  "working u (dispatch_begin (working_bit t) s) = (u = t \<or> working u s)"
  "working u (dispatch_alloc_failed (working_bit t) s) = (u \<noteq> t \<and> working u s)"
  "working u (dispatch_queue_work nr s) = working u s"
  by (auto simp: dispatch_part_defs working_def)

lemma dispatch_parts_tasks:
  "io_tasks (dispatch_begin nr s) = io_tasks s" "io_tasks (dispatch_alloc_failed nr s) = io_tasks s"
  "io_tasks (dispatch_queue_work nr s) = io_tasks s @ [nr]"
  by (simp_all add: dispatch_part_defs)

lemma dispatch_parts_frozen:
  "ic_frozen_queue (io_core (dispatch_begin nr s)) = ic_frozen_queue (io_core s)"
  "ic_frozen_queue (io_core (dispatch_alloc_failed nr s)) = ic_frozen_queue (io_core s)"
  "ic_frozen_queue (io_core (dispatch_queue_work nr s)) = ic_frozen_queue (io_core s)"
  "is_frozen (io_core (dispatch_begin nr s)) = is_frozen (io_core s)"
  "is_frozen (io_core (dispatch_alloc_failed nr s)) = is_frozen (io_core s)"
  "is_frozen (io_core (dispatch_queue_work nr s)) = is_frozen (io_core s)"
  by (simp_all add: dispatch_part_defs is_frozen_def)

lemmas dispatch_parts = dispatch_parts_queues dispatch_parts_working dispatch_parts_tasks dispatch_parts_frozen

lemma task_inv_dequeue:
  assumes "task_inv c u" "task_inv c t" "runs t c > 0" "dequeue_task t (sc_io c) = (finished, s)"
  shows "task_inv (c\<lparr>sc_io := s, sc_done := (sc_done c)(t := sc_done c t + (if finished then 1 else 0))\<rparr>) u"
proof -
  have d: "finished = queue_empty t (io_core (sc_io c))" "s = snd (dequeue_task t (sc_io c))"
    using dequeue_finished [of t "sc_io c"] assms(4) by simp_all
  have w: "working t (sc_io c) \<and> sc_allocating c t = 0" using assms(2,3) by (auto simp: task_inv_def runs_def split: if_splits)
  then show ?thesis using assms(1) dequeue_queues [of u t "sc_io c"]
    by (cases "u = t") (auto simp: task_inv_def d dequeue_keeps dequeue_working split: if_splits)
qed

lemma sched_step_inv:
  assumes "sched_step c c'" "\<And>t. task_inv c t"
  shows "task_inv c' t"
  using assms
proof cases
  case request
  then show ?thesis using assms(2) push_effect [OF request(2)] by (simp add: task_inv_put)
next
  case request_frozen
  then show ?thesis using assms(2) push_effect [OF request_frozen(2)] by (simp add: task_inv_keep working_def)
next
  case (freeze u)
  then show ?thesis using assms(2) by (cases t) (simp_all add: task_inv_keep working_def freeze_detail_def set_frozen_def)
next
  case melt
  then show ?thesis using assms(2) melt_effect [OF melt(2)] by (simp add: task_inv_put)
next
  case melt_frozen
  then show ?thesis using assms(2) melt_effect [OF melt_frozen(2)] by (simp add: task_inv_keep working_def)
next
  case log_submitted
  then show ?thesis using assms(2) by (cases t) (auto intro!: task_inv_put)
next
  case log_done
  then show ?thesis using assms(2) by (cases t) (auto intro!: task_inv_put)
next
  case data_submitted
  then show ?thesis using assms(2) by (cases t) (auto intro!: task_inv_put)
next
  case (intend u)
  then show ?thesis using assms(2) [of t] by (auto simp: task_inv_def)
next
  case (dispatch_working k u)
  then show ?thesis using assms(2) [of t] by (auto simp: task_inv_def)
next
  case (dispatch_set k u)
  then show ?thesis using assms(2) [of t] by (cases "t = u") (auto simp: task_inv_def dispatch_parts)
next
  case (dispatch_failed u)
  then show ?thesis using assms(2) [of t] by (cases "t = u") (auto simp: task_inv_def dispatch_parts)
next
  case (dispatch_queued u)
  then show ?thesis using assms(2) [of t] by (cases "t = u") (auto simp: task_inv_def dispatch_parts)
next
  case dequeue
  then show ?thesis using assms(2) by (simp add: task_inv_dequeue)
next
  case other
  then show ?thesis using assms(2) by (cases t) (simp_all add: task_inv_keep same_queues_def)
qed

lemma sched_step_frozen:
  assumes "sched_step c c'" "frozen_inv c"
  shows "frozen_inv c'"
  using assms
proof cases
  case (dequeue t finished s)
  have "s = snd (dequeue_task t (sc_io c))" using dequeue(3) by simp
  then show ?thesis using dequeue(1) assms(2) by (simp add: frozen_inv_def dequeue_keeps)
next
  case dispatch_set
  then show ?thesis using assms(2) by (simp add: frozen_inv_def dispatch_parts)
next
  case dispatch_failed
  then show ?thesis using assms(2) by (simp add: frozen_inv_def dispatch_parts)
next
  case dispatch_queued
  then show ?thesis using assms(2) by (simp add: frozen_inv_def dispatch_parts)
qed (auto simp: frozen_inv_def put_entry_def freeze_detail_def set_frozen_def is_frozen_def same_queues_def
    dest: push_effect(4) melt_effect(3))

lemma sched_reachable_inv: "sched_reachable c \<Longrightarrow> task_inv c t \<and> frozen_inv c"
proof (induction arbitrary: t rule: sched_reachable.induct)
  case (start s)
  have "queue_empty t (wd_iocore (io_dev s))" using start by (cases t) (simp_all add: idle_core_def)
  then show ?case using start by (simp add: idle_core_def sched_start_def task_inv_def frozen_inv_def working_def test_bit_u64_bit)
next
  case (step c c')
  then show ?case using sched_step_inv sched_step_frozen by blast
qed

text \<open>
  C5.  However requests, freezing, melting, dispatching and the four tasks interleave: a task never
  runs twice at the same time, and while it runs its working bit is set, so that the assertion
  of \<^verbatim>\<open>clear_working_flag\<close> holds; the bit is set only by a run or by a producer that allocates the
  work of one; an entry in a queue is never left behind, since the task of the queue runs or a
  producer is about to dispatch it, also when allocations fail; and a frozen request waits only
  while the queue is frozen.
\<close>

theorem no_lost_wakeup:
  assumes "sched_reachable c"
  shows "runs t c \<le> 1 \<and> (working t (sc_io c) \<longleftrightarrow> runs t c = 1 \<or> 0 < sc_allocating c t) \<and>
    (\<not> queue_empty t (io_core (sc_io c)) \<longrightarrow> runs t c = 1 \<or> 0 < sc_owes c t + sc_allocating c t) \<and>
    (ic_frozen_queue (io_core (sc_io c)) \<noteq> [] \<longrightarrow> is_frozen (io_core (sc_io c)))"
  using sched_reachable_inv [OF assms, of t] by (auto simp: task_inv_def frozen_inv_def runs_def)

theorem no_lost_wakeup_witness:
  "\<exists>c :: ram sched. sched_reachable c \<and> \<not> queue_empty Submit_log (io_core (sc_io c)) \<and> runs Submit_log c = 1 \<and> working Submit_log (sc_io c)"
proof -
  let ?c = "sched_start (demo_io 0)"
  obtain ic where p: "push_into_lpack_submit_queue 8 (io_core (demo_io 0)) = (True, ic)" "ic_logpack_submit_queue ic = [8]"
    by (simp add: push_into_lpack_submit_queue_def demo_io_def blank_iocore_def is_frozen_def make_frozen_queue_empty_def Let_def)
  let ?c1 = "put_entry Submit_log (\<lambda>_. ic) ?c"
  let ?c2 = "?c1\<lparr>sc_io := dispatch_begin (working_bit Submit_log) (sc_io ?c1),
    sc_owes := (sc_owes ?c1)(Submit_log := sc_owes ?c1 Submit_log - 1),
    sc_allocating := (sc_allocating ?c1)(Submit_log := sc_allocating ?c1 Submit_log + 1)\<rparr>"
  define c3 where "c3 = ?c2\<lparr>sc_io := dispatch_queue_work (working_bit Submit_log) (sc_io ?c2),
    sc_allocating := (sc_allocating ?c2)(Submit_log := 0)\<rparr>"
  have "sched_reachable ?c"
    by (rule sched_reachable.start) (simp add: idle_core_def demo_io_def blank_iocore_def)
  then have r1: "sched_reachable ?c1"
    by (rule sched_reachable.step) (rule sched_step.request [of 8], simp add: sched_start_def p(1))
  have "\<not> working Submit_log (sc_io ?c1)"
    using push_effect(1) [OF p(1)] by (simp add: put_entry_def sched_start_def demo_io_def test_bit_u64_bit)
  with r1 have r2: "sched_reachable ?c2"
    by (intro sched_reachable.step [OF r1] sched_step.dispatch_set) (simp_all add: put_entry_def)
  then have r: "sched_reachable c3" unfolding c3_def
    by (rule sched_reachable.step) (rule sched_step.dispatch_queued, simp)
  have q: "queue_empty Submit_log (io_core (sc_io c3)) = (ic_logpack_submit_queue ic = [])"
    unfolding c3_def by (simp add: put_entry_def sched_start_def dispatch_parts del: queue_empty.simps) simp
  have "sc_owes c3 Submit_log = 0" "sc_allocating c3 Submit_log = 0" by (simp_all add: c3_def put_entry_def sched_start_def)
  then have "runs Submit_log c3 = 1 \<and> working Submit_log (sc_io c3)" using no_lost_wakeup [OF r, of Submit_log] q p(2) by force
  then show ?thesis using r q p(2) by auto
qed

subsection \<open>A task as steps\<close>

abbreviation sched_steps :: "'d sched \<Rightarrow> 'd sched \<Rightarrow> bool" where
  "sched_steps \<equiv> sched_step\<^sup>*\<^sup>*"

lemma same_queues_step: "same_queues (sc_io c) s \<Longrightarrow> sched_steps c (c\<lparr>sc_io := s\<rparr>)"
  by (simp add: r_into_rtranclp sched_step.other)

lemma same_queues_trans: "same_queues a b \<Longrightarrow> same_queues b c \<Longrightarrow> same_queues a c"
  by (simp add: same_queues_def)

lemma same_queues_core:
  assumes "io_core s' = io_core s" "io_tasks s' = io_tasks s"
  shows "same_queues s s'"
  using assms by (simp add: same_queues_def working_def)

lemma sched_steps_reachable: "sched_steps c c' \<Longrightarrow> sched_reachable c \<Longrightarrow> sched_reachable c'"
  by (induction rule: rtranclp_induct) (auto intro: sched_reachable.step)

lemma dispatch_steps:
  assumes "sched_reachable c" "ic_flags (f (io_core (sc_io c))) = ic_flags (io_core (sc_io c))"
  shows "sched_steps (put_entry t f c) (c\<lparr>sc_io := dispatch_task_if_necessary (working_bit t) (upd_core f (sc_io c))\<rparr>)"
proof (cases "working t (upd_core f (sc_io c))")
  case True
  then show ?thesis using sched_step.dispatch_working [of 1 "put_entry t f c" t]
    by (simp add: put_entry_def dispatch_task_if_necessary_def working_def r_into_rtranclp)
next
  case False
  then have a: "sc_allocating c t = 0"
    using sched_reachable_inv [OF assms(1), of t] assms(2) by (auto simp: task_inv_def working_def)
  let ?c1 = "c\<lparr>sc_io := dispatch_begin (working_bit t) (upd_core f (sc_io c)), sc_allocating := (sc_allocating c)(t := 1)\<rparr>"
  have "sched_step (put_entry t f c) ?c1"
    using sched_step.dispatch_set [of 1 "put_entry t f c" t] False a by (simp add: put_entry_def)
  moreover have "sched_step ?c1 (c\<lparr>sc_io := dispatch_task_if_necessary (working_bit t) (upd_core f (sc_io c))\<rparr>)"
    using sched_step.dispatch_queued [of ?c1 t] False a
    by (simp add: dispatch_task_if_necessary_def dispatch_part_defs working_def fun_upd_idem)
  ultimately show ?thesis by simp
qed

lemma melt_and_dispatch_steps:
  assumes "sched_reachable c"
  shows "sched_steps c (c\<lparr>sc_io := melt_and_dispatch (sc_io c)\<rparr>)"
proof (cases "melt_detail False (io_core (sc_io c))")
  case (Pair melted ic)
  show ?thesis
  proof (cases melted)
    case True
    let ?c1 = "put_entry Submit_log (\<lambda>_. ic) c"
    have "sched_step c ?c1" using Pair True by (auto intro: sched_step.melt)
    moreover have "sched_steps ?c1 (c\<lparr>sc_io := melt_and_dispatch (sc_io c)\<rparr>)"
      using dispatch_steps [OF assms, of "\<lambda>_. ic" Submit_log] melt_effect(1) [OF Pair] Pair True by (simp add: melt_and_dispatch_def dispatch_submit_log_task_def)
    ultimately show ?thesis by (rule converse_rtranclp_into_rtranclp)
  next
    case False
    then show ?thesis using Pair sched_step.melt_frozen [of False c ic] by (simp add: melt_and_dispatch_def r_into_rtranclp)
  qed
qed

lemma fold_submit_fields:
  "io_dev (fold submit_write_bio_wrapper bs s) = io_dev s" "io_tasks (fold submit_write_bio_wrapper bs s) = io_tasks s"
  by (induction bs arbitrary: s) (simp_all add: submit_write_bio_wrapper_def)

lemma delete_pending_same_queues: "same_queues s (snd (delete_bio_wrapper_from_pending_data rb_del j b s))"
  by (simp add: delete_bio_wrapper_from_pending_data_def same_queues_def working_def is_frozen_def Let_def split: prod.split)

lemma wait_io_same_queues: "same_queues s (wait_for_bio_wrapper_io st e d b s)"
  by (rule same_queues_core) (simp_all add: wait_for_bio_wrapper_io_def Let_def)

lemma clear_stopped_same_queues:
  "same_queues s (upd_core (\<lambda>ic. ic\<lparr>ic_flags := clear_bit_u64 IOCORE_STATE_IS_QUEUE_STOPPED (ic_flags ic)\<rparr>) s)"
proof -
  have "working_bit t \<noteq> IOCORE_STATE_IS_QUEUE_STOPPED" for t by (cases t) (simp_all add: iocore_state_defs)
  then show ?thesis by (simp add: same_queues_def is_frozen_def) (simp add: working_def)
qed


lemma wait_write_steps:
  assumes "wait_for_write_bio_wrapper rb_del j st b (sc_io c) = Some s'" "sched_reachable c"
  shows "sched_steps c (c\<lparr>sc_io := s'\<rparr>)"
proof -
  let ?s1 = "wait_for_bio_wrapper_io st False False b (sc_io c)"
  obtain n data' max' sl H' where o: "overlapped_delete_and_notify rb_del (ic_overlapped_data (io_core ?s1)) (ic_max_sectors_in_overlapped (io_core ?s1))
      [] (io_biows ?s1) b = Some (n, data', max', sl, H')"
    using assms(1) by (fastforce simp: wait_for_write_bio_wrapper_def Let_def split: option.splits)
  define s3 where "s3 = fold submit_write_bio_wrapper sl
    ((upd_core (\<lambda>ic. ic\<lparr>ic_overlapped_data := data', ic_max_sectors_in_overlapped := max'\<rparr>) ?s1)\<lparr>io_biows := H'\<rparr>)"
  obtain starts s4 where d: "delete_bio_wrapper_from_pending_data rb_del j b s3 = (starts, s4)" by fastforce
  define s5 where "s5 = (if starts \<and> test_bit_u64 IOCORE_STATE_IS_QUEUE_STOPPED (ic_flags (io_core s4))
    then upd_core (\<lambda>ic. ic\<lparr>ic_flags := clear_bit_u64 IOCORE_STATE_IS_QUEUE_STOPPED (ic_flags ic)\<rparr>) (melt_and_dispatch s4) else s4)"
  have "s' = (if bio_entry_exists (bw_cloned_bioe (io_biows s5 b))
      then s5\<lparr>io_biows := (io_biows s5)(b := (io_biows s5 b)\<lparr>bw_cloned_bioe := fin_bio_entry (bw_cloned_bioe (io_biows s5 b))\<rparr>)\<rparr> else s5)"
    using assms(1) unfolding wait_for_write_bio_wrapper_def Let_def o option.case prod.case s3_def [symmetric] d s5_def [symmetric] by simp
  then have s': "s' = s5 \<or> (\<exists>w. s' = s5\<lparr>io_biows := (io_biows s5)(b := w)\<rparr>)" by (auto split: if_splits)
  have "same_queues ?s1 s3"
    by (simp add: s3_def same_queues_def fold_submit_fields is_frozen_def) (simp add: working_def fold_submit_fields)
  then have "same_queues (sc_io c) s4"
    using delete_pending_same_queues [of s3 rb_del j b] d by (metis same_queues_trans snd_conv wait_io_same_queues)
  then have 1: "sched_steps c (c\<lparr>sc_io := s4\<rparr>)" by (rule same_queues_step)
  have "sched_steps (c\<lparr>sc_io := s4\<rparr>) (c\<lparr>sc_io := melt_and_dispatch s4\<rparr>)"
    using melt_and_dispatch_steps [of "c\<lparr>sc_io := s4\<rparr>"] sched_steps_reachable [OF 1 assms(2)] by simp
  then have 2: "sched_steps (c\<lparr>sc_io := s4\<rparr>) (c\<lparr>sc_io := s5\<rparr>)"
    using same_queues_step [of "c\<lparr>sc_io := melt_and_dispatch s4\<rparr>" s5] clear_stopped_same_queues [of "melt_and_dispatch s4"]
    by (auto simp: s5_def)
  have "same_queues s5 s'" using s' by (auto intro!: same_queues_core)
  then have "sched_steps (c\<lparr>sc_io := s5\<rparr>) (c\<lparr>sc_io := s'\<rparr>)" using same_queues_step [of "c\<lparr>sc_io := s5\<rparr>" s'] by simp
  with 1 2 show ?thesis by (meson rtranclp_trans)
qed

lemma wait_biows_steps: "wait_biows t bs (sc_io c) = Some s' \<Longrightarrow> sched_reachable c \<Longrightarrow> sched_steps c (c\<lparr>sc_io := s'\<rparr>)"
proof (induction bs arbitrary: c)
  case (Cons b bs)
  then obtain s1 where s1: "wait_for_write_bio_wrapper (dt_del t) (dt_jiffies t) (dt_status t b) b (sc_io c) = Some s1" "wait_biows t bs s1 = Some s'"
    by (auto simp: bind_eq_Some_conv)
  have 1: "sched_steps c (c\<lparr>sc_io := s1\<rparr>)" by (rule wait_write_steps [OF s1(1) Cons.prems(2)])
  then show ?case using sched_steps_reachable [OF 1 Cons.prems(2)] Cons.IH [of "c\<lparr>sc_io := s1\<rparr>"] s1(2) by simp
next
  case Nil
  then show ?case by (cases c) simp
qed

lemma sched_step_tasks: "sched_step c c' \<Longrightarrow> count_list (io_tasks (sc_io c)) nr \<le> count_list (io_tasks (sc_io c')) nr"
proof (induction rule: sched_step.induct)
  case (dequeue t c finished s)
  have "s = snd (dequeue_task t (sc_io c))" using dequeue(2) by simp
  then show ?case by (simp add: dequeue_keeps)
qed (simp_all add: put_entry_def dispatch_parts same_queues_def)

lemma sched_steps_tasks: "sched_steps c c' \<Longrightarrow> count_list (io_tasks (sc_io c)) nr \<le> count_list (io_tasks (sc_io c')) nr"
  by (induction rule: rtranclp_induct) (auto dest: sched_step_tasks [of _ _ nr])



text \<open>A reachable state in which one wrapper waits for its data IO.\<close>

definition submitting :: "ram sched" where
  "submitting = (sched_start (demo_io 0))\<lparr>sc_io := dispatch_task_if_necessary (working_bit Submit_data) (upd_core (\<lambda>ic. ic) (demo_io 0))\<rparr>"

definition one_wait :: "ram sched" where
  "one_wait = submitting\<lparr>sc_io := dispatch_task_if_necessary (working_bit Wait_data)
     (upd_core (\<lambda>ic. ic\<lparr>ic_datapack_wait_queue := ic_datapack_wait_queue ic @ [1]\<rparr>) (sc_io submitting))\<rparr>"

lemma demo_runs: "runs Submit_data submitting = 1" "runs Wait_data one_wait = 1"
  by code_simp+

lemma one_wait_reachable: "sched_reachable one_wait"
proof -
  let ?c = "sched_start (demo_io 0)"
  have r0: "sched_reachable ?c"
    by (rule sched_reachable.start) (simp add: idle_core_def demo_io_def blank_iocore_def)
  have "sched_reachable (put_entry Submit_data (\<lambda>ic. ic) ?c)"
    using sched_reachable.step [OF r0 sched_step.intend [of _ Submit_data]] by (simp add: put_entry_def upd_core_def)
  then have r1: "sched_reachable submitting"
    using dispatch_steps [OF r0, of "\<lambda>ic. ic" Submit_data] sched_steps_reachable by (simp add: submitting_def sched_start_def)
  let ?f = "\<lambda>ic. ic\<lparr>ic_datapack_wait_queue := ic_datapack_wait_queue ic @ [1]\<rparr>"
  have "sched_reachable (put_entry Wait_data ?f submitting)"
    by (rule sched_reachable.step [OF r1 sched_step.data_submitted]) (simp add: demo_runs)
  then show ?thesis using dispatch_steps [OF r1, of ?f Wait_data] sched_steps_reachable by (simp add: one_wait_def)
qed

definition one_turn :: "ram data_turn" where
  "one_turn = \<lparr>dt_ops = ram_ops, dt_ins = tool_rb_ins, dt_del = tool_rb_del, dt_sort = True, dt_allocs = [], dt_jiffies = 0,
     dt_turns = [], dt_status = (\<lambda>_. 0)\<rparr>"

lemma one_wait_ends: "map_option (\<lambda>s. ic_datapack_wait_queue (io_core s)) (task_wait_for_bio_wrapper_list [one_turn, one_turn] (sc_io one_wait)) = Some []"
  by code_simp




end
