(* ===== verification/Walb_Worker.thy ===== *)
theory Walb_Worker
  imports Walb_Iocore
begin

text \<open>
  The kernel threads of \<^verbatim>\<open>module/worker.c\<close>: a thread sleeps until its wakeup bit is set or it is
  told to stop, clears the bit and calls its function.  The thread, the callers of
  \<^verbatim>\<open>wakeup_worker\<close> and the one of \<^verbatim>\<open>finalize_worker\<close> run concurrently; the steps are the accesses to
  the shared flags.  The function of a worker is given by its turns: \<^verbatim>\<open>turn s\<close> is \<^const>\<open>None\<close> when the
  function returns.  Whether the kernel still calls the function of a thread that was stopped
  before it first ran is the parameter \<^verbatim>\<open>starts_stopped\<close>.
\<close>

section \<open>Workers\<close>

definition THREAD_WAKEUP :: nat where "THREAD_WAKEUP = 0"

text \<open>The position of the thread in \<^verbatim>\<open>generic_worker\<close>.\<close>

datatype worker_pc = Unborn | Loop_check | Wait_event | Clear_wakeup | Run_check | Run | Exited

record 's worker =
  wk_flags :: u64
  wk_stop :: bool
  wk_done :: bool
  wk_pc :: worker_pc
  wk_data :: 's
  wk_owes :: nat

definition initialize_worker :: "'s \<Rightarrow> 's worker" where
  "initialize_worker data =
     \<lparr>wk_flags = 0, wk_stop = False, wk_done = False, wk_pc = Unborn, wk_data = data, wk_owes = 0\<rparr>"

definition wakeup_worker :: "'s worker \<Rightarrow> 's worker" where
  "wakeup_worker w =
     (if \<not> test_bit_u64 THREAD_WAKEUP (wk_flags w) then w\<lparr>wk_flags := set_bit_u64 THREAD_WAKEUP (wk_flags w)\<rparr> else w)"

text \<open>One step of the thread; \<^const>\<open>None\<close> when it sleeps or has ended.\<close>

definition generic_worker :: "bool \<Rightarrow> ('s \<Rightarrow> 's option) \<Rightarrow> 's worker \<Rightarrow> 's worker option" where
  "generic_worker starts_stopped turn w =
     (case wk_pc w of
        Unborn \<Rightarrow> Some (if wk_stop w \<and> \<not> starts_stopped then w\<lparr>wk_pc := Exited\<rparr> else w\<lparr>wk_pc := Loop_check\<rparr>)
      | Loop_check \<Rightarrow> Some (if wk_stop w then w\<lparr>wk_done := True, wk_pc := Exited\<rparr> else w\<lparr>wk_pc := Wait_event\<rparr>)
      | Wait_event \<Rightarrow>
          if test_bit_u64 THREAD_WAKEUP (wk_flags w) \<or> wk_stop w then Some (w\<lparr>wk_pc := Clear_wakeup\<rparr>) else None
      | Clear_wakeup \<Rightarrow> Some (w\<lparr>wk_flags := clear_bit_u64 THREAD_WAKEUP (wk_flags w), wk_pc := Run_check\<rparr>)
      | Run_check \<Rightarrow> Some (w\<lparr>wk_pc := (if wk_stop w then Loop_check else Run)\<rparr>)
      | Run \<Rightarrow> Some (case turn (wk_data w) of None \<Rightarrow> w\<lparr>wk_pc := Loop_check\<rparr> | Some s \<Rightarrow> w\<lparr>wk_data := s\<rparr>)
      | Exited \<Rightarrow> None)"

text \<open>
  The steps of the system.  A producer gives the worker something to do and then wakes it up;
  \<^verbatim>\<open>wk_owes\<close> counts what has been given and not yet been followed by a wakeup.
\<close>

inductive worker_step :: "bool \<Rightarrow> ('s \<Rightarrow> 's option) \<Rightarrow> ('s \<Rightarrow> bool) \<Rightarrow> 's worker \<Rightarrow> 's worker \<Rightarrow> bool"
  for starts_stopped turn todo where
  thread: "generic_worker starts_stopped turn w = Some w' \<Longrightarrow> worker_step starts_stopped turn todo w w'"
| give: "worker_step starts_stopped turn todo w (w\<lparr>wk_data := s, wk_owes := Suc (wk_owes w)\<rparr>)"
| others: "(todo s \<Longrightarrow> todo (wk_data w)) \<Longrightarrow> worker_step starts_stopped turn todo w (w\<lparr>wk_data := s\<rparr>)"
| wakeup: "k \<le> wk_owes w \<Longrightarrow> worker_step starts_stopped turn todo w (wakeup_worker (w\<lparr>wk_owes := wk_owes w - k\<rparr>))"
| kthread_stop: "worker_step starts_stopped turn todo w (w\<lparr>wk_stop := True\<rparr>)"

text \<open>\<^verbatim>\<open>finalize_worker\<close> stops the thread, waits for its end and then for the completion.\<close>

definition finalize_returns :: "'s worker \<Rightarrow> bool" where
  "finalize_returns w = (wk_stop w \<and> wk_pc w = Exited \<and> wk_done w)"

definition worker_inv :: "bool \<Rightarrow> ('s \<Rightarrow> bool) \<Rightarrow> 's worker \<Rightarrow> bool" where
  "worker_inv starts_stopped todo w =
     ((todo (wk_data w) \<and> wk_owes w = 0 \<and> \<not> wk_stop w \<longrightarrow>
         test_bit_u64 THREAD_WAKEUP (wk_flags w) \<or> wk_pc w \<in> {Run_check, Run}) \<and>
      (wk_pc w = Exited \<longrightarrow> wk_stop w) \<and> (wk_done w \<longrightarrow> wk_pc w = Exited) \<and>
      (starts_stopped \<and> wk_pc w = Exited \<longrightarrow> wk_done w))"

lemma wakeup_worker_fields [simp]:
  "test_bit_u64 THREAD_WAKEUP (wk_flags (wakeup_worker w))" "wk_stop (wakeup_worker w) = wk_stop w"
  "wk_done (wakeup_worker w) = wk_done w" "wk_pc (wakeup_worker w) = wk_pc w" "wk_data (wakeup_worker w) = wk_data w"
  by (simp_all add: wakeup_worker_def THREAD_WAKEUP_def)

text \<open>The interface of a worker's function: it returns only when there is nothing left to do.\<close>

locale worker_function =
  fixes turn :: "'s \<Rightarrow> 's option" and todo :: "'s \<Rightarrow> bool"
  assumes returns_done: "turn s = None \<Longrightarrow> \<not> todo s"
begin

lemma thread_keeps_inv:
  assumes "generic_worker starts_stopped turn w = Some w'" "worker_inv starts_stopped todo w"
  shows "worker_inv starts_stopped todo w'"
  using assms by (cases "wk_pc w") (auto simp: worker_inv_def generic_worker_def dest: returns_done split: if_splits option.splits)

lemma step_keeps_inv:
  assumes "worker_step starts_stopped turn todo w w'" "worker_inv starts_stopped todo w"
  shows "worker_inv starts_stopped todo w'"
  using assms
proof cases
  case thread
  then show ?thesis using assms(2) by (rule thread_keeps_inv)
qed (use assms(2) in \<open>auto simp: worker_inv_def\<close>)

lemma reach_keeps_inv:
  assumes "reach (worker_step starts_stopped turn todo) (initialize_worker data) w" "\<not> todo data"
  shows "worker_inv starts_stopped todo w"
  using assms
proof (induction rule: reach.induct)
  case reach_start
  then show ?case by (simp add: worker_inv_def initialize_worker_def)
next
  case (reach_step s s')
  then show ?case using step_keeps_inv by blast
qed

lemma sleeping_has_nothing_to_do:
  assumes "reach (worker_step starts_stopped turn todo) (initialize_worker data) w" "\<not> todo data"
    and "generic_worker starts_stopped turn w = None" "wk_owes w = 0" "\<not> wk_stop w"
  shows "\<not> todo (wk_data w)"
  using reach_keeps_inv [OF assms(1,2)] assms(3-5) by (auto simp: worker_inv_def generic_worker_def split: worker_pc.splits if_splits)

end

section \<open>The garbage collection worker\<close>

definition gc_turn :: "'d io_state \<Rightarrow> 'd io_state option" where
  "gc_turn s =
     (if ic_logpack_gc_queue (io_core s) = [] then None
      else
        (let (batch, rest) = dequeue_bulk (wd_n_pack_bulk (io_dev s)) (ic_logpack_gc_queue (io_core s));
             s1 = gc_logpack_list batch (upd_core (\<lambda>ic. ic\<lparr>ic_logpack_gc_queue := rest\<rparr>) s) in
         Some (upd_core (\<lambda>ic. ic\<lparr>ic_n_pending_gc := ic_n_pending_gc ic - int (length batch)\<rparr>) s1)))"

definition gc_todo :: "'d io_state \<Rightarrow> bool" where
  "gc_todo s = (ic_logpack_gc_queue (io_core s) \<noteq> [])"

interpretation gc: worker_function gc_turn gc_todo
  by unfold_locales (simp add: gc_turn_def gc_todo_def Let_def split: prod.splits if_splits)

text \<open>The function of the worker, \<^verbatim>\<open>run_gc_logpack_list\<close>, is the repetition of the turns.\<close>

lemma gc_turns:
  "dequeue_and_gc_logpack_list s = (case gc_turn s of None \<Rightarrow> s | Some s' \<Rightarrow> dequeue_and_gc_logpack_list s')"
  by (subst dequeue_and_gc_logpack_list.simps) (auto simp: gc_turn_def Let_def split: list.split prod.split)

abbreviation gc_thread :: "bool \<Rightarrow> 'd io_state worker \<Rightarrow> 'd io_state worker \<Rightarrow> bool" where
  "gc_thread ss w w' \<equiv> generic_worker ss gc_turn w = Some w'"

lemma reach_trans: "reach step b c \<Longrightarrow> reach step a b \<Longrightarrow> reach step a c"
  by (induction rule: reach.induct) (auto intro: reach_step)

lemma gc_turn_shorter:
  assumes "gc_turn s = Some s'"
  shows "length (ic_logpack_gc_queue (io_core s')) < length (ic_logpack_gc_queue (io_core s))"
  using assms dequeue_bulk_parts [of "wd_n_pack_bulk (io_dev s)" "ic_logpack_gc_queue (io_core s)"]
  by (auto simp: gc_turn_def Let_def split: if_splits prod.splits)

lemma gc_run_ends:
  assumes "wk_pc w = Run"
  shows "reach (gc_thread ss) w (w\<lparr>wk_data := dequeue_and_gc_logpack_list (wk_data w), wk_pc := Loop_check\<rparr>)"
  using assms
proof (induction "length (ic_logpack_gc_queue (io_core (wk_data w)))" arbitrary: w rule: less_induct)
  case less
  show ?case
  proof (cases "gc_turn (wk_data w)")
    case None
    then have "gc_thread ss w (w\<lparr>wk_data := dequeue_and_gc_logpack_list (wk_data w), wk_pc := Loop_check\<rparr>)"
      using less.prems gc_turns [of "wk_data w"] by (simp add: generic_worker_def)
    then show ?thesis by (rule reach_step [OF reach_start])
  next
    case (Some s)
    then have 1: "gc_thread ss w (w\<lparr>wk_data := s\<rparr>)" using less.prems by (simp add: generic_worker_def)
    have "reach (gc_thread ss) (w\<lparr>wk_data := s\<rparr>) (w\<lparr>wk_data := dequeue_and_gc_logpack_list s, wk_pc := Loop_check\<rparr>)"
      using less.hyps [of "w\<lparr>wk_data := s\<rparr>"] gc_turn_shorter [OF Some] less.prems by simp
    from reach_trans [OF this reach_step [where step = "gc_thread ss", OF reach_start 1]] show ?thesis
      using gc_turns [of "wk_data w"] Some by simp
  qed
qed

text \<open>
  C9.  The garbage collection worker: however the thread, the task that gives it logpacks and the
  wakeups interleave, a thread that sleeps while no wakeup is due has an empty queue, so no
  finished logpack is left behind.
\<close>

theorem gc_worker_no_lost_wakeup:
  assumes "reach (worker_step starts_stopped gc_turn gc_todo) (initialize_worker s) w" "ic_logpack_gc_queue (io_core s) = []"
    and "generic_worker starts_stopped gc_turn w = None" "wk_owes w = 0" "\<not> wk_stop w"
  shows "ic_logpack_gc_queue (io_core (wk_data w)) = []"
  using gc.sleeping_has_nothing_to_do [OF assms(1) _ assms(3-5)] assms(2) by (simp add: gc_todo_def)

theorem gc_worker_no_lost_wakeup_witness:
  "\<exists>w. reach (worker_step False gc_turn gc_todo) (initialize_worker (demo_io 0)) w \<and> wk_pc w = Wait_event \<and>
    generic_worker False gc_turn w = None \<and> ic_logpack_gc_queue (io_core (wk_data w)) = []"
proof -
  let ?w = "initialize_worker (demo_io 0)"
  let ?w1 = "?w\<lparr>wk_pc := Loop_check\<rparr>"
  let ?w2 = "?w\<lparr>wk_pc := Wait_event\<rparr>"
  have "generic_worker False gc_turn ?w = Some ?w1" "generic_worker False gc_turn ?w1 = Some ?w2"
    by (simp_all add: generic_worker_def initialize_worker_def)
  then have r: "reach (worker_step False gc_turn gc_todo) ?w ?w2"
    by (intro reach_two [OF reach_start]) (auto intro: worker_step.thread)
  have s: "generic_worker False gc_turn ?w2 = None"
    by (simp add: generic_worker_def initialize_worker_def test_bit_u64_bit)
  have "ic_logpack_gc_queue (io_core (wk_data ?w2)) = []"
    by (rule gc_worker_no_lost_wakeup [OF r _ s]) (simp_all add: demo_io_def blank_iocore_def initialize_worker_def)
  then show ?thesis using r s by (intro exI [of _ ?w2]) simp
qed

lemma stopped_exits:
  assumes "wk_stop w" "wk_pc w \<in> {Loop_check, Wait_event, Clear_wakeup, Run_check}"
  shows "\<exists>w'. reach (gc_thread ss) w w' \<and> finalize_returns w' \<and> wk_data w' = wk_data w"
proof -
  have c: "\<exists>w'. reach (gc_thread ss) v w' \<and> finalize_returns w' \<and> wk_data w' = wk_data v"
    if "wk_stop v" "wk_pc v = Loop_check" for v
    using that by (intro exI [of _ "v\<lparr>wk_done := True, wk_pc := Exited\<rparr>"])
      (auto intro!: reach_step [OF reach_start] simp: finalize_returns_def generic_worker_def)
  have next_pc: "\<exists>w'. reach (gc_thread ss) v w' \<and> finalize_returns w' \<and> wk_data w' = wk_data v"
    if "gc_thread ss v v1" "wk_data v1 = wk_data v" "\<exists>w'. reach (gc_thread ss) v1 w' \<and> finalize_returns w' \<and> wk_data w' = wk_data v1" for v v1
    using that reach_trans [OF _ reach_step [where step = "gc_thread ss", OF reach_start that(1)]] by metis
  have r: "\<exists>w'. reach (gc_thread ss) v w' \<and> finalize_returns w' \<and> wk_data w' = wk_data v"
    if "wk_stop v" "wk_pc v = Run_check" for v
    by (rule next_pc [of v "v\<lparr>wk_pc := Loop_check\<rparr>"], simp add: generic_worker_def that, simp, rule c) (simp_all add: that)
  have k: "\<exists>w'. reach (gc_thread ss) v w' \<and> finalize_returns w' \<and> wk_data w' = wk_data v"
    if "wk_stop v" "wk_pc v = Clear_wakeup" for v
    by (rule next_pc [of v "v\<lparr>wk_flags := clear_bit_u64 THREAD_WAKEUP (wk_flags v), wk_pc := Run_check\<rparr>"], simp add: generic_worker_def that, simp, rule r) (simp_all add: that)
  have e: "\<exists>w'. reach (gc_thread ss) v w' \<and> finalize_returns w' \<and> wk_data w' = wk_data v"
    if "wk_stop v" "wk_pc v = Wait_event" for v
    by (rule next_pc [of v "v\<lparr>wk_pc := Clear_wakeup\<rparr>"], simp add: generic_worker_def that, simp, rule k) (simp_all add: that)
  show ?thesis using assms c r k e by blast
qed


definition collecting :: "ram io_state worker" where
  "collecting = (initialize_worker (upd_core (\<lambda>ic. ic\<lparr>ic_logpack_gc_queue := [demo_mem], ic_n_pending_gc := 1\<rparr>) (demo_io 0)))
     \<lparr>wk_stop := True, wk_pc := Run\<rparr>"


text \<open>
  When the kernel does not call the function of a thread that is stopped before it first runs,
  nobody completes the worker, and \<^verbatim>\<open>finalize_worker\<close> waits forever.
\<close>

theorem finalize_worker_hangs:
  assumes "reach (worker_step False turn todo) w w'" "wk_pc w = Unborn" "wk_stop w" "\<not> wk_done w"
  shows "\<not> finalize_returns w'"
proof -
  have "wk_stop w' \<and> wk_pc w' \<in> {Unborn, Exited} \<and> \<not> wk_done w'"
    using assms
  proof (induction rule: reach.induct)
    case (reach_step s s')
    from reach_step(2) reach_step(3) [OF reach_step(4-6)] show ?case
      by cases (auto simp: generic_worker_def split: if_splits)
  qed simp
  then show ?thesis by (simp add: finalize_returns_def)
qed

theorem finalize_worker_hangs_witness:
  "\<not> finalize_returns ((initialize_worker (demo_io 0))\<lparr>wk_stop := True, wk_pc := Exited\<rparr>)"
proof -
  let ?w = "(initialize_worker (demo_io 0))\<lparr>wk_stop := True\<rparr>"
  have "worker_step False gc_turn gc_todo ?w (?w\<lparr>wk_pc := Exited\<rparr>)"
    by (rule worker_step.thread) (simp add: generic_worker_def initialize_worker_def)
  then have "reach (worker_step False gc_turn gc_todo) ?w (?w\<lparr>wk_pc := Exited\<rparr>)"
    by (rule reach_step [OF reach_start])
  from finalize_worker_hangs [OF this] show ?thesis by (simp add: initialize_worker_def)
qed

end
