(* ===== verification/Walb_Sysfs.thy ===== *)
theory Walb_Sysfs
  imports Walb_Wdev_Util Walb_Alldevs
begin

text \<open>
  The sysfs attributes of a device: \<^verbatim>\<open>module/sysfs.c\<close>.  A show function gives the bytes it writes
  to the page of the reader; its return value is their number.  The device numbers of the
  underlying devices are arguments.
\<close>

definition PAGE_SIZE :: nat where "PAGE_SIZE = 4096"

definition ascii :: "string \<Rightarrow> u8 list" where
  "ascii s = map of_char s"

definition newline :: "u8 list" where "newline = [10]"

definition dec_line :: "string \<Rightarrow> nat \<Rightarrow> u8 list" where
  "dec_line label n = ascii label @ decimal n @ newline"

definition bit_value :: "bool \<Rightarrow> nat" where
  "bit_value b = (if b then 1 else 0)"

section \<open>The attributes\<close>

definition walb_attr_show_ldev :: "u32 \<Rightarrow> u32 \<Rightarrow> u8 list" where
  "walb_attr_show_ldev major minor = decimal (unat major) @ ascii '':'' @ decimal (unat minor) @ newline"

definition walb_attr_show_ddev :: "u32 \<Rightarrow> u32 \<Rightarrow> u8 list" where
  "walb_attr_show_ddev major minor = decimal (unat major) @ ascii '':'' @ decimal (unat minor) @ newline"

definition walb_attr_show_lsids :: "'d walb_dev \<Rightarrow> u8 list" where
  "walb_attr_show_lsids wdev =
     (let lsids = wd_lsids wdev in
      dec_line ''latest       '' (unat (latest lsids)) @
      dec_line ''completed    '' (unat (completed lsids)) @
      dec_line ''flush        '' (unat (flush lsids)) @
      dec_line ''permanent    '' (unat (permanent lsids)) @
      dec_line ''written      '' (unat (written lsids)) @
      dec_line ''prev_written '' (unat (prev_written lsids)) @
      dec_line ''oldest       '' (unat (oldest lsids)))"

text \<open>The name is printed as a C string; without a NUL in its field it runs past the field.\<close>

definition walb_attr_show_name :: "'d walb_dev \<Rightarrow> u8 list option" where
  "walb_attr_show_name wdev =
     (let name = ss_name (get_super_sector (wd_lsuper0 wdev)) in
      if 0 \<in> set (take DISK_NAME_LEN name) then Some (disk_cstr name @ newline) else None)"

definition UUID_STR_SIZE :: int where "UUID_STR_SIZE = 16 * 3 + 1"

definition walb_attr_show_uuid :: "'d walb_dev \<Rightarrow> u8 list" where
  "walb_attr_show_uuid wdev =
     (let (len, str) = sprint_uuid UUID_STR_SIZE (ss_uuid (get_super_sector (wd_lsuper0 wdev))) in
      if len > 0 then ascii str @ newline else ascii str)"

definition walb_attr_show_log_capacity :: "'d walb_dev \<Rightarrow> u8 list" where
  "walb_attr_show_log_capacity wdev = dec_line [] (unat (walb_get_log_capacity wdev))"

definition walb_attr_show_log_usage :: "'d walb_dev \<Rightarrow> u8 list" where
  "walb_attr_show_log_usage wdev = dec_line [] (unat (walb_get_log_usage wdev))"

definition walb_attr_show_status :: "'d walb_dev \<Rightarrow> u8 list" where
  "walb_attr_show_status wdev =
     (let flagsW = wd_flags wdev; flagsC = ic_flags (wd_iocore wdev) in
      take (PAGE_SIZE - 1)
       (dec_line ''read_only                '' (bit_value (test_bit_u64 WALB_STATE_READ_ONLY flagsW)) @
        dec_line ''log_overflow             '' (bit_value (test_bit_u64 WALB_STATE_OVERFLOW flagsW)) @
        dec_line ''finalize                 '' (bit_value (test_bit_u64 WALB_STATE_FINALIZE flagsW)) @
        dec_line ''submit_log_task_working  '' (bit_value (test_bit_u64 IOCORE_STATE_SUBMIT_LOG_TASK_WORKING flagsC)) @
        dec_line ''wait_log_task_working    '' (bit_value (test_bit_u64 IOCORE_STATE_WAIT_LOG_TASK_WORKING flagsC)) @
        dec_line ''submit_data_task_working '' (bit_value (test_bit_u64 IOCORE_STATE_SUBMIT_DATA_TASK_WORKING flagsC)) @
        dec_line ''wait_data_task_working   '' (bit_value (test_bit_u64 IOCORE_STATE_WAIT_DATA_TASK_WORKING flagsC))))"

definition walb_attr_show_support_flush :: "'d walb_dev \<Rightarrow> u8 list" where
  "walb_attr_show_support_flush wdev = take (PAGE_SIZE - 1) (dec_line [] (bit_value (wd_support_flush wdev)))"

definition walb_attr_show_support_fua :: "'d walb_dev \<Rightarrow> u8 list" where
  "walb_attr_show_support_fua wdev = take (PAGE_SIZE - 1) (dec_line [] (bit_value (wd_support_fua wdev)))"

definition walb_attr_show_support_discard :: "'d walb_dev \<Rightarrow> u8 list" where
  "walb_attr_show_support_discard wdev = take (PAGE_SIZE - 1) (dec_line [] (bit_value (wd_support_discard wdev)))"

section \<open>Decimal numbers\<close>

definition is_digit :: "u8 \<Rightarrow> bool" where
  "is_digit c = (48 \<le> c \<and> c \<le> 57)"

definition decimal_value :: "u8 list \<Rightarrow> nat" where
  "decimal_value cs = foldl (\<lambda>n c. 10 * n + (unat c - 48)) 0 cs"

lemma unat_digit: "d < 10 \<Longrightarrow> unat (48 + word_of_nat d :: u8) = 48 + d"
  by (simp add: unat_word_ariths unat_of_nat)

lemma decimal_value_decimal: "decimal_value (decimal n) = n"
proof (induction n rule: decimal.induct)
  case (1 n)
  then show ?case by (subst decimal.simps) (auto simp: decimal_value_def unat_digit)
qed

lemma decimal_digits: "c \<in> set (decimal n) \<Longrightarrow> is_digit c"
proof (induction n rule: decimal.induct)
  case (1 n)
  then show ?case
    by (subst (asm) decimal.simps) (auto simp: is_digit_def word_le_nat_alt unat_digit split: if_splits)
qed

lemma decimal_length: "n < 10 ^ k \<Longrightarrow> 0 < k \<Longrightarrow> length (decimal n) \<le> k"
proof (induction n arbitrary: k rule: decimal.induct)
  case (1 n)
  then show ?case
  proof (cases "n < 10")
    case False
    then have "k \<noteq> 1" using 1(2) by auto
    then obtain j where k: "k = Suc j" "0 < j" using 1(3) by (cases k) auto
    then have "n div 10 < 10 ^ j" using 1(2) by (simp add: less_mult_imp_div_less)
    then show ?thesis using 1(1) [OF False, of j] k False by (subst decimal.simps) simp
  qed (subst decimal.simps, simp)
qed

lemma take_decimal:
  assumes "\<not> is_digit c"
  shows "takeWhile is_digit (decimal n @ c # r) = decimal n" "dropWhile is_digit (decimal n @ c # r) = c # r"
  using assms decimal_digits by (auto simp: takeWhile_append dropWhile_append)

lemma decimal_line_inj:
  assumes "decimal a @ newline @ r = decimal b @ newline @ r'"
  shows "a = b \<and> r = r'"
proof -
  have n: "\<not> is_digit 10" by (simp add: is_digit_def)
  have "decimal a = decimal b" using take_decimal(1) [OF n, of a r] take_decimal(1) [OF n, of b r'] assms by (simp add: newline_def)
  then have "a = b" by (metis decimal_value_decimal)
  then show ?thesis using assms by simp
qed

lemma dec_line_inj: "dec_line l a @ r = dec_line l b @ r' \<Longrightarrow> a = b \<and> r = r'"
  unfolding dec_line_def append_assoc same_append_eq by (rule decimal_line_inj)

section \<open>What a reader gets\<close>

text \<open>The text of the attribute determines every lsid.\<close>

theorem show_lsids_determines:
  assumes "walb_attr_show_lsids wdev = walb_attr_show_lsids wdev'"
  shows "wd_lsids wdev = wd_lsids wdev'"
proof -
  have e: "dec_line l a = dec_line l b \<Longrightarrow> a = b" for l a b using dec_line_inj [of l a "[]" b "[]"] by simp
  show ?thesis using assms unfolding walb_attr_show_lsids_def Let_def
    by (auto simp: word_unat_eq_iff dest!: dec_line_inj e intro!: lsid_set.equality)
qed

lemma decimal_u64_length: "length (decimal (unat (a :: u64))) \<le> 20"
proof (rule decimal_length)
  have "unat a < 2 ^ 64" using unsigned_less [of a] by simp
  then show "unat a < 10 ^ 20" by simp
qed simp

lemma decimal_u32_length: "length (decimal (unat (a :: u32))) \<le> 10"
proof (rule decimal_length)
  have "unat a < 2 ^ 32" using unsigned_less [of a] by simp
  then show "unat a < 10 ^ 10" by simp
qed simp

lemma dec_line_u64_length: "length (dec_line l (unat (a :: u64))) \<le> length l + 21"
  using decimal_u64_length [of a] by (simp add: dec_line_def ascii_def newline_def)

text \<open>
  The show functions that print with \<^verbatim>\<open>sprintf\<close>, which has no bound of its own, stay inside the
  page with their terminating NUL, for any state of the device and any device numbers.
\<close>

theorem sysfs_attributes_fit_page:
  "length (walb_attr_show_ldev major minor) < PAGE_SIZE \<and> length (walb_attr_show_ddev major minor) < PAGE_SIZE \<and>
   length (walb_attr_show_lsids wdev) < PAGE_SIZE \<and> pred_option (\<lambda>bs. length bs < PAGE_SIZE) (walb_attr_show_name wdev) \<and>
   length (walb_attr_show_uuid wdev) < PAGE_SIZE \<and>
   length (walb_attr_show_log_capacity wdev) < PAGE_SIZE \<and> length (walb_attr_show_log_usage wdev) < PAGE_SIZE"
proof -
  have d: "length (walb_attr_show_ldev major minor) < PAGE_SIZE" "length (walb_attr_show_ddev major minor) < PAGE_SIZE"
    using decimal_u32_length [of major] decimal_u32_length [of minor]
    by (simp_all add: walb_attr_show_ldev_def walb_attr_show_ddev_def PAGE_SIZE_def ascii_def newline_def)
  have l: "length (walb_attr_show_lsids wdev) < PAGE_SIZE"
    using decimal_u64_length [of "latest (wd_lsids wdev)"] decimal_u64_length [of "completed (wd_lsids wdev)"]
      decimal_u64_length [of "flush (wd_lsids wdev)"] decimal_u64_length [of "permanent (wd_lsids wdev)"]
      decimal_u64_length [of "written (wd_lsids wdev)"] decimal_u64_length [of "prev_written (wd_lsids wdev)"]
      decimal_u64_length [of "oldest (wd_lsids wdev)"]
    by (simp add: walb_attr_show_lsids_def Let_def dec_line_def ascii_def newline_def PAGE_SIZE_def)
  have "length (disk_cstr (ss_name (get_super_sector (wd_lsuper0 wdev)))) \<le> DISK_NAME_LEN"
    using length_takeWhile_le [of "\<lambda>c. c \<noteq> 0"] by (simp add: disk_cstr_def le_trans [OF length_takeWhile_le])
  then have n: "pred_option (\<lambda>bs. length bs < PAGE_SIZE) (walb_attr_show_name wdev)"
    by (simp add: walb_attr_show_name_def Let_def PAGE_SIZE_def newline_def DISK_NAME_LEN_def)
  have u: "length (walb_attr_show_uuid wdev) < PAGE_SIZE"
    by (auto simp: walb_attr_show_uuid_def sprint_uuid_def sprint_hex_def Let_def UUID_STR_SIZE_def UUID_SIZE_def ascii_def newline_def
        PAGE_SIZE_def length_concat comp_def sprint_byte_def sum_list_triv)
  show ?thesis using d l n u dec_line_u64_length [of "[]" "walb_get_log_capacity wdev"] dec_line_u64_length [of "[]" "walb_get_log_usage wdev"]
    by (simp add: walb_attr_show_log_capacity_def walb_attr_show_log_usage_def PAGE_SIZE_def)
qed

end
