(* ===== verification/Walb_Module.thy ===== *)
theory Walb_Module
  imports Walb_Start Walb_Wdev_Ioctl
begin

text \<open>
  What the module and its devices take from the kernel and give back: the memory manager of the
  tree maps (\<^verbatim>\<open>treemap.c\<close>), the caches that all devices share with a count of their users (\<^verbatim>\<open>io.c\<close>,
  \<^verbatim>\<open>bio_entry.c\<close>, \<^verbatim>\<open>bio_wrapper.c\<close>, \<^verbatim>\<open>pack_work.c\<close>), the bio set, the workqueues and the registrations
  made when the module is loaded (\<^verbatim>\<open>walb.c\<close>, \<^verbatim>\<open>bio_set.c\<close>, \<^verbatim>\<open>control.c\<close>).  A pointer is \<^const>\<open>True\<close> when it is
  not NULL; the results of the kernel's allocators are arguments.
\<close>

section \<open>The memory manager of the tree maps\<close>

record treemap_memory_manager =
  mm_is_kmem_cache :: bool
  mm_node_cache :: bool
  mm_cell_head_cache :: bool
  mm_cell_cache :: bool
  mm_node_pool :: bool
  mm_cell_head_pool :: bool
  mm_cell_pool :: bool

definition zero_mmgr :: treemap_memory_manager where
  "zero_mmgr = \<lparr>mm_is_kmem_cache = False, mm_node_cache = False, mm_cell_head_cache = False, mm_cell_cache = False,
     mm_node_pool = False, mm_cell_head_pool = False, mm_cell_pool = False\<rparr>"

text \<open>The caches and pools that \<^verbatim>\<open>kmem_cache_create\<close> and \<^verbatim>\<open>mempool_create_slab_pool\<close> would give.\<close>

type_synonym mmgr_results = treemap_memory_manager

definition finalize_treemap_memory_manager :: "treemap_memory_manager \<Rightarrow> treemap_memory_manager" where
  "finalize_treemap_memory_manager mmgr =
     (let mmgr1 = mmgr\<lparr>mm_cell_pool := False, mm_cell_head_pool := False, mm_node_pool := False\<rparr> in
      if mm_is_kmem_cache mmgr1 then mmgr1\<lparr>mm_cell_cache := False, mm_cell_head_cache := False, mm_node_cache := False\<rparr>
      else mmgr1)"

definition initialize_treemap_memory_manager :: "mmgr_results \<Rightarrow> bool \<times> treemap_memory_manager" where
  "initialize_treemap_memory_manager r =
     (let m0 = zero_mmgr\<lparr>mm_is_kmem_cache := True\<rparr>;
          m1 = m0\<lparr>mm_node_cache := mm_node_cache r\<rparr>;
          m2 = m1\<lparr>mm_cell_head_cache := mm_cell_head_cache r\<rparr>;
          m3 = m2\<lparr>mm_cell_cache := mm_cell_cache r\<rparr>;
          m4 = m3\<lparr>mm_node_pool := mm_node_pool r\<rparr>;
          m5 = m4\<lparr>mm_cell_head_pool := mm_cell_head_pool r\<rparr>;
          m6 = m5\<lparr>mm_cell_pool := mm_cell_pool r\<rparr> in
      if \<not> mm_node_cache m1 then (False, finalize_treemap_memory_manager m1)
      else if \<not> mm_cell_head_cache m2 then (False, finalize_treemap_memory_manager m2)
      else if \<not> mm_cell_cache m3 then (False, finalize_treemap_memory_manager m3)
      else if \<not> mm_node_pool m4 then (False, finalize_treemap_memory_manager m4)
      else if \<not> mm_cell_head_pool m5 then (False, finalize_treemap_memory_manager m5)
      else if \<not> mm_cell_pool m6 then (False, finalize_treemap_memory_manager m6)
      else (True, m6))"

definition is_valid_treemap_memory_manager :: "treemap_memory_manager \<Rightarrow> bool" where
  "is_valid_treemap_memory_manager mmgr =
     (let ret1 = (mm_node_pool mmgr \<and> mm_cell_head_pool mmgr \<and> mm_cell_pool mmgr);
          ret2 = (mm_node_cache mmgr \<and> mm_cell_head_cache mmgr \<and> mm_cell_cache mmgr) in
      if mm_is_kmem_cache mmgr then ret1 \<and> ret2 else ret1)"

definition mmgr_empty :: "treemap_memory_manager \<Rightarrow> bool" where
  "mmgr_empty mmgr = (\<not> mm_node_cache mmgr \<and> \<not> mm_cell_head_cache mmgr \<and> \<not> mm_cell_cache mmgr \<and>
     \<not> mm_node_pool mmgr \<and> \<not> mm_cell_head_pool mmgr \<and> \<not> mm_cell_pool mmgr)"

lemma initialize_mmgr_cases:
  assumes "initialize_treemap_memory_manager r = (ok, mmgr)"
  shows "if ok then is_valid_treemap_memory_manager mmgr \<and> mm_is_kmem_cache mmgr else mmgr_empty mmgr"
  using assms
  by (auto simp: initialize_treemap_memory_manager_def finalize_treemap_memory_manager_def is_valid_treemap_memory_manager_def
      mmgr_empty_def zero_mmgr_def Let_def split: if_splits)

lemma finalize_mmgr_empty: "mm_is_kmem_cache mmgr \<Longrightarrow> mmgr_empty (finalize_treemap_memory_manager mmgr)"
  by (simp add: finalize_treemap_memory_manager_def mmgr_empty_def Let_def)

section \<open>What devices share\<close>

record shared =
  sh_mmgr_users :: int
  sh_mmgr :: treemap_memory_manager
  sh_pack_users :: int
  sh_pack_cache :: bool
  sh_bioe_cnt :: int
  sh_biow_cnt :: int
  sh_biow_cache :: bool
  sh_pwork_users :: int
  sh_pwork_cache :: bool

definition treemap_memory_manager_get :: "mmgr_results \<Rightarrow> shared \<Rightarrow> bool \<times> shared" where
  "treemap_memory_manager_get r sh =
     (let sh1 = sh\<lparr>sh_mmgr_users := sh_mmgr_users sh + 1\<rparr> in
      if sh_mmgr_users sh1 = 1 then
        (let (ret, mmgr) = initialize_treemap_memory_manager r; sh2 = sh1\<lparr>sh_mmgr := mmgr\<rparr> in
         if \<not> ret then (False, sh2\<lparr>sh_mmgr_users := sh_mmgr_users sh2 - 1\<rparr>) else (True, sh2))
      else (True, sh1))"

definition treemap_memory_manager_put :: "shared \<Rightarrow> shared" where
  "treemap_memory_manager_put sh =
     (let sh1 = sh\<lparr>sh_mmgr_users := sh_mmgr_users sh - 1\<rparr> in
      if sh_mmgr_users sh1 = 0 then sh1\<lparr>sh_mmgr := finalize_treemap_memory_manager (sh_mmgr sh1)\<rparr> else sh1)"

definition pack_cache_get :: "bool \<Rightarrow> shared \<Rightarrow> bool \<times> shared" where
  "pack_cache_get created sh =
     (let sh1 = sh\<lparr>sh_pack_users := sh_pack_users sh + 1\<rparr> in
      if sh_pack_users sh1 = 1 then
        (let sh2 = sh1\<lparr>sh_pack_cache := created\<rparr> in
         if \<not> sh_pack_cache sh2 then (False, sh2\<lparr>sh_pack_users := sh_pack_users sh2 - 1\<rparr>) else (True, sh2))
      else (True, sh1))"

definition pack_cache_put :: "shared \<Rightarrow> shared" where
  "pack_cache_put sh =
     (let sh1 = sh\<lparr>sh_pack_users := sh_pack_users sh - 1\<rparr> in
      if sh_pack_users sh1 = 0 then sh1\<lparr>sh_pack_cache := False\<rparr> else sh1)"

definition bio_entry_init :: "shared \<Rightarrow> bool \<times> shared" where
  "bio_entry_init sh = (True, sh\<lparr>sh_bioe_cnt := sh_bioe_cnt sh + 1\<rparr>)"

definition bio_entry_exit :: "shared \<Rightarrow> shared" where
  "bio_entry_exit sh =
     (let sh1 = sh\<lparr>sh_bioe_cnt := sh_bioe_cnt sh - 1\<rparr> in
      if sh_bioe_cnt sh1 < 0 then sh1\<lparr>sh_bioe_cnt := sh_bioe_cnt sh1 + 1\<rparr> else sh1)"

text \<open>A failed creation does not take the count back.\<close>

definition bio_wrapper_init :: "bool \<Rightarrow> shared \<Rightarrow> bool \<times> shared" where
  "bio_wrapper_init created sh =
     (let sh1 = sh\<lparr>sh_biow_cnt := sh_biow_cnt sh + 1\<rparr> in
      if sh_biow_cnt sh1 > 1 then (True, sh1) else (created, sh1\<lparr>sh_biow_cache := created\<rparr>))"

definition bio_wrapper_exit :: "shared \<Rightarrow> shared" where
  "bio_wrapper_exit sh =
     (let sh1 = sh\<lparr>sh_biow_cnt := sh_biow_cnt sh - 1\<rparr> in
      if sh_biow_cnt sh1 < 0 then sh1\<lparr>sh_biow_cnt := sh_biow_cnt sh1 + 1\<rparr>
      else if sh_biow_cnt sh1 = 0 then sh1\<lparr>sh_biow_cache := False\<rparr> else sh1)"

definition pack_work_init :: "bool \<Rightarrow> shared \<Rightarrow> bool \<times> shared" where
  "pack_work_init created sh =
     (let sh1 = sh\<lparr>sh_pwork_users := sh_pwork_users sh + 1\<rparr> in
      if sh_pwork_users sh1 = 1 then
        (let sh2 = sh1\<lparr>sh_pwork_cache := created\<rparr> in
         if \<not> sh_pwork_cache sh2 then (False, sh2\<lparr>sh_pwork_users := sh_pwork_users sh2 - 1\<rparr>) else (True, sh2))
      else (True, sh1))"

definition pack_work_exit :: "shared \<Rightarrow> shared" where
  "pack_work_exit sh =
     (let sh1 = sh\<lparr>sh_pwork_users := sh_pwork_users sh - 1\<rparr> in
      if sh_pwork_users sh1 = 0 then sh1\<lparr>sh_pwork_cache := False\<rparr> else sh1)"

record share_results =
  sr_mmgr :: mmgr_results
  sr_pack :: bool
  sr_biow :: bool
  sr_pwork :: bool
  sr_iocored :: bool

text \<open>\<^verbatim>\<open>iocore_initialize\<close> on the shared state, with its chain of error labels; the name of the worker
  always fits.\<close>

definition iocore_share :: "share_results \<Rightarrow> shared \<Rightarrow> bool \<times> shared" where
  "iocore_share r sh =
     (let (ok0, sh0) = treemap_memory_manager_get (sr_mmgr r) sh in
      if \<not> ok0 then (False, sh0)
      else let (ok1, sh1) = pack_cache_get (sr_pack r) sh0 in
      if \<not> ok1 then (False, treemap_memory_manager_put sh1)
      else let (ok2, sh2) = bio_entry_init sh1 in
      if \<not> ok2 then (False, treemap_memory_manager_put (pack_cache_put sh2))
      else let (ok3, sh3) = bio_wrapper_init (sr_biow r) sh2 in
      if \<not> ok3 then (False, treemap_memory_manager_put (pack_cache_put (bio_entry_exit sh3)))
      else let (ok4, sh4) = pack_work_init (sr_pwork r) sh3 in
      if \<not> ok4 then (False, treemap_memory_manager_put (pack_cache_put (bio_entry_exit (bio_wrapper_exit sh4))))
      else if \<not> sr_iocored r then
        (False, treemap_memory_manager_put (pack_cache_put (bio_entry_exit (bio_wrapper_exit (pack_work_exit sh4)))))
      else (True, sh4))"

definition iocore_finalize :: "shared \<Rightarrow> shared" where
  "iocore_finalize sh = treemap_memory_manager_put (pack_cache_put (bio_entry_exit (bio_wrapper_exit (pack_work_exit sh))))"

definition mmgr_ok :: "nat \<Rightarrow> treemap_memory_manager \<Rightarrow> bool" where
  "mmgr_ok n m = (if 0 < n then is_valid_treemap_memory_manager m \<and> mm_is_kmem_cache m else mmgr_empty m)"

text \<open>With \<^verbatim>\<open>n\<close> started devices every count is \<^verbatim>\<open>n\<close> and everything exists exactly when \<^verbatim>\<open>n\<close> is not zero.\<close>

definition share_inv :: "nat \<Rightarrow> shared \<Rightarrow> bool" where
  "share_inv n sh =
     (sh_mmgr_users sh = int n \<and> sh_pack_users sh = int n \<and> sh_bioe_cnt sh = int n \<and> sh_biow_cnt sh = int n \<and>
      sh_pwork_users sh = int n \<and> (sh_pack_cache sh \<longleftrightarrow> 0 < n) \<and> (sh_biow_cache sh \<longleftrightarrow> 0 < n) \<and> (sh_pwork_cache sh \<longleftrightarrow> 0 < n) \<and>
      mmgr_ok n (sh_mmgr sh))"

lemmas share_op_defs = treemap_memory_manager_get_def treemap_memory_manager_put_def pack_cache_get_def pack_cache_put_def
  bio_entry_init_def bio_entry_exit_def bio_wrapper_init_def bio_wrapper_exit_def pack_work_init_def pack_work_exit_def

text \<open>Each operation alone, so that a chain of error labels undoes what was done.\<close>

lemma mmgr_get:
  assumes "treemap_memory_manager_get r sh = (ok, sh')" "sh_mmgr_users sh = int n" "mmgr_ok n (sh_mmgr sh)"
  obtains m where "sh' = sh\<lparr>sh_mmgr_users := int (if ok then Suc n else n), sh_mmgr := m\<rparr>" "mmgr_ok (if ok then Suc n else n) m"
proof -
  obtain ok' m where i: "initialize_treemap_memory_manager r = (ok', m)" by fastforce
  show thesis
  proof (cases n)
    case 0
    then have "sh' = sh\<lparr>sh_mmgr_users := int (if ok then Suc n else n), sh_mmgr := m\<rparr>" "ok = ok'"
      using assms i by (auto simp: treemap_memory_manager_get_def Let_def split: if_splits)
    then show ?thesis using that initialize_mmgr_cases [OF i] 0 by (auto simp: mmgr_ok_def)
  next
    case (Suc k)
    then have "sh' = sh\<lparr>sh_mmgr_users := int (Suc n), sh_mmgr := sh_mmgr sh\<rparr>" "ok"
      using assms by (auto simp: treemap_memory_manager_get_def Let_def split: if_splits)
    then show ?thesis using that [of "sh_mmgr sh"] assms(3) Suc by (simp add: mmgr_ok_def)
  qed
qed

lemma mmgr_put:
  assumes "sh_mmgr_users sh = int (Suc n)" "mmgr_ok (Suc n) (sh_mmgr sh)"
  obtains m where "treemap_memory_manager_put sh = sh\<lparr>sh_mmgr_users := int n, sh_mmgr := m\<rparr>" "mmgr_ok n m"
proof (rule that [of "if n = 0 then finalize_treemap_memory_manager (sh_mmgr sh) else sh_mmgr sh"])
  show "mmgr_ok n (if n = 0 then finalize_treemap_memory_manager (sh_mmgr sh) else sh_mmgr sh)"
    using assms(2) finalize_mmgr_empty by (simp add: mmgr_ok_def)
qed (use assms(1) in \<open>auto simp: treemap_memory_manager_put_def Let_def\<close>)

lemma pack_get:
  assumes "pack_cache_get c sh = (ok, sh')" "sh_pack_users sh = int n" "sh_pack_cache sh \<longleftrightarrow> 0 < n"
  shows "sh' = sh\<lparr>sh_pack_users := int (if ok then Suc n else n), sh_pack_cache := (ok \<or> 0 < n)\<rparr>"
  using assms by (cases n) (auto simp: pack_cache_get_def Let_def split: if_splits)

lemma pack_put:
  assumes "sh_pack_users sh = int (Suc n)" "sh_pack_cache sh"
  shows "pack_cache_put sh = sh\<lparr>sh_pack_users := int n, sh_pack_cache := (0 < n)\<rparr>"
  using assms by (cases n) (simp_all add: pack_cache_put_def Let_def)

lemma biow_get:
  assumes "bio_wrapper_init c sh = (ok, sh')" "sh_biow_cnt sh = int n" "sh_biow_cache sh \<longleftrightarrow> 0 < n"
  shows "sh' = sh\<lparr>sh_biow_cnt := int (Suc n), sh_biow_cache := (ok \<or> 0 < n)\<rparr>" "c \<or> 0 < n \<Longrightarrow> ok"
  using assms by (cases n; auto simp: bio_wrapper_init_def Let_def split: if_splits)+

lemma biow_put:
  assumes "sh_biow_cnt sh = int (Suc n)" "sh_biow_cache sh"
  shows "bio_wrapper_exit sh = sh\<lparr>sh_biow_cnt := int n, sh_biow_cache := (0 < n)\<rparr>"
  using assms by (cases n) (simp_all add: bio_wrapper_exit_def Let_def)

lemma pwork_get:
  assumes "pack_work_init c sh = (ok, sh')" "sh_pwork_users sh = int n" "sh_pwork_cache sh \<longleftrightarrow> 0 < n"
  shows "sh' = sh\<lparr>sh_pwork_users := int (if ok then Suc n else n), sh_pwork_cache := (ok \<or> 0 < n)\<rparr>"
  using assms by (cases n) (auto simp: pack_work_init_def Let_def split: if_splits)

lemma pwork_put:
  assumes "sh_pwork_users sh = int (Suc n)" "sh_pwork_cache sh"
  shows "pack_work_exit sh = sh\<lparr>sh_pwork_users := int n, sh_pwork_cache := (0 < n)\<rparr>"
  using assms by (cases n) (simp_all add: pack_work_exit_def Let_def)

lemma bioe_put: "sh_bioe_cnt sh = int (Suc n) \<Longrightarrow> bio_entry_exit sh = sh\<lparr>sh_bioe_cnt := int n\<rparr>"
  by (simp add: bio_entry_exit_def Let_def)

lemmas put_rules = pack_put biow_put pwork_put bioe_put

lemma mmgr_put_inv:
  assumes "share_inv n sh0" "sh = sh0\<lparr>sh_mmgr_users := int (Suc n), sh_mmgr := m\<rparr>" "mmgr_ok (Suc n) m"
  shows "share_inv n (treemap_memory_manager_put sh)"
proof -
  obtain m' where "treemap_memory_manager_put sh = sh\<lparr>sh_mmgr_users := int n, sh_mmgr := m'\<rparr>" "mmgr_ok n m'"
    using mmgr_put [of sh n] assms(2,3) by auto
  then show ?thesis using assms(1,2) by (simp add: share_inv_def)
qed

text \<open>The end of a device gives back what its start took from the shared state.\<close>

lemma iocore_finalize_balanced:
  assumes "share_inv (Suc n) sh"
  shows "share_inv n (iocore_finalize sh)"
proof -
  let ?sh = "sh\<lparr>sh_pwork_users := int n, sh_pwork_cache := (0 < n), sh_biow_cnt := int n, sh_biow_cache := (0 < n),
    sh_bioe_cnt := int n, sh_pack_users := int n, sh_pack_cache := (0 < n)\<rparr>"
  have e: "iocore_finalize sh = treemap_memory_manager_put ?sh"
    using assms by (simp add: iocore_finalize_def share_inv_def put_rules)
  obtain m where "treemap_memory_manager_put ?sh = ?sh\<lparr>sh_mmgr_users := int n, sh_mmgr := m\<rparr>" "mmgr_ok n m"
    using mmgr_put [of ?sh n] assms by (auto simp: share_inv_def)
  then show ?thesis by (simp add: e share_inv_def)
qed

text \<open>
  C25.  Starting and ending devices keeps the counts of the shared caches right, whichever allocation
  fails: a start that fails leaves the state of before, a start that succeeds one more user of
  everything, and the end of a device takes it back.  The exception is the cache of the bio
  wrappers, whose creation for the first device must not fail.
\<close>

theorem shared_caches_balanced:
  assumes "share_inv n sh" "sr_biow r \<or> 0 < n" "iocore_share r sh = (ok, sh')"
  shows "share_inv (if ok then Suc n else n) sh' \<and> (ok \<longrightarrow> share_inv n (iocore_finalize sh'))"
proof -
  obtain ok0 sh0 where 0: "treemap_memory_manager_get (sr_mmgr r) sh = (ok0, sh0)" by fastforce
  obtain m where m: "sh0 = sh\<lparr>sh_mmgr_users := int (if ok0 then Suc n else n), sh_mmgr := m\<rparr>" "mmgr_ok (if ok0 then Suc n else n) m"
    using mmgr_get [OF 0, of n] assms(1) by (auto simp: share_inv_def)
  obtain ok1 sh1 where 1: "pack_cache_get (sr_pack r) sh0 = (ok1, sh1)" by fastforce
  obtain ok3 sh3 where 3: "bio_wrapper_init (sr_biow r) (sh1\<lparr>sh_bioe_cnt := sh_bioe_cnt sh1 + 1\<rparr>) = (ok3, sh3)" by fastforce
  obtain ok4 sh4 where 4: "pack_work_init (sr_pwork r) sh3 = (ok4, sh4)" by fastforce
  note i = assms(1) [unfolded share_inv_def]
  have s1: "sh1 = sh0\<lparr>sh_pack_users := int (if ok1 then Suc n else n), sh_pack_cache := (ok1 \<or> 0 < n)\<rparr>"
    using pack_get [OF 1, of n] i m(1) by simp
  have s3: "sh3 = sh1\<lparr>sh_bioe_cnt := int (Suc n), sh_biow_cnt := int (Suc n), sh_biow_cache := True\<rparr>" and ok3: "ok3"
    using biow_get [OF 3, of n] i m(1) s1 assms(2) by (auto simp: add.commute)
  have s4: "sh4 = sh3\<lparr>sh_pwork_users := int (if ok4 then Suc n else n), sh_pwork_cache := (ok4 \<or> 0 < n)\<rparr>"
    using pwork_get [OF 4, of n] i m(1) s1 s3 by simp
  have "share_inv (if ok then Suc n else n) sh'"
  proof (cases ok0)
    case False
    then show ?thesis using assms(3) 0 m i by (auto simp: iocore_share_def share_inv_def)
  next
    case t0: True
    have put: "share_inv n (treemap_memory_manager_put x)"
      if "x = sh\<lparr>sh_mmgr_users := int (Suc n), sh_mmgr := m\<rparr>" for x
      using mmgr_put_inv [OF assms(1) that] m(2) t0 by simp
    consider (f1) "\<not> ok1" | (f4) "ok1" "\<not> ok4" | (f5) "ok1" "ok4" "\<not> sr_iocored r" | (s) "ok1" "ok4" "sr_iocored r" by blast
    then show ?thesis
    proof cases
      case f1
      then have "sh' = treemap_memory_manager_put sh1" "\<not> ok" using assms(3) 0 1 t0 by (auto simp: iocore_share_def)
      moreover have "sh1 = sh\<lparr>sh_mmgr_users := int (Suc n), sh_mmgr := m\<rparr>" using f1 s1 m(1) t0 i by simp
      ultimately show ?thesis using put by simp
    next
      case f4
      then have "sh' = treemap_memory_manager_put (pack_cache_put (bio_entry_exit (bio_wrapper_exit sh4)))" "\<not> ok"
        using assms(3) 0 1 3 4 t0 ok3 by (auto simp: iocore_share_def bio_entry_init_def)
      moreover have "pack_cache_put (bio_entry_exit (bio_wrapper_exit sh4)) = sh\<lparr>sh_mmgr_users := int (Suc n), sh_mmgr := m\<rparr>"
        using f4 s4 s3 s1 m(1) t0 i by (simp add: put_rules)
      ultimately show ?thesis using put by simp
    next
      case f5
      then have "sh' = treemap_memory_manager_put (pack_cache_put (bio_entry_exit (bio_wrapper_exit (pack_work_exit sh4))))" "\<not> ok"
        using assms(3) 0 1 3 4 t0 ok3 by (auto simp: iocore_share_def bio_entry_init_def)
      moreover have "pack_cache_put (bio_entry_exit (bio_wrapper_exit (pack_work_exit sh4))) = sh\<lparr>sh_mmgr_users := int (Suc n), sh_mmgr := m\<rparr>"
        using f5 s4 s3 s1 m(1) t0 i by (simp add: put_rules)
      ultimately show ?thesis using put by simp
    next
      case s
      then have "sh' = sh4" "ok" using assms(3) 0 1 3 4 t0 ok3 by (auto simp: iocore_share_def bio_entry_init_def)
      then show ?thesis using s s4 s3 s1 m t0 i by (simp add: share_inv_def)
    qed
  qed
  then show ?thesis using iocore_finalize_balanced by auto
qed

definition fresh_shared :: shared where
  "fresh_shared = \<lparr>sh_mmgr_users = 0, sh_mmgr = zero_mmgr, sh_pack_users = 0, sh_pack_cache = False, sh_bioe_cnt = 0, sh_biow_cnt = 0,
     sh_biow_cache = False, sh_pwork_users = 0, sh_pwork_cache = False\<rparr>"

definition all_created :: share_results where
  "all_created = \<lparr>sr_mmgr = \<lparr>mm_is_kmem_cache = True, mm_node_cache = True, mm_cell_head_cache = True, mm_cell_cache = True,
     mm_node_pool = True, mm_cell_head_pool = True, mm_cell_pool = True\<rparr>, sr_pack = True, sr_biow = True, sr_pwork = True, sr_iocored = True\<rparr>"

lemma fresh_shared_inv: "share_inv 0 fresh_shared"
  by (simp add: share_inv_def fresh_shared_def mmgr_ok_def mmgr_empty_def zero_mmgr_def)

theorem shared_caches_balanced_witness:
  "\<exists>sh'. iocore_share (all_created\<lparr>sr_pwork := False\<rparr>) fresh_shared = (False, sh') \<and> share_inv 0 sh'"
proof -
  obtain ok sh' where r: "iocore_share (all_created\<lparr>sr_pwork := False\<rparr>) fresh_shared = (ok, sh')" by fastforce
  then have "\<not> ok" by (auto simp: iocore_share_def share_op_defs fresh_shared_def all_created_def Let_def split: prod.splits if_splits)
  then show ?thesis using shared_caches_balanced [OF fresh_shared_inv _ r] r by (auto simp: all_created_def)
qed

text \<open>
  When the cache of the bio wrappers cannot be created for the first device, its start fails but
  the count stays; the next start then succeeds without the cache, and its bio wrappers would
  be allocated from a NULL cache.
\<close>

theorem bio_wrapper_cache_missing:
  assumes "share_inv 0 sh"
  shows "\<exists>sh1 sh2. iocore_share (all_created\<lparr>sr_biow := False\<rparr>) sh = (False, sh1) \<and> sh_biow_cnt sh1 = 1 \<and>
    iocore_share all_created sh1 = (True, sh2) \<and> \<not> sh_biow_cache sh2"
proof -
  obtain ok1 sh1 where 1: "iocore_share (all_created\<lparr>sr_biow := False\<rparr>) sh = (ok1, sh1)" by fastforce
  have f: "\<not> ok1" "sh_mmgr_users sh1 = 0" "sh_pack_users sh1 = 0" "sh_bioe_cnt sh1 = 0" "sh_biow_cnt sh1 = 1" "\<not> sh_biow_cache sh1" "sh_pwork_users sh1 = 0"
    using 1 assms by (auto simp: iocore_share_def share_op_defs all_created_def share_inv_def initialize_treemap_memory_manager_def zero_mmgr_def Let_def)
  obtain ok2 sh2 where 2: "iocore_share all_created sh1 = (ok2, sh2)" by fastforce
  then have "ok2" "\<not> sh_biow_cache sh2"
    using f by (auto simp: iocore_share_def share_op_defs all_created_def initialize_treemap_memory_manager_def zero_mmgr_def Let_def)
  with 1 2 f show ?thesis by auto
qed

theorem bio_wrapper_cache_missing_witness:
  "\<exists>sh1 sh2. iocore_share (all_created\<lparr>sr_biow := False\<rparr>) fresh_shared = (False, sh1) \<and> iocore_share all_created sh1 = (True, sh2) \<and>
    \<not> sh_biow_cache sh2"
  using bio_wrapper_cache_missing [OF fresh_shared_inv] by blast

section \<open>Loading the module\<close>

text \<open>What the module holds: its major number, whether the number is registered, the bio set, the
  workqueues, the table of devices and the control device.\<close>

record module_state =
  mo_major :: int
  mo_registered :: bool
  mo_bio_set :: bool
  mo_wq_normal :: bool
  mo_wq_unbound :: bool
  mo_wq_misc :: bool
  mo_idr :: bool
  mo_misc :: bool

record load_results =
  lr_register_blkdev :: "int \<Rightarrow> int \<times> bool"
  lr_bio_set_alloc :: bool
  lr_bioset_init :: bool
  lr_wq_normal :: bool
  lr_wq_unbound :: bool
  lr_wq_misc :: bool
  lr_misc_register :: int

text \<open>The bio set of kernels from 4.18 on.\<close>

definition walb_bio_set_init :: "load_results \<Rightarrow> module_state \<Rightarrow> bool \<times> module_state" where
  "walb_bio_set_init r mo =
     (if mo_bio_set mo then (True, mo)
      else if \<not> lr_bio_set_alloc r then (False, mo)
      else if \<not> lr_bioset_init r then (False, mo\<lparr>mo_bio_set := False\<rparr>)
      else (True, mo\<lparr>mo_bio_set := True\<rparr>))"

definition walb_bio_set_exit :: "module_state \<Rightarrow> module_state" where
  "walb_bio_set_exit mo = (if \<not> mo_bio_set mo then mo else mo\<lparr>mo_bio_set := False\<rparr>)"

definition finalize_workqueues :: "module_state \<Rightarrow> module_state" where
  "finalize_workqueues mo = mo\<lparr>mo_wq_misc := False, mo_wq_unbound := False, mo_wq_normal := False\<rparr>"

definition initialize_workqueues :: "load_results \<Rightarrow> module_state \<Rightarrow> bool \<times> module_state" where
  "initialize_workqueues r mo =
     (let mo1 = mo\<lparr>mo_wq_normal := lr_wq_normal r\<rparr>; mo2 = mo1\<lparr>mo_wq_unbound := lr_wq_unbound r\<rparr>; mo3 = mo2\<lparr>mo_wq_misc := lr_wq_misc r\<rparr> in
      if \<not> mo_wq_normal mo1 then (False, finalize_workqueues mo1)
      else if \<not> mo_wq_unbound mo2 then (False, finalize_workqueues mo2)
      else if \<not> mo_wq_misc mo3 then (False, finalize_workqueues mo3)
      else (True, mo3))"

definition alldevs_init :: "module_state \<Rightarrow> int \<times> module_state" where
  "alldevs_init mo = (0, mo\<lparr>mo_idr := True\<rparr>)"

definition alldevs_exit :: "module_state \<Rightarrow> module_state" where
  "alldevs_exit mo = mo\<lparr>mo_idr := False\<rparr>"

definition walb_control_init :: "load_results \<Rightarrow> module_state \<Rightarrow> int \<times> module_state" where
  "walb_control_init r mo = (if lr_misc_register r < 0 then (- 1, mo) else (0, mo\<lparr>mo_misc := True\<rparr>))"

definition walb_control_exit :: "module_state \<Rightarrow> module_state" where
  "walb_control_exit mo = mo\<lparr>mo_misc := False\<rparr>"

definition unregister_blkdev :: "module_state \<Rightarrow> module_state" where
  "unregister_blkdev mo = mo\<lparr>mo_registered := False\<rparr>"

definition ENOMEM_NO :: int where "ENOMEM_NO = 12"

definition walb_init :: "load_results \<Rightarrow> module_state \<Rightarrow> int \<times> module_state" where
  "walb_init r mo =
     (let (ret, granted) = lr_register_blkdev r (mo_major mo); mo0 = mo\<lparr>mo_major := ret, mo_registered := granted\<rparr> in
      if mo_major mo0 \<le> 0 then (- EBUSY, mo0)
      else let (ok1, mo1) = walb_bio_set_init r mo0 in
      if \<not> ok1 then (- ENOMEM_NO, unregister_blkdev mo1)
      else let (ok2, mo2) = initialize_workqueues r mo1 in
      if \<not> ok2 then (- ENOMEM_NO, unregister_blkdev (walb_bio_set_exit mo2))
      else let (ret3, mo3) = alldevs_init mo2 in
      if ret3 \<noteq> 0 then (- ENOMEM_NO, unregister_blkdev (walb_bio_set_exit (finalize_workqueues mo3)))
      else let (ret4, mo4) = walb_control_init r mo3 in
      if ret4 \<noteq> 0 then (- ENOMEM_NO, unregister_blkdev (walb_bio_set_exit (finalize_workqueues (alldevs_exit mo4))))
      else (0, mo4))"

text \<open>The end of \<^verbatim>\<open>walb_exit\<close>, after the devices.\<close>

definition walb_exit_module :: "module_state \<Rightarrow> module_state" where
  "walb_exit_module mo = walb_bio_set_exit (alldevs_exit (walb_control_exit (unregister_blkdev (finalize_workqueues mo))))"

definition holds_nothing :: "module_state \<Rightarrow> bool" where
  "holds_nothing mo = (\<not> mo_registered mo \<and> \<not> mo_bio_set mo \<and> \<not> mo_wq_normal mo \<and> \<not> mo_wq_unbound mo \<and> \<not> mo_wq_misc mo \<and>
     \<not> mo_idr mo \<and> \<not> mo_misc mo)"

definition holds_all :: "module_state \<Rightarrow> bool" where
  "holds_all mo = (mo_registered mo \<and> mo_bio_set mo \<and> mo_wq_normal mo \<and> mo_wq_unbound mo \<and> mo_wq_misc mo \<and> mo_idr mo \<and> mo_misc mo)"

text \<open>The documented result of \<^verbatim>\<open>register_blkdev\<close>: asked for any number it returns the number, asked
  for a certain number it returns 0; errors are negative.\<close>

definition blkdev_doc :: "(int \<Rightarrow> int \<times> bool) \<Rightarrow> bool" where
  "blkdev_doc reg = ((snd (reg 0) \<longleftrightarrow> 0 < fst (reg 0)) \<and>
     (\<forall>major > 0. fst (reg major) \<le> 0 \<and> (snd (reg major) \<longleftrightarrow> fst (reg major) = 0)))"

lemmas walb_init_defs = walb_init_def walb_bio_set_init_def walb_bio_set_exit_def finalize_workqueues_def initialize_workqueues_def
  alldevs_init_def alldevs_exit_def walb_control_init_def walb_control_exit_def unregister_blkdev_def

text \<open>
  C26.  Loading the module with the default major number either takes everything and returns 0, or
  returns an error and holds nothing, whichever step fails; unloading gives everything back.
\<close>

theorem module_load_all_or_nothing:
  assumes "blkdev_doc (lr_register_blkdev r)" "holds_nothing mo" "mo_major mo = 0" "walb_init r mo = (ret, mo')"
  shows "(ret = 0 \<and> holds_all mo' \<and> holds_nothing (walb_exit_module mo')) \<or> (ret < 0 \<and> holds_nothing mo')"
  using assms
  by (cases "lr_register_blkdev r 0")
    (auto simp: walb_init_defs blkdev_doc_def holds_nothing_def holds_all_def walb_exit_module_def ENOMEM_NO_def EBUSY_def Let_def split: if_splits)

definition kernel_ok :: load_results where
  "kernel_ok = \<lparr>lr_register_blkdev = (\<lambda>major. if major = 0 then (252, True) else (0, True)), lr_bio_set_alloc = True, lr_bioset_init = True,
     lr_wq_normal = True, lr_wq_unbound = True, lr_wq_misc = True, lr_misc_register = 0\<rparr>"

definition unloaded :: module_state where
  "unloaded = \<lparr>mo_major = 0, mo_registered = False, mo_bio_set = False, mo_wq_normal = False, mo_wq_unbound = False, mo_wq_misc = False,
     mo_idr = False, mo_misc = False\<rparr>"

lemma kernel_ok_doc: "blkdev_doc (lr_register_blkdev kernel_ok)"
  by (simp add: kernel_ok_def blkdev_doc_def)

theorem module_load_all_or_nothing_witness:
  "\<exists>mo'. walb_init (kernel_ok\<lparr>lr_misc_register := - 5\<rparr>) unloaded = (- 12, mo') \<and> holds_nothing mo'"
proof -
  let ?r = "kernel_ok\<lparr>lr_misc_register := - 5\<rparr>"
  obtain ret mo' where w: "walb_init ?r unloaded = (ret, mo')" by fastforce
  have "blkdev_doc (lr_register_blkdev ?r)" "holds_nothing unloaded" "mo_major unloaded = 0"
    using kernel_ok_doc by (simp_all add: holds_nothing_def unloaded_def)
  note m = module_load_all_or_nothing [OF this w]
  have "fst (walb_init ?r unloaded) = - 12" by code_simp
  then show ?thesis using m w by auto
qed

text \<open>With a major number as module parameter the load always fails, and a granted number stays
  registered.\<close>

theorem module_load_fixed_major:
  assumes "blkdev_doc (lr_register_blkdev r)" "0 < mo_major mo" "walb_init r mo = (ret, mo')"
  shows "ret = - EBUSY \<and> (snd (lr_register_blkdev r (mo_major mo)) \<longrightarrow> mo_registered mo')"
  using assms
  by (cases "lr_register_blkdev r (mo_major mo)") (fastforce simp: walb_init_def blkdev_doc_def Let_def split: if_splits)

theorem module_load_fixed_major_witness:
  "\<exists>mo'. walb_init kernel_ok (unloaded\<lparr>mo_major := 250\<rparr>) = (- EBUSY, mo') \<and> mo_registered mo'"
proof -
  obtain ret mo' where w: "walb_init kernel_ok (unloaded\<lparr>mo_major := 250\<rparr>) = (ret, mo')" by fastforce
  from module_load_fixed_major [OF kernel_ok_doc _ w] w show ?thesis by (simp add: unloaded_def kernel_ok_def)
qed

end
