(* ===== verification/Spec2Isabelle.thy ===== *)
theory Spec2Isabelle
  imports Walb_Sector Walb_Format Walb_Tasks Walb_Worker Walb_Sysfs Walb_Module
begin

text \<open>
  Verification of the WalB driver: a Linux block device that writes every write IO to a log
  device ahead of the data device.

  \<^bold>\<open>The program.\<close>  A write request enters \<^verbatim>\<open>iocore_make_request\<close> and is queued.  The log
  submission task packs queued writes into logpacks, a header sector with one record per write
  followed by the data, and writes them to the ring buffer of the log device.  The waiting task
  completes the requests of a logpack whose log IOs are done, puts the writes into the pending
  data and queues their data IOs.  The data submission task waits until the log of a batch is
  permanent, serializes overlapping writes and submits the batch to the data device; another
  task waits for the data IOs, and the garbage collection releases finished logpacks and
  advances the written lsid.  Reads are answered from pending data where it covers them and
  from the data device elsewhere.  Checkpointing stores the written lsid in the super sector.

  \<^bold>\<open>The model.\<close>  C integers are words of their width, structures are records, pointers to
  wrappers are addresses into a store, kernel allocations and device results are arguments,
  undefined behaviour and loops that do not end are \<^const>\<open>None\<close>.  The model is the release
  build, in which assertions expand to nothing.

  \<^item> \<^verbatim>\<open>Walb_Prelude\<close>: integer types, transition systems with inductive invariants, words and lists.
  \<^item> \<^verbatim>\<open>Walb_Bits\<close>, \<^verbatim>\<open>Walb_Block_Size\<close>, \<^verbatim>\<open>Walb_Sector\<close>: \<^verbatim>\<open>u32bits.h\<close>, \<^verbatim>\<open>u64bits.h\<close>, \<^verbatim>\<open>checksum.h\<close>,
    \<^verbatim>\<open>util.h\<close>, \<^verbatim>\<open>block_size.h\<close>, \<^verbatim>\<open>sector.h\<close>: bit operations, checksums of byte sequences in any
    division, conversions between block counts, sector arrays as flat byte sequences.
  \<^item> \<^verbatim>\<open>Walb_Log_Record\<close>, \<^verbatim>\<open>Walb_Logpack\<close>: \<^verbatim>\<open>log_record.h\<close>, \<^verbatim>\<open>super.h\<close>, \<^verbatim>\<open>log_device.h\<close>,
    \<^verbatim>\<open>module/logpack.c\<close>: the on-disk structures with their bytes and validity checks, and the
    construction of a logpack with padding at the end of the ring buffer.
  \<^item> \<^verbatim>\<open>Walb_Bio\<close>, \<^verbatim>\<open>Walb_Bio_Wrapper\<close>: \<^verbatim>\<open>bio_util.h\<close>, \<^verbatim>\<open>bio_entry.c\<close>, \<^verbatim>\<open>bio_wrapper.c\<close>: splitting at
    chunk boundaries, copying between overlapping IOs.  The kernel's \<^verbatim>\<open>bio_split\<close> is a parameter
    with the laws of the locale \<^verbatim>\<open>bio_splitter\<close>, which \<^verbatim>\<open>cut_bio\<close> satisfies.
  \<^item> \<^verbatim>\<open>Walb_Rbtree\<close>, \<^verbatim>\<open>Walb_Treemap\<close>, \<^verbatim>\<open>Walb_Multimap\<close>: \<^verbatim>\<open>tool/lib/rbtree.c\<close> on zippers, and
    \<^verbatim>\<open>module/treemap.c\<close> as finite maps and multimaps over any library that satisfies the locale
    \<^verbatim>\<open>rb_contract\<close>, which the tree library of the repository does.
  \<^item> \<^verbatim>\<open>Walb_Biow_Index\<close>, \<^verbatim>\<open>Walb_Overlapped\<close>, \<^verbatim>\<open>Walb_Pending\<close>: \<^verbatim>\<open>overlapped_io.c\<close>, \<^verbatim>\<open>pending_io.c\<close>:
    multimaps of wrappers by position; serialization in all interleavings, progress, and the write
    that a failed insertion leaves marked as delayed; reads through pending writes.
  \<^item> \<^verbatim>\<open>Walb_Pack\<close>, \<^verbatim>\<open>Walb_Log_Submit\<close>: packing of queued writes, checksums, the layout of the
    submitted log IOs (\<^verbatim>\<open>module/io.c\<close>).
  \<^item> \<^verbatim>\<open>Walb_Device\<close>, \<^verbatim>\<open>Walb_Wdev_Util\<close>: \<^verbatim>\<open>kern.h\<close>, \<^verbatim>\<open>super.c\<close>, \<^verbatim>\<open>sector_io.c\<close>, \<^verbatim>\<open>wdev_util.c\<close>:
    the device, the super sector, the lsids.  Block devices are a parameter \<^verbatim>\<open>block_ops\<close>.
  \<^item> \<^verbatim>\<open>Walb_Wal\<close>: the write-ahead rule in all interleavings of the tasks that move lsids.
  \<^item> \<^verbatim>\<open>Walb_Checkpoint\<close>: \<^verbatim>\<open>checkpoint.c\<close>, its critical sections and their interleavings.
  \<^item> \<^verbatim>\<open>Walb_Iocore\<close>: the remaining operations of \<^verbatim>\<open>module/io.c\<close>: requests, pending data and the
    stopped queue, waiting for logpacks, data IOs and the garbage collection.
  \<^item> \<^verbatim>\<open>Walb_Tasks\<close>: the four tasks of \<^verbatim>\<open>module/io.c\<close> as whole loops, one list element per turn, with
    the waiting for room in the ring buffer; and the working bits in all interleavings of requests
    and tasks: no task runs twice at once and no queue entry is left behind.
  \<^item> \<^verbatim>\<open>Walb_Worker\<close>: \<^verbatim>\<open>worker.c\<close>: a worker thread, its wakeups and its end.  The function of a worker
    satisfies the locale \<^verbatim>\<open>worker_function\<close>, as the garbage collection does.
  \<^item> \<^verbatim>\<open>Walb_Sysfs\<close>: \<^verbatim>\<open>sysfs.c\<close>: the texts of the attributes, their size and what they determine.
  \<^item> \<^verbatim>\<open>Walb_Freeze\<close>: freezing and melting (\<^verbatim>\<open>wdev_util.c\<close>, \<^verbatim>\<open>io.c\<close>) in all interleavings of handlers and
    the melt work; the IO tasks are a parameter with the laws of the locale \<^verbatim>\<open>iocore_tasks\<close>.
  \<^item> \<^verbatim>\<open>Walb_Wdev_Ioctl\<close>: the ioctls of a device (\<^verbatim>\<open>wdev_ioctl.c\<close>), among them resizing and clearing
    the log, and the transfer of the control structure (\<^verbatim>\<open>control.c\<close>).
  \<^item> \<^verbatim>\<open>Walb_Redo\<close>: \<^verbatim>\<open>redo.c\<close>: the log after the written lsid is replayed up to the first invalid
    record, and a partially valid logpack is rewritten.
  \<^item> \<^verbatim>\<open>Walb_Alldevs\<close>: \<^verbatim>\<open>alldevs.c\<close> over the idr of the kernel, which the locale \<^verbatim>\<open>idr_contract\<close>
    describes and association lists satisfy.
  \<^item> \<^verbatim>\<open>Walb_Start\<close>, \<^verbatim>\<open>Walb_Control\<close>: \<^verbatim>\<open>walb.c\<close>, \<^verbatim>\<open>control.c\<close>: preparing a device from its super sector
    and its log, the life of a device, the commands of the control device with every error
    path, and the end of the module.
  \<^item> \<^verbatim>\<open>Walb_Module\<close>: what the module and its devices take from the kernel: the memory manager of the tree
    maps, the caches shared by the devices with their user counts, and the loading and unloading
    of the module with every error path.
  \<^item> \<^verbatim>\<open>Walb_Tool_Io\<close>, \<^verbatim>\<open>Walb_Tool_Log\<close>, \<^verbatim>\<open>Walb_Ctl\<close>: the control tool.  The sector IO of
    \<^verbatim>\<open>tool/util.c\<close> and \<^verbatim>\<open>tool/walb_util.c\<close> over system calls that may transfer less than asked for,
    the logpacks of \<^verbatim>\<open>tool/logpack.c\<close> on a log device and in a stream, and the options and
    commands of \<^verbatim>\<open>tool/walbctl.c\<close>; the driver behind an ioctl is an argument, and for creating
    a device it is instantiated with \<^verbatim>\<open>dispatch_ioctl\<close>.
  \<^item> \<^verbatim>\<open>Walb_Log_Stream\<close>, \<^verbatim>\<open>Walb_Format\<close>: what the commands achieve.  A log of complete logpacks is
    described by headers and data on the bytes of the log device; sending it with \<^verbatim>\<open>cat_wldev\<close>
    and replaying the stream with \<^verbatim>\<open>redo_wlog\<close>, or replaying the device with \<^verbatim>\<open>redo\<close>, writes the
    logged data as the driver's redo does; a formatted device has an empty log.

  \<^bold>\<open>Loops.\<close>  Loops over kernel structures are structural recursion; \<^verbatim>\<open>partial_function\<close> is used
  where a loop depends on a parameter, and then the theorems state that it returns.

  \<^bold>\<open>Not modelled.\<close>  Printing, performance timestamps, IO accounting, registration with the
  kernel, the limits of the block queues, the scheduling of threads and workqueues, the help
  texts of the control tool, and its trim and test programs.
\<close>

end
